(* ===== verification/Rfd_Prelude.thy ===== *)
theory Rfd_Prelude
  imports Main "HOL-Library.Word" "HOL-Library.Char_ord"
begin

text \<open>
  Shared vocabulary of the development: byte strings, results and diagnostics
  (\<^verbatim>\<open>src/src/diagnostics.rs\<close>), the parts of Rust's standard library that the modelled
  code relies on (\<^verbatim>\<open>from_utf8\<close>, \<^verbatim>\<open>from_utf8_lossy\<close>, \<^verbatim>\<open>char::from\<close>,
  \<^verbatim>\<open>parse\<close> for unsigned integers, decimal rendering), and the lemma collections the
  component theories use.

  A byte is an 8-bit \<^typ>\<open>char\<close>, a Rust \<^verbatim>\<open>OsString\<close>, \<^verbatim>\<open>Vec<u8>\<close> or UTF-8
  \<^verbatim>\<open>String\<close> is the list of its encoded bytes, which is what the code looks at through
  \<^verbatim>\<open>as_encoded_bytes\<close>.  The model is the one of a Unix host.
\<close>

section \<open>Results and diagnostics\<close>

named_theorems result_simps \<open>rewriting of the question-mark operator on results\<close>

type_synonym byte = char
type_synonym os_string = string

record diagnostic =
  message :: string
  exit_code :: int

type_synonym 'a result = "diagnostic + 'a"

definition diagnostic_new :: "string \<Rightarrow> int \<Rightarrow> diagnostic" where
  "diagnostic_new msg code = \<lparr>message = msg, exit_code = code\<rparr>"

definition diagnostic_parse :: "string \<Rightarrow> diagnostic" where
  "diagnostic_parse msg = diagnostic_new msg 1"

definition diagnostic_unsupported :: "string \<Rightarrow> diagnostic" where
  "diagnostic_unsupported msg = diagnostic_new msg 1"

definition failed_to_write :: "string \<Rightarrow> string \<Rightarrow> diagnostic" where
  "failed_to_write target err =
     diagnostic_new (''failed to write '' @ target @ '': '' @ err) 1"

definition internal_unavailable :: "string \<Rightarrow> diagnostic" where
  "internal_unavailable resource =
     diagnostic_new (''internal error: '' @ resource @ '' is unavailable'') 1"

definition internal_poisoned :: "string \<Rightarrow> diagnostic" where
  "internal_poisoned resource =
     diagnostic_new (''internal error: '' @ resource @ '' was poisoned'') 1"

definition runtime_stderr_line :: "string \<Rightarrow> string" where
  "runtime_stderr_line msg = ''rfd: '' @ msg @ [CHR 0x0A]"

lemma diagnostic_new_fields [simp]:
  "message (diagnostic_new m c) = m" "exit_code (diagnostic_new m c) = c"
  by (simp_all add: diagnostic_new_def)

lemma diagnostic_parse_exit_code [simp]: "exit_code (diagnostic_parse m) = 1"
  by (simp add: diagnostic_parse_def)

lemma diagnostic_unsupported_exit_code [simp]: "exit_code (diagnostic_unsupported m) = 1"
  by (simp add: diagnostic_unsupported_def)

text \<open>Rust's \<open>?\<close>: the error is returned at once, a value goes to the continuation.\<close>

definition try_bind :: "'e + 'a \<Rightarrow> ('a \<Rightarrow> 'e + 'b) \<Rightarrow> 'e + 'b" where
  "try_bind r f = (case r of Inl e \<Rightarrow> Inl e | Inr x \<Rightarrow> f x)"

lemma try_bind_simps [simp, result_simps]:
  "try_bind (Inl e) f = Inl e"
  "try_bind (Inr x) f = f x"
  by (simp_all add: try_bind_def)

lemma try_bind_Inr_iff [result_simps]:
  "try_bind r f = Inr y \<longleftrightarrow> (\<exists>x. r = Inr x \<and> f x = Inr y)"
  by (cases r) auto

lemma try_bind_Inl_iff [result_simps]:
  "try_bind r f = Inl e \<longleftrightarrow> r = Inl e \<or> (\<exists>x. r = Inr x \<and> f x = Inl e)"
  by (cases r) auto

lemma try_bind_assoc: "try_bind (try_bind r f) g = try_bind r (\<lambda>x. try_bind (f x) g)"
  by (cases r) auto

lemma try_bind_Inr [simp]: "try_bind r Inr = r"
  by (cases r) auto

lemma try_bind_cong [fundef_cong]:
  "r = r' \<Longrightarrow> (\<And>x. r' = Inr x \<Longrightarrow> f x = g x) \<Longrightarrow> try_bind r f = try_bind r' g"
  by (cases r') auto

definition map_err :: "('e \<Rightarrow> 'e2) \<Rightarrow> 'e + 'a \<Rightarrow> 'e2 + 'a" where
  "map_err f r = (case r of Inl e \<Rightarrow> Inl (f e) | Inr x \<Rightarrow> Inr x)"

definition ok_or :: "'e \<Rightarrow> 'a option \<Rightarrow> 'e + 'a" where
  "ok_or e m = (case m of None \<Rightarrow> Inl e | Some x \<Rightarrow> Inr x)"

lemma ok_or_simps [simp, result_simps]:
  "ok_or e None = Inl e" "ok_or e (Some x) = Inr x"
  by (simp_all add: ok_or_def)

lemma ok_or_Inr_iff [result_simps]: "ok_or e m = Inr x \<longleftrightarrow> m = Some x"
  by (cases m) auto

text \<open>A loop that collects results and returns the first error.\<close>

fun map_result :: "('a \<Rightarrow> 'e + 'b) \<Rightarrow> 'a list \<Rightarrow> 'e + 'b list" where
  "map_result f [] = Inr []"
| "map_result f (x # xs) =
     try_bind (f x) (\<lambda>y. try_bind (map_result f xs) (\<lambda>ys. Inr (y # ys)))"

lemma map_result_cong [fundef_cong]:
  "xs = ys \<Longrightarrow> (\<And>x. x \<in> set ys \<Longrightarrow> f x = g x) \<Longrightarrow> map_result f xs = map_result g ys"
  by (induction xs arbitrary: ys) auto

lemma map_result_Inr_length: "map_result f xs = Inr ys \<Longrightarrow> length ys = length xs"
  by (induction xs arbitrary: ys) (auto simp: result_simps)

section \<open>Slices\<close>

text \<open>Rust's checked slice access \<^verbatim>\<open>get\<close>.\<close>

definition slice_get :: "'a list \<Rightarrow> nat \<Rightarrow> 'a option" where
  "slice_get xs i = (if i < length xs then Some (xs ! i) else None)"

lemma slice_get_None_iff [simp]: "slice_get xs i = None \<longleftrightarrow> length xs \<le> i"
  by (simp add: slice_get_def)

lemma slice_get_Some_iff: "slice_get xs i = Some x \<longleftrightarrow> i < length xs \<and> xs ! i = x"
  by (simp add: slice_get_def)

lemma slice_get_Nil [simp]: "slice_get [] i = None"
  by (simp add: slice_get_def)

lemma slice_get_Cons_0 [simp]: "slice_get (x # xs) 0 = Some x"
  by (simp add: slice_get_def)

lemma slice_get_Cons_Suc [simp]: "slice_get (x # xs) (Suc i) = slice_get xs i"
  by (simp add: slice_get_def)

lemma drop_slice_get:
  "drop i xs = (case slice_get xs i of None \<Rightarrow> [] | Some x \<Rightarrow> x # drop (Suc i) xs)"
  by (simp add: slice_get_def Cons_nth_drop_Suc)

text \<open>Rust's \<^verbatim>\<open>split_once\<close> on a single byte and \<^verbatim>\<open>split\<close> on a byte.\<close>

fun split_once :: "byte \<Rightarrow> string \<Rightarrow> (string \<times> string) option" where
  "split_once d [] = None"
| "split_once d (c # cs) =
     (if c = d then Some ([], cs)
      else map_option (\<lambda>(l, r). (c # l, r)) (split_once d cs))"

fun split_on :: "byte \<Rightarrow> string \<Rightarrow> string list" where
  "split_on d [] = [[]]"
| "split_on d (c # cs) =
     (if c = d then [] # split_on d cs
      else (case split_on d cs of [] \<Rightarrow> [[c]] | w # ws \<Rightarrow> (c # w) # ws))"

lemma split_on_nonempty [simp]: "split_on d s \<noteq> []"
  by (induction s) (auto split: list.splits)

lemma split_once_Some: "split_once d s = Some (l, r) \<Longrightarrow> s = l @ d # r \<and> d \<notin> set l"
  by (induction s arbitrary: l r) (auto split: if_splits)

lemma split_once_None: "split_once d s = None \<longleftrightarrow> d \<notin> set s"
  by (induction s) (auto split: if_splits)

lemma split_once_append: "d \<notin> set l \<Longrightarrow> split_once d (l @ d # r) = Some (l, r)"
  by (induction l) auto

section \<open>UTF-8\<close>

definition byte_val :: "byte \<Rightarrow> nat" where
  "byte_val c = of_char c"

definition in_range :: "nat \<Rightarrow> nat \<Rightarrow> byte \<Rightarrow> bool" where
  "in_range lo hi c \<longleftrightarrow> lo \<le> byte_val c \<and> byte_val c \<le> hi"

text \<open>
  One step of the decoder behind \<^verbatim>\<open>str::from_utf8\<close> and \<^verbatim>\<open>String::from_utf8_lossy\<close>: whether
  the next sequence is valid, and how many bytes belong to it (for an invalid one, the length
  of the maximal prefix of a valid sequence, at least one byte).
\<close>

definition second_ok :: "nat \<Rightarrow> byte \<Rightarrow> bool" where
  "second_ok b0 c =
     (if b0 = 0xE0 then in_range 0xA0 0xBF c
      else if b0 = 0xED then in_range 0x80 0x9F c
      else if b0 = 0xF0 then in_range 0x90 0xBF c
      else if b0 = 0xF4 then in_range 0x80 0x8F c
      else in_range 0x80 0xBF c)"

definition byte_at :: "string \<Rightarrow> nat \<Rightarrow> byte" where
  "byte_at s i = (case slice_get s i of None \<Rightarrow> CHR 0x00 | Some c \<Rightarrow> c)"

definition utf8_step :: "byte \<Rightarrow> string \<Rightarrow> bool \<times> nat" where
  "utf8_step c cs =
     (let b0 = byte_val c; cont = (\<lambda>i. in_range 0x80 0xBF (byte_at cs i)) in
      if b0 < 0x80 then (True, 1)
      else if 0xC2 \<le> b0 \<and> b0 \<le> 0xDF then (if cont 0 then (True, 2) else (False, 1))
      else if 0xE0 \<le> b0 \<and> b0 \<le> 0xEF then
        (if \<not> second_ok b0 (byte_at cs 0) then (False, 1)
         else if \<not> cont 1 then (False, 2) else (True, 3))
      else if 0xF0 \<le> b0 \<and> b0 \<le> 0xF4 then
        (if \<not> second_ok b0 (byte_at cs 0) then (False, 1)
         else if \<not> cont 1 then (False, 2)
         else if \<not> cont 2 then (False, 3) else (True, 4))
      else (False, 1))"

lemma utf8_step_pos: "0 < snd (utf8_step c cs)"
  by (auto simp: utf8_step_def Let_def)

function utf8_lossy :: "string \<Rightarrow> string" where
  "utf8_lossy [] = []"
| "utf8_lossy (c # cs) =
     (let (ok, n) = utf8_step c cs in
      (if ok then take n (c # cs) else [CHR 0xEF, CHR 0xBF, CHR 0xBD])
      @ utf8_lossy (drop n (c # cs)))"
  by pat_completeness auto
termination
proof (relation "measure length", goal_cases)
  case (2 c cs x ok n)
  then have "0 < n" using utf8_step_pos [of c cs] by (metis snd_conv)
  then show ?case by simp
qed simp

function is_utf8 :: "string \<Rightarrow> bool" where
  "is_utf8 [] = True"
| "is_utf8 (c # cs) =
     (let (ok, n) = utf8_step c cs in ok \<and> is_utf8 (drop n (c # cs)))"
  by pat_completeness auto
termination
proof (relation "measure length", goal_cases)
  case (2 c cs x ok n)
  then have "0 < n" using utf8_step_pos [of c cs] by (metis snd_conv)
  then show ?case by simp
qed simp

lemma utf8_lossy_valid: "is_utf8 s \<Longrightarrow> utf8_lossy s = s"
proof (induction s rule: utf8_lossy.induct)
  case (2 c cs)
  obtain ok n where step: "utf8_step c cs = (ok, n)" by force
  with 2 show ?case by simp
qed simp

definition is_ascii :: "byte \<Rightarrow> bool" where
  "is_ascii c \<longleftrightarrow> byte_val c < 0x80"

lemma is_utf8_ascii: "list_all is_ascii s \<Longrightarrow> is_utf8 s"
  by (induction s) (auto simp: is_ascii_def utf8_step_def)

lemma utf8_lossy_ascii: "list_all is_ascii s \<Longrightarrow> utf8_lossy s = s"
  by (simp add: is_utf8_ascii utf8_lossy_valid)

text \<open>\<^verbatim>\<open>char::from(u8)\<close> pushed to a string: the Latin-1 code point in UTF-8.\<close>

definition char_from_u8 :: "byte \<Rightarrow> string" where
  "char_from_u8 c =
     (if is_ascii c then [c]
      else [char_of (0xC0 + byte_val c div 64), char_of (0x80 + byte_val c mod 64 :: nat)])"

section \<open>Decimal numbers\<close>

definition is_ascii_digit :: "byte \<Rightarrow> bool" where
  "is_ascii_digit c \<longleftrightarrow> in_range 48 57 c"

definition digit_val :: "byte \<Rightarrow> nat" where
  "digit_val c = byte_val c - 48"

definition digit_char :: "nat \<Rightarrow> byte" where
  "digit_char d = char_of (48 + d)"

fun digits_val :: "nat \<Rightarrow> nat \<Rightarrow> string \<Rightarrow> nat" where
  "digits_val base acc [] = acc"
| "digits_val base acc (c # cs) = digits_val base (acc * base + digit_val c) cs"

abbreviation dec_val :: "string \<Rightarrow> nat" where
  "dec_val s \<equiv> digits_val 10 0 s"

text \<open>
  \<^verbatim>\<open>str::parse\<close> for an unsigned type of width \<open>LENGTH('a)\<close>: an optional \<open>+\<close>, at least
  one digit, digits only, and no overflow.
\<close>

definition strip_plus :: "string \<Rightarrow> string" where
  "strip_plus s = (case s of c # cs \<Rightarrow> if c = CHR ''+'' then cs else s | [] \<Rightarrow> [])"

definition parse_uint :: "string \<Rightarrow> 'a::len word option" where
  "parse_uint s =
     (let ds = strip_plus s in
      if ds = [] \<or> \<not> list_all is_ascii_digit ds \<or> 2 ^ LENGTH('a) \<le> dec_val ds then None
      else Some (of_nat (dec_val ds)))"

text \<open>Decimal rendering (\<^verbatim>\<open>to_string\<close>, \<^verbatim>\<open>{}\<close>).\<close>

fun show_nat :: "nat \<Rightarrow> string" where
  "show_nat n = (if n < 10 then [digit_char n] else show_nat (n div 10) @ [digit_char (n mod 10)])"

declare show_nat.simps [simp del]

lemma byte_val_char_of: "n < 256 \<Longrightarrow> byte_val (char_of n) = n"
  by (simp add: byte_val_def)

lemma byte_val_less [simp]: "byte_val c < 256"
  by (cases c) (simp add: byte_val_def of_char_Char horner_sum_simps)

lemma digit_char_props [simp]:
  assumes "d < 10"
  shows "is_ascii_digit (digit_char d)" "digit_val (digit_char d) = d"
  using assms
  by (simp_all add: digit_char_def is_ascii_digit_def in_range_def digit_val_def byte_val_char_of)

lemma digits_val_append:
  "digits_val b acc (xs @ ys) = digits_val b (digits_val b acc xs) ys"
  by (induction xs arbitrary: acc) auto

lemma show_nat_props:
  "show_nat n \<noteq> [] \<and> list_all is_ascii_digit (show_nat n) \<and> dec_val (show_nat n) = n"
proof (induction n rule: show_nat.induct)
  case (1 n)
  then show ?case
    by (cases "n < 10") (simp_all add: show_nat.simps [of n] digits_val_append)
qed

lemma digit_not_sign: "is_ascii_digit c \<Longrightarrow> c \<noteq> CHR ''+'' \<and> c \<noteq> CHR ''-''"
  by (auto simp: is_ascii_digit_def in_range_def byte_val_def)

lemma strip_plus_digits: "list_all is_ascii_digit s \<Longrightarrow> strip_plus s = s"
  by (auto simp: strip_plus_def dest: digit_not_sign split: list.splits)

lemma parse_uint_show_nat:
  "n < 2 ^ LENGTH('a) \<Longrightarrow> parse_uint (show_nat n) = Some (of_nat n :: 'a::len word)"
  using show_nat_props [of n] by (simp add: parse_uint_def strip_plus_digits Let_def)

lemma is_ascii_digit_is_ascii: "is_ascii_digit c \<Longrightarrow> is_ascii c"
  by (simp add: is_ascii_digit_def in_range_def is_ascii_def)

lemma show_nat_ascii: "list_all is_ascii (show_nat n)"
  using show_nat_props [of n] by (metis is_ascii_digit_is_ascii list.pred_mono_strong)

section \<open>Case folding\<close>

definition to_ascii_lowercase :: "byte \<Rightarrow> byte" where
  "to_ascii_lowercase c = (if in_range 65 90 c then char_of (byte_val c + 32) else c)"

lemma to_ascii_lowercase_idem [simp]:
  "to_ascii_lowercase (to_ascii_lowercase c) = to_ascii_lowercase c"
  by (auto simp: to_ascii_lowercase_def in_range_def byte_val_char_of)

section \<open>Signed 64-bit arithmetic\<close>

text \<open>
  An \<^verbatim>\<open>i64\<close> is an integer in range; \<open>checked_i64\<close> is the result of Rust's
  \<^verbatim>\<open>checked_add\<close>, \<^verbatim>\<open>checked_sub\<close> and \<^verbatim>\<open>checked_mul\<close> on the exact value.
\<close>

definition i64_min :: int where "i64_min = - 9223372036854775808"
definition i64_max :: int where "i64_max = 9223372036854775807"

definition in_i64 :: "int \<Rightarrow> bool" where
  "in_i64 x \<longleftrightarrow> i64_min \<le> x \<and> x \<le> i64_max"

definition checked_i64 :: "int \<Rightarrow> int option" where
  "checked_i64 x = (if in_i64 x then Some x else None)"

text \<open>\<^verbatim>\<open>str::parse\<close> for \<^verbatim>\<open>i64\<close>.\<close>

definition parse_i64 :: "string \<Rightarrow> int option" where
  "parse_i64 s =
     (let (neg, ds) =
        (case s of
           c # cs \<Rightarrow>
             if c = CHR ''-'' then (True, cs) else if c = CHR ''+'' then (False, cs) else (False, s)
         | [] \<Rightarrow> (False, s))
      in if ds = [] \<or> \<not> list_all is_ascii_digit ds then None
         else checked_i64 (if neg then - int (dec_val ds) else int (dec_val ds)))"

lemma parse_i64_digits:
  assumes "list_all is_ascii_digit s" "s \<noteq> []"
  shows "parse_i64 s = checked_i64 (int (dec_val s))"
  using assms by (cases s) (auto simp: parse_i64_def dest: digit_not_sign)

end
