(* ===== verification/Numeric.thy ===== *)
theory Numeric
  imports Rfd_Prelude
begin

text \<open>
  Numeric and size operands: \<^verbatim>\<open>src/src/numeric.rs\<close> (\<^verbatim>\<open>-uid\<close>, \<^verbatim>\<open>-gid\<close>,
  \<^verbatim>\<open>-inum\<close>, \<^verbatim>\<open>-links\<close>) and \<^verbatim>\<open>src/src/size.rs\<close> (\<^verbatim>\<open>-size\<close>).  All values are
  64-bit words.
\<close>

type_synonym u64 = "64 word"

section \<open>numeric.rs\<close>

datatype numeric_comparison = NumExactly u64 | NumLessThan u64 | NumGreaterThan u64

datatype comparison_kind = KindExactly | KindLessThan | KindGreaterThan

fun numeric_matches :: "numeric_comparison \<Rightarrow> u64 \<Rightarrow> bool" where
  "numeric_matches (NumExactly expected) actual = (actual = expected)"
| "numeric_matches (NumLessThan expected) actual = (actual < expected)"
| "numeric_matches (NumGreaterThan expected) actual = (actual > expected)"

definition invalid_numeric_argument :: "string \<Rightarrow> os_string \<Rightarrow> diagnostic" where
  "invalid_numeric_argument flag val =
     diagnostic_parse (''invalid numeric argument for `'' @ flag @ ''`: `'' @ utf8_lossy val @ ''`'')"

text \<open>The slice pattern shared by the numeric, size and time operands: a sign, then the rest.\<close>

definition split_sign :: "string \<Rightarrow> comparison_kind \<times> string" where
  "split_sign bytes =
     (case bytes of
        c # rest \<Rightarrow>
          if c = CHR ''+'' then (KindGreaterThan, rest)
          else if c = CHR ''-'' then (KindLessThan, rest)
          else (KindExactly, bytes)
      | [] \<Rightarrow> (KindExactly, bytes))"

fun comparison_of :: "comparison_kind \<Rightarrow> u64 \<Rightarrow> numeric_comparison" where
  "comparison_of KindExactly n = NumExactly n"
| "comparison_of KindLessThan n = NumLessThan n"
| "comparison_of KindGreaterThan n = NumGreaterThan n"

definition parse_numeric_argument :: "string \<Rightarrow> os_string \<Rightarrow> numeric_comparison result" where
  "parse_numeric_argument flag val =
     (let (kind, digits) = split_sign val in
      if digits = [] then Inl (invalid_numeric_argument flag val)
      else try_bind (ok_or (invalid_numeric_argument flag val) (parse_uint (utf8_lossy digits)))
             (\<lambda>parsed. Inr (comparison_of kind parsed)))"

definition validate_numeric_argument :: "string \<Rightarrow> os_string \<Rightarrow> unit result" where
  "validate_numeric_argument flag val =
     try_bind (parse_numeric_argument flag val) (\<lambda>_. Inr ())"

text \<open>The operand's sign for a comparison, and its rendering.\<close>

fun sign_text :: "comparison_kind \<Rightarrow> string" where
  "sign_text KindExactly = ''''"
| "sign_text KindLessThan = ''-''"
| "sign_text KindGreaterThan = ''+''"

fun render_numeric :: "numeric_comparison \<Rightarrow> string" where
  "render_numeric (NumExactly n) = show_nat (unat n)"
| "render_numeric (NumLessThan n) = ''-'' @ show_nat (unat n)"
| "render_numeric (NumGreaterThan n) = ''+'' @ show_nat (unat n)"

lemma show_nat_Cons: obtains c cs where "show_nat n = c # cs" "is_ascii_digit c"
  using show_nat_props [of n] by (cases "show_nat n") auto

lemma split_sign_simps [simp]:
  "split_sign [] = (KindExactly, [])"
  "split_sign (CHR ''+'' # s) = (KindGreaterThan, s)"
  "split_sign (CHR ''-'' # s) = (KindLessThan, s)"
  "c \<noteq> CHR ''+'' \<Longrightarrow> c \<noteq> CHR ''-'' \<Longrightarrow> split_sign (c # s) = (KindExactly, c # s)"
  by (simp_all add: split_sign_def)

lemma split_sign_show_nat [simp]: "split_sign (show_nat n) = (KindExactly, show_nat n)"
  by (rule show_nat_Cons [of n]) (auto dest: digit_not_sign)

lemma split_sign_text: "split_sign bytes = (kind, digits) \<Longrightarrow> bytes = sign_text kind @ digits"
  by (auto simp: split_sign_def split: list.splits if_splits)

lemma parse_uint_show_unat [simp]: "parse_uint (show_nat (unat n)) = Some n"
  using unsigned_less [of n] by (simp add: parse_uint_show_nat)

lemma utf8_lossy_show_nat [simp]: "utf8_lossy (show_nat n) = show_nat n"
  by (rule utf8_lossy_ascii) (rule show_nat_ascii)

lemma show_nat_not_Nil [simp]: "show_nat n \<noteq> []"
  using show_nat_props [of n] by simp

lemma comparison_of_cases:
  "\<exists>kind n. c = comparison_of kind n \<and> render_numeric c = sign_text kind @ show_nat (unat n)"
  by (cases c) (metis comparison_of.simps render_numeric.simps sign_text.simps append_Nil)+

lemma parse_numeric_render:
  "parse_numeric_argument flag (render_numeric c) = Inr c"
  by (cases c) (simp_all add: parse_numeric_argument_def)

lemma parse_numeric_error:
  "parse_numeric_argument flag val = Inl e \<Longrightarrow> e = invalid_numeric_argument flag val"
  by (auto simp: parse_numeric_argument_def result_simps Let_def split: prod.splits if_splits
      option.splits simp: ok_or_def)

text \<open>A decoded string of ASCII digits was that string before decoding.\<close>

lemma utf8_lossy_cases:
  assumes "s \<noteq> []"
  shows "utf8_lossy s = s \<or> (\<exists>c \<in> set (utf8_lossy s). \<not> is_ascii c)"
  using assms
proof (induction s rule: utf8_lossy.induct)
  case (2 c cs)
  obtain ok n where step: "utf8_step c cs = (ok, n)" by force
  show ?case
  proof (cases ok)
    case False
    with step show ?thesis by (auto simp: is_ascii_def byte_val_def)
  next
    case True
    with step have eq: "utf8_lossy (c # cs) = take n (c # cs) @ utf8_lossy (drop n (c # cs))"
      by simp
    show ?thesis
    proof (cases "drop n (c # cs) = []")
      case True
      with eq show ?thesis by simp
    next
      case False
      then have "utf8_lossy (drop n (c # cs)) = drop n (c # cs)
        \<or> (\<exists>d \<in> set (utf8_lossy (drop n (c # cs))). \<not> is_ascii d)"
        using "2.IH" [OF step [symmetric] refl] by blast
      then show ?thesis unfolding eq by auto
    qed
  qed
qed simp

lemma utf8_lossy_digits:
  assumes "list_all is_ascii_digit (strip_plus (utf8_lossy s))"
  shows "utf8_lossy s = s"
proof (cases "s = []")
  case False
  have "list_all is_ascii (utf8_lossy s)"
    using assms
    by (cases "utf8_lossy s")
      (auto simp: strip_plus_def is_ascii_def byte_val_def split: if_splits
        intro: list.pred_mono_strong dest!: is_ascii_digit_is_ascii
        elim!: list.pred_mono_strong)
  with utf8_lossy_cases [OF False] show ?thesis by (auto simp: list_all_iff)
qed simp

lemma parse_uint_lossy_iff:
  "parse_uint (utf8_lossy digits) = Some (n :: 'a::len word) \<longleftrightarrow>
   strip_plus digits \<noteq> [] \<and> list_all is_ascii_digit (strip_plus digits)
   \<and> dec_val (strip_plus digits) < 2 ^ LENGTH('a) \<and> n = of_nat (dec_val (strip_plus digits))"
  (is "?l \<longleftrightarrow> ?r")
proof
  assume ?l
  then show ?r
    using utf8_lossy_digits [of digits]
    by (auto simp: parse_uint_def Let_def not_le split: if_splits)
next
  assume r: ?r
  then have "list_all is_ascii digits"
    by (cases digits)
      (auto simp: strip_plus_def is_ascii_def byte_val_def split: if_splits
        elim!: list.pred_mono_strong dest!: is_ascii_digit_is_ascii)
  with r show ?l
    by (auto simp: utf8_lossy_ascii parse_uint_def Let_def strip_plus_def split: list.splits)
qed

definition unsigned_operand :: "string \<Rightarrow> string \<Rightarrow> bool" where
  "unsigned_operand pl ds \<longleftrightarrow>
     pl \<in> {'''', ''+''} \<and> ds \<noteq> [] \<and> list_all is_ascii_digit ds"

lemma strip_plus_operand:
  "strip_plus digits \<noteq> [] \<and> list_all is_ascii_digit (strip_plus digits) \<longleftrightarrow>
   (\<exists>pl ds. digits = pl @ ds \<and> unsigned_operand pl ds \<and> strip_plus digits = ds)"
  (is "?l \<longleftrightarrow> ?r")
proof
  assume l: ?l
  show ?r
  proof (cases "digits \<noteq> [] \<and> hd digits = CHR ''+''")
    case True
    with l show ?thesis
      by (intro exI [of _ "''+''"] exI [of _ "tl digits"])
        (auto simp: strip_plus_def unsigned_operand_def split: list.splits)
  next
    case False
    with l show ?thesis
      by (intro exI [of _ "''''"] exI [of _ digits])
        (auto simp: strip_plus_def unsigned_operand_def split: list.splits)
  qed
qed (auto simp: unsigned_operand_def)

lemma strip_plus_unsigned_operand: "unsigned_operand pl ds \<Longrightarrow> strip_plus (pl @ ds) = ds"
  by (auto simp: unsigned_operand_def strip_plus_digits) (simp add: strip_plus_def)

lemma split_sign_operand:
  "unsigned_operand pl ds \<Longrightarrow> (kind = KindExactly \<longrightarrow> pl = '''') \<Longrightarrow>
   split_sign (sign_text kind @ pl @ ds) = (kind, pl @ ds)"
  by (cases kind; cases ds) (auto simp: unsigned_operand_def dest: digit_not_sign)

text \<open>
  The operands of \<^verbatim>\<open>-uid\<close>, \<^verbatim>\<open>-gid\<close>, \<^verbatim>\<open>-inum\<close> and \<^verbatim>\<open>-links\<close> that
  the parser accepts, exactly: a comparison sign, possibly a further plus sign after it, and
  digits whose value is below \<open>2 ^ 64\<close>; the comparison sign fixes the comparison and the
  digits its bound.  (The second plus sign is what Rust's own integer parser accepts.)
\<close>

theorem parse_numeric_argument_accepts:
  "parse_numeric_argument flag val = Inr c \<longleftrightarrow>
   (\<exists>kind pl ds. val = sign_text kind @ pl @ ds
      \<and> unsigned_operand pl ds \<and> \<not> (kind = KindExactly \<and> pl \<noteq> '''')
      \<and> dec_val ds < 2 ^ 64
      \<and> c = comparison_of kind (of_nat (dec_val ds)))"
  (is "?l \<longleftrightarrow> ?r")
proof
  assume ?l
  obtain kind digits where sp: "split_sign val = (kind, digits)" by force
  with \<open>?l\<close> obtain n where n: "parse_uint (utf8_lossy digits) = Some n" "c = comparison_of kind n"
    by (auto simp: parse_numeric_argument_def result_simps split: if_splits)
  then obtain pl ds where ds: "digits = pl @ ds" "unsigned_operand pl ds"
    "dec_val ds < 2 ^ 64" "n = of_nat (dec_val ds)"
    unfolding parse_uint_lossy_iff using strip_plus_operand [of digits] by auto
  have "val = sign_text kind @ pl @ ds"
    using split_sign_text [OF sp] ds(1) by simp
  moreover have "\<not> (kind = KindExactly \<and> pl \<noteq> '''')"
    using sp ds(1,2) by (auto simp: unsigned_operand_def split_sign_def split: list.splits if_splits)
  ultimately show ?r using n(2) ds by blast
next
  assume ?r
  then obtain kind pl ds where op: "unsigned_operand pl ds" "kind = KindExactly \<longrightarrow> pl = ''''"
    and val: "val = sign_text kind @ pl @ ds" "dec_val ds < 2 ^ 64"
    and c: "c = comparison_of kind (of_nat (dec_val ds))" by blast
  have "parse_uint (utf8_lossy (pl @ ds)) = Some (of_nat (dec_val ds) :: u64)"
    using op(1) val(2)
    by (simp add: parse_uint_lossy_iff strip_plus_unsigned_operand) (simp add: unsigned_operand_def)
  then show ?l
    using op split_sign_operand [OF op] val(1) c
    by (auto simp: parse_numeric_argument_def unsigned_operand_def)
qed

end
