(* ===== verification/Size_Arg.thy ===== *)
theory Size_Arg
  imports Numeric
begin

text \<open>
  The \<^verbatim>\<open>-size\<close> operand: \<^verbatim>\<open>src/src/size.rs\<close>.  A size in bytes is rounded up to
  whole units before it is compared; the arithmetic is on 64-bit words and never wraps.
\<close>

datatype size_unit = Bytes | Words2 | Blocks512 | KiB | MiB | GiB

fun unit_bytes :: "size_unit \<Rightarrow> u64" where
  "unit_bytes Bytes = 1"
| "unit_bytes Words2 = 2"
| "unit_bytes Blocks512 = 512"
| "unit_bytes KiB = 1024"
| "unit_bytes MiB = 1024 * 1024"
| "unit_bytes GiB = 1024 * 1024 * 1024"

record size_matcher =
  comparison :: numeric_comparison
  unit :: size_unit

definition rounded_up_units :: "u64 \<Rightarrow> u64 \<Rightarrow> u64" where
  "rounded_up_units size_bytes ub =
     (if size_bytes = 0 then 0 else 1 + ((size_bytes - 1) div ub))"

definition size_matches :: "size_matcher \<Rightarrow> u64 \<Rightarrow> bool" where
  "size_matches m size_bytes =
     numeric_matches (comparison m) (rounded_up_units size_bytes (unit_bytes (unit m)))"

definition invalid_size_argument :: "os_string \<Rightarrow> diagnostic" where
  "invalid_size_argument raw =
     diagnostic_parse (''invalid size argument `'' @ utf8_lossy raw @ ''`'')"

definition parse_size_comparison :: "string \<Rightarrow> os_string \<Rightarrow> numeric_comparison result" where
  "parse_size_comparison bytes raw =
     (let (kind, digits) = split_sign bytes in
      if digits = [] \<or> \<not> list_all is_ascii_digit digits then Inl (invalid_size_argument raw)
      else if \<not> is_utf8 digits then Inl (invalid_size_argument raw)
      else try_bind (ok_or (invalid_size_argument raw) (parse_uint digits))
             (\<lambda>parsed. Inr (comparison_of kind parsed)))"

definition size_suffix :: "byte \<Rightarrow> size_unit option" where
  "size_suffix c =
     (if c = CHR ''c'' then Some Bytes
      else if c = CHR ''w'' then Some Words2
      else if c = CHR ''b'' then Some Blocks512
      else if c = CHR ''k'' then Some KiB
      else if c = CHR ''M'' then Some MiB
      else if c = CHR ''G'' then Some GiB
      else None)"

definition parse_size_argument :: "os_string \<Rightarrow> size_matcher result" where
  "parse_size_argument raw =
     (let bytes = raw in
      try_bind
        (if bytes = [] then Inl (invalid_size_argument raw)
         else (case size_suffix (last bytes) of
                 Some u \<Rightarrow> Inr (butlast bytes, u)
               | None \<Rightarrow>
                   if is_ascii_digit (last bytes) \<or> last bytes = CHR ''+'' \<or> last bytes = CHR ''-''
                   then Inr (bytes, Blocks512)
                   else Inl (invalid_size_argument raw)))
        (\<lambda>(numeric_bytes, u).
           try_bind (parse_size_comparison numeric_bytes raw)
             (\<lambda>c. Inr \<lparr>comparison = c, unit = u\<rparr>)))"

section \<open>Rounding\<close>

lemma unit_bytes_pos: "0 < unat (unit_bytes u)"
  by (cases u) simp_all

lemma unat_rounded_up_units:
  assumes "0 < unat ub"
  shows "unat (rounded_up_units s ub) = (unat s + unat ub - 1) div unat ub"
proof (cases "s = 0")
  case True
  with assms show ?thesis by (simp add: rounded_up_units_def)
next
  case False
  then have pos: "0 < unat s" by (simp add: word_neq_0_conv unat_gt_0)
  have pred: "unat (s - 1) = unat s - 1"
    using False by (simp add: unat_minus_one)
  have unat_lt2p_s: "unat s < 2 ^ 64" by (rule order_less_le_trans [OF unsigned_less]) simp
  have "(unat s - 1) div unat ub \<le> unat s - 1" by (rule div_le_dividend)
  with unat_lt2p_s pos have "1 + (unat s - 1) div unat ub < 2 ^ 64"
    by linarith
  then have "unat (1 + (s - 1) div ub) = 1 + (unat s - 1) div unat ub"
    by (simp add: unat_word_ariths unat_div_distrib pred)
  also have "\<dots> = (unat s + unat ub - 1) div unat ub"
  proof -
    have "unat s + unat ub - 1 = (unat s - 1) + unat ub" using pos by linarith
    moreover have "((unat s - 1) + unat ub) div unat ub = (unat s - 1) div unat ub + 1"
      using assms by (rule div_add_self2 [OF less_imp_neq [THEN not_sym]])
    ultimately show ?thesis by (simp only: add.commute)
  qed
  finally show ?thesis using False by (simp add: rounded_up_units_def)
qed

lemma ceiling_le_iff: "0 < b \<Longrightarrow> (s + b - 1) div b \<le> n \<longleftrightarrow> s \<le> n * (b :: nat)"
proof -
  assume b: "0 < b"
  have "(s + b - 1) div b \<le> n \<longleftrightarrow> (s + b - 1) div b < Suc n" by linarith
  also have "\<dots> \<longleftrightarrow> s + b - 1 < Suc n * b" using b by (simp add: div_less_iff_less_mult)
  also have "\<dots> \<longleftrightarrow> s \<le> n * b" using b by auto
  finally show ?thesis .
qed

lemma rounded_up_units_le_iff:
  "rounded_up_units s (unit_bytes u) \<le> n \<longleftrightarrow> unat s \<le> unat n * unat (unit_bytes u)"
  unfolding word_le_nat_alt unat_rounded_up_units [OF unit_bytes_pos]
  by (rule ceiling_le_iff) (rule unit_bytes_pos)

text \<open>
  C37.  What \<^verbatim>\<open>-size\<close> compares, in bytes and without wrap-around: \<^verbatim>\<open>-size -n\<close>
  holds for files of at most \<open>n - 1\<close> whole units, \<^verbatim>\<open>-size +n\<close> for files of more than
  \<open>n\<close> units, and \<^verbatim>\<open>-size n\<close> for the sizes that need exactly \<open>n\<close> units.
\<close>

theorem size_matches_bytes:
  "size_matches \<lparr>comparison = comparison_of kind n, unit = u\<rparr> s \<longleftrightarrow>
   (let b = unat (unit_bytes u) in
    case kind of
      KindLessThan \<Rightarrow> n \<noteq> 0 \<and> unat s \<le> (unat n - 1) * b
    | KindGreaterThan \<Rightarrow> unat n * b < unat s
    | KindExactly \<Rightarrow> unat s \<le> unat n * b
        \<and> (if n = 0 then unat s = 0 else (unat n - 1) * b < unat s))"
proof -
  let ?r = "rounded_up_units s (unit_bytes u)"
  have le: "?r \<le> m \<longleftrightarrow> unat s \<le> unat m * unat (unit_bytes u)" for m
    by (rule rounded_up_units_le_iff)
  have less: "?r < n \<longleftrightarrow> n \<noteq> 0 \<and> unat s \<le> (unat n - 1) * unat (unit_bytes u)"
  proof (cases "n = 0")
    case False
    then have "0 < unat n" by (simp add: unat_gt_0)
    then have "?r < n \<longleftrightarrow> ?r \<le> n - 1"
      by (simp add: word_less_nat_alt word_le_nat_alt unat_minus_one False) linarith
    with False show ?thesis by (simp add: le unat_minus_one)
  qed simp
  show ?thesis
  proof (cases kind)
    case KindExactly
    have "?r = n \<longleftrightarrow> ?r \<le> n \<and> \<not> ?r < n" by auto
    with KindExactly show ?thesis by (auto simp: size_matches_def Let_def le less)
  next
    case KindLessThan
    then show ?thesis by (simp add: size_matches_def Let_def less)
  next
    case KindGreaterThan
    have "n < ?r \<longleftrightarrow> \<not> ?r \<le> n" by auto
    with KindGreaterThan show ?thesis by (auto simp: size_matches_def Let_def le)
  qed
qed

section \<open>Parsing\<close>

fun unit_suffix :: "size_unit \<Rightarrow> string" where
  "unit_suffix Bytes = ''c''"
| "unit_suffix Words2 = ''w''"
| "unit_suffix Blocks512 = ''b''"
| "unit_suffix KiB = ''k''"
| "unit_suffix MiB = ''M''"
| "unit_suffix GiB = ''G''"

definition render_size :: "size_matcher \<Rightarrow> string" where
  "render_size m = render_numeric (comparison m) @ unit_suffix (unit m)"

lemma parse_size_comparison_render:
  "parse_size_comparison (render_numeric c) raw = Inr c"
proof -
  have "is_utf8 (show_nat n)" for n by (rule is_utf8_ascii) (rule show_nat_ascii)
  moreover have "list_all is_ascii_digit (show_nat n)" for n using show_nat_props by blast
  ultimately show ?thesis by (cases c) (simp_all add: parse_size_comparison_def)
qed

lemma parse_size_argument_render: "parse_size_argument (render_size m) = Inr m"
  by (cases m; cases "unit m")
    (simp_all add: parse_size_argument_def render_size_def size_suffix_def parse_size_comparison_render)

lemma is_ascii_digit_no_suffix: "is_ascii_digit c \<Longrightarrow> size_suffix c = None"
  by (auto simp: is_ascii_digit_def in_range_def byte_val_def size_suffix_def)

lemma last_render_numeric: "is_ascii_digit (last (render_numeric c))" "render_numeric c \<noteq> []"
proof -
  have "is_ascii_digit (last (show_nat n))" for n
    using show_nat_props [of n] by (metis last_in_set list_all_iff)
  then show "is_ascii_digit (last (render_numeric c))" by (cases c) simp_all
qed (cases c; simp)

text \<open>
  Round trip of the \<^verbatim>\<open>-size\<close> operand: a rendered comparison with its unit letter
  parses back to itself, and without a letter it counts 512-byte blocks.
\<close>

theorem parse_size_argument_roundtrip:
  "parse_size_argument (render_size m) = Inr m
   \<and> parse_size_argument (render_numeric (comparison m)) = Inr (m\<lparr>unit := Blocks512\<rparr>)"
proof
  show "parse_size_argument (render_size m) = Inr m" by (rule parse_size_argument_render)
  show "parse_size_argument (render_numeric (comparison m)) = Inr (m\<lparr>unit := Blocks512\<rparr>)"
    by (simp add: parse_size_argument_def last_render_numeric is_ascii_digit_no_suffix
        parse_size_comparison_render)
qed

end
