(* ===== verification/Perm_Mode.thy ===== *)
theory Perm_Mode
  imports Rfd_Prelude
begin

unbundle bit_operations_syntax

text \<open>
  The \<^verbatim>\<open>-perm\<close> operand: \<^verbatim>\<open>src/src/perm.rs\<close>.  Modes are 32-bit words; the source's
  octal constants are written in hexadecimal (\<^verbatim>\<open>0o7777\<close> is \<open>0xFFF\<close>, \<^verbatim>\<open>0o700\<close> is
  \<open>0x1C0\<close>, \<^verbatim>\<open>0o070\<close> is \<open>0x38\<close>, \<^verbatim>\<open>0o4700\<close> is \<open>0x9C0\<close>, \<^verbatim>\<open>0o2070\<close> is
  \<open>0x438\<close>, \<^verbatim>\<open>0o1007\<close> is \<open>0x207\<close>).  The symbolic clauses are related to a set-valued
  specification of file modes by a refinement lemma.
\<close>

type_synonym u32 = "32 word"

section \<open>Data\<close>

datatype perm_matcher = PermExact u32 | PermAll u32 | PermAny u32

type_synonym who_mask = "8 word"

datatype symbolic_op = OpAdd | OpRemove | OpAssign

datatype symbolic_perm =
  PRead | PWrite | PExecute | PConditionalExecute | PSetId | PSticky
  | PCopyUser | PCopyGroup | PCopyOther

record symbolic_clause =
  who :: who_mask
  op :: symbolic_op
  perms :: "symbolic_perm list"

datatype perm_match_kind = MatchExact | MatchAll | MatchAny

fun perm_matches :: "perm_matcher \<Rightarrow> u32 \<Rightarrow> bool" where
  "perm_matches (PermExact expected) actual_mode = (expected = actual_mode AND 0xFFF)"
| "perm_matches (PermAll required) actual_mode =
     ((actual_mode AND 0xFFF) AND required = required)"
| "perm_matches (PermAny required) actual_mode =
     (required = 0 \<or> (actual_mode AND 0xFFF) AND required \<noteq> 0)"

definition invalid_mode :: "os_string \<Rightarrow> diagnostic" where
  "invalid_mode raw = diagnostic_new (''invalid mode `'' @ utf8_lossy raw @ ''`'') 1"

section \<open>Resolving symbolic clauses\<close>

definition class_bits :: "who_mask \<Rightarrow> u32 \<Rightarrow> u32" where
  "class_bits w template =
     (if w AND 1 \<noteq> 0 then template AND 0x1C0 else 0)
     OR (if w AND 2 \<noteq> 0 then template AND 0x38 else 0)
     OR (if w AND 4 \<noteq> 0 then template AND 0x7 else 0)"

definition copy_class_bits :: "u32 \<Rightarrow> who_mask \<Rightarrow> u32 \<Rightarrow> u32" where
  "copy_class_bits current_mode w source_mask =
     (let source =
        (if source_mask = 0x1C0 then drop_bit 6 (current_mode AND 0x1C0)
         else if source_mask = 0x38 then drop_bit 3 (current_mode AND 0x38)
         else if source_mask = 0x7 then current_mode AND 0x7
         else 0)
      in (if w AND 1 \<noteq> 0 then push_bit 6 source else 0)
         OR (if w AND 2 \<noteq> 0 then push_bit 3 source else 0)
         OR (if w AND 4 \<noteq> 0 then source else 0))"

definition assign_target_bits :: "who_mask \<Rightarrow> u32" where
  "assign_target_bits w =
     (if w AND 1 \<noteq> 0 then 0x9C0 else 0)
     OR (if w AND 2 \<noteq> 0 then 0x438 else 0)
     OR (if w AND 4 \<noteq> 0 then 0x207 else 0)"

fun resolve_perm :: "who_mask \<Rightarrow> u32 \<Rightarrow> symbolic_perm \<Rightarrow> u32" where
  "resolve_perm w current_mode PRead = class_bits w 0x124"
| "resolve_perm w current_mode PWrite = class_bits w 0x92"
| "resolve_perm w current_mode PExecute = class_bits w 0x49"
| "resolve_perm w current_mode PConditionalExecute =
     (if current_mode AND 0x49 \<noteq> 0 then class_bits w 0x49 else 0)"
| "resolve_perm w current_mode PSetId =
     (if w AND 1 \<noteq> 0 then 0x800 else 0) OR (if w AND 2 \<noteq> 0 then 0x400 else 0)"
| "resolve_perm w current_mode PSticky = (if w AND 4 \<noteq> 0 then 0x200 else 0)"
| "resolve_perm w current_mode PCopyUser = copy_class_bits current_mode w 0x1C0"
| "resolve_perm w current_mode PCopyGroup = copy_class_bits current_mode w 0x38"
| "resolve_perm w current_mode PCopyOther = copy_class_bits current_mode w 0x7"

definition resolve_symbolic_perms :: "symbolic_clause \<Rightarrow> u32 \<Rightarrow> u32" where
  "resolve_symbolic_perms clause current_mode =
     foldl (\<lambda>bits perm. bits OR resolve_perm (who clause) current_mode perm) 0 (perms clause)"

definition apply_clause :: "u32 \<Rightarrow> symbolic_clause \<Rightarrow> u32" where
  "apply_clause mode clause =
     (let resolved = resolve_symbolic_perms clause mode in
      case op clause of
        OpAdd \<Rightarrow> mode OR resolved
      | OpRemove \<Rightarrow> mode AND NOT resolved
      | OpAssign \<Rightarrow> (mode AND NOT (assign_target_bits (who clause))) OR resolved)"

section \<open>Parsing\<close>

definition who_bit :: "byte \<Rightarrow> who_mask option" where
  "who_bit c =
     (if c = CHR ''u'' then Some 1
      else if c = CHR ''g'' then Some 2
      else if c = CHR ''o'' then Some 4
      else if c = CHR ''a'' then Some 7
      else None)"

fun parse_who :: "who_mask \<Rightarrow> string \<Rightarrow> who_mask \<times> string" where
  "parse_who w [] = (w, [])"
| "parse_who w (c # cs) =
     (case who_bit c of Some b \<Rightarrow> parse_who (w OR b) cs | None \<Rightarrow> (w, c # cs))"

definition perm_letter :: "byte \<Rightarrow> symbolic_perm option" where
  "perm_letter c =
     (if c = CHR ''r'' then Some PRead
      else if c = CHR ''w'' then Some PWrite
      else if c = CHR ''x'' then Some PExecute
      else if c = CHR ''X'' then Some PConditionalExecute
      else if c = CHR ''s'' then Some PSetId
      else if c = CHR ''t'' then Some PSticky
      else if c = CHR ''u'' then Some PCopyUser
      else if c = CHR ''g'' then Some PCopyGroup
      else if c = CHR ''o'' then Some PCopyOther
      else None)"

definition parse_symbolic_clause ::
  "string \<Rightarrow> perm_match_kind \<Rightarrow> os_string \<Rightarrow> symbolic_clause result" where
  "parse_symbolic_clause clause kind raw =
     (let (w, rest) = parse_who 0 clause in
      if w = 0 \<and> kind \<in> {MatchAll, MatchAny} then Inl (invalid_mode raw)
      else
        (let w = (if w = 0 then 7 else w) in
         case rest of
           [] \<Rightarrow> Inl (invalid_mode raw)
         | c # cs \<Rightarrow>
             try_bind
               (if c = CHR ''+'' then Inr OpAdd
                else if c = CHR ''-'' then Inr OpRemove
                else if c = CHR ''='' then Inr OpAssign
                else Inl (invalid_mode raw))
               (\<lambda>oper. try_bind (map_result (\<lambda>b. ok_or (invalid_mode raw) (perm_letter b)) cs)
                  (\<lambda>ps. Inr \<lparr>who = w, op = oper, perms = ps\<rparr>))))"

definition parse_symbolic_clauses ::
  "string \<Rightarrow> perm_match_kind \<Rightarrow> os_string \<Rightarrow> symbolic_clause list result" where
  "parse_symbolic_clauses symbolic kind raw =
     try_bind (map_result (\<lambda>clause. parse_symbolic_clause clause kind raw)
                 (split_on (CHR '','') symbolic))
       (\<lambda>clauses. if clauses = [] then Inl (invalid_mode raw) else Inr clauses)"

definition resolve_symbolic_mode ::
  "string \<Rightarrow> perm_match_kind \<Rightarrow> os_string \<Rightarrow> u32 result" where
  "resolve_symbolic_mode symbolic kind raw =
     try_bind (parse_symbolic_clauses symbolic kind raw)
       (\<lambda>clauses. Inr (foldl apply_clause 0 clauses AND 0xFFF))"

definition is_octal_digit :: "byte \<Rightarrow> bool" where
  "is_octal_digit c \<longleftrightarrow> in_range 48 55 c"

definition parse_octal_mask :: "string \<Rightarrow> os_string \<Rightarrow> u32 result" where
  "parse_octal_mask bytes raw =
     (if \<not> is_utf8 bytes then Inl (invalid_mode raw)
      else if 2 ^ 32 \<le> digits_val 8 0 bytes then Inl (invalid_mode raw)
      else Inr (of_nat (digits_val 8 0 bytes) AND 0xFFF))"

fun perm_of :: "perm_match_kind \<Rightarrow> u32 \<Rightarrow> perm_matcher" where
  "perm_of MatchExact m = PermExact m"
| "perm_of MatchAll m = PermAll m"
| "perm_of MatchAny m = PermAny m"

definition perm_kind :: "string \<Rightarrow> os_string \<Rightarrow> (perm_match_kind \<times> string) result" where
  "perm_kind bytes raw =
     (case bytes of
        c # rest \<Rightarrow>
          if c = CHR ''-'' then Inr (MatchAll, rest)
          else if c = CHR ''/'' then Inr (MatchAny, rest)
          else if c = CHR ''+'' \<and> list_all is_ascii_digit rest then Inl (invalid_mode raw)
          else Inr (MatchExact, bytes)
      | [] \<Rightarrow> Inr (MatchExact, bytes))"

definition parse_perm_argument :: "os_string \<Rightarrow> perm_matcher result" where
  "parse_perm_argument raw =
     try_bind (perm_kind (utf8_lossy raw) raw)
       (\<lambda>(kind, body).
          if body = [] then Inl (invalid_mode raw)
          else try_bind
            (if list_all is_octal_digit body then parse_octal_mask body raw
             else if \<not> is_utf8 body then Inl (invalid_mode raw)
             else resolve_symbolic_mode body kind raw)
            (\<lambda>m. Inr (perm_of kind m)))"

section \<open>A set-valued specification of modes\<close>

datatype mode_class = User | Group_Class | Other
datatype access_bit = Rd | Wr | Ex
datatype mode_bit = Perm mode_class access_bit | SetUid | SetGid | Sticky_Bit

fun class_index :: "mode_class \<Rightarrow> nat" where
  "class_index User = 2" | "class_index Group_Class = 1" | "class_index Other = 0"

fun access_index :: "access_bit \<Rightarrow> nat" where
  "access_index Rd = 2" | "access_index Wr = 1" | "access_index Ex = 0"

fun mode_bit_index :: "mode_bit \<Rightarrow> nat" where
  "mode_bit_index (Perm c a) = 3 * class_index c + access_index a"
| "mode_bit_index SetUid = 11"
| "mode_bit_index SetGid = 10"
| "mode_bit_index Sticky_Bit = 9"

definition abs_mode :: "u32 \<Rightarrow> mode_bit set" where
  "abs_mode m = {b. bit m (mode_bit_index b)}"

definition abs_who :: "who_mask \<Rightarrow> mode_class set" where
  "abs_who w = {c. bit w (2 - class_index c)}"

fun spec_perm :: "mode_class set \<Rightarrow> mode_bit set \<Rightarrow> symbolic_perm \<Rightarrow> mode_bit set" where
  "spec_perm W M PRead = {Perm c Rd |c. c \<in> W}"
| "spec_perm W M PWrite = {Perm c Wr |c. c \<in> W}"
| "spec_perm W M PExecute = {Perm c Ex |c. c \<in> W}"
| "spec_perm W M PConditionalExecute = {Perm c Ex |c. c \<in> W \<and> (\<exists>d. Perm d Ex \<in> M)}"
| "spec_perm W M PSetId = (if User \<in> W then {SetUid} else {}) \<union> (if Group_Class \<in> W then {SetGid} else {})"
| "spec_perm W M PSticky = (if Other \<in> W then {Sticky_Bit} else {})"
| "spec_perm W M PCopyUser = {Perm c a |c a. c \<in> W \<and> Perm User a \<in> M}"
| "spec_perm W M PCopyGroup = {Perm c a |c a. c \<in> W \<and> Perm Group_Class a \<in> M}"
| "spec_perm W M PCopyOther = {Perm c a |c a. c \<in> W \<and> Perm Other a \<in> M}"

definition spec_target :: "mode_class set \<Rightarrow> mode_bit set" where
  "spec_target W = {Perm c a |c a. c \<in> W} \<union> (if User \<in> W then {SetUid} else {})
     \<union> (if Group_Class \<in> W then {SetGid} else {}) \<union> (if Other \<in> W then {Sticky_Bit} else {})"

definition spec_clause :: "symbolic_clause \<Rightarrow> mode_bit set \<Rightarrow> mode_bit set" where
  "spec_clause c M =
     (let R = (\<Union>p \<in> set (perms c). spec_perm (abs_who (who c)) M p) in
      case op c of
        OpAdd \<Rightarrow> M \<union> R
      | OpRemove \<Rightarrow> M - R
      | OpAssign \<Rightarrow> (M - spec_target (abs_who (who c))) \<union> R)"

section \<open>Correctness\<close>

lemma who_tests:
  "(w AND 1 \<noteq> 0) \<longleftrightarrow> bit (w :: who_mask) 0"
  "(w AND 2 \<noteq> 0) \<longleftrightarrow> bit w 1"
  "(w AND 4 \<noteq> 0) \<longleftrightarrow> bit w 2"
  using and_exp_eq_0_iff_not_bit [of w 0] and_exp_eq_0_iff_not_bit [of w 1]
    and_exp_eq_0_iff_not_bit [of w 2]
  by (simp_all only: power_0 power_one_right) (simp_all add: numeral_eq_Suc)

lemma mode_bit_cases:
  "(\<And>c a. P (Perm c a)) \<Longrightarrow> P SetUid \<Longrightarrow> P SetGid \<Longrightarrow> P Sticky_Bit \<Longrightarrow> P b"
  by (cases b) auto

lemma ex_class: "(\<exists>d. P d) \<longleftrightarrow> P Other \<or> P Group_Class \<or> P User"
  by (metis mode_class.exhaust)

lemma any_exec: "(m AND 0x49 \<noteq> 0) \<longleftrightarrow> (\<exists>d. Perm d Ex \<in> abs_mode (m :: u32))"
proof -
  have "m AND 0x49 = (m AND 2 ^ 0) OR (m AND 2 ^ 3) OR (m AND 2 ^ 6)"
    by (simp add: bit.conj_disj_distrib [symmetric])
  moreover have "a OR b = 0 \<longleftrightarrow> a = 0 \<and> b = 0" for a b :: u32
    by (auto simp: bit_eq_iff bit_simps)
  ultimately have "(m AND 0x49 \<noteq> 0) \<longleftrightarrow> bit m 0 \<or> bit m 3 \<or> bit m 6"
    by (simp only: and_exp_eq_0_iff_not_bit de_Morgan_conj not_not)
  also have "\<dots> \<longleftrightarrow> (\<exists>d. Perm d Ex \<in> abs_mode m)"
    by (simp add: abs_mode_def ex_class)
  finally show ?thesis .
qed

lemmas mode_bit_simps =
  abs_mode_def abs_who_def class_bits_def copy_class_bits_def who_tests Let_def bit_simps
  numeral_2_eq_2 [symmetric]

lemma abs_resolve_perm:
  "abs_mode (resolve_perm w m p) = spec_perm (abs_who w) (abs_mode m) p"
proof (rule set_eqI, rule mode_bit_cases)
  fix c a
  show "Perm c a \<in> abs_mode (resolve_perm w m p)
    \<longleftrightarrow> Perm c a \<in> spec_perm (abs_who w) (abs_mode m) p"
    by (cases p; cases c; cases a; simp add: any_exec; simp add: mode_bit_simps)
qed (cases p; simp add: mode_bit_simps)+

lemma abs_mode_or: "abs_mode (a OR b) = abs_mode a \<union> abs_mode b"
  by (auto simp: abs_mode_def bit_simps)

lemma mode_bit_index_less: "mode_bit_index b < 12"
proof (cases b)
  case (Perm c a)
  then show ?thesis by (cases c; cases a) simp_all
qed simp_all

lemma mode_bit_index_less_32: "mode_bit_index b < 32"
  by (rule less_trans [OF mode_bit_index_less]) simp

lemma abs_mode_and_not: "abs_mode (a AND NOT b) = abs_mode a - abs_mode b"
  by (auto simp: abs_mode_def bit_simps mode_bit_index_less_32)

lemma abs_mode_0 [simp]: "abs_mode 0 = {}"
  by (simp add: abs_mode_def)

lemma abs_assign_target: "abs_mode (assign_target_bits w) = spec_target (abs_who w)"
proof (rule set_eqI, rule mode_bit_cases)
  fix c a
  show "Perm c a \<in> abs_mode (assign_target_bits w) \<longleftrightarrow> Perm c a \<in> spec_target (abs_who w)"
    by (cases c; cases a; simp add: assign_target_bits_def spec_target_def mode_bit_simps)
qed (simp add: assign_target_bits_def spec_target_def mode_bit_simps)+

lemma abs_resolve_fold:
  "abs_mode (foldl (\<lambda>bits perm. bits OR resolve_perm w m perm) acc ps)
   = abs_mode acc \<union> (\<Union>p \<in> set ps. spec_perm (abs_who w) (abs_mode m) p)"
  by (induction ps arbitrary: acc) (auto simp: abs_mode_or abs_resolve_perm)

lemma abs_apply_clause: "abs_mode (apply_clause m c) = spec_clause c (abs_mode m)"
  by (cases "op c")
    (simp_all add: apply_clause_def spec_clause_def resolve_symbolic_perms_def abs_resolve_fold
      abs_mode_or abs_mode_and_not abs_assign_target)

lemma abs_apply_clauses:
  "abs_mode (foldl apply_clause m cs) = foldl (\<lambda>M c. spec_clause c M) (abs_mode m) cs"
  by (induction cs arbitrary: m) (simp_all add: abs_apply_clause)

lemma bit_0xFFF: "bit (0xFFF :: u32) n \<longleftrightarrow> n < 12"
proof -
  have "(0xFFF :: u32) = mask 12" by (simp add: mask_eq_exp_minus_1)
  then have "bit (0xFFF :: u32) n \<longleftrightarrow> n < min LENGTH(32) 12"
    by (simp only: bit_mask_iff) auto
  then show ?thesis by simp
qed

lemma abs_mode_and_0xFFF [simp]: "abs_mode (m AND 0xFFF) = abs_mode m"
  unfolding abs_mode_def bit_and_iff bit_0xFFF by (simp add: mode_bit_index_less)

lemma mode_bit_index_surj: "n < 12 \<Longrightarrow> \<exists>b. mode_bit_index b = n"
proof -
  assume n: "n < 12"
  show ?thesis
  proof (cases "n < 9")
    case True
    have "\<exists>c. class_index c = n div 3"
      using True
      by (intro exI [of _ "if n div 3 = 0 then Other else if n div 3 = 1 then Group_Class else User"])
        auto
    moreover have "\<exists>a. access_index a = n mod 3"
      by (intro exI [of _ "if n mod 3 = 0 then Ex else if n mod 3 = 1 then Wr else Rd"]) auto
    ultimately obtain c a where "class_index c = n div 3" "access_index a = n mod 3" by blast
    then have "mode_bit_index (Perm c a) = n" by simp
    then show ?thesis by blast
  next
    case False
    with n have "n = 9 \<or> n = 10 \<or> n = 11" by linarith
    then show ?thesis
      using mode_bit_index.simps by metis
  qed
qed

lemma abs_mode_subset_iff: "abs_mode a \<subseteq> abs_mode b \<longleftrightarrow> (\<forall>n < 12. bit a n \<longrightarrow> bit b n)"
  using mode_bit_index_surj mode_bit_index_less by (fastforce simp: abs_mode_def)

definition mode_ok :: "u32 \<Rightarrow> bool" where
  "mode_ok m \<longleftrightarrow> m AND 0xFFF = m"

lemma mode_ok_bit: "mode_ok m \<Longrightarrow> bit m n \<Longrightarrow> n < 12"
  unfolding mode_ok_def by (metis bit_0xFFF bit_and_iff)

lemma abs_mode_eq_iff: "mode_ok e \<Longrightarrow> abs_mode e = abs_mode m \<longleftrightarrow> e = m AND 0xFFF"
proof
  assume ok: "mode_ok e" and eq: "abs_mode e = abs_mode m"
  then have "abs_mode e \<subseteq> abs_mode m" "abs_mode m \<subseteq> abs_mode e" by auto
  then show "e = m AND 0xFFF"
    unfolding abs_mode_subset_iff using mode_ok_bit [OF ok]
    by (intro bit_eqI) (unfold bit_and_iff bit_0xFFF, blast)
qed (metis abs_mode_and_0xFFF)

lemma perm_matches_sets_ok:
  assumes "mode_ok e"
  shows "perm_matches (perm_of kind e) actual \<longleftrightarrow>
    (case kind of
       MatchExact \<Rightarrow> abs_mode actual = abs_mode e
     | MatchAll \<Rightarrow> abs_mode e \<subseteq> abs_mode actual
     | MatchAny \<Rightarrow> abs_mode e = {} \<or> abs_mode e \<inter> abs_mode actual \<noteq> {})"
proof (cases kind)
  case MatchExact
  then show ?thesis using abs_mode_eq_iff [OF assms, of actual] by auto
next
  case MatchAll
  have "bit e n \<Longrightarrow> n < 32" for n using bit_imp_le_length [of e n] by simp
  then have "(actual AND 0xFFF) AND e = e \<longleftrightarrow> (\<forall>n. bit e n \<longrightarrow> n < 12 \<and> bit actual n)"
    unfolding bit_eq_iff bit_and_iff bit_0xFFF by auto
  with MatchAll show ?thesis using mode_ok_bit [OF assms] by (auto simp: abs_mode_subset_iff)
next
  case MatchAny
  have "e = 0 \<longleftrightarrow> abs_mode e = {}"
    using abs_mode_eq_iff [OF assms, of 0] by simp
  moreover have "(actual AND 0xFFF) AND e = 0 \<longleftrightarrow> abs_mode (actual AND e) = {}"
  proof -
    have swap: "(actual AND 0xFFF) AND e = (actual AND e) AND 0xFFF"
      by (simp only: and.assoc and.commute [of _ e])
    have "abs_mode (actual AND e) = {} \<longleftrightarrow> 0 = (actual AND e) AND 0xFFF"
      using abs_mode_eq_iff [of 0 "actual AND e"] by (auto simp: mode_ok_def)
    then show ?thesis unfolding swap by auto
  qed
  moreover have "abs_mode (actual AND e) = abs_mode e \<inter> abs_mode actual"
    by (auto simp: abs_mode_def bit_and_iff)
  ultimately show ?thesis using MatchAny by simp
qed

lemma parse_perm_argument_ok:
  "parse_perm_argument raw = Inr p \<Longrightarrow> \<exists>kind e. p = perm_of kind e \<and> mode_ok e"
  by (force simp: parse_perm_argument_def result_simps parse_octal_mask_def resolve_symbolic_mode_def
      mode_ok_def and.assoc split: if_splits prod.splits)

text \<open>
  C26.  Symbolic modes, clause by clause: the 32-bit arithmetic of the resolver implements the
  set-valued semantics of the parsed clauses, run in order from the empty mode.  Each clause
  adds, removes or assigns the bits its permission letters denote for the classes it names,
  where \<open>X\<close> and the copy letters look at the mode built so far, and the result has no bit
  outside the twelve mode bits.
\<close>

theorem symbolic_mode_refines:
  assumes "resolve_symbolic_mode s kind raw = Inr m"
  shows "\<exists>cs. parse_symbolic_clauses s kind raw = Inr cs
     \<and> abs_mode m = foldl (\<lambda>M c. spec_clause c M) {} cs \<and> mode_ok m"
  using assms
  by (auto simp: resolve_symbolic_mode_def result_simps abs_apply_clauses mode_ok_def and.assoc)

lemma symbolic_mode_refines_witness:
  "resolve_symbolic_mode ''u=rw,go=u'' MatchExact '''' = Inr 0x1B6
   \<and> (\<exists>cs. parse_symbolic_clauses ''u=rw,go=u'' MatchExact '''' = Inr cs
        \<and> abs_mode 0x1B6 = foldl (\<lambda>M c. spec_clause c M) {} cs \<and> mode_ok 0x1B6)"
proof -
  have "resolve_symbolic_mode ''u=rw,go=u'' MatchExact '''' = Inr 0x1B6" by code_simp
  from symbolic_mode_refines [OF this] this show ?thesis by blast
qed

text \<open>
  What an accepted \<^verbatim>\<open>-perm\<close> operand tests, as sets of mode bits: without a prefix
  the twelve mode bits of the file are the operand's, with \<open>-\<close> they include them, and with
  \<open>/\<close> they meet them (an empty operand accepts every file).  The file type bits of the
  actual mode never matter.
\<close>

theorem perm_matches_sets:
  assumes "parse_perm_argument raw = Inr (perm_of kind e)"
  shows "perm_matches (perm_of kind e) actual \<longleftrightarrow>
    (case kind of
       MatchExact \<Rightarrow> abs_mode actual = abs_mode e
     | MatchAll \<Rightarrow> abs_mode e \<subseteq> abs_mode actual
     | MatchAny \<Rightarrow> abs_mode e = {} \<or> abs_mode e \<inter> abs_mode actual \<noteq> {})"
proof -
  have "mode_ok e" using parse_perm_argument_ok [OF assms] by (auto elim: perm_of.elims)
  then show ?thesis by (rule perm_matches_sets_ok)
qed

lemma perm_matches_sets_witness:
  "parse_perm_argument ''-u+w'' = Inr (perm_of MatchAll 0x80)
   \<and> (perm_matches (perm_of MatchAll 0x80) 0x81A4 \<longleftrightarrow> abs_mode 0x80 \<subseteq> abs_mode 0x81A4)
   \<and> perm_matches (perm_of MatchAll 0x80) 0x81A4"
proof -
  have parsed: "parse_perm_argument ''-u+w'' = Inr (perm_of MatchAll 0x80)" by code_simp
  moreover have "perm_matches (perm_of MatchAll 0x80) 0x81A4" by code_simp
  ultimately show ?thesis using perm_matches_sets [OF parsed, of "0x81A4"] by simp
qed

end
