(* ===== verification/File_Flags.thy ===== *)
theory File_Flags
  imports Numeric
begin

unbundle bit_operations_syntax

text \<open>
  The \<^verbatim>\<open>-flags\<close> operand: \<^verbatim>\<open>src/src/file_flags.rs\<close>.  The table of flag names is an
  argument, as in the code (it depends on the platform).
\<close>

datatype flag_match_mode = FlagExact | FlagAll | FlagAny

record flag_spec =
  spec_name :: string
  spec_bit :: u64

record flag_condition =
  cond_bit :: u64
  must_be_set :: bool

record file_flags_matcher =
  universe_mask :: u64
  flag_mode :: flag_match_mode
  conditions :: "flag_condition list"

definition condition_holds :: "u64 \<Rightarrow> flag_condition \<Rightarrow> bool" where
  "condition_holds bits c \<longleftrightarrow> ((bits AND cond_bit c \<noteq> 0) = must_be_set c)"

definition flags_matches :: "file_flags_matcher \<Rightarrow> u64 option \<Rightarrow> bool" where
  "flags_matches m observed =
     (case observed of
        None \<Rightarrow> False
      | Some bits \<Rightarrow>
          (case flag_mode m of
             FlagExact \<Rightarrow>
               (let expected = foldl (\<lambda>acc c. acc OR cond_bit c) 0 (filter must_be_set (conditions m))
                in bits AND universe_mask m = expected)
           | FlagAll \<Rightarrow> list_all (condition_holds bits) (conditions m)
           | FlagAny \<Rightarrow> list_ex (condition_holds bits) (conditions m)))"

text \<open>\<^verbatim>\<open>str::trim\<close>: the UTF-8 sequences of the Unicode white-space characters.\<close>

definition white_space :: "string list" where
  "white_space =
     map (\<lambda>c. [c]) [CHR 0x09, CHR 0x0A, CHR 0x0B, CHR 0x0C, CHR 0x0D, CHR '' '']
     @ [[CHR 0xC2, CHR 0x85], [CHR 0xC2, CHR 0xA0], [CHR 0xE1, CHR 0x9A, CHR 0x80]]
     @ map (\<lambda>n. [CHR 0xE2, CHR 0x80, char_of (n :: nat)])
         ([0x80..<0x8B] @ [0xA8, 0xA9, 0xAF])
     @ [[CHR 0xE2, CHR 0x81, CHR 0x9F], [CHR 0xE3, CHR 0x80, CHR 0x80]]"

fun strip_prefix :: "string \<Rightarrow> string \<Rightarrow> string option" where
  "strip_prefix [] s = Some s"
| "strip_prefix (p # ps) [] = None"
| "strip_prefix (p # ps) (c # cs) = (if p = c then strip_prefix ps cs else None)"

lemma strip_prefix_Some: "strip_prefix p s = Some r \<longleftrightarrow> s = p @ r"
  by (induction p s rule: strip_prefix.induct) auto

fun first_strip :: "string list \<Rightarrow> string \<Rightarrow> string option" where
  "first_strip [] s = None"
| "first_strip (p # ps) s =
     (case strip_prefix p s of Some r \<Rightarrow> Some r | None \<Rightarrow> first_strip ps s)"

lemma first_strip_length: "first_strip ps s = Some r \<Longrightarrow> [] \<notin> set ps \<Longrightarrow> length r < length s"
  by (induction ps) (auto simp: strip_prefix_Some split: option.splits)

lemma white_space_nonempty: "[] \<notin> set white_space"
  by (auto simp: white_space_def)

function trim_start :: "string \<Rightarrow> string" where
  "trim_start s = (case first_strip white_space s of Some r \<Rightarrow> trim_start r | None \<Rightarrow> s)"
  by pat_completeness auto
termination
  by (relation "measure length") (auto dest: first_strip_length [OF _ white_space_nonempty])

lemma white_space_rev_nonempty: "[] \<notin> set (map rev white_space)"
  by (auto simp: white_space_def)

function trim_end_rev :: "string \<Rightarrow> string" where
  "trim_end_rev s =
     (case first_strip (map rev white_space) s of Some r \<Rightarrow> trim_end_rev r | None \<Rightarrow> s)"
  by pat_completeness auto
termination
  by (relation "measure length") (auto dest: first_strip_length [OF _ white_space_rev_nonempty])

declare trim_start.simps [simp del] trim_end_rev.simps [simp del]

definition trim :: "string \<Rightarrow> string" where
  "trim s = rev (trim_end_rev (rev (trim_start s)))"

definition contradictory_flags :: "string \<Rightarrow> diagnostic" where
  "contradictory_flags label =
     diagnostic_new (''contradictory -flags conditions for `'' @ label @ ''`'') 1"

definition unknown_flag :: "string \<Rightarrow> diagnostic" where
  "unknown_flag token = diagnostic_new (''unknown -flags name `'' @ token @ ''`'') 1"

definition push_condition ::
  "flag_condition list \<Rightarrow> u64 \<Rightarrow> bool \<Rightarrow> string \<Rightarrow> flag_condition list result" where
  "push_condition conds b must label =
     (if list_ex (\<lambda>c. cond_bit c = b \<and> must_be_set c \<noteq> must) conds
      then Inl (contradictory_flags label)
      else if \<not> list_ex (\<lambda>c. cond_bit c = b \<and> must_be_set c = must) conds
      then Inr (conds @ [\<lparr>cond_bit = b, must_be_set = must\<rparr>])
      else Inr conds)"

definition find_spec :: "flag_spec list \<Rightarrow> string \<Rightarrow> flag_spec option" where
  "find_spec specs name = find (\<lambda>s. spec_name s = name) specs"

text \<open>One iteration of the token loop.\<close>

definition flag_token ::
  "flag_spec list \<Rightarrow> flag_condition list \<Rightarrow> string \<Rightarrow> flag_condition list result" where
  "flag_token specs conds raw_token =
     (let token = trim raw_token in
      if token = [] then Inl (unknown_flag '''')
      else (case find_spec specs token of
              Some spec \<Rightarrow> push_condition conds (spec_bit spec) True (spec_name spec)
            | None \<Rightarrow>
                (let (name, must) =
                   (if token \<noteq> ''nodump'' \<and> take 2 token = ''no''
                    then (drop 2 token, False) else (token, True))
                 in try_bind (ok_or (unknown_flag token) (find_spec specs name))
                      (\<lambda>spec. push_condition conds (spec_bit spec) must name))))"

fun flag_tokens ::
  "flag_spec list \<Rightarrow> flag_condition list \<Rightarrow> string list \<Rightarrow> flag_condition list result" where
  "flag_tokens specs conds [] = Inr conds"
| "flag_tokens specs conds (t # ts) =
     try_bind (flag_token specs conds t) (\<lambda>conds'. flag_tokens specs conds' ts)"

definition parse_flags_argument ::
  "os_string \<Rightarrow> flag_spec list \<Rightarrow> file_flags_matcher result" where
  "parse_flags_argument raw specs =
     (let text = utf8_lossy raw;
          (mode, body) =
            (case text of
               c # rest \<Rightarrow>
                 if c = CHR ''+'' then (FlagAny, rest)
                 else if c = CHR ''-'' then (FlagAll, rest)
                 else (FlagExact, text)
             | [] \<Rightarrow> (FlagExact, text))
      in
      if body = [] then Inl (diagnostic_new ''-flags requires a non-empty symbolic operand'' 1)
      else
        try_bind (flag_tokens specs [] (split_on (CHR '','') body))
          (\<lambda>conds. Inr \<lparr>universe_mask = foldl (\<lambda>acc s. acc OR spec_bit s) 0 specs,
                         flag_mode = mode, conditions = conds\<rparr>))"

section \<open>Consistency of the conditions\<close>

text \<open>
  What a token asks for: the bit and its polarity.  The loop accepts a token list exactly when
  every token asks for a known flag and no two tokens ask for one bit in both polarities.
\<close>

definition token_condition :: "flag_spec list \<Rightarrow> string \<Rightarrow> flag_condition option" where
  "token_condition specs raw_token =
     (let token = trim raw_token in
      if token = [] then None
      else (case find_spec specs token of
              Some spec \<Rightarrow> Some \<lparr>cond_bit = spec_bit spec, must_be_set = True\<rparr>
            | None \<Rightarrow>
                if token \<noteq> ''nodump'' \<and> take 2 token = ''no''
                then map_option (\<lambda>s. \<lparr>cond_bit = spec_bit s, must_be_set = False\<rparr>)
                       (find_spec specs (drop 2 token))
                else None))"

definition consistent :: "flag_condition list \<Rightarrow> bool" where
  "consistent cs \<longleftrightarrow>
     (\<forall>c \<in> set cs. \<forall>d \<in> set cs. cond_bit c = cond_bit d \<longrightarrow> must_be_set c = must_be_set d)"

lemma consistent_Nil: "consistent []"
  by (simp add: consistent_def)

lemma flag_condition_eqI:
  "cond_bit c = cond_bit d \<Longrightarrow> must_be_set c = must_be_set d \<Longrightarrow> c = (d :: flag_condition)"
  by (cases c; cases d) simp

lemma push_condition_Inr:
  "push_condition conds b m l = Inr conds' \<Longrightarrow>
   set conds' = insert \<lparr>cond_bit = b, must_be_set = m\<rparr> (set conds)
   \<and> (consistent conds \<longrightarrow> consistent conds')
   \<and> (distinct conds \<longrightarrow> distinct conds')"
proof -
  let ?c = "\<lparr>cond_bit = b, must_be_set = m\<rparr>"
  assume r: "push_condition conds b m l = Inr conds'"
  then have no: "\<forall>c \<in> set conds. cond_bit c = b \<longrightarrow> must_be_set c = m"
    by (auto simp: push_condition_def list_ex_iff split: if_splits)
  then have same: "c \<in> set conds \<Longrightarrow> cond_bit c = b \<Longrightarrow> c = ?c" for c
    by (auto intro: flag_condition_eqI)
  have cons: "consistent conds \<Longrightarrow> set cs = insert ?c (set conds) \<Longrightarrow> consistent cs" for cs
    using no unfolding consistent_def
    by (metis flag_condition.select_convs(1) flag_condition.select_convs(2) insert_iff)
  show ?thesis
  proof (cases "?c \<in> set conds")
    case True
    then have "conds' = conds" using r by (auto simp: push_condition_def list_ex_iff split: if_splits)
    with True show ?thesis by (simp add: insert_absorb)
  next
    case False
    then have "\<forall>c \<in> set conds. cond_bit c \<noteq> b" using same by metis
    then have "conds' = conds @ [?c]"
      using r by (auto simp: push_condition_def list_ex_iff split: if_splits)
    with False cons [of conds'] show ?thesis by simp
  qed
qed

lemma find_spec_name: "find_spec specs n = Some s \<Longrightarrow> spec_name s = n"
  by (auto simp: find_spec_def find_Some_iff)

lemma flag_token_push:
  "flag_token specs conds t =
     (case token_condition specs t of
        None \<Rightarrow> Inl (unknown_flag (trim t))
      | Some c \<Rightarrow> push_condition conds (cond_bit c) (must_be_set c)
          (if must_be_set c then trim t else drop 2 (trim t)))"
proof (cases "find_spec specs (trim t)")
  case (Some s)
  then show ?thesis
    by (simp add: flag_token_def token_condition_def Let_def find_spec_name)
next
  case None
  then show ?thesis
    by (cases "trim t = ''nodump''"; cases "find_spec specs (drop 2 (trim t))")
      (simp_all add: flag_token_def token_condition_def Let_def)
qed

lemma flag_tokens_Inr:
  "flag_tokens specs conds ts = Inr cs \<Longrightarrow> consistent conds \<Longrightarrow> distinct conds \<Longrightarrow>
   consistent cs \<and> distinct cs \<and> list_all (\<lambda>t. token_condition specs t \<noteq> None) ts
   \<and> Some ` set cs = Some ` set conds \<union> token_condition specs ` set ts"
proof (induction ts arbitrary: conds)
  case (Cons t ts)
  then obtain conds' where step: "flag_token specs conds t = Inr conds'"
    and rest: "flag_tokens specs conds' ts = Inr cs" by (auto simp: result_simps)
  from step obtain c where c: "token_condition specs t = Some c"
    "push_condition conds (cond_bit c) (must_be_set c)
       (if must_be_set c then trim t else drop 2 (trim t)) = Inr conds'"
    by (auto simp: flag_token_push split: option.splits)
  from push_condition_Inr [OF c(2)] Cons.prems Cons.IH [OF rest] c(1) show ?case by auto
qed simp

text \<open>
  The conditions of an accepted \<^verbatim>\<open>-flags\<close> operand are exactly what its tokens ask for,
  each once, and never ask for one bit both set and clear.  So the \<^verbatim>\<open>all\<close> form holds iff
  every token's condition holds, the \<^verbatim>\<open>any\<close> form iff one does, and a file whose flags
  cannot be read never matches.
\<close>

theorem parse_flags_argument_conditions:
  assumes "parse_flags_argument raw specs = Inr m"
  shows "\<exists>body. utf8_lossy raw \<in> {body, CHR ''+'' # body, CHR ''-'' # body}
    \<and> consistent (conditions m) \<and> distinct (conditions m)
    \<and> Some ` set (conditions m) = token_condition specs ` set (split_on (CHR '','') body)
    \<and> (flag_mode m = FlagAll \<longrightarrow> (\<forall>bits. flags_matches m (Some bits) \<longleftrightarrow>
         (\<forall>t \<in> set (split_on (CHR '','') body).
            condition_holds bits (the (token_condition specs t)))))
    \<and> (flag_mode m = FlagAny \<longrightarrow> (\<forall>bits. flags_matches m (Some bits) \<longleftrightarrow>
         (\<exists>t \<in> set (split_on (CHR '','') body).
            condition_holds bits (the (token_condition specs t)))))
    \<and> \<not> flags_matches m None"
proof -
  obtain body where body: "utf8_lossy raw \<in> {body, CHR ''+'' # body, CHR ''-'' # body}"
    and toks: "flag_tokens specs [] (split_on (CHR '','') body) = Inr (conditions m)"
    and ne: "body \<noteq> []"
    using assms
  proof (cases "utf8_lossy raw")
    case Nil
    with assms show ?thesis by (simp add: parse_flags_argument_def)
  next
    case (Cons c rest)
    show ?thesis
      by (cases "c = CHR ''+'' \<or> c = CHR ''-''";
          rule that [of "if c = CHR ''+'' \<or> c = CHR ''-'' then rest else c # rest"])
        (use assms Cons in
          \<open>auto simp: parse_flags_argument_def Let_def result_simps split: if_splits\<close>)
  qed
  have cs: "consistent (conditions m) \<and> distinct (conditions m)
      \<and> Some ` set (conditions m) = token_condition specs ` set (split_on (CHR '','') body)"
    using flag_tokens_Inr [OF toks] consistent_Nil by simp
  have set_eq: "set (conditions m)
      = (\<lambda>t. the (token_condition specs t)) ` set (split_on (CHR '','') body)"
  proof -
    have "the ` Some ` set (conditions m) = set (conditions m)" by (simp add: image_image)
    with cs show ?thesis by (metis image_image)
  qed
  have all_any: "flag_mode m = FlagAll \<Longrightarrow> flags_matches m (Some bits) \<longleftrightarrow>
      (\<forall>t \<in> set (split_on (CHR '','') body). condition_holds bits (the (token_condition specs t)))"
    "flag_mode m = FlagAny \<Longrightarrow> flags_matches m (Some bits) \<longleftrightarrow>
      (\<exists>t \<in> set (split_on (CHR '','') body). condition_holds bits (the (token_condition specs t)))"
    for bits
    by (simp_all add: flags_matches_def list_all_iff list_ex_iff set_eq)
  moreover have "\<not> flags_matches m None" by (simp add: flags_matches_def)
  ultimately show ?thesis
    by (intro exI [of _ body] conjI allI impI) (use body cs all_any in \<open>simp_all only: simp_thms\<close>)
qed

lemma parse_flags_argument_conditions_witness:
  "\<exists>m body. parse_flags_argument ''-nodump, noarch''
        [\<lparr>spec_name = ''nodump'', spec_bit = 1\<rparr>, \<lparr>spec_name = ''arch'', spec_bit = 0x10000\<rparr>] = Inr m
     \<and> utf8_lossy ''-nodump, noarch'' \<in> {body, CHR ''+'' # body, CHR ''-'' # body}
     \<and> consistent (conditions m)
     \<and> flags_matches m (Some 1) \<and> \<not> flags_matches m (Some 0x10001)"
proof -
  let ?specs = "[\<lparr>spec_name = ''nodump'', spec_bit = 1\<rparr>, \<lparr>spec_name = ''arch'', spec_bit = 0x10000\<rparr>]"
  let ?m = "\<lparr>universe_mask = 0x10001, flag_mode = FlagAll, conditions =
    [\<lparr>cond_bit = 1, must_be_set = True\<rparr>, \<lparr>cond_bit = 0x10000, must_be_set = False\<rparr>]\<rparr>"
  have parsed: "parse_flags_argument ''-nodump, noarch'' ?specs = Inr ?m" by code_simp
  have "flags_matches ?m (Some 1) \<and> \<not> flags_matches ?m (Some 0x10001)" by code_simp
  with parse_flags_argument_conditions [OF parsed] parsed show ?thesis by blast
qed

end
