(* ===== verification/Glob.thy ===== *)
theory Glob
  imports Rfd_Prelude
begin

text \<open>
  Shell patterns of \<^verbatim>\<open>-name\<close>, \<^verbatim>\<open>-path\<close> and their variants: the compiler of
  \<^verbatim>\<open>src/src/pattern/parse.rs\<close>, the matcher of \<^verbatim>\<open>src/src/pattern/owned.rs\<close> and the
  wrapper of \<^verbatim>\<open>src/src/pattern/mod.rs\<close>.  An index into a slice is represented by the
  suffix of the slice that it points to.  The matcher is proved to accept exactly the
  candidates that split into one segment per atom.
\<close>

section \<open>Data (pattern/ir.rs, pattern/mod.rs)\<close>

datatype class_item = ItemLiteral byte | ItemRange byte byte

record glob_class =
  negated :: bool
  class_items :: "class_item list"

datatype glob_atom = GLiteral byte | AnyByte | AnySequence | GClass glob_class

type_synonym glob_program = "glob_atom list"

datatype glob_case_mode = CaseSensitive | CaseInsensitive

datatype glob_slash_mode = SlashLiteral | SlashPathname

record compiled_glob =
  case_mode :: glob_case_mode
  slash_mode :: glob_slash_mode
  program :: glob_program

section \<open>Compiling (pattern/parse.rs)\<close>

definition unsupported_collating :: "string \<Rightarrow> diagnostic" where
  "unsupported_collating flag =
     diagnostic_new (''unsupported construct in glob pattern for `'' @ flag
       @ ''`: POSIX collating symbols are out of scope'') 1"

definition unsupported_equivalence :: "string \<Rightarrow> diagnostic" where
  "unsupported_equivalence flag =
     diagnostic_new (''unsupported construct in glob pattern for `'' @ flag
       @ ''`: POSIX equivalence classes are out of scope'') 1"

definition consume_class_byte :: "string \<Rightarrow> string \<Rightarrow> (byte \<times> string) option result" where
  "consume_class_byte flag pat =
     (case pat of
        [] \<Rightarrow> Inr None
      | b # rest \<Rightarrow>
          if b = CHR ''['' \<and> slice_get rest 0 = Some (CHR ''.'') then Inl (unsupported_collating flag)
          else if b = CHR ''['' \<and> slice_get rest 0 = Some (CHR ''='') then Inl (unsupported_equivalence flag)
          else if b = CHR 0x5C then
            (case rest of
               escaped # rest' \<Rightarrow> Inr (Some (escaped, rest'))
             | [] \<Rightarrow> Inr (Some (b, rest)))
          else Inr (Some (b, rest)))"

lemma consume_class_byte_length:
  "consume_class_byte flag pat = Inr (Some (b, rest)) \<Longrightarrow> length rest < length pat"
  by (auto simp: consume_class_byte_def split: list.splits if_splits)

function class_loop ::
  "string \<Rightarrow> bool \<Rightarrow> class_item list \<Rightarrow> bool \<Rightarrow> string \<Rightarrow> (glob_class \<times> string) option result" where
  "class_loop flag neg items saw_non_closing pat =
     (case pat of
        [] \<Rightarrow> Inr None
      | b # tail \<Rightarrow>
          if b = CHR '']'' \<and> saw_non_closing
          then Inr (Some (\<lparr>negated = neg, class_items = items\<rparr>, tail))
          else
            (case consume_class_byte flag pat of
               Inl e \<Rightarrow> Inl e
             | Inr None \<Rightarrow> Inr None
             | Inr (Some (start, rest)) \<Rightarrow>
                 if slice_get rest 0 = Some (CHR ''-'')
                    \<and> slice_get rest 1 \<notin> {None, Some (CHR '']'')}
                 then
                   (case consume_class_byte flag (tl rest) of
                      Inl e \<Rightarrow> Inl e
                    | Inr None \<Rightarrow> Inr None
                    | Inr (Some (last_byte, rest')) \<Rightarrow>
                        class_loop flag neg (items @ [ItemRange start last_byte]) True rest')
                 else class_loop flag neg (items @ [ItemLiteral start]) True rest))"
  by pat_completeness auto
termination
  by (relation "measure (\<lambda>(_, _, _, _, pat). length pat)")
    (auto dest!: consume_class_byte_length)

declare class_loop.simps [simp del]

definition try_parse_class :: "string \<Rightarrow> string \<Rightarrow> (glob_class \<times> string) option result" where
  "try_parse_class flag pat =
     (let (neg, pat) =
        (case pat of
           c # cs \<Rightarrow> if c = CHR ''!'' \<or> c = CHR ''^'' then (True, cs) else (False, pat)
         | [] \<Rightarrow> (False, pat))
      in (case pat of
            c # cs \<Rightarrow>
              if c = CHR '']'' then class_loop flag neg [ItemLiteral (CHR '']'')] True cs
              else class_loop flag neg [] False pat
          | [] \<Rightarrow> class_loop flag neg [] False pat))"

lemma class_loop_length:
  "class_loop flag neg items saw pat = Inr (Some (c, rest)) \<Longrightarrow> length rest < length pat"
proof (induction flag neg items saw pat rule: class_loop.induct)
  case (1 flag neg items saw pat)
  note step = "1.prems" [unfolded class_loop.simps [of flag neg items saw pat]]
  show ?case
  proof (cases pat)
    case Nil
    with step show ?thesis by simp
  next
    case (Cons b tail)
    show ?thesis
    proof (cases "b = CHR '']'' \<and> saw")
      case True
      with step Cons show ?thesis by simp
    next
      case False
      with step Cons obtain start r where c1: "consume_class_byte flag pat = Inr (Some (start, r))"
        by (auto split: sum.splits option.splits)
      show ?thesis
      proof (cases "slice_get r 0 = Some (CHR ''-'') \<and> slice_get r 1 \<notin> {None, Some (CHR '']'')}")
        case True
        with step Cons False c1 obtain e r' where
          c2: "consume_class_byte flag (tl r) = Inr (Some (e, r'))"
          and l: "class_loop flag neg (items @ [ItemRange start e]) True r' = Inr (Some (c, rest))"
          by (auto split: sum.splits option.splits)
        have "length rest < length r'"
          by (rule "1.IH"(1) [OF Cons False c1 refl refl True c2 refl refl l])
        then show ?thesis
          using consume_class_byte_length [OF c1] consume_class_byte_length [OF c2] by simp
      next
        case no_range: False
        with step Cons False c1
        have l: "class_loop flag neg (items @ [ItemLiteral start]) True r = Inr (Some (c, rest))"
          by (auto split: if_splits)
        have "length rest < length r"
          by (rule "1.IH"(2) [OF Cons False c1 refl refl no_range l])
        then show ?thesis using consume_class_byte_length [OF c1] by simp
      qed
    qed
  qed
qed

lemma try_parse_class_length:
  "try_parse_class flag pat = Inr (Some (c, rest)) \<Longrightarrow> length rest < length pat"
  by (fastforce simp: try_parse_class_def Let_def split: list.splits if_splits
      dest: class_loop_length)

function compile_loop :: "string \<Rightarrow> glob_program \<Rightarrow> string \<Rightarrow> glob_program result" where
  "compile_loop flag prog [] = Inr prog"
| "compile_loop flag prog (b # rest) =
     (if b = CHR 0x5C then
        (case rest of
           literal # rest' \<Rightarrow> compile_loop flag (prog @ [GLiteral literal]) rest'
         | [] \<Rightarrow> compile_loop flag (prog @ [GLiteral b]) [])
      else if b = CHR ''*'' then
        compile_loop flag
          (if prog \<noteq> [] \<and> last prog = AnySequence then prog else prog @ [AnySequence]) rest
      else if b = CHR ''?'' then compile_loop flag (prog @ [AnyByte]) rest
      else if b = CHR ''['' then
        (case try_parse_class flag rest of
           Inl e \<Rightarrow> Inl e
         | Inr (Some (c, next)) \<Rightarrow> compile_loop flag (prog @ [GClass c]) next
         | Inr None \<Rightarrow> compile_loop flag (prog @ [GLiteral b]) rest)
      else compile_loop flag (prog @ [GLiteral b]) rest)"
  by pat_completeness auto
termination
  by (relation "measure (\<lambda>(_, _, pat). length pat)") (auto dest!: try_parse_class_length)

definition compile_pattern :: "string \<Rightarrow> string \<Rightarrow> glob_program result" where
  "compile_pattern flag pat = compile_loop flag [] pat"

section \<open>Matching (pattern/owned.rs)\<close>

definition fold_byte :: "byte \<Rightarrow> glob_case_mode \<Rightarrow> byte" where
  "fold_byte b cm =
     (case cm of CaseSensitive \<Rightarrow> b | CaseInsensitive \<Rightarrow> to_ascii_lowercase b)"

definition eq_byte :: "byte \<Rightarrow> byte \<Rightarrow> glob_case_mode \<Rightarrow> bool" where
  "eq_byte expected actual cm \<longleftrightarrow> fold_byte expected cm = fold_byte actual cm"

fun item_matches :: "glob_case_mode \<Rightarrow> byte \<Rightarrow> class_item \<Rightarrow> bool" where
  "item_matches cm folded_actual (ItemLiteral expected) \<longleftrightarrow> fold_byte expected cm = folded_actual"
| "item_matches cm folded_actual (ItemRange start last_byte) \<longleftrightarrow>
     byte_val (fold_byte start cm) \<le> byte_val folded_actual
     \<and> byte_val folded_actual \<le> byte_val (fold_byte last_byte cm)"

definition class_matches :: "glob_class \<Rightarrow> byte \<Rightarrow> glob_case_mode \<Rightarrow> bool" where
  "class_matches c actual cm =
     (let matched = list_ex (item_matches cm (fold_byte actual cm)) (class_items c)
      in if negated c then \<not> matched else matched)"

text \<open>
  The loop under \<^verbatim>\<open>AnySequence\<close> is \<open>star_from\<close>: it tries the rest of the program at
  the current byte, and then after every further byte it may consume.
\<close>

function (sequential)
  matches_from :: "glob_case_mode \<Rightarrow> glob_slash_mode \<Rightarrow> glob_program \<Rightarrow> string \<Rightarrow> bool" and
  star_from :: "glob_case_mode \<Rightarrow> glob_slash_mode \<Rightarrow> glob_program \<Rightarrow> string \<Rightarrow> bool" where
  "matches_from cm sm [] cand \<longleftrightarrow> cand = []"
| "matches_from cm sm (GLiteral expected # prog) cand \<longleftrightarrow>
     (case cand of
        [] \<Rightarrow> False
      | actual # rest \<Rightarrow> eq_byte expected actual cm \<and> matches_from cm sm prog rest)"
| "matches_from cm sm (AnyByte # prog) cand \<longleftrightarrow>
     (case cand of
        [] \<Rightarrow> False
      | actual # rest \<Rightarrow>
          (actual \<noteq> CHR ''/'' \<or> sm = SlashLiteral) \<and> matches_from cm sm prog rest)"
| "matches_from cm sm (AnySequence # prog) cand \<longleftrightarrow> star_from cm sm prog cand"
| "matches_from cm sm (GClass c # prog) cand \<longleftrightarrow>
     (case cand of
        [] \<Rightarrow> False
      | actual # rest \<Rightarrow>
          (actual \<noteq> CHR ''/'' \<or> sm = SlashLiteral) \<and> class_matches c actual cm
          \<and> matches_from cm sm prog rest)"
| "star_from cm sm prog cand \<longleftrightarrow>
     (if matches_from cm sm prog cand then True
      else (case cand of
              [] \<Rightarrow> False
            | actual # rest \<Rightarrow>
                if sm = SlashPathname \<and> actual = CHR ''/'' then False
                else star_from cm sm prog rest))"
  by pat_completeness auto
termination
  by (relation "measures [\<lambda>x. case x of Inl (_, _, p, _) \<Rightarrow> length p | Inr (_, _, p, _) \<Rightarrow> length p,
       \<lambda>x. case x of Inl _ \<Rightarrow> 0 | Inr (_, _, _, s) \<Rightarrow> Suc (length s)]") auto

declare star_from.simps [simp del]

definition compile_glob ::
  "string \<Rightarrow> os_string \<Rightarrow> glob_case_mode \<Rightarrow> glob_slash_mode \<Rightarrow> compiled_glob result" where
  "compile_glob flag pat cm sm =
     try_bind (compile_pattern flag pat)
       (\<lambda>prog. Inr \<lparr>case_mode = cm, slash_mode = sm, program = prog\<rparr>)"

definition glob_is_match :: "compiled_glob \<Rightarrow> os_string \<Rightarrow> bool result" where
  "glob_is_match g cand = Inr (matches_from (case_mode g) (slash_mode g) (program g) cand)"

definition matches_pattern :: "os_string \<Rightarrow> os_string \<Rightarrow> bool \<Rightarrow> bool \<Rightarrow> bool result" where
  "matches_pattern pat cand case_insensitive pathname =
     try_bind
       (compile_glob
          (if pathname then (if case_insensitive then ''-ipath'' else ''-path'')
           else if case_insensitive then ''-iname'' else ''-name'')
          pat
          (if case_insensitive then CaseInsensitive else CaseSensitive)
          (if pathname then SlashPathname else SlashLiteral))
       (\<lambda>glob. glob_is_match glob cand)"

section \<open>The language of a program\<close>

fun atom_lang :: "glob_case_mode \<Rightarrow> glob_slash_mode \<Rightarrow> glob_atom \<Rightarrow> string \<Rightarrow> bool" where
  "atom_lang cm sm (GLiteral e) s \<longleftrightarrow> (\<exists>a. s = [a] \<and> eq_byte e a cm)"
| "atom_lang cm sm AnyByte s \<longleftrightarrow> (\<exists>a. s = [a] \<and> (sm = SlashPathname \<longrightarrow> a \<noteq> CHR ''/''))"
| "atom_lang cm sm AnySequence s \<longleftrightarrow> (sm = SlashPathname \<longrightarrow> CHR ''/'' \<notin> set s)"
| "atom_lang cm sm (GClass c) s \<longleftrightarrow>
     (\<exists>a. s = [a] \<and> (sm = SlashPathname \<longrightarrow> a \<noteq> CHR ''/'') \<and> class_matches c a cm)"

definition glob_lang ::
  "glob_case_mode \<Rightarrow> glob_slash_mode \<Rightarrow> glob_program \<Rightarrow> string \<Rightarrow> bool" where
  "glob_lang cm sm prog cand \<longleftrightarrow>
     (\<exists>segs. list_all2 (atom_lang cm sm) prog segs \<and> concat segs = cand)"

lemma glob_lang_Nil: "glob_lang cm sm [] cand \<longleftrightarrow> cand = []"
  by (auto simp: glob_lang_def)

lemma glob_lang_Cons:
  "glob_lang cm sm (a # prog) cand \<longleftrightarrow>
   (\<exists>s r. cand = s @ r \<and> atom_lang cm sm a s \<and> glob_lang cm sm prog r)"
  unfolding glob_lang_def list_all2_Cons1 by fastforce

lemma slash_literal_iff: "sm = SlashLiteral \<longleftrightarrow> sm \<noteq> SlashPathname"
  by (cases sm) auto

lemma glob_lang_star:
  "glob_lang cm sm (AnySequence # prog) cand \<longleftrightarrow>
   glob_lang cm sm prog cand
   \<or> (\<exists>a r. cand = a # r \<and> (sm = SlashPathname \<longrightarrow> a \<noteq> CHR ''/'')
        \<and> glob_lang cm sm (AnySequence # prog) r)"
  (is "?l \<longleftrightarrow> ?r")
proof
  assume ?l
  then obtain s r where sr: "cand = s @ r" "atom_lang cm sm AnySequence s" "glob_lang cm sm prog r"
    unfolding glob_lang_Cons by blast
  show ?r
  proof (cases s)
    case Nil
    with sr show ?thesis by simp
  next
    case (Cons a s')
    with sr have "glob_lang cm sm (AnySequence # prog) (s' @ r)"
      unfolding glob_lang_Cons by auto
    with sr Cons show ?thesis by auto
  qed
next
  assume ?r
  then show ?l
  proof
    assume "glob_lang cm sm prog cand"
    then show ?l unfolding glob_lang_Cons by (metis append_Nil atom_lang.simps(3) empty_iff list.set(1))
  next
    assume "\<exists>a r. cand = a # r \<and> (sm = SlashPathname \<longrightarrow> a \<noteq> CHR ''/'')
        \<and> glob_lang cm sm (AnySequence # prog) r"
    then obtain a s r where "cand = a # s @ r" "sm = SlashPathname \<longrightarrow> a \<noteq> CHR ''/''"
      "atom_lang cm sm AnySequence s" "glob_lang cm sm prog r"
      unfolding glob_lang_Cons by auto
    then show ?l unfolding glob_lang_Cons by (intro exI [of _ "a # s"] exI [of _ r]) auto
  qed
qed

lemma glob_lang_one:
  assumes "\<And>s. atom_lang cm sm a s \<longleftrightarrow> (\<exists>c. s = [c] \<and> P c)"
  shows "glob_lang cm sm (a # prog) cand \<longleftrightarrow>
    (case cand of [] \<Rightarrow> False | c # r \<Rightarrow> P c \<and> glob_lang cm sm prog r)"
  unfolding glob_lang_Cons assms by (cases cand) (auto, metis append_Cons append_Nil)

lemmas glob_lang_ones =
  glob_lang_one [OF atom_lang.simps(1)] glob_lang_one [OF atom_lang.simps(2)]
  glob_lang_one [OF atom_lang.simps(4)]

lemma matches_from_lang:
  "matches_from cm sm prog cand \<longleftrightarrow> glob_lang cm sm prog cand"
  "star_from cm sm prog cand \<longleftrightarrow> glob_lang cm sm (AnySequence # prog) cand"
proof (induction cm sm prog cand and cm sm prog cand rule: matches_from_star_from.induct)
  case (6 cm sm prog cand)
  then show ?case
    by (subst star_from.simps, subst glob_lang_star) (cases cand; auto)
next
  case (1 cm sm cand)
  then show ?case by (simp add: glob_lang_Nil)
next
  case (2 cm sm e prog cand)
  then show ?case by (cases cand) (simp_all add: glob_lang_ones)
next
  case (3 cm sm prog cand)
  then show ?case by (cases cand; cases sm) (simp_all add: glob_lang_ones)
next
  case (5 cm sm c prog cand)
  then show ?case by (cases cand; cases sm) (simp_all add: glob_lang_ones)
qed simp

text \<open>
  C24.  The backtracking matcher decides the declarative meaning of a compiled pattern: the
  candidate is a concatenation of segments, one per atom, where a literal, \<open>?\<close> or bracket
  atom takes one byte it accepts (up to ASCII case for the case-insensitive flags), \<open>*\<close> takes
  any run of bytes, and in pathname mode no wildcard takes a slash.
\<close>

theorem glob_matcher_decides_language:
  "glob_is_match \<lparr>case_mode = cm, slash_mode = sm, program = prog\<rparr> cand =
   Inr (\<exists>segs. list_all2 (atom_lang cm sm) prog segs \<and> concat segs = cand)"
  by (simp add: glob_is_match_def matches_from_lang glob_lang_def)

text \<open>
  Case-insensitive matching is blind to the ASCII case of the candidate: a candidate and
  its lower-case form are accepted by the same patterns, in both slash modes.
\<close>

theorem glob_insensitive_folds_candidate:
  "glob_is_match \<lparr>case_mode = CaseInsensitive, slash_mode = sm, program = prog\<rparr>
     (map to_ascii_lowercase cand) =
   glob_is_match \<lparr>case_mode = CaseInsensitive, slash_mode = sm, program = prog\<rparr> cand"
proof -
  have slash: "to_ascii_lowercase c = CHR ''/'' \<longleftrightarrow> c = CHR ''/''" for c
  proof (cases "in_range 65 90 c")
    case True
    then have "byte_val (char_of (byte_val c + 32)) = byte_val c + 32"
      by (simp add: in_range_def byte_val_char_of)
    moreover have "byte_val (CHR ''/'') = 47" by (simp add: byte_val_def)
    ultimately show ?thesis using True by (auto simp: to_ascii_lowercase_def in_range_def)
  qed (simp add: to_ascii_lowercase_def)
  have cls: "class_matches c (to_ascii_lowercase a) CaseInsensitive
      = class_matches c a CaseInsensitive" for c a
    by (simp add: class_matches_def fold_byte_def)
  have
    "matches_from cm sm prog (map to_ascii_lowercase cand) = matches_from cm sm prog cand"
    "star_from cm sm prog (map to_ascii_lowercase cand) = star_from cm sm prog cand"
    if "cm = CaseInsensitive" for cm
    using that
  proof (induction cm sm prog cand and cm sm prog cand rule: matches_from_star_from.induct)
    case (6 cm sm prog cand)
    then show ?case
      by (subst (1 2) star_from.simps) (cases cand; simp add: slash)
  qed (auto simp: eq_byte_def fold_byte_def slash cls split: list.splits)
  then show ?thesis by (simp add: glob_is_match_def)
qed

section \<open>The programs the compiler produces\<close>

definition not_both_stars :: "glob_atom \<Rightarrow> glob_atom \<Rightarrow> bool" where
  "not_both_stars a b \<longleftrightarrow> a \<noteq> AnySequence \<or> b \<noteq> AnySequence"

fun atom_ok :: "glob_atom \<Rightarrow> bool" where
  "atom_ok (GClass c) \<longleftrightarrow> class_items c \<noteq> []"
| "atom_ok _ \<longleftrightarrow> True"

definition glob_wf :: "glob_program \<Rightarrow> bool" where
  "glob_wf prog \<longleftrightarrow> successively not_both_stars prog \<and> list_all atom_ok prog"

lemma glob_wf_snoc:
  "glob_wf (prog @ [a]) \<longleftrightarrow>
   glob_wf prog \<and> atom_ok a \<and> (prog = [] \<or> not_both_stars (last prog) a)"
  by (auto simp: glob_wf_def successively_append_iff)

lemma class_loop_nonempty:
  "class_loop flag neg items saw pat = Inr (Some (c, rest)) \<Longrightarrow> (saw \<longrightarrow> items \<noteq> []) \<Longrightarrow>
   class_items c \<noteq> []"
proof (induction flag neg items saw pat rule: class_loop.induct)
  case (1 flag neg items saw pat)
  note step = "1.prems"(1) [unfolded class_loop.simps [of flag neg items saw pat]]
  show ?case
  proof (cases pat)
    case Nil
    with step show ?thesis by simp
  next
    case (Cons b tail)
    show ?thesis
    proof (cases "b = CHR '']'' \<and> saw")
      case True
      with step Cons "1.prems"(2) show ?thesis by auto
    next
      case False
      with step Cons obtain start r where c1: "consume_class_byte flag pat = Inr (Some (start, r))"
        by (auto split: sum.splits option.splits)
      show ?thesis
      proof (cases "slice_get r 0 = Some (CHR ''-'') \<and> slice_get r 1 \<notin> {None, Some (CHR '']'')}")
        case True
        with step Cons False c1 obtain e r' where
          c2: "consume_class_byte flag (tl r) = Inr (Some (e, r'))"
          and l: "class_loop flag neg (items @ [ItemRange start e]) True r' = Inr (Some (c, rest))"
          by (auto split: sum.splits option.splits)
        show ?thesis by (rule "1.IH"(1) [OF Cons False c1 refl refl True c2 refl refl l]) simp
      next
        case no_range: False
        with step Cons False c1
        have l: "class_loop flag neg (items @ [ItemLiteral start]) True r = Inr (Some (c, rest))"
          by (auto split: if_splits)
        show ?thesis by (rule "1.IH"(2) [OF Cons False c1 refl refl no_range l]) simp
      qed
    qed
  qed
qed

lemma try_parse_class_nonempty:
  "try_parse_class flag pat = Inr (Some (c, rest)) \<Longrightarrow> class_items c \<noteq> []"
  by (fastforce simp: try_parse_class_def Let_def split: list.splits if_splits
      dest: class_loop_nonempty)

lemma compile_loop_wf: "compile_loop flag acc pat = Inr prog \<Longrightarrow> glob_wf acc \<Longrightarrow> glob_wf prog"
proof (induction flag acc pat rule: compile_loop.induct)
  case (2 flag acc b rest)
  show ?case
  proof (cases "b = CHR ''[''")
    case True
    with 2 show ?thesis
      by (auto simp: glob_wf_snoc not_both_stars_def dest!: try_parse_class_nonempty
          split: sum.splits option.splits)
  next
    case False
    with 2 show ?thesis
      by (auto simp: glob_wf_snoc not_both_stars_def split: if_splits list.splits)
  qed
qed simp

text \<open>A rendering of programs back to patterns, every literal byte escaped.\<close>

fun render_item :: "class_item \<Rightarrow> string" where
  "render_item (ItemLiteral c) = [CHR 0x5C, c]"
| "render_item (ItemRange a b) = [CHR 0x5C, a, CHR ''-'', CHR 0x5C, b]"

fun render_atom :: "glob_atom \<Rightarrow> string" where
  "render_atom (GLiteral c) = [CHR 0x5C, c]"
| "render_atom AnyByte = ''?''"
| "render_atom AnySequence = ''*''"
| "render_atom (GClass c) =
     ''['' @ (if negated c then ''^'' else '''') @ concat (map render_item (class_items c)) @ '']''"

definition render_glob :: "glob_program \<Rightarrow> string" where
  "render_glob prog = concat (map render_atom prog)"

lemma class_loop_render:
  "class_loop flag neg acc (acc \<noteq> []) (concat (map render_item items) @ CHR '']'' # rest) =
     (if acc @ items = [] then class_loop flag neg [] False (CHR '']'' # rest)
      else Inr (Some (\<lparr>negated = neg, class_items = acc @ items\<rparr>, rest)))"
proof (induction items arbitrary: acc)
  case Nil
  show ?case
  proof (cases "acc = []")
    case False
    then show ?thesis by (simp add: class_loop.simps [of _ _ acc])
  qed simp
next
  case (Cons item items)
  have ne: "(acc @ [item] \<noteq> []) = True" by simp
  have hd: "slice_get (concat (map render_item items) @ CHR '']'' # rest) 0 \<noteq> Some (CHR ''-'')"
    by (cases items; cases "hd items") auto
  show ?case
    using Cons.IH [of "acc @ [item]"] hd
    by (cases item) (simp_all add: class_loop.simps [of _ _ acc] consume_class_byte_def)
qed

lemma try_parse_class_render:
  "class_items c \<noteq> [] \<Longrightarrow>
   try_parse_class flag ((if negated c then ''^'' else '''')
     @ concat (map render_item (class_items c)) @ CHR '']'' # rest) = Inr (Some (c, rest))"
  using class_loop_render [of flag "negated c" "[]" "class_items c" rest]
  by (cases c; cases "class_items c"; cases "hd (class_items c)")
    (auto simp: try_parse_class_def Let_def)

lemma compile_loop_render:
  "glob_wf (acc @ prog) \<Longrightarrow> compile_loop flag acc (render_glob prog) = Inr (acc @ prog)"
proof (induction prog arbitrary: acc)
  case Nil
  then show ?case by (simp add: render_glob_def)
next
  case (Cons a prog)
  have IH: "compile_loop flag (acc @ [a]) (render_glob prog) = Inr (acc @ a # prog)"
    using Cons.IH [of "acc @ [a]"] Cons.prems by simp
  have ok: "atom_ok a" "acc \<noteq> [] \<and> last acc = AnySequence \<longrightarrow> a \<noteq> AnySequence"
    using Cons.prems by (auto simp: glob_wf_def successively_append_iff not_both_stars_def)
  show ?case
  proof (cases a)
    case (GClass c)
    with ok have "class_items c \<noteq> []" by simp
    from try_parse_class_render [OF this, of flag "render_glob prog"] IH GClass
    show ?thesis by (simp add: render_glob_def)
  qed (use IH ok in \<open>auto simp: render_glob_def\<close>)
qed

text \<open>
  Compiling reaches a normal form: the program of an accepted pattern has no two adjacent
  stars and no empty bracket expression, and rendering it with every literal byte escaped gives
  a pattern that compiles to that same program.
\<close>

theorem compile_pattern_normal_form:
  assumes "compile_pattern flag pat = Inr prog"
  shows "glob_wf prog \<and> compile_pattern flag (render_glob prog) = Inr prog"
proof
  show wf: "glob_wf prog"
    using compile_loop_wf [OF assms [unfolded compile_pattern_def]] by (simp add: glob_wf_def)
  show "compile_pattern flag (render_glob prog) = Inr prog"
    using compile_loop_render [of "[]" prog flag] wf by (simp add: compile_pattern_def)
qed

lemma compile_pattern_normal_form_witness:
  "compile_pattern ''-name'' ''**[!]a-c]?[z''
     = Inr [AnySequence,
            GClass \<lparr>negated = True,
                     class_items = [ItemLiteral (CHR '']''), ItemRange (CHR ''a'') (CHR ''c'')]\<rparr>,
            AnyByte, GLiteral (CHR ''[''), GLiteral (CHR ''z'')]
   \<and> glob_wf [AnySequence,
            GClass \<lparr>negated = True,
                     class_items = [ItemLiteral (CHR '']''), ItemRange (CHR ''a'') (CHR ''c'')]\<rparr>,
            AnyByte, GLiteral (CHR ''[''), GLiteral (CHR ''z'')]"
proof -
  have parsed: "compile_pattern ''-name'' ''**[!]a-c]?[z''
     = Inr [AnySequence,
            GClass \<lparr>negated = True,
                     class_items = [ItemLiteral (CHR '']''), ItemRange (CHR ''a'') (CHR ''c'')]\<rparr>,
            AnyByte, GLiteral (CHR ''[''), GLiteral (CHR ''z'')]" by code_simp
  show ?thesis using compile_pattern_normal_form [OF parsed] parsed by simp
qed

end
