(* ===== verification/Time_Match.thy ===== *)
theory Time_Match
  imports Numeric "HOL-Library.Signed_Division"
begin

text \<open>
  Time predicates: \<^verbatim>\<open>src/src/time.rs\<close>.  An amount is kept as decimal digits with a scale
  and is multiplied, rounded to nanoseconds and subtracted digit by digit; the comparisons are
  proved equivalent to exact arithmetic on nanoseconds.  The C library's \<^verbatim>\<open>localtime_r\<close> is
  an argument of the definitions that use it.  An \<^verbatim>\<open>i64\<close> or \<^verbatim>\<open>i32\<close> is an \<^typ>\<open>int\<close>
  with the checked operations written out; unchecked ones stay far inside their range.
\<close>

section \<open>Data\<close>

datatype timestamp = Timestamp (seconds: int) (nanos: int)

instantiation timestamp :: linorder
begin

definition less_eq_timestamp :: "timestamp \<Rightarrow> timestamp \<Rightarrow> bool" where
  "less_eq_timestamp a b \<longleftrightarrow>
     seconds a < seconds b \<or> seconds a = seconds b \<and> nanos a \<le> nanos b"

definition less_timestamp :: "timestamp \<Rightarrow> timestamp \<Rightarrow> bool" where
  "less_timestamp a b \<longleftrightarrow>
     seconds a < seconds b \<or> seconds a = seconds b \<and> nanos a < nanos b"

instance
  by standard (auto simp: less_eq_timestamp_def less_timestamp_def timestamp.expand)

end

datatype timestamp_kind = KAccess | KBirth | KChange | KModification

datatype relative_time_unit = Minutes | Days

fun unit_seconds :: "relative_time_unit \<Rightarrow> int" where
  "unit_seconds Minutes = 60"
| "unit_seconds Days = 86400"

record time_amount =
  digits :: string
  scale :: nat

datatype time_comparison =
  TimeExactly time_amount | TimeLessThan time_amount | TimeGreaterThan time_amount

record relative_time_matcher =
  time_kind :: timestamp_kind
  time_unit :: relative_time_unit
  time_cmp :: time_comparison
  baseline :: timestamp
  daystart :: bool

record newer_matcher =
  newer_current :: timestamp_kind
  newer_reference :: timestamp

record used_matcher =
  used_cmp :: time_comparison

record time_comparison_shifts =
  exact_shift_units :: int
  less_adjustment_units :: int
  greater_shift_units :: int

datatype timestamp_boundary = BeforeAll | Finite timestamp | AfterAll

datatype rounding_mode = Floor | Ceil

datatype quantized_offset = FiniteOffset timestamp | OffsetOverflow

section \<open>Amounts\<close>

definition amount_integral_value :: "time_amount \<Rightarrow> int option" where
  "amount_integral_value a = (if scale a \<noteq> 0 then None else parse_i64 (digits a))"

function strip_trailing_zeros :: "string \<Rightarrow> nat \<Rightarrow> string \<times> nat" where
  "strip_trailing_zeros ds sc =
     (if sc > 0 \<and> ds \<noteq> [] \<and> last ds = CHR ''0'' then strip_trailing_zeros (butlast ds) (sc - 1)
      else (ds, sc))"
  by pat_completeness auto
termination by (relation "measure snd") auto

declare strip_trailing_zeros.simps [simp del]

text \<open>Both loops that remove leading zeros (\<^verbatim>\<open>from_str\<close> and \<^verbatim>\<open>trim_leading_zero_digits\<close>).\<close>

fun trim_leading_zero_digits :: "string \<Rightarrow> string" where
  "trim_leading_zero_digits (c # d # ds) =
     (if c = CHR ''0'' then trim_leading_zero_digits (d # ds) else c # d # ds)"
| "trim_leading_zero_digits ds = ds"

definition time_amount_from_str :: "string \<Rightarrow> time_amount result" where
  "time_amount_from_str raw =
     (let (whole, frac) =
        (case split_once (CHR ''.'') raw of
           Some (whole, frac) \<Rightarrow> (whole, Some frac)
         | None \<Rightarrow> (raw, None))
      in
      if whole = [] \<or> \<not> list_all is_ascii_digit whole
      then Inl (diagnostic_parse ''invalid time amount'')
      else if (case frac of None \<Rightarrow> False | Some v \<Rightarrow> v = [] \<or> \<not> list_all is_ascii_digit v)
      then Inl (diagnostic_parse ''invalid time amount'')
      else
        (let ds = whole;
             sc = (case frac of None \<Rightarrow> 0 | Some v \<Rightarrow> length v mod 2 ^ 32);
             ds = (case frac of None \<Rightarrow> ds | Some v \<Rightarrow> ds @ v);
             (ds, sc) = strip_trailing_zeros ds sc;
             ds = trim_leading_zero_digits ds;
             ds = (if ds = [] then ''0'' else ds)
         in Inr \<lparr>digits = ds, scale = sc\<rparr>))"

definition time_invalid_numeric_argument :: "string \<Rightarrow> os_string \<Rightarrow> diagnostic" where
  "time_invalid_numeric_argument flag val =
     diagnostic_parse (''invalid numeric argument for `'' @ flag @ ''`: `'' @ utf8_lossy val @ ''`'')"

fun time_comparison_of :: "comparison_kind \<Rightarrow> time_amount \<Rightarrow> time_comparison" where
  "time_comparison_of KindExactly a = TimeExactly a"
| "time_comparison_of KindLessThan a = TimeLessThan a"
| "time_comparison_of KindGreaterThan a = TimeGreaterThan a"

definition parse_time_comparison :: "string \<Rightarrow> os_string \<Rightarrow> time_comparison result" where
  "parse_time_comparison flag val =
     (let (kind, ds) = split_sign val in
      if \<not> is_utf8 ds then Inl (time_invalid_numeric_argument flag val)
      else
        try_bind (map_err (\<lambda>_. time_invalid_numeric_argument flag val) (time_amount_from_str ds))
          (\<lambda>parsed. Inr (time_comparison_of kind parsed)))"

definition validate_time_argument :: "string \<Rightarrow> os_string \<Rightarrow> unit result" where
  "validate_time_argument flag val = try_bind (parse_time_comparison flag val) (\<lambda>_. Inr ())"

definition parse_relative_time_argument ::
  "string \<Rightarrow> os_string \<Rightarrow> timestamp_kind \<Rightarrow> relative_time_unit \<Rightarrow> timestamp \<Rightarrow> bool \<Rightarrow>
   relative_time_matcher result" where
  "parse_relative_time_argument flag val kind u base ds =
     try_bind (parse_time_comparison flag val)
       (\<lambda>c. Inr \<lparr>time_kind = kind, time_unit = u, time_cmp = c, baseline = base, daystart = ds\<rparr>)"

section \<open>Digit arithmetic\<close>

text \<open>The loop of \<^verbatim>\<open>multiply_decimal_digits\<close>, least significant digit first.\<close>

function push_carry :: "nat \<Rightarrow> string" where
  "push_carry carry =
     (if carry > 0 then digit_char (carry mod 10) # push_carry (carry div 10) else [])"
  by pat_completeness auto
termination by (relation "measure id") auto

declare push_carry.simps [simp del]

fun multiply_loop :: "nat \<Rightarrow> nat \<Rightarrow> string \<Rightarrow> string" where
  "multiply_loop multiplier carry [] = push_carry carry"
| "multiply_loop multiplier carry (d # ds) =
     (let v = digit_val d * multiplier + carry
      in digit_char (v mod 10) # multiply_loop multiplier (v div 10) ds)"

definition multiply_decimal_digits :: "string \<Rightarrow> nat \<Rightarrow> string" where
  "multiply_decimal_digits ds multiplier = rev (multiply_loop multiplier 0 (rev ds))"

fun increment_loop :: "string \<Rightarrow> string" where
  "increment_loop [] = ''1''"
| "increment_loop (d # ds) =
     (if d = CHR ''9'' then CHR ''0'' # increment_loop ds else digit_char (digit_val d + 1) # ds)"

definition increment_decimal_digits :: "string \<Rightarrow> string" where
  "increment_decimal_digits ds = rev (increment_loop (rev ds))"

definition some_nonzero :: "string \<Rightarrow> bool" where
  "some_nonzero ds \<longleftrightarrow> list_ex (\<lambda>d. d \<noteq> CHR ''0'') ds"

definition quantized_nanoseconds_digits :: "string \<Rightarrow> nat \<Rightarrow> rounding_mode \<Rightarrow> string" where
  "quantized_nanoseconds_digits ds sc rounding =
     (if sc \<le> 9 then trim_leading_zero_digits (ds @ replicate (9 - sc) (CHR ''0''))
      else
        (let truncated = sc - 9 in
         if truncated \<ge> length ds then
           (case rounding of
              Floor \<Rightarrow> ''0''
            | Ceil \<Rightarrow> if some_nonzero ds then ''1'' else ''0'')
         else
           (let split = length ds - truncated;
                quantized = trim_leading_zero_digits (take split ds);
                remainder_nonzero = some_nonzero (drop split ds)
            in if rounding = Ceil \<and> remainder_nonzero
               then increment_decimal_digits quantized else quantized)))"

definition normalized_digit_slice :: "string \<Rightarrow> string" where
  "normalized_digit_slice ds =
     (if some_nonzero ds then dropWhile (\<lambda>d. d = CHR ''0'') ds else drop (length ds - 1) ds)"

text \<open>The lexicographic comparison of byte slices of one length.\<close>

fun slice_greater :: "string \<Rightarrow> string \<Rightarrow> bool" where
  "slice_greater (a # as) (b # bs) \<longleftrightarrow>
     byte_val a > byte_val b \<or> a = b \<and> slice_greater as bs"
| "slice_greater as bs \<longleftrightarrow> bs = [] \<and> as \<noteq> []"

definition parse_nonnegative_i64_digits :: "string \<Rightarrow> int option" where
  "parse_nonnegative_i64_digits ds =
     (let normalized = normalized_digit_slice ds; max_digits = ''9223372036854775807'' in
      if length normalized > length max_digits
         \<or> length normalized = length max_digits \<and> slice_greater normalized max_digits
      then None
      else parse_i64 normalized)"

definition quantized_offset_from_nanoseconds :: "string \<Rightarrow> quantized_offset" where
  "quantized_offset_from_nanoseconds ds =
     (let n = length ds;
          seconds_digits = (if n > 9 then take (n - 9) ds else ''0'')
      in case parse_nonnegative_i64_digits seconds_digits of
           None \<Rightarrow> OffsetOverflow
         | Some secs \<Rightarrow>
             (let nanos_digits =
                (if n > 9 then drop (n - 9) ds else replicate (9 - n) (CHR ''0'') @ ds)
              in FiniteOffset (Timestamp secs (int (dec_val nanos_digits)))))"

definition quantize_offset :: "time_amount \<Rightarrow> int \<Rightarrow> rounding_mode \<Rightarrow> quantized_offset" where
  "quantize_offset a unit_secs rounding =
     (let seconds_digits = multiply_decimal_digits (digits a) (nat unit_secs);
          nanos_digits = quantized_nanoseconds_digits seconds_digits (scale a) rounding
      in quantized_offset_from_nanoseconds nanos_digits)"

section \<open>Boundaries\<close>

definition shift_timestamp_by_units :: "timestamp \<Rightarrow> int \<Rightarrow> int \<Rightarrow> timestamp_boundary" where
  "shift_timestamp_by_units t unit_secs delta_units =
     (case checked_i64 (unit_secs * delta_units) of
        None \<Rightarrow> if delta_units < 0 then AfterAll else BeforeAll
      | Some delta_seconds \<Rightarrow>
          (case checked_i64 (seconds t - delta_seconds) of
             None \<Rightarrow> if delta_seconds < 0 then AfterAll else BeforeAll
           | Some shifted \<Rightarrow> Finite (Timestamp shifted (nanos t))))"

definition shift_timestamp_by_offset :: "timestamp \<Rightarrow> quantized_offset \<Rightarrow> timestamp_boundary" where
  "shift_timestamp_by_offset t offset =
     (case offset of
        OffsetOverflow \<Rightarrow> BeforeAll
      | FiniteOffset off \<Rightarrow>
          (case checked_i64 (seconds t - seconds off) of
             None \<Rightarrow> BeforeAll
           | Some shifted \<Rightarrow>
               if nanos t \<ge> nanos off then Finite (Timestamp shifted (nanos t - nanos off))
               else (case checked_i64 (shifted - 1) of
                       None \<Rightarrow> BeforeAll
                     | Some shifted' \<Rightarrow>
                         Finite (Timestamp shifted' (nanos t + 1000000000 - nanos off)))))"

definition threshold_boundary ::
  "timestamp \<Rightarrow> time_amount \<Rightarrow> int \<Rightarrow> int \<Rightarrow> rounding_mode \<Rightarrow> timestamp_boundary" where
  "threshold_boundary base a unit_secs adjustment rounding =
     (case shift_timestamp_by_units base unit_secs adjustment of
        Finite adjusted \<Rightarrow> shift_timestamp_by_offset adjusted (quantize_offset a unit_secs rounding)
      | b \<Rightarrow> b)"

fun timestamp_gt_boundary :: "timestamp \<Rightarrow> timestamp_boundary \<Rightarrow> bool" where
  "timestamp_gt_boundary t BeforeAll \<longleftrightarrow> True"
| "timestamp_gt_boundary t (Finite b) \<longleftrightarrow> t > b"
| "timestamp_gt_boundary t AfterAll \<longleftrightarrow> False"

fun timestamp_lt_boundary :: "timestamp \<Rightarrow> timestamp_boundary \<Rightarrow> bool" where
  "timestamp_lt_boundary t BeforeAll \<longleftrightarrow> False"
| "timestamp_lt_boundary t (Finite b) \<longleftrightarrow> t < b"
| "timestamp_lt_boundary t AfterAll \<longleftrightarrow> True"

fun timestamp_le_boundary :: "timestamp \<Rightarrow> timestamp_boundary \<Rightarrow> bool" where
  "timestamp_le_boundary t BeforeAll \<longleftrightarrow> False"
| "timestamp_le_boundary t (Finite b) \<longleftrightarrow> t \<le> b"
| "timestamp_le_boundary t AfterAll \<longleftrightarrow> True"

fun rolling_window_shifts :: "relative_time_unit \<Rightarrow> time_comparison_shifts" where
  "rolling_window_shifts Minutes =
     \<lparr>exact_shift_units = 1, less_adjustment_units = 0, greater_shift_units = 0\<rparr>"
| "rolling_window_shifts Days =
     \<lparr>exact_shift_units = 0, less_adjustment_units = 0, greater_shift_units = 1\<rparr>"

fun matches_time_window ::
  "time_comparison \<Rightarrow> timestamp \<Rightarrow> timestamp \<Rightarrow> int \<Rightarrow> time_comparison_shifts \<Rightarrow> bool result" where
  "matches_time_window (TimeExactly a) base actual u shifts =
     (let lower = threshold_boundary base a u (- exact_shift_units shifts) Ceil;
          upper = threshold_boundary base a u (1 - exact_shift_units shifts) Floor
      in Inr (timestamp_le_boundary actual lower \<and> timestamp_gt_boundary actual upper))"
| "matches_time_window (TimeLessThan a) base actual u shifts =
     Inr (timestamp_gt_boundary actual
            (threshold_boundary base a u (less_adjustment_units shifts) Ceil))"
| "matches_time_window (TimeGreaterThan a) base actual u shifts =
     Inr (timestamp_lt_boundary actual
            (threshold_boundary base a u (greater_shift_units shifts) Floor))"

section \<open>Matchers\<close>

fun comparison_integral_value :: "time_comparison \<Rightarrow> int option" where
  "comparison_integral_value (TimeExactly a) = amount_integral_value a"
| "comparison_integral_value (TimeLessThan a) = amount_integral_value a"
| "comparison_integral_value (TimeGreaterThan a) = amount_integral_value a"

definition matches_calendar_day_window :: "time_comparison \<Rightarrow> int \<Rightarrow> bool" where
  "matches_calendar_day_window c elapsed_days =
     (case comparison_integral_value c of
        None \<Rightarrow> False
      | Some expected \<Rightarrow>
          (case c of
             TimeExactly _ \<Rightarrow> elapsed_days = expected
           | TimeLessThan _ \<Rightarrow> elapsed_days < expected
           | TimeGreaterThan _ \<Rightarrow> elapsed_days > expected))"

definition comparison_shifts :: "relative_time_matcher \<Rightarrow> time_comparison_shifts" where
  "comparison_shifts m =
     (if daystart m \<and> time_unit m = Days
      then \<lparr>exact_shift_units = 1, less_adjustment_units = - 1, greater_shift_units = 0\<rparr>
      else rolling_window_shifts (time_unit m))"

text \<open>The fields of \<^verbatim>\<open>struct tm\<close> that are read, and the C library's \<^verbatim>\<open>localtime_r\<close>.\<close>

record tm =
  tm_year :: int
  tm_mon :: int
  tm_mday :: int

type_synonym localtime = "int \<Rightarrow> tm option"

definition local_time :: "localtime \<Rightarrow> int \<Rightarrow> tm result" where
  "local_time lt secs =
     ok_or (diagnostic_new ''failed to resolve local time for relative time matching'' 1) (lt secs)"

definition days_from_civil :: "int \<Rightarrow> int \<Rightarrow> int \<Rightarrow> int" where
  "days_from_civil year month day =
     (let adjusted_year = year - (if month \<le> 2 then 1 else 0);
          era = (if adjusted_year \<ge> 0 then adjusted_year else adjusted_year - 399) sdiv 400;
          year_of_era = adjusted_year - era * 400;
          shifted_month = month + (if month > 2 then - 3 else 9);
          day_of_year = (153 * shifted_month + 2) sdiv 5 + day - 1;
          day_of_era = year_of_era * 365 + year_of_era sdiv 4 - year_of_era sdiv 100 + day_of_year
      in era * 146097 + day_of_era - 719468)"

definition local_calendar_day :: "localtime \<Rightarrow> timestamp \<Rightarrow> int result" where
  "local_calendar_day lt t =
     try_bind (local_time lt (seconds t))
       (\<lambda>loc. Inr (days_from_civil (tm_year loc + 1900) (tm_mon loc + 1) (tm_mday loc)))"

definition matches_timestamp_checked ::
  "localtime \<Rightarrow> relative_time_matcher \<Rightarrow> timestamp \<Rightarrow> bool result" where
  "matches_timestamp_checked lt m actual =
     (if daystart m \<and> time_unit m = Days \<and> comparison_integral_value (time_cmp m) \<noteq> None then
        try_bind (local_calendar_day lt (baseline m)) (\<lambda>baseline_day.
        try_bind (local_calendar_day lt actual) (\<lambda>actual_day.
          Inr (matches_calendar_day_window (time_cmp m) (baseline_day - actual_day))))
      else
        matches_time_window (time_cmp m) (baseline m) actual (unit_seconds (time_unit m))
          (comparison_shifts m))"

definition newer_matches :: "newer_matcher \<Rightarrow> timestamp \<Rightarrow> bool" where
  "newer_matches m actual \<longleftrightarrow> actual > newer_reference m"

text \<open>\<open>strict\<close> is the platform's \<^verbatim>\<open>used_requires_strict_atime_after_ctime\<close>.\<close>

definition used_matches :: "bool \<Rightarrow> used_matcher \<Rightarrow> timestamp \<Rightarrow> timestamp \<Rightarrow> bool result" where
  "used_matches strict m atime ctime =
     (if atime < ctime then Inr False
      else if strict \<and> atime = ctime then Inr False
      else matches_time_window (used_cmp m) atime ctime (unit_seconds Days)
             \<lparr>exact_shift_units = 1, less_adjustment_units = 0, greater_shift_units = 0\<rparr>)"

section \<open>The digit arithmetic is exact\<close>

abbreviation all_digits :: "string \<Rightarrow> bool" where
  "all_digits \<equiv> list_all is_ascii_digit"

lemma digits_val_acc: "digits_val b acc ds = acc * b ^ length ds + digits_val b 0 ds"
proof (induction ds arbitrary: acc)
  case (Cons d ds)
  show ?case
    using Cons.IH [of "acc * b + digit_val d"] Cons.IH [of "digit_val d"]
    by (simp add: algebra_simps)
qed simp

lemma dec_val_append: "dec_val (xs @ ys) = dec_val xs * 10 ^ length ys + dec_val ys"
  using digits_val_acc [of 10 "dec_val xs" ys] by (simp add: digits_val_append)

lemma dec_val_Cons: "dec_val (d # ds) = digit_val d * 10 ^ length ds + dec_val ds"
  using digits_val_acc [of 10 "digit_val d" ds] by simp

lemma digit_val_less: "is_ascii_digit d \<Longrightarrow> digit_val d < 10"
  by (auto simp: is_ascii_digit_def in_range_def digit_val_def)

lemma byte_val_eq_iff: "byte_val c = byte_val d \<longleftrightarrow> c = d"
  by (simp add: byte_val_def)

lemma digit_char_val: "is_ascii_digit d \<Longrightarrow> digit_char (digit_val d) = d"
  by (simp add: is_ascii_digit_def in_range_def digit_val_def digit_char_def byte_val_def)

lemma digit_val_0_iff: "is_ascii_digit d \<Longrightarrow> digit_val d = 0 \<longleftrightarrow> d = CHR ''0''"
  using byte_val_eq_iff [of d "CHR ''0''"]
  by (auto simp: digit_val_def is_ascii_digit_def in_range_def byte_val_def)

lemma digit_val_9_iff: "is_ascii_digit d \<Longrightarrow> digit_val d = 9 \<longleftrightarrow> d = CHR ''9''"
  using byte_val_eq_iff [of d "CHR ''9''"]
  by (auto simp: digit_val_def is_ascii_digit_def in_range_def byte_val_def)

lemma digit_literals [simp]:
  "is_ascii_digit (CHR ''0'')" "digit_val (CHR ''0'') = 0"
  "is_ascii_digit (CHR ''1'')" "digit_val (CHR ''1'') = 1"
  by (simp_all add: is_ascii_digit_def in_range_def digit_val_def byte_val_def)

lemma dec_val_less: "all_digits ds \<Longrightarrow> dec_val ds < 10 ^ length ds"
proof (induction ds)
  case (Cons d ds)
  then have "digit_val d \<le> 9" using digit_val_less by fastforce
  then have "digit_val d * 10 ^ length ds \<le> 9 * 10 ^ length ds" by simp
  moreover have "dec_val ds < 10 ^ length ds" using Cons by simp
  moreover have "(10 :: nat) ^ length (d # ds) = 10 * 10 ^ length ds" by simp
  ultimately show ?case unfolding dec_val_Cons by linarith
qed simp

lemma dec_val_zeros [simp]: "dec_val (replicate n (CHR ''0'')) = 0"
  by (induction n) simp_all

lemma all_digits_zeros [simp]: "all_digits (replicate n (CHR ''0''))"
  by (induction n) simp_all

lemma some_nonzero_iff: "all_digits ds \<Longrightarrow> some_nonzero ds \<longleftrightarrow> 0 < dec_val ds"
proof (induction ds)
  case (Cons d ds)
  then show ?case
    using digit_val_0_iff [of d] by (auto simp: some_nonzero_def dec_val_Cons simp del: digits_val.simps)
qed (simp add: some_nonzero_def)

lemma trim_leading_zero_digits_props:
  "dec_val (trim_leading_zero_digits ds) = dec_val ds
   \<and> (all_digits ds \<longrightarrow> all_digits (trim_leading_zero_digits ds))
   \<and> (trim_leading_zero_digits ds = [] \<longleftrightarrow> ds = [])"
  by (induction ds rule: trim_leading_zero_digits.induct) auto

lemma push_carry_props: "dec_val (rev (push_carry c)) = c \<and> all_digits (push_carry c)"
proof (induction c rule: push_carry.induct)
  case (1 c)
  then show ?case
    by (subst (1 2) push_carry.simps) (auto simp: dec_val_append)
qed

lemma multiply_loop_props:
  "all_digits ds \<Longrightarrow>
   dec_val (rev (multiply_loop m c ds)) = dec_val (rev ds) * m + c \<and> all_digits (multiply_loop m c ds)"
proof (induction ds arbitrary: c)
  case (Cons d ds)
  let ?v = "digit_val d * m + c"
  have "dec_val (rev (multiply_loop m c (d # ds)))
      = (dec_val (rev ds) * m + ?v div 10) * 10 + ?v mod 10"
    using Cons by (simp add: Let_def dec_val_append)
  also have "\<dots> = dec_val (rev (d # ds)) * m + c"
    by (simp add: dec_val_append algebra_simps)
  finally show ?case using Cons by (simp add: Let_def)
qed (simp add: push_carry_props)

lemma multiply_decimal_digits_props:
  "all_digits ds \<Longrightarrow>
   dec_val (multiply_decimal_digits ds m) = dec_val ds * m \<and> all_digits (multiply_decimal_digits ds m)"
  using multiply_loop_props [of "rev ds" m 0]
  by (simp add: multiply_decimal_digits_def)

lemma multiply_loop_length: "length ds \<le> length (multiply_loop m c ds)"
  by (induction ds arbitrary: c) (simp_all add: Let_def)

lemma multiply_decimal_digits_nonempty: "ds \<noteq> [] \<Longrightarrow> multiply_decimal_digits ds m \<noteq> []"
proof -
  assume "ds \<noteq> []"
  then have "0 < length (multiply_decimal_digits ds m)"
    using multiply_loop_length [of "rev ds" m 0] unfolding multiply_decimal_digits_def
    by (metis length_greater_0_conv length_rev less_le_trans)
  then show ?thesis by simp
qed

lemma increment_loop_props:
  "all_digits ds \<Longrightarrow>
   dec_val (rev (increment_loop ds)) = dec_val (rev ds) + 1 \<and> all_digits (increment_loop ds)"
proof (induction ds)
  case (Cons d ds)
  show ?case
  proof (cases "d = CHR ''9''")
    case True
    moreover have "digit_val (CHR ''9'') = 9" by (simp add: digit_val_def byte_val_def)
    ultimately show ?thesis using Cons by (simp add: dec_val_append)
  next
    case False
    with Cons.prems have "digit_val d + 1 < 10"
      using digit_val_less [of d] digit_val_9_iff [of d] by fastforce
    with False Cons.prems show ?thesis by (simp add: dec_val_append)
  qed
qed simp

lemma increment_loop_nonempty: "increment_loop ds \<noteq> []"
  by (cases ds) auto

text \<open>Rounded division.\<close>

definition qdiv :: "rounding_mode \<Rightarrow> nat \<Rightarrow> nat \<Rightarrow> nat" where
  "qdiv r n d = (if r = Ceil \<and> n mod d \<noteq> 0 then n div d + 1 else n div d)"

lemma quantized_nanoseconds_props:
  assumes ds: "all_digits ds" "ds \<noteq> []"
  shows "dec_val (quantized_nanoseconds_digits ds sc r) = qdiv r (dec_val ds * 10 ^ 9) (10 ^ sc)
    \<and> all_digits (quantized_nanoseconds_digits ds sc r)
    \<and> quantized_nanoseconds_digits ds sc r \<noteq> []"
proof (cases "sc \<le> 9")
  case True
  have "(10 :: nat) ^ 9 = 10 ^ (9 - sc) * 10 ^ sc" using True by (simp flip: power_add)
  then have "dec_val ds * 10 ^ 9 = (dec_val ds * 10 ^ (9 - sc)) * 10 ^ sc" by (simp only: mult.assoc)
  then have "qdiv r (dec_val ds * 10 ^ 9) (10 ^ sc) = dec_val ds * 10 ^ (9 - sc)"
    unfolding qdiv_def by (simp only:) simp
  with True ds show ?thesis
    by (simp add: quantized_nanoseconds_digits_def trim_leading_zero_digits_props dec_val_append)
next
  case False
  define t where "t = sc - 9"
  have "sc = t + 9" using False by (simp add: t_def)
  then have t: "(10 :: nat) ^ sc = 10 ^ t * 10 ^ 9" by (simp only: power_add)
  have div: "dec_val ds * 10 ^ 9 div 10 ^ sc = dec_val ds div 10 ^ t"
    and mod0: "dec_val ds * 10 ^ 9 mod 10 ^ sc = 0 \<longleftrightarrow> dec_val ds mod 10 ^ t = 0"
    unfolding t by (simp_all flip: mult_mod_left)
  then have hq: "qdiv r (dec_val ds * 10 ^ 9) (10 ^ sc) = qdiv r (dec_val ds) (10 ^ t)"
    unfolding qdiv_def by simp
  show ?thesis
  proof (cases "t \<ge> length ds")
    case True
    have "dec_val ds < 10 ^ t"
      using dec_val_less [OF ds(1)] True
      by (meson less_le_trans one_le_numeral power_increasing)
    with False True show ?thesis unfolding hq
      by (cases r) (auto simp: quantized_nanoseconds_digits_def Let_def t_def qdiv_def
          some_nonzero_iff ds)
  next
    case no_trunc: False
    define k where "k = length ds - t"
    have k: "length (drop k ds) = t" "0 < k" using no_trunc by (auto simp: k_def)
    have split: "dec_val ds = dec_val (take k ds) * 10 ^ t + dec_val (drop k ds)"
      using dec_val_append [of "take k ds" "drop k ds"] k by simp
    have dig: "all_digits (take k ds)" "all_digits (drop k ds)" "take k ds \<noteq> []"
      using ds k by (auto simp: list_all_iff dest: in_set_takeD in_set_dropD)
    have "dec_val (drop k ds) < 10 ^ t" using dec_val_less [OF dig(2)] k by simp
    then have dm: "dec_val ds div 10 ^ t = dec_val (take k ds)"
      "dec_val ds mod 10 ^ t = dec_val (drop k ds)"
      unfolding split by simp_all
    let ?q = "trim_leading_zero_digits (take k ds)"
    have q: "dec_val ?q = dec_val (take k ds)" "all_digits ?q" "?q \<noteq> []"
      using trim_leading_zero_digits_props [of "take k ds"] dig by auto
    have inc: "dec_val (increment_decimal_digits ?q) = dec_val (take k ds) + 1"
      "all_digits (increment_decimal_digits ?q)" "increment_decimal_digits ?q \<noteq> []"
      using increment_loop_props [of "rev ?q"] q increment_loop_nonempty
      by (simp_all add: increment_decimal_digits_def)
    have "quantized_nanoseconds_digits ds sc r
        = (if r = Ceil \<and> 0 < dec_val (drop k ds) then increment_decimal_digits ?q else ?q)"
      using False no_trunc
      by (simp add: quantized_nanoseconds_digits_def Let_def some_nonzero_iff dig
          flip: k_def t_def)
    then show ?thesis unfolding hq
      using q inc by (simp add: qdiv_def dm)
  qed
qed

lemma normalized_digit_slice_props:
  assumes "all_digits ds" "ds \<noteq> []"
  shows "dec_val (normalized_digit_slice ds) = dec_val ds
    \<and> all_digits (normalized_digit_slice ds) \<and> normalized_digit_slice ds \<noteq> []
    \<and> (1 < length (normalized_digit_slice ds) \<longrightarrow> hd (normalized_digit_slice ds) \<noteq> CHR ''0'')"
proof (cases "some_nonzero ds")
  case True
  let ?r = "dropWhile (\<lambda>d. d = CHR ''0'') ds"
  have "dec_val (dropWhile (\<lambda>d. d = CHR ''0'') xs) = dec_val xs" for xs
    by (induction xs) auto
  moreover have "?r \<noteq> []" using True by (auto simp: some_nonzero_def list_ex_iff)
  moreover have "all_digits ?r" using assms(1) by (auto simp: list_all_iff dest: set_dropWhileD)
  moreover have "hd ?r \<noteq> CHR ''0''" using \<open>?r \<noteq> []\<close> hd_dropWhile [of "\<lambda>d. d = CHR ''0''" ds] by simp
  ultimately show ?thesis using True by (simp add: normalized_digit_slice_def)
next
  case False
  then have zero: "d \<in> set ds \<Longrightarrow> d = CHR ''0''" for d
    by (auto simp: some_nonzero_def list_ex_iff)
  have "dec_val ds = 0" using False some_nonzero_iff [OF assms(1)] by simp
  moreover have "drop (length ds - 1) ds = [last ds]"
    using assms(2) by (metis append_butlast_last_id append_eq_conv_conj length_butlast)
  moreover have "last ds = CHR ''0''" using zero assms(2) by simp
  ultimately show ?thesis using False by (simp add: normalized_digit_slice_def)
qed

lemma slice_greater_iff:
  "length as = length bs \<Longrightarrow> all_digits as \<Longrightarrow> all_digits bs \<Longrightarrow>
   slice_greater as bs \<longleftrightarrow> dec_val as > dec_val bs"
proof (induction as bs rule: list_induct2)
  case (Cons a as b bs)
  let ?P = "10 ^ length as :: nat"
  have lens: "dec_val (a # as) = digit_val a * ?P + dec_val as"
    "dec_val (b # bs) = digit_val b * ?P + dec_val bs"
    using Cons.hyps by (simp_all only: dec_val_Cons)
  have lt: "dec_val as < ?P" "dec_val bs < ?P"
    using dec_val_less [of as] dec_val_less [of bs] Cons by simp_all
  have key: "x < y \<Longrightarrow> x * ?P + u < y * ?P + v" if "u < ?P" for x y u v :: nat
  proof -
    assume "x < y"
    then have "Suc x * ?P \<le> y * ?P" by (simp only: Suc_leI mult_le_mono1)
    then show ?thesis using that by simp
  qed
  have vals: "byte_val a > byte_val b \<longleftrightarrow> digit_val a > digit_val b"
    "a = b \<longleftrightarrow> digit_val a = digit_val b"
    using Cons.prems by (auto simp: digit_val_def is_ascii_digit_def in_range_def
        simp flip: byte_val_eq_iff)
  consider "digit_val a < digit_val b" | "digit_val a = digit_val b" | "digit_val a > digit_val b"
    by linarith
  then show ?case
  proof cases
    case 1
    with key [OF lt(1) 1, of "dec_val bs"] show ?thesis
      unfolding lens slice_greater.simps vals by simp
  next
    case 2
    with Cons show ?thesis unfolding lens slice_greater.simps vals by simp
  next
    case 3
    with key [OF lt(2) 3, of "dec_val as"] show ?thesis
      unfolding lens slice_greater.simps vals by simp
  qed
qed simp

lemma parse_nonnegative_i64_digits_value:
  assumes "all_digits ds" "ds \<noteq> []"
  shows "parse_nonnegative_i64_digits ds = checked_i64 (int (dec_val ds))"
proof -
  let ?n = "normalized_digit_slice ds" and ?max = "''9223372036854775807''"
  have n: "dec_val ?n = dec_val ds" "all_digits ?n" "?n \<noteq> []"
    "1 < length ?n \<longrightarrow> hd ?n \<noteq> CHR ''0''"
    using normalized_digit_slice_props [OF assms] by auto
  have max: "dec_val ?max = 9223372036854775807" "all_digits ?max" "length ?max = 19"
    by (simp_all add: digit_val_def byte_val_def is_ascii_digit_def in_range_def)
  have parse: "parse_i64 ?n = checked_i64 (int (dec_val ds))"
    using parse_i64_digits [OF n(2,3)] n(1) by simp
  have none: "checked_i64 (int (dec_val ds)) = None" if "9223372036854775807 < dec_val ds"
    using that by (simp add: checked_i64_def in_i64_def i64_max_def)
  consider "19 < length ?n" | "length ?n = 19" | "length ?n < 19" by linarith
  then show ?thesis
  proof cases
    case 1
    obtain c cs where c: "?n = c # cs" using n(3) by (cases ?n) auto
    have "digit_val c \<noteq> 0" using n(2,4) 1 c digit_val_0_iff [of c] by (cases cs) auto
    moreover have "19 \<le> length cs" using 1 c by simp
    then have "(10 :: nat) ^ 19 \<le> 10 ^ length cs" by (rule power_increasing) simp
    ultimately have "10 ^ 19 \<le> digit_val c * 10 ^ length cs"
      by (metis One_nat_def Suc_leI mult_le_mono nat_mult_1 neq0_conv)
    then have "10 ^ 19 \<le> dec_val ds"
      using n(1) unfolding c dec_val_Cons by linarith
    then have "9223372036854775807 < dec_val ds" by simp
    from none [OF this] 1 show ?thesis
      by (simp add: parse_nonnegative_i64_digits_def Let_def)
  next
    case 2
    then have "slice_greater ?n ?max \<longleftrightarrow> 9223372036854775807 < dec_val ds"
      using slice_greater_iff [of ?n ?max] n max by (simp only:)
    with 2 parse none show ?thesis
      by (simp add: parse_nonnegative_i64_digits_def Let_def)
  next
    case 3
    with parse show ?thesis by (simp add: parse_nonnegative_i64_digits_def Let_def)
  qed
qed

lemma quantized_offset_value:
  assumes "all_digits ds" "ds \<noteq> []"
  shows "quantized_offset_from_nanoseconds ds =
    (if int (dec_val ds div 10 ^ 9) \<le> i64_max
     then FiniteOffset (Timestamp (int (dec_val ds div 10 ^ 9)) (int (dec_val ds mod 10 ^ 9)))
     else OffsetOverflow)"
proof (cases "length ds > 9")
  case True
  let ?k = "length ds - 9"
  have dig: "all_digits (take ?k ds)" "all_digits (drop ?k ds)" "take ?k ds \<noteq> []"
    using assms True by (auto simp: list_all_iff dest: in_set_takeD in_set_dropD)
  have split: "dec_val ds = dec_val (take ?k ds) * 10 ^ 9 + dec_val (drop ?k ds)"
    using dec_val_append [of "take ?k ds" "drop ?k ds"] True by simp
  have "dec_val (drop ?k ds) < 10 ^ 9" using dec_val_less [OF dig(2)] True by simp
  then have dm: "dec_val ds div 10 ^ 9 = dec_val (take ?k ds)"
    "dec_val ds mod 10 ^ 9 = dec_val (drop ?k ds)" unfolding split by simp_all
  show ?thesis unfolding dm
    using True parse_nonnegative_i64_digits_value [OF dig(1,3)]
    by (simp add: quantized_offset_from_nanoseconds_def Let_def checked_i64_def in_i64_def i64_min_def)
next
  case False
  have "dec_val ds < 10 ^ length ds" by (rule dec_val_less [OF assms(1)])
  also have "\<dots> \<le> 10 ^ 9" using False by (intro power_increasing) auto
  finally have dm: "dec_val ds div 10 ^ 9 = 0" "dec_val ds mod 10 ^ 9 = dec_val ds" by simp_all
  have "parse_nonnegative_i64_digits ''0'' = Some 0" by code_simp
  then show ?thesis unfolding dm
    using False
    by (simp add: quantized_offset_from_nanoseconds_def Let_def dec_val_append i64_max_def)
qed

definition amount_ok :: "time_amount \<Rightarrow> bool" where
  "amount_ok a \<longleftrightarrow> all_digits (digits a) \<and> digits a \<noteq> []"

lemma quantize_offset_value:
  assumes "amount_ok a"
  shows "quantize_offset a u r =
    (let q = qdiv r (dec_val (digits a) * nat u * 10 ^ 9) (10 ^ scale a) in
     if int (q div 10 ^ 9) \<le> i64_max
     then FiniteOffset (Timestamp (int (q div 10 ^ 9)) (int (q mod 10 ^ 9)))
     else OffsetOverflow)"
proof -
  have a: "all_digits (digits a)" "digits a \<noteq> []" using assms by (auto simp: amount_ok_def)
  note m = multiply_decimal_digits_props [OF a(1), of "nat u"]
    multiply_decimal_digits_nonempty [OF a(2), of "nat u"]
  note q = quantized_nanoseconds_props [of "multiply_decimal_digits (digits a) (nat u)" "scale a" r]
  show ?thesis
    using m q quantized_offset_value
    by (simp add: quantize_offset_def Let_def)
qed

section \<open>Windows on exact nanoseconds\<close>

definition ns :: "timestamp \<Rightarrow> int" where
  "ns t = seconds t * 1000000000 + nanos t"

definition sane :: "timestamp \<Rightarrow> bool" where
  "sane t \<longleftrightarrow> \<bar>seconds t\<bar> \<le> 4000000000000000000 \<and> 0 \<le> nanos t \<and> nanos t < 1000000000"

definition valid_nanos :: "timestamp \<Rightarrow> bool" where
  "valid_nanos t \<longleftrightarrow> 0 \<le> nanos t \<and> nanos t < 1000000000"

lemma sane_valid: "sane t \<Longrightarrow> valid_nanos t"
  by (simp add: sane_def valid_nanos_def)

lemma timestamp_less_ns: "valid_nanos a \<Longrightarrow> valid_nanos b \<Longrightarrow> a < b \<longleftrightarrow> ns a < ns b"
  by (simp add: less_timestamp_def ns_def valid_nanos_def) linarith

lemma timestamp_le_ns: "valid_nanos a \<Longrightarrow> valid_nanos b \<Longrightarrow> a \<le> b \<longleftrightarrow> ns a \<le> ns b"
  using timestamp_less_ns [of b a] by (simp add: not_less [symmetric])

text \<open>
  A boundary stands at nanosecond \<open>T\<close> if it compares with every sane timestamp as \<open>T\<close>
  does; saturated boundaries stand outside of the sane range.
\<close>

definition stands_at :: "timestamp_boundary \<Rightarrow> int \<Rightarrow> bool" where
  "stands_at b T \<longleftrightarrow> (\<forall>t. sane t \<longrightarrow>
     (timestamp_gt_boundary t b \<longleftrightarrow> ns t > T) \<and>
     (timestamp_lt_boundary t b \<longleftrightarrow> ns t < T) \<and>
     (timestamp_le_boundary t b \<longleftrightarrow> ns t \<le> T))"

lemma stands_at_Finite: "valid_nanos b \<Longrightarrow> stands_at (Finite b) (ns b)"
  by (auto simp: stands_at_def timestamp_less_ns timestamp_le_ns sane_valid)

lemma stands_at_BeforeAll:
  assumes "T < - 4000000000000000000 * 1000000000"
  shows "stands_at BeforeAll T"
proof -
  have "ns t > T" if "sane t" for t
    using that assms by (simp add: sane_def ns_def abs_le_iff)
  then show ?thesis by (force simp: stands_at_def)
qed

lemma shift_timestamp_by_offset_stands:
  assumes t: "valid_nanos t" "\<bar>seconds t\<bar> \<le> 4000000000000086400"
  shows "stands_at
    (shift_timestamp_by_offset t
       (if int (q div 10 ^ 9) \<le> i64_max
        then FiniteOffset (Timestamp (int (q div 10 ^ 9)) (int (q mod 10 ^ 9)))
        else OffsetOverflow))
    (ns t - int q)"
proof -
  define s n where "s = int (q div 10 ^ 9)" and "n = int (q mod 10 ^ 9)"
  have q: "int q = s * 1000000000 + n" "0 \<le> n" "n < 1000000000" "0 \<le> s"
    by (simp_all add: s_def n_def of_nat_div of_nat_mod)
  have t': "seconds t \<le> 4000000000000086400" "- 4000000000000086400 \<le> seconds t"
    "0 \<le> nanos t" "nanos t < 1000000000"
    using t by (auto simp: valid_nanos_def abs_le_iff)
  have far: "stands_at BeforeAll (ns t - int q)"
    if "seconds t - s < - 9223372036854775807"
    by (rule stands_at_BeforeAll) (use that t' q in \<open>simp add: ns_def\<close>)
  have "stands_at (shift_timestamp_by_offset t
      (if s \<le> i64_max then FiniteOffset (Timestamp s n) else OffsetOverflow)) (ns t - int q)"
    (is ?goal)
  proof (cases "s \<le> i64_max")
    case False
    then have "seconds t - s < - 5000000000000000000" using t' by (simp add: i64_max_def)
    have "stands_at BeforeAll (ns t - int q)"
      by (rule stands_at_BeforeAll)
        (use \<open>seconds t - s < - 5000000000000000000\<close> t' q in \<open>simp add: ns_def\<close>)
    with False show ?goal
      by (simp add: shift_timestamp_by_offset_def)
  next
    case True
    show ?goal
    proof (cases "in_i64 (seconds t - s) \<and> (nanos t < n \<longrightarrow> in_i64 (seconds t - s - 1))")
      case False
      then have "seconds t - s < - 9223372036854775807"
        using t' q(4) by (auto simp: in_i64_def i64_min_def i64_max_def split: if_splits)
      from far [OF this] False True show ?goal
        by (auto simp: shift_timestamp_by_offset_def checked_i64_def)
    next
      case fin: True
      define b where "b = (if nanos t \<ge> n then Timestamp (seconds t - s) (nanos t - n)
         else Timestamp (seconds t - s - 1) (nanos t + 1000000000 - n))"
      have "valid_nanos b" "ns b = ns t - int q"
        using t' q by (auto simp: b_def valid_nanos_def ns_def)
      then have "stands_at (Finite b) (ns t - int q)" using stands_at_Finite by metis
      moreover have "shift_timestamp_by_offset t (FiniteOffset (Timestamp s n)) = Finite b"
        using fin by (auto simp: shift_timestamp_by_offset_def checked_i64_def b_def not_le)
      ultimately show ?goal using True by simp
    qed
  qed
  then show ?thesis unfolding s_def n_def .
qed

definition offset_ns :: "time_amount \<Rightarrow> relative_time_unit \<Rightarrow> rounding_mode \<Rightarrow> int" where
  "offset_ns a u r =
     int (qdiv r (dec_val (digits a) * nat (unit_seconds u) * 10 ^ 9) (10 ^ scale a))"

lemma threshold_boundary_stands:
  assumes "amount_ok a" "sane base" "k \<in> {- 1, 0, 1}"
  shows "stands_at (threshold_boundary base a (unit_seconds u) k r)
    (ns base - k * unit_seconds u * 1000000000 - offset_ns a u r)"
proof -
  let ?t = "Timestamp (seconds base - unit_seconds u * k) (nanos base)"
  have u: "\<bar>unit_seconds u * k\<bar> \<le> 86400" using assms(3) by (cases u) auto
  have "\<bar>seconds base\<bar> \<le> 4000000000000000000" using assms(2) by (simp add: sane_def)
  with u have b: "\<bar>seconds ?t\<bar> \<le> 4000000000000086400" by simp
  then have "in_i64 (unit_seconds u * k)" "in_i64 (seconds base - unit_seconds u * k)"
    using u by (auto simp: in_i64_def i64_min_def i64_max_def abs_le_iff)
  then have "shift_timestamp_by_units base (unit_seconds u) k = Finite ?t"
    by (simp add: shift_timestamp_by_units_def checked_i64_def)
  moreover have "valid_nanos ?t" using assms(2) by (simp add: sane_def valid_nanos_def)
  moreover have "ns ?t = ns base - k * unit_seconds u * 1000000000"
    by (simp add: ns_def algebra_simps)
  ultimately show ?thesis
    using shift_timestamp_by_offset_stands [of ?t] b quantize_offset_value [OF assms(1)]
    by (simp add: threshold_boundary_def Let_def offset_ns_def)
qed

lemma qdiv_Floor_less: "0 < d \<Longrightarrow> int (qdiv Floor n d) < e \<longleftrightarrow> int n < e * int d"
proof -
  assume d: "0 < d"
  have n: "int n = int (n div d) * int d + int (n mod d)"
    by (simp flip: of_nat_mult of_nat_add)
  have m: "0 \<le> int (n mod d)" "int (n mod d) < int d" using d by simp_all
  have "int (n div d) < e \<longleftrightarrow> int n < e * int d"
  proof
    assume "int (n div d) < e"
    then have "(int (n div d) + 1) * int d \<le> e * int d" by (intro mult_right_mono) simp_all
    then show "int n < e * int d" using n m by (simp add: algebra_simps)
  next
    assume lt: "int n < e * int d"
    show "int (n div d) < e"
    proof (rule ccontr)
      assume "\<not> int (n div d) < e"
      then have "e * int d \<le> int (n div d) * int d" by (intro mult_right_mono) simp_all
      with lt n m show False by simp
    qed
  qed
  then show ?thesis by (simp add: qdiv_def)
qed

lemma qdiv_Ceil_le: "0 < d \<Longrightarrow> int (qdiv Ceil n d) \<le> e \<longleftrightarrow> int n \<le> e * int d"
proof -
  assume d: "0 < d"
  have n: "int n = int (n div d) * int d + int (n mod d)"
    by (simp flip: of_nat_mult of_nat_add)
  have m: "0 \<le> int (n mod d)" "int (n mod d) < int d" using d by simp_all
  show ?thesis
  proof (cases "n mod d = 0")
    case True
    then show ?thesis using d by (subst n) (simp add: qdiv_def)
  next
    case False
    have "int (n div d) + 1 \<le> e \<longleftrightarrow> int n \<le> e * int d"
    proof
      assume "int (n div d) + 1 \<le> e"
      then have "(int (n div d) + 1) * int d \<le> e * int d" by (rule mult_right_mono) simp
      then show "int n \<le> e * int d" using n m by (simp add: algebra_simps)
    next
      assume le: "int n \<le> e * int d"
      show "int (n div d) + 1 \<le> e"
      proof (rule ccontr)
        assume "\<not> int (n div d) + 1 \<le> e"
        then have "e * int d \<le> int (n div d) * int d" by (intro mult_right_mono) simp_all
        with le n m False show False by simp
      qed
    qed
    with False show ?thesis by (simp add: qdiv_def add.commute)
  qed
qed

text \<open>
  C27.  The digit-by-digit window test is exact.  For an amount \<open>N / 10 ^ s\<close> of minutes or days,
  timestamps within four million million million seconds of the epoch and the shifts the
  matchers use, the boundaries the code computes compare with the actual timestamp exactly as
  the integer inequality on elapsed nanoseconds does (scaled by \<open>10 ^ s\<close>, so that nothing
  is rounded); only the excluded end of the exact window is rounded down to a nanosecond.
\<close>

theorem matches_time_window_exact:
  assumes "amount_ok a" "sane base" "sane actual"
    "exact_shift_units sh \<in> {0, 1}" "less_adjustment_units sh \<in> {- 1, 0, 1}"
    "greater_shift_units sh \<in> {- 1, 0, 1}"
  shows "matches_time_window (time_comparison_of kind a) base actual (unit_seconds u) sh =
    Inr (let elapsed = ns base - ns actual;
             U = unit_seconds u * 1000000000;
             X = int (dec_val (digits a)) * U;
             D = 10 ^ scale a
         in case kind of
              KindExactly \<Rightarrow> X \<le> (elapsed + exact_shift_units sh * U) * D
                \<and> elapsed + exact_shift_units sh * U - U < X div D
            | KindLessThan \<Rightarrow> (elapsed - less_adjustment_units sh * U) * D < X
            | KindGreaterThan \<Rightarrow> X < (elapsed - greater_shift_units sh * U) * D)"
proof -
  let ?N = "dec_val (digits a) * nat (unit_seconds u) * 10 ^ 9"
  let ?U = "unit_seconds u * 1000000000"
  have X: "int ?N = int (dec_val (digits a)) * ?U" by (cases u) simp_all
  have floor: "offset_ns a u Floor < e \<longleftrightarrow> int (dec_val (digits a)) * ?U < e * 10 ^ scale a" for e
    using qdiv_Floor_less [of "10 ^ scale a" ?N e] unfolding offset_ns_def X [symmetric] by simp
  have ceil: "offset_ns a u Ceil \<le> e \<longleftrightarrow> int (dec_val (digits a)) * ?U \<le> e * 10 ^ scale a" for e
    using qdiv_Ceil_le [of "10 ^ scale a" ?N e] unfolding offset_ns_def X [symmetric] by simp
  have fl: "offset_ns a u Floor = int (dec_val (digits a)) * ?U div 10 ^ scale a"
    unfolding X [symmetric] by (simp add: offset_ns_def qdiv_def zdiv_int)
  note stands = threshold_boundary_stands [OF assms(1,2), of _ u, unfolded stands_at_def,
      rule_format, OF _ assms(3)]
  show ?thesis
  proof (cases kind)
    case KindExactly
    have es: "- exact_shift_units sh \<in> {- 1, 0, 1}" "1 - exact_shift_units sh \<in> {- 1, 0, 1}"
      using assms(4) by auto
    show ?thesis
      using KindExactly stands [OF es(1), of Ceil] stands [OF es(2), of Floor]
        ceil [of "ns base - ns actual + exact_shift_units sh * ?U"] fl
      by (auto simp: Let_def algebra_simps)
  next
    case KindLessThan
    show ?thesis
      using KindLessThan stands [OF assms(5), of Ceil]
        ceil [of "ns base - ns actual - less_adjustment_units sh * ?U"]
      by (auto simp: Let_def algebra_simps)
  next
    case KindGreaterThan
    show ?thesis
      using KindGreaterThan stands [OF assms(6), of Floor]
        floor [of "ns base - ns actual - greater_shift_units sh * ?U"]
      by (auto simp: Let_def algebra_simps)
  qed
qed

lemma matches_time_window_exact_witness:
  "matches_time_window (time_comparison_of KindLessThan \<lparr>digits = ''15'', scale = 1\<rparr>)
     (Timestamp 1000000000 500000000) (Timestamp 999999910 500000001) (unit_seconds Minutes)
     (rolling_window_shifts Minutes) =
   Inr (89999999999 * 10 < (900000000000 :: int))"
  using matches_time_window_exact
    [of "\<lparr>digits = ''15'', scale = 1\<rparr>" "Timestamp 1000000000 500000000"
      "Timestamp 999999910 500000001" "rolling_window_shifts Minutes" KindLessThan Minutes]
  by (simp add: amount_ok_def sane_def ns_def Let_def digit_val_def byte_val_def
      is_ascii_digit_def in_range_def)

section \<open>Parsing amounts\<close>

lemma strip_trailing_zeros_props:
  "strip_trailing_zeros ds sc = (ds', sc') \<Longrightarrow>
   dec_val ds' * 10 ^ sc = dec_val ds * 10 ^ sc' \<and> length ds' + sc = length ds + sc'
   \<and> (all_digits ds \<longrightarrow> all_digits ds')"
proof (induction ds sc rule: strip_trailing_zeros.induct)
  case (1 ds sc)
  show ?case
  proof (cases "sc > 0 \<and> ds \<noteq> [] \<and> last ds = CHR ''0''")
    case True
    then have rec: "strip_trailing_zeros (butlast ds) (sc - 1) = (ds', sc')"
      using "1.prems" by (simp add: strip_trailing_zeros.simps [of ds])
    have ds: "ds = butlast ds @ [CHR ''0'']" using True by (metis append_butlast_last_id)
    have v: "dec_val ds = dec_val (butlast ds) * 10"
      using dec_val_append [of "butlast ds" "''0''"] ds by simp
    have "length ds = Suc (length (butlast ds))" using True by simp
    moreover have "all_digits ds \<longrightarrow> all_digits (butlast ds)"
      by (auto simp: list_all_iff dest: in_set_butlastD)
    moreover obtain k where "sc = Suc k" using True by (cases sc) auto
    ultimately show ?thesis using "1.IH" [OF True rec] v by simp
  next
    case False
    then have "ds' = ds" "sc' = sc"
      using "1.prems" by (auto simp: strip_trailing_zeros.simps [of ds])
    then show ?thesis by simp
  qed
qed

definition time_operand :: "comparison_kind \<Rightarrow> string \<Rightarrow> string \<Rightarrow> string \<Rightarrow> bool" where
  "time_operand kind w f val \<longleftrightarrow>
     w \<noteq> [] \<and> all_digits w \<and> all_digits f
     \<and> val = sign_text kind @ w @ (if f = [] then [] else CHR ''.'' # f)"

definition amount_is :: "time_amount \<Rightarrow> string \<Rightarrow> string \<Rightarrow> bool" where
  "amount_is a w f \<longleftrightarrow>
     amount_ok a \<and> dec_val (digits a) * 10 ^ length f = dec_val (w @ f) * 10 ^ scale a"

lemma dot_not_digit: "\<not> is_ascii_digit (CHR ''.'')"
  by (simp add: is_ascii_digit_def in_range_def byte_val_def)

lemma split_once_operand:
  "all_digits w \<Longrightarrow> split_once (CHR ''.'') (w @ (if f = [] then [] else CHR ''.'' # f))
     = (if f = [] then None else Some (w, f))"
  using dot_not_digit
  by (auto simp: split_once_None list_all_iff intro!: split_once_append)

lemma time_amount_from_str_value:
  assumes w: "w \<noteq> []" "all_digits w" and f: "all_digits f" "length f < 2 ^ 32"
  shows "\<exists>a. time_amount_from_str (w @ (if f = [] then [] else CHR ''.'' # f)) = Inr a
    \<and> amount_is a w f"
proof -
  obtain ds sc where strip: "strip_trailing_zeros (w @ f) (length f) = (ds, sc)" by force
  note props = strip_trailing_zeros_props [OF strip]
  have ne: "ds \<noteq> []" using props w(1) by (cases w) auto
  let ?a = "\<lparr>digits = trim_leading_zero_digits ds, scale = sc\<rparr>"
  have "time_amount_from_str (w @ (if f = [] then [] else CHR ''.'' # f)) = Inr ?a"
    using split_once_operand [OF w(2), of f] assms strip ne trim_leading_zero_digits_props [of ds]
    by (cases "f = []") (simp_all add: time_amount_from_str_def Let_def)
  moreover have "amount_is ?a w f"
    using props ne w f trim_leading_zero_digits_props [of ds]
    by (simp add: amount_is_def amount_ok_def)
  ultimately show ?thesis by blast
qed

lemma time_amount_from_str_accepts:
  assumes "time_amount_from_str raw = Inr a"
  shows "\<exists>w f. raw = w @ (if f = [] then [] else CHR ''.'' # f)
    \<and> w \<noteq> [] \<and> all_digits w \<and> all_digits f"
proof (cases "split_once (CHR ''.'') raw")
  case None
  with assms show ?thesis
    by (intro exI [of _ raw] exI [of _ "[]"]) (auto simp: time_amount_from_str_def split: if_splits)
next
  case (Some p)
  then obtain w f where p: "split_once (CHR ''.'') raw = Some (w, f)" by (cases p) auto
  from split_once_Some [OF p] p assms show ?thesis
    by (intro exI [of _ w] exI [of _ f]) (auto simp: time_amount_from_str_def split: if_splits)
qed

lemma is_utf8_operand: "all_digits w \<Longrightarrow> all_digits f \<Longrightarrow>
    is_utf8 (w @ (if f = [] then [] else CHR ''.'' # f))"
  by (rule is_utf8_ascii)
    (auto simp: list_all_iff intro: is_ascii_digit_is_ascii, simp add: is_ascii_def byte_val_def)

lemma split_sign_time_operand:
  "w \<noteq> [] \<Longrightarrow> all_digits w \<Longrightarrow> split_sign (sign_text kind @ w @ r) = (kind, w @ r)"
  by (cases kind; cases w) (auto dest: digit_not_sign)

text \<open>
  Time operands: the parser accepts exactly a comparison sign, digits, and possibly a point
  followed by further digits (each run non-empty), and the amount it builds has the exact
  decimal value that was written, whatever zeros it drops.
\<close>

theorem parse_time_comparison_value:
  assumes "length val < 2 ^ 32"
  shows "((\<exists>c. parse_time_comparison flag val = Inr c) \<longleftrightarrow> (\<exists>kind w f. time_operand kind w f val))
    \<and> (\<forall>kind w f. time_operand kind w f val \<longrightarrow>
         (\<exists>a. parse_time_comparison flag val = Inr (time_comparison_of kind a) \<and> amount_is a w f))"
proof -
  have accept: "\<exists>a. parse_time_comparison flag val = Inr (time_comparison_of kind a) \<and> amount_is a w f"
    if op: "time_operand kind w f val" for kind w f
  proof -
    let ?t = "w @ (if f = [] then [] else CHR ''.'' # f)"
    from op have w: "w \<noteq> []" "all_digits w" "all_digits f" and val: "val = sign_text kind @ ?t"
      by (auto simp: time_operand_def)
    have "length f < 2 ^ 32" using assms unfolding val by (auto split: if_splits)
    then obtain a where "time_amount_from_str ?t = Inr a" "amount_is a w f"
      using time_amount_from_str_value [of w f] w by blast
    moreover have "split_sign val = (kind, ?t)"
      unfolding val by (rule split_sign_time_operand [OF w(1,2)])
    moreover have "is_utf8 ?t" using w by (intro is_utf8_operand)
    ultimately show ?thesis
      by (intro exI [of _ a]) (simp add: parse_time_comparison_def map_err_def)
  qed
  have "\<exists>kind w f. time_operand kind w f val"
    if parsed: "parse_time_comparison flag val = Inr c" for c
  proof -
    obtain kind ds where sp: "split_sign val = (kind, ds)" by force
    then obtain a where "time_amount_from_str ds = Inr a"
      using parsed
      by (auto simp: parse_time_comparison_def result_simps map_err_def split: if_splits sum.splits)
    from time_amount_from_str_accepts [OF this] split_sign_text [OF sp]
    show ?thesis unfolding time_operand_def by blast
  qed
  with accept show ?thesis by blast
qed

lemma parse_time_comparison_value_witness:
  "\<exists>a. parse_time_comparison ''-mmin'' ''-01.50'' = Inr (time_comparison_of KindLessThan a)
     \<and> amount_is a ''01'' ''50''"
proof -
  have "time_operand KindLessThan ''01'' ''50'' ''-01.50''"
    by (simp add: time_operand_def is_ascii_digit_def in_range_def byte_val_def)
  moreover have "length ''-01.50'' < 2 ^ 32" by simp
  ultimately show ?thesis using parse_time_comparison_value [of "''-01.50''" "''-mmin''"] by blast
qed

section \<open>The civil calendar\<close>

definition leap_year :: "int \<Rightarrow> bool" where
  "leap_year y \<longleftrightarrow> 4 dvd y \<and> (100 dvd y \<longrightarrow> 400 dvd y)"

definition days_in_month :: "int \<Rightarrow> int \<Rightarrow> int" where
  "days_in_month y m =
     (if m = 2 then (if leap_year y then 29 else 28) else if m \<in> {4, 6, 9, 11} then 30 else 31)"

definition next_day :: "int \<Rightarrow> int \<Rightarrow> int \<Rightarrow> int \<times> int \<times> int" where
  "next_day y m d =
     (if d < days_in_month y m then (y, m, d + 1)
      else if m < 12 then (y, m + 1, 1) else (y + 1, 1, 1))"

lemma era_div: "(if a \<ge> 0 then a else a - 399) sdiv 400 = (a :: int) div 400"
proof (cases "a \<ge> 0")
  case True
  then show ?thesis by (simp add: signed_divide_int_def sgn_if)
next
  case False
  have "a = 400 * (a div 400) + a mod 400" "0 \<le> a mod 400" "a mod 400 < 400" by simp_all
  then have "(399 - a) div 400 = - (a div 400)"
    by (intro int_div_pos_eq [of _ _ _ "399 - a mod 400"]) linarith+
  with False show ?thesis by (simp add: signed_divide_int_def sgn_if)
qed

definition year_days :: "int \<Rightarrow> int" where
  "year_days y = 365 * y + y div 4 - y div 100 + y div 400"

lemma year_days_step: "year_days y = year_days (y - 1) + 365 + (if leap_year y then 1 else 0)"
proof -
  have step: "y div k = (y - 1) div k + (if k dvd y then 1 else 0)" if "0 < k" for k :: int
  proof -
    have y: "y = k * (y div k) + y mod k" by simp
    have "(y - 1) div k = (if y mod k = 0 then y div k - 1 else y div k)"
    proof (cases "y mod k = 0")
      case True
      have "(y - 1) div k = y div k - 1"
        by (rule int_div_pos_eq [of _ _ _ "k - 1"]) (use True y that in \<open>simp_all add: algebra_simps\<close>)
      with True show ?thesis by simp
    next
      case False
      then have "0 < y mod k" using pos_mod_sign [OF that, of y] by linarith
      moreover have "y mod k < k" by (rule pos_mod_bound [OF that])
      ultimately have "(y - 1) div k = y div k"
        by (intro int_div_pos_eq [of _ _ _ "y mod k - 1"]) (use y in linarith)+
      with False show ?thesis by simp
    qed
    then show ?thesis by (auto simp: dvd_eq_mod_eq_0)
  qed
  define A B C where "A = (y - 1) div 4" and "B = (y - 1) div 100" and "C = (y - 1) div 400"
  have d: "100 dvd y \<Longrightarrow> 4 dvd y" "400 dvd y \<Longrightarrow> 100 dvd y"
    by (rule dvd_trans [rotated], assumption, simp)+
  have "year_days (y - 1) = 365 * (y - 1) + A - B + C"
    by (simp only: year_days_def A_def B_def C_def)
  moreover have "year_days y = 365 * y + (A + (if 4 dvd y then 1 else 0))
      - (B + (if 100 dvd y then 1 else 0)) + (C + (if 400 dvd y then 1 else 0))"
    using step [of 4] step [of 100] step [of 400] unfolding year_days_def
    by (simp only: A_def B_def C_def)
  ultimately show ?thesis using d unfolding leap_year_def
    by (cases "4 dvd y"; cases "100 dvd y"; cases "400 dvd y") simp_all
qed

lemma days_from_civil_eq:
  assumes "1 \<le> m" "m \<le> 12"
  shows "days_from_civil y m d =
    year_days (if m \<le> 2 then y - 1 else y)
      + (153 * (m + (if m > 2 then - 3 else 9)) + 2) div 5 + d - 1 - 719468"
proof -
  define a where "a = (if m \<le> 2 then y - 1 else y)"
  define r where "r = a mod 400"
  have ay: "y - (if m \<le> 2 then 1 else 0) = a" by (simp add: a_def)
  have r: "a - a div 400 * 400 = r" "0 \<le> r" by (simp_all add: r_def minus_div_mult_eq_mod)
  have sm: "0 \<le> 153 * (m + (if m > 2 then - 3 else 9)) + 2" using assms by auto
  have sd: "x sdiv k = x div k" if "0 \<le> x" "0 < k" for x k :: int
    using that by (simp add: signed_divide_int_def sgn_if)
  have a: "a = 400 * (a div 400) + r" unfolding r_def by (rule mult_div_mod_eq [symmetric])
  have shift: "(400 * q + r) div 4 = 100 * q + r div 4" "(400 * q + r) div 100 = 4 * q + r div 100" for q
    using div_mult_self1 [of 4 r "100 * q"] div_mult_self1 [of 100 r "4 * q"]
    by (simp_all add: algebra_simps)
  have parts: "a div 4 = 100 * (a div 400) + r div 4"
    "a div 100 = 4 * (a div 400) + r div 100"
    using shift [of "a div 400"] by (simp_all only: a [symmetric])
  have "a div 400 * 146097 + (r * 365 + r div 4 - r div 100) = year_days a"
    unfolding year_days_def parts using a by linarith
  then show ?thesis
    unfolding days_from_civil_def Let_def ay era_div r(1) a_def [symmetric]
    using sd [OF sm] sd [OF r(2)] by (simp add: algebra_simps)
qed

text \<open>
  The day number behind \<^verbatim>\<open>-daystart\<close> counts the days of the Gregorian calendar: it is
  zero on 1 January 1970 and grows by one from each date to the next, over month ends, year
  ends and leap days, in every year of either sign.
\<close>

theorem days_from_civil_counts:
  assumes "1 \<le> m" "m \<le> 12" "1 \<le> d" "d \<le> days_in_month y m" "next_day y m d = (y', m', d')"
  shows "days_from_civil 1970 1 1 = 0 \<and> days_from_civil y' m' d' = days_from_civil y m d + 1"
proof
  show "days_from_civil 1970 1 1 = 0" by code_simp
  have m: "m \<in> {1, 2, 3, 4, 5, 6, 7, 8, 9, 10, 11, 12}"
    unfolding insert_iff empty_iff using assms(1,2) by presburger
  show "days_from_civil y' m' d' = days_from_civil y m d + 1"
  proof (cases "d < days_in_month y m")
    case True
    then show ?thesis using assms by (auto simp: next_day_def days_from_civil_eq)
  next
    case False
    with assms have d: "d = days_in_month y m" by simp
    have "m' = (if m < 12 then m + 1 else 1)" "y' = (if m < 12 then y else y + 1)" "d' = 1"
      using assms(5) False by (auto simp: next_day_def split: if_splits)
    then show ?thesis using m year_days_step [of y] d
      by (auto simp: days_from_civil_eq days_in_month_def)
  qed
qed

lemma days_from_civil_counts_witness:
  "days_from_civil 1970 1 1 = 0 \<and> days_from_civil 2000 3 1 = days_from_civil 2000 2 29 + 1"
  by (rule days_from_civil_counts)
    (simp_all add: days_in_month_def leap_year_def next_day_def)

end
