(* ===== verification/Cmd_Ast.thy ===== *)
theory Cmd_Ast
  imports Numeric
begin

text \<open>
  The command line as a tree: \<^verbatim>\<open>src/src/ast.rs\<close> and \<^verbatim>\<open>src/src/follow.rs\<close>, and the
  token cursor of \<^verbatim>\<open>src/src/args.rs\<close>.  A path is the byte string it was written as; the two
  letters of \<^verbatim>\<open>-newerXY\<close> are bytes (\<^verbatim>\<open>char::from\<close> keeps the code).
\<close>

type_synonym u32 = "32 word"
type_synonym path = os_string

datatype follow_mode = Physical | CommandLineOnly | Logical

datatype global_option = OptFollow follow_mode | OptVersion

datatype file_type_filter = FtFile | FtDirectory | FtSymlink | FtBlock | FtCharacter | FtFifo | FtSocket

datatype (plugins only: code size) predicate =
    PrMaxDepth u32 | PrMinDepth u32 | PrDepth | PrPrune | PrXDev
  | PrReadable | PrWritable | PrExecutable
  | PrName os_string bool | PrPath os_string bool | PrRegex os_string bool
  | PrRegexType os_string | PrFsType os_string
  | PrInum os_string | PrLinks os_string | PrSameFile path | PrLName os_string bool
  | PrUid os_string | PrGid os_string | PrUser os_string | PrGroup os_string
  | PrOwner os_string | PrOwnerSid os_string | PrGroupSid os_string | PrNoUser | PrNoGroup
  | PrPerm os_string | PrFlags os_string | PrReparseType os_string | PrSize os_string | PrEmpty
  | PrUsed os_string | PrATime os_string | PrCTime os_string | PrMTime os_string
  | PrAMin os_string | PrCMin os_string | PrMMin os_string
  | PrNewer path | PrANewer path | PrCNewer path | PrNewerXY byte byte os_string
  | PrDayStart | PrType file_type_filter | PrXType file_type_filter | PrTrue | PrFalse

datatype (plugins only: code size) action =
    AcPrint | AcPrint0 | AcPrintf os_string | AcFPrint path | AcFPrint0 path
  | AcFPrintf path os_string | AcLs | AcFls path | AcQuit
  | AcExec "os_string list" bool | AcExecDir "os_string list" bool
  | AcOk "os_string list" bool | AcOkDir "os_string list" bool | AcDelete

datatype (plugins only: code size) expr =
    EAnd "expr list" | EOr expr expr | ENot expr | EPredicate predicate | EAction action

record command_ast =
  start_paths :: "path list"
  global_options :: "global_option list"
  command_expr :: expr

section \<open>The argument cursor (args.rs)\<close>

definition arg_matches :: "os_string \<Rightarrow> string \<Rightarrow> bool" where
  "arg_matches arg val \<longleftrightarrow> arg = val"

definition arg_starts_with_dash :: "os_string \<Rightarrow> bool" where
  "arg_starts_with_dash arg \<longleftrightarrow> slice_get arg 0 = Some (CHR ''-'')"

definition arg_display :: "os_string \<Rightarrow> string" where
  "arg_display arg = utf8_lossy arg"

record arg_cursor =
  tokens :: "os_string list"
  index :: nat

definition cursor_new :: "os_string list \<Rightarrow> arg_cursor" where
  "cursor_new ts = \<lparr>tokens = ts, index = 0\<rparr>"

definition cursor_peek :: "arg_cursor \<Rightarrow> os_string option" where
  "cursor_peek c = slice_get (tokens c) (index c)"

definition cursor_bump :: "arg_cursor \<Rightarrow> os_string option \<times> arg_cursor" where
  "cursor_bump c =
     (let val = cursor_peek c in
      (val, if val \<noteq> None then c\<lparr>index := index c + 1\<rparr> else c))"

text \<open>The tokens a cursor still has to read, and how peeking and bumping look at them.\<close>

definition remaining :: "arg_cursor \<Rightarrow> os_string list" where
  "remaining c = drop (index c) (tokens c)"

lemma remaining_new [simp]: "remaining (cursor_new ts) = ts"
  by (simp add: remaining_def cursor_new_def)

lemma cursor_peek_remaining:
  "cursor_peek c = (case remaining c of [] \<Rightarrow> None | t # ts \<Rightarrow> Some t)"
  unfolding cursor_peek_def remaining_def
  by (subst drop_slice_get) (simp split: option.split)

lemma remaining_advance: "remaining (c\<lparr>index := Suc (index c)\<rparr>) = tl (remaining c)"
  by (simp add: remaining_def drop_Suc tl_drop)

lemma cursor_bump_remaining:
  "remaining c = [] \<Longrightarrow> cursor_bump c = (None, c)"
  "remaining c = t # ts \<Longrightarrow> \<exists>c'. cursor_bump c = (Some t, c') \<and> remaining c' = ts"
  by (auto simp: cursor_bump_def cursor_peek_remaining remaining_advance)

end
