(* ===== verification/Cmd_Parser.thy ===== *)
theory Cmd_Parser
  imports Cmd_Ast Time_Match
begin

text \<open>
  The recursive-descent parser of \<^verbatim>\<open>src/src/parser.rs\<close>.  Every parsing function threads
  the argument cursor.  The mutually recursive ones take fuel, \<^term>\<open>None\<close> standing for its
  exhaustion; \<open>5 * n + 5\<close> units for \<open>n\<close> tokens are proved to be enough, so parsing always
  returns a command or a diagnostic.
\<close>

type_synonym 'a parsed = "('a \<times> arg_cursor) result"

section \<open>Operands\<close>

definition missing_argument :: "string \<Rightarrow> diagnostic" where
  "missing_argument flag = diagnostic_parse (''missing argument for `'' @ flag @ ''`'')"

definition take_os_string :: "string \<Rightarrow> arg_cursor \<Rightarrow> os_string parsed" where
  "take_os_string flag c =
     (case cursor_bump c of
        (None, _) \<Rightarrow> Inl (missing_argument flag)
      | (Some t, c') \<Rightarrow> Inr (t, c'))"

definition take_u32 :: "string \<Rightarrow> arg_cursor \<Rightarrow> u32 parsed" where
  "take_u32 flag c =
     try_bind (take_os_string flag c) (\<lambda>(val, c').
       let rendered = utf8_lossy val in
       try_bind
         (ok_or (diagnostic_parse (''invalid numeric argument for `'' @ flag @ ''`: `'' @ rendered @ ''`''))
            (parse_uint rendered))
         (\<lambda>n. Inr (n, c')))"

definition take_type_filter_for :: "string \<Rightarrow> arg_cursor \<Rightarrow> file_type_filter parsed" where
  "take_type_filter_for flag c =
     try_bind (take_os_string flag c) (\<lambda>(val, c').
       if val = ''f'' then Inr (FtFile, c')
       else if val = ''d'' then Inr (FtDirectory, c')
       else if val = ''l'' then Inr (FtSymlink, c')
       else if val = ''b'' then Inr (FtBlock, c')
       else if val = ''c'' then Inr (FtCharacter, c')
       else if val = ''p'' then Inr (FtFifo, c')
       else if val = ''s'' then Inr (FtSocket, c')
       else Inl (diagnostic_parse
              (''unsupported '' @ flag @ '' value `'' @ utf8_lossy val @ ''`'')))"

definition take_type_filter :: "arg_cursor \<Rightarrow> file_type_filter parsed" where
  "take_type_filter c = take_type_filter_for ''-type'' c"

text \<open>The loop of \<^verbatim>\<open>take_exec_action\<close> over the remaining tokens.\<close>

function exec_loop :: "os_string list \<Rightarrow> arg_cursor \<Rightarrow> (os_string list \<times> bool) parsed" where
  "exec_loop argv c =
     (case cursor_bump c of
        (None, _) \<Rightarrow> Inl (diagnostic_parse ''unterminated exec-style action'')
      | (Some token, c') \<Rightarrow>
          if arg_matches token '';'' then Inr ((argv, False), c')
          else if arg_matches token ''+'' then Inr ((argv, True), c')
          else exec_loop (argv @ [token]) c')"
  by pat_completeness auto
termination
proof (relation "measure (\<lambda>(_, c). length (remaining c))", goal_cases)
  case (2 argv c p c' token)
  then have b: "cursor_bump c = (Some token, c')" by simp
  then obtain t ts where r: "remaining c = t # ts"
    using cursor_bump_remaining(1) [of c] by (cases "remaining c") auto
  with b cursor_bump_remaining(2) [OF r] show ?case by auto
qed simp

declare exec_loop.simps [simp del]

definition take_exec_action :: "bool \<Rightarrow> bool \<Rightarrow> arg_cursor \<Rightarrow> action parsed" where
  "take_exec_action chdir_before_exec prompt c =
     try_bind (exec_loop [] c) (\<lambda>((argv, batch), c').
       Inr ((case (chdir_before_exec, prompt) of
               (False, False) \<Rightarrow> AcExec argv batch
             | (True, False) \<Rightarrow> AcExecDir argv batch
             | (False, True) \<Rightarrow> AcOk argv batch
             | (True, True) \<Rightarrow> AcOkDir argv batch), c'))"

definition parse_newerxy_flag :: "os_string \<Rightarrow> (byte \<times> byte) option" where
  "parse_newerxy_flag token =
     (if length token \<noteq> 8 \<or> take 6 token \<noteq> ''-newer'' then None
      else Some (token ! 6, token ! 7))"

section \<open>Predicates and actions\<close>

abbreviation pred :: "predicate \<Rightarrow> arg_cursor \<Rightarrow> expr parsed" where
  "pred p c \<equiv> Inr (EPredicate p, c)"

abbreviation act :: "action \<Rightarrow> arg_cursor \<Rightarrow> expr parsed" where
  "act a c \<equiv> Inr (EAction a, c)"

text \<open>A flag followed by an operand, and one whose operand is validated at once.\<close>

definition operand :: "string \<Rightarrow> arg_cursor \<Rightarrow> (os_string \<Rightarrow> predicate) \<Rightarrow> expr parsed" where
  "operand flag c f = try_bind (take_os_string flag c) (\<lambda>(raw, c'). pred (f raw) c')"

definition numeric_operand :: "string \<Rightarrow> arg_cursor \<Rightarrow> (os_string \<Rightarrow> predicate) \<Rightarrow> expr parsed" where
  "numeric_operand flag c f =
     try_bind (take_os_string flag c) (\<lambda>(raw, c').
       try_bind (validate_numeric_argument flag raw) (\<lambda>_. pred (f raw) c'))"

definition timed_operand :: "string \<Rightarrow> arg_cursor \<Rightarrow> (os_string \<Rightarrow> predicate) \<Rightarrow> expr parsed" where
  "timed_operand flag c f =
     try_bind (take_os_string flag c) (\<lambda>(raw, c').
       try_bind (validate_time_argument flag raw) (\<lambda>_. pred (f raw) c'))"

definition action_operand :: "string \<Rightarrow> arg_cursor \<Rightarrow> (os_string \<Rightarrow> action) \<Rightarrow> expr parsed" where
  "action_operand flag c f = try_bind (take_os_string flag c) (\<lambda>(raw, c'). act (f raw) c')"

definition exec_operand :: "bool \<Rightarrow> bool \<Rightarrow> arg_cursor \<Rightarrow> expr parsed" where
  "exec_operand chdir prompt c = try_bind (take_exec_action chdir prompt c) (\<lambda>(a, c'). act a c')"

definition atom_of_token :: "os_string \<Rightarrow> arg_cursor \<Rightarrow> expr parsed" where
  "atom_of_token t c =
     (if arg_matches t ''-maxdepth'' then
        try_bind (take_u32 ''-maxdepth'' c) (\<lambda>(n, c'). pred (PrMaxDepth n) c')
      else if arg_matches t ''-mindepth'' then
        try_bind (take_u32 ''-mindepth'' c) (\<lambda>(n, c'). pred (PrMinDepth n) c')
      else if arg_matches t ''-depth'' then pred PrDepth c
      else if arg_matches t ''-prune'' then pred PrPrune c
      else if arg_matches t ''-xdev'' \<or> arg_matches t ''-mount'' then pred PrXDev c
      else if arg_matches t ''-readable'' then pred PrReadable c
      else if arg_matches t ''-writable'' then pred PrWritable c
      else if arg_matches t ''-executable'' then pred PrExecutable c
      else if arg_matches t ''-name'' then operand ''-name'' c (\<lambda>p. PrName p False)
      else if arg_matches t ''-iname'' then operand ''-iname'' c (\<lambda>p. PrName p True)
      else if arg_matches t ''-path'' \<or> arg_matches t ''-wholename'' then
        operand (arg_display t) c (\<lambda>p. PrPath p False)
      else if arg_matches t ''-ipath'' \<or> arg_matches t ''-iwholename'' then
        operand (arg_display t) c (\<lambda>p. PrPath p True)
      else if arg_matches t ''-regex'' then operand ''-regex'' c (\<lambda>p. PrRegex p False)
      else if arg_matches t ''-iregex'' then operand ''-iregex'' c (\<lambda>p. PrRegex p True)
      else if arg_matches t ''-regextype'' then operand ''-regextype'' c PrRegexType
      else if arg_matches t ''-fstype'' then operand ''-fstype'' c PrFsType
      else if arg_matches t ''-lname'' then operand ''-lname'' c (\<lambda>p. PrLName p False)
      else if arg_matches t ''-ilname'' then operand ''-ilname'' c (\<lambda>p. PrLName p True)
      else if arg_matches t ''-uid'' then numeric_operand ''-uid'' c PrUid
      else if arg_matches t ''-gid'' then numeric_operand ''-gid'' c PrGid
      else if arg_matches t ''-user'' then operand ''-user'' c PrUser
      else if arg_matches t ''-group'' then operand ''-group'' c PrGroup
      else if arg_matches t ''-owner'' then operand ''-owner'' c PrOwner
      else if arg_matches t ''-owner-sid'' then operand ''-owner-sid'' c PrOwnerSid
      else if arg_matches t ''-group-sid'' then operand ''-group-sid'' c PrGroupSid
      else if arg_matches t ''-nouser'' then pred PrNoUser c
      else if arg_matches t ''-nogroup'' then pred PrNoGroup c
      else if arg_matches t ''-perm'' then operand ''-perm'' c PrPerm
      else if arg_matches t ''-flags'' then operand ''-flags'' c PrFlags
      else if arg_matches t ''-reparse-type'' then operand ''-reparse-type'' c PrReparseType
      else if arg_matches t ''-size'' then operand ''-size'' c PrSize
      else if arg_matches t ''-empty'' then pred PrEmpty c
      else if arg_matches t ''-used'' then timed_operand ''-used'' c PrUsed
      else if arg_matches t ''-inum'' then numeric_operand ''-inum'' c PrInum
      else if arg_matches t ''-links'' then numeric_operand ''-links'' c PrLinks
      else if arg_matches t ''-samefile'' then operand ''-samefile'' c PrSameFile
      else if arg_matches t ''-atime'' then timed_operand ''-atime'' c PrATime
      else if arg_matches t ''-ctime'' then timed_operand ''-ctime'' c PrCTime
      else if arg_matches t ''-mtime'' then timed_operand ''-mtime'' c PrMTime
      else if arg_matches t ''-amin'' then timed_operand ''-amin'' c PrAMin
      else if arg_matches t ''-cmin'' then timed_operand ''-cmin'' c PrCMin
      else if arg_matches t ''-mmin'' then timed_operand ''-mmin'' c PrMMin
      else if arg_matches t ''-newer'' then operand ''-newer'' c PrNewer
      else if arg_matches t ''-anewer'' then operand ''-anewer'' c PrANewer
      else if arg_matches t ''-cnewer'' then operand ''-cnewer'' c PrCNewer
      else (case parse_newerxy_flag t of
        Some (cur, reference) \<Rightarrow> operand (arg_display t) c (PrNewerXY cur reference)
      | None \<Rightarrow>
      if arg_matches t ''-daystart'' then pred PrDayStart c
      else if arg_matches t ''-type'' then
        try_bind (take_type_filter c) (\<lambda>(ft, c'). pred (PrType ft) c')
      else if arg_matches t ''-xtype'' then
        try_bind (take_type_filter_for ''-xtype'' c) (\<lambda>(ft, c'). pred (PrXType ft) c')
      else if arg_matches t ''-true'' then pred PrTrue c
      else if arg_matches t ''-false'' then pred PrFalse c
      else if arg_matches t ''-print'' then act AcPrint c
      else if arg_matches t ''-print0'' then act AcPrint0 c
      else if arg_matches t ''-printf'' then action_operand ''-printf'' c AcPrintf
      else if arg_matches t ''-fprint'' then action_operand ''-fprint'' c AcFPrint
      else if arg_matches t ''-fprint0'' then action_operand ''-fprint0'' c AcFPrint0
      else if arg_matches t ''-fprintf'' then
        try_bind (take_os_string ''-fprintf'' c) (\<lambda>(p, c').
          action_operand ''-fprintf'' c' (AcFPrintf p))
      else if arg_matches t ''-ls'' then act AcLs c
      else if arg_matches t ''-fls'' then action_operand ''-fls'' c AcFls
      else if arg_matches t ''-quit'' then act AcQuit c
      else if arg_matches t ''-exec'' then exec_operand False False c
      else if arg_matches t ''-execdir'' then exec_operand True False c
      else if arg_matches t ''-ok'' then exec_operand False True c
      else if arg_matches t ''-okdir'' then exec_operand True True c
      else if arg_matches t ''-delete'' then act AcDelete c
      else Inl (diagnostic_parse
             (''unsupported token in parser subset `'' @ arg_display t @ ''`''))))"

definition parse_atom :: "arg_cursor \<Rightarrow> expr parsed" where
  "parse_atom c =
     (case cursor_bump c of
        (None, _) \<Rightarrow> Inl (diagnostic_parse ''expected predicate or action'')
      | (Some token, c') \<Rightarrow> atom_of_token token c')"

section \<open>Expressions\<close>

definition peek_is :: "arg_cursor \<Rightarrow> string list \<Rightarrow> bool" where
  "peek_is c ts \<longleftrightarrow>
     (case cursor_peek c of None \<Rightarrow> False | Some t \<Rightarrow> list_ex (arg_matches t) ts)"

definition starts_primary :: "arg_cursor \<Rightarrow> bool" where
  "starts_primary c \<longleftrightarrow>
     (case cursor_peek c of
        None \<Rightarrow> False
      | Some t \<Rightarrow> \<not> arg_matches t '')'' \<and> \<not> arg_matches t ''-o'' \<and> \<not> arg_matches t ''-or'')"

definition opt_bind ::
  "'a parsed option \<Rightarrow> ('a \<Rightarrow> arg_cursor \<Rightarrow> 'b parsed option) \<Rightarrow> 'b parsed option" where
  "opt_bind m f =
     (case m of
        None \<Rightarrow> None
      | Some (Inl e) \<Rightarrow> Some (Inl e)
      | Some (Inr (x, c)) \<Rightarrow> f x c)"

fun parse_or_expression :: "nat \<Rightarrow> arg_cursor \<Rightarrow> expr parsed option"
  and or_loop :: "nat \<Rightarrow> expr \<Rightarrow> arg_cursor \<Rightarrow> expr parsed option"
  and parse_and_expression :: "nat \<Rightarrow> arg_cursor \<Rightarrow> expr parsed option"
  and and_loop :: "nat \<Rightarrow> expr list \<Rightarrow> arg_cursor \<Rightarrow> expr parsed option"
  and parse_not_expression :: "nat \<Rightarrow> arg_cursor \<Rightarrow> expr parsed option"
  and parse_primary :: "nat \<Rightarrow> arg_cursor \<Rightarrow> expr parsed option" where
  "parse_or_expression 0 c = None"
| "parse_or_expression (Suc n) c =
     opt_bind (parse_and_expression n c) (\<lambda>left c'. or_loop n left c')"
| "or_loop 0 left c = None"
| "or_loop (Suc n) left c =
     (if peek_is c [''-o'', ''-or''] then
        opt_bind (parse_and_expression n (snd (cursor_bump c)))
          (\<lambda>right c'. or_loop n (EOr left right) c')
      else Some (Inr (left, c)))"
| "parse_and_expression 0 c = None"
| "parse_and_expression (Suc n) c =
     opt_bind (parse_not_expression n c) (\<lambda>e c'. and_loop n [e] c')"
| "and_loop 0 items c = None"
| "and_loop (Suc n) items c =
     (if peek_is c [''-a'', ''-and''] then
        opt_bind (parse_not_expression n (snd (cursor_bump c)))
          (\<lambda>e c'. and_loop n (items @ [e]) c')
      else if starts_primary c then
        opt_bind (parse_not_expression n c) (\<lambda>e c'. and_loop n (items @ [e]) c')
      else Some (Inr (if length items = 1 then hd items else EAnd items, c)))"
| "parse_not_expression 0 c = None"
| "parse_not_expression (Suc n) c =
     (if peek_is c [''!'', ''-not''] then
        opt_bind (parse_not_expression n (snd (cursor_bump c)))
          (\<lambda>e c'. Some (Inr (ENot e, c')))
      else parse_primary n c)"
| "parse_primary 0 c = None"
| "parse_primary (Suc n) c =
     (if peek_is c [''(''] then
        opt_bind (parse_or_expression n (snd (cursor_bump c)))
          (\<lambda>e c'. case cursor_bump c' of
             (Some token, c'') \<Rightarrow>
               if arg_matches token '')'' then Some (Inr (e, c''))
               else Some (Inl (diagnostic_parse ''expected `)` to close group''))
           | (None, _) \<Rightarrow> Some (Inl (diagnostic_parse ''expected `)` to close group'')))
      else if peek_is c ['')''] then Some (Inl (diagnostic_parse ''unexpected `)`''))
      else Some (parse_atom c))"

definition expect_end :: "arg_cursor \<Rightarrow> unit result" where
  "expect_end c =
     (case cursor_peek c of
        Some token \<Rightarrow>
          Inl (diagnostic_parse (''unexpected trailing token `'' @ arg_display token @ ''`''))
      | None \<Rightarrow> Inr ())"

definition is_expression_start :: "os_string \<Rightarrow> bool" where
  "is_expression_start arg \<longleftrightarrow>
     arg_matches arg ''!'' \<or> arg_matches arg ''('' \<or> arg_matches arg '')''
     \<or> arg_matches arg ''-a'' \<or> arg_matches arg ''-and'' \<or> arg_matches arg ''-o''
     \<or> arg_matches arg ''-or'' \<or> arg_matches arg ''-not'' \<or> arg_starts_with_dash arg"

definition parse_global_option :: "os_string \<Rightarrow> global_option option" where
  "parse_global_option arg =
     (if arg_matches arg ''-P'' then Some (OptFollow Physical)
      else if arg_matches arg ''-H'' then Some (OptFollow CommandLineOnly)
      else if arg_matches arg ''-L'' then Some (OptFollow Logical)
      else if arg_matches arg ''-version'' \<or> arg_matches arg ''--version'' then Some OptVersion
      else None)"

fun take_global_options :: "os_string list \<Rightarrow> global_option list \<times> os_string list" where
  "take_global_options [] = ([], [])"
| "take_global_options (arg # args) =
     (case parse_global_option arg of
        Some opt \<Rightarrow> (let (opts, rest) = take_global_options args in (opt # opts, rest))
      | None \<Rightarrow> ([], arg # args))"

text \<open>The fuel for \<open>n\<close> tokens.\<close>

definition parse_fuel :: "nat \<Rightarrow> nat" where
  "parse_fuel n = 5 * n + 5"

definition parse_command :: "os_string list \<Rightarrow> command_ast result option" where
  "parse_command argv =
     (let (opts, rest) = take_global_options argv;
          paths = takeWhile (\<lambda>arg. \<not> is_expression_start arg) rest;
          expr_tokens = dropWhile (\<lambda>arg. \<not> is_expression_start arg) rest;
          starts = (if paths = [] then [''.''] else paths)
      in
      if expr_tokens = [] then
        Some (Inr \<lparr>start_paths = starts, global_options = opts, command_expr = EAction AcPrint\<rparr>)
      else
        (case parse_or_expression (parse_fuel (length expr_tokens)) (cursor_new expr_tokens) of
           None \<Rightarrow> None
         | Some (Inl e) \<Rightarrow> Some (Inl e)
         | Some (Inr (e, c)) \<Rightarrow>
             Some (try_bind (expect_end c)
               (\<lambda>_. Inr \<lparr>start_paths = starts, global_options = opts, command_expr = e\<rparr>))))"

section \<open>Enough fuel\<close>

definition consumed :: "arg_cursor \<Rightarrow> arg_cursor \<Rightarrow> bool" where
  "consumed c c' \<longleftrightarrow> length (remaining c') \<le> length (remaining c)"

lemma consumed_refl [simp]: "consumed c c"
  by (simp add: consumed_def)

lemma take_os_string_Inr:
  "take_os_string flag c = Inr (raw, c') \<Longrightarrow> remaining c = raw # remaining c'"
  using cursor_bump_remaining(1) [of c] cursor_bump_remaining(2) [of c]
  by (cases "remaining c") (auto simp: take_os_string_def split: prod.splits option.splits)

lemma take_os_string_consumed: "take_os_string flag c = Inr (raw, c') \<Longrightarrow> consumed c c'"
  by (drule take_os_string_Inr) (simp add: consumed_def)

lemma consumed_trans: "consumed a b \<Longrightarrow> consumed b c \<Longrightarrow> consumed a c"
  by (simp add: consumed_def)

lemma cursor_bump_Some:
  "cursor_bump c = (Some t, c') \<Longrightarrow> remaining c = t # remaining c'"
  using cursor_bump_remaining(1) [of c] cursor_bump_remaining(2) [of c]
  by (cases "remaining c") auto

lemma exec_loop_consumed: "exec_loop argv c = Inr (r, c') \<Longrightarrow> consumed c c'"
proof (induction argv c rule: exec_loop.induct)
  case (1 argv c)
  then obtain t c1 where b: "cursor_bump c = (Some t, c1)"
    by (subst (asm) (2) exec_loop.simps) (auto split: prod.splits option.splits)
  then have rem: "remaining c = t # remaining c1" by (rule cursor_bump_Some)
  show ?case
  proof (cases "t = '';'' \<or> t = ''+''")
    case True
    with 1(2) b rem show ?thesis
      by (subst (asm) exec_loop.simps) (auto simp: arg_matches_def consumed_def)
  next
    case False
    then have "consumed c1 c'"
      using 1(1) [of _ c1 t] 1(2) b by (subst (asm) exec_loop.simps) (auto simp: arg_matches_def)
    with rem show ?thesis by (simp add: consumed_def)
  qed
qed

definition atom_post :: "arg_cursor \<Rightarrow> expr parsed \<Rightarrow> bool" where
  "atom_post c r \<longleftrightarrow> (\<forall>e c'. r = Inr (e, c') \<longrightarrow> consumed c c')"

named_theorems atom_posts \<open>postconditions of the operand readers\<close>

lemma atom_post_Inl [atom_posts]: "atom_post c (Inl d)"
  by (simp add: atom_post_def)

lemma atom_post_pred [atom_posts]: "atom_post c (pred p c)"
  by (simp add: atom_post_def)

lemma atom_post_act [atom_posts]: "atom_post c (act a c)"
  by (simp add: atom_post_def)

lemma atom_post_operand [atom_posts]:
  "atom_post c (operand flag c f)"
  by (auto simp: atom_post_def operand_def result_simps dest: take_os_string_consumed)

lemma atom_post_numeric [atom_posts]:
  "atom_post c (numeric_operand flag c f)"
  by (auto simp: atom_post_def numeric_operand_def result_simps dest: take_os_string_consumed)

lemma atom_post_timed [atom_posts]:
  "atom_post c (timed_operand flag c f)"
  by (auto simp: atom_post_def timed_operand_def result_simps dest: take_os_string_consumed)

lemma atom_post_action [atom_posts]:
  "atom_post c (action_operand flag c f)"
  by (auto simp: atom_post_def action_operand_def result_simps dest: take_os_string_consumed)

lemma atom_post_action2 [atom_posts]:
  "atom_post c (try_bind (take_os_string flag c) (\<lambda>(p, c'). action_operand flag' c' (f p)))"
  by (auto simp: atom_post_def action_operand_def result_simps
      dest!: take_os_string_consumed intro: consumed_trans)

lemma atom_post_u32 [atom_posts]:
  "atom_post c (try_bind (take_u32 flag c) (\<lambda>(n, c'). pred (f n) c'))"
  by (auto simp: atom_post_def take_u32_def result_simps Let_def dest: take_os_string_consumed)

lemma take_type_filter_for_consumed: "take_type_filter_for flag c = Inr (ft, c') \<Longrightarrow> consumed c c'"
  by (auto simp: take_type_filter_for_def result_simps dest: take_os_string_consumed split: if_splits)

lemma atom_post_type [atom_posts]:
  "atom_post c (try_bind (take_type_filter_for flag c) (\<lambda>(n, c'). pred (f n) c'))"
  "atom_post c (try_bind (take_type_filter c) (\<lambda>(n, c'). pred (f n) c'))"
  by (auto simp: atom_post_def take_type_filter_def result_simps dest: take_type_filter_for_consumed)

lemma atom_post_exec [atom_posts]: "atom_post c (exec_operand chdir prompt c)"
  by (auto simp: atom_post_def exec_operand_def take_exec_action_def result_simps
      split: bool.splits dest!: exec_loop_consumed)

lemma atom_post_if: "atom_post c x \<Longrightarrow> atom_post c y \<Longrightarrow> atom_post c (if b then x else y)"
  by simp

lemma atom_post_option:
  "atom_post c x \<Longrightarrow> (\<And>a b. atom_post c (f a b)) \<Longrightarrow>
   atom_post c (case m of None \<Rightarrow> x | Some (a, b) \<Rightarrow> f a b)"
  by (simp split: option.split)

lemma atom_of_token_post: "atom_post c (atom_of_token t c)"
  unfolding atom_of_token_def
  by (intro atom_post_if atom_post_option atom_posts)

abbreviation left :: "arg_cursor \<Rightarrow> nat" where
  "left c \<equiv> length (remaining c)"

definition parsed_ok :: "nat \<Rightarrow> expr parsed option \<Rightarrow> bool" where
  "parsed_ok k r \<longleftrightarrow>
     r \<noteq> None \<and> (\<forall>e c'. r = Some (Inr (e, c')) \<longrightarrow> left c' < k)"

lemma parsed_ok_simps [simp]:
  "\<not> parsed_ok k None"
  "parsed_ok k (Some (Inl d))"
  "parsed_ok k (Some (Inr (e, c))) \<longleftrightarrow> left c < k"
  by (auto simp: parsed_ok_def)

lemma opt_bind_simps [simp]:
  "opt_bind None f = None"
  "opt_bind (Some (Inl d)) f = Some (Inl d)"
  "opt_bind (Some (Inr (x, c))) f = f x c"
  by (simp_all add: opt_bind_def)

lemma parsed_ok_opt_bind:
  assumes "parsed_ok k m" "\<And>e c'. left c' < k \<Longrightarrow> parsed_ok k' (f e c')"
  shows "parsed_ok k' (opt_bind m f)"
  using assms unfolding opt_bind_def parsed_ok_def
  by (auto split: option.splits sum.splits)

lemma peek_is_remaining:
  "peek_is c ts \<longleftrightarrow> (case remaining c of [] \<Rightarrow> False | t # _ \<Rightarrow> t \<in> set ts)"
  by (auto simp: peek_is_def cursor_peek_remaining arg_matches_def list_ex_iff split: list.splits)

lemma starts_primary_remaining:
  "starts_primary c \<longleftrightarrow>
   (case remaining c of [] \<Rightarrow> False | t # _ \<Rightarrow> t \<notin> {'')'', ''-o'', ''-or''})"
  by (auto simp: starts_primary_def cursor_peek_remaining arg_matches_def split: list.splits)

lemma remaining_bump: "remaining (snd (cursor_bump c)) = tl (remaining c)"
  by (simp add: cursor_bump_def cursor_peek_remaining remaining_advance split: list.split)

lemma peek_is_left: "peek_is c ts \<Longrightarrow> left (snd (cursor_bump c)) < left c"
  by (auto simp: peek_is_remaining remaining_bump split: list.splits)

lemma parse_atom_ok: "parsed_ok (left c) (Some (parse_atom c))"
proof (cases "remaining c")
  case Nil
  then show ?thesis by (simp add: parse_atom_def cursor_bump_remaining(1))
next
  case (Cons t ts)
  then obtain c1 where b: "cursor_bump c = (Some t, c1)" and r: "remaining c1 = ts"
    using cursor_bump_remaining(2) by blast
  show ?thesis
  proof (cases "atom_of_token t c1")
    case (Inr p)
    then obtain e c2 where "p = (e, c2)" by (cases p)
    with Inr atom_of_token_post [of c1 t] b r Cons show ?thesis
      by (simp add: parse_atom_def atom_post_def consumed_def)
  qed (simp add: parse_atom_def b)
qed

definition fuel_claim :: "nat \<Rightarrow> bool" where
  "fuel_claim n \<longleftrightarrow>
     (\<forall>c. 5 * left c + 4 \<le> n \<longrightarrow> parsed_ok (left c) (parse_or_expression n c)) \<and>
     (\<forall>l c. 5 * left c + 1 \<le> n \<longrightarrow> parsed_ok (Suc (left c)) (or_loop n l c)) \<and>
     (\<forall>c. 5 * left c + 3 \<le> n \<longrightarrow> parsed_ok (left c) (parse_and_expression n c)) \<and>
     (\<forall>es c. 5 * left c + 3 \<le> n \<longrightarrow>
        parsed_ok (Suc (left c)) (and_loop n es c)) \<and>
     (\<forall>c. 5 * left c + 2 \<le> n \<longrightarrow> parsed_ok (left c) (parse_not_expression n c)) \<and>
     (\<forall>c. 5 * left c + 1 \<le> n \<longrightarrow> parsed_ok (left c) (parse_primary n c))"

lemma parsed_ok_mono: "parsed_ok k r \<Longrightarrow> k \<le> k' \<Longrightarrow> parsed_ok k' r"
  by (auto simp: parsed_ok_def)

lemma fuel_step_primary:
  assumes "fuel_claim n" "5 * left c + 1 \<le> Suc n"
  shows "parsed_ok (left c) (parse_primary (Suc n) c)"
proof (cases "peek_is c [''('']")
  case True
  let ?c = "snd (cursor_bump c)"
  have lt: "left ?c < left c" using True by (rule peek_is_left)
  have "parsed_ok (left ?c) (parse_or_expression n ?c)"
    using assms lt unfolding fuel_claim_def by auto
  then have "parsed_ok (left c) (opt_bind (parse_or_expression n ?c)
      (\<lambda>e c'. case cursor_bump c' of
             (Some token, c'') \<Rightarrow>
               if arg_matches token '')'' then Some (Inr (e, c''))
               else Some (Inl (diagnostic_parse ''expected `)` to close group''))
           | (None, _) \<Rightarrow> Some (Inl (diagnostic_parse ''expected `)` to close group''))))"
    by (rule parsed_ok_opt_bind)
      (use lt in \<open>auto split: prod.splits option.splits dest!: cursor_bump_Some\<close>)
  with True show ?thesis by simp
qed (simp add: parse_atom_ok)

lemma fuel_step_not:
  assumes "fuel_claim n" "5 * left c + 2 \<le> Suc n"
  shows "parsed_ok (left c) (parse_not_expression (Suc n) c)"
proof (cases "peek_is c [''!'', ''-not'']")
  case True
  let ?c = "snd (cursor_bump c)"
  have lt: "left ?c < left c" using True by (rule peek_is_left)
  have "parsed_ok (left ?c) (parse_not_expression n ?c)"
    using assms lt unfolding fuel_claim_def by auto
  then have "parsed_ok (left c) (opt_bind (parse_not_expression n ?c) (\<lambda>e c'. Some (Inr (ENot e, c'))))"
    by (rule parsed_ok_opt_bind) (use lt in auto)
  with True show ?thesis by simp
next
  case False
  then show ?thesis using assms unfolding fuel_claim_def by simp
qed

lemma fuel_step_and_loop:
  assumes "fuel_claim n" "5 * left c + 3 \<le> Suc n"
  shows "parsed_ok (Suc (left c)) (and_loop (Suc n) es c)"
proof -
  have step: "parsed_ok (Suc (left c))
      (opt_bind (parse_not_expression n c1) (\<lambda>e c'. and_loop n (es @ [e]) c'))"
    if "left c1 \<le> left c" for c1
  proof (rule parsed_ok_opt_bind)
    show "parsed_ok (left c1) (parse_not_expression n c1)"
      using assms that unfolding fuel_claim_def by auto
    fix e c' assume "left c' < left c1"
    then have "parsed_ok (Suc (left c')) (and_loop n (es @ [e]) c')"
      using assms that unfolding fuel_claim_def by auto
    then show "parsed_ok (Suc (left c)) (and_loop n (es @ [e]) c')"
      by (rule parsed_ok_mono) (use \<open>left c' < left c1\<close> that in simp)
  qed
  show ?thesis
    using step [of c] step [of "snd (cursor_bump c)"] peek_is_left [of c "[''-a'', ''-and'']"]
    by auto
qed

lemma fuel_step_or_loop:
  assumes "fuel_claim n" "5 * left c + 1 \<le> Suc n"
  shows "parsed_ok (Suc (left c)) (or_loop (Suc n) l c)"
proof (cases "peek_is c [''-o'', ''-or'']")
  case True
  let ?c = "snd (cursor_bump c)"
  have lt: "left ?c < left c" using True by (rule peek_is_left)
  have "parsed_ok (Suc (left c))
      (opt_bind (parse_and_expression n ?c) (\<lambda>r c'. or_loop n (EOr l r) c'))"
  proof (rule parsed_ok_opt_bind)
    show "parsed_ok (left ?c) (parse_and_expression n ?c)"
      using assms lt unfolding fuel_claim_def by auto
    fix e c' assume e: "left c' < left ?c"
    then have "parsed_ok (Suc (left c')) (or_loop n (EOr l e) c')"
      using assms lt unfolding fuel_claim_def by auto
    then show "parsed_ok (Suc (left c)) (or_loop n (EOr l e) c')"
      by (rule parsed_ok_mono) (use e lt in simp)
  qed
  with True show ?thesis by simp
qed (use assms in simp)

lemma fuel_claim_all: "fuel_claim n"
proof (induction n)
  case 0
  then show ?case by (simp add: fuel_claim_def)
next
  case (Suc n)
  have "parsed_ok (left c) (parse_and_expression (Suc n) c)" if "5 * left c + 3 \<le> Suc n" for c
  proof -
    have "parsed_ok (left c) (opt_bind (parse_not_expression n c) (\<lambda>e c'. and_loop n [e] c'))"
    proof (rule parsed_ok_opt_bind)
      show "parsed_ok (left c) (parse_not_expression n c)"
        using Suc that unfolding fuel_claim_def by auto
      fix e c' assume e: "left c' < left c"
      then have "parsed_ok (Suc (left c')) (and_loop n [e] c')"
        using Suc that unfolding fuel_claim_def by auto
      then show "parsed_ok (left c) (and_loop n [e] c')"
        by (rule parsed_ok_mono) (use e in simp)
    qed
    then show ?thesis by simp
  qed
  moreover have "parsed_ok (left c) (parse_or_expression (Suc n) c)"
    if "5 * left c + 4 \<le> Suc n" for c
  proof -
    have "parsed_ok (left c) (opt_bind (parse_and_expression n c) (\<lambda>e c'. or_loop n e c'))"
    proof (rule parsed_ok_opt_bind)
      show "parsed_ok (left c) (parse_and_expression n c)"
        using Suc that unfolding fuel_claim_def by auto
      fix e c' assume e: "left c' < left c"
      then have "parsed_ok (Suc (left c')) (or_loop n e c')"
        using Suc that unfolding fuel_claim_def by auto
      then show "parsed_ok (left c) (or_loop n e c')"
        by (rule parsed_ok_mono) (use e in simp)
    qed
    then show ?thesis by simp
  qed
  ultimately show ?case
    unfolding fuel_claim_def
    using fuel_step_primary [OF Suc] fuel_step_not [OF Suc] fuel_step_and_loop [OF Suc]
      fuel_step_or_loop [OF Suc]
    by (intro conjI allI impI) auto
qed

lemma parse_or_expression_ok:
  "parse_fuel (left c) \<le> n \<Longrightarrow> parsed_ok (left c) (parse_or_expression n c)"
  using fuel_claim_all [of n] unfolding fuel_claim_def parse_fuel_def by auto

lemma parse_command_outcome:
  "(\<exists>ast. parse_command argv = Some (Inr ast) \<and> start_paths ast \<noteq> [])
   \<or> (\<exists>d. parse_command argv = Some (Inl d))"
proof -
  obtain opts rest where g: "take_global_options argv = (opts, rest)" by force
  let ?ts = "dropWhile (\<lambda>arg. \<not> is_expression_start arg) rest"
  have "parsed_ok (length ?ts) (parse_or_expression (parse_fuel (length ?ts)) (cursor_new ?ts))"
    using parse_or_expression_ok [of "cursor_new ?ts"] by simp
  then show ?thesis
    by (auto simp: parse_command_def g Let_def try_bind_def split: option.splits sum.splits)
qed

text \<open>
  Parsing is total: on every argument vector the parser returns a command or a
  diagnostic (the fuel of the model never runs out), and a returned command has at least one
  start path.
\<close>

theorem parse_command_total:
  "(\<exists>ast. parse_command argv = Some (Inr ast) \<and> start_paths ast \<noteq> [])
   \<or> (\<exists>d. parse_command argv = Some (Inl d))"
  by (rule parse_command_outcome)

end
