(* ===== verification/Cmd_Language.thy ===== *)
theory Cmd_Language
  imports Cmd_Parser
begin

text \<open>
  The language of \<^verbatim>\<open>src/src/parser.rs\<close>, described without the parser: a table of the words of
  every predicate and action, a grammar for the operators, and the division of the argument vector
  into options, paths and expression.  The parser is shown to decide exactly this language and to
  return the tree the grammar assigns.
\<close>

section \<open>Operands\<close>

text \<open>A comparison: an optional sign, possibly a further plus, and a number below \<open>2 ^ 64\<close>.\<close>

definition count_text :: "os_string \<Rightarrow> bool" where
  "count_text raw \<longleftrightarrow>
     (\<exists>kind pl ds. raw = sign_text kind @ pl @ ds \<and> unsigned_operand pl ds
        \<and> \<not> (kind = KindExactly \<and> pl \<noteq> '''') \<and> dec_val ds < 2 ^ 64)"

text \<open>A time: an optional sign, digits, and possibly a point and further digits.\<close>

definition time_text :: "os_string \<Rightarrow> bool" where
  "time_text raw \<longleftrightarrow> (\<exists>kind w f. time_operand kind w f raw)"

text \<open>A depth: a number below \<open>2 ^ 32\<close>.\<close>

definition depth_text :: "os_string \<Rightarrow> u32 \<Rightarrow> bool" where
  "depth_text raw n \<longleftrightarrow>
     (\<exists>pl ds. raw = pl @ ds \<and> unsigned_operand pl ds \<and> dec_val ds < 2 ^ 32 \<and> n = of_nat (dec_val ds))"

fun type_letter :: "file_type_filter \<Rightarrow> string" where
  "type_letter FtFile = ''f''" | "type_letter FtDirectory = ''d''" | "type_letter FtSymlink = ''l''"
| "type_letter FtBlock = ''b''" | "type_letter FtCharacter = ''c''" | "type_letter FtFifo = ''p''"
| "type_letter FtSocket = ''s''"

section \<open>Words of the predicates and actions\<close>

fun pred_words :: "predicate \<Rightarrow> os_string list \<Rightarrow> bool" where
  "pred_words (PrMaxDepth n) ws \<longleftrightarrow> (\<exists>t. ws = [''-maxdepth'', t] \<and> depth_text t n)"
| "pred_words (PrMinDepth n) ws \<longleftrightarrow> (\<exists>t. ws = [''-mindepth'', t] \<and> depth_text t n)"
| "pred_words PrDepth ws \<longleftrightarrow> ws = [''-depth'']"
| "pred_words PrPrune ws \<longleftrightarrow> ws = [''-prune'']"
| "pred_words PrXDev ws \<longleftrightarrow> ws = [''-xdev''] \<or> ws = [''-mount'']"
| "pred_words PrReadable ws \<longleftrightarrow> ws = [''-readable'']"
| "pred_words PrWritable ws \<longleftrightarrow> ws = [''-writable'']"
| "pred_words PrExecutable ws \<longleftrightarrow> ws = [''-executable'']"
| "pred_words (PrName p ci) ws \<longleftrightarrow> ws = [if ci then ''-iname'' else ''-name'', p]"
| "pred_words (PrPath p ci) ws \<longleftrightarrow>
     ws = [if ci then ''-ipath'' else ''-path'', p] \<or> ws = [if ci then ''-iwholename'' else ''-wholename'', p]"
| "pred_words (PrRegex p ci) ws \<longleftrightarrow> ws = [if ci then ''-iregex'' else ''-regex'', p]"
| "pred_words (PrRegexType p) ws \<longleftrightarrow> ws = [''-regextype'', p]"
| "pred_words (PrFsType p) ws \<longleftrightarrow> ws = [''-fstype'', p]"
| "pred_words (PrInum p) ws \<longleftrightarrow> ws = [''-inum'', p] \<and> count_text p"
| "pred_words (PrLinks p) ws \<longleftrightarrow> ws = [''-links'', p] \<and> count_text p"
| "pred_words (PrSameFile p) ws \<longleftrightarrow> ws = [''-samefile'', p]"
| "pred_words (PrLName p ci) ws \<longleftrightarrow> ws = [if ci then ''-ilname'' else ''-lname'', p]"
| "pred_words (PrUid p) ws \<longleftrightarrow> ws = [''-uid'', p] \<and> count_text p"
| "pred_words (PrGid p) ws \<longleftrightarrow> ws = [''-gid'', p] \<and> count_text p"
| "pred_words (PrUser p) ws \<longleftrightarrow> ws = [''-user'', p]"
| "pred_words (PrGroup p) ws \<longleftrightarrow> ws = [''-group'', p]"
| "pred_words (PrOwner p) ws \<longleftrightarrow> ws = [''-owner'', p]"
| "pred_words (PrOwnerSid p) ws \<longleftrightarrow> ws = [''-owner-sid'', p]"
| "pred_words (PrGroupSid p) ws \<longleftrightarrow> ws = [''-group-sid'', p]"
| "pred_words PrNoUser ws \<longleftrightarrow> ws = [''-nouser'']"
| "pred_words PrNoGroup ws \<longleftrightarrow> ws = [''-nogroup'']"
| "pred_words (PrPerm p) ws \<longleftrightarrow> ws = [''-perm'', p]"
| "pred_words (PrFlags p) ws \<longleftrightarrow> ws = [''-flags'', p]"
| "pred_words (PrReparseType p) ws \<longleftrightarrow> ws = [''-reparse-type'', p]"
| "pred_words (PrSize p) ws \<longleftrightarrow> ws = [''-size'', p]"
| "pred_words PrEmpty ws \<longleftrightarrow> ws = [''-empty'']"
| "pred_words (PrUsed p) ws \<longleftrightarrow> ws = [''-used'', p] \<and> time_text p"
| "pred_words (PrATime p) ws \<longleftrightarrow> ws = [''-atime'', p] \<and> time_text p"
| "pred_words (PrCTime p) ws \<longleftrightarrow> ws = [''-ctime'', p] \<and> time_text p"
| "pred_words (PrMTime p) ws \<longleftrightarrow> ws = [''-mtime'', p] \<and> time_text p"
| "pred_words (PrAMin p) ws \<longleftrightarrow> ws = [''-amin'', p] \<and> time_text p"
| "pred_words (PrCMin p) ws \<longleftrightarrow> ws = [''-cmin'', p] \<and> time_text p"
| "pred_words (PrMMin p) ws \<longleftrightarrow> ws = [''-mmin'', p] \<and> time_text p"
| "pred_words (PrNewer p) ws \<longleftrightarrow> ws = [''-newer'', p]"
| "pred_words (PrANewer p) ws \<longleftrightarrow> ws = [''-anewer'', p]"
| "pred_words (PrCNewer p) ws \<longleftrightarrow> ws = [''-cnewer'', p]"
| "pred_words (PrNewerXY x y p) ws \<longleftrightarrow> ws = [''-newer'' @ [x, y], p]"
| "pred_words PrDayStart ws \<longleftrightarrow> ws = [''-daystart'']"
| "pred_words (PrType t) ws \<longleftrightarrow> ws = [''-type'', type_letter t]"
| "pred_words (PrXType t) ws \<longleftrightarrow> ws = [''-xtype'', type_letter t]"
| "pred_words PrTrue ws \<longleftrightarrow> ws = [''-true'']"
| "pred_words PrFalse ws \<longleftrightarrow> ws = [''-false'']"

text \<open>The argument vector of an exec action ends at the first semicolon or plus sign.\<close>

definition exec_words :: "string \<Rightarrow> os_string list \<Rightarrow> bool \<Rightarrow> os_string list \<Rightarrow> bool" where
  "exec_words flag argv batch ws \<longleftrightarrow>
     ws = flag # argv @ [if batch then ''+'' else '';''] \<and> '';'' \<notin> set argv \<and> ''+'' \<notin> set argv"

fun action_words :: "action \<Rightarrow> os_string list \<Rightarrow> bool" where
  "action_words AcPrint ws \<longleftrightarrow> ws = [''-print'']"
| "action_words AcPrint0 ws \<longleftrightarrow> ws = [''-print0'']"
| "action_words (AcPrintf f) ws \<longleftrightarrow> ws = [''-printf'', f]"
| "action_words (AcFPrint p) ws \<longleftrightarrow> ws = [''-fprint'', p]"
| "action_words (AcFPrint0 p) ws \<longleftrightarrow> ws = [''-fprint0'', p]"
| "action_words (AcFPrintf p f) ws \<longleftrightarrow> ws = [''-fprintf'', p, f]"
| "action_words AcLs ws \<longleftrightarrow> ws = [''-ls'']"
| "action_words (AcFls p) ws \<longleftrightarrow> ws = [''-fls'', p]"
| "action_words AcQuit ws \<longleftrightarrow> ws = [''-quit'']"
| "action_words (AcExec argv b) ws \<longleftrightarrow> exec_words ''-exec'' argv b ws"
| "action_words (AcExecDir argv b) ws \<longleftrightarrow> exec_words ''-execdir'' argv b ws"
| "action_words (AcOk argv b) ws \<longleftrightarrow> exec_words ''-ok'' argv b ws"
| "action_words (AcOkDir argv b) ws \<longleftrightarrow> exec_words ''-okdir'' argv b ws"
| "action_words AcDelete ws \<longleftrightarrow> ws = [''-delete'']"

fun atom_words :: "os_string list \<Rightarrow> expr \<Rightarrow> bool" where
  "atom_words ws (EPredicate p) \<longleftrightarrow> pred_words p ws"
| "atom_words ws (EAction a) \<longleftrightarrow> action_words a ws"
| "atom_words ws _ \<longleftrightarrow> False"

section \<open>The grammar\<close>

text \<open>
  Disjunctions associate to the left; a conjunction of two or more items is one flat node, its
  items joined by \<^verbatim>\<open>-a\<close>, by \<^verbatim>\<open>-and\<close> or by standing next to each other; negation binds tighter
  than both, and parentheses group.
\<close>

inductive or_words :: "os_string list \<Rightarrow> expr \<Rightarrow> bool"
  and and_words :: "os_string list \<Rightarrow> expr \<Rightarrow> bool"
  and conj_words :: "os_string list \<Rightarrow> expr list \<Rightarrow> bool"
  and not_words :: "os_string list \<Rightarrow> expr \<Rightarrow> bool"
  and primary_words :: "os_string list \<Rightarrow> expr \<Rightarrow> bool" where
  or_one: "and_words ws e \<Longrightarrow> or_words ws e"
| or_more: "or_words ws l \<Longrightarrow> t \<in> {''-o'', ''-or''} \<Longrightarrow> and_words vs r \<Longrightarrow> or_words (ws @ t # vs) (EOr l r)"
| and_one: "conj_words ws [e] \<Longrightarrow> and_words ws e"
| and_more: "conj_words ws es \<Longrightarrow> 2 \<le> length es \<Longrightarrow> and_words ws (EAnd es)"
| conj_one: "not_words ws e \<Longrightarrow> conj_words ws [e]"
| conj_next: "conj_words ws es \<Longrightarrow> not_words vs e \<Longrightarrow> conj_words (ws @ vs) (es @ [e])"
| conj_and: "conj_words ws es \<Longrightarrow> t \<in> {''-a'', ''-and''} \<Longrightarrow> not_words vs e \<Longrightarrow>
    conj_words (ws @ t # vs) (es @ [e])"
| not_not: "t \<in> {''!'', ''-not''} \<Longrightarrow> not_words ws e \<Longrightarrow> not_words (t # ws) (ENot e)"
| not_primary: "primary_words ws e \<Longrightarrow> not_words ws e"
| primary_group: "or_words ws e \<Longrightarrow> primary_words (''('' # ws @ ['')'']) e"
| primary_atom: "atom_words ws e \<Longrightarrow> primary_words ws e"

section \<open>Whole commands\<close>

fun option_word :: "os_string \<Rightarrow> global_option \<Rightarrow> bool" where
  "option_word t (OptFollow Physical) \<longleftrightarrow> t = ''-P''"
| "option_word t (OptFollow CommandLineOnly) \<longleftrightarrow> t = ''-H''"
| "option_word t (OptFollow Logical) \<longleftrightarrow> t = ''-L''"
| "option_word t OptVersion \<longleftrightarrow> t = ''-version'' \<or> t = ''--version''"

text \<open>The tokens that cannot be start paths.\<close>

definition expression_token :: "os_string \<Rightarrow> bool" where
  "expression_token t \<longleftrightarrow> t \<in> {''!'', ''('', '')''} \<or> (\<exists>u. t = CHR ''-'' # u)"

definition command_words :: "os_string list \<Rightarrow> command_ast \<Rightarrow> bool" where
  "command_words argv ast \<longleftrightarrow>
     (\<exists>os ps ws. argv = os @ ps @ ws
        \<and> list_all2 option_word os (global_options ast)
        \<and> list_all (\<lambda>p. \<not> expression_token p) ps
        \<and> start_paths ast = (if ps = [] then [''.''] else ps)
        \<and> (if ws = [] then command_expr ast = EAction AcPrint else or_words ws (command_expr ast)))"

section \<open>Operands are read as described\<close>

lemma validate_numeric_text: "validate_numeric_argument flag raw = Inr () \<longleftrightarrow> count_text raw"
proof -
  have "validate_numeric_argument flag raw = Inr () \<longleftrightarrow> (\<exists>c. parse_numeric_argument flag raw = Inr c)"
    by (cases "parse_numeric_argument flag raw") (simp_all add: validate_numeric_argument_def)
  then show ?thesis unfolding parse_numeric_argument_accepts count_text_def by blast
qed

lemma time_amount_from_operand:
  assumes "w \<noteq> []" "all_digits w" "all_digits f"
  shows "\<exists>a. time_amount_from_str (w @ (if f = [] then [] else CHR ''.'' # f)) = Inr a"
  using split_once_operand [OF assms(2), of f] assms
  by (cases "f = []") (simp_all add: time_amount_from_str_def Let_def split: prod.split)

lemma validate_time_text: "validate_time_argument flag raw = Inr () \<longleftrightarrow> time_text raw"
proof
  assume "validate_time_argument flag raw = Inr ()"
  then obtain c where c: "parse_time_comparison flag raw = Inr c"
    by (cases "parse_time_comparison flag raw") (simp_all add: validate_time_argument_def)
  obtain kind ds where sp: "split_sign raw = (kind, ds)" by force
  then obtain a where "time_amount_from_str ds = Inr a"
    using c by (auto simp: parse_time_comparison_def result_simps map_err_def split: if_splits sum.splits)
  from time_amount_from_str_accepts [OF this] split_sign_text [OF sp]
  show "time_text raw" unfolding time_text_def time_operand_def by blast
next
  assume "time_text raw"
  then obtain kind w f where w: "w \<noteq> []" "all_digits w" "all_digits f"
    and raw: "raw = sign_text kind @ w @ (if f = [] then [] else CHR ''.'' # f)"
    unfolding time_text_def time_operand_def by blast
  have "split_sign raw = (kind, w @ (if f = [] then [] else CHR ''.'' # f))"
    unfolding raw by (rule split_sign_time_operand [OF w(1,2)])
  with time_amount_from_operand [OF w] is_utf8_operand [OF w(2,3)]
  show "validate_time_argument flag raw = Inr ()"
    by (auto simp: validate_time_argument_def parse_time_comparison_def map_err_def)
qed

lemma parse_depth_text: "parse_uint (utf8_lossy raw) = Some n \<longleftrightarrow> depth_text raw n"
proof
  assume "parse_uint (utf8_lossy raw) = Some n"
  then show "depth_text raw n"
    unfolding parse_uint_lossy_iff depth_text_def using strip_plus_operand [of raw] by auto
next
  assume "depth_text raw n"
  then obtain pl ds where op: "unsigned_operand pl ds" and "raw = pl @ ds" "dec_val ds < 2 ^ 32"
    "n = of_nat (dec_val ds)" unfolding depth_text_def by blast
  moreover from op have "ds \<noteq> []" "list_all is_ascii_digit ds" by (simp_all add: unsigned_operand_def)
  ultimately show "parse_uint (utf8_lossy raw) = Some n"
    by (simp add: parse_uint_lossy_iff strip_plus_unsigned_operand)
qed

lemma take_u32_reads:
  "take_u32 flag c = Inr (n, c') \<longleftrightarrow> (\<exists>raw. take_os_string flag c = Inr (raw, c') \<and> depth_text raw n)"
  by (auto simp: take_u32_def Let_def result_simps parse_depth_text)

lemma take_type_filter_for_reads:
  "take_type_filter_for flag c = Inr (t, c') \<longleftrightarrow> take_os_string flag c = Inr (type_letter t, c')"
  by (cases "take_os_string flag c"; cases t) (auto simp: take_type_filter_for_def split: if_splits)

lemma take_os_string_Cons:
  "remaining c = t # ts \<Longrightarrow> \<exists>c'. take_os_string flag c = Inr (t, c') \<and> remaining c' = ts"
  using cursor_bump_remaining(2) [of c t ts] by (auto simp: take_os_string_def)

section \<open>What the parser returns is in the language\<close>

definition atom_sound :: "os_string \<Rightarrow> arg_cursor \<Rightarrow> expr parsed \<Rightarrow> bool" where
  "atom_sound t c r \<longleftrightarrow>
     (\<forall>e c'. r = Inr (e, c') \<longrightarrow> (\<exists>vs. remaining c = vs @ remaining c' \<and> atom_words (t # vs) e))"

named_theorems atom_sounds \<open>soundness of the operand readers\<close>

lemma atom_sound_Inl [atom_sounds]: "atom_sound t c (Inl d)"
  by (simp add: atom_sound_def)

lemma atom_sound_pred [atom_sounds]: "pred_words p [t] \<Longrightarrow> atom_sound t c (pred p c)"
  by (simp add: atom_sound_def)

lemma atom_sound_act [atom_sounds]: "action_words a [t] \<Longrightarrow> atom_sound t c (act a c)"
  by (simp add: atom_sound_def)

lemma atom_sound_operand [atom_sounds]:
  "(\<And>raw. pred_words (f raw) [t, raw]) \<Longrightarrow> atom_sound t c (operand flag c f)"
  by (auto simp: atom_sound_def operand_def result_simps dest!: take_os_string_Inr)

lemma atom_sound_numeric [atom_sounds]:
  "(\<And>raw. count_text raw \<Longrightarrow> pred_words (f raw) [t, raw]) \<Longrightarrow> atom_sound t c (numeric_operand flag c f)"
  by (auto simp: atom_sound_def numeric_operand_def result_simps validate_numeric_text
      dest!: take_os_string_Inr)

lemma atom_sound_timed [atom_sounds]:
  "(\<And>raw. time_text raw \<Longrightarrow> pred_words (f raw) [t, raw]) \<Longrightarrow> atom_sound t c (timed_operand flag c f)"
  by (auto simp: atom_sound_def timed_operand_def result_simps validate_time_text
      dest!: take_os_string_Inr)

lemma atom_sound_action [atom_sounds]:
  "(\<And>raw. action_words (f raw) [t, raw]) \<Longrightarrow> atom_sound t c (action_operand flag c f)"
  by (auto simp: atom_sound_def action_operand_def result_simps dest!: take_os_string_Inr)

lemma atom_sound_action2 [atom_sounds]:
  "(\<And>p raw. action_words (f p raw) [t, p, raw]) \<Longrightarrow>
   atom_sound t c (try_bind (take_os_string flag c) (\<lambda>(p, c'). action_operand flag' c' (f p)))"
  by (auto simp: atom_sound_def action_operand_def result_simps dest!: take_os_string_Inr)

lemma atom_sound_u32 [atom_sounds]:
  "(\<And>raw n. depth_text raw n \<Longrightarrow> pred_words (f n) [t, raw]) \<Longrightarrow>
   atom_sound t c (try_bind (take_u32 flag c) (\<lambda>(n, c'). pred (f n) c'))"
  by (auto simp: atom_sound_def result_simps take_u32_reads dest!: take_os_string_Inr)

lemma atom_sound_type [atom_sounds]:
  "(\<And>n. pred_words (f n) [t, type_letter n]) \<Longrightarrow>
   atom_sound t c (try_bind (take_type_filter_for flag c) (\<lambda>(n, c'). pred (f n) c'))"
  "(\<And>n. pred_words (f n) [t, type_letter n]) \<Longrightarrow>
   atom_sound t c (try_bind (take_type_filter c) (\<lambda>(n, c'). pred (f n) c'))"
  by (auto simp: atom_sound_def take_type_filter_def result_simps take_type_filter_for_reads
      dest!: take_os_string_Inr)

lemma exec_loop_words:
  "exec_loop acc c = Inr ((argv, b), c') \<Longrightarrow>
   \<exists>vs. argv = acc @ vs \<and> '';'' \<notin> set vs \<and> ''+'' \<notin> set vs
     \<and> remaining c = vs @ [if b then ''+'' else '';''] @ remaining c'"
proof (induction acc c rule: exec_loop.induct)
  case (1 acc c)
  then obtain t c1 where b: "cursor_bump c = (Some t, c1)"
    by (subst (asm) (2) exec_loop.simps) (auto split: prod.splits option.splits)
  then have rem: "remaining c = t # remaining c1" by (rule cursor_bump_Some)
  show ?case
  proof (cases "t = '';'' \<or> t = ''+''")
    case True
    with 1(2) b rem show ?thesis
      by (subst (asm) exec_loop.simps) (auto simp: arg_matches_def)
  next
    case False
    then have "exec_loop (acc @ [t]) c1 = Inr ((argv, b), c')"
      using 1(2) b by (subst (asm) exec_loop.simps) (auto simp: arg_matches_def)
    with 1(1) b False obtain vs where "argv = acc @ t # vs" "'';'' \<notin> set vs" "''+'' \<notin> set vs"
      "remaining c1 = vs @ [if b then ''+'' else '';''] @ remaining c'"
      by (auto simp: arg_matches_def)
    with rem False show ?thesis by (intro exI [of _ "t # vs"]) auto
  qed
qed

lemma atom_sound_exec [atom_sounds]:
  assumes "\<And>argv b ws. exec_words t argv b ws \<Longrightarrow>
     action_words (case (chdir, prompt) of (False, False) \<Rightarrow> AcExec argv b | (True, False) \<Rightarrow> AcExecDir argv b
       | (False, True) \<Rightarrow> AcOk argv b | (True, True) \<Rightarrow> AcOkDir argv b) ws"
  shows "atom_sound t c (exec_operand chdir prompt c)"
  unfolding atom_sound_def
proof (intro allI impI)
  fix e c' assume "exec_operand chdir prompt c = Inr (e, c')"
  then obtain argv b where loop: "exec_loop [] c = Inr ((argv, b), c')"
    and e: "e = EAction (case (chdir, prompt) of (False, False) \<Rightarrow> AcExec argv b
       | (True, False) \<Rightarrow> AcExecDir argv b | (False, True) \<Rightarrow> AcOk argv b | (True, True) \<Rightarrow> AcOkDir argv b)"
    by (auto simp: exec_operand_def take_exec_action_def result_simps)
  from exec_loop_words [OF loop] have rem: "remaining c = argv @ [if b then ''+'' else '';''] @ remaining c'"
    and "'';'' \<notin> set argv" "''+'' \<notin> set argv" by auto
  then have "exec_words t argv b (t # argv @ [if b then ''+'' else '';''])" by (simp add: exec_words_def)
  from assms [OF this] rem show "\<exists>vs. remaining c = vs @ remaining c' \<and> atom_words (t # vs) e"
    by (intro exI [of _ "argv @ [if b then ''+'' else '';'']"]) (simp only: e atom_words.simps append_assoc append_Cons simp_thms)
qed

lemma atom_sound_if: "(b \<Longrightarrow> atom_sound t c x) \<Longrightarrow> atom_sound t c y \<Longrightarrow> atom_sound t c (if b then x else y)"
  by simp

lemma atom_sound_newerxy:
  assumes "\<And>x y raw. t = ''-newer'' @ [x, y] \<Longrightarrow> pred_words (f x y raw) [t, raw]" "atom_sound t c r"
  shows "atom_sound t c (case parse_newerxy_flag t of None \<Rightarrow> r | Some (x, y) \<Rightarrow> operand flag c (f x y))"
proof (cases "parse_newerxy_flag t")
  case (Some p)
  then have len: "length t = 8" and tk: "take 6 t = ''-newer''" and p: "p = (t ! 6, t ! 7)"
    by (auto simp: parse_newerxy_flag_def split: if_splits)
  have "drop 6 t = [t ! 6, t ! 7]"
    using len by (simp add: Cons_nth_drop_Suc [symmetric])
  then have "t = ''-newer'' @ [t ! 6, t ! 7]" using append_take_drop_id [of 6 t] tk by simp
  with p Some show ?thesis
    by (simp only: option.case prod.case) (rule atom_sound_operand, rule assms(1))
qed (simp add: assms(2))

lemma atom_of_token_sound: "atom_sound t c (atom_of_token t c)"
  unfolding atom_of_token_def
  by (intro atom_sound_if atom_sound_newerxy atom_sounds) (auto simp: arg_matches_def)

definition spans ::
  "arg_cursor \<Rightarrow> expr parsed option \<Rightarrow> (os_string list \<Rightarrow> expr \<Rightarrow> bool) \<Rightarrow> bool" where
  "spans c r W \<longleftrightarrow>
     (\<forall>e c'. r = Some (Inr (e, c')) \<longrightarrow> (\<exists>vs. remaining c = vs @ remaining c' \<and> W vs e))"

lemma spans_Inr: "W [] e \<Longrightarrow> spans c (Some (Inr (e, c))) W"
  by (simp add: spans_def)

lemma spans_bind:
  assumes "spans c m W" "\<And>vs e c1. W vs e \<Longrightarrow> spans c1 (f e c1) (\<lambda>us. W' (vs @ us))"
  shows "spans c (opt_bind m f) W'"
proof -
  have "\<exists>vs. remaining c = vs @ remaining c2 \<and> W' vs e2" if run: "opt_bind m f = Some (Inr (e2, c2))" for e2 c2
  proof -
    from run obtain e c1 where "m = Some (Inr (e, c1))" "f e c1 = Some (Inr (e2, c2))"
      by (auto simp: opt_bind_def split: option.splits sum.splits)
    with assms(1) obtain vs where "remaining c = vs @ remaining c1" "W vs e" unfolding spans_def by blast
    moreover from assms(2) [OF this(2), of c1] \<open>f e c1 = _\<close> obtain us where
      "remaining c1 = us @ remaining c2" "W' (vs @ us) e2" unfolding spans_def by blast
    ultimately show ?thesis by (intro exI [of _ "vs @ us"]) simp
  qed
  then show ?thesis unfolding spans_def by blast
qed

lemma spans_bump:
  assumes "peek_is c ts" "\<And>t. t \<in> set ts \<Longrightarrow> spans (snd (cursor_bump c)) r (\<lambda>us. W (t # us))"
  shows "spans c r W"
proof -
  from assms(1) obtain t where t: "remaining c = t # remaining (snd (cursor_bump c))" "t \<in> set ts"
    by (auto simp: peek_is_remaining remaining_bump split: list.splits)
  from assms(2) [OF t(2)] show ?thesis unfolding spans_def t(1)
    by (metis append_Cons)
qed

lemma spans_mono: "spans c r W \<Longrightarrow> (\<And>vs e. W vs e \<Longrightarrow> W' vs e) \<Longrightarrow> spans c r W'"
  unfolding spans_def by blast

lemma parse_atom_spans: "spans c (Some (parse_atom c)) primary_words"
  unfolding spans_def
proof (intro allI impI)
  fix e c' assume "Some (parse_atom c) = Some (Inr (e, c'))"
  then obtain t c1 where "cursor_bump c = (Some t, c1)" "atom_of_token t c1 = Inr (e, c')"
    by (auto simp: parse_atom_def split: prod.splits option.splits)
  with atom_of_token_sound [of t c1] cursor_bump_Some [of c t c1] show
    "\<exists>vs. remaining c = vs @ remaining c' \<and> primary_words vs e"
    unfolding atom_sound_def by (metis append_Cons primary_atom)
qed

definition sound_claim :: "nat \<Rightarrow> bool" where
  "sound_claim n \<longleftrightarrow>
     (\<forall>c. spans c (parse_or_expression n c) or_words) \<and>
     (\<forall>l c ws. or_words ws l \<longrightarrow> spans c (or_loop n l c) (\<lambda>vs. or_words (ws @ vs))) \<and>
     (\<forall>c. spans c (parse_and_expression n c) and_words) \<and>
     (\<forall>es c ws. conj_words ws es \<longrightarrow> spans c (and_loop n es c) (\<lambda>vs. and_words (ws @ vs))) \<and>
     (\<forall>c. spans c (parse_not_expression n c) not_words) \<and>
     (\<forall>c. spans c (parse_primary n c) primary_words)"

lemma sound_step_or:
  assumes "sound_claim n"
  shows "spans c (parse_or_expression (Suc n) c) or_words"
    "or_words ws l \<Longrightarrow> spans c (or_loop (Suc n) l c) (\<lambda>vs. or_words (ws @ vs))"
proof -
  show "spans c (parse_or_expression (Suc n) c) or_words"
    unfolding parse_or_expression.simps
    by (rule spans_bind [where W = and_words]) (use assms or_one in \<open>auto simp: sound_claim_def\<close>)
next
  assume l: "or_words ws l"
  show "spans c (or_loop (Suc n) l c) (\<lambda>vs. or_words (ws @ vs))"
  proof (cases "peek_is c [''-o'', ''-or'']")
    case True
    have "spans c (opt_bind (parse_and_expression n (snd (cursor_bump c)))
        (\<lambda>r c'. or_loop n (EOr l r) c')) (\<lambda>vs. or_words (ws @ vs))"
    proof (rule spans_bump [OF True], rule spans_bind [where W = and_words])
      fix t vs e c1 assume "t \<in> set [''-o'', ''-or'']" "and_words vs e"
      with l have "or_words (ws @ t # vs) (EOr l e)" by (intro or_more) auto
      with assms show "spans c1 (or_loop n (EOr l e) c1) (\<lambda>us. or_words (ws @ t # vs @ us))"
        unfolding sound_claim_def by fastforce
    qed (use assms in \<open>simp add: sound_claim_def\<close>)
    with True show ?thesis by simp
  qed (use l in \<open>simp add: spans_Inr\<close>)
qed

lemma conj_words_nonempty: "conj_words ws es \<Longrightarrow> es \<noteq> []"
  by (erule conj_words.cases) auto

lemma and_words_of_conj:
  assumes "conj_words ws es"
  shows "and_words ws (if length es = 1 then hd es else EAnd es)"
proof (cases "length es = 1")
  case True
  with assms and_one [of ws "hd es"] show ?thesis by (cases es) auto
next
  case False
  with conj_words_nonempty [OF assms] have "2 \<le> length es" by (cases es; cases "tl es") auto
  with assms False show ?thesis by (simp add: and_more)
qed

lemma sound_step_and:
  assumes "sound_claim n"
  shows "spans c (parse_and_expression (Suc n) c) and_words"
    "conj_words ws es \<Longrightarrow> spans c (and_loop (Suc n) es c) (\<lambda>vs. and_words (ws @ vs))"
proof -
  show "spans c (parse_and_expression (Suc n) c) and_words"
    unfolding parse_and_expression.simps
    by (rule spans_bind [where W = not_words]) (use assms conj_one in \<open>auto simp: sound_claim_def\<close>)
next
  assume es: "conj_words ws es"
  have loop: "spans c1 (and_loop n (es @ [e]) c1) (\<lambda>us. and_words (ws @ vs @ us))"
    if "conj_words (ws @ vs) (es @ [e])" for vs e c1
    using assms that unfolding sound_claim_def by fastforce
  consider "peek_is c [''-a'', ''-and'']" | "\<not> peek_is c [''-a'', ''-and'']" "starts_primary c"
    | "\<not> peek_is c [''-a'', ''-and'']" "\<not> starts_primary c" by blast
  then show "spans c (and_loop (Suc n) es c) (\<lambda>vs. and_words (ws @ vs))"
  proof cases
    case 1
    have "spans c (opt_bind (parse_not_expression n (snd (cursor_bump c)))
        (\<lambda>e c'. and_loop n (es @ [e]) c')) (\<lambda>vs. and_words (ws @ vs))"
    proof (rule spans_bump [OF 1], rule spans_bind [where W = not_words])
      fix t vs e c1 assume "t \<in> set [''-a'', ''-and'']" "not_words vs e"
      then show "spans c1 (and_loop n (es @ [e]) c1) (\<lambda>us. and_words (ws @ t # vs @ us))"
        using loop [of "t # vs" e c1] conj_and [OF es] by simp
    qed (use assms in \<open>simp add: sound_claim_def\<close>)
    with 1 show ?thesis by simp
  next
    case 2
    have "spans c (opt_bind (parse_not_expression n c) (\<lambda>e c'. and_loop n (es @ [e]) c'))
        (\<lambda>vs. and_words (ws @ vs))"
      by (rule spans_bind [where W = not_words]) (use assms loop conj_next [OF es] in \<open>auto simp: sound_claim_def\<close>)
    with 2 show ?thesis by simp
  next
    case 3
    with and_words_of_conj [OF es] show ?thesis by (simp add: spans_Inr)
  qed
qed

lemma sound_step_not:
  assumes "sound_claim n"
  shows "spans c (parse_not_expression (Suc n) c) not_words"
proof (cases "peek_is c [''!'', ''-not'']")
  case True
  have "spans c (opt_bind (parse_not_expression n (snd (cursor_bump c)))
      (\<lambda>e c'. Some (Inr (ENot e, c')))) not_words"
    by (rule spans_bump [OF True], rule spans_bind [where W = not_words])
      (use assms in \<open>auto simp: sound_claim_def intro!: spans_Inr not_not\<close>)
  with True show ?thesis by simp
next
  case False
  from assms have "spans c (parse_primary n c) primary_words" by (simp add: sound_claim_def)
  with False show ?thesis by (simp add: spans_mono not_primary)
qed

lemma sound_step_primary:
  assumes "sound_claim n"
  shows "spans c (parse_primary (Suc n) c) primary_words"
proof (cases "peek_is c [''('']")
  case True
  let ?close = "Some (Inl (diagnostic_parse ''expected `)` to close group''))"
  have "spans c (opt_bind (parse_or_expression n (snd (cursor_bump c)))
      (\<lambda>e c'. case cursor_bump c' of
             (Some token, c'') \<Rightarrow> if arg_matches token '')'' then Some (Inr (e, c'')) else ?close
           | (None, _) \<Rightarrow> ?close)) primary_words"
  proof (rule spans_bump [OF True], rule spans_bind [where W = or_words])
    fix t vs e c1 assume "t \<in> set [''('']" "or_words vs e"
    then show "spans c1 (case cursor_bump c1 of
             (Some token, c'') \<Rightarrow> if arg_matches token '')'' then Some (Inr (e, c'')) else ?close
           | (None, _) \<Rightarrow> ?close) (\<lambda>us. primary_words (t # vs @ us))"
      by (auto simp: spans_def arg_matches_def split: prod.splits option.splits
          dest!: cursor_bump_Some intro!: exI [of _ "['')'']"] primary_group)
  qed (use assms in \<open>simp add: sound_claim_def\<close>)
  with True show ?thesis by simp
next
  case False
  with parse_atom_spans [of c] show ?thesis by (simp add: spans_def)
qed

lemma sound_claim_all: "sound_claim n"
proof (induction n)
  case 0
  show ?case by (simp add: sound_claim_def spans_def)
next
  case (Suc n)
  show ?case unfolding sound_claim_def
    by (intro conjI allI impI sound_step_or [OF Suc] sound_step_and [OF Suc]
        sound_step_not [OF Suc] sound_step_primary [OF Suc])
qed

lemma parse_or_expression_spans: "spans c (parse_or_expression n c) or_words"
  using sound_claim_all [of n] by (simp add: sound_claim_def)

section \<open>Every command of the language is parsed\<close>

definition reads :: "expr parsed \<Rightarrow> expr \<Rightarrow> os_string list \<Rightarrow> bool" where
  "reads r e rest \<longleftrightarrow> (\<exists>c'. r = Inr (e, c') \<and> remaining c' = rest)"

named_theorems reads_simps \<open>what the operand readers read\<close>

lemma reads_Inr [reads_simps]: "reads (Inr (e', c)) e rest \<longleftrightarrow> e' = e \<and> remaining c = rest"
  by (auto simp: reads_def)

lemma reads_operand [reads_simps]:
  "remaining c = raw # rest \<Longrightarrow> reads (operand flag c f) e rest' \<longleftrightarrow> e = EPredicate (f raw) \<and> rest' = rest"
  using take_os_string_Cons [of c raw rest flag] by (auto simp: reads_def operand_def)

lemma reads_numeric [reads_simps]:
  "remaining c = raw # rest \<Longrightarrow> count_text raw \<Longrightarrow>
   reads (numeric_operand flag c f) e rest' \<longleftrightarrow> e = EPredicate (f raw) \<and> rest' = rest"
  using take_os_string_Cons [of c raw rest flag] validate_numeric_text [of flag raw]
  by (auto simp: reads_def numeric_operand_def)

lemma reads_timed [reads_simps]:
  "remaining c = raw # rest \<Longrightarrow> time_text raw \<Longrightarrow>
   reads (timed_operand flag c f) e rest' \<longleftrightarrow> e = EPredicate (f raw) \<and> rest' = rest"
  using take_os_string_Cons [of c raw rest flag] validate_time_text [of flag raw]
  by (auto simp: reads_def timed_operand_def)

lemma reads_action [reads_simps]:
  "remaining c = raw # rest \<Longrightarrow>
   reads (action_operand flag c f) e rest' \<longleftrightarrow> e = EAction (f raw) \<and> rest' = rest"
  using take_os_string_Cons [of c raw rest flag] by (auto simp: reads_def action_operand_def)

lemma reads_action2 [reads_simps]:
  "remaining c = p # raw # rest \<Longrightarrow>
   reads (try_bind (take_os_string flag c) (\<lambda>(p, c'). action_operand flag' c' (f p))) e rest'
   \<longleftrightarrow> e = EAction (f p raw) \<and> rest' = rest"
  using take_os_string_Cons [of c p "raw # rest" flag] by (auto simp: reads_action)

lemma reads_u32 [reads_simps]:
  assumes "remaining c = raw # rest" "depth_text raw n"
  shows "reads (try_bind (take_u32 flag c) (\<lambda>(n, c'). pred (f n) c')) e rest'
    \<longleftrightarrow> e = EPredicate (f n) \<and> rest' = rest"
proof -
  obtain c' where c': "take_os_string flag c = Inr (raw, c')" "remaining c' = rest"
    using take_os_string_Cons [OF assms(1)] by blast
  then have "take_u32 flag c = Inr (n, c')" using assms(2) by (auto simp: take_u32_reads)
  with c'(2) show ?thesis by (auto simp: reads_def)
qed

lemma reads_type [reads_simps]:
  assumes "remaining c = type_letter t # rest"
  shows "reads (try_bind (take_type_filter_for flag c) (\<lambda>(n, c'). pred (f n) c')) e rest'
      \<longleftrightarrow> e = EPredicate (f t) \<and> rest' = rest"
    "reads (try_bind (take_type_filter c) (\<lambda>(n, c'). pred (f n) c')) e rest'
      \<longleftrightarrow> e = EPredicate (f t) \<and> rest' = rest"
proof -
  have "\<exists>c'. take_type_filter_for flag c = Inr (t, c') \<and> remaining c' = rest" for flag
    using take_os_string_Cons [OF assms, of flag] by (simp add: take_type_filter_for_reads)
  from this [of flag] this [of "''-type''"] show
    "reads (try_bind (take_type_filter_for flag c) (\<lambda>(n, c'). pred (f n) c')) e rest'
      \<longleftrightarrow> e = EPredicate (f t) \<and> rest' = rest"
    "reads (try_bind (take_type_filter c) (\<lambda>(n, c'). pred (f n) c')) e rest'
      \<longleftrightarrow> e = EPredicate (f t) \<and> rest' = rest"
    by (auto simp: reads_def take_type_filter_def)
qed

lemma exec_loop_reads:
  "remaining c = argv @ [if b then ''+'' else '';''] @ rest \<Longrightarrow> '';'' \<notin> set argv \<Longrightarrow> ''+'' \<notin> set argv \<Longrightarrow>
   \<exists>c'. exec_loop acc c = Inr ((acc @ argv, b), c') \<and> remaining c' = rest"
proof (induction argv arbitrary: acc c)
  case Nil
  then obtain c' where "cursor_bump c = (Some (if b then ''+'' else '';''), c')" "remaining c' = rest"
    using cursor_bump_remaining(2) by fastforce
  then show ?case by (subst exec_loop.simps) (auto simp: arg_matches_def)
next
  case (Cons t argv)
  then obtain c1 where b: "cursor_bump c = (Some t, c1)"
    and r: "remaining c1 = argv @ [if b then ''+'' else '';''] @ rest"
    using cursor_bump_remaining(2) by fastforce
  from Cons.IH [OF r, of "acc @ [t]"] Cons.prems(2,3) b show ?case
    by (subst exec_loop.simps) (auto simp: arg_matches_def)
qed

lemma reads_exec:
  assumes "exec_words flag argv b ws" "remaining c = tl ws @ rest"
  shows "reads (exec_operand False False c) (EAction (AcExec argv b)) rest"
    "reads (exec_operand True False c) (EAction (AcExecDir argv b)) rest"
    "reads (exec_operand False True c) (EAction (AcOk argv b)) rest"
    "reads (exec_operand True True c) (EAction (AcOkDir argv b)) rest"
  using assms exec_loop_reads [of c argv b rest "[]"]
  by (auto simp: reads_def exec_operand_def take_exec_action_def exec_words_def)

lemmas token_simps = atom_of_token_def arg_matches_def parse_newerxy_flag_def

lemma atom_reads_ci:
  assumes "remaining c = raw # rest"
  shows "reads (atom_of_token (if ci then ''-iname'' else ''-name'') c) (EPredicate (PrName raw ci)) rest"
    "reads (atom_of_token (if ci then ''-ipath'' else ''-path'') c) (EPredicate (PrPath raw ci)) rest"
    "reads (atom_of_token (if ci then ''-iwholename'' else ''-wholename'') c) (EPredicate (PrPath raw ci)) rest"
    "reads (atom_of_token (if ci then ''-iregex'' else ''-regex'') c) (EPredicate (PrRegex raw ci)) rest"
    "reads (atom_of_token (if ci then ''-ilname'' else ''-lname'') c) (EPredicate (PrLName raw ci)) rest"
  by (cases ci; simp add: token_simps reads_operand [OF assms])+

lemma atom_reads_newerxy:
  assumes "remaining c = raw # rest"
  shows "reads (atom_of_token (''-newer'' @ [x, y]) c) (EPredicate (PrNewerXY x y raw)) rest"
  by (simp add: token_simps reads_operand [OF assms])

lemma pred_reads:
  assumes "pred_words p ws" "remaining c = tl ws @ rest"
  shows "reads (atom_of_token (hd ws) c) (EPredicate p) rest"
proof (cases p)
  case (PrName raw ci)
  with assms show ?thesis using atom_reads_ci(1) [of c raw rest ci] by simp
next
  case (PrPath raw ci)
  with assms show ?thesis using atom_reads_ci(2,3) [of c raw rest ci] by auto
next
  case (PrRegex raw ci)
  with assms show ?thesis using atom_reads_ci(4) [of c raw rest ci] by simp
next
  case (PrLName raw ci)
  with assms show ?thesis using atom_reads_ci(5) [of c raw rest ci] by simp
next
  case (PrNewerXY x y raw)
  with assms show ?thesis using atom_reads_newerxy [of c raw rest x y] by simp
next
  case PrXDev
  with assms(1) have "ws = [''-xdev''] \<or> ws = [''-mount'']" by simp
  then show ?thesis using assms(2) PrXDev by (elim disjE) (simp_all add: token_simps reads_simps)
next
  case (PrMaxDepth n)
  with assms(1) obtain t where "ws = [''-maxdepth'', t]" "depth_text t n" by auto
  then show ?thesis using assms(2) PrMaxDepth by (simp add: token_simps reads_simps)
next
  case (PrMinDepth n)
  with assms(1) obtain t where "ws = [''-mindepth'', t]" "depth_text t n" by auto
  then show ?thesis using assms(2) PrMinDepth by (simp add: token_simps reads_simps)
qed (use assms in \<open>simp add: token_simps reads_simps\<close>)+

lemma action_reads:
  assumes "action_words a ws" "remaining c = tl ws @ rest"
  shows "reads (atom_of_token (hd ws) c) (EAction a) rest"
proof -
  have hd_exec: "exec_words flag argv b ws \<Longrightarrow> hd ws = flag" for flag argv b
    by (simp add: exec_words_def)
  show ?thesis
    using assms by (cases a) (simp_all add: token_simps reads_simps reads_exec hd_exec)
qed

lemma atom_reads:
  "atom_words ws e \<Longrightarrow> remaining c = tl ws @ rest \<Longrightarrow> reads (atom_of_token (hd ws) c) e rest"
  by (cases e) (simp_all add: pred_reads action_reads)

text \<open>First words: what tells the loops of the parser whether to go on.\<close>

definition flag_word :: "os_string list \<Rightarrow> bool" where
  "flag_word ws \<longleftrightarrow> ws \<noteq> [] \<and> arg_starts_with_dash (hd ws)
     \<and> hd ws \<notin> {''-a'', ''-and'', ''-o'', ''-or'', ''-not'', ''-P'', ''-H'', ''-L'', ''-version'', ''--version''}"

lemma pred_words_first: "pred_words p ws \<Longrightarrow> flag_word ws"
  by (cases p) (auto simp: flag_word_def arg_starts_with_dash_def split: if_splits)

lemma action_words_first: "action_words a ws \<Longrightarrow> flag_word ws"
  by (cases a) (auto simp: exec_words_def flag_word_def arg_starts_with_dash_def)

lemma atom_words_first: "atom_words ws e \<Longrightarrow> flag_word ws"
  by (cases e) (simp_all add: pred_words_first action_words_first)

lemma dash_token: "arg_starts_with_dash t \<longleftrightarrow> (\<exists>u. t = CHR ''-'' # u)"
  by (cases t) (auto simp: arg_starts_with_dash_def slice_get_def)

definition first_ok :: "os_string list \<Rightarrow> bool" where
  "first_ok ws \<longleftrightarrow>
     (\<exists>t vs. ws = t # vs \<and> expression_token t
        \<and> t \<notin> {'')'', ''-a'', ''-and'', ''-o'', ''-or'', ''-P'', ''-H'', ''-L'', ''-version'', ''--version''})"

lemma first_ok_simps [simp]:
  "\<not> first_ok []"
  "first_ok (t # vs) \<longleftrightarrow> expression_token t
     \<and> t \<notin> {'')'', ''-a'', ''-and'', ''-o'', ''-or'', ''-P'', ''-H'', ''-L'', ''-version'', ''--version''}"
  by (auto simp: first_ok_def)

lemma first_ok_append: "first_ok ws \<Longrightarrow> first_ok (ws @ vs)"
  by (cases ws) auto

lemma words_first:
  "or_words ws e \<Longrightarrow> first_ok ws"
  "and_words ws e \<Longrightarrow> first_ok ws"
  "conj_words ws es \<Longrightarrow> first_ok ws"
  "not_words ws e \<Longrightarrow> first_ok ws"
  "primary_words ws e \<Longrightarrow> first_ok ws"
proof (induction rule: or_words_and_words_conj_words_not_words_primary_words.inducts)
  case (primary_atom ws e)
  from atom_words_first [OF this] show ?case
    by (cases ws) (auto simp: flag_word_def dash_token expression_token_def)
qed (auto simp: first_ok_append expression_token_def)

definition reads_opt :: "expr parsed option \<Rightarrow> expr \<Rightarrow> os_string list \<Rightarrow> bool" where
  "reads_opt r e rest \<longleftrightarrow> (\<exists>c'. r = Some (Inr (e, c')) \<and> remaining c' = rest)"

definition stops :: "os_string list \<Rightarrow> bool" where
  "stops rest \<longleftrightarrow> rest = [] \<or> hd rest = '')''"

definition and_stops :: "os_string list \<Rightarrow> bool" where
  "and_stops rest \<longleftrightarrow> rest = [] \<or> hd rest \<in> {'')'', ''-o'', ''-or''}"

lemma stops_and_stops: "stops rest \<Longrightarrow> and_stops rest"
  by (auto simp: stops_def and_stops_def)

lemma and_loop_stops:
  assumes "and_stops (remaining c)" "0 < n"
  shows "and_loop n items c = Some (Inr (if length items = 1 then hd items else EAnd items, c))"
proof -
  have "\<not> peek_is c [''-a'', ''-and''] \<and> \<not> starts_primary c"
    using assms(1)
    by (cases "remaining c") (auto simp: and_stops_def peek_is_remaining starts_primary_remaining)
  then show ?thesis using assms(2) by (cases n) simp_all
qed

lemma or_loop_stops:
  assumes "stops (remaining c)" "0 < n"
  shows "or_loop n l c = Some (Inr (l, c))"
proof -
  have "\<not> peek_is c [''-o'', ''-or'']"
    using assms(1) by (cases "remaining c") (auto simp: stops_def peek_is_remaining)
  then show ?thesis using assms(2) by (cases n) simp_all
qed

text \<open>
  What each phrase of the grammar makes of the tokens in front of it.  A disjunction and a
  conjunction leave the parser in its loop, ready to go on.
\<close>

definition or_reads :: "os_string list \<Rightarrow> expr \<Rightarrow> bool" where
  "or_reads ws e \<longleftrightarrow> (\<forall>rest c n. remaining c = ws @ rest \<longrightarrow> and_stops rest \<longrightarrow> 5 * left c + 4 \<le> n \<longrightarrow>
     (\<exists>c' m. parse_or_expression n c = or_loop m e c' \<and> remaining c' = rest \<and> 5 * left c' + 1 \<le> m))"

definition and_reads :: "os_string list \<Rightarrow> expr \<Rightarrow> bool" where
  "and_reads ws e \<longleftrightarrow> (\<forall>rest c n. remaining c = ws @ rest \<longrightarrow> and_stops rest \<longrightarrow> 5 * left c + 3 \<le> n \<longrightarrow>
     reads_opt (parse_and_expression n c) e rest)"

definition conj_reads :: "os_string list \<Rightarrow> expr list \<Rightarrow> bool" where
  "conj_reads ws es \<longleftrightarrow> (\<forall>rest c n. remaining c = ws @ rest \<longrightarrow> 5 * left c + 3 \<le> n \<longrightarrow>
     (\<exists>c' m. parse_and_expression n c = and_loop m es c' \<and> remaining c' = rest \<and> 5 * left c' + 3 \<le> m))"

definition not_reads :: "os_string list \<Rightarrow> expr \<Rightarrow> bool" where
  "not_reads ws e \<longleftrightarrow> (\<forall>rest c n. remaining c = ws @ rest \<longrightarrow> 5 * left c + 2 \<le> n \<longrightarrow>
     reads_opt (parse_not_expression n c) e rest)"

lemma not_reads_atom:
  assumes "atom_words ws e"
  shows "not_reads ws e"
  unfolding not_reads_def
proof (intro allI impI)
  fix rest c n assume rem: "remaining c = ws @ rest" and n: "5 * left c + 2 \<le> n"
  obtain u ts where ts: "ws = (CHR ''-'' # u) # ts" and u: "u \<noteq> ''not''"
    using atom_words_first [OF assms] by (cases ws) (auto simp: flag_word_def dash_token)
  then obtain c1 where b: "cursor_bump c = (Some (CHR ''-'' # u), c1)" and r: "remaining c1 = ts @ rest"
    using cursor_bump_remaining(2) [of c "CHR ''-'' # u" "ts @ rest"] rem by auto
  have "reads (parse_atom c) e rest"
    using atom_reads [OF assms, of c1 rest] r b ts by (simp add: parse_atom_def)
  moreover obtain m where "n = Suc (Suc m)" using n by (cases n; cases "n - 1") auto
  ultimately show "reads_opt (parse_not_expression n c) e rest"
    using rem ts u by (auto simp: reads_opt_def reads_def peek_is_remaining)
qed

lemma or_reads_end:
  assumes "or_reads ws e" "remaining c = ws @ rest" "stops rest" "5 * left c + 4 \<le> n"
  shows "reads_opt (parse_or_expression n c) e rest"
proof -
  obtain c' m where "parse_or_expression n c = or_loop m e c'" "remaining c' = rest" "5 * left c' + 1 \<le> m"
    using assms stops_and_stops unfolding or_reads_def by blast
  with assms(3) or_loop_stops [of c' m e] show ?thesis by (simp add: reads_opt_def)
qed

lemma not_reads_group:
  assumes "or_reads ws e"
  shows "not_reads (''('' # ws @ ['')'']) e"
  unfolding not_reads_def
proof (intro allI impI)
  fix rest c n assume rem: "remaining c = (''('' # ws @ ['')'']) @ rest" and n: "5 * left c + 2 \<le> n"
  let ?c = "snd (cursor_bump c)"
  have r: "remaining ?c = ws @ '')'' # rest" using rem by (simp add: remaining_bump)
  have "left c = Suc (left ?c)" using rem r by simp
  then obtain m where m: "n = Suc (Suc m)" "5 * left ?c + 4 \<le> m"
    using n by (cases n; cases "n - 1") auto
  obtain c' where c': "parse_or_expression m ?c = Some (Inr (e, c'))" "remaining c' = '')'' # rest"
    using or_reads_end [OF assms r _ m(2)] by (auto simp: reads_opt_def stops_def)
  then obtain c'' where "cursor_bump c' = (Some '')'', c'')" "remaining c'' = rest"
    using cursor_bump_remaining(2) by blast
  with c' show "reads_opt (parse_not_expression n c) e rest"
    using rem by (auto simp: m(1) reads_opt_def peek_is_remaining arg_matches_def)
qed

lemma not_reads_not:
  assumes "t \<in> {''!'', ''-not''}" "not_reads ws e"
  shows "not_reads (t # ws) (ENot e)"
  unfolding not_reads_def
proof (intro allI impI)
  fix rest c n assume rem: "remaining c = (t # ws) @ rest" and n: "5 * left c + 2 \<le> n"
  let ?c = "snd (cursor_bump c)"
  have r: "remaining ?c = ws @ rest" using rem by (simp add: remaining_bump)
  obtain m where m: "n = Suc m" "5 * left ?c + 2 \<le> m" using n rem r by (cases n) auto
  with assms(2) r have "reads_opt (parse_not_expression m ?c) e rest" unfolding not_reads_def by blast
  moreover have "peek_is c [''!'', ''-not'']" using rem assms(1) by (auto simp: peek_is_remaining)
  ultimately show "reads_opt (parse_not_expression n c) (ENot e) rest"
    by (auto simp: m(1) reads_opt_def)
qed

lemma conj_reads_one:
  assumes "not_reads ws e" "first_ok ws"
  shows "conj_reads ws [e]"
  unfolding conj_reads_def
proof (intro allI impI)
  fix rest c n assume rem: "remaining c = ws @ rest" and n: "5 * left c + 3 \<le> n"
  obtain m where m: "n = Suc m" "5 * left c + 2 \<le> m" using n by (cases n) auto
  with assms(1) rem obtain c' where c': "parse_not_expression m c = Some (Inr (e, c'))" "remaining c' = rest"
    unfolding not_reads_def reads_opt_def by blast
  have "left c' < left c" using assms(2) rem c'(2) by (cases ws) auto
  with c' m show "\<exists>c' m. parse_and_expression n c = and_loop m [e] c' \<and> remaining c' = rest \<and> 5 * left c' + 3 \<le> m"
    by (intro exI [of _ c'] exI [of _ m]) simp
qed

lemma and_loop_step:
  assumes "not_reads vs e" "first_ok vs" "5 * left c + 3 \<le> n"
    and "remaining c = vs @ rest \<or> (\<exists>t\<in>{''-a'', ''-and''}. remaining c = t # vs @ rest)"
  shows "\<exists>c' m. and_loop n es c = and_loop m (es @ [e]) c' \<and> remaining c' = rest \<and> 5 * left c' + 3 \<le> m"
proof -
  obtain m where m: "n = Suc m" "5 * left c + 2 \<le> m" using assms(3) by (cases n) auto
  define c1 where "c1 = (if peek_is c [''-a'', ''-and''] then snd (cursor_bump c) else c)"
  obtain t us where vs: "vs = t # us" "t \<notin> {'')'', ''-a'', ''-and'', ''-o'', ''-or''}"
    using assms(2) by (cases vs) auto
  have c1: "remaining c1 = vs @ rest" "left c1 \<le> left c"
    and step: "and_loop n es c = opt_bind (parse_not_expression m c1) (\<lambda>e c'. and_loop m (es @ [e]) c')"
    using assms(4) vs by (auto simp: m(1) c1_def peek_is_remaining starts_primary_remaining remaining_bump)
  have "5 * left c1 + 2 \<le> m" using m(2) c1(2) by linarith
  with assms(1) c1(1) obtain c' where c': "parse_not_expression m c1 = Some (Inr (e, c'))" "remaining c' = rest"
    unfolding not_reads_def reads_opt_def by blast
  have "left c' < left c1" using c1(1) c'(2) vs by simp
  with step c' m c1(2) show ?thesis by (intro exI [of _ c'] exI [of _ m]) simp
qed

lemma conj_reads_next:
  assumes "conj_reads ws es" "not_reads vs e" "first_ok vs" "t \<in> {''-a'', ''-and''}"
  shows "conj_reads (ws @ vs) (es @ [e])" "conj_reads (ws @ t # vs) (es @ [e])"
proof -
  have "\<exists>c' m. parse_and_expression n c = and_loop m (es @ [e]) c' \<and> remaining c' = rest \<and> 5 * left c' + 3 \<le> m"
    if rem: "remaining c = ws @ us @ rest" and us: "us = vs \<or> us = t # vs" and n: "5 * left c + 3 \<le> n"
    for us rest c n
  proof -
    obtain c1 m where c1: "parse_and_expression n c = and_loop m es c1" "remaining c1 = us @ rest" "5 * left c1 + 3 \<le> m"
      using assms(1) rem n unfolding conj_reads_def by blast
    from and_loop_step [OF assms(2,3) c1(3), of rest es] c1(1,2) us assms(4) show ?thesis by auto
  qed
  then show "conj_reads (ws @ vs) (es @ [e])" "conj_reads (ws @ t # vs) (es @ [e])"
    unfolding conj_reads_def by (metis append.assoc append_Cons)+
qed

lemma and_reads_conj:
  assumes "conj_reads ws es"
  shows "and_reads ws (if length es = 1 then hd es else EAnd es)"
  unfolding and_reads_def
proof (intro allI impI)
  fix rest c n assume "remaining c = ws @ rest" "and_stops rest" "5 * left c + 3 \<le> n"
  moreover from this obtain c' m where "parse_and_expression n c = and_loop m es c'" "remaining c' = rest" "5 * left c' + 3 \<le> m"
    using assms unfolding conj_reads_def by blast
  ultimately show "reads_opt (parse_and_expression n c) (if length es = 1 then hd es else EAnd es) rest"
    using and_loop_stops [of c' m es] by (simp add: reads_opt_def)
qed

lemma or_reads_one:
  assumes "and_reads ws e" "first_ok ws"
  shows "or_reads ws e"
  unfolding or_reads_def
proof (intro allI impI)
  fix rest c n assume rem: "remaining c = ws @ rest" and rest: "and_stops rest" and n: "5 * left c + 4 \<le> n"
  obtain m where m: "n = Suc m" "5 * left c + 3 \<le> m" using n by (cases n) auto
  with assms(1) rem rest obtain c' where c': "parse_and_expression m c = Some (Inr (e, c'))" "remaining c' = rest"
    unfolding and_reads_def reads_opt_def by blast
  have "left c' < left c" using assms(2) rem c'(2) by (cases ws) auto
  with c' m show "\<exists>c' m. parse_or_expression n c = or_loop m e c' \<and> remaining c' = rest \<and> 5 * left c' + 1 \<le> m"
    by (intro exI [of _ c'] exI [of _ m]) simp
qed

lemma or_reads_more:
  assumes "or_reads ws l" "t \<in> {''-o'', ''-or''}" "and_reads vs r"
  shows "or_reads (ws @ t # vs) (EOr l r)"
  unfolding or_reads_def
proof (intro allI impI)
  fix rest c n assume rem: "remaining c = (ws @ t # vs) @ rest" and rest: "and_stops rest" and n: "5 * left c + 4 \<le> n"
  have "remaining c = ws @ t # vs @ rest" "and_stops (t # vs @ rest)"
    using rem assms(2) by (simp_all add: and_stops_def)
  with n assms(1) obtain c1 m where c1: "parse_or_expression n c = or_loop m l c1"
    "remaining c1 = t # vs @ rest" "5 * left c1 + 1 \<le> m" unfolding or_reads_def by blast
  let ?c = "snd (cursor_bump c1)"
  have r: "remaining ?c = vs @ rest" using c1(2) by (simp add: remaining_bump)
  have lt: "left c1 = Suc (left ?c)" using c1(2) r by simp
  then obtain k where k: "m = Suc k" "5 * left ?c + 3 \<le> k" using c1(3) by (cases m) auto
  with assms(3) r rest obtain c2 where c2: "parse_and_expression k ?c = Some (Inr (r, c2))" "remaining c2 = rest"
    unfolding and_reads_def reads_opt_def by blast
  have "left c2 \<le> left ?c" using r c2(2) by simp
  moreover have "peek_is c1 [''-o'', ''-or'']" using c1(2) assms(2) by (auto simp: peek_is_remaining)
  ultimately show "\<exists>c' m. parse_or_expression n c = or_loop m (EOr l r) c' \<and> remaining c' = rest \<and> 5 * left c' + 1 \<le> m"
    using c1(1) c2 k lt by (intro exI [of _ c2] exI [of _ k]) simp
qed

lemma words_read:
  "or_words ws e \<Longrightarrow> or_reads ws e"
  "and_words ws e \<Longrightarrow> and_reads ws e"
  "conj_words ws es \<Longrightarrow> conj_reads ws es"
  "not_words ws e \<Longrightarrow> not_reads ws e"
  "primary_words ws e \<Longrightarrow> not_reads ws e"
proof (induction rule: or_words_and_words_conj_words_not_words_primary_words.inducts)
  case (or_one ws e)
  then show ?case by (intro or_reads_one words_first)
next
  case (and_one ws e)
  then show ?case using and_reads_conj [of ws "[e]"] by simp
next
  case (and_more ws es)
  then show ?case using and_reads_conj [of ws es] by simp
next
  case (conj_one ws e)
  then show ?case by (intro conj_reads_one words_first)
next
  case (conj_next ws es vs e)
  then show ?case using conj_reads_next(1) [of ws es vs e "''-a''"] words_first(4) by simp
next
  case (conj_and ws es t vs e)
  then show ?case by (intro conj_reads_next(2) words_first)
qed (simp_all add: or_reads_more not_reads_not not_reads_group not_reads_atom)

section \<open>Options and start paths\<close>

lemma parse_global_option_word: "parse_global_option t = Some opt \<longleftrightarrow> option_word t opt"
  by (cases "(t, opt)" rule: option_word.cases) (auto simp: parse_global_option_def arg_matches_def)

lemma is_expression_start_token: "is_expression_start t \<longleftrightarrow> expression_token t"
  by (auto simp: is_expression_start_def expression_token_def arg_matches_def dash_token)

lemma option_word_token: "option_word t opt \<Longrightarrow> expression_token t"
  by (cases "(t, opt)" rule: option_word.cases) (auto simp: expression_token_def)

lemma take_global_options_split:
  "take_global_options argv = (opts, rest) \<longleftrightarrow>
   (\<exists>os. argv = os @ rest \<and> list_all2 option_word os opts
      \<and> (rest \<noteq> [] \<longrightarrow> (\<forall>opt. \<not> option_word (hd rest) opt)))"
proof (induction argv arbitrary: opts)
  case (Cons t argv)
  show ?case
  proof (cases "parse_global_option t")
    case None
    then have no: "\<not> option_word t opt" for opt by (simp flip: parse_global_option_word)
    have "os = []" if "t # argv = os @ rest" "list_all2 option_word os opts" for os
      using that no by (cases os) (auto simp: list_all2_Cons1)
    with None no show ?thesis by (auto simp: list_all2_Nil)
  next
    case (Some opt)
    then have opt: "option_word t opt' \<longleftrightarrow> opt' = opt" for opt'
      using parse_global_option_word [of t opt'] by auto
    have "take_global_options (t # argv) = (opts, rest) \<longleftrightarrow>
        (\<exists>opts'. opts = opt # opts' \<and> take_global_options argv = (opts', rest))"
      using Some by (auto split: prod.splits)
    also have "\<dots> \<longleftrightarrow> (\<exists>os. t # argv = os @ rest \<and> list_all2 option_word os opts
      \<and> (rest \<noteq> [] \<longrightarrow> (\<forall>opt. \<not> option_word (hd rest) opt)))" (is "?l \<longleftrightarrow> ?r")
    proof
      assume ?l
      then obtain opts' os where "opts = opt # opts'" "argv = os @ rest" "list_all2 option_word os opts'"
        "rest \<noteq> [] \<longrightarrow> (\<forall>opt. \<not> option_word (hd rest) opt)" using Cons.IH by blast
      with opt show ?r by (intro exI [of _ "t # os"]) simp
    next
      assume ?r
      then obtain os where os: "t # argv = os @ rest" "list_all2 option_word os opts"
        "rest \<noteq> [] \<longrightarrow> (\<forall>opt. \<not> option_word (hd rest) opt)" by blast
      then show ?l using opt Cons.IH by (cases os) (auto simp: list_all2_Cons1)
    qed
    finally show ?thesis .
  qed
qed auto

definition parsed_expr :: "os_string list \<Rightarrow> expr \<Rightarrow> bool" where
  "parsed_expr ws e \<longleftrightarrow>
     (\<exists>c. parse_or_expression (parse_fuel (length ws)) (cursor_new ws) = Some (Inr (e, c)) \<and> expect_end c = Inr ())"

lemma parsed_expr_words: "parsed_expr ws e \<longleftrightarrow> or_words ws e"
proof
  assume "parsed_expr ws e"
  then obtain c where run: "parse_or_expression (parse_fuel (length ws)) (cursor_new ws) = Some (Inr (e, c))"
    and "expect_end c = Inr ()" unfolding parsed_expr_def by blast
  then have "remaining c = []"
    by (auto simp: expect_end_def cursor_peek_remaining split: option.splits list.splits)
  with parse_or_expression_spans [of "cursor_new ws" "parse_fuel (length ws)"] run show "or_words ws e"
    by (simp add: spans_def)
next
  assume "or_words ws e"
  from or_reads_end [OF words_read(1) [OF this], of "cursor_new ws" "[]" "parse_fuel (length ws)"]
  obtain c where "parse_or_expression (parse_fuel (length ws)) (cursor_new ws) = Some (Inr (e, c))" "remaining c = []"
    by (auto simp: stops_def parse_fuel_def reads_opt_def)
  then show "parsed_expr ws e" unfolding parsed_expr_def by (auto simp: expect_end_def cursor_peek_remaining)
qed

lemma parse_command_iff:
  assumes "take_global_options argv = (opts, rest)"
  shows "parse_command argv = Some (Inr ast) \<longleftrightarrow>
    (let ps = takeWhile (\<lambda>t. \<not> expression_token t) rest; ws = dropWhile (\<lambda>t. \<not> expression_token t) rest in
     global_options ast = opts \<and> start_paths ast = (if ps = [] then [''.''] else ps)
     \<and> (if ws = [] then command_expr ast = EAction AcPrint else parsed_expr ws (command_expr ast)))"
proof -
  define ps where "ps = takeWhile (\<lambda>t. \<not> expression_token t) rest"
  define ws where "ws = dropWhile (\<lambda>t. \<not> expression_token t) rest"
  have ast: "ast = \<lparr>start_paths = s, global_options = g, command_expr = e\<rparr> \<longleftrightarrow>
      global_options ast = g \<and> start_paths ast = s \<and> command_expr ast = e" for s g e
    by (cases ast) auto
  show ?thesis
    unfolding parse_command_def assms prod.case Let_def is_expression_start_token ps_def [symmetric] ws_def [symmetric]
    by (auto simp: ast [symmetric] parsed_expr_def try_bind_def split: option.splits sum.splits)
qed

lemma first_not_option: "first_ok (t # ws) \<Longrightarrow> \<not> option_word t opt"
  by (cases "(t, opt)" rule: option_word.cases) auto

lemma paths_split:
  assumes "list_all (\<lambda>t. \<not> expression_token t) ps" "ws = [] \<or> first_ok ws"
  shows "takeWhile (\<lambda>t. \<not> expression_token t) (ps @ ws) = ps"
    "dropWhile (\<lambda>t. \<not> expression_token t) (ps @ ws) = ws"
  using assms by (cases ws; auto simp: list_all_iff takeWhile_append dropWhile_append)+

lemma parsed_in_language:
  assumes "parse_command argv = Some (Inr ast)"
  shows "command_words argv ast"
proof -
  obtain opts rest where g: "take_global_options argv = (opts, rest)" by force
  let ?ps = "takeWhile (\<lambda>t. \<not> expression_token t) rest" and ?ws = "dropWhile (\<lambda>t. \<not> expression_token t) rest"
  obtain os where "argv = os @ rest" "list_all2 option_word os opts"
    using g unfolding take_global_options_split by blast
  moreover have "list_all (\<lambda>t. \<not> expression_token t) ?ps" by (auto simp: list_all_iff dest: set_takeWhileD)
  ultimately show ?thesis
    using assms unfolding parse_command_iff [OF g] Let_def parsed_expr_words command_words_def
    by (intro exI [of _ os] exI [of _ ?ps] exI [of _ ?ws]) simp
qed

lemma language_parsed:
  assumes "command_words argv ast"
  shows "parse_command argv = Some (Inr ast)"
proof -
  from assms obtain os ps ws where argv: "argv = os @ ps @ ws" and os: "list_all2 option_word os (global_options ast)"
    and ps: "list_all (\<lambda>p. \<not> expression_token p) ps" "start_paths ast = (if ps = [] then [''.''] else ps)"
    and ws: "if ws = [] then command_expr ast = EAction AcPrint else or_words ws (command_expr ast)"
    unfolding command_words_def by blast
  from ws have first: "ws = [] \<or> first_ok ws" using words_first(1) by (auto split: if_splits)
  have "\<not> option_word (hd (ps @ ws)) opt" if "ps @ ws \<noteq> []" for opt
    using that ps(1) first option_word_token first_not_option [of "hd ws" "tl ws"]
    by (cases ps; cases ws) auto
  with argv os have g: "take_global_options argv = (global_options ast, ps @ ws)"
    unfolding take_global_options_split by blast
  show ?thesis
    unfolding parse_command_iff [OF g] Let_def paths_split [OF ps(1) first] parsed_expr_words
    using ps(2) ws by simp
qed

text \<open>
  C2.  The command language, exactly: the parser accepts an argument vector with a given tree just
  when the vector is options, then start paths, then words the grammar gives that tree: \<^verbatim>\<open>-o\<close>
  loosest and to the left, a conjunction flat with or without \<^verbatim>\<open>-a\<close>, \<^verbatim>\<open>!\<close> tightest, parentheses
  grouping, and the flags and operands of each predicate and action as in the table.
\<close>

theorem parse_command_decides_language:
  "parse_command argv = Some (Inr ast) \<longleftrightarrow> command_words argv ast"
  by (blast intro: parsed_in_language language_parsed)

end
