(* ===== verification/Std_Path.thy ===== *)
theory Std_Path
  imports Rfd_Prelude
begin

text \<open>
  The operations of Rust's \<^verbatim>\<open>std::path\<close> (Unix) that the program uses, and the helpers of
  \<^verbatim>\<open>src/src/platform/path.rs\<close>.  A path is its byte string.  \<^verbatim>\<open>parent\<close> and
  \<^verbatim>\<open>file_name\<close> work from the back, as the library's component iterator does: a trailing
  run of separators and \<open>.\<close> components is trimmed, then the last component is taken.
\<close>

type_synonym path_bytes = string

definition is_absolute :: "path_bytes \<Rightarrow> bool" where
  "is_absolute p \<longleftrightarrow> slice_get p 0 = Some (CHR ''/'')"

text \<open>A relative path that begins with a \<open>.\<close> component keeps it.\<close>

definition include_cur_dir :: "path_bytes \<Rightarrow> bool" where
  "include_cur_dir p \<longleftrightarrow>
     slice_get p 0 = Some (CHR ''.'') \<and> (slice_get p 1 = None \<or> slice_get p 1 = Some (CHR ''/''))"

definition len_before_body :: "path_bytes \<Rightarrow> nat" where
  "len_before_body p = (if is_absolute p \<or> include_cur_dir p then 1 else 0)"

definition last_component :: "string \<Rightarrow> string" where
  "last_component body = rev (takeWhile (\<lambda>c. c \<noteq> CHR ''/'') (rev body))"

text \<open>The part of a body before its last component, without the separator between them.\<close>

definition before_last :: "string \<Rightarrow> string" where
  "before_last body = rev (tl (dropWhile (\<lambda>c. c \<noteq> CHR ''/'') (rev body)))"

lemma before_last_length: "body \<noteq> [] \<Longrightarrow> length (before_last body) < length body"
proof -
  assume "body \<noteq> []"
  then have "0 < length body" by simp
  moreover have "length (dropWhile (\<lambda>c. c \<noteq> CHR ''/'') (rev body)) \<le> length (rev body)"
    by (rule length_dropWhile_le)
  moreover have "length (before_last body) = length (dropWhile (\<lambda>c. c \<noteq> CHR ''/'') (rev body)) - 1"
    unfolding before_last_def by (simp only: length_rev length_tl)
  ultimately show ?thesis unfolding length_rev by linarith
qed

function trim_body :: "string \<Rightarrow> string" where
  "trim_body body =
     (if body \<noteq> [] \<and> last_component body \<in> {'''', ''.''} then trim_body (before_last body)
      else body)"
  by pat_completeness auto
termination by (relation "measure length") (auto intro: before_last_length)

declare trim_body.simps [simp del]

definition path_front :: "path_bytes \<Rightarrow> string" where
  "path_front p = take (len_before_body p) p"

definition path_body :: "path_bytes \<Rightarrow> string" where
  "path_body p = drop (len_before_body p) p"

definition path_parent :: "path_bytes \<Rightarrow> path_bytes option" where
  "path_parent p =
     (let body = trim_body (path_body p) in
      if body \<noteq> [] then Some (path_front p @ trim_body (before_last body))
      else if is_absolute p then None
      else if include_cur_dir p then Some [] else None)"

definition path_file_name :: "path_bytes \<Rightarrow> path_bytes option" where
  "path_file_name p =
     (let body = trim_body (path_body p) in
      if body \<noteq> [] \<and> last_component body \<noteq> ''..'' then Some (last_component body) else None)"

definition path_join :: "path_bytes \<Rightarrow> path_bytes \<Rightarrow> path_bytes" where
  "path_join p child =
     (if is_absolute child then child
      else if p \<noteq> [] \<and> last p \<noteq> CHR ''/'' then p @ CHR ''/'' # child
      else p @ child)"

section \<open>platform/path.rs\<close>

definition display_bytes :: "path_bytes \<Rightarrow> string" where
  "display_bytes p = p"

definition normalize_match_text :: "os_string \<Rightarrow> os_string" where
  "normalize_match_text val = val"

definition execdir_placeholder :: "path_bytes \<Rightarrow> os_string" where
  "execdir_placeholder p =
     ''./'' @ (case path_file_name p of Some base \<Rightarrow> base | None \<Rightarrow> '''')"

definition relative_dir_for_printf :: "path_bytes \<Rightarrow> path_bytes" where
  "relative_dir_for_printf p = (case path_parent p of Some d \<Rightarrow> d | None \<Rightarrow> ''.'')"

section \<open>Components\<close>

text \<open>
  The declarative reading of a path: the components between separators, without the empty and
  the \<open>.\<close> ones, except that the first component may be the root or a leading \<open>.\<close>.
\<close>

datatype component = RootDir | CurDir | Comp string

definition body_components :: "string \<Rightarrow> component list" where
  "body_components body = map Comp (filter (\<lambda>c. c \<notin> {'''', ''.''}) (split_on (CHR ''/'') body))"

definition components :: "path_bytes \<Rightarrow> component list" where
  "components p =
     (if is_absolute p then [RootDir] else if include_cur_dir p then [CurDir] else [])
     @ body_components (path_body p)"

lemma split_on_no_sep: "d \<notin> set s \<Longrightarrow> split_on d s = [s]"
  by (induction s) auto

lemma split_on_append_sep: "split_on d (xs @ d # ys) = split_on d xs @ split_on d ys"
proof (induction xs)
  case (Cons c xs)
  then show ?case
    by (cases "split_on d xs") (auto split: list.splits)
qed simp

lemma last_component_no_sep: "CHR ''/'' \<notin> set (last_component body)"
  by (auto simp: last_component_def dest: set_takeWhileD)

lemma body_split:
  "body = last_component body \<and> before_last body = []
   \<or> body = before_last body @ CHR ''/'' # last_component body"
proof (cases "dropWhile (\<lambda>c. c \<noteq> CHR ''/'') (rev body)")
  case Nil
  have "rev (takeWhile (\<lambda>c. c \<noteq> CHR ''/'') (rev body)) = body"
    using Nil by (metis append_Nil2 rev_rev_ident takeWhile_dropWhile_id)
  then show ?thesis unfolding last_component_def before_last_def Nil by simp
next
  case (Cons c cs)
  then have "c = CHR ''/''" by (metis (mono_tags, lifting) hd_dropWhile list.distinct(1) list.sel(1))
  moreover have "rev body = takeWhile (\<lambda>c. c \<noteq> CHR ''/'') (rev body) @ c # cs"
    using Cons by (metis takeWhile_dropWhile_id)
  then have "body = rev cs @ c # rev (takeWhile (\<lambda>c. c \<noteq> CHR ''/'') (rev body))"
    by (metis append.assoc append_Cons append_Nil rev.simps(2) rev_append rev_rev_ident)
  ultimately show ?thesis using Cons by (simp add: last_component_def before_last_def)
qed

lemma body_components_last:
  assumes "body \<noteq> []"
  shows "body_components body = body_components (before_last body)
    @ (if last_component body \<in> {'''', ''.''} then [] else [Comp (last_component body)])"
  using body_split [of body]
proof
  assume b: "body = last_component body \<and> before_last body = []"
  then have "split_on (CHR ''/'') body = [last_component body]"
    using split_on_no_sep [OF last_component_no_sep [of body]] by simp
  then show ?thesis using b by (simp add: body_components_def)
next
  assume b: "body = before_last body @ CHR ''/'' # last_component body"
  have "split_on (CHR ''/'') body = split_on (CHR ''/'') (before_last body) @ [last_component body]"
    by (subst b) (simp add: split_on_append_sep split_on_no_sep [OF last_component_no_sep])
  then show ?thesis by (simp add: body_components_def)
qed

lemma body_components_trim: "body_components (trim_body body) = body_components body"
proof (induction body rule: trim_body.induct)
  case (1 body)
  show ?case
  proof (cases "body \<noteq> [] \<and> last_component body \<in> {'''', ''.''}")
    case True
    then show ?thesis
      using 1 body_components_last [of body] by (subst trim_body.simps) simp
  next
    case False
    then show ?thesis by (subst trim_body.simps) auto
  qed
qed

lemma trim_body_last: "trim_body body \<noteq> [] \<Longrightarrow> last_component (trim_body body) \<notin> {'''', ''.''}"
proof (induction body rule: trim_body.induct)
  case (1 body)
  then show ?case
    by (subst (asm) (2) trim_body.simps, subst trim_body.simps) (auto split: if_splits)
qed

lemma trim_body_prefix: "\<exists>t. body = trim_body body @ t \<and> (t \<noteq> [] \<longrightarrow> trim_body body \<noteq> [] \<longrightarrow> hd t = CHR ''/'')"
proof (induction body rule: trim_body.induct)
  case (1 body)
  show ?case
  proof (cases "body \<noteq> [] \<and> last_component body \<in> {'''', ''.''}")
    case True
    then have eq: "trim_body body = trim_body (before_last body)" by (subst trim_body.simps) simp
    obtain t where t: "before_last body = trim_body (before_last body) @ t"
      "t \<noteq> [] \<longrightarrow> trim_body (before_last body) \<noteq> [] \<longrightarrow> hd t = CHR ''/''"
      using 1 True by blast
    from body_split [of body] show ?thesis
    proof
      assume b: "body = last_component body \<and> before_last body = []"
      then have "trim_body body = []" using t(1) eq by simp
      then show ?thesis by simp
    next
      assume b: "body = before_last body @ CHR ''/'' # last_component body"
      show ?thesis unfolding eq
        by (intro exI [of _ "t @ CHR ''/'' # last_component body"])
          (use b t in \<open>cases t; simp; metis append.assoc append_Cons\<close>)
    qed
  next
    case False
    then have "trim_body body = body" by (subst trim_body.simps) auto
    then show ?thesis by simp
  qed
qed

definition component_prefix :: "string \<Rightarrow> string \<Rightarrow> bool" where
  "component_prefix x body \<longleftrightarrow>
     (\<exists>t. body = x @ t \<and> (t \<noteq> [] \<longrightarrow> x \<noteq> [] \<longrightarrow> hd t = CHR ''/''))"

lemma component_prefix_trans:
  "component_prefix x y \<Longrightarrow> component_prefix y z \<Longrightarrow> component_prefix x z"
proof -
  assume "component_prefix x y" "component_prefix y z"
  then obtain t u where t: "y = x @ t" "t \<noteq> [] \<longrightarrow> x \<noteq> [] \<longrightarrow> hd t = CHR ''/''"
    and u: "z = y @ u" "u \<noteq> [] \<longrightarrow> y \<noteq> [] \<longrightarrow> hd u = CHR ''/''"
    unfolding component_prefix_def by blast
  then show ?thesis unfolding component_prefix_def
    by (intro exI [of _ "t @ u"]) (cases t; simp)
qed

lemma component_prefix_trim: "component_prefix (trim_body body) body"
  unfolding component_prefix_def by (rule trim_body_prefix)

lemma component_prefix_before_last: "component_prefix (before_last body) body"
  using body_split [of body]
proof
  assume "body = last_component body \<and> before_last body = []"
  then show ?thesis by (simp add: component_prefix_def)
next
  assume b: "body = before_last body @ CHR ''/'' # last_component body"
  then show ?thesis unfolding component_prefix_def by (intro exI conjI impI) (rule b, simp)
qed

lemma front_stable:
  assumes x: "component_prefix x (path_body p)" and nodot: "len_before_body p = 0 \<Longrightarrow> x \<noteq> ''.''"
  shows "is_absolute (path_front p @ x) = is_absolute p
    \<and> include_cur_dir (path_front p @ x) = include_cur_dir p
    \<and> path_body (path_front p @ x) = x"
proof -
  obtain t where t: "path_body p = x @ t" "t \<noteq> [] \<longrightarrow> x \<noteq> [] \<longrightarrow> hd t = CHR ''/''"
    using x by (auto simp: component_prefix_def)
  have p: "p = path_front p @ x @ t" using t(1) by (simp add: path_front_def path_body_def flip: t(1))
  show ?thesis
  proof (cases p)
    case Nil
    with p have "x = []" by simp
    with Nil show ?thesis
      by (simp add: path_front_def path_body_def is_absolute_def include_cur_dir_def len_before_body_def)
  next
    case (Cons c cs)
    show ?thesis
    proof (cases "is_absolute p \<or> include_cur_dir p")
      case True
      then have f: "path_front p = [c]" "path_body p = cs"
        using Cons by (simp_all add: path_front_def path_body_def len_before_body_def)
      then have "cs = x @ t" using t by simp
      with True t Cons show ?thesis unfolding f
        by (cases x) (auto simp: is_absolute_def include_cur_dir_def path_body_def len_before_body_def)
    next
      case False
      then have f: "path_front p = []" "path_body p = p" "len_before_body p = 0"
        by (simp_all add: path_front_def path_body_def len_before_body_def)
      have pxt: "p = x @ t" using t(1) f(2) by simp
      have "\<not> is_absolute x" "\<not> include_cur_dir x"
        using False nodot [OF f(3)] t(2) unfolding pxt
        by (cases x; cases "tl x"; auto simp: is_absolute_def include_cur_dir_def)+
      with False f show ?thesis by (simp add: path_body_def len_before_body_def)
    qed
  qed
qed

lemma components_parent:
  assumes "path_file_name p = Some base"
  shows "\<exists>d. path_parent p = Some d \<and> components p = components d @ [Comp base]
    \<and> base \<notin> {'''', ''.'', ''..''} \<and> CHR ''/'' \<notin> set base"
proof -
  let ?body = "trim_body (path_body p)"
  let ?x = "trim_body (before_last ?body)"
  have body: "?body \<noteq> []" "base = last_component ?body" "base \<noteq> ''..''"
    using assms by (auto simp: path_file_name_def Let_def split: if_splits)
  have base: "base \<notin> {'''', ''.''}" using trim_body_last [OF body(1)] body(2) by simp
  have "component_prefix ?x (path_body p)"
    by (meson component_prefix_before_last component_prefix_trans component_prefix_trim)
  moreover have "?x \<noteq> ''.''"
    using trim_body_last [of "before_last ?body"] by (auto simp: last_component_def)
  ultimately have st: "is_absolute (path_front p @ ?x) = is_absolute p"
    "include_cur_dir (path_front p @ ?x) = include_cur_dir p" "path_body (path_front p @ ?x) = ?x"
    using front_stable [of ?x p] by blast+
  have "body_components (path_body p) = body_components ?x @ [Comp base]"
    using body_components_last [OF body(1)] base body(2)
    by (simp add: body_components_trim)
  then have "components p = components (path_front p @ ?x) @ [Comp base]"
    by (simp add: components_def st)
  moreover have "path_parent p = Some (path_front p @ ?x)"
    using body(1) by (simp add: path_parent_def Let_def)
  ultimately show ?thesis
    using base body(2,3) last_component_no_sep [of ?body] by blast
qed

lemma components_CurDir [simp]: "components ''.'' = [CurDir]" "components '''' = []"
  by (simp_all add: components_def is_absolute_def include_cur_dir_def path_body_def
      len_before_body_def body_components_def)

section \<open>Stripping a prefix\<close>

text \<open>
  \<^verbatim>\<open>Path::strip_prefix\<close> compares by components and returns what is left of the text,
  trimmed of separators and \<open>.\<close> components on both ends.
\<close>

lemma drop_front_length:
  "body \<noteq> [] \<Longrightarrow> length (dropWhile P body) - Suc 0 < length body"
  using length_dropWhile_le [of P body] by (cases body) (auto split: if_splits)

function drop_components :: "nat \<Rightarrow> string \<Rightarrow> string" where
  "drop_components n body =
     (if body = [] then []
      else
        (let c = takeWhile (\<lambda>x. x \<noteq> CHR ''/'') body;
             rest = tl (dropWhile (\<lambda>x. x \<noteq> CHR ''/'') body)
         in if c \<in> {'''', ''.''} then drop_components n rest
            else if n = 0 then body
            else drop_components (n - 1) rest))"
  by pat_completeness auto
termination
  by (relation "measure (\<lambda>(n, body). length body)") (simp_all add: drop_front_length)

declare drop_components.simps [simp del]

definition path_strip_prefix :: "path_bytes \<Rightarrow> path_bytes \<Rightarrow> path_bytes option" where
  "path_strip_prefix p base =
     (let bc = components base;
          fronts = length (filter (\<lambda>c. c \<in> {RootDir, CurDir}) bc)
      in if take (length bc) (components p) \<noteq> bc then None
         else if bc = [] then Some (path_front p @ trim_body (path_body p))
         else Some (trim_body (drop_components (length bc - fronts) (path_body p))))"

lemma body_components_Cons_sep:
  "CHR ''/'' \<notin> set c \<Longrightarrow>
   body_components (c @ CHR ''/'' # rest)
   = (if c \<in> {'''', ''.''} then [] else [Comp c]) @ body_components rest"
  by (auto simp: body_components_def split_on_append_sep split_on_no_sep)

lemma split_front:
  assumes "body \<noteq> []"
  defines "c \<equiv> takeWhile (\<lambda>x. x \<noteq> CHR ''/'') body"
    and "rest \<equiv> tl (dropWhile (\<lambda>x. x \<noteq> CHR ''/'') body)"
  shows "body_components body = (if c \<in> {'''', ''.''} then [] else [Comp c]) @ body_components rest"
proof -
  have c: "CHR ''/'' \<notin> set c" unfolding c_def by (auto dest: set_takeWhileD)
  show ?thesis
  proof (cases "dropWhile (\<lambda>x. x \<noteq> CHR ''/'') body")
    case Nil
    then have "body = c" "rest = []"
      unfolding c_def rest_def by (metis append_Nil2 takeWhile_dropWhile_id) (simp add: Nil)
    with c show ?thesis by (simp add: body_components_def split_on_no_sep)
  next
    case (Cons s t)
    then have "s = CHR ''/''" using hd_dropWhile [of "\<lambda>x. x \<noteq> CHR ''/''" body] by simp
    then have "body = c @ CHR ''/'' # rest"
      unfolding c_def rest_def using Cons by (metis list.sel(3) takeWhile_dropWhile_id)
    with body_components_Cons_sep [OF c, of rest] show ?thesis by simp
  qed
qed

lemma body_components_drop:
  "body_components (drop_components n body) = drop n (body_components body)"
proof (induction n body rule: drop_components.induct)
  case (1 n body)
  show ?case
  proof (cases "body = []")
    case True
    then show ?thesis by (simp add: drop_components.simps body_components_def)
  next
    case False
    note sf = split_front [OF False]
    show ?thesis
      using 1 False
      by (subst drop_components.simps) (cases n; auto simp: Let_def sf)
  qed
qed

end
