(* ===== verification/Ordered_Map.thy ===== *)
theory Ordered_Map
  imports Rfd_Prelude
begin

text \<open>
  Rust's \<^verbatim>\<open>BTreeMap\<close>, as the association list of its entries in key order.  The interface
  that the components rely on is the locale \<open>ordered_map\<close>; the list operations are its
  provider.
\<close>

type_synonym ('k, 'v) btree = "('k \<times> 'v) list"

definition bt_empty :: "('k, 'v) btree" where
  "bt_empty = []"

definition bt_get :: "('k, 'v) btree \<Rightarrow> 'k \<Rightarrow> 'v option" where
  "bt_get m k = map_of m k"

fun bt_insert :: "'k :: linorder \<Rightarrow> 'v \<Rightarrow> ('k, 'v) btree \<Rightarrow> ('k, 'v) btree" where
  "bt_insert k v [] = [(k, v)]"
| "bt_insert k v ((k', v') # m) =
     (if k < k' then (k, v) # (k', v') # m
      else if k = k' then (k, v) # m
      else (k', v') # bt_insert k v m)"

definition bt_remove :: "'k \<Rightarrow> ('k, 'v) btree \<Rightarrow> ('k, 'v) btree" where
  "bt_remove k m = filter (\<lambda>(k', v). k' \<noteq> k) m"

definition bt_entries :: "('k, 'v) btree \<Rightarrow> ('k \<times> 'v) list" where
  "bt_entries m = m"

definition bt_inv :: "('k :: linorder, 'v) btree \<Rightarrow> bool" where
  "bt_inv m \<longleftrightarrow> sorted_wrt (<) (map fst m)"

locale ordered_map =
  fixes empty :: "'m"
    and get :: "'m \<Rightarrow> 'k :: linorder \<Rightarrow> 'v option"
    and insert :: "'k \<Rightarrow> 'v \<Rightarrow> 'm \<Rightarrow> 'm"
    and remove :: "'k \<Rightarrow> 'm \<Rightarrow> 'm"
    and entries :: "'m \<Rightarrow> ('k \<times> 'v) list"
    and inv :: "'m \<Rightarrow> bool"
  assumes inv_empty: "inv empty"
    and inv_insert: "inv m \<Longrightarrow> inv (insert k v m)"
    and inv_remove: "inv m \<Longrightarrow> inv (remove k m)"
    and get_empty: "get empty k = None"
    and get_insert: "inv m \<Longrightarrow> get (insert k v m) k' = (if k' = k then Some v else get m k')"
    and get_remove: "inv m \<Longrightarrow> get (remove k m) k' = (if k' = k then None else get m k')"
    and entries_get: "inv m \<Longrightarrow> (k, v) \<in> set (entries m) \<longleftrightarrow> get m k = Some v"
    and entries_sorted: "inv m \<Longrightarrow> sorted_wrt (<) (map fst (entries m))"
begin

lemma entries_distinct: "inv m \<Longrightarrow> distinct (map fst (entries m))"
  using entries_sorted strict_sorted_iff by blast

lemma entries_insert_set:
  assumes "inv m"
  shows "set (entries (insert k v m)) = {(k, v)} \<union> {(k', v') \<in> set (entries m). k' \<noteq> k}"
  using entries_get [OF assms] entries_get [OF inv_insert [OF assms]] get_insert [OF assms]
  by (auto split: if_splits)

lemma entries_remove_set:
  assumes "inv m"
  shows "set (entries (remove k m)) = {(k', v') \<in> set (entries m). k' \<noteq> k}"
  using entries_get [OF assms] entries_get [OF inv_remove [OF assms]] get_remove [OF assms]
  by (auto split: if_splits)

lemma entries_empty: "entries empty = []"
  using entries_get [OF inv_empty] get_empty
  by (metis list.set_intros(1) neq_Nil_conv option.distinct(1) surj_pair)

lemma entries_unique:
  "inv m \<Longrightarrow> inv n \<Longrightarrow> (\<And>k. get m k = get n k) \<Longrightarrow> entries m = entries n"
proof -
  assume inv: "inv m" "inv n" and same: "\<And>k. get m k = get n k"
  have set: "set (entries m) = set (entries n)"
    using entries_get [OF inv(1)] entries_get [OF inv(2)] same by auto
  have sorted: "sorted (map fst (entries m))" "distinct (map fst (entries m))"
    "sorted (map fst (entries n))" "distinct (map fst (entries n))"
    using entries_sorted [OF inv(1)] entries_sorted [OF inv(2)] by (simp_all add: strict_sorted_iff)
  then have "inj_on fst (set (entries m) \<union> set (entries n))"
    unfolding set [symmetric] by (simp add: distinct_map)
  then show ?thesis by (rule map_sorted_distinct_set_unique) (use sorted set in simp_all)
qed

end

lemma bt_insert_keys: "set (map fst (bt_insert k v m)) = insert k (set (map fst m))"
  by (induction k v m rule: bt_insert.induct) auto

lemma bt_inv_insert: "bt_inv m \<Longrightarrow> bt_inv (bt_insert k v m)"
proof (induction k v m rule: bt_insert.induct)
  case (2 k v k' v' m)
  then show ?case
    using bt_insert_keys [of k v m] by (force simp: bt_inv_def)
qed (simp add: bt_inv_def)

lemma bt_get_insert:
  "bt_inv m \<Longrightarrow> bt_get (bt_insert k v m) k' = (if k' = k then Some v else bt_get m k')"
proof (induction k v m rule: bt_insert.induct)
  case (2 k v k1 v1 m)
  then show ?case by (auto simp: bt_get_def bt_inv_def)
qed (simp add: bt_get_def)

interpretation bt: ordered_map bt_empty bt_get bt_insert bt_remove bt_entries bt_inv
proof unfold_locales
  show "bt_inv bt_empty" by (simp add: bt_inv_def bt_empty_def)
next
  fix m :: "('a, 'b) btree" and k v assume "bt_inv m"
  then show "bt_inv (bt_insert k v m)" by (rule bt_inv_insert)
next
  fix m :: "('a, 'b) btree" and k assume "bt_inv m"
  then show "bt_inv (bt_remove k m)"
    by (induction m) (auto simp: bt_inv_def bt_remove_def)
next
  fix k :: 'a show "bt_get bt_empty k = None" by (simp add: bt_get_def bt_empty_def)
next
  fix m :: "('a, 'b) btree" and k v k' assume "bt_inv m"
  then show "bt_get (bt_insert k v m) k' = (if k' = k then Some v else bt_get m k')"
    by (rule bt_get_insert)
next
  fix m :: "('a, 'b) btree" and k k' assume "bt_inv m"
  show "bt_get (bt_remove k m) k' = (if k' = k then None else bt_get m k')"
    by (induction m) (auto simp: bt_get_def bt_remove_def)
next
  fix m :: "('a, 'b) btree" and k v assume "bt_inv m"
  then have "distinct (map fst m)" using strict_sorted_iff unfolding bt_inv_def by blast
  then show "(k, v) \<in> set (bt_entries m) \<longleftrightarrow> bt_get m k = Some v"
    by (simp add: bt_get_def bt_entries_def)
next
  fix m :: "('a, 'b) btree" assume "bt_inv m"
  then show "sorted_wrt (<) (map fst (bt_entries m))" by (simp add: bt_inv_def bt_entries_def)
qed

end
