(* ===== verification/Exec_Template.thy ===== *)
theory Exec_Template
  imports Std_Path Cmd_Ast
begin

text \<open>
  Command templates of \<^verbatim>\<open>-exec\<close>, \<^verbatim>\<open>-execdir\<close>, \<^verbatim>\<open>-ok\<close> and \<^verbatim>\<open>-okdir\<close>:
  \<^verbatim>\<open>src/src/exec/template.rs\<close> (Unix).
\<close>

type_synonym exec_batch_id = u32

datatype exec_semantics = SemNormal | SemDirLocal

datatype exec_template_segment = SegLiteral os_string | SegPath

record prepared_exec_command =
  cmd_cwd :: "path option"
  cmd_argv :: "os_string list"

record immediate_exec_action =
  imm_semantics :: exec_semantics
  imm_argv :: "exec_template_segment list list"

record batched_exec_action =
  batch_id :: exec_batch_id
  batch_semantics :: exec_semantics
  argv_prefix :: "os_string list"

definition execdir_cwd :: "path \<Rightarrow> path" where
  "execdir_cwd p =
     (case path_parent p of
        Some parent \<Rightarrow> if parent \<noteq> '''' then parent else ''.''
      | None \<Rightarrow> ''.'')"

definition command_cwd :: "immediate_exec_action \<Rightarrow> path \<Rightarrow> path option" where
  "command_cwd spec p =
     (case imm_semantics spec of SemNormal \<Rightarrow> None | SemDirLocal \<Rightarrow> Some (execdir_cwd p))"

definition batch_cwd :: "batched_exec_action \<Rightarrow> path \<Rightarrow> path option" where
  "batch_cwd spec p =
     (case batch_semantics spec of SemNormal \<Rightarrow> None | SemDirLocal \<Rightarrow> Some (execdir_cwd p))"

definition batch_flag_of :: "exec_semantics \<Rightarrow> string" where
  "batch_flag_of sem = (case sem of SemNormal \<Rightarrow> ''-exec ... +'' | SemDirLocal \<Rightarrow> ''-execdir ... +'')"

definition batch_flag :: "batched_exec_action \<Rightarrow> string" where
  "batch_flag spec = batch_flag_of (batch_semantics spec)"

text \<open>
  The scan of \<^verbatim>\<open>compile_segments\<close>: the bytes since \<^verbatim>\<open>start\<close> are \<open>lit\<close>, the bytes
  from \<^verbatim>\<open>index\<close> on the last argument.
\<close>

fun segments_loop ::
  "exec_template_segment list \<Rightarrow> string \<Rightarrow> string \<Rightarrow> exec_template_segment list" where
  "segments_loop segs lit (a # b # rest) =
     (if a = CHR ''{'' \<and> b = CHR ''}''
      then segments_loop ((if lit \<noteq> [] then segs @ [SegLiteral lit] else segs) @ [SegPath]) [] rest
      else segments_loop segs (lit @ [a]) (b # rest))"
| "segments_loop segs lit rest =
     (if lit @ rest \<noteq> [] \<or> segs = [] then segs @ [SegLiteral (lit @ rest)] else segs)"

definition compile_segments :: "os_string \<Rightarrow> exec_template_segment list" where
  "compile_segments arg = segments_loop [] [] arg"

definition compile_immediate_exec :: "exec_semantics \<Rightarrow> os_string list \<Rightarrow> immediate_exec_action" where
  "compile_immediate_exec sem argv =
     \<lparr>imm_semantics = sem, imm_argv = map compile_segments argv\<rparr>"

definition is_standalone_placeholder :: "os_string \<Rightarrow> bool" where
  "is_standalone_placeholder arg \<longleftrightarrow> arg = ''{}''"

fun contains_placeholder :: "os_string \<Rightarrow> bool" where
  "contains_placeholder (a # b # rest) \<longleftrightarrow>
     a = CHR ''{'' \<and> b = CHR ''}'' \<or> contains_placeholder (b # rest)"
| "contains_placeholder _ \<longleftrightarrow> False"

definition batch_placeholder_error :: "exec_semantics \<Rightarrow> diagnostic" where
  "batch_placeholder_error sem =
     diagnostic_parse (''`'' @ batch_flag_of sem
       @ ''` requires exactly one standalone `{}` as the final command argument'')"

definition compile_batched_exec ::
  "exec_batch_id \<Rightarrow> exec_semantics \<Rightarrow> os_string list \<Rightarrow> batched_exec_action result" where
  "compile_batched_exec bid sem argv =
     (let indexes = filter (\<lambda>i. is_standalone_placeholder (argv ! i)) [0..<length argv] in
      case indexes of
        [] \<Rightarrow> Inl (batch_placeholder_error sem)
      | i # _ \<Rightarrow>
          if length indexes \<noteq> 1 \<or> i + 1 \<noteq> length argv then Inl (batch_placeholder_error sem)
          else if list_ex (\<lambda>arg. \<not> is_standalone_placeholder arg \<and> contains_placeholder arg) argv
          then Inl (batch_placeholder_error sem)
          else Inr \<lparr>batch_id = bid, batch_semantics = sem, argv_prefix = take i argv\<rparr>)"

definition rendered_path :: "path \<Rightarrow> exec_semantics \<Rightarrow> os_string" where
  "rendered_path p sem = (case sem of SemNormal \<Rightarrow> p | SemDirLocal \<Rightarrow> execdir_placeholder p)"

definition prompt_rendered_path :: "path \<Rightarrow> exec_semantics \<Rightarrow> os_string" where
  "prompt_rendered_path p sem = (case sem of SemNormal \<Rightarrow> p | SemDirLocal \<Rightarrow> p)"

fun render_template :: "os_string \<Rightarrow> exec_template_segment list \<Rightarrow> os_string" where
  "render_template pb [] = []"
| "render_template pb (SegLiteral lit # segs) = lit @ render_template pb segs"
| "render_template pb (SegPath # segs) = pb @ render_template pb segs"

definition render_segments :: "exec_template_segment list list \<Rightarrow> os_string \<Rightarrow> os_string list" where
  "render_segments argv pb = map (render_template pb) argv"

definition render_prompt_argv :: "immediate_exec_action \<Rightarrow> path \<Rightarrow> os_string list" where
  "render_prompt_argv spec p =
     render_segments (imm_argv spec) (prompt_rendered_path p (imm_semantics spec))"

definition render_immediate_argv :: "immediate_exec_action \<Rightarrow> path \<Rightarrow> os_string list" where
  "render_immediate_argv spec p =
     render_segments (imm_argv spec) (rendered_path p (imm_semantics spec))"

definition build_immediate_command :: "immediate_exec_action \<Rightarrow> path \<Rightarrow> prepared_exec_command" where
  "build_immediate_command spec p =
     \<lparr>cmd_cwd = command_cwd spec p, cmd_argv = render_immediate_argv spec p\<rparr>"

definition batched_path_cost :: "batched_exec_action \<Rightarrow> path \<Rightarrow> nat" where
  "batched_path_cost spec p = length (rendered_path p (batch_semantics spec)) + 1"

definition build_batched_argv ::
  "batched_exec_action \<Rightarrow> path list \<Rightarrow> prepared_exec_command result" where
  "build_batched_argv spec paths =
     try_bind
       (case batch_semantics spec of
          SemNormal \<Rightarrow> Inr None
        | SemDirLocal \<Rightarrow>
            (case paths of
               [] \<Rightarrow> Inl (diagnostic_new ''internal error: batched exec action missing paths'' 1)
             | p # _ \<Rightarrow> Inr (Some (execdir_cwd p))))
       (\<lambda>cwd. Inr \<lparr>cmd_cwd = cwd,
                   cmd_argv = argv_prefix spec @ map (\<lambda>p. rendered_path p (batch_semantics spec)) paths\<rparr>)"

section \<open>What the templates mean\<close>

text \<open>Replacing the occurrences of \<open>{}\<close>, from the left and without overlap.\<close>

fun substitute :: "os_string \<Rightarrow> os_string \<Rightarrow> os_string" where
  "substitute pb (a # b # rest) =
     (if a = CHR ''{'' \<and> b = CHR ''}'' then pb @ substitute pb rest
      else a # substitute pb (b # rest))"
| "substitute pb rest = rest"

lemma render_template_append:
  "render_template pb (xs @ ys) = render_template pb xs @ render_template pb ys"
  by (induction pb xs rule: render_template.induct) auto

lemma segments_loop_render:
  "render_template pb (segments_loop segs lit rest)
   = render_template pb segs @ lit @ substitute pb rest"
  by (induction segs lit rest rule: segments_loop.induct) (auto simp: render_template_append)

fun segment_plain :: "exec_template_segment \<Rightarrow> bool" where
  "segment_plain (SegLiteral l) \<longleftrightarrow> \<not> contains_placeholder l"
| "segment_plain SegPath \<longleftrightarrow> True"

lemma contains_placeholder_snoc:
  "\<not> contains_placeholder lit \<Longrightarrow>
   contains_placeholder (lit @ [a]) \<longleftrightarrow> lit \<noteq> [] \<and> last lit = CHR ''{'' \<and> a = CHR ''}''"
  by (induction lit rule: contains_placeholder.induct) auto

lemma substitute_plain: "\<not> contains_placeholder s \<Longrightarrow> substitute pb s = s"
  by (induction s rule: contains_placeholder.induct) auto

lemma filter_single_index:
  "filter (\<lambda>i. P (xs ! i)) [0..<length xs] = [k] \<and> Suc k = length xs \<longleftrightarrow>
   (xs \<noteq> [] \<and> P (last xs) \<and> \<not> list_ex P (butlast xs) \<and> k = length xs - 1)"
proof (cases xs rule: rev_cases)
  case (snoc ys y)
  have "filter (\<lambda>i. P (xs ! i)) [0..<length ys] = filter (\<lambda>i. P (ys ! i)) [0..<length ys]"
    by (rule filter_cong) (auto simp: snoc nth_append)
  moreover have "filter (\<lambda>i. P (ys ! i)) [0..<length ys] = [] \<longleftrightarrow> \<not> list_ex P ys"
    by (auto simp: filter_empty_conv list_ex_length)
  moreover have "filter Q [0..<length ys] \<noteq> [length ys]" for Q
  proof
    assume "filter Q [0..<length ys] = [length ys]"
    then have "length ys \<in> set (filter Q [0..<length ys])" by simp
    then show False by simp
  qed
  ultimately show ?thesis
    by (auto simp: snoc nth_append filter_empty_conv list_ex_length)
qed simp

text \<open>
  What an exec template does: every argument of the command line is the given argument with
  each \<open>{}\<close> (scanning from the left) replaced by the path, and nothing else changed; with
  \<^verbatim>\<open>-execdir\<close> the path is \<open>./\<close> and the base name, and the command runs in the directory
  that contains the entry.
\<close>

theorem exec_command_substitutes:
  "build_immediate_command (compile_immediate_exec sem argv) p =
   \<lparr>cmd_cwd = (if sem = SemNormal then None else Some (execdir_cwd p)),
    cmd_argv = map (substitute (if sem = SemNormal then p else execdir_placeholder p)) argv\<rparr>"
  by (cases sem)
    (simp_all add: build_immediate_command_def compile_immediate_exec_def command_cwd_def
      render_immediate_argv_def render_segments_def rendered_path_def compile_segments_def
      segments_loop_render)

text \<open>
  C38.  The directory and the name that \<^verbatim>\<open>-execdir\<close> uses denote the entry itself: for every
  path with a base name, the components of the path are those of the working directory (none for
  the current directory) followed by the base name, and the base name is a plain name without a
  slash.
\<close>

theorem execdir_denotes_entry:
  assumes "path_file_name p = Some base"
  shows "execdir_placeholder p = ''./'' @ base
    \<and> components p = (if path_parent p = Some '''' then [] else components (execdir_cwd p)) @ [Comp base]
    \<and> (path_parent p = Some '''' \<longrightarrow> execdir_cwd p = ''.'')
    \<and> base \<notin> {'''', ''.'', ''..''} \<and> CHR ''/'' \<notin> set base"
proof -
  obtain d where d: "path_parent p = Some d" "components p = components d @ [Comp base]"
    "base \<notin> {'''', ''.'', ''..''}" "CHR ''/'' \<notin> set base"
    using components_parent [OF assms] by blast
  then show ?thesis
    using assms by (simp add: execdir_placeholder_def execdir_cwd_def)
qed

lemma execdir_denotes_entry_witness:
  "execdir_placeholder ''src//lib/main.rs/'' = ''./main.rs''
   \<and> components ''src//lib/main.rs/'' = components ''src//lib'' @ [Comp ''main.rs'']"
proof -
  have name: "path_file_name ''src//lib/main.rs/'' = Some ''main.rs''" by code_simp
  have par: "path_parent ''src//lib/main.rs/'' = Some ''src//lib''" by code_simp
  from execdir_denotes_entry [OF name] par show ?thesis by (simp add: execdir_cwd_def)
qed

text \<open>
  The batch form accepts exactly the argument vectors that end with a standalone \<open>{}\<close> and
  contain \<open>{}\<close> nowhere else; the arguments before it are kept.
\<close>

theorem compile_batched_exec_accepts:
  "compile_batched_exec bid sem argv = Inr spec \<longleftrightarrow>
   (\<exists>prefix. argv = prefix @ [''{}''] \<and> \<not> list_ex contains_placeholder prefix
      \<and> spec = \<lparr>batch_id = bid, batch_semantics = sem, argv_prefix = prefix\<rparr>)"
proof -
  let ?P = is_standalone_placeholder
  let ?idx = "filter (\<lambda>i. ?P (argv ! i)) [0..<length argv]"
  have "compile_batched_exec bid sem argv = Inr spec \<longleftrightarrow>
    (\<exists>k. (?idx = [k] \<and> Suc k = length argv)
      \<and> \<not> list_ex (\<lambda>arg. \<not> ?P arg \<and> contains_placeholder arg) argv
      \<and> spec = \<lparr>batch_id = bid, batch_semantics = sem, argv_prefix = take k argv\<rparr>)"
    unfolding compile_batched_exec_def Let_def
    by (cases ?idx; cases "tl ?idx") (auto split: if_splits)
  also have "\<dots> \<longleftrightarrow> (argv \<noteq> [] \<and> ?P (last argv) \<and> \<not> list_ex ?P (butlast argv)
      \<and> \<not> list_ex (\<lambda>arg. \<not> ?P arg \<and> contains_placeholder arg) argv
      \<and> spec = \<lparr>batch_id = bid, batch_semantics = sem, argv_prefix = butlast argv\<rparr>)"
    unfolding filter_single_index by (auto simp: butlast_conv_take)
  also have "\<dots> \<longleftrightarrow> (\<exists>prefix. argv = prefix @ [''{}''] \<and> \<not> list_ex contains_placeholder prefix
      \<and> spec = \<lparr>batch_id = bid, batch_semantics = sem, argv_prefix = prefix\<rparr>)"
  proof (cases argv rule: rev_cases)
    case (snoc ys y)
    have "list_ex contains_placeholder ys \<longleftrightarrow>
        list_ex ?P ys \<or> list_ex (\<lambda>arg. \<not> ?P arg \<and> contains_placeholder arg) ys"
      by (auto simp: list_ex_iff is_standalone_placeholder_def intro: bexI [of _ "''{}''"])
    then show ?thesis by (auto simp: snoc is_standalone_placeholder_def)
  qed simp
  finally show ?thesis .
qed

text \<open>
  Paths without a base name: for \<open>..\<close> and \<open>/\<close> the command is given \<open>./\<close> in the current
  directory, which is not the entry.
\<close>

lemma execdir_without_base_name:
  "build_immediate_command (compile_immediate_exec SemDirLocal [''ls'', ''{}'']) ''..''
     = \<lparr>cmd_cwd = Some ''.'', cmd_argv = [''ls'', ''./'']\<rparr>"
  "build_immediate_command (compile_immediate_exec SemDirLocal [''ls'', ''{}'']) ''/''
     = \<lparr>cmd_cwd = Some ''.'', cmd_argv = [''ls'', ''./'']\<rparr>"
  by code_simp+

end
