(* ===== verification/Exec_Batch.thy ===== *)
theory Exec_Batch
  imports Exec_Template Ordered_Map "HOL-Library.List_Lexorder" "HOL-Library.Option_ord"
    "HOL-Library.Product_Lexorder"
begin

text \<open>
  Batched commands: \<^verbatim>\<open>src/src/exec/batch.rs\<close>, the batching of the ordered sink
  (\<^verbatim>\<open>src/src/exec/ordered.rs\<close>), of the parallel workers (\<^verbatim>\<open>src/src/parallel/batch.rs\<close>)
  and of the shared sink of \<^verbatim>\<open>src/src/exec/parallel.rs\<close>.  Running a command is a
  parameter that acts on a world; sizes are natural numbers.
\<close>

section \<open>Keys\<close>

text \<open>
  \<^verbatim>\<open>PathBuf\<close> is compared by components, with \<open>..\<close> before every name.
\<close>

definition component_rank :: "component \<Rightarrow> nat \<times> string" where
  "component_rank c =
     (case c of
        RootDir \<Rightarrow> (0, '''')
      | CurDir \<Rightarrow> (1, '''')
      | Comp s \<Rightarrow> if s = ''..'' then (2, '''') else (3, s))"

lemma component_rank_inj: "component_rank a = component_rank b \<longleftrightarrow> a = b"
  by (cases a; cases b) (auto simp: component_rank_def split: if_splits)

instantiation component :: linorder
begin

definition less_eq_component :: "component \<Rightarrow> component \<Rightarrow> bool" where
  "less_eq_component a b \<longleftrightarrow> component_rank a \<le> component_rank b"

definition less_component :: "component \<Rightarrow> component \<Rightarrow> bool" where
  "less_component a b \<longleftrightarrow> component_rank a < component_rank b"

instance
  by standard
    (auto simp: less_eq_component_def less_component_def simp flip: component_rank_inj
     )

end

type_synonym exec_batch_key = "exec_batch_id \<times> component list option"

definition batch_key :: "batched_exec_action \<Rightarrow> path \<Rightarrow> exec_batch_key" where
  "batch_key spec p = (batch_id spec, map_option components (batch_cwd spec p))"

section \<open>Pending batches (exec/batch.rs)\<close>

record ready_batch =
  ready_spec :: batched_exec_action
  ready_paths :: "path list"

record pending_batch =
  pb_spec :: batched_exec_action
  pb_paths :: "path list"
  used_bytes :: nat
  fixed_bytes :: nat
  limit :: nat

definition pending_new :: "batched_exec_action \<Rightarrow> nat \<Rightarrow> nat \<Rightarrow> pending_batch" where
  "pending_new spec lim fixed =
     \<lparr>pb_spec = spec, pb_paths = [], used_bytes = fixed, fixed_bytes = fixed, limit = lim\<rparr>"

definition take_ready :: "pending_batch \<Rightarrow> ready_batch \<times> pending_batch" where
  "take_ready b =
     (\<lparr>ready_spec = pb_spec b, ready_paths = pb_paths b\<rparr>,
      b\<lparr>pb_paths := [], used_bytes := fixed_bytes b\<rparr>)"

definition path_too_large :: "batched_exec_action \<Rightarrow> path \<Rightarrow> diagnostic" where
  "path_too_large spec p =
     diagnostic_new (utf8_lossy p @ '': path is too large for `'' @ batch_flag spec @ ''`'') 1"

definition add_path :: "pending_batch \<Rightarrow> path \<Rightarrow> nat \<Rightarrow> pending_batch" where
  "add_path b p cost = b\<lparr>pb_paths := pb_paths b @ [p], used_bytes := used_bytes b + cost\<rparr>"

definition pending_push ::
  "pending_batch \<Rightarrow> path \<Rightarrow> ready_batch option result \<times> pending_batch" where
  "pending_push b p =
     (let path_bytes = batched_path_cost (pb_spec b) p in
      if pb_paths b = [] \<and> used_bytes b + path_bytes > limit b
      then (Inl (path_too_large (pb_spec b) p), b)
      else if pb_paths b \<noteq> [] \<and> used_bytes b + path_bytes > limit b
      then (let (flushed, b') = take_ready b in (Inr (Some flushed), add_path b' p path_bytes))
      else (Inr None, add_path b p path_bytes))"

definition would_overflow :: "pending_batch \<Rightarrow> path \<Rightarrow> bool" where
  "would_overflow b p \<longleftrightarrow> used_bytes b + batched_path_cost (pb_spec b) p > limit b"

definition fixed_batch_cost :: "batched_exec_action \<Rightarrow> nat" where
  "fixed_batch_cost spec = sum_list (map (\<lambda>arg. length arg + 1) (argv_prefix spec))"

section \<open>Running batches (exec/child.rs)\<close>

definition run_ready_batch ::
  "(prepared_exec_command \<Rightarrow> 'w \<Rightarrow> bool result \<times> 'w) \<Rightarrow> ready_batch \<Rightarrow> 'w \<Rightarrow> bool result \<times> 'w" where
  "run_ready_batch run_prepared ready w =
     (case build_batched_argv (ready_spec ready) (ready_paths ready) of
        Inl e \<Rightarrow> (Inl e, w)
      | Inr prepared \<Rightarrow> run_prepared prepared w)"

record 'w batch_sink =
  pending :: "(exec_batch_key, pending_batch) btree"
  batch_limit :: nat
  had_failures :: bool
  world :: 'w

text \<open>
  Running one ready batch inside \<^verbatim>\<open>enqueue\<close> or \<^verbatim>\<open>flush\<close>: an error is returned, a
  failing command is recorded as an action failure.  The boolean of the result is \<open>True\<close> for
  a status with action failures.
\<close>

definition run_in_sink ::
  "(ready_batch \<Rightarrow> 'w \<Rightarrow> bool result \<times> 'w) \<Rightarrow> ready_batch \<Rightarrow> 'w batch_sink \<Rightarrow>
   bool result \<times> 'w batch_sink" where
  "run_in_sink run ready s =
     (let (r, w) = run ready (world s) in
      case r of
        Inl e \<Rightarrow> (Inl e, s\<lparr>world := w\<rparr>)
      | Inr True \<Rightarrow> (Inr False, s\<lparr>world := w\<rparr>)
      | Inr False \<Rightarrow> (Inr True, s\<lparr>world := w, had_failures := True\<rparr>))"

definition sink_entry ::
  "batched_exec_action \<Rightarrow> exec_batch_key \<Rightarrow> 'w batch_sink \<Rightarrow> pending_batch" where
  "sink_entry spec key s =
     (case bt_get (pending s) key of
        Some b \<Rightarrow> b
      | None \<Rightarrow> pending_new spec (batch_limit s) (fixed_batch_cost spec))"

text \<open>
  \<^verbatim>\<open>OrderedActionSink::enqueue\<close>.  \<open>report\<close> writes the diagnostic of a path that is too
  large.
\<close>

definition ordered_enqueue ::
  "(ready_batch \<Rightarrow> 'w \<Rightarrow> bool result \<times> 'w) \<Rightarrow> (diagnostic \<Rightarrow> 'w \<Rightarrow> unit result \<times> 'w) \<Rightarrow>
   batched_exec_action \<Rightarrow> path \<Rightarrow> 'w batch_sink \<Rightarrow> bool result \<times> 'w batch_sink" where
  "ordered_enqueue run report spec p s =
     (let key = batch_key spec p;
          b = sink_entry spec key s;
          (ready, b) =
            (if pb_paths b \<noteq> [] \<and> would_overflow b p
             then (let (r, b') = take_ready b in (Some r, b')) else (None, b));
          s = s\<lparr>pending := bt_insert key b (pending s)\<rparr>;
          (r1, s) = (case ready of None \<Rightarrow> (Inr False, s) | Some rb \<Rightarrow> run_in_sink run rb s)
      in case r1 of
           Inl e \<Rightarrow> (Inl e, s)
         | Inr failed1 \<Rightarrow>
             (let (pushed, b) = pending_push b p;
                  s = s\<lparr>pending := bt_insert key b (pending s)\<rparr>
              in case pushed of
                   Inr (Some rb) \<Rightarrow>
                     (case run_in_sink run rb s of
                        (Inl e, s) \<Rightarrow> (Inl e, s)
                      | (Inr failed2, s) \<Rightarrow> (Inr (failed1 \<or> failed2), s))
                 | Inr None \<Rightarrow> (Inr failed1, s)
                 | Inl error \<Rightarrow>
                     (case report error (world s) of
                        (Inl e, w) \<Rightarrow> (Inl e, s\<lparr>world := w\<rparr>)
                      | (Inr _, w) \<Rightarrow> (Inr True, s\<lparr>world := w, had_failures := True\<rparr>))))"

fun flush_loop ::
  "(ready_batch \<Rightarrow> 'w \<Rightarrow> bool result \<times> 'w) \<Rightarrow> pending_batch list \<Rightarrow> bool \<Rightarrow> 'w batch_sink \<Rightarrow>
   bool result \<times> 'w batch_sink" where
  "flush_loop run [] status s = (Inr status, s)"
| "flush_loop run (b # bs) status s =
     (if pb_paths b = [] then flush_loop run bs status s
      else
        (case run_in_sink run \<lparr>ready_spec = pb_spec b, ready_paths = pb_paths b\<rparr> s of
           (Inl e, s) \<Rightarrow> (Inl e, s)
         | (Inr failed, s) \<Rightarrow> flush_loop run bs (status \<or> failed) s))"

definition ordered_flush ::
  "(ready_batch \<Rightarrow> 'w \<Rightarrow> bool result \<times> 'w) \<Rightarrow> 'w batch_sink \<Rightarrow> bool result \<times> 'w batch_sink" where
  "ordered_flush run s =
     flush_loop run (map snd (bt_entries (pending s))) (had_failures s)
       (s\<lparr>pending := bt_empty\<rparr>)"

section \<open>The batches of a parallel worker (parallel/batch.rs)\<close>

record 'w worker_batches =
  wb_pending :: "(exec_batch_key, pending_batch) btree"
  wb_limit :: nat
  wb_world :: 'w

text \<open>
  A batch that the worker runs: \<open>Inr True\<close> is a status with an action failure.
\<close>

definition run_in_worker ::
  "(ready_batch \<Rightarrow> 'w \<Rightarrow> bool result \<times> 'w) \<Rightarrow> ready_batch \<Rightarrow> 'w worker_batches \<Rightarrow>
   bool result \<times> 'w worker_batches" where
  "run_in_worker run ready s =
     (let (r, w) = run ready (wb_world s) in
      (case r of Inl e \<Rightarrow> Inl e | Inr ok \<Rightarrow> Inr (\<not> ok), s\<lparr>wb_world := w\<rparr>))"

definition worker_enqueue ::
  "(ready_batch \<Rightarrow> 'w \<Rightarrow> bool result \<times> 'w) \<Rightarrow>
   batched_exec_action \<Rightarrow> path \<Rightarrow> 'w worker_batches \<Rightarrow> bool result \<times> 'w worker_batches" where
  "worker_enqueue run spec p s =
     (let key = batch_key spec p;
          b = (case bt_get (wb_pending s) key of
                 Some b \<Rightarrow> b
               | None \<Rightarrow> pending_new spec (wb_limit s) (fixed_batch_cost spec));
          (ready, b) =
            (if pb_paths b \<noteq> [] \<and> would_overflow b p
             then (let (r, b') = take_ready b in (Some r, b')) else (None, b));
          s = s\<lparr>wb_pending := bt_insert key b (wb_pending s)\<rparr>;
          (r1, s) = (case ready of None \<Rightarrow> (Inr False, s) | Some rb \<Rightarrow> run_in_worker run rb s)
      in case r1 of
           Inl e \<Rightarrow> (Inl e, s)
         | Inr failed1 \<Rightarrow>
             (let (pushed, b) = pending_push b p;
                  s = s\<lparr>wb_pending := bt_insert key b (wb_pending s)\<rparr>
              in case pushed of
                   Inr (Some rb) \<Rightarrow>
                     (case run_in_worker run rb s of
                        (Inl e, s) \<Rightarrow> (Inl e, s)
                      | (Inr failed2, s) \<Rightarrow> (Inr (failed1 \<or> failed2), s))
                 | Inr None \<Rightarrow> (Inr failed1, s)
                 | Inl error \<Rightarrow> (Inl error, s)))"

fun worker_flush_loop ::
  "(ready_batch \<Rightarrow> 'w \<Rightarrow> bool result \<times> 'w) \<Rightarrow> pending_batch list \<Rightarrow> bool \<Rightarrow> 'w worker_batches \<Rightarrow>
   bool result \<times> 'w worker_batches" where
  "worker_flush_loop run [] status s = (Inr status, s)"
| "worker_flush_loop run (b # bs) status s =
     (if pb_paths b = [] then worker_flush_loop run bs status s
      else
        (case run_in_worker run \<lparr>ready_spec = pb_spec b, ready_paths = pb_paths b\<rparr> s of
           (Inl e, s) \<Rightarrow> (Inl e, s)
         | (Inr failed, s) \<Rightarrow> worker_flush_loop run bs (status \<or> failed) s))"

definition worker_flush_all ::
  "(ready_batch \<Rightarrow> 'w \<Rightarrow> bool result \<times> 'w) \<Rightarrow> 'w worker_batches \<Rightarrow> bool result \<times> 'w worker_batches" where
  "worker_flush_all run s =
     worker_flush_loop run (map snd (bt_entries (wb_pending s))) False
       (s\<lparr>wb_pending := bt_empty\<rparr>)"

section \<open>What batching promises\<close>

text \<open>
  The abstract view: a log of the batches that ran.  Whether the command of a batch succeeds is
  any function \<open>ok\<close>; a diagnostic leaves the log alone.
\<close>

definition logging_run :: "(ready_batch \<Rightarrow> bool) \<Rightarrow> ready_batch \<Rightarrow> ready_batch list \<Rightarrow>
    bool result \<times> ready_batch list" where
  "logging_run ok rb log = (Inr (ok rb), log @ [rb])"

definition silent_report :: "diagnostic \<Rightarrow> 'w \<Rightarrow> unit result \<times> 'w" where
  "silent_report d w = (Inr (), w)"

fun enqueue_all ::
  "(ready_batch \<Rightarrow> 'w \<Rightarrow> bool result \<times> 'w) \<Rightarrow> (diagnostic \<Rightarrow> 'w \<Rightarrow> unit result \<times> 'w) \<Rightarrow>
   (batched_exec_action \<times> path) list \<Rightarrow> 'w batch_sink \<Rightarrow> unit result \<times> 'w batch_sink" where
  "enqueue_all run report [] s = (Inr (), s)"
| "enqueue_all run report ((spec, p) # items) s =
     (case ordered_enqueue run report spec p s of
        (Inl e, s) \<Rightarrow> (Inl e, s)
      | (Inr failed, s) \<Rightarrow> enqueue_all run report items s)"

definition empty_sink :: "nat \<Rightarrow> 'w \<Rightarrow> 'w batch_sink" where
  "empty_sink lim w = \<lparr>pending = bt_empty, batch_limit = lim, had_failures = False, world = w\<rparr>"

definition fits :: "nat \<Rightarrow> batched_exec_action \<times> path \<Rightarrow> bool" where
  "fits lim item \<longleftrightarrow> fixed_batch_cost (fst item) + batched_path_cost (fst item) (snd item) \<le> lim"

definition batch_cost :: "batched_exec_action \<Rightarrow> path list \<Rightarrow> nat" where
  "batch_cost spec ps = fixed_batch_cost spec + sum_list (map (batched_path_cost spec) ps)"

definition ran_key :: "ready_batch \<Rightarrow> exec_batch_key" where
  "ran_key rb = batch_key (ready_spec rb) (hd (ready_paths rb))"

definition ran_ok :: "nat \<Rightarrow> ready_batch \<Rightarrow> bool" where
  "ran_ok lim rb \<longleftrightarrow> ready_paths rb \<noteq> [] \<and> batch_cost (ready_spec rb) (ready_paths rb) \<le> lim
     \<and> (\<forall>p\<in>set (ready_paths rb). batch_key (ready_spec rb) p = ran_key rb)"

definition ran_paths :: "exec_batch_key \<Rightarrow> ready_batch list \<Rightarrow> path list" where
  "ran_paths k log = concat (map ready_paths (filter (\<lambda>rb. ran_key rb = k) log))"

definition accepted_paths ::
  "nat \<Rightarrow> exec_batch_key \<Rightarrow> (batched_exec_action \<times> path) list \<Rightarrow> path list" where
  "accepted_paths lim k items =
     map snd (filter (\<lambda>(spec, p). fits lim (spec, p) \<and> batch_key spec p = k) items)"

definition pending_paths :: "exec_batch_key \<Rightarrow> 'w batch_sink \<Rightarrow> path list" where
  "pending_paths k s = (case bt_get (pending s) k of None \<Rightarrow> [] | Some b \<Rightarrow> pb_paths b)"

definition pending_ok :: "nat \<Rightarrow> exec_batch_key \<Rightarrow> pending_batch \<Rightarrow> bool" where
  "pending_ok lim k b \<longleftrightarrow>
     batch_id (pb_spec b) = fst k
     \<and> fixed_bytes b = fixed_batch_cost (pb_spec b) \<and> limit b = lim
     \<and> used_bytes b = batch_cost (pb_spec b) (pb_paths b)
     \<and> (pb_paths b \<noteq> [] \<longrightarrow> used_bytes b \<le> lim)
     \<and> (\<forall>p\<in>set (pb_paths b). batch_key (pb_spec b) p = k)"

text \<open>
  The planner numbers the batched actions, so an id names one action.
\<close>

definition specs_by_id ::
  "(exec_batch_id \<Rightarrow> batched_exec_action) \<Rightarrow> (batched_exec_action \<times> path) list \<Rightarrow> bool" where
  "specs_by_id action_of items \<longleftrightarrow> (\<forall>(spec, p)\<in>set items. action_of (batch_id spec) = spec)"

definition sink_ok :: "(exec_batch_id \<Rightarrow> batched_exec_action) \<Rightarrow> 'w batch_sink \<Rightarrow> bool" where
  "sink_ok action_of s \<longleftrightarrow> bt_inv (pending s)
     \<and> (\<forall>k b. bt_get (pending s) k = Some b \<longrightarrow>
          pending_ok (batch_limit s) k b \<and> pb_spec b = action_of (fst k))"

lemma fst_batch_key [simp]: "fst (batch_key spec p) = batch_id spec"
  by (simp add: batch_key_def)

lemma batch_cost_snoc:
  "batch_cost spec (ps @ [p]) = batch_cost spec ps + batched_path_cost spec p"
  "batch_cost spec [] = fixed_batch_cost spec"
  by (simp_all add: batch_cost_def)

lemma pending_ok_new:
  "batch_id spec = fst k \<Longrightarrow> pending_ok lim k (pending_new spec lim (fixed_batch_cost spec))"
  by (simp add: pending_ok_def pending_new_def batch_cost_def)

lemma pb_spec_new [simp]:
  "pb_spec (pending_new spec lim n) = spec" "pb_paths (pending_new spec lim n) = []"
  by (simp_all add: pending_new_def)

lemma sink_entry_ok:
  assumes "sink_ok action_of s" "action_of (batch_id spec) = spec"
  shows "pending_ok (batch_limit s) (batch_key spec p) (sink_entry spec (batch_key spec p) s)"
    and "pb_spec (sink_entry spec (batch_key spec p) s) = spec"
    and "pb_paths (sink_entry spec (batch_key spec p) s) = pending_paths (batch_key spec p) s"
  using assms
  by (auto simp: sink_ok_def sink_entry_def pending_paths_def pending_ok_new
      simp del: split_paired_All split: option.splits)

text \<open>
  One enqueue against the log: what it stores, what it runs, what it reports.
\<close>

definition set_pending :: "exec_batch_key \<Rightarrow> pending_batch \<Rightarrow> 'w batch_sink \<Rightarrow> 'w batch_sink" where
  "set_pending k b s = s\<lparr>pending := bt_insert k b (pending s)\<rparr>"

lemma bt_insert_twice:
  "bt_inv m \<Longrightarrow> bt_insert k b' (bt_insert k b m) = bt_insert k b' m"
  by (induction k b m rule: bt_insert.induct) (auto simp: bt_inv_def)

lemma enqueue_cases:
  assumes ok: "sink_ok action_of s" and spec: "action_of (batch_id spec) = spec"
    and b: "b = sink_entry spec (batch_key spec p) s"
    and rb: "rb = \<lparr>ready_spec = spec, ready_paths = pb_paths b\<rparr>"
    and emptied: "b0 = b\<lparr>pb_paths := [], used_bytes := fixed_bytes b\<rparr>"
  shows
    "used_bytes b + batched_path_cost spec p \<le> batch_limit s \<Longrightarrow>
     ordered_enqueue (logging_run good) silent_report spec p s
     = (Inr False, set_pending (batch_key spec p) (add_path b p (batched_path_cost spec p)) s)"
    "\<not> used_bytes b + batched_path_cost spec p \<le> batch_limit s \<Longrightarrow> fits (batch_limit s) (spec, p) \<Longrightarrow>
     ordered_enqueue (logging_run good) silent_report spec p s
     = (Inr (\<not> good rb),
        (set_pending (batch_key spec p) (add_path b0 p (batched_path_cost spec p)) s)
          \<lparr>world := world s @ [rb], had_failures := had_failures s \<or> \<not> good rb\<rparr>)"
    "\<not> fits (batch_limit s) (spec, p) \<Longrightarrow> pb_paths b \<noteq> [] \<Longrightarrow>
     ordered_enqueue (logging_run good) silent_report spec p s
     = (Inr True, (set_pending (batch_key spec p) b0 s)
          \<lparr>world := world s @ [rb], had_failures := True\<rparr>)"
    "\<not> fits (batch_limit s) (spec, p) \<Longrightarrow> pb_paths b = [] \<Longrightarrow>
     ordered_enqueue (logging_run good) silent_report spec p s
     = (Inr True, (set_pending (batch_key spec p) b s)\<lparr>had_failures := True\<rparr>)"
proof -
  note entry = sink_entry_ok [OF ok spec, of p, folded b]
  have inv: "bt_inv (pending s)" using ok by (simp add: sink_ok_def)
  have facts: "pb_spec b = spec" "limit b = batch_limit s" "fixed_bytes b = fixed_batch_cost spec"
    "used_bytes b = batch_cost spec (pb_paths b)"
    using entry by (simp_all add: pending_ok_def)
  note defs = ordered_enqueue_def Let_def b [symmetric] would_overflow_def take_ready_def
    pending_push_def add_path_def run_in_sink_def logging_run_def silent_report_def facts(1-3)
    fits_def set_pending_def emptied rb bt_insert_twice [OF inv]
  show "used_bytes b + batched_path_cost spec p \<le> batch_limit s \<Longrightarrow>
     ordered_enqueue (logging_run good) silent_report spec p s
     = (Inr False, set_pending (batch_key spec p) (add_path b p (batched_path_cost spec p)) s)"
    by (simp add: defs)
  show "\<not> used_bytes b + batched_path_cost spec p \<le> batch_limit s \<Longrightarrow> fits (batch_limit s) (spec, p) \<Longrightarrow>
     ordered_enqueue (logging_run good) silent_report spec p s
     = (Inr (\<not> good rb),
        (set_pending (batch_key spec p) (add_path b0 p (batched_path_cost spec p)) s)
          \<lparr>world := world s @ [rb], had_failures := had_failures s \<or> \<not> good rb\<rparr>)"
  proof -
    assume over: "\<not> used_bytes b + batched_path_cost spec p \<le> batch_limit s"
      and fit: "fits (batch_limit s) (spec, p)"
    then have ne: "pb_paths b \<noteq> []"
      using facts(4) by (auto simp: fits_def batch_cost_def)
    have "\<not> fixed_batch_cost spec + batched_path_cost spec p > batch_limit s"
      using fit by (simp add: fits_def)
    then show ?thesis
      using over ne by (cases "good rb") (simp_all add: defs)
  qed
  show "\<not> fits (batch_limit s) (spec, p) \<Longrightarrow> pb_paths b \<noteq> [] \<Longrightarrow>
     ordered_enqueue (logging_run good) silent_report spec p s
     = (Inr True, (set_pending (batch_key spec p) b0 s)
          \<lparr>world := world s @ [rb], had_failures := True\<rparr>)"
    using facts(4) by (cases "good rb") (auto simp: defs batch_cost_def)
  show "\<not> fits (batch_limit s) (spec, p) \<Longrightarrow> pb_paths b = [] \<Longrightarrow>
     ordered_enqueue (logging_run good) silent_report spec p s
     = (Inr True, (set_pending (batch_key spec p) b s)\<lparr>had_failures := True\<rparr>)"
    using facts(4) by (auto simp: defs batch_cost_snoc)
qed

lemma enqueue_effect:
  assumes ok: "sink_ok action_of s" and spec: "action_of (batch_id spec) = spec"
  shows "\<exists>b' runs failed.
     ordered_enqueue (logging_run good) silent_report spec p s
       = (Inr failed, (set_pending (batch_key spec p) b' s)
            \<lparr>world := world s @ runs, had_failures := had_failures s \<or> failed\<rparr>)
     \<and> failed = (\<not> fits (batch_limit s) (spec, p) \<or> (\<exists>rb\<in>set runs. \<not> good rb))
     \<and> (\<forall>rb\<in>set runs. ran_ok (batch_limit s) rb \<and> ran_key rb = batch_key spec p)
     \<and> concat (map ready_paths runs) @ pb_paths b'
         = pending_paths (batch_key spec p) s @ (if fits (batch_limit s) (spec, p) then [p] else [])
     \<and> pending_ok (batch_limit s) (batch_key spec p) b' \<and> pb_spec b' = spec"
    (is "\<exists>b' runs failed. ?P b' runs failed")
proof -
  define b where "b = sink_entry spec (batch_key spec p) s"
  define rb where "rb = \<lparr>ready_spec = spec, ready_paths = pb_paths b\<rparr>"
  define b0 where "b0 = b\<lparr>pb_paths := [], used_bytes := fixed_bytes b\<rparr>"
  note entry = sink_entry_ok [OF ok spec, of p, folded b_def]
  note cases = enqueue_cases [OF ok spec b_def rb_def b0_def, of good]
  have b_ok: "fixed_bytes b = fixed_batch_cost spec" "limit b = batch_limit s"
    "used_bytes b = batch_cost spec (pb_paths b)" "pb_spec b = spec"
    "pb_paths b \<noteq> [] \<Longrightarrow> batch_cost spec (pb_paths b) \<le> batch_limit s"
    "\<forall>q\<in>set (pb_paths b). batch_key spec q = batch_key spec p"
    using entry by (auto simp: pending_ok_def)
  have ran: "ran_ok (batch_limit s) rb \<and> ran_key rb = batch_key spec p" if "pb_paths b \<noteq> []"
    using b_ok that by (auto simp: ran_ok_def ran_key_def rb_def)
  consider (append) "used_bytes b + batched_path_cost spec p \<le> batch_limit s"
    | (flush) "\<not> used_bytes b + batched_path_cost spec p \<le> batch_limit s" "fits (batch_limit s) (spec, p)"
    | (reject_flush) "\<not> fits (batch_limit s) (spec, p)" "pb_paths b \<noteq> []"
    | (reject) "\<not> fits (batch_limit s) (spec, p)" "pb_paths b = []"
    by blast
  then show ?thesis
  proof cases
    case append
    then have "?P (add_path b p (batched_path_cost spec p)) [] False"
      using cases(1) b_ok(1-4,6) entry(3)
      by (auto simp: fits_def batch_cost_def add_path_def set_pending_def pending_ok_def)
    then show ?thesis by blast
  next
    case flush
    then have "pb_paths b \<noteq> []" using b_ok(3) by (auto simp: fits_def batch_cost_def)
    then have "?P (add_path b0 p (batched_path_cost spec p)) [rb] (\<not> good rb)"
      using cases(2) [OF flush] b_ok(1-4) entry(3) ran flush(2)
      by (simp add: rb_def add_path_def pending_ok_def b0_def batch_cost_def fits_def)
    then show ?thesis by blast
  next
    case reject_flush
    then have "?P b0 [rb] True"
      using cases(3) b_ok(1-4) entry(3) ran
      by (simp add: rb_def pending_ok_def b0_def batch_cost_def)
    then show ?thesis by blast
  next
    case reject
    then have "?P b [] True"
      using cases(4) entry by (simp add: set_pending_def)
    then show ?thesis by blast
  qed
qed

definition batches_inv ::
  "(exec_batch_id \<Rightarrow> batched_exec_action) \<Rightarrow> (ready_batch \<Rightarrow> bool) \<Rightarrow> nat \<Rightarrow>
   (batched_exec_action \<times> path) list \<Rightarrow> ready_batch list batch_sink \<Rightarrow> bool" where
  "batches_inv action_of good lim items s \<longleftrightarrow>
     sink_ok action_of s \<and> batch_limit s = lim
     \<and> (\<forall>rb\<in>set (world s). ran_ok lim rb)
     \<and> (\<forall>k. ran_paths k (world s) @ pending_paths k s = accepted_paths lim k items)
     \<and> had_failures s = ((\<exists>item\<in>set items. \<not> fits lim item) \<or> (\<exists>rb\<in>set (world s). \<not> good rb))"

lemma ran_paths_append: "ran_paths k (log @ runs) = ran_paths k log @ ran_paths k runs"
  by (simp add: ran_paths_def)

lemma ran_paths_one_key:
  "\<forall>rb\<in>set runs. ran_key rb = k \<Longrightarrow>
   ran_paths k' runs = (if k' = k then concat (map ready_paths runs) else [])"
  by (induction runs) (auto simp: ran_paths_def)

lemma accepted_paths_snoc:
  "accepted_paths lim k (items @ [(spec, p)])
   = accepted_paths lim k items
     @ (if fits lim (spec, p) \<and> batch_key spec p = k then [p] else [])"
  by (simp add: accepted_paths_def)

lemma batches_inv_enqueue:
  assumes inv: "batches_inv action_of good lim items s" and spec: "action_of (batch_id spec) = spec"
  shows "\<exists>failed s'. ordered_enqueue (logging_run good) silent_report spec p s = (Inr failed, s')
    \<and> batches_inv action_of good lim (items @ [(spec, p)]) s'"
proof -
  let ?k = "batch_key spec p"
  have ok: "sink_ok action_of s" and lim: "batch_limit s = lim" and bt: "bt_inv (pending s)"
    and ran: "\<forall>rb\<in>set (world s). ran_ok lim rb"
    and paths: "\<And>k. ran_paths k (world s) @ pending_paths k s = accepted_paths lim k items"
    and fails: "had_failures s = ((\<exists>item\<in>set items. \<not> fits lim item) \<or> (\<exists>rb\<in>set (world s). \<not> good rb))"
    using inv by (auto simp: batches_inv_def sink_ok_def simp del: split_paired_All)
  obtain b' runs failed where e:
    "ordered_enqueue (logging_run good) silent_report spec p s
       = (Inr failed, (set_pending ?k b' s)
            \<lparr>world := world s @ runs, had_failures := had_failures s \<or> failed\<rparr>)"
    "failed = (\<not> fits lim (spec, p) \<or> (\<exists>rb\<in>set runs. \<not> good rb))"
    "\<forall>rb\<in>set runs. ran_ok lim rb \<and> ran_key rb = ?k"
    "concat (map ready_paths runs) @ pb_paths b'
         = pending_paths ?k s @ (if fits lim (spec, p) then [p] else [])"
    "pending_ok lim ?k b'" "pb_spec b' = spec"
    using enqueue_effect [OF ok spec, of good p] unfolding lim by blast
  let ?s = "(set_pending ?k b' s)\<lparr>world := world s @ runs, had_failures := had_failures s \<or> failed\<rparr>"
  have get: "bt_get (pending ?s) k = (if k = ?k then Some b' else bt_get (pending s) k)" for k
    by (simp add: set_pending_def bt_get_insert [OF bt])
  have "sink_ok action_of ?s"
    using ok e(5,6) spec lim unfolding sink_ok_def get
    by (auto simp: set_pending_def bt_inv_insert simp del: split_paired_All)
  moreover have "ran_paths k (world ?s) @ pending_paths k ?s = accepted_paths lim k (items @ [(spec, p)])" for k
  proof (cases "k = ?k")
    case True
    then show ?thesis
      using paths [of ?k] e(3,4) get [of ?k]
      by (simp add: ran_paths_append ran_paths_one_key [of runs ?k] accepted_paths_snoc
          pending_paths_def)
  next
    case False
    then show ?thesis
      using paths [of k] e(3) get [of k]
      by (simp add: ran_paths_append ran_paths_one_key [of runs ?k] accepted_paths_snoc
          pending_paths_def)
  qed
  moreover have "had_failures ?s
      = ((\<exists>item\<in>set (items @ [(spec, p)]). \<not> fits lim item) \<or> (\<exists>rb\<in>set (world ?s). \<not> good rb))"
    using fails e(2) by auto
  ultimately have "batches_inv action_of good lim (items @ [(spec, p)]) ?s"
    using lim ran e(3) by (auto simp: batches_inv_def set_pending_def simp del: split_paired_All)
  then show ?thesis using e(1) by blast
qed

lemma batches_inv_all:
  "batches_inv action_of good lim items s \<Longrightarrow> specs_by_id action_of items' \<Longrightarrow>
   \<exists>s'. enqueue_all (logging_run good) silent_report items' s = (Inr (), s')
     \<and> batches_inv action_of good lim (items @ items') s'"
proof (induction items' arbitrary: items s)
  case (Cons item items')
  obtain spec p where item: "item = (spec, p)" by (cases item)
  have "action_of (batch_id spec) = spec" and rest: "specs_by_id action_of items'"
    using Cons.prems(2) by (auto simp: specs_by_id_def item)
  then obtain failed s' where s': "ordered_enqueue (logging_run good) silent_report spec p s = (Inr failed, s')"
    "batches_inv action_of good lim (items @ [(spec, p)]) s'"
    using batches_inv_enqueue [OF Cons.prems(1)] by blast
  then show ?case
    using Cons.IH [OF s'(2) rest] by (simp add: item)
qed simp

text \<open>Flushing runs what is left, in key order.\<close>

definition ready_of :: "pending_batch \<Rightarrow> ready_batch" where
  "ready_of b = \<lparr>ready_spec = pb_spec b, ready_paths = pb_paths b\<rparr>"

definition left_over :: "pending_batch list \<Rightarrow> ready_batch list" where
  "left_over bs = map ready_of (filter (\<lambda>b. pb_paths b \<noteq> []) bs)"

lemma flush_loop_logs:
  "flush_loop (logging_run good) bs status s =
   (Inr (status \<or> (\<exists>rb\<in>set (left_over bs). \<not> good rb)),
    s\<lparr>world := world s @ left_over bs,
      had_failures := had_failures s \<or> (\<exists>rb\<in>set (left_over bs). \<not> good rb)\<rparr>)"
proof (induction bs arbitrary: status s)
  case (Cons b bs)
  have "run_in_sink (logging_run good) (ready_of b) s
      = (Inr (\<not> good (ready_of b)),
         s\<lparr>world := world s @ [ready_of b], had_failures := had_failures s \<or> \<not> good (ready_of b)\<rparr>)"
    by (cases "good (ready_of b)") (simp_all add: run_in_sink_def logging_run_def)
  then show ?case
    using Cons.IH by (auto simp: left_over_def ready_of_def)
qed (simp add: left_over_def)

lemma ran_paths_left_over:
  assumes "distinct (map fst m)" "\<forall>(k, b)\<in>set m. \<forall>p\<in>set (pb_paths b). batch_key (pb_spec b) p = k"
  shows "ran_paths k (left_over (map snd m)) = (case map_of m k of None \<Rightarrow> [] | Some b \<Rightarrow> pb_paths b)"
  using assms
proof (induction m)
  case (Cons kb m)
  obtain k' b where kb: "kb = (k', b)" by (cases kb)
  have key: "ran_key (ready_of b) = k'" if "pb_paths b \<noteq> []"
    using Cons.prems(2) that by (auto simp: kb ran_key_def ready_of_def)
  have "ready_paths (ready_of b) = pb_paths b" by (simp add: ready_of_def)
  then have step: "ran_paths k (left_over (b # map snd m))
      = (if k = k' then pb_paths b else []) @ ran_paths k (left_over (map snd m))"
    using key by (cases "pb_paths b = []") (simp_all add: left_over_def ran_paths_def)
  have IH: "ran_paths k (left_over (map snd m)) = (case map_of m k of None \<Rightarrow> [] | Some b \<Rightarrow> pb_paths b)"
    using Cons.IH Cons.prems by simp
  have "map_of m k' = None"
    using Cons.prems(1) by (simp add: kb map_of_eq_None_iff)
  then show ?case
    using step IH by (cases "k = k'") (simp_all add: kb)
qed (simp add: left_over_def ran_paths_def)

text \<open>
  C11.  Batching loses, repeats and reorders nothing.  Whatever succeeds, enqueueing any sequence
  of entries for \<^verbatim>\<open>-exec ... +\<close> and \<^verbatim>\<open>-execdir ... +\<close> actions and then flushing runs
  only batches that are not empty, whose arguments fit the limit and whose paths share the
  action and the working directory; for every key, the paths of its batches, one after the
  other, are exactly the enqueued paths that fit, in order; and the status reports a failure
  exactly when some path was too large or some command failed.
\<close>

theorem batches_run_every_path_once:
  assumes "specs_by_id action_of items"
  shows "\<exists>s s' failed.
     enqueue_all (logging_run good) silent_report items (empty_sink lim []) = (Inr (), s)
     \<and> ordered_flush (logging_run good) s = (Inr failed, s')
     \<and> (\<forall>rb\<in>set (world s'). ran_ok lim rb)
     \<and> (\<forall>k. ran_paths k (world s') = accepted_paths lim k items)
     \<and> failed = ((\<exists>item\<in>set items. \<not> fits lim item) \<or> (\<exists>rb\<in>set (world s'). \<not> good rb))"
proof -
  have "batches_inv action_of good lim [] (empty_sink lim [])"
    by (simp add: batches_inv_def empty_sink_def sink_ok_def bt.inv_empty bt.get_empty
        pending_paths_def ran_paths_def accepted_paths_def del: split_paired_All)
  then obtain s where s: "enqueue_all (logging_run good) silent_report items (empty_sink lim []) = (Inr (), s)"
    and inv: "batches_inv action_of good lim items s"
    using batches_inv_all [OF _ assms] by fastforce
  let ?left = "left_over (map snd (pending s))"
  have bt: "bt_inv (pending s)"
    and entries: "\<And>k b. (k, b) \<in> set (pending s) \<Longrightarrow> pending_ok lim k b"
    using inv bt.entries_get [of "pending s"]
    by (auto simp: batches_inv_def sink_ok_def bt_entries_def simp del: split_paired_All)
  have dist: "distinct (map fst (pending s))"
    using bt.entries_distinct [OF bt] by (simp add: bt_entries_def)
  have "ran_paths k ?left = pending_paths k s" for k
    unfolding pending_paths_def bt_get_def
    by (rule ran_paths_left_over [OF dist]) (use entries in \<open>auto simp: pending_ok_def\<close>)
  then have "ran_paths k (world s @ ?left) = accepted_paths lim k items" for k
    using inv by (simp add: batches_inv_def ran_paths_append del: split_paired_All)
  moreover have "ran_ok lim rb" if "rb \<in> set ?left" for rb
    using that entries
    by (fastforce simp: left_over_def ready_of_def ran_ok_def ran_key_def pending_ok_def)
  moreover have "\<forall>rb\<in>set (world s). ran_ok lim rb"
    and "had_failures s = ((\<exists>item\<in>set items. \<not> fits lim item) \<or> (\<exists>rb\<in>set (world s). \<not> good rb))"
    using inv by (simp_all add: batches_inv_def del: split_paired_All)
  moreover obtain failed s' where flush: "ordered_flush (logging_run good) s = (Inr failed, s')"
    "world s' = world s @ ?left"
    "failed \<longleftrightarrow> had_failures s \<or> (\<exists>rb\<in>set ?left. \<not> good rb)"
    by (simp add: ordered_flush_def flush_loop_logs bt_entries_def)
  ultimately have "(\<forall>rb\<in>set (world s'). ran_ok lim rb)
     \<and> (\<forall>k. ran_paths k (world s') = accepted_paths lim k items)
     \<and> failed = ((\<exists>item\<in>set items. \<not> fits lim item) \<or> (\<exists>rb\<in>set (world s'). \<not> good rb))"
    by (simp add: ball_Un bex_Un disj_ac)
  then show ?thesis using s flush(1) by blast
qed

definition sample_batched :: batched_exec_action where
  "sample_batched = \<lparr>batch_id = 0, batch_semantics = SemDirLocal, argv_prefix = [''wc'']\<rparr>"

lemma batches_run_every_path_once_witness:
  "\<exists>s' :: ready_batch list batch_sink. \<forall>k. ran_paths k (world s')
     = accepted_paths 16 k (map (Pair sample_batched) [''a/x'', ''b/y'', ''a/z'', ''a/too-long-for-it''])"
proof -
  define items where "items = map (Pair sample_batched) [''a/x'', ''b/y'', ''a/z'', ''a/too-long-for-it'']"
  have "specs_by_id (\<lambda>_. sample_batched) items"
    by (simp add: specs_by_id_def items_def)
  from batches_run_every_path_once [OF this, of "\<lambda>_. True" 16]
  have "\<exists>s' :: ready_batch list batch_sink. \<forall>k. ran_paths k (world s') = accepted_paths 16 k items"
    by blast
  then show ?thesis unfolding items_def .
qed

text \<open>
  The callers empty an overflowing batch before they push.  Push alone does not check the path
  it keeps after a flush: a batch above the limit can result.
\<close>

lemma push_alone_exceeds_limit:
  "case pending_push (add_path (pending_new sample_batched 12 3) ''a/x'' 4) ''a/much-too-long'' of
     (Inr (Some flushed), b) \<Rightarrow> ready_paths flushed = [''a/x''] \<and> used_bytes b > limit b
   | _ \<Rightarrow> False"
  by code_simp

text \<open>
  A path that is too large: the ordered sink reports it and goes on with a failure status, the
  parallel worker returns it as an error.
\<close>

lemma too_large_ordered_and_worker:
  "fst (ordered_enqueue (logging_run (\<lambda>_. True)) silent_report sample_batched ''a/too-long-for-it''
      (empty_sink 16 [])) = Inr True"
  "fst (worker_enqueue (logging_run (\<lambda>_. True)) sample_batched ''a/too-long-for-it''
      \<lparr>wb_pending = bt_empty, wb_limit = 16, wb_world = []\<rparr>) = Inl (path_too_large sample_batched ''a/too-long-for-it'')"
  by code_simp+

end
