(* ===== verification/Entry.thy ===== *)
theory Entry
  imports Std_Path Cmd_Ast Time_Match
begin

text \<open>
  One file-system entry: \<^verbatim>\<open>src/src/entry.rs\<close>, \<^verbatim>\<open>src/src/identity.rs\<close> and the metadata
  view of \<^verbatim>\<open>src/src/platform/filesystem.rs\<close> (Unix).  The system calls are a record of
  functions, the \<^verbatim>\<open>PlatformReader\<close>; as a function gives one answer to one question, the
  caches of \<^verbatim>\<open>EntryData\<close> (\<^verbatim>\<open>OnceLock\<close>), which keep the first answer, are not visible.
\<close>

section \<open>Platform data\<close>

record io_error =
  io_text :: string
  raw_os_error :: "int option"

type_synonym 'a io_result = "io_error + 'a"

datatype entry_kind =
  KindFile | KindDirectory | KindSymlink | KindBlock | KindCharacter | KindFifo | KindSocket | KindUnknown

datatype printf_target = TargetKind entry_kind | TargetLoop | TargetMissing | TargetOtherError

datatype access_mode = AccessRead | AccessWrite | AccessExecute

fun as_flag :: "access_mode \<Rightarrow> int" where
  "as_flag AccessRead = 4"
| "as_flag AccessWrite = 2"
| "as_flag AccessExecute = 1"

datatype file_identity =
    UnixId (id_dev: u64) (id_ino: u64)
  | WindowsId (id_volume: u64) (id_file: "128 word")

definition device_number :: "file_identity \<Rightarrow> u64" where
  "device_number i = (case i of UnixId dev ino \<Rightarrow> dev | WindowsId vol fid \<Rightarrow> vol)"

definition inode_number :: "file_identity \<Rightarrow> u64" where
  "inode_number i = (case i of UnixId dev ino \<Rightarrow> ino | WindowsId vol fid \<Rightarrow> ucast fid)"

datatype filesystem_key = KeyNumeric u64 | KeyText os_string

fun key_numeric :: "filesystem_key \<Rightarrow> u64 option" where
  "key_numeric (KeyNumeric v) = Some v"
| "key_numeric (KeyText t) = None"

datatype principal_id = PrincipalNumeric u32 | PrincipalSid string

fun principal_numeric :: "principal_id \<Rightarrow> u32 option" where
  "principal_numeric (PrincipalNumeric v) = Some v"
| "principal_numeric (PrincipalSid s) = None"

record metadata_view =
  view_kind :: entry_kind
  view_identity :: "file_identity option"
  view_size :: u64
  view_allocation_size :: "u64 option"
  view_owner :: "principal_id option"
  view_group :: "principal_id option"
  view_mode_bits :: "u32 option"
  view_flag_bits :: "u64 option"
  view_native_attributes :: "u32 option"
  view_reparse_tag :: "u32 option"
  view_link_count :: "u64 option"
  view_blocks_512 :: "u64 option"
  view_atime :: timestamp
  view_ctime :: timestamp
  view_mtime :: timestamp
  view_birth_time :: "timestamp option"
  view_filesystem_key :: "filesystem_key option"
  view_device_number :: "u64 option"

datatype reparse_type_class =
    ReparseSymbolic | ReparseMountPoint | ReparseAppExecLink | ReparseWslSymlink
  | ReparseAfUnix | ReparseCloud | ReparseProjFs | ReparseOther

definition classify_reparse_tag :: "u32 \<Rightarrow> reparse_type_class" where
  "classify_reparse_tag tag = ReparseOther"

definition is_traversal_link :: "metadata_view \<Rightarrow> bool" where
  "is_traversal_link v \<longleftrightarrow>
     view_kind v = KindSymlink \<or> view_reparse_tag v = Some 0xA0000003"

definition missing_field :: "string \<Rightarrow> path \<Rightarrow> diagnostic" where
  "missing_field label p =
     diagnostic_new (utf8_lossy p @ '': '' @ label @ '' is not available on this platform'') 1"

definition path_error :: "path \<Rightarrow> io_error \<Rightarrow> diagnostic" where
  "path_error p e = diagnostic_new (utf8_lossy p @ '': '' @ io_text e) 1"

record platform_reader =
  read_metadata_view :: "path \<Rightarrow> bool \<Rightarrow> metadata_view io_result"
  read_link :: "path \<Rightarrow> path io_result"
  read_directory_is_empty :: "path \<Rightarrow> bool io_result"
  read_access :: "path \<Rightarrow> access_mode \<Rightarrow> bool io_result"

text \<open>
  A \<^verbatim>\<open>FileType\<close> is the file-type field of a mode; the tests of the standard library
  compare it with the \<^verbatim>\<open>S_IF*\<close> constants.
\<close>

type_synonym file_type = u32

definition file_type_to_kind :: "file_type \<Rightarrow> entry_kind" where
  "file_type_to_kind ft =
     (if ft = 0x4000 then KindDirectory
      else if ft = 0x8000 then KindFile
      else if ft = 0xA000 then KindSymlink
      else if ft = 0x6000 then KindBlock
      else if ft = 0x2000 then KindCharacter
      else if ft = 0x1000 then KindFifo
      else if ft = 0xC000 then KindSocket
      else KindUnknown)"

section \<open>What \<^verbatim>\<open>stat\<close> reports as a view\<close>

record stat_metadata =
  st_file_type :: file_type
  st_dev :: u64
  st_ino :: u64
  st_size :: u64
  st_uid :: u32
  st_gid :: u32
  st_mode :: u32
  st_nlink :: u64
  st_blocks :: u64
  st_atime :: int
  st_atime_nsec :: int
  st_ctime :: int
  st_ctime_nsec :: int
  st_mtime :: int
  st_mtime_nsec :: int
  st_rdev :: u64

definition identity_from_metadata :: "stat_metadata \<Rightarrow> file_identity" where
  "identity_from_metadata m = UnixId (st_dev m) (st_ino m)"

text \<open>
  The three probes that \<^verbatim>\<open>stat\<close> does not answer are arguments: the file flags, the birth
  time and the file-system key.
\<close>

definition ok_flatten :: "('e + 'a option) \<Rightarrow> 'a option" where
  "ok_flatten r = (case r of Inl e \<Rightarrow> None | Inr x \<Rightarrow> x)"

definition ok_value :: "('e + 'a) \<Rightarrow> 'a option" where
  "ok_value r = (case r of Inl e \<Rightarrow> None | Inr x \<Rightarrow> Some x)"

definition metadata_view_from_metadata ::
  "(path \<Rightarrow> bool \<Rightarrow> u64 option io_result) \<Rightarrow> (path \<Rightarrow> bool \<Rightarrow> timestamp option result) \<Rightarrow>
   (path \<Rightarrow> bool \<Rightarrow> filesystem_key io_result) \<Rightarrow> path \<Rightarrow> stat_metadata \<Rightarrow> bool \<Rightarrow> metadata_view" where
  "metadata_view_from_metadata file_flags birth_time filesystem_key p m follow =
     (let kind = file_type_to_kind (st_file_type m) in
      \<lparr>view_kind = kind,
       view_identity = Some (identity_from_metadata m),
       view_size = st_size m,
       view_allocation_size = None,
       view_owner = Some (PrincipalNumeric (st_uid m)),
       view_group = Some (PrincipalNumeric (st_gid m)),
       view_mode_bits = Some (and (st_mode m) 0xFFF),
       view_flag_bits = ok_flatten (file_flags p follow),
       view_native_attributes = None,
       view_reparse_tag = None,
       view_link_count = Some (st_nlink m),
       view_blocks_512 = Some (st_blocks m),
       view_atime = Timestamp (st_atime m) (st_atime_nsec m),
       view_ctime = Timestamp (st_ctime m) (st_ctime_nsec m),
       view_mtime = Timestamp (st_mtime m) (st_mtime_nsec m),
       view_birth_time = ok_flatten (birth_time p follow),
       view_filesystem_key = ok_value (filesystem_key p follow),
       view_device_number = (if kind \<in> {KindBlock, KindCharacter} then Some (st_rdev m) else None)\<rparr>)"

definition load_metadata_view ::
  "(path \<Rightarrow> bool \<Rightarrow> u64 option io_result) \<Rightarrow> (path \<Rightarrow> bool \<Rightarrow> timestamp option result) \<Rightarrow>
   (path \<Rightarrow> bool \<Rightarrow> filesystem_key io_result) \<Rightarrow>
   (path \<Rightarrow> stat_metadata io_result) \<Rightarrow> (path \<Rightarrow> stat_metadata io_result) \<Rightarrow>
   path \<Rightarrow> bool \<Rightarrow> metadata_view io_result" where
  "load_metadata_view file_flags birth_time filesystem_key stat lstat p follow =
     try_bind (if follow then stat p else lstat p)
       (\<lambda>m. Inr (metadata_view_from_metadata file_flags birth_time filesystem_key p m follow))"

text \<open>The access probe falls back to the second system call when the first is missing.\<close>

definition ENOSYS :: int where
  "ENOSYS = 38"

definition read_access_with ::
  "'p \<Rightarrow> access_mode \<Rightarrow> ('p \<Rightarrow> access_mode \<Rightarrow> bool io_result) \<Rightarrow>
   ('p \<Rightarrow> access_mode \<Rightarrow> bool io_result) \<Rightarrow> bool io_result" where
  "read_access_with p mode first_call second_call =
     (case first_call p mode of
        Inr r \<Rightarrow> Inr r
      | Inl e \<Rightarrow> if raw_os_error e = Some ENOSYS then second_call p mode else Inl e)"

section \<open>Entries\<close>

record entry =
  entry_path :: path
  entry_depth :: nat
  is_command_line_root :: bool
  root_path :: path
  file_type_hint :: "file_type option"
  entry_reader :: platform_reader

definition with_reader_hint_and_root ::
  "path \<Rightarrow> nat \<Rightarrow> bool \<Rightarrow> path \<Rightarrow> file_type option \<Rightarrow> platform_reader \<Rightarrow> entry" where
  "with_reader_hint_and_root p depth is_root root hint reader =
     \<lparr>entry_path = p, entry_depth = depth, is_command_line_root = is_root, root_path = root,
      file_type_hint = hint, entry_reader = reader\<rparr>"

definition entry_new :: "platform_reader \<Rightarrow> path \<Rightarrow> nat \<Rightarrow> bool \<Rightarrow> entry" where
  "entry_new reader p depth is_root = with_reader_hint_and_root p depth is_root p None reader"

definition with_file_type_hint_and_root ::
  "platform_reader \<Rightarrow> path \<Rightarrow> nat \<Rightarrow> bool \<Rightarrow> path \<Rightarrow> file_type option \<Rightarrow> entry" where
  "with_file_type_hint_and_root reader p depth is_root root hint =
     with_reader_hint_and_root p depth is_root root hint reader"

definition relative_to_root :: "entry \<Rightarrow> path result" where
  "relative_to_root e =
     ok_or (diagnostic_new ''internal error: entry root mismatch'' 1)
       (path_strip_prefix (entry_path e) (root_path e))"

definition dirname_for_printf :: "entry \<Rightarrow> path" where
  "dirname_for_printf e = relative_dir_for_printf (entry_path e)"

definition start_path :: "entry \<Rightarrow> path" where
  "start_path e = root_path e"

definition physical_view :: "entry \<Rightarrow> metadata_view result" where
  "physical_view e =
     map_err (path_error (entry_path e)) (read_metadata_view (entry_reader e) (entry_path e) False)"

definition physical_is_traversal_link :: "entry \<Rightarrow> bool result" where
  "physical_is_traversal_link e = try_bind (physical_view e) (\<lambda>v. Inr (is_traversal_link v))"

definition logical_view :: "entry \<Rightarrow> metadata_view option" where
  "logical_view e =
     (case physical_is_traversal_link e of
        Inr True \<Rightarrow> ok_value (read_metadata_view (entry_reader e) (entry_path e) True)
      | _ \<Rightarrow> None)"

definition uses_logical_view :: "entry \<Rightarrow> follow_mode \<Rightarrow> bool" where
  "uses_logical_view e m =
     (case m of
        Physical \<Rightarrow> False
      | CommandLineOnly \<Rightarrow> is_command_line_root e
      | Logical \<Rightarrow> True)"

definition physical_kind :: "entry \<Rightarrow> entry_kind result" where
  "physical_kind e =
     (case file_type_hint e of
        Some ft \<Rightarrow> Inr (file_type_to_kind ft)
      | None \<Rightarrow> try_bind (physical_view e) (\<lambda>v. Inr (view_kind v)))"

definition physical_identity :: "entry \<Rightarrow> file_identity result" where
  "physical_identity e =
     try_bind (physical_view e)
       (\<lambda>v. ok_or (missing_field ''file identity'' (entry_path e)) (view_identity v))"

text \<open>
  The guard of the three readers below: the logical view is asked for, and the entry is a link.
\<close>

definition follows_link :: "entry \<Rightarrow> follow_mode \<Rightarrow> bool result" where
  "follows_link e m = (if uses_logical_view e m then physical_is_traversal_link e else Inr False)"

definition active_view :: "entry \<Rightarrow> follow_mode \<Rightarrow> metadata_view result" where
  "active_view e m =
     try_bind (follows_link e m)
       (\<lambda>follow. case (if follow then logical_view e else None) of
          Some v \<Rightarrow> Inr v
        | None \<Rightarrow> physical_view e)"

definition logical_kind :: "entry \<Rightarrow> entry_kind result" where
  "logical_kind e =
     try_bind (physical_is_traversal_link e)
       (\<lambda>link. if \<not> link then physical_kind e
               else (case logical_view e of Some v \<Rightarrow> Inr (view_kind v) | None \<Rightarrow> physical_kind e))"

definition logical_identity :: "entry \<Rightarrow> file_identity option" where
  "logical_identity e =
     (case physical_is_traversal_link e of
        Inl err \<Rightarrow> None
      | Inr link \<Rightarrow>
          if \<not> link then ok_value (physical_identity e)
          else (case logical_view e of None \<Rightarrow> None | Some v \<Rightarrow> view_identity v))"

definition active_identity :: "entry \<Rightarrow> follow_mode \<Rightarrow> file_identity result" where
  "active_identity e m =
     try_bind (follows_link e m)
       (\<lambda>follow. case (if follow then logical_identity e else None) of
          Some i \<Rightarrow> Inr i
        | None \<Rightarrow> physical_identity e)"

definition active_inode :: "entry \<Rightarrow> follow_mode \<Rightarrow> u64 result" where
  "active_inode e m = try_bind (active_identity e m) (\<lambda>i. Inr (inode_number i))"

definition active_device :: "entry \<Rightarrow> follow_mode \<Rightarrow> u64 result" where
  "active_device e m = try_bind (active_identity e m) (\<lambda>i. Inr (device_number i))"

definition active_device_number :: "entry \<Rightarrow> follow_mode \<Rightarrow> u64 option result" where
  "active_device_number e m = try_bind (active_view e m) (\<lambda>v. Inr (view_device_number v))"

text \<open>A field of the active view that the platform may not have.\<close>

definition active_field :: "string \<Rightarrow> (metadata_view \<Rightarrow> 'a option) \<Rightarrow> entry \<Rightarrow> follow_mode \<Rightarrow> 'a result" where
  "active_field label field e m =
     try_bind (active_view e m) (\<lambda>v. ok_or (missing_field label (entry_path e)) (field v))"

definition active_owner :: "entry \<Rightarrow> follow_mode \<Rightarrow> principal_id result" where
  "active_owner e m = active_field ''owner id'' view_owner e m"

definition active_group :: "entry \<Rightarrow> follow_mode \<Rightarrow> principal_id result" where
  "active_group e m = active_field ''group id'' view_group e m"

definition active_uid :: "entry \<Rightarrow> follow_mode \<Rightarrow> u32 result" where
  "active_uid e m =
     try_bind (active_owner e m)
       (\<lambda>i. ok_or (missing_field ''owner id'' (entry_path e)) (principal_numeric i))"

definition active_gid :: "entry \<Rightarrow> follow_mode \<Rightarrow> u32 result" where
  "active_gid e m =
     try_bind (active_group e m)
       (\<lambda>i. ok_or (missing_field ''group id'' (entry_path e)) (principal_numeric i))"

definition active_mode_bits :: "entry \<Rightarrow> follow_mode \<Rightarrow> u32 result" where
  "active_mode_bits e m = active_field ''mode bits'' view_mode_bits e m"

definition active_flag_bits :: "entry \<Rightarrow> follow_mode \<Rightarrow> u64 option result" where
  "active_flag_bits e m = try_bind (active_view e m) (\<lambda>v. Inr (view_flag_bits v))"

definition active_native_attributes :: "entry \<Rightarrow> follow_mode \<Rightarrow> u32 result" where
  "active_native_attributes e m = active_field ''native attributes'' view_native_attributes e m"

definition physical_reparse_tag :: "entry \<Rightarrow> u32 option result" where
  "physical_reparse_tag e = try_bind (physical_view e) (\<lambda>v. Inr (view_reparse_tag v))"

definition active_size :: "entry \<Rightarrow> follow_mode \<Rightarrow> u64 result" where
  "active_size e m = try_bind (active_view e m) (\<lambda>v. Inr (view_size v))"

definition active_allocation_size :: "entry \<Rightarrow> follow_mode \<Rightarrow> u64 result" where
  "active_allocation_size e m = active_field ''allocation size'' view_allocation_size e m"

definition active_atime :: "entry \<Rightarrow> follow_mode \<Rightarrow> timestamp result" where
  "active_atime e m = try_bind (active_view e m) (\<lambda>v. Inr (view_atime v))"

definition active_ctime :: "entry \<Rightarrow> follow_mode \<Rightarrow> timestamp result" where
  "active_ctime e m = try_bind (active_view e m) (\<lambda>v. Inr (view_ctime v))"

definition active_mtime :: "entry \<Rightarrow> follow_mode \<Rightarrow> timestamp result" where
  "active_mtime e m = try_bind (active_view e m) (\<lambda>v. Inr (view_mtime v))"

definition active_birth_time :: "entry \<Rightarrow> follow_mode \<Rightarrow> timestamp option result" where
  "active_birth_time e m = try_bind (active_view e m) (\<lambda>v. Inr (view_birth_time v))"

definition active_link_count :: "entry \<Rightarrow> follow_mode \<Rightarrow> u64 result" where
  "active_link_count e m = active_field ''link count'' view_link_count e m"

definition active_blocks :: "entry \<Rightarrow> follow_mode \<Rightarrow> u64 result" where
  "active_blocks e m = active_field ''block count'' view_blocks_512 e m"

definition active_mount_id :: "entry \<Rightarrow> follow_mode \<Rightarrow> u64 result" where
  "active_mount_id e m =
     active_field ''filesystem boundary key''
       (\<lambda>v. case view_filesystem_key v of None \<Rightarrow> None | Some key \<Rightarrow> key_numeric key) e m"

definition entry_access :: "entry \<Rightarrow> access_mode \<Rightarrow> bool result" where
  "entry_access e mode =
     Inr (case read_access (entry_reader e) (entry_path e) mode of Inl err \<Rightarrow> False | Inr b \<Rightarrow> b)"

definition active_kind :: "entry \<Rightarrow> follow_mode \<Rightarrow> entry_kind result" where
  "active_kind e m =
     try_bind (follows_link e m)
       (\<lambda>follow. case (if follow then logical_view e else None) of
          Some v \<Rightarrow> Inr (view_kind v)
        | None \<Rightarrow> physical_kind e)"

definition active_is_empty :: "entry \<Rightarrow> follow_mode \<Rightarrow> bool result" where
  "active_is_empty e m =
     try_bind (active_kind e m)
       (\<lambda>kind. case kind of
          KindFile \<Rightarrow> try_bind (active_size e m) (\<lambda>size. Inr (size = 0))
        | KindDirectory \<Rightarrow>
            try_bind (active_view e m)
              (\<lambda>_. map_err (path_error (entry_path e))
                     (read_directory_is_empty (entry_reader e) (entry_path e)))
        | _ \<Rightarrow> Inr False)"

definition ELOOP :: int where
  "ELOOP = 40"

definition ENOENT :: int where
  "ENOENT = 2"

definition printf_target_kind :: "entry \<Rightarrow> follow_mode \<Rightarrow> printf_target result" where
  "printf_target_kind e m =
     try_bind (active_kind e m)
       (\<lambda>kind. if kind \<noteq> KindSymlink then Inr (TargetKind kind)
               else
                 (case read_metadata_view (entry_reader e) (entry_path e) True of
                    Inr v \<Rightarrow> Inr (TargetKind (view_kind v))
                  | Inl err \<Rightarrow>
                      Inr (if raw_os_error err = Some ELOOP then TargetLoop
                           else if raw_os_error err = Some ENOENT then TargetMissing
                           else TargetOtherError)))"

definition active_directory_identity :: "entry \<Rightarrow> follow_mode \<Rightarrow> file_identity option result" where
  "active_directory_identity e m =
     try_bind (physical_is_traversal_link e)
       (\<lambda>link. if link \<and> \<not> uses_logical_view e m then Inr None
               else try_bind (active_kind e m)
                 (\<lambda>kind. if kind \<noteq> KindDirectory then Inr None
                         else try_bind (active_identity e m) (\<lambda>i. Inr (Some i))))"

definition xtype_kind :: "entry \<Rightarrow> follow_mode \<Rightarrow> entry_kind result" where
  "xtype_kind e m = (if m = Logical then physical_kind e else logical_kind e)"

definition physical_link_target :: "entry \<Rightarrow> os_string option result" where
  "physical_link_target e =
     try_bind (physical_kind e)
       (\<lambda>kind. if kind \<noteq> KindSymlink then Inr None
               else try_bind (map_err (path_error (entry_path e))
                                (read_link (entry_reader e) (entry_path e)))
                      (\<lambda>target. Inr (Some target)))"

definition active_link_target :: "entry \<Rightarrow> follow_mode \<Rightarrow> os_string option result" where
  "active_link_target e m =
     try_bind (physical_kind e)
       (\<lambda>kind. if kind \<noteq> KindSymlink then Inr None
               else (case m of
                  Physical \<Rightarrow> physical_link_target e
                | CommandLineOnly \<Rightarrow>
                    if is_command_line_root e
                    then (if logical_view e \<noteq> None then Inr None else physical_link_target e)
                    else physical_link_target e
                | Logical \<Rightarrow>
                    if logical_view e \<noteq> None then Inr None else physical_link_target e))"

section \<open>Which object an entry stands for\<close>

text \<open>
  What the program relies on from the Unix reader for one entry: \<^verbatim>\<open>lstat\<close> succeeds with
  \<open>pv\<close>; views have an identity and no reparse tag; \<^verbatim>\<open>stat\<close> never reports a symbolic
  link; the type that \<^verbatim>\<open>readdir\<close> gave agrees with \<^verbatim>\<open>lstat\<close>.
\<close>

definition unix_entry :: "entry \<Rightarrow> metadata_view \<Rightarrow> bool" where
  "unix_entry e pv \<longleftrightarrow>
     read_metadata_view (entry_reader e) (entry_path e) False = Inr pv
     \<and> view_identity pv \<noteq> None \<and> view_reparse_tag pv = None
     \<and> (case read_metadata_view (entry_reader e) (entry_path e) True of
          Inl err \<Rightarrow> True | Inr lv \<Rightarrow> view_identity lv \<noteq> None \<and> view_kind lv \<noteq> KindSymlink)
     \<and> (case file_type_hint e of None \<Rightarrow> True | Some ft \<Rightarrow> file_type_to_kind ft = view_kind pv)"

text \<open>
  The specification: in a mode that follows it, a link stands for its target when the target
  can be read and for itself otherwise; everything else stands for itself.
\<close>

definition denoted_view :: "entry \<Rightarrow> follow_mode \<Rightarrow> metadata_view \<Rightarrow> metadata_view" where
  "denoted_view e m pv =
     (if view_kind pv = KindSymlink \<and> (m = Logical \<or> m = CommandLineOnly \<and> is_command_line_root e)
      then (case read_metadata_view (entry_reader e) (entry_path e) True of
              Inr lv \<Rightarrow> lv | Inl err \<Rightarrow> pv)
      else pv)"

named_theorems entry_simps \<open>an entry of the Unix reader\<close>

lemma unix_entry_physical [entry_simps]:
  assumes "unix_entry e pv"
  shows "physical_view e = Inr pv"
    and "physical_is_traversal_link e = Inr (view_kind pv = KindSymlink)"
    and "physical_kind e = Inr (view_kind pv)"
    and "physical_identity e = Inr (the (view_identity pv))"
    and "logical_view e = (if view_kind pv = KindSymlink
           then ok_value (read_metadata_view (entry_reader e) (entry_path e) True) else None)"
  using assms
  by (auto simp: unix_entry_def physical_view_def physical_is_traversal_link_def physical_kind_def
      physical_identity_def is_traversal_link_def map_err_def logical_view_def split: option.splits)

lemma uses_logical_view_iff [entry_simps]:
  "uses_logical_view e m \<longleftrightarrow> m = Logical \<or> m = CommandLineOnly \<and> is_command_line_root e"
  by (cases m) (simp_all add: uses_logical_view_def)

lemma unix_entry_active [entry_simps]:
  assumes "unix_entry e pv" and v_def: "v = denoted_view e m pv"
  shows "active_view e m = Inr v"
    and "active_kind e m = Inr (view_kind v)"
    and "active_identity e m = Inr (the (view_identity v))"
    and "active_directory_identity e m =
           Inr (if view_kind v = KindDirectory then view_identity v else None)"
    and "active_link_target e m =
           (if view_kind v = KindSymlink then physical_link_target e else Inr None)"
    and "xtype_kind e m = Inr (view_kind (if m = Logical then pv else denoted_view e Logical pv))"
proof -
  let ?lv = "read_metadata_view (entry_reader e) (entry_path e) True"
  note base = unix_entry_physical [OF assms(1)] uses_logical_view_iff
  have ids: "view_identity pv \<noteq> None"
    "\<And>lv. ?lv = Inr lv \<Longrightarrow> view_identity lv \<noteq> None \<and> view_kind lv \<noteq> KindSymlink"
    using assms(1) by (simp_all add: unix_entry_def)
  show "active_view e m = Inr v"
    by (cases ?lv) (auto simp: active_view_def follows_link_def v_def denoted_view_def base ok_value_def)
  show kind: "active_kind e m = Inr (view_kind v)"
    by (cases ?lv) (auto simp: active_kind_def follows_link_def v_def denoted_view_def base ok_value_def)
  show ident: "active_identity e m = Inr (the (view_identity v))"
    using ids
    by (cases ?lv) (auto simp: active_identity_def follows_link_def v_def denoted_view_def base
        ok_value_def logical_identity_def)
  have "view_identity v \<noteq> None"
    using ids by (cases ?lv) (auto simp: v_def denoted_view_def)
  then show "active_directory_identity e m =
           Inr (if view_kind v = KindDirectory then view_identity v else None)"
    by (auto simp: active_directory_identity_def base kind ident v_def denoted_view_def)
  show "active_link_target e m =
           (if view_kind v = KindSymlink then physical_link_target e else Inr None)"
    using ids
    by (cases ?lv; cases m) (auto simp: active_link_target_def v_def denoted_view_def base ok_value_def)
  show "xtype_kind e m = Inr (view_kind (if m = Logical then pv else denoted_view e Logical pv))"
    by (cases ?lv) (auto simp: xtype_kind_def logical_kind_def denoted_view_def base ok_value_def)
qed

text \<open>
  C33.  Every attribute of an entry describes one object, the one the follow mode says: the
  metadata, the kind, the identity, whether the walker may descend and whether there is a link
  target to read all agree, for a followed link whose target is missing as well (it stands for
  itself and no error is reported).
\<close>

theorem entry_attributes_of_one_object:
  assumes "unix_entry e pv" "v = denoted_view e m pv"
  shows "active_view e m = Inr v
    \<and> active_kind e m = Inr (view_kind v)
    \<and> active_identity e m = Inr (the (view_identity v))
    \<and> active_directory_identity e m =
        Inr (if view_kind v = KindDirectory then view_identity v else None)
    \<and> active_link_target e m =
        (if view_kind v = KindSymlink then physical_link_target e else Inr None)
    \<and> xtype_kind e m = Inr (view_kind (if m = Logical then pv else denoted_view e Logical pv))"
  by (intro conjI unix_entry_active [OF assms])

definition sample_view :: "entry_kind \<Rightarrow> u64 \<Rightarrow> metadata_view" where
  "sample_view kind ino =
     \<lparr>view_kind = kind, view_identity = Some (UnixId 1 ino), view_size = 4096,
      view_allocation_size = None, view_owner = Some (PrincipalNumeric 0),
      view_group = Some (PrincipalNumeric 0), view_mode_bits = Some 0x1ED, view_flag_bits = None,
      view_native_attributes = None, view_reparse_tag = None, view_link_count = Some 1,
      view_blocks_512 = Some 8, view_atime = Timestamp 0 0, view_ctime = Timestamp 0 0,
      view_mtime = Timestamp 0 0, view_birth_time = None, view_filesystem_key = None,
      view_device_number = None\<rparr>"

definition sample_reader :: platform_reader where
  "sample_reader =
     \<lparr>read_metadata_view = (\<lambda>p follow. Inr (if follow then sample_view KindDirectory 7
        else sample_view KindSymlink 5)),
      read_link = (\<lambda>p. Inr ''target''),
      read_directory_is_empty = (\<lambda>p. Inr True),
      read_access = (\<lambda>p mode. Inr True)\<rparr>"

lemma entry_attributes_of_one_object_witness:
  "active_kind (entry_new sample_reader ''link'' 0 True) CommandLineOnly = Inr KindDirectory
   \<and> active_directory_identity (entry_new sample_reader ''link'' 0 True) CommandLineOnly
       = Inr (Some (UnixId 1 7))
   \<and> active_link_target (entry_new sample_reader ''link'' 1 False) CommandLineOnly = Inr (Some ''target'')"
proof -
  have u: "unix_entry (entry_new sample_reader ''link'' d r) (sample_view KindSymlink 5)" for d r
    by (simp add: unix_entry_def entry_new_def with_reader_hint_and_root_def sample_reader_def
        sample_view_def)
  note t = entry_attributes_of_one_object [OF u refl, where m = CommandLineOnly]
  show ?thesis
    using t
    by (simp add: denoted_view_def entry_new_def with_reader_hint_and_root_def sample_reader_def
        sample_view_def physical_link_target_def physical_kind_def physical_view_def map_err_def)
qed

text \<open>
  Metadata of \<^verbatim>\<open>stat\<close> as a view: the mode is cut to its permission bits, the kind is
  the one of the type field, and only block and character devices have a device number.
\<close>

theorem metadata_view_fields:
  "view_mode_bits (metadata_view_from_metadata fl bt key p m follow) = Some (take_bit 12 (st_mode m))
   \<and> (view_device_number (metadata_view_from_metadata fl bt key p m follow) = None
        \<longleftrightarrow> st_file_type m \<notin> {0x6000, 0x2000})
   \<and> (is_traversal_link (metadata_view_from_metadata fl bt key p m follow)
        \<longleftrightarrow> st_file_type m = 0xA000)"
proof -
  have "and x 0xFFF = take_bit 12 x" for x :: u32
    by (simp add: take_bit_eq_mask mask_eq_exp_minus_1)
  then show ?thesis
    by (auto simp: metadata_view_from_metadata_def Let_def is_traversal_link_def
        file_type_to_kind_def split: if_splits)
qed

end
