(* ===== verification/Printf.thy ===== *)
theory Printf
  imports Rfd_Prelude
begin

text \<open>
  Format strings of \<^verbatim>\<open>-printf\<close> and \<^verbatim>\<open>-fprintf\<close>: the compiler and the field formatting of
  \<^verbatim>\<open>src/src/printf.rs\<close>.  The scanner's index into the byte slice is the suffix it still has
  to read.  Rendering of directives is in \<open>Render\<close>.
\<close>

section \<open>Data\<close>

record field_format =
  left_align :: bool
  zero_pad :: bool
  always_sign :: bool
  alternate :: bool
  field_width :: "nat option"
  field_precision :: "nat option"

definition default_format :: field_format where
  "default_format = \<lparr>left_align = False, zero_pad = False, always_sign = False, alternate = False,
     field_width = None, field_precision = None\<rparr>"

datatype time_family = FamAccess | FamChange | FamModification | FamBirth

datatype time_selector = SelByte byte | SelEpochSeconds | SelGnuPlus

datatype directive_kind =
    DPath | DRelativePath | DStartPath | DBasename | DDirname | DDepth | DFileType | DFileTypeFollow
  | DSize | DSparseness | DModeOctal | DModeSymbolic | DLinkTarget | DInode | DLinkCount | DDevice
  | DBlocks512 | DBlocks1024 | DUserName | DUserId | DUserSid | DGroupName | DGroupId | DGroupSid
  | DFileSystemType | DFullTimestamp time_family | DTimestampPart time_family time_selector

record printf_directive =
  directive_kind :: directive_kind
  directive_format :: field_format

datatype printf_atom = PLiteral string | PDirective printf_directive | PStop

type_synonym printf_program = "printf_atom list"

record compiled_printf =
  printf_atoms :: printf_program
  printf_warnings :: "string list"

definition requires_mount_snapshot :: "printf_program \<Rightarrow> bool" where
  "requires_mount_snapshot p \<longleftrightarrow>
     list_ex (\<lambda>a. case a of PDirective d \<Rightarrow> directive_kind d = DFileSystemType | _ \<Rightarrow> False) p"

section \<open>The scanner\<close>

definition trailing_percent :: "string \<Rightarrow> diagnostic" where
  "trailing_percent flag = diagnostic_new (''malformed '' @ flag @ '' format: trailing %'') 1"

definition invalid_width :: "string \<Rightarrow> diagnostic" where
  "invalid_width flag = diagnostic_new (''malformed '' @ flag @ '' format: invalid field width'') 1"

definition parse_usize :: "string \<Rightarrow> nat option" where
  "parse_usize s = map_option unat (parse_uint s :: 64 word option)"

definition parse_optional_usize :: "string \<Rightarrow> string \<Rightarrow> (nat option \<times> string) result" where
  "parse_optional_usize flag rest =
     (let ds = takeWhile is_ascii_digit rest; rest' = dropWhile is_ascii_digit rest in
      if ds = [] then Inr (None, rest')
      else try_bind (ok_or (invalid_width flag) (parse_usize ds)) (\<lambda>n. Inr (Some n, rest')))"

definition parse_required_usize :: "string \<Rightarrow> string \<Rightarrow> (nat \<times> string) result" where
  "parse_required_usize flag rest =
     (let ds = takeWhile is_ascii_digit rest; rest' = dropWhile is_ascii_digit rest in
      if ds = []
      then Inl (diagnostic_new (''malformed '' @ flag @ '' format: expected digits after `.`'') 1)
      else try_bind (ok_or (invalid_width flag) (parse_usize ds)) (\<lambda>n. Inr (n, rest')))"

fun parse_flags_loop :: "field_format \<Rightarrow> string \<Rightarrow> field_format \<times> string" where
  "parse_flags_loop fmt (c # rest) =
     (if c = CHR ''-'' then parse_flags_loop (fmt\<lparr>left_align := True\<rparr>) rest
      else if c = CHR ''0'' then parse_flags_loop (fmt\<lparr>zero_pad := True\<rparr>) rest
      else if c = CHR ''+'' then parse_flags_loop (fmt\<lparr>always_sign := True\<rparr>) rest
      else if c = CHR ''#'' then parse_flags_loop (fmt\<lparr>alternate := True\<rparr>) rest
      else (fmt, c # rest))"
| "parse_flags_loop fmt [] = (fmt, [])"

definition is_time_selector_lead_byte :: "byte \<Rightarrow> bool" where
  "is_time_selector_lead_byte c \<longleftrightarrow>
     65 \<le> byte_val c \<and> byte_val c \<le> 90 \<or> 97 \<le> byte_val c \<and> byte_val c \<le> 122
     \<or> c \<in> {CHR ''@'', CHR ''+''}"

definition selector_bytes :: string where
  "selector_bytes = ''aAbBcdDFgGhHIjmMprRStTuUVwWxXyYzZ''"

definition parse_time_selector_byte :: "byte \<Rightarrow> time_selector option" where
  "parse_time_selector_byte c =
     (if c = CHR ''@'' then Some SelEpochSeconds
      else if c = CHR ''+'' then Some SelGnuPlus
      else if c \<in> set selector_bytes then Some (SelByte c)
      else None)"

text \<open>The two directives with a selector; the suffix starts after the directive byte.\<close>

definition parse_birth_directive :: "string \<Rightarrow> string \<Rightarrow> (directive_kind \<times> string) result" where
  "parse_birth_directive flag rest =
     (case rest of
        next # rest' \<Rightarrow>
          if is_time_selector_lead_byte next then
            try_bind
              (ok_or (diagnostic_new
                        (''unsupported '' @ flag @ '' time selector %B'' @ char_from_u8 next) 1)
                 (parse_time_selector_byte next))
              (\<lambda>sel. Inr (DTimestampPart FamBirth sel, rest'))
          else Inr (DFullTimestamp FamBirth, rest)
      | [] \<Rightarrow> Inr (DFullTimestamp FamBirth, rest))"

definition parse_time_family_directive ::
  "string \<Rightarrow> byte \<Rightarrow> string \<Rightarrow> (directive_kind \<times> string) result" where
  "parse_time_family_directive flag d rest =
     (let family = (if d = CHR ''A'' then FamAccess
                    else if d = CHR ''C'' then FamChange else FamModification)
      in case rest of
           [] \<Rightarrow> Inl (diagnostic_new
                  (''malformed '' @ flag @ '' format: missing selector for %'' @ char_from_u8 d) 1)
         | sel # rest' \<Rightarrow>
             try_bind
               (ok_or (diagnostic_new (''unsupported '' @ flag @ '' time selector %''
                          @ char_from_u8 d @ char_from_u8 sel) 1)
                  (parse_time_selector_byte sel))
               (\<lambda>sel. Inr (DTimestampPart family sel, rest')))"

definition plain_directive :: "byte \<Rightarrow> directive_kind option" where
  "plain_directive d =
     (if d = CHR ''p'' then Some DPath
      else if d = CHR ''P'' then Some DRelativePath
      else if d = CHR ''H'' then Some DStartPath
      else if d = CHR ''f'' then Some DBasename
      else if d = CHR ''h'' then Some DDirname
      else if d = CHR ''d'' then Some DDepth
      else if d = CHR ''y'' then Some DFileType
      else if d = CHR ''Y'' then Some DFileTypeFollow
      else if d = CHR ''s'' then Some DSize
      else if d = CHR ''S'' then Some DSparseness
      else if d = CHR ''m'' then Some DModeOctal
      else if d = CHR ''M'' then Some DModeSymbolic
      else if d = CHR ''l'' then Some DLinkTarget
      else if d = CHR ''i'' then Some DInode
      else if d = CHR ''n'' then Some DLinkCount
      else if d = CHR ''D'' then Some DDevice
      else if d = CHR ''b'' then Some DBlocks512
      else if d = CHR ''k'' then Some DBlocks1024
      else if d = CHR ''u'' then Some DUserName
      else if d = CHR ''g'' then Some DGroupName
      else if d = CHR ''F'' then Some DFileSystemType
      else None)"

definition parse_directive_kind :: "string \<Rightarrow> byte \<Rightarrow> string \<Rightarrow> (directive_kind \<times> string) result" where
  "parse_directive_kind flag d rest =
     (if d = CHR ''a'' then Inr (DFullTimestamp FamAccess, rest)
      else if d = CHR ''c'' then Inr (DFullTimestamp FamChange, rest)
      else if d = CHR ''t'' then Inr (DFullTimestamp FamModification, rest)
      else if d = CHR ''B'' then parse_birth_directive flag rest
      else if d \<in> {CHR ''A'', CHR ''C'', CHR ''T''} then parse_time_family_directive flag d rest
      else if d = CHR ''U'' then
        (case rest of
           c # rest' \<Rightarrow> if c = CHR ''S'' then Inr (DUserSid, rest') else Inr (DUserId, rest)
         | [] \<Rightarrow> Inr (DUserId, rest))
      else if d = CHR ''G'' then
        (case rest of
           c # rest' \<Rightarrow> if c = CHR ''S'' then Inr (DGroupSid, rest') else Inr (DGroupId, rest)
         | [] \<Rightarrow> Inr (DGroupId, rest))
      else
        (case plain_directive d of
           Some kind \<Rightarrow> Inr (kind, rest)
         | None \<Rightarrow> Inl (diagnostic_new
             (''unsupported '' @ flag @ '' directive %'' @ char_from_u8 d) 1)))"

text \<open>\<^verbatim>\<open>parse_directive\<close> on the bytes after the percent sign.\<close>

definition parse_directive :: "string \<Rightarrow> string \<Rightarrow> (printf_directive \<times> string) result" where
  "parse_directive flag rest =
     (let (fmt, rest) = parse_flags_loop default_format rest in
      try_bind (parse_optional_usize flag rest) (\<lambda>(w, rest).
      try_bind
        (case rest of
           c # rest' \<Rightarrow>
             if c = CHR ''.'' then
               try_bind (parse_required_usize flag rest') (\<lambda>(n, rest''). Inr (Some n, rest''))
             else Inr (None, rest)
         | [] \<Rightarrow> Inr (None, rest))
        (\<lambda>(prec, rest).
           case rest of
             [] \<Rightarrow> Inl (trailing_percent flag)
           | d # rest' \<Rightarrow>
               try_bind (parse_directive_kind flag d rest') (\<lambda>(kind, rest'').
                 Inr (\<lparr>directive_kind = kind,
                       directive_format = fmt\<lparr>field_width := w, field_precision := prec\<rparr>\<rparr>,
                      rest'')))))"

definition is_octal :: "byte \<Rightarrow> bool" where
  "is_octal c \<longleftrightarrow> 48 \<le> byte_val c \<and> byte_val c \<le> 55"

fun octal_more :: "nat \<Rightarrow> nat \<Rightarrow> string \<Rightarrow> nat \<times> string" where
  "octal_more (Suc n) val (c # rest) =
     (if is_octal c then octal_more n (val * 8 + digit_val c) rest else (val, c # rest))"
| "octal_more n val rest = (val, rest)"

definition parse_octal_escape :: "byte \<Rightarrow> string \<Rightarrow> byte \<times> string" where
  "parse_octal_escape c rest =
     (let (val, rest') = octal_more 2 (digit_val c) rest in (char_of (val mod 256), rest'))"

text \<open>The escapes that stand for one byte.\<close>

definition simple_escape :: "byte \<Rightarrow> byte option" where
  "simple_escape c =
     (if c = CHR ''a'' then Some (CHR 0x07)
      else if c = CHR ''b'' then Some (CHR 0x08)
      else if c = CHR ''f'' then Some (CHR 0x0C)
      else if c = CHR ''n'' then Some (CHR 0x0A)
      else if c = CHR ''r'' then Some (CHR 0x0D)
      else if c = CHR ''t'' then Some (CHR 0x09)
      else if c = CHR ''v'' then Some (CHR 0x0B)
      else if c = CHR 0x5C then Some (CHR 0x5C)
      else None)"

definition unrecognized_escape :: "byte \<Rightarrow> string" where
  "unrecognized_escape c =
     ''rfd: warning: unrecognized escape `'' @ [CHR 0x5C] @ char_from_u8 c @ [CHR 0x27]"

record printf_scan =
  scan_atoms :: "printf_atom list"
  scan_literal :: string
  scan_warnings :: "string list"

definition flush_literal :: "printf_scan \<Rightarrow> printf_scan" where
  "flush_literal s =
     (if scan_literal s = [] then s
      else s\<lparr>scan_atoms := scan_atoms s @ [PLiteral (scan_literal s)], scan_literal := []\<rparr>)"

definition push_atom :: "printf_atom \<Rightarrow> printf_scan \<Rightarrow> printf_scan" where
  "push_atom a s = s\<lparr>scan_atoms := scan_atoms s @ [a]\<rparr>"

definition push_bytes :: "string \<Rightarrow> printf_scan \<Rightarrow> printf_scan" where
  "push_bytes bs s = s\<lparr>scan_literal := scan_literal s @ bs\<rparr>"

definition parse_escape :: "string \<Rightarrow> string \<Rightarrow> printf_scan \<Rightarrow> (printf_scan \<times> string) result" where
  "parse_escape flag rest s =
     (case rest of
        [] \<Rightarrow> Inl (diagnostic_new (''malformed '' @ flag @ '' format: trailing '' @ [CHR 0x5C]) 1)
      | c # rest' \<Rightarrow>
          (case simple_escape c of
             Some b \<Rightarrow> Inr (push_bytes [b] s, rest')
           | None \<Rightarrow>
               if c = CHR ''c'' then Inr (push_atom PStop (flush_literal s), rest')
               else if is_octal c then
                 (let (b, rest'') = parse_octal_escape c rest' in Inr (push_bytes [b] s, rest''))
               else
                 Inr (push_bytes [CHR 0x5C, c] s
                        \<lparr>scan_warnings := scan_warnings s @ [unrecognized_escape c]\<rparr>, rest')))"

lemma parse_flags_loop_length: "length (snd (parse_flags_loop fmt rest)) \<le> length rest"
  by (induction fmt rest rule: parse_flags_loop.induct) auto

lemma parse_optional_usize_length:
  "parse_optional_usize flag rest = Inr (w, rest') \<Longrightarrow> length rest' \<le> length rest"
  by (auto simp: parse_optional_usize_def Let_def length_dropWhile_le result_simps split: if_splits)

lemma parse_required_usize_length:
  "parse_required_usize flag rest = Inr (w, rest') \<Longrightarrow> length rest' \<le> length rest"
  by (auto simp: parse_required_usize_def Let_def length_dropWhile_le result_simps split: if_splits)

lemma parse_directive_kind_length:
  "parse_directive_kind flag d rest = Inr (k, rest') \<Longrightarrow> length rest' \<le> length rest"
  by (auto simp: parse_directive_kind_def parse_birth_directive_def parse_time_family_directive_def
      Let_def result_simps split: if_splits list.splits option.splits)

lemma parse_directive_length:
  assumes "parse_directive flag rest = Inr (d, rest')"
  shows "length rest' < length rest"
proof -
  obtain fmt r1 where r1: "parse_flags_loop default_format rest = (fmt, r1)" by fastforce
  obtain w r2 where r2: "parse_optional_usize flag r1 = Inr (w, r2)"
    using assms by (auto simp: parse_directive_def r1 result_simps)
  let ?prec = "case r2 of
           c # rest' \<Rightarrow>
             if c = CHR ''.'' then
               try_bind (parse_required_usize flag rest') (\<lambda>(n, rest''). Inr (Some n, rest''))
             else Inr (None, r2)
         | [] \<Rightarrow> Inr (None, r2)"
  obtain prec r3 where r3: "?prec = Inr (prec, r3)"
    using assms by (auto simp: parse_directive_def r1 r2 result_simps)
  have "length r3 \<le> length r2"
    using r3 by (auto simp: result_simps split: list.splits if_splits
        dest!: parse_required_usize_length)
  moreover have "length rest' < length r3"
    using assms by (auto simp: parse_directive_def r1 r2 r3 result_simps split: list.splits
        dest!: parse_directive_kind_length)
  ultimately show ?thesis
    using parse_flags_loop_length [of default_format rest] parse_optional_usize_length [OF r2] r1
    by simp
qed

lemma octal_more_length: "length (snd (octal_more n v rest)) \<le> length rest"
  by (induction n v rest rule: octal_more.induct) auto

lemma parse_escape_length:
  assumes "parse_escape flag rest s = Inr (s', rest')"
  shows "length rest' < length rest"
proof (cases rest)
  case (Cons c r)
  have "length (snd (parse_octal_escape c r)) \<le> length r"
    using octal_more_length [of 2 "digit_val c" r]
    by (cases "octal_more 2 (digit_val c) r") (simp add: parse_octal_escape_def)
  then show ?thesis
    using assms by (auto simp: parse_escape_def Cons Let_def split: option.splits if_splits prod.splits)
qed (use assms in \<open>simp add: parse_escape_def\<close>)

function printf_loop :: "string \<Rightarrow> string \<Rightarrow> printf_scan \<Rightarrow> printf_scan result" where
  "printf_loop flag [] s = Inr (flush_literal s)"
| "printf_loop flag (c # rest) s =
     (if c = CHR ''%'' then
        (case rest of
           [] \<Rightarrow> Inl (trailing_percent flag)
         | d # rest' \<Rightarrow>
             if d = CHR ''%'' then printf_loop flag rest' (push_atom (PLiteral ''%'') (flush_literal s))
             else
               try_bind (parse_directive flag rest) (\<lambda>r.
                 printf_loop flag (snd r) (push_atom (PDirective (fst r)) (flush_literal s))))
      else if c = CHR 0x5C then
        try_bind (parse_escape flag rest s) (\<lambda>r. printf_loop flag (snd r) (fst r))
      else printf_loop flag rest (push_bytes [c] s))"
  by pat_completeness auto
termination
  by (relation "measure (\<lambda>(flag, rest, s). length rest)")
    (auto dest: parse_directive_length parse_escape_length simp: less_Suc_eq)

definition compile_printf_program :: "string \<Rightarrow> os_string \<Rightarrow> compiled_printf result" where
  "compile_printf_program flag fmt =
     try_bind (printf_loop flag fmt \<lparr>scan_atoms = [], scan_literal = [], scan_warnings = []\<rparr>)
       (\<lambda>s. Inr \<lparr>printf_atoms = scan_atoms s, printf_warnings = scan_warnings s\<rparr>)"

section \<open>Fields\<close>

definition pad_field :: "string \<Rightarrow> nat option \<Rightarrow> bool \<Rightarrow> byte \<Rightarrow> string" where
  "pad_field val width left pad =
     (case width of
        None \<Rightarrow> val
      | Some w \<Rightarrow>
          if length val \<ge> w then val
          else if left then val @ replicate (w - length val) pad
          else replicate (w - length val) pad @ val)"

text \<open>\<open>zero_pads\<close> is the platform's \<^verbatim>\<open>printf_zero_pads_string_fields\<close>.\<close>

definition format_string_like :: "bool \<Rightarrow> string \<Rightarrow> field_format \<Rightarrow> string" where
  "format_string_like zero_pads val fmt =
     (let val = (case field_precision fmt of Some lim \<Rightarrow> take (min (length val) lim) val | None \<Rightarrow> val);
          pad = (if zero_pad fmt \<and> field_precision fmt = None \<and> zero_pads then CHR ''0'' else CHR '' '')
      in pad_field val (field_width fmt) (left_align fmt) pad)"

definition format_numeric_value :: "string \<Rightarrow> byte option \<Rightarrow> field_format \<Rightarrow> string" where
  "format_numeric_value ds sign fmt =
     (let ds = (case field_precision fmt of
                  Some prec \<Rightarrow>
                    if length ds < prec then replicate (prec - length ds) (CHR ''0'') @ ds else ds
                | None \<Rightarrow> ds);
          val = (case sign of Some c \<Rightarrow> [c] | None \<Rightarrow> []) @ ds
      in if left_align fmt then pad_field val (field_width fmt) True (CHR '' '')
         else
           (let pad = (if zero_pad fmt \<and> field_precision fmt = None then CHR ''0'' else CHR '' '')
            in if pad \<noteq> CHR ''0'' \<or> sign = None then pad_field val (field_width fmt) False pad
               else
                 (case field_width fmt of
                    Some w \<Rightarrow>
                      if w > length val then [the sign] @ replicate (w - length val) (CHR ''0'') @ ds
                      else val
                  | None \<Rightarrow> val)))"

definition format_depth :: "nat \<Rightarrow> field_format \<Rightarrow> string" where
  "format_depth depth fmt =
     format_numeric_value (show_nat depth) (if always_sign fmt then Some (CHR ''+'') else None) fmt"

fun show_octal :: "nat \<Rightarrow> string" where
  "show_octal n = (if n < 8 then [digit_char n] else show_octal (n div 8) @ [digit_char (n mod 8)])"

declare show_octal.simps [simp del]

definition format_mode_octal :: "32 word \<Rightarrow> field_format \<Rightarrow> string" where
  "format_mode_octal mode fmt =
     (let ds = show_octal (unat mode);
          ds = (if alternate fmt \<and> slice_get ds 0 \<noteq> Some (CHR ''0'') then CHR ''0'' # ds else ds)
      in format_numeric_value ds None fmt)"

text \<open>The decimal text of a float after formatting, without its trailing zeros.\<close>

fun drop_trailing_zeros :: "string \<Rightarrow> string" where
  "drop_trailing_zeros (c # rest) = (if c = CHR ''0'' then drop_trailing_zeros rest else c # rest)"
| "drop_trailing_zeros [] = []"

definition trim_ascii_decimal :: "string \<Rightarrow> string" where
  "trim_ascii_decimal text =
     (let out = (if CHR ''.'' \<in> set text then rev (drop_trailing_zeros (rev text)) else text)
      in if out \<noteq> [] \<and> last out = CHR ''.'' then butlast out else out)"

definition trim_ascii_float :: "string \<Rightarrow> string" where
  "trim_ascii_float text =
     (case split_once (CHR ''e'') text of
        Some (mantissa, ex) \<Rightarrow> trim_ascii_decimal mantissa @ ''e'' @ ex
      | None \<Rightarrow> trim_ascii_decimal text)"

section \<open>Compiled programs\<close>

text \<open>
  The normal form of a program: literals are not empty, two literals meet only where one of
  them is a percent sign, and fields are what the flags and digits of a directive can say.
\<close>

definition literals_meet :: "printf_atom \<Rightarrow> printf_atom \<Rightarrow> bool" where
  "literals_meet a b \<longleftrightarrow>
     (case (a, b) of
        (PLiteral x, PLiteral y) \<Rightarrow> x = ''%'' \<or> y = ''%''
      | _ \<Rightarrow> True)"

definition format_wf :: "field_format \<Rightarrow> bool" where
  "format_wf fmt \<longleftrightarrow>
     (case field_width fmt of None \<Rightarrow> True | Some w \<Rightarrow> 0 < w \<and> w < 2 ^ 64)
     \<and> (case field_precision fmt of None \<Rightarrow> True | Some n \<Rightarrow> n < 2 ^ 64)"

fun kind_wf :: "directive_kind \<Rightarrow> bool" where
  "kind_wf (DTimestampPart fam (SelByte b)) \<longleftrightarrow> b \<in> set selector_bytes"
| "kind_wf _ \<longleftrightarrow> True"

fun atom_wf :: "printf_atom \<Rightarrow> bool" where
  "atom_wf (PLiteral s) \<longleftrightarrow> s \<noteq> []"
| "atom_wf (PDirective d) \<longleftrightarrow> format_wf (directive_format d) \<and> kind_wf (directive_kind d)"
| "atom_wf PStop \<longleftrightarrow> True"

definition program_wf :: "printf_program \<Rightarrow> bool" where
  "program_wf p \<longleftrightarrow> list_all atom_wf p \<and> successively literals_meet p"

text \<open>A format string of a program: every literal byte as a three-digit escape.\<close>

definition octal3 :: "byte \<Rightarrow> string" where
  "octal3 b = [CHR 0x5C, digit_char (byte_val b div 64), digit_char (byte_val b div 8 mod 8),
     digit_char (byte_val b mod 8)]"

fun family_letter :: "time_family \<Rightarrow> byte" where
  "family_letter FamAccess = CHR ''A''"
| "family_letter FamChange = CHR ''C''"
| "family_letter FamModification = CHR ''T''"
| "family_letter FamBirth = CHR ''B''"

fun selector_letter :: "time_selector \<Rightarrow> byte" where
  "selector_letter (SelByte b) = b"
| "selector_letter SelEpochSeconds = CHR ''@''"
| "selector_letter SelGnuPlus = CHR ''+''"

fun kind_text :: "directive_kind \<Rightarrow> string" where
  "kind_text DPath = ''p''" | "kind_text DRelativePath = ''P''" | "kind_text DStartPath = ''H''"
| "kind_text DBasename = ''f''" | "kind_text DDirname = ''h''" | "kind_text DDepth = ''d''"
| "kind_text DFileType = ''y''" | "kind_text DFileTypeFollow = ''Y''" | "kind_text DSize = ''s''"
| "kind_text DSparseness = ''S''" | "kind_text DModeOctal = ''m''" | "kind_text DModeSymbolic = ''M''"
| "kind_text DLinkTarget = ''l''" | "kind_text DInode = ''i''" | "kind_text DLinkCount = ''n''"
| "kind_text DDevice = ''D''" | "kind_text DBlocks512 = ''b''" | "kind_text DBlocks1024 = ''k''"
| "kind_text DUserName = ''u''" | "kind_text DUserId = ''U''" | "kind_text DUserSid = ''US''"
| "kind_text DGroupName = ''g''" | "kind_text DGroupId = ''G''" | "kind_text DGroupSid = ''GS''"
| "kind_text DFileSystemType = ''F''"
| "kind_text (DFullTimestamp FamAccess) = ''a''" | "kind_text (DFullTimestamp FamChange) = ''c''"
| "kind_text (DFullTimestamp FamModification) = ''t''" | "kind_text (DFullTimestamp FamBirth) = ''B''"
| "kind_text (DTimestampPart fam sel) = [family_letter fam, selector_letter sel]"

definition field_text :: "field_format \<Rightarrow> string" where
  "field_text fmt =
     (if left_align fmt then ''-'' else []) @ (if zero_pad fmt then ''0'' else [])
     @ (if always_sign fmt then ''+'' else []) @ (if alternate fmt then ''#'' else [])
     @ (case field_width fmt of None \<Rightarrow> [] | Some w \<Rightarrow> show_nat w)
     @ (case field_precision fmt of None \<Rightarrow> [] | Some n \<Rightarrow> ''.'' @ show_nat n)"

fun atom_text :: "printf_atom \<Rightarrow> string" where
  "atom_text (PLiteral s) = (if s = ''%'' then ''%%'' else concat (map octal3 s))"
| "atom_text (PDirective d) = ''%'' @ field_text (directive_format d) @ kind_text (directive_kind d)"
| "atom_text PStop = [CHR 0x5C, CHR ''c'']"

definition program_text :: "printf_program \<Rightarrow> string" where
  "program_text p = concat (map atom_text p)"

definition feed :: "printf_atom \<Rightarrow> printf_scan \<Rightarrow> printf_scan" where
  "feed a s =
     (case a of
        PLiteral x \<Rightarrow>
          if x = ''%'' then push_atom (PLiteral ''%'') (flush_literal s) else push_bytes x s
      | _ \<Rightarrow> push_atom a (flush_literal s))"

lemma octal_digit_char:
  assumes "d < 8"
  shows "is_octal (digit_char d)" "digit_val (digit_char d) = d" "digit_char d \<noteq> CHR ''%''"
    "digit_char d \<noteq> CHR ''c''" "simple_escape (digit_char d) = None"
proof -
  have v: "byte_val (digit_char d) = 48 + d"
    using assms by (simp add: digit_char_def byte_val_char_of)
  then show "is_octal (digit_char d)" "digit_val (digit_char d) = d"
    using assms by (simp_all add: is_octal_def digit_val_def)
  have "digit_char d \<noteq> c" if "byte_val c < 48 \<or> 55 < byte_val c" for c
    using v that assms by auto
  then show "digit_char d \<noteq> CHR ''%''" "digit_char d \<noteq> CHR ''c''" "simple_escape (digit_char d) = None"
    by (simp_all add: simple_escape_def byte_val_def)
qed

lemma octal3_value: "byte_val b div 64 * 64 + byte_val b div 8 mod 8 * 8 + byte_val b mod 8 = byte_val b"
proof -
  have "byte_val b div 8 = byte_val b div 64 * 8 + byte_val b div 8 mod 8"
    using div_mult_mod_eq [of "byte_val b div 8" 8] div_mult2_eq [of "byte_val b" 8 8] by simp
  then show ?thesis using div_mult_mod_eq [of "byte_val b" 8] by linarith
qed

lemma octal_escape_byte:
  "parse_octal_escape (digit_char (byte_val b div 64))
     (digit_char (byte_val b div 8 mod 8) # digit_char (byte_val b mod 8) # rest) = (b, rest)"
proof -
  have "byte_val b div 64 < 8" using byte_val_less [of b] by linarith
  then have "octal_more 2 (digit_val (digit_char (byte_val b div 64)))
      (digit_char (byte_val b div 8 mod 8) # digit_char (byte_val b mod 8) # rest)
      = ((byte_val b div 64 * 8 + byte_val b div 8 mod 8) * 8 + byte_val b mod 8, rest)"
    by (simp add: numeral_2_eq_2 octal_digit_char)
  moreover have "(byte_val b div 64 * 8 + byte_val b div 8 mod 8) * 8 + byte_val b mod 8 = byte_val b"
    using octal3_value [of b] by simp
  moreover have "char_of (byte_val b mod 256) = b"
    by (simp add: byte_val_def)
  ultimately show ?thesis by (simp add: parse_octal_escape_def)
qed

lemma push_bytes_simps [simp]:
  "push_bytes ys (push_bytes xs s) = push_bytes (xs @ ys) s" "push_bytes [] s = s"
  by (simp_all add: push_bytes_def)

lemma printf_loop_literal:
  "printf_loop flag (concat (map octal3 x) @ rest) s = printf_loop flag rest (push_bytes x s)"
proof (induction x arbitrary: s)
  case (Cons b x)
  have d: "byte_val b div 64 < 8" using byte_val_less [of b] by linarith
  have "printf_loop flag (octal3 b @ r) s = printf_loop flag r (push_bytes [b] s)" for r
    using octal_digit_char [OF d] octal_escape_byte [of b r]
    by (simp add: octal3_def parse_escape_def)
  then show ?case using Cons.IH by simp
qed simp

lemma parse_flags_loop_text:
  assumes "rest = [] \<or> hd rest \<notin> {CHR ''-'', CHR ''0'', CHR ''+'', CHR ''#''}"
  shows "parse_flags_loop default_format
      ((if l then ''-'' else []) @ (if z then ''0'' else []) @ (if g then ''+'' else [])
        @ (if a then ''#'' else []) @ rest)
    = (\<lparr>left_align = l, zero_pad = z, always_sign = g, alternate = a,
        field_width = None, field_precision = None\<rparr>, rest)"
proof -
  have stop: "parse_flags_loop fmt rest = (fmt, rest)" for fmt
    using assms by (cases rest) auto
  show ?thesis by (cases l; cases z; cases g; cases a; simp add: stop default_format_def)
qed

lemma take_drop_digits:
  assumes "list_all is_ascii_digit ds" "rest = [] \<or> \<not> is_ascii_digit (hd rest)"
  shows "takeWhile is_ascii_digit (ds @ rest) = ds" "dropWhile is_ascii_digit (ds @ rest) = rest"
  using assms by (induction ds) (cases rest; simp)+

lemma parse_usize_show_nat: "n < 2 ^ 64 \<Longrightarrow> parse_usize (show_nat n) = Some n"
  by (simp add: parse_usize_def parse_uint_show_nat unsigned_of_nat take_bit_nat_eq_self)

lemma show_nat_no_leading_zero: "0 < n \<Longrightarrow> hd (show_nat n) \<noteq> CHR ''0''"
proof (induction n rule: show_nat.induct)
  case (1 n)
  show ?case
  proof (cases "n < 10")
    case True
    then have "digit_val (hd (show_nat n)) = n" by (simp add: show_nat.simps [of n])
    then show ?thesis using 1 by (auto simp: digit_val_def byte_val_def)
  next
    case False
    then have "hd (show_nat n) = hd (show_nat (n div 10))"
      using show_nat_props [of "n div 10"] by (simp add: show_nat.simps [of n])
    then show ?thesis using 1 False by simp
  qed
qed

text \<open>A suffix at which no directive goes on: the end, an escape or the next directive.\<close>

definition boundary :: "string \<Rightarrow> bool" where
  "boundary rest \<longleftrightarrow> rest = [] \<or> hd rest \<in> {CHR ''%'', CHR 0x5C}"

lemma selector_letter_parse:
  "kind_wf (DTimestampPart fam sel) \<Longrightarrow> parse_time_selector_byte (selector_letter sel) = Some sel"
proof -
  have "CHR ''@'' \<notin> set selector_bytes" "CHR ''+'' \<notin> set selector_bytes" by code_simp+
  then show "kind_wf (DTimestampPart fam sel) \<Longrightarrow> parse_time_selector_byte (selector_letter sel) = Some sel"
    by (cases sel) (auto simp: parse_time_selector_byte_def)
qed

lemma selector_lead: "kind_wf (DTimestampPart fam sel) \<Longrightarrow> is_time_selector_lead_byte (selector_letter sel)"
proof -
  have "list_all is_time_selector_lead_byte selector_bytes"
    "is_time_selector_lead_byte (CHR ''@'')" "is_time_selector_lead_byte (CHR ''+'')" by code_simp+
  then show "kind_wf (DTimestampPart fam sel) \<Longrightarrow> is_time_selector_lead_byte (selector_letter sel)"
    by (cases sel) (simp_all add: list_all_iff)
qed

lemma kind_text_parse:
  assumes "kind_wf k" "boundary rest"
  shows "\<exists>d tail. kind_text k = d # tail
    \<and> d \<notin> {CHR ''-'', CHR ''0'', CHR ''+'', CHR ''#'', CHR ''.'', CHR ''%''} \<and> \<not> is_ascii_digit d
    \<and> parse_directive_kind flag d (tail @ rest) = Inr (k, rest)"
proof -
  have next_free: "rest = [] \<or> (\<exists>c r. rest = c # r \<and> c \<noteq> CHR ''S'' \<and> \<not> is_time_selector_lead_byte c)"
    using assms(2) by (cases rest) (auto simp: boundary_def is_time_selector_lead_byte_def byte_val_def)
  show ?thesis
  proof (cases k)
    case (DFullTimestamp fam)
    then show ?thesis
      using next_free
      by (cases fam; auto simp: parse_directive_kind_def parse_birth_directive_def
          is_ascii_digit_def in_range_def byte_val_def)
  next
    case (DTimestampPart fam sel)
    then show ?thesis
      using assms(1) selector_letter_parse [of fam sel] selector_lead [of fam sel]
      by (cases fam; simp add: parse_directive_kind_def parse_birth_directive_def
          parse_time_family_directive_def is_ascii_digit_def in_range_def byte_val_def)
  next
    case DUserId
    then show ?thesis
      using next_free by (auto simp: parse_directive_kind_def is_ascii_digit_def in_range_def byte_val_def)
  next
    case DGroupId
    then show ?thesis
      using next_free by (auto simp: parse_directive_kind_def is_ascii_digit_def in_range_def byte_val_def)
  qed (simp_all add: parse_directive_kind_def plain_directive_def
         is_ascii_digit_def in_range_def byte_val_def)
qed

lemma parse_directive_text:
  assumes "format_wf (directive_format d)" "kind_wf (directive_kind d)" "boundary rest"
  shows "parse_directive flag
      (field_text (directive_format d) @ kind_text (directive_kind d) @ rest) = Inr (d, rest)"
proof -
  let ?f = "directive_format d"
  obtain c tail where k: "kind_text (directive_kind d) = c # tail"
    "c \<notin> {CHR ''-'', CHR ''0'', CHR ''+'', CHR ''#'', CHR ''.'', CHR ''%''}" "\<not> is_ascii_digit c"
    "parse_directive_kind flag c (tail @ rest) = Inr (directive_kind d, rest)"
    using kind_text_parse [OF assms(2,3), of flag] by blast
  define pr where "pr = (case field_precision ?f of None \<Rightarrow> [] | Some n \<Rightarrow> ''.'' @ show_nat n)"
  define wd where "wd = (case field_width ?f of None \<Rightarrow> [] | Some w \<Rightarrow> show_nat w)"
  let ?rst = "pr @ c # tail @ rest"
  have end0: "?rst \<noteq> []" "\<not> is_ascii_digit (hd ?rst)"
    "hd ?rst \<notin> {CHR ''-'', CHR ''0'', CHR ''+'', CHR ''#''}"
    using k(2,3) by (auto split: option.splits simp: pr_def is_ascii_digit_def in_range_def byte_val_def)
  have digits_flags: "is_ascii_digit x \<Longrightarrow> x \<notin> {CHR ''-'', CHR ''+'', CHR ''#''}" for x
    by (auto simp: is_ascii_digit_def in_range_def byte_val_def)
  have flags: "parse_flags_loop default_format (field_text ?f @ c # tail @ rest)
      = (\<lparr>left_align = left_align ?f, zero_pad = zero_pad ?f, always_sign = always_sign ?f,
          alternate = alternate ?f, field_width = None, field_precision = None\<rparr>, wd @ ?rst)"
  proof -
    have "wd @ ?rst = [] \<or> hd (wd @ ?rst) \<notin> {CHR ''-'', CHR ''0'', CHR ''+'', CHR ''#''}"
    proof (cases "field_width ?f")
      case (Some w)
      then have "0 < w" using assms(1) by (simp add: format_wf_def)
      then have "hd (show_nat w) \<noteq> CHR ''0''" by (rule show_nat_no_leading_zero)
      moreover have "show_nat w \<noteq> []" "is_ascii_digit (hd (show_nat w))"
        using show_nat_props [of w] by (auto simp: neq_Nil_conv)
      ultimately show ?thesis using Some digits_flags by (auto simp: wd_def)
    qed (use end0 in \<open>simp add: wd_def\<close>)
    from parse_flags_loop_text [OF this, of "left_align ?f" "zero_pad ?f" "always_sign ?f" "alternate ?f"]
    show ?thesis by (simp add: field_text_def wd_def pr_def)
  qed
  have width: "parse_optional_usize flag (wd @ ?rst) = Inr (field_width ?f, ?rst)"
  proof (cases "field_width ?f")
    case None
    with end0 show ?thesis
      by (cases ?rst) (simp_all add: parse_optional_usize_def wd_def)
  next
    case (Some w)
    then have "w < 2 ^ 64" using assms(1) by (simp add: format_wf_def)
    moreover have "takeWhile is_ascii_digit (show_nat w @ ?rst) = show_nat w"
      "dropWhile is_ascii_digit (show_nat w @ ?rst) = ?rst"
      using take_drop_digits [of "show_nat w" ?rst] show_nat_props [of w] end0 by blast+
    ultimately show ?thesis
      using show_nat_props [of w] Some
      by (simp add: parse_optional_usize_def parse_usize_show_nat wd_def)
  qed
  have prec: "(case ?rst of
           c # rest' \<Rightarrow>
             if c = CHR ''.'' then
               try_bind (parse_required_usize flag rest') (\<lambda>(n, rest''). Inr (Some n, rest''))
             else Inr (None, ?rst)
         | [] \<Rightarrow> Inr (None, ?rst)) = Inr (field_precision ?f, c # tail @ rest)"
  proof (cases "field_precision ?f")
    case None
    then show ?thesis using k(2) by (simp add: pr_def)
  next
    case (Some n)
    then have "n < 2 ^ 64" using assms(1) by (simp add: format_wf_def)
    moreover have "takeWhile is_ascii_digit (show_nat n @ c # tail @ rest) = show_nat n"
      "dropWhile is_ascii_digit (show_nat n @ c # tail @ rest) = c # tail @ rest"
      using take_drop_digits [of "show_nat n" "c # tail @ rest"] show_nat_props [of n] k(3) by simp_all
    ultimately show ?thesis
      using show_nat_props [of n] Some
      by (simp add: parse_required_usize_def parse_usize_show_nat pr_def)
  qed
  show ?thesis
    using k(4) by (simp add: parse_directive_def k(1) flags width prec)
qed

lemma printf_loop_atom:
  assumes "atom_wf a" "boundary rest"
  shows "printf_loop flag (atom_text a @ rest) s = printf_loop flag rest (feed a s)"
proof (cases a)
  case (PLiteral x)
  then show ?thesis
    using printf_loop_literal [of flag x rest s] by (simp add: feed_def)
next
  case (PDirective d)
  let ?t = "field_text (directive_format d) @ kind_text (directive_kind d) @ rest"
  have parse: "parse_directive flag ?t = Inr (d, rest)"
    using assms PDirective by (intro parse_directive_text) simp_all
  have "?t \<noteq> []" using parse by (auto simp: parse_directive_def default_format_def
        parse_optional_usize_def)
  moreover have "hd ?t \<noteq> CHR ''%''"
  proof -
    obtain c tail where "kind_text (directive_kind d) = c # tail" "c \<noteq> CHR ''%''"
      using kind_text_parse [OF _ assms(2), of "directive_kind d"] assms(1) PDirective by force
    moreover have "hd (show_nat n) \<noteq> CHR ''%''" "show_nat n \<noteq> []" for n
      using show_nat_props [of n]
      by (auto simp: neq_Nil_conv is_ascii_digit_def in_range_def byte_val_def)
    ultimately show ?thesis
      by (auto simp: field_text_def hd_append split: option.splits)
  qed
  ultimately have "printf_loop flag (CHR ''%'' # ?t) s
      = printf_loop flag rest (push_atom (PDirective d) (flush_literal s))"
    using parse by (cases ?t) auto
  then show ?thesis by (simp add: PDirective feed_def)
next
  case PStop
  then show ?thesis by (simp add: feed_def parse_escape_def simple_escape_def)
qed

text \<open>Feeding a normal-form program rebuilds it.\<close>

lemma boundary_program_text:
  assumes "list_all atom_wf p"
  shows "boundary (program_text p)"
proof (cases p)
  case (Cons a p')
  show ?thesis
  proof (cases a)
    case (PLiteral x)
    then show ?thesis
      using assms by (cases x) (simp_all add: Cons program_text_def boundary_def octal3_def)
  qed (simp_all add: Cons program_text_def boundary_def)
qed (simp add: boundary_def program_text_def)

lemma printf_loop_program:
  assumes "list_all atom_wf p"
  shows "printf_loop flag (program_text p) s = Inr (flush_literal (fold feed p s))"
  using assms
proof (induction p arbitrary: s)
  case (Cons a p)
  then show ?case
    using printf_loop_atom [of a "program_text p" flag s] boundary_program_text [of p]
    by (simp add: program_text_def)
qed (simp add: program_text_def)

lemma flush_push_atom [simp]: "scan_literal (push_atom a (flush_literal s)) = []"
  by (simp add: push_atom_def flush_literal_def)

lemma feed_fold_atoms:
  assumes "list_all atom_wf p" "successively literals_meet p"
    and "scan_literal s \<noteq> ''%''"
    and "scan_literal s = [] \<or> p = [] \<or> literals_meet (PLiteral (scan_literal s)) (hd p)"
  shows "scan_atoms (flush_literal (fold feed p s)) = scan_atoms (flush_literal s) @ p
    \<and> scan_warnings (flush_literal (fold feed p s)) = scan_warnings s"
  using assms
proof (induction p arbitrary: s)
  case (Cons a p)
  have warn: "scan_warnings (feed a s) = scan_warnings s"
    by (simp add: feed_def push_atom_def push_bytes_def flush_literal_def split: printf_atom.split)
  have step: "scan_atoms (flush_literal (feed a s)) = scan_atoms (flush_literal s) @ [a]"
    "scan_literal (feed a s) \<noteq> ''%''"
    "scan_literal (feed a s) = [] \<or> PLiteral (scan_literal (feed a s)) = a"
    using Cons.prems
    by (auto simp: feed_def push_atom_def push_bytes_def flush_literal_def literals_meet_def
        split: printf_atom.splits)
  have "scan_literal (feed a s) = [] \<or> p = [] \<or> literals_meet (PLiteral (scan_literal (feed a s))) (hd p)"
    using step(3) Cons.prems(2) by (cases p) auto
  then have "scan_atoms (flush_literal (fold feed p (feed a s)))
        = scan_atoms (flush_literal (feed a s)) @ p
      \<and> scan_warnings (flush_literal (fold feed p (feed a s))) = scan_warnings (feed a s)"
    using Cons.prems step(2) by (intro Cons.IH) (auto simp: successively_Cons)
  then show ?case by (simp add: step(1) warn)
qed (simp add: flush_literal_def)

text \<open>The scanner only builds programs in normal form.\<close>

definition scan_ok :: "printf_scan \<Rightarrow> bool" where
  "scan_ok s \<longleftrightarrow> program_wf (scan_atoms s)
     \<and> (scan_atoms s = [] \<or> (\<forall>x. last (scan_atoms s) = PLiteral x \<longrightarrow> x = ''%''))"

lemma program_wf_snoc:
  "program_wf (p @ [a]) \<longleftrightarrow> program_wf p \<and> atom_wf a \<and> (p = [] \<or> literals_meet (last p) a)"
  by (auto simp: program_wf_def successively_append_iff)

lemma scan_ok_flush_wf: "scan_ok s \<Longrightarrow> program_wf (scan_atoms (flush_literal s))"
  by (auto simp: scan_ok_def flush_literal_def program_wf_snoc literals_meet_def split: printf_atom.splits)

lemma scan_ok_push:
  assumes "scan_ok s" "atom_wf a" "\<forall>x. a = PLiteral x \<longrightarrow> x = ''%''"
  shows "scan_ok (push_atom a (flush_literal s))"
  using assms scan_ok_flush_wf [OF assms(1)]
  by (auto simp: scan_ok_def push_atom_def program_wf_snoc literals_meet_def split: printf_atom.splits)

lemma scan_ok_bytes: "scan_ok s \<Longrightarrow> scan_ok (push_bytes bs s)"
  by (simp add: scan_ok_def push_bytes_def)

lemma parse_usize_bound: "parse_usize ds = Some n \<Longrightarrow> n < 2 ^ 64"
  using unsigned_less [where 'b = 64] by (fastforce simp: parse_usize_def)

lemma parse_flags_loop_stop: "parse_flags_loop fmt rest = (fmt', rest') \<Longrightarrow>
   (rest' = [] \<or> hd rest' \<noteq> CHR ''0'')
   \<and> field_width fmt' = field_width fmt \<and> field_precision fmt' = field_precision fmt"
  by (induction fmt rest rule: parse_flags_loop.induct) (auto split: if_splits)

lemma digits_val_pos: "list_all is_ascii_digit ds \<Longrightarrow> 0 < acc \<Longrightarrow> 0 < digits_val 10 acc ds"
  by (induction ds arbitrary: acc) auto

lemma dec_val_pos: "list_all is_ascii_digit (c # ds) \<Longrightarrow> c \<noteq> CHR ''0'' \<Longrightarrow> 0 < dec_val (c # ds)"
proof -
  assume d: "list_all is_ascii_digit (c # ds)" and c: "c \<noteq> CHR ''0''"
  have "digit_val c \<noteq> 0"
  proof
    assume "digit_val c = 0"
    then have "byte_val c = 48"
      using d by (simp add: digit_val_def is_ascii_digit_def in_range_def)
    moreover have "c = char_of (byte_val c)" by (simp add: byte_val_def)
    moreover have "char_of (48 :: nat) = CHR ''0''" by code_simp
    ultimately show False using c by simp
  qed
  then show ?thesis using d digits_val_pos [of ds "digit_val c"] by simp
qed

lemma parse_optional_usize_pos:
  assumes "parse_optional_usize flag rest = Inr (Some w, rest')" "rest = [] \<or> hd rest \<noteq> CHR ''0''"
  shows "0 < w \<and> w < 2 ^ 64"
proof -
  let ?ds = "takeWhile is_ascii_digit rest"
  have ds: "?ds \<noteq> []" "parse_usize ?ds = Some w"
    using assms(1) by (auto simp: parse_optional_usize_def Let_def result_simps split: if_splits)
  have all: "list_all is_ascii_digit ?ds" by (auto simp: list_all_iff dest: set_takeWhileD)
  obtain c cs where c: "?ds = c # cs" "c \<noteq> CHR ''0''"
    using ds(1) assms(2) by (cases rest) (auto split: if_splits)
  have "0 < dec_val ?ds" using dec_val_pos [of c cs] all c by simp
  moreover have "w = dec_val ?ds"
    using ds(2) all
    by (auto simp: parse_usize_def parse_uint_def strip_plus_digits Let_def unsigned_of_nat
        take_bit_nat_eq_self split: if_splits)
  ultimately show ?thesis using parse_usize_bound [OF ds(2)] by simp
qed

lemma parse_directive_kind_wf:
  "parse_directive_kind flag d rest = Inr (k, rest') \<Longrightarrow> kind_wf k"
  by (auto simp: parse_directive_kind_def parse_birth_directive_def parse_time_family_directive_def
      parse_time_selector_byte_def plain_directive_def Let_def result_simps
      split: if_splits list.splits)

lemma parse_directive_wf:
  assumes "parse_directive flag rest = Inr (d, rest')"
  shows "atom_wf (PDirective d)"
proof -
  obtain fmt r1 where r1: "parse_flags_loop default_format rest = (fmt, r1)" by fastforce
  obtain w r2 where r2: "parse_optional_usize flag r1 = Inr (w, r2)"
    using assms by (auto simp: parse_directive_def r1 result_simps)
  let ?prec = "case r2 of
           c # rest' \<Rightarrow>
             if c = CHR ''.'' then
               try_bind (parse_required_usize flag rest') (\<lambda>(n, rest''). Inr (Some n, rest''))
             else Inr (None, r2)
         | [] \<Rightarrow> Inr (None, r2)"
  obtain prec r3 where r3: "?prec = Inr (prec, r3)"
    using assms by (auto simp: parse_directive_def r1 r2 result_simps)
  have "\<And>n. prec = Some n \<Longrightarrow> n < 2 ^ 64"
    using r3 by (auto simp: parse_required_usize_def Let_def result_simps
        dest: parse_usize_bound split: list.splits if_splits)
  moreover have "\<And>n. w = Some n \<Longrightarrow> 0 < n \<and> n < 2 ^ 64"
    using parse_optional_usize_pos r2 parse_flags_loop_stop [OF r1] by blast
  ultimately show ?thesis
    using assms
    by (auto simp: parse_directive_def r1 r2 r3 result_simps format_wf_def
        dest!: parse_directive_kind_wf split: list.splits option.splits)
qed

lemma scan_ok_escape: "parse_escape flag rest s = Inr (s', rest') \<Longrightarrow> scan_ok s \<Longrightarrow> scan_ok s'"
  by (auto simp: parse_escape_def Let_def scan_ok_bytes scan_ok_push
      split: list.splits option.splits if_splits prod.splits) (simp add: scan_ok_def push_bytes_def)

lemma printf_loop_wf: "printf_loop flag rest s = Inr s' \<Longrightarrow> scan_ok s \<Longrightarrow> program_wf (scan_atoms s')"
proof (induction flag rest s rule: printf_loop.induct)
  case (1 flag s)
  then show ?case using scan_ok_flush_wf by auto
next
  case (2 flag c rest s)
  show ?case
  proof (cases "c = CHR ''%''")
    case True
    then obtain d rest' where rest: "rest = d # rest'"
      using 2 by (cases rest) auto
    show ?thesis
    proof (cases "d = CHR ''%''")
      case True
      then show ?thesis
        using 2 rest \<open>c = CHR ''%''\<close> by (auto simp: scan_ok_push)
    next
      case False
      then obtain r where "parse_directive flag rest = Inr r"
        "printf_loop flag (snd r) (push_atom (PDirective (fst r)) (flush_literal s)) = Inr s'"
        using 2 rest \<open>c = CHR ''%''\<close> by (auto simp: result_simps)
      moreover have "scan_ok (push_atom (PDirective (fst r)) (flush_literal s))"
        using calculation(1) \<open>scan_ok s\<close>
        by (cases r) (rule scan_ok_push; use parse_directive_wf in force)
      ultimately show ?thesis
        using 2(2) [OF \<open>c = CHR ''%''\<close> rest False] rest by blast
    qed
  next
    case False
    then show ?thesis
      using 2 scan_ok_escape [of flag rest s]
      by (auto simp: result_simps scan_ok_bytes split: if_splits)
  qed
qed

abbreviation empty_scan :: printf_scan where
  "empty_scan \<equiv> \<lparr>scan_atoms = [], scan_literal = [], scan_warnings = []\<rparr>"

lemma compiled_program_wf:
  "compile_printf_program flag fmt = Inr \<lparr>printf_atoms = p, printf_warnings = warn\<rparr> \<Longrightarrow> program_wf p"
  using printf_loop_wf [of flag fmt empty_scan]
  by (auto simp: compile_printf_program_def result_simps scan_ok_def program_wf_def)

lemma program_text_compiles:
  "program_wf p \<Longrightarrow> compile_printf_program flag (program_text p) = Inr \<lparr>printf_atoms = p, printf_warnings = []\<rparr>"
  using printf_loop_program [of p flag] feed_fold_atoms [of p empty_scan]
  by (simp add: compile_printf_program_def program_wf_def flush_literal_def)

text \<open>
  C30.  The programs that \<^verbatim>\<open>-printf\<close> formats compile to are exactly the ones in normal form (no
  empty literal, no two literals that should be one, widths that are positive and fit a machine
  word): a program is in normal form just when some format compiles to it, and just when its own
  rendering as a format string compiles to it, without a warning.
\<close>

theorem compile_printf_normal_form:
  "(program_wf p \<longleftrightarrow>
      (\<exists>fmt warn. compile_printf_program flag fmt = Inr \<lparr>printf_atoms = p, printf_warnings = warn\<rparr>))
   \<and> (program_wf p \<longleftrightarrow>
      compile_printf_program flag (program_text p) = Inr \<lparr>printf_atoms = p, printf_warnings = []\<rparr>)"
  using compiled_program_wf program_text_compiles by blast

section \<open>Field contracts\<close>

abbreviation width_of :: "field_format \<Rightarrow> nat" where
  "width_of fmt \<equiv> (case field_width fmt of None \<Rightarrow> 0 | Some w \<Rightarrow> w)"

lemma pad_field_shape:
  "\<exists>n. pad_field val width left pad =
     (if left then val @ replicate n pad else replicate n pad @ val)
     \<and> n = (case width of None \<Rightarrow> 0 | Some w \<Rightarrow> w - length val)"
  by (cases width) (auto simp: pad_field_def)

text \<open>
  The number formatting of \<^verbatim>\<open>%d\<close> and \<^verbatim>\<open>%m\<close>: the output is blanks, the sign,
  zeros, the digits and blanks, in this order, so the value is never changed or cut; it is
  exactly as long as the larger of the field width and the text, the blanks are on one side
  only, and a precision fixes the number of zeros.
\<close>

theorem format_numeric_shape:
  "\<exists>l z r. format_numeric_value ds sign fmt =
       replicate l (CHR '' '') @ (case sign of None \<Rightarrow> [] | Some c \<Rightarrow> [c])
       @ replicate z (CHR ''0'') @ ds @ replicate r (CHR '' '')
     \<and> length (format_numeric_value ds sign fmt)
         = max (width_of fmt)
             ((if sign = None then 0 else 1)
              + max (case field_precision fmt of None \<Rightarrow> 0 | Some n \<Rightarrow> n) (length ds))
     \<and> (if left_align fmt then l = 0 else r = 0)
     \<and> (case field_precision fmt of None \<Rightarrow> z = 0 \<or> l = 0 \<and> r = 0 \<and> zero_pad fmt
          | Some n \<Rightarrow> z = n - length ds)"
proof -
  define zs where "zs = (case field_precision fmt of None \<Rightarrow> 0 | Some n \<Rightarrow> n - length ds)"
  define sg where "sg = (case sign of None \<Rightarrow> [] | Some c \<Rightarrow> [c])"
  define ds' where "ds' = replicate zs (CHR ''0'') @ ds"
  define zp where "zp \<longleftrightarrow> zero_pad fmt \<and> field_precision fmt = None"
  define gap where "gap = width_of fmt - length (sg @ ds')"
  have ds': "(case field_precision fmt of
                  Some prec \<Rightarrow>
                    if length ds < prec then replicate (prec - length ds) (CHR ''0'') @ ds else ds
                | None \<Rightarrow> ds) = ds'"
    by (auto simp: ds'_def zs_def split: option.split)
  have pad: "pad_field (sg @ ds') (field_width fmt) left c
      = (if left then (sg @ ds') @ replicate gap c else replicate gap c @ sg @ ds')" for left c
    by (auto simp: pad_field_def gap_def split: option.split)
  have val: "format_numeric_value ds sign fmt =
      (if left_align fmt then (sg @ ds') @ replicate gap (CHR '' '')
       else if zp then sg @ replicate gap (CHR ''0'') @ ds'
       else replicate gap (CHR '' '') @ sg @ ds')"
    unfolding format_numeric_value_def ds' Let_def sg_def [symmetric] pad zp_def [symmetric]
    by (cases sign) (auto simp: sg_def gap_def split: option.split)
  have len: "length (format_numeric_value ds sign fmt) = max (width_of fmt)
             ((if sign = None then 0 else 1)
              + max (case field_precision fmt of None \<Rightarrow> 0 | Some n \<Rightarrow> n) (length ds))"
    unfolding val
    by (cases sign; cases "field_precision fmt") (auto simp: gap_def ds'_def zs_def sg_def)
  have zs: "zp \<Longrightarrow> zs = 0" by (simp add: zs_def zp_def)
  show ?thesis
  proof (cases "left_align fmt")
    case True
    then show ?thesis
      by (intro exI [of _ 0] exI [of _ zs] exI [of _ gap] conjI len)
        (auto simp: val ds'_def sg_def zs_def split: option.split)
  next
    case False
    show ?thesis
    proof (cases zp)
      case True
      with False show ?thesis
        by (intro exI [of _ 0] exI [of _ gap] exI [of _ 0] conjI len)
          (auto simp: val ds'_def sg_def zs zp_def split: option.split)
    next
      case no: False
      with False show ?thesis
        by (intro exI [of _ gap] exI [of _ zs] exI [of _ 0] conjI len)
          (auto simp: val ds'_def sg_def zs_def split: option.split)
    qed
  qed
qed

text \<open>
  Text fields: the precision cuts the text, the width fills it up on the side away from
  the alignment, and the filler is a zero only where the platform pads text with zeros, the
  flag is given and there is no precision.
\<close>

theorem format_string_like_shape:
  "\<exists>n filler cut. format_string_like zp val fmt =
       (if left_align fmt then cut @ replicate n filler else replicate n filler @ cut)
     \<and> cut = (case field_precision fmt of None \<Rightarrow> val | Some lim \<Rightarrow> take lim val)
     \<and> length (format_string_like zp val fmt) = max (width_of fmt) (length cut)
     \<and> (filler = CHR ''0'' \<longleftrightarrow> zp \<and> zero_pad fmt \<and> field_precision fmt = None)
     \<and> filler \<in> {CHR ''0'', CHR '' ''}"
proof -
  let ?cut = "case field_precision fmt of None \<Rightarrow> val | Some lim \<Rightarrow> take lim val"
  let ?f = "if zero_pad fmt \<and> field_precision fmt = None \<and> zp then CHR ''0'' else CHR '' ''"
  have val: "format_string_like zp val fmt = pad_field ?cut (field_width fmt) (left_align fmt) ?f"
    by (auto simp: format_string_like_def min_def split: option.split)
  obtain n where n: "pad_field ?cut (field_width fmt) (left_align fmt) ?f =
      (if left_align fmt then ?cut @ replicate n ?f else replicate n ?f @ ?cut)"
    "n = (case field_width fmt of None \<Rightarrow> 0 | Some w \<Rightarrow> w - length ?cut)"
    using pad_field_shape by blast
  have "length (format_string_like zp val fmt) = max (width_of fmt) (length ?cut)"
    unfolding val n(1) using n(2) by (auto split: option.splits)
  then show ?thesis
    by (intro exI [of _ n] exI [of _ ?f] exI [of _ ?cut]) (auto simp: val n(1))
qed

end
