(* ===== verification/Printf_Time.thy ===== *)
theory Printf_Time
  imports Printf Time_Match
begin

text \<open>
  Time fields of \<^verbatim>\<open>-printf\<close>: \<^verbatim>\<open>src/src/printf_time.rs\<close> (Unix).  \<^verbatim>\<open>localtime_r\<close> is
  an argument; its result is the C structure, with the weekday as a value of seven and the
  other fields as integers in the ranges C gives them.
\<close>

section \<open>Integer formatting\<close>

definition show_int :: "int \<Rightarrow> string" where
  "show_int x = (if x < 0 then ''-'' @ show_nat (nat (- x)) else show_nat (nat x))"

text \<open>Rust's \<^verbatim>\<open>{:0w}\<close> (zeros after the sign) and \<^verbatim>\<open>{:>w}\<close> (blanks).\<close>

definition fmt_zero :: "nat \<Rightarrow> int \<Rightarrow> string" where
  "fmt_zero w x =
     (let ds = show_nat (nat \<bar>x\<bar>); sg = (if x < 0 then ''-'' else [])
      in sg @ replicate (w - (length sg + length ds)) (CHR ''0'') @ ds)"

definition fmt_right :: "nat \<Rightarrow> int \<Rightarrow> string" where
  "fmt_right w x = (let t = show_int x in replicate (w - length t) (CHR '' '') @ t)"

section \<open>Resolved times\<close>

datatype weekday = Sunday | Monday | Tuesday | Wednesday | Thursday | Friday | Saturday

fun wday_num :: "weekday \<Rightarrow> nat" where
  "wday_num Sunday = 0" | "wday_num Monday = 1" | "wday_num Tuesday = 2" | "wday_num Wednesday = 3"
| "wday_num Thursday = 4" | "wday_num Friday = 5" | "wday_num Saturday = 6"

record full_tm = tm +
  tm_sec :: int
  tm_min :: int
  tm_hour :: int
  tm_wday :: weekday
  tm_yday :: int
  tm_gmtoff :: int
  tm_zone :: "string option"

record time_parts =
  part_timestamp :: timestamp
  part_local :: full_tm
  timezone_name :: string
  utc_offset_seconds :: int

definition weekdays_abbr :: "string list" where
  "weekdays_abbr = [''Sun'', ''Mon'', ''Tue'', ''Wed'', ''Thu'', ''Fri'', ''Sat'']"

definition weekdays_full :: "string list" where
  "weekdays_full = [''Sunday'', ''Monday'', ''Tuesday'', ''Wednesday'', ''Thursday'', ''Friday'', ''Saturday'']"

definition months_abbr :: "string list" where
  "months_abbr = [''Jan'', ''Feb'', ''Mar'', ''Apr'', ''May'', ''Jun'', ''Jul'', ''Aug'', ''Sep'',
     ''Oct'', ''Nov'', ''Dec'']"

definition months_full :: "string list" where
  "months_full = [''January'', ''February'', ''March'', ''April'', ''May'', ''June'', ''July'',
     ''August'', ''September'', ''October'', ''November'', ''December'']"

definition printf_local_time :: "(int \<Rightarrow> full_tm option) \<Rightarrow> int \<Rightarrow> full_tm result" where
  "printf_local_time localtime secs =
     ok_or (diagnostic_new ''failed to resolve local time for -printf'' 1) (localtime secs)"

definition as_i32 :: "int \<Rightarrow> int" where
  "as_i32 x = (x + 2 ^ 31) mod 2 ^ 32 - 2 ^ 31"

definition utc_offset_of :: "full_tm \<Rightarrow> int" where
  "utc_offset_of t = as_i32 (tm_gmtoff t)"

definition timezone_name_bytes :: "full_tm \<Rightarrow> string" where
  "timezone_name_bytes t = (case tm_zone t of None \<Rightarrow> [] | Some z \<Rightarrow> z)"

definition resolve_local_time_parts ::
  "(int \<Rightarrow> full_tm option) \<Rightarrow> timestamp \<Rightarrow> time_parts result" where
  "resolve_local_time_parts localtime t =
     try_bind (printf_local_time localtime (seconds t))
       (\<lambda>loc. Inr \<lparr>part_timestamp = t, part_local = loc, timezone_name = timezone_name_bytes loc,
                   utc_offset_seconds = utc_offset_of loc\<rparr>)"

section \<open>Weeks\<close>

definition is_leap_year :: "int \<Rightarrow> bool" where
  "is_leap_year y \<longleftrightarrow> y smod 4 = 0 \<and> y smod 100 \<noteq> 0 \<or> y smod 400 = 0"

definition year_len :: "int \<Rightarrow> int" where
  "year_len y = (if is_leap_year y then 366 else 365)"

definition weekday_monday_one :: "weekday \<Rightarrow> int" where
  "weekday_monday_one w = (if wday_num w = 0 then 7 else int (wday_num w))"

lemma weekday_monday_one_range: "1 \<le> weekday_monday_one w" "weekday_monday_one w \<le> 7"
  by (cases w; simp add: weekday_monday_one_def)+

lemma year_len_range: "365 \<le> year_len y" "year_len y \<le> 366"
  by (simp_all add: year_len_def)

text \<open>How many steps the recursion of the week number still takes.\<close>

definition iso_rank :: "int \<times> int \<times> weekday \<Rightarrow> nat" where
  "iso_rank = (\<lambda>(year, yday, w).
     let a = 4 - weekday_monday_one w; t = yday + a; len = year_len year in
     if t < 1 then
       (if t > - 300 then (if a > 0 \<and> t + a \<ge> 1 then 2 else 1) else 3 + nat (- t))
     else if t > len then
       (if t - len \<le> 300 then (if t - len + a < 1 then 2 else 1) else 3 + nat t)
     else 0)"

function iso_week_year :: "int \<Rightarrow> int \<Rightarrow> weekday \<Rightarrow> int \<times> int" where
  "iso_week_year year yday w =
     (let thursday = yday + (4 - weekday_monday_one w) in
      if thursday < 1 then iso_week_year (year - 1) (year_len (year - 1) + thursday) w
      else if thursday > year_len year then iso_week_year (year + 1) (thursday - year_len year) w
      else (year, (thursday - 1) sdiv 7 + 1))"
  by pat_completeness auto
termination
proof (relation "measure iso_rank")
  fix year yday :: int and w :: weekday and t
  assume t: "t = yday + (4 - weekday_monday_one w)"
  note range = weekday_monday_one_range [of w] year_len_range [of year]
    year_len_range [of "year - 1"] year_len_range [of "year + 1"]
  show "((year - 1, year_len (year - 1) + t, w), year, yday, w) \<in> measure iso_rank" if "t < 1"
    using that t range by (simp add: iso_rank_def Let_def)
  show "((year + 1, t - year_len year, w), year, yday, w) \<in> measure iso_rank"
    if "\<not> t < 1" "t > year_len year"
    using that t range by (simp add: iso_rank_def Let_def)
qed simp

declare iso_week_year.simps [simp del]

definition week_number_sunday :: "int \<Rightarrow> weekday \<Rightarrow> int" where
  "week_number_sunday yday w = max ((yday + 6 - int (wday_num w)) sdiv 7) 0"

definition week_number_monday :: "int \<Rightarrow> weekday \<Rightarrow> int" where
  "week_number_monday yday w =
     (let monday_index = weekday_monday_one w - 1 in max ((yday + 6 - monday_index) sdiv 7) 0)"

section \<open>Rendering\<close>

definition seconds_with_fraction :: "int \<Rightarrow> int \<Rightarrow> string" where
  "seconds_with_fraction sec nanosec = fmt_zero 2 sec @ ''.'' @ fmt_zero 9 nanosec @ ''0''"

definition seconds_without_fraction :: "int \<Rightarrow> string" where
  "seconds_without_fraction sec = fmt_zero 2 sec"

definition hour_12 :: "int \<Rightarrow> int" where
  "hour_12 h = (if h smod 12 = 0 then 12 else h smod 12)"

definition am_pm :: "int \<Rightarrow> string" where
  "am_pm h = (if h < 12 then ''AM'' else ''PM'')"

definition weekday_abbr :: "full_tm \<Rightarrow> string" where
  "weekday_abbr t = weekdays_abbr ! wday_num (tm_wday t)"

definition month_abbr :: "full_tm \<Rightarrow> string" where
  "month_abbr t = months_abbr ! nat (tm_mon t)"

definition render_full_time :: "time_parts \<Rightarrow> string" where
  "render_full_time p =
     (let t = part_local p in
      weekday_abbr t @ '' '' @ month_abbr t @ '' '' @ fmt_right 2 (tm_mday t) @ '' ''
      @ fmt_zero 2 (tm_hour t) @ '':'' @ fmt_zero 2 (tm_min t) @ '':''
      @ seconds_with_fraction (tm_sec t) (nanos (part_timestamp p)) @ '' '' @ show_int (tm_year t + 1900))"

definition render_epoch_seconds :: "timestamp \<Rightarrow> string" where
  "render_epoch_seconds t = show_int (seconds t) @ ''.'' @ fmt_zero 9 (nanos t) @ ''0''"

definition render_gnu_plus :: "time_parts \<Rightarrow> string" where
  "render_gnu_plus p =
     (let t = part_local p in
      fmt_zero 4 (tm_year t + 1900) @ ''-'' @ fmt_zero 2 (tm_mon t + 1) @ ''-'' @ fmt_zero 2 (tm_mday t)
      @ ''+'' @ fmt_zero 2 (tm_hour t) @ '':'' @ fmt_zero 2 (tm_min t) @ '':''
      @ seconds_with_fraction (tm_sec t) (nanos (part_timestamp p)))"

definition render_numeric_offset :: "int \<Rightarrow> string" where
  "render_numeric_offset offset =
     (let a = \<bar>offset\<bar> in
      (if offset < 0 then ''-'' else ''+'') @ fmt_zero 2 (a sdiv 3600) @ fmt_zero 2 ((a smod 3600) sdiv 60))"

definition render_c_locale_datetime :: "time_parts \<Rightarrow> string" where
  "render_c_locale_datetime p =
     (let t = part_local p in
      weekday_abbr t @ '' '' @ month_abbr t @ '' '' @ fmt_right 2 (tm_mday t) @ '' ''
      @ fmt_zero 2 (tm_hour t) @ '':'' @ fmt_zero 2 (tm_min t) @ '':''
      @ seconds_without_fraction (tm_sec t) @ '' '' @ show_int (tm_year t + 1900))"

definition render_month_day_year :: "time_parts \<Rightarrow> string" where
  "render_month_day_year p =
     (let t = part_local p in
      fmt_zero 2 (tm_mon t + 1) @ ''/'' @ fmt_zero 2 (tm_mday t) @ ''/''
      @ fmt_zero 2 ((tm_year t + 1900) smod 100))"

definition render_iso_date :: "time_parts \<Rightarrow> string" where
  "render_iso_date p =
     (let t = part_local p in
      fmt_zero 4 (tm_year t + 1900) @ ''-'' @ fmt_zero 2 (tm_mon t + 1) @ ''-'' @ fmt_zero 2 (tm_mday t))"

definition render_iso_week_fields :: "time_parts \<Rightarrow> byte \<Rightarrow> string" where
  "render_iso_week_fields p sel =
     (let t = part_local p;
          (iso_year, iso_week) = iso_week_year (tm_year t + 1900) (tm_yday t + 1) (tm_wday t)
      in if sel = CHR ''g'' then fmt_zero 2 (iso_year smod 100)
         else if sel = CHR ''G'' then fmt_zero 4 iso_year
         else fmt_zero 2 iso_week)"

definition render_week_number :: "time_parts \<Rightarrow> byte \<Rightarrow> string" where
  "render_week_number p sel =
     (let t = part_local p in
      fmt_zero 2 (if sel = CHR ''U'' then week_number_sunday (tm_yday t + 1) (tm_wday t)
                  else week_number_monday (tm_yday t + 1) (tm_wday t)))"

definition render_selector_byte :: "time_parts \<Rightarrow> byte \<Rightarrow> string result" where
  "render_selector_byte p b =
     (let t = part_local p in
      if b = CHR ''a'' then Inr (weekday_abbr t)
      else if b = CHR ''A'' then Inr (weekdays_full ! wday_num (tm_wday t))
      else if b \<in> {CHR ''b'', CHR ''h''} then Inr (month_abbr t)
      else if b = CHR ''B'' then Inr (months_full ! nat (tm_mon t))
      else if b = CHR ''c'' then Inr (render_c_locale_datetime p)
      else if b = CHR ''d'' then Inr (fmt_zero 2 (tm_mday t))
      else if b \<in> {CHR ''D'', CHR ''x''} then Inr (render_month_day_year p)
      else if b = CHR ''F'' then Inr (render_iso_date p)
      else if b \<in> {CHR ''g'', CHR ''G'', CHR ''V''} then Inr (render_iso_week_fields p b)
      else if b = CHR ''H'' then Inr (fmt_zero 2 (tm_hour t))
      else if b = CHR ''I'' then Inr (fmt_zero 2 (hour_12 (tm_hour t)))
      else if b = CHR ''j'' then Inr (fmt_zero 3 (tm_yday t + 1))
      else if b = CHR ''M'' then Inr (fmt_zero 2 (tm_min t))
      else if b = CHR ''m'' then Inr (fmt_zero 2 (tm_mon t + 1))
      else if b = CHR ''p'' then Inr (am_pm (tm_hour t))
      else if b = CHR ''r'' then
        Inr (fmt_zero 2 (hour_12 (tm_hour t)) @ '':'' @ fmt_zero 2 (tm_min t) @ '':''
             @ seconds_without_fraction (tm_sec t) @ '' '' @ am_pm (tm_hour t))
      else if b = CHR ''R'' then Inr (fmt_zero 2 (tm_hour t) @ '':'' @ fmt_zero 2 (tm_min t))
      else if b = CHR ''S'' then Inr (seconds_with_fraction (tm_sec t) (nanos (part_timestamp p)))
      else if b = CHR ''t'' then Inr [CHR 0x09]
      else if b \<in> {CHR ''T'', CHR ''X''} then
        Inr (fmt_zero 2 (tm_hour t) @ '':'' @ fmt_zero 2 (tm_min t) @ '':''
             @ seconds_with_fraction (tm_sec t) (nanos (part_timestamp p)))
      else if b = CHR ''u'' then Inr (show_int (weekday_monday_one (tm_wday t)))
      else if b \<in> {CHR ''U'', CHR ''W''} then Inr (render_week_number p b)
      else if b = CHR ''w'' then Inr (show_int (int (wday_num (tm_wday t))))
      else if b = CHR ''Y'' then Inr (fmt_zero 4 (tm_year t + 1900))
      else if b = CHR ''y'' then Inr (fmt_zero 2 ((tm_year t + 1900) smod 100))
      else if b = CHR ''Z'' then Inr (timezone_name p)
      else if b = CHR ''z'' then Inr (render_numeric_offset (utc_offset_seconds p))
      else Inl (diagnostic_new (''internal error: time selector '' @ char_from_u8 b
                  @ '' not implemented yet'') 1))"

definition render_selector :: "time_parts \<Rightarrow> time_selector \<Rightarrow> string result" where
  "render_selector p sel =
     (case sel of
        SelEpochSeconds \<Rightarrow> Inr (render_epoch_seconds (part_timestamp p))
      | SelGnuPlus \<Rightarrow> Inr (render_gnu_plus p)
      | SelByte b \<Rightarrow> render_selector_byte p b)"

section \<open>Selectors\<close>

text \<open>
  Every time selector that the format compiler accepts is rendered: a compiled program
  never runs into the internal error of an unknown selector.
\<close>

theorem compiled_selectors_render:
  "kind_wf (DTimestampPart fam sel) \<longleftrightarrow> (\<exists>text. render_selector p sel = Inr text)"
proof (cases sel)
  case (SelByte b)
  have "(\<exists>text. render_selector_byte p b = Inr text) \<longleftrightarrow>
      b \<in> {CHR ''a'', CHR ''A'', CHR ''b'', CHR ''h'', CHR ''B'', CHR ''c'', CHR ''d'', CHR ''D'',
           CHR ''x'', CHR ''F'', CHR ''g'', CHR ''G'', CHR ''V'', CHR ''H'', CHR ''I'', CHR ''j'',
           CHR ''M'', CHR ''m'', CHR ''p'', CHR ''r'', CHR ''R'', CHR ''S'', CHR ''t'', CHR ''T'',
           CHR ''X'', CHR ''u'', CHR ''U'', CHR ''W'', CHR ''w'', CHR ''Y'', CHR ''y'', CHR ''Z'',
           CHR ''z''}"
    by (simp add: render_selector_byte_def Let_def)
  then show ?thesis
    by (simp add: SelByte render_selector_def selector_bytes_def disj_ac)
qed (simp_all add: render_selector_def)

section \<open>Week numbers\<close>

text \<open>The weekday of day \<open>d\<close> of a year in which day \<open>yday\<close> falls on \<open>w\<close>.\<close>

definition weekday_of_day :: "int \<Rightarrow> weekday \<Rightarrow> int \<Rightarrow> int" where
  "weekday_of_day yday w d = (int (wday_num w) + d - yday) mod 7"

lemma div7_shift:
  fixes x e :: int
  assumes "0 \<le> e" "e \<le> 6"
  shows "(x - e) div 7 = x div 7 - (if x mod 7 < e then 1 else 0)"
proof -
  define q r where "q = x div 7" and "r = x mod 7"
  have x: "x = 7 * q + r" and r: "0 \<le> r" "r < 7" by (simp_all add: q_def r_def)
  have "(x - e) div 7 = q + (r - e) div 7"
    unfolding x by (metis add_diff_eq div_mult_self2 zero_neq_numeral add.commute)
  moreover have "(r - e) div 7 = (if r < e then - 1 else 0)"
  proof (cases "r < e")
    case True
    have "(r - e) div 7 = (r - e + 7) div 7 - 1" by simp
    moreover have "(r - e + 7) div 7 = 0" using True r assms by (simp add: div_pos_pos_trivial)
    ultimately show ?thesis using True by simp
  next
    case False
    then show ?thesis using r assms by (simp add: div_pos_pos_trivial)
  qed
  ultimately show ?thesis by (simp add: q_def r_def)
qed

lemma mod7_eq_iff: "0 \<le> k \<Longrightarrow> k < 7 \<Longrightarrow> x mod 7 = k \<longleftrightarrow> 7 dvd x - (k :: int)"
  using mod_eq_dvd_iff [of x 7 k] by simp

lemma card_congruent:
  fixes n k :: int
  assumes "0 \<le> n" "0 \<le> k" "k < 7"
  shows "int (card {d \<in> {1..n}. d mod 7 = k}) = (n + 7 - k) div 7 - (if k = 0 then 1 else 0)"
  using assms(1)
proof (induction rule: int_ge_induct)
  case base
  have "{d \<in> {1..0::int}. d mod 7 = k} = {}" by auto
  then show ?case using assms by (auto simp: div_pos_pos_trivial)
next
  case (step n)
  have split: "{d \<in> {1..n + 1}. d mod 7 = k} =
      (if (n + 1) mod 7 = k then insert (n + 1) {d \<in> {1..n}. d mod 7 = k} else {d \<in> {1..n}. d mod 7 = k})"
    using step.hyps by (auto simp: le_less) 
  have fin: "finite {d \<in> {1..n}. d mod 7 = k}" by (rule finite_subset [of _ "{1..n}"]) auto
  have "int (card {d \<in> {1..n + 1}. d mod 7 = k})
      = int (card {d \<in> {1..n}. d mod 7 = k}) + (if (n + 1) mod 7 = k then 1 else 0)"
    unfolding split using fin by auto
  moreover have "(n + 1 + 7 - k) div 7 = (n + 7 - k) div 7 + (if (n + 1) mod 7 = k then 1 else 0)"
  proof -
    have "(x + 1) div 7 = x div 7 + (if 7 dvd x + 1 then 1 else 0)" for x :: int
      by presburger
    from this [of "n + 7 - k"] have "(n + 1 + 7 - k) div 7
        = (n + 7 - k) div 7 + (if 7 dvd n + 7 - k + 1 then 1 else 0)"
      by (simp add: algebra_simps)
    moreover have "7 dvd n + 7 - k + 1 \<longleftrightarrow> (n + 1) mod 7 = k"
    proof -
      have "n + 7 - k + 1 = (n + 1 - k) + 7" by simp
      then show ?thesis using mod7_eq_iff [OF assms(2,3), of "n + 1"] by (metis dvd_add_triv_right_iff)
    qed
    ultimately show ?thesis by simp
  qed
  ultimately show ?case using step.IH by simp
qed

lemma sdiv_nonneg: "0 \<le> (x :: int) \<Longrightarrow> 0 < y \<Longrightarrow> x sdiv y = x div y"
  by (cases "x = 0") (simp_all add: signed_divide_int_def)

lemma count_weekday:
  assumes "1 \<le> yday" "0 \<le> j" "j \<le> 6" "\<And>d. weekday_of_day yday w d = target \<longleftrightarrow> d mod 7 = (yday - j) mod 7"
  shows "(yday + 6 - j) div 7 = int (card {d \<in> {1..yday}. weekday_of_day yday w d = target})"
proof -
  let ?k = "(yday - j) mod 7"
  have "{d \<in> {1..yday}. weekday_of_day yday w d = target} = {d \<in> {1..yday}. d mod 7 = ?k}"
    using assms(4) by simp
  moreover have "int (card {d \<in> {1..yday}. d mod 7 = ?k})
      = (yday + 7 - ?k) div 7 - (if ?k = 0 then 1 else 0)"
    by (rule card_congruent) (use assms(1) in auto)
  moreover have "(yday + 7 - ?k) div 7 - (if ?k = 0 then 1 else 0) = (yday + 6 - j) div 7"
  proof -
    define q where "q = (yday - j) div 7"
    have k: "0 \<le> ?k" "?k < 7" by simp_all
    have y: "yday = 7 * q + ?k + j" unfolding q_def by (simp add: algebra_simps)
    have "yday + 7 - ?k = j + 7 * (q + 1)" using y by simp
    then have left: "(yday + 7 - ?k) div 7 = q + 1"
      using assms(2,3) by (simp only: div_mult_self2 div_pos_pos_trivial)
    have e: "yday + 6 - j = (?k + 6) + 7 * q" using y by simp
    have "(yday + 6 - j) div 7 = (?k + 6) div 7 + q"
      unfolding e by (simp add: add.commute)
    moreover have "(?k + 6) div 7 = (if ?k = 0 then 0 else 1)"
      using k by (auto simp: int_div_pos_eq intro: int_div_pos_eq [of _ 7 1 "?k - 1"])
    ultimately show ?thesis using left by simp
  qed
  ultimately show ?thesis by simp
qed

text \<open>
  The week numbers of \<^verbatim>\<open>%U\<close> and \<^verbatim>\<open>%W\<close> count: on day \<open>yday\<close> of a year, the number of
  Sundays (of Mondays) among the days from 1 to \<open>yday\<close>.
\<close>

theorem week_numbers_count:
  assumes "1 \<le> yday"
  shows "week_number_sunday yday w = int (card {d \<in> {1..yday}. weekday_of_day yday w d = 0})
    \<and> week_number_monday yday w = int (card {d \<in> {1..yday}. weekday_of_day yday w d = 1})"
proof
  let ?n = "int (wday_num w)"
  have n: "0 \<le> ?n" "?n \<le> 6" by (cases w; simp)+
  have "weekday_of_day yday w d = 0 \<longleftrightarrow> d mod 7 = (yday - ?n) mod 7" for d
  proof -
    have "weekday_of_day yday w d = 0 \<longleftrightarrow> 7 dvd ?n + d - yday"
      by (simp add: weekday_of_day_def dvd_eq_mod_eq_0)
    also have "\<dots> \<longleftrightarrow> d mod 7 = (yday - ?n) mod 7"
      by (simp add: mod_eq_dvd_iff algebra_simps)
    finally show ?thesis .
  qed
  from count_weekday [OF assms n this] show
    "week_number_sunday yday w = int (card {d \<in> {1..yday}. weekday_of_day yday w d = 0})"
    using assms n by (simp add: week_number_sunday_def sdiv_nonneg)
  let ?m = "weekday_monday_one w - 1"
  have m: "0 \<le> ?m" "?m \<le> 6" using weekday_monday_one_range [of w] by simp_all
  have mn: "?m = (?n - 1) mod 7" by (cases w) (simp_all add: weekday_monday_one_def)
  have "weekday_of_day yday w d = 1 \<longleftrightarrow> d mod 7 = (yday - ?m) mod 7" for d
  proof -
    have "weekday_of_day yday w d = 1 \<longleftrightarrow> 7 dvd ?n + d - yday - 1"
      by (simp add: weekday_of_day_def mod7_eq_iff)
    also have "\<dots> \<longleftrightarrow> d mod 7 = (yday - (?n - 1)) mod 7"
      by (simp add: mod_eq_dvd_iff algebra_simps)
    finally show ?thesis unfolding mn by (simp add: mod_diff_right_eq)
  qed
  from count_weekday [OF assms m this] show
    "week_number_monday yday w = int (card {d \<in> {1..yday}. weekday_of_day yday w d = 1})"
    using assms m by (simp add: week_number_monday_def Let_def sdiv_nonneg)
qed

lemma week_numbers_count_witness:
  "week_number_sunday 3 Sunday = int (card {d \<in> {1..3}. weekday_of_day 3 Sunday d = 0})"
  using week_numbers_count [of 3 Sunday] by simp

text \<open>
  The ISO rule: a week belongs to the year of its Thursday, and its number is the number of
  Thursdays of that year up to it.
\<close>

definition iso_spec :: "int \<Rightarrow> int \<Rightarrow> weekday \<Rightarrow> int \<times> int" where
  "iso_spec year yday w =
     (let thursday = yday + (4 - weekday_monday_one w) in
      if thursday < 1 then (year - 1, (year_len (year - 1) + thursday - 1) div 7 + 1)
      else if thursday > year_len year then (year + 1, (thursday - year_len year - 1) div 7 + 1)
      else (year, (thursday - 1) div 7 + 1))"

text \<open>
  C39.  The ISO week of \<^verbatim>\<open>%G\<close>, \<^verbatim>\<open>%g\<close> and \<^verbatim>\<open>%V\<close>.  The year is always right.  The week is
  right for every day whose Thursday is in its own or the next year; for the days of early
  January that belong to the last week of the year before, the correction to Thursday is
  applied a second time in the recursive call, and the week is one too small exactly when this
  second step crosses a week boundary.
\<close>

theorem iso_week_year_vs_rule:
  assumes "1 \<le> yday" "yday \<le> year_len year"
  shows "iso_week_year year yday w =
    (let (y, k) = iso_spec year yday w;
         m = weekday_monday_one w;
         thursday = year_len (year - 1) + yday + 4 - m
     in (y, if y < year \<and> (thursday - 1) mod 7 < m - 4 then k - 1 else k))"
proof -
  let ?m = "weekday_monday_one w"
  let ?t = "yday + (4 - ?m)"
  note range = weekday_monday_one_range [of w] year_len_range [of year]
    year_len_range [of "year - 1"] year_len_range [of "year + 1"]
  consider (early) "?t < 1" | (late) "?t > year_len year" | (own) "1 \<le> ?t" "?t \<le> year_len year"
    by linarith
  then show ?thesis
  proof cases
    case early
    let ?y = "year_len (year - 1) + ?t"
    have inner: "1 \<le> ?y + (4 - ?m)" "?y + (4 - ?m) \<le> year_len (year - 1)"
      using early range assms by linarith+
    have "iso_week_year year yday w = iso_week_year (year - 1) ?y w"
      using early by (simp add: iso_week_year.simps [of year] Let_def)
    also have "\<dots> = (year - 1, (?y + (4 - ?m) - 1) div 7 + 1)"
      using inner by (simp add: iso_week_year.simps [of "year - 1"] Let_def sdiv_nonneg)
    also have "(?y + (4 - ?m) - 1) div 7 = (?y - 1) div 7 - (if (?y - 1) mod 7 < ?m - 4 then 1 else 0)"
    proof -
      have "4 \<le> ?m" using early assms(1) by linarith
      then show ?thesis
        using div7_shift [of "?m - 4" "?y - 1"] range by (simp add: algebra_simps)
    qed
    finally show ?thesis
      using early by (simp add: iso_spec_def Let_def algebra_simps)
  next
    case late
    let ?y = "?t - year_len year"
    have inner: "1 \<le> ?y + (4 - ?m)" "?y + (4 - ?m) \<le> year_len (year + 1)" "1 \<le> ?y" "?y \<le> 3" "?m \<le> 3"
      using late range assms by linarith+
    have "iso_week_year year yday w = iso_week_year (year + 1) ?y w"
      using late range by (simp add: iso_week_year.simps [of year] Let_def)
    also have "\<dots> = (year + 1, (?y + (4 - ?m) - 1) div 7 + 1)"
      using inner by (simp add: iso_week_year.simps [of "year + 1"] Let_def sdiv_nonneg)
    also have "(?y + (4 - ?m) - 1) div 7 = (?y - 1) div 7"
      using inner range late assms by (simp add: div_pos_pos_trivial)
    finally show ?thesis
      using late range by (simp add: iso_spec_def Let_def algebra_simps)
  next
    case own
    then show ?thesis
      by (simp add: iso_week_year.simps [of year] iso_spec_def Let_def sdiv_nonneg)
  qed
qed

text \<open>
  3 January 2021, a Sunday, is in week 53 of 2020; the code says 52.  1 January 2016, a Friday,
  is in week 53 of 2015; the code says 52.
\<close>

lemma iso_week_year_vs_rule_witness:
  "iso_week_year 2021 3 Sunday = (2020, 52) \<and> iso_spec 2021 3 Sunday = (2020, 53)
   \<and> iso_week_year 2016 1 Friday = (2015, 52) \<and> iso_spec 2016 1 Friday = (2015, 53)"
proof -
  have len: "year_len 2020 = 366" "year_len 2021 = 365" "year_len 2015 = 365" "year_len 2016 = 366"
    by code_simp+
  have spec: "iso_spec 2021 3 Sunday = (2020, 53)" "iso_spec 2016 1 Friday = (2015, 53)"
    by code_simp+
  have "iso_week_year 2021 3 Sunday = (2020, 52)"
    using iso_week_year_vs_rule [of 3 2021 Sunday] len spec by (simp add: weekday_monday_one_def)
  moreover have "iso_week_year 2016 1 Friday = (2015, 52)"
    using iso_week_year_vs_rule [of 1 2016 Friday] len spec by (simp add: weekday_monday_one_def)
  ultimately show ?thesis using spec by simp
qed

end
