(* ===== verification/Runtime_Plan.thy ===== *)
theory Runtime_Plan
  imports Exec_Template Printf Entry Numeric Size_Arg Perm_Mode File_Flags Glob Time_Match
    "HOL-Library.Multiset"
begin

text \<open>
  The executable form of an expression (\<^verbatim>\<open>src/src/planner.rs\<close>), the reordering of
  predicates (\<^verbatim>\<open>src/src/optimizer.rs\<close>) and the policies derived from it
  (\<^verbatim>\<open>src/src/runtime_policy.rs\<close>, \<^verbatim>\<open>choose_parallel_policy\<close> and the action profile of
  \<^verbatim>\<open>planner.rs\<close>).  The regular-expression matcher is a type parameter \<open>'rx\<close>.
\<close>

section \<open>Expressions\<close>

datatype (plugins only: code size) ('p, 'a) runtime_expr =
    RAnd "('p, 'a) runtime_expr list"
  | ROr "('p, 'a) runtime_expr" "('p, 'a) runtime_expr"
  | RNot "('p, 'a) runtime_expr"
  | RPredicate 'p
  | RAction 'a
  | RBarrier

datatype (plugins only: code size) 'rx runtime_predicate =
    RpPrune | RpFsType os_string | RpReadable | RpWritable | RpExecutable
  | RpName compiled_glob | RpPath compiled_glob | RpRegex 'rx
  | RpInum numeric_comparison | RpLinks numeric_comparison | RpSameFile file_identity
  | RpLName compiled_glob | RpUid numeric_comparison | RpGid numeric_comparison
  | RpUser principal_id | RpGroup principal_id | RpNoUser | RpNoGroup
  | RpPerm perm_matcher | RpFlags file_flags_matcher | RpReparseType reparse_type_class
  | RpSize size_matcher | RpEmpty | RpUsed used_matcher | RpRelativeTime relative_time_matcher
  | RpNewer newer_matcher | RpType file_type_filter | RpXType file_type_filter | RpTrue | RpFalse

datatype output_action = OutPrint | OutPrint0

type_synonym file_output_id = nat

datatype file_output_terminator = TermNewline | TermNul

record planned_file_output =
  output_id :: file_output_id
  output_path :: path

datatype (plugins only: code size) runtime_action =
    RaOutput output_action
  | RaPrintf printf_program
  | RaFilePrint file_output_id file_output_terminator
  | RaFilePrintf file_output_id printf_program
  | RaLs
  | RaFileLs file_output_id
  | RaQuit
  | RaExecImmediate immediate_exec_action
  | RaExecBatched batched_exec_action
  | RaExecPrompt immediate_exec_action
  | RaDelete

type_synonym 'rx rexpr = "('rx runtime_predicate, runtime_action) runtime_expr"

section \<open>Predicate costs (optimizer.rs)\<close>

datatype requirement =
    ReqBasename | ReqFullPath | ReqFileType | ReqActiveMetadata | ReqFilesystemInfo | ReqPathAccess
  | ReqBirthTime | ReqDirectoryRead | ReqLinkTarget | ReqNss

datatype cost_tier =
    CostConstant | CostStringOnly | CostRegexString | CostFileType | CostActiveMetadata
  | CostPathAccess | CostBirthTime | CostDirectoryRead | CostExpensive

fun cost_rank :: "cost_tier \<Rightarrow> nat" where
  "cost_rank CostConstant = 0" | "cost_rank CostStringOnly = 1" | "cost_rank CostRegexString = 2"
| "cost_rank CostFileType = 3" | "cost_rank CostActiveMetadata = 4" | "cost_rank CostPathAccess = 5"
| "cost_rank CostBirthTime = 6" | "cost_rank CostDirectoryRead = 7" | "cost_rank CostExpensive = 8"

lemma cost_rank_inj: "cost_rank a = cost_rank b \<longleftrightarrow> a = b"
  by (cases a; cases b) simp_all

instantiation cost_tier :: linorder
begin

definition less_eq_cost_tier :: "cost_tier \<Rightarrow> cost_tier \<Rightarrow> bool" where
  "less_eq_cost_tier a b \<longleftrightarrow> cost_rank a \<le> cost_rank b"

definition less_cost_tier :: "cost_tier \<Rightarrow> cost_tier \<Rightarrow> bool" where
  "less_cost_tier a b \<longleftrightarrow> cost_rank a < cost_rank b"

instance
  by standard (auto simp: less_eq_cost_tier_def less_cost_tier_def simp flip: cost_rank_inj)

end

record predicate_profile =
  reorderable :: bool
  requirements :: "requirement list"
  cost :: cost_tier

definition profile :: "requirement list \<Rightarrow> cost_tier \<Rightarrow> predicate_profile" where
  "profile reqs c = \<lparr>reorderable = True, requirements = reqs, cost = c\<rparr>"

fun predicate_profile_of :: "'rx runtime_predicate \<Rightarrow> predicate_profile" where
  "predicate_profile_of RpPrune = \<lparr>reorderable = False, requirements = [], cost = CostConstant\<rparr>"
| "predicate_profile_of (RpFsType t) = profile [ReqFilesystemInfo] CostActiveMetadata"
| "predicate_profile_of RpReadable = profile [ReqPathAccess] CostPathAccess"
| "predicate_profile_of RpWritable = profile [ReqPathAccess] CostPathAccess"
| "predicate_profile_of RpExecutable = profile [ReqPathAccess] CostPathAccess"
| "predicate_profile_of RpTrue = profile [] CostConstant"
| "predicate_profile_of RpFalse = profile [] CostConstant"
| "predicate_profile_of (RpName g) = profile [ReqBasename] CostStringOnly"
| "predicate_profile_of (RpPath g) = profile [ReqFullPath] CostStringOnly"
| "predicate_profile_of (RpRegex r) = profile [ReqFullPath] CostRegexString"
| "predicate_profile_of (RpType t) = profile [ReqFileType] CostFileType"
| "predicate_profile_of (RpXType t) = profile [ReqFileType] CostFileType"
| "predicate_profile_of RpEmpty = profile [ReqActiveMetadata, ReqDirectoryRead] CostDirectoryRead"
| "predicate_profile_of (RpInum n) = profile [ReqActiveMetadata] CostActiveMetadata"
| "predicate_profile_of (RpLinks n) = profile [ReqActiveMetadata] CostActiveMetadata"
| "predicate_profile_of (RpSameFile i) = profile [ReqActiveMetadata] CostActiveMetadata"
| "predicate_profile_of (RpUid n) = profile [ReqActiveMetadata] CostActiveMetadata"
| "predicate_profile_of (RpGid n) = profile [ReqActiveMetadata] CostActiveMetadata"
| "predicate_profile_of (RpUser u) = profile [ReqActiveMetadata] CostActiveMetadata"
| "predicate_profile_of (RpGroup g) = profile [ReqActiveMetadata] CostActiveMetadata"
| "predicate_profile_of (RpPerm m) = profile [ReqActiveMetadata] CostActiveMetadata"
| "predicate_profile_of (RpFlags f) = profile [ReqActiveMetadata] CostActiveMetadata"
| "predicate_profile_of (RpReparseType t) = profile [ReqActiveMetadata] CostActiveMetadata"
| "predicate_profile_of (RpSize s) = profile [ReqActiveMetadata] CostActiveMetadata"
| "predicate_profile_of (RpUsed u) = profile [ReqActiveMetadata] CostActiveMetadata"
| "predicate_profile_of (RpRelativeTime m) = profile [ReqActiveMetadata] CostActiveMetadata"
| "predicate_profile_of (RpNewer m) =
     (if newer_current m = KBirth then profile [ReqBirthTime] CostBirthTime
      else profile [ReqActiveMetadata] CostActiveMetadata)"
| "predicate_profile_of (RpLName g) = profile [ReqLinkTarget] CostExpensive"
| "predicate_profile_of RpNoUser = profile [ReqActiveMetadata, ReqNss] CostExpensive"
| "predicate_profile_of RpNoGroup = profile [ReqActiveMetadata, ReqNss] CostExpensive"

fun is_reorderable_leaf :: "('rx runtime_predicate, 'a) runtime_expr \<Rightarrow> bool" where
  "is_reorderable_leaf (RPredicate p) \<longleftrightarrow> reorderable (predicate_profile_of p)"
| "is_reorderable_leaf _ \<longleftrightarrow> False"

fun expr_cost :: "('rx runtime_predicate, 'a) runtime_expr \<Rightarrow> cost_tier" where
  "expr_cost (RPredicate p) = cost (predicate_profile_of p)"
| "expr_cost _ = CostExpensive"

text \<open>Appending a segment in cost order; \<^verbatim>\<open>sort_by_key\<close> is the stable sort.\<close>

definition flush_segment ::
  "('rx runtime_predicate, 'a) runtime_expr list \<Rightarrow> ('rx runtime_predicate, 'a) runtime_expr list
   \<Rightarrow> ('rx runtime_predicate, 'a) runtime_expr list" where
  "flush_segment out seg = out @ sort_key expr_cost seg"

fun segment_loop ::
  "('rx runtime_predicate, 'a) runtime_expr list \<Rightarrow> ('rx runtime_predicate, 'a) runtime_expr list
   \<Rightarrow> ('rx runtime_predicate, 'a) runtime_expr list \<Rightarrow> ('rx runtime_predicate, 'a) runtime_expr list" where
  "segment_loop out seg [] = flush_segment out seg"
| "segment_loop out seg (item # items) =
     (if is_reorderable_leaf item then segment_loop out (seg @ [item]) items
      else segment_loop (flush_segment out seg @ [item]) [] items)"

fun optimize_read_only_and_chains ::
  "('rx runtime_predicate, 'a) runtime_expr \<Rightarrow> ('rx runtime_predicate, 'a) runtime_expr" where
  "optimize_read_only_and_chains (RAnd items) =
     RAnd (segment_loop [] [] (map optimize_read_only_and_chains items))"
| "optimize_read_only_and_chains (ROr l r) =
     ROr (optimize_read_only_and_chains l) (optimize_read_only_and_chains r)"
| "optimize_read_only_and_chains (RNot e) = RNot (optimize_read_only_and_chains e)"
| "optimize_read_only_and_chains (RPredicate p) = RPredicate p"
| "optimize_read_only_and_chains (RAction a) = RAction a"
| "optimize_read_only_and_chains RBarrier = RBarrier"

section \<open>Policies\<close>

datatype traversal_order = PreOrder | DepthFirstPostOrder

datatype commit_policy = OrderedSequence | Relaxed | RelaxedWithSubtreeBarriers

record runtime_policy =
  requested_workers :: nat
  evaluation_workers :: nat
  commit :: commit_policy

definition derive_with_parallelism :: "nat \<Rightarrow> traversal_order \<Rightarrow> bool \<Rightarrow> nat \<Rightarrow> runtime_policy" where
  "derive_with_parallelism workers order ordered_mode host_parallelism =
     (let requested = max workers 1;
          evaluation = (if ordered_mode then max host_parallelism 1 else requested);
          com = (if ordered_mode then OrderedSequence
                 else if order = DepthFirstPostOrder then RelaxedWithSubtreeBarriers else Relaxed)
      in \<lparr>requested_workers = requested, evaluation_workers = evaluation, commit = com\<rparr>)"

fun contains_prune :: "('rx runtime_predicate, 'a) runtime_expr \<Rightarrow> bool" where
  "contains_prune (RAnd items) \<longleftrightarrow> list_ex contains_prune items"
| "contains_prune (ROr l r) \<longleftrightarrow> contains_prune l \<or> contains_prune r"
| "contains_prune (RNot e) \<longleftrightarrow> contains_prune e"
| "contains_prune (RPredicate p) \<longleftrightarrow> (case p of RpPrune \<Rightarrow> True | _ \<Rightarrow> False)"
| "contains_prune (RAction a) \<longleftrightarrow> False"
| "contains_prune RBarrier \<longleftrightarrow> False"

fun project_for_traversal ::
  "('rx runtime_predicate, 'a) runtime_expr \<Rightarrow> ('rx runtime_predicate, 'a) runtime_expr" where
  "project_for_traversal (RAnd items) = RAnd (map project_for_traversal items)"
| "project_for_traversal (ROr l r) = ROr (project_for_traversal l) (project_for_traversal r)"
| "project_for_traversal (RNot e) = RNot (project_for_traversal e)"
| "project_for_traversal (RPredicate p) = RPredicate p"
| "project_for_traversal (RAction a) = RBarrier"
| "project_for_traversal RBarrier = RBarrier"

definition build_traversal_control_plan ::
  "('rx runtime_predicate, 'a) runtime_expr \<Rightarrow> traversal_order \<Rightarrow>
   ('rx runtime_predicate, 'a) runtime_expr option" where
  "build_traversal_control_plan e order =
     (if order \<noteq> PreOrder \<or> \<not> contains_prune e then None else Some (project_for_traversal e))"

record action_profile =
  has_local_immediate :: bool
  has_local_batched :: bool
  has_global_control :: bool
  has_subtree_finalizer :: bool
  has_ordered_only :: bool

definition default_action_profile :: action_profile where
  "default_action_profile =
     \<lparr>has_local_immediate = False, has_local_batched = False, has_global_control = False,
      has_subtree_finalizer = False, has_ordered_only = False\<rparr>"

fun profile_action :: "runtime_action \<Rightarrow> action_profile \<Rightarrow> action_profile" where
  "profile_action RaQuit p = p\<lparr>has_global_control := True\<rparr>"
| "profile_action (RaExecImmediate s) p = p\<lparr>has_local_immediate := True\<rparr>"
| "profile_action (RaExecPrompt s) p = p\<lparr>has_local_immediate := True\<rparr>"
| "profile_action (RaExecBatched s) p = p\<lparr>has_local_batched := True\<rparr>"
| "profile_action RaDelete p = p\<lparr>has_subtree_finalizer := True\<rparr>"
| "profile_action _ p = p"

fun populate_action_profile ::
  "('p, runtime_action) runtime_expr \<Rightarrow> action_profile \<Rightarrow> action_profile" where
  "populate_action_profile (RAnd items) p = fold populate_action_profile items p"
| "populate_action_profile (ROr l r) p = populate_action_profile r (populate_action_profile l p)"
| "populate_action_profile (RNot e) p = populate_action_profile e p"
| "populate_action_profile (RAction a) p = profile_action a p"
| "populate_action_profile (RPredicate q) p = p"
| "populate_action_profile RBarrier p = p"

definition compute_action_profile :: "('p, runtime_action) runtime_expr \<Rightarrow> action_profile" where
  "compute_action_profile e = populate_action_profile e default_action_profile"

datatype parallel_policy = PreOrderFastPath | PostOrderSubtree

definition choose_parallel_policy ::
  "nat \<Rightarrow> traversal_order \<Rightarrow> action_profile \<Rightarrow> parallel_policy option" where
  "choose_parallel_policy workers order prof =
     (if workers \<le> 1 then None
      else if order = DepthFirstPostOrder \<or> has_subtree_finalizer prof then Some PostOrderSubtree
      else Some PreOrderFastPath)"

end
