(* ===== verification/Pipeline.thy ===== *)
theory Pipeline
  imports Runtime_Plan Ordered_Map
begin

text \<open>
  Evaluation of one entry as a machine that stops at every action: \<^verbatim>\<open>src/src/runtime_pipeline.rs\<close>
  and the driver loop and status of \<^verbatim>\<open>src/src/eval.rs\<close>.  The evaluator of predicates \<open>ev\<close> and
  the dispatcher of actions \<open>dispatch\<close> are arguments here; \<open>Eval\<close> supplies the program's own.
\<close>

section \<open>Status and outcome (eval.rs)\<close>

datatype runtime_control = Continue | StopRequested

record runtime_status =
  had_action_failures :: bool
  control :: runtime_control

definition default_status :: runtime_status where
  "default_status = \<lparr>had_action_failures = False, control = Continue\<rparr>"

definition action_failure_status :: runtime_status where
  "action_failure_status = \<lparr>had_action_failures = True, control = Continue\<rparr>"

definition stop_requested_status :: runtime_status where
  "stop_requested_status = \<lparr>had_action_failures = False, control = StopRequested\<rparr>"

definition merge :: "runtime_status \<Rightarrow> runtime_status \<Rightarrow> runtime_status" where
  "merge a b =
     \<lparr>had_action_failures = had_action_failures a \<or> had_action_failures b,
      control = (if control a = StopRequested \<or> control b = StopRequested then StopRequested
                 else Continue)\<rparr>"

definition is_stop_requested :: "runtime_status \<Rightarrow> bool" where
  "is_stop_requested s \<longleftrightarrow> control s = StopRequested"

text \<open>\<^verbatim>\<open>ActionOutcome\<close> and \<^verbatim>\<open>EvalOutcome\<close> have the same two fields.\<close>

record outcome =
  matched :: bool
  status :: runtime_status

definition outcome_new :: "bool \<Rightarrow> outcome" where
  "outcome_new m = \<lparr>matched = m, status = default_status\<rparr>"

definition outcome_quit :: outcome where
  "outcome_quit = \<lparr>matched = True, status = stop_requested_status\<rparr>"

definition action_failure :: "bool \<Rightarrow> outcome" where
  "action_failure m = \<lparr>matched = m, status = action_failure_status\<rparr>"

lemma merge_default [simp]:
  "merge default_status s = s" "merge s default_status = s"
  by (cases s; cases "control s"; simp add: merge_def default_status_def)+

lemma outcome_eta [simp]: "\<lparr>matched = matched out, status = status out\<rparr> = (out :: outcome)"
  by (cases out) simp

lemma merge_assoc: "merge (merge a b) c = merge a (merge b c)"
  by (simp add: merge_def)

lemma is_stop_default [simp]: "\<not> is_stop_requested default_status"
  by (simp add: is_stop_requested_def default_status_def)

lemma is_stop_merge [simp]:
  "is_stop_requested (merge a b) \<longleftrightarrow> is_stop_requested a \<or> is_stop_requested b"
  by (simp add: is_stop_requested_def merge_def)

lemma failures_merge [simp]:
  "had_action_failures (merge a b) \<longleftrightarrow> had_action_failures a \<or> had_action_failures b"
  by (simp add: merge_def)

section \<open>The machine (runtime_pipeline.rs)\<close>

datatype (plugins only: code size) ('p, 'a) eval_continuation =
    Done
  | AfterAnd "('p, 'a) runtime_expr list" nat runtime_status "('p, 'a) eval_continuation"
  | AfterOrLeft "('p, 'a) runtime_expr" "('p, 'a) eval_continuation"
  | AfterOrRight runtime_status "('p, 'a) eval_continuation"
  | AfterNot "('p, 'a) eval_continuation"

record ('a, 'e) action_request =
  req_action :: 'a
  req_entry :: 'e
  req_follow_mode :: follow_mode

record ('p, 'a, 'e) pending_entry_eval =
  pend_entry :: 'e
  pend_follow_mode :: follow_mode
  pend_continuation :: "('p, 'a) eval_continuation"

datatype (plugins only: code size) ('p, 'a, 'e) eval_step =
    Complete outcome
  | PendingAction "('a, 'e) action_request" "('p, 'a, 'e) pending_entry_eval"

text \<open>The work left in an expression and in a continuation.\<close>

fun expr_weight :: "('p, 'a) runtime_expr \<Rightarrow> nat" where
  "expr_weight (RAnd items) = 2 + sum_list (map (\<lambda>e. 1 + expr_weight e) items)"
| "expr_weight (ROr l r) = 3 + expr_weight l + expr_weight r"
| "expr_weight (RNot e) = 2 + expr_weight e"
| "expr_weight (RPredicate p) = 1"
| "expr_weight (RAction a) = 1"
| "expr_weight RBarrier = 1"

fun cont_weight :: "('p, 'a) eval_continuation \<Rightarrow> nat" where
  "cont_weight Done = 0"
| "cont_weight (AfterAnd items i acc k) =
     1 + sum_list (map (\<lambda>e. 1 + expr_weight e) (drop i items)) + cont_weight k"
| "cont_weight (AfterOrLeft r k) = 2 + expr_weight r + cont_weight k"
| "cont_weight (AfterOrRight s k) = 1 + cont_weight k"
| "cont_weight (AfterNot k) = 1 + cont_weight k"

lemma sum_list_drop:
  "i < length items \<Longrightarrow>
   sum_list (map f (drop i items)) = f (items ! i) + sum_list (map f (drop (Suc i) items))"
  for f :: "_ \<Rightarrow> nat"
  by (simp add: Cons_nth_drop_Suc [symmetric])

function (sequential)
  step_expr ::
    "('p \<Rightarrow> 'e \<Rightarrow> follow_mode \<Rightarrow> bool result) \<Rightarrow> ('p, 'a) runtime_expr \<Rightarrow> 'e \<Rightarrow> follow_mode \<Rightarrow>
     ('p, 'a) eval_continuation \<Rightarrow> ('p, 'a, 'e) eval_step result" and
  finish_with_outcome ::
    "('p \<Rightarrow> 'e \<Rightarrow> follow_mode \<Rightarrow> bool result) \<Rightarrow> ('p, 'a) eval_continuation \<Rightarrow> 'e \<Rightarrow> follow_mode \<Rightarrow>
     outcome \<Rightarrow> ('p, 'a, 'e) eval_step result" where
  "step_expr ev (RPredicate p) e m k =
     try_bind (ev p e m) (\<lambda>b. finish_with_outcome ev k e m (outcome_new b))"
| "step_expr ev (RAction a) e m k =
     Inr (PendingAction \<lparr>req_action = a, req_entry = e, req_follow_mode = m\<rparr>
            \<lparr>pend_entry = e, pend_follow_mode = m, pend_continuation = k\<rparr>)"
| "step_expr ev (RAnd items) e m k =
     (case items of
        first # _ \<Rightarrow> step_expr ev first e m (AfterAnd items 1 default_status k)
      | [] \<Rightarrow> finish_with_outcome ev k e m (outcome_new True))"
| "step_expr ev (ROr l r) e m k = step_expr ev l e m (AfterOrLeft r k)"
| "step_expr ev (RNot x) e m k = step_expr ev x e m (AfterNot k)"
| "step_expr ev RBarrier e m k = finish_with_outcome ev k e m (outcome_new True)"
| "finish_with_outcome ev Done e m out = Inr (Complete out)"
| "finish_with_outcome ev (AfterAnd items i acc k) e m out =
     (let acc = merge acc (status out) in
      if \<not> matched out \<or> is_stop_requested acc
      then finish_with_outcome ev k e m \<lparr>matched = matched out, status = acc\<rparr>
      else if i \<ge> length items
      then finish_with_outcome ev k e m \<lparr>matched = True, status = acc\<rparr>
      else step_expr ev (items ! i) e m (AfterAnd items (i + 1) acc k))"
| "finish_with_outcome ev (AfterOrLeft r k) e m out =
     (if matched out \<or> is_stop_requested (status out) then finish_with_outcome ev k e m out
      else step_expr ev r e m (AfterOrRight (status out) k))"
| "finish_with_outcome ev (AfterOrRight left_status k) e m out =
     finish_with_outcome ev k e m \<lparr>matched = matched out, status = merge left_status (status out)\<rparr>"
| "finish_with_outcome ev (AfterNot k) e m out =
     finish_with_outcome ev k e m \<lparr>matched = \<not> matched out, status = status out\<rparr>"
  by pat_completeness auto
termination
  by (relation "measure (\<lambda>c. case c of
        Inl (ev, x, e, m, k) \<Rightarrow> expr_weight x + cont_weight k
      | Inr (ev, k, e, m, out) \<Rightarrow> cont_weight k)")
    (auto simp: sum_list_drop)

definition begin_entry_eval ::
  "('p \<Rightarrow> 'e \<Rightarrow> follow_mode \<Rightarrow> bool result) \<Rightarrow> ('p, 'a) runtime_expr \<Rightarrow> 'e \<Rightarrow> follow_mode \<Rightarrow>
   ('p, 'a, 'e) eval_step result" where
  "begin_entry_eval ev x e m = step_expr ev x e m Done"

definition resume_entry_eval ::
  "('p \<Rightarrow> 'e \<Rightarrow> follow_mode \<Rightarrow> bool result) \<Rightarrow> ('p, 'a, 'e) pending_entry_eval \<Rightarrow> outcome \<Rightarrow>
   ('p, 'a, 'e) eval_step result" where
  "resume_entry_eval ev pend out =
     finish_with_outcome ev (pend_continuation pend) (pend_entry pend) (pend_follow_mode pend)
       \<lparr>matched = matched out, status = status out\<rparr>"

text \<open>Every resumption leaves less work, so the driver loop of \<^verbatim>\<open>eval.rs\<close> ends.\<close>

lemma machine_progress:
  "step_expr ev x e m k = Inr (PendingAction r pend) \<Longrightarrow>
     cont_weight (pend_continuation pend) < expr_weight x + cont_weight k"
  "finish_with_outcome ev k e m out = Inr (PendingAction r pend) \<Longrightarrow>
     cont_weight (pend_continuation pend) < cont_weight k"
proof (induction ev x e m k and ev k e m out rule: step_expr_finish_with_outcome.induct)
  case (3 ev items e m k)
  then show ?case by (cases items) auto
next
  case (8 ev items i acc k e m out)
  then show ?case
    by (auto simp: Let_def sum_list_drop split: if_splits)
next
  case (9 ev r k e m out)
  then show ?case by (auto split: if_splits)
qed (auto simp: result_simps)

function eval_loop ::
  "('p \<Rightarrow> 'e \<Rightarrow> follow_mode \<Rightarrow> bool result) \<Rightarrow>
   ('a \<Rightarrow> 'e \<Rightarrow> follow_mode \<Rightarrow> 's \<Rightarrow> outcome result \<times> 's) \<Rightarrow>
   ('p, 'a, 'e) eval_step \<Rightarrow> 's \<Rightarrow> outcome result \<times> 's" where
  "eval_loop ev dispatch (Complete out) s = (Inr out, s)"
| "eval_loop ev dispatch (PendingAction r pend) s =
     (case dispatch (req_action r) (req_entry r) (req_follow_mode r) s of
        (Inl err, s') \<Rightarrow> (Inl err, s')
      | (Inr out, s') \<Rightarrow>
          (case resume_entry_eval ev pend out of
             Inl err \<Rightarrow> (Inl err, s')
           | Inr next \<Rightarrow> eval_loop ev dispatch next s'))"
  by pat_completeness auto
termination
  by (relation "measure (\<lambda>(ev, dispatch, st, s). case st of
        Complete out \<Rightarrow> 0
      | PendingAction r pend \<Rightarrow> Suc (cont_weight (pend_continuation pend)))")
    (auto simp: resume_entry_eval_def dest!: machine_progress(2) split: eval_step.split)

definition evaluate_outcome ::
  "('p \<Rightarrow> 'e \<Rightarrow> follow_mode \<Rightarrow> bool result) \<Rightarrow>
   ('a \<Rightarrow> 'e \<Rightarrow> follow_mode \<Rightarrow> 's \<Rightarrow> outcome result \<times> 's) \<Rightarrow>
   ('p, 'a) runtime_expr \<Rightarrow> 'e \<Rightarrow> follow_mode \<Rightarrow> 's \<Rightarrow> outcome result \<times> 's" where
  "evaluate_outcome ev dispatch x e m s =
     (case begin_entry_eval ev x e m of
        Inl err \<Rightarrow> (Inl err, s)
      | Inr st \<Rightarrow> eval_loop ev dispatch st s)"

section \<open>The meaning of an expression\<close>

text \<open>
  The reference evaluator: the truth value and status of an expression by recursion on the
  expression, with the actions dispatched from left to right.
\<close>

definition then_eval ::
  "outcome result \<times> 's \<Rightarrow> (outcome \<Rightarrow> 's \<Rightarrow> outcome result \<times> 's) \<Rightarrow> outcome result \<times> 's" where
  "then_eval r f = (case r of (Inl err, s) \<Rightarrow> (Inl err, s) | (Inr out, s) \<Rightarrow> f out s)"

lemma then_eval_simps [simp]:
  "then_eval (Inl err, s) f = (Inl err, s)" "then_eval (Inr out, s) f = f out s"
  by (simp_all add: then_eval_def)

lemma then_eval_assoc: "then_eval (then_eval r f) g = then_eval r (\<lambda>out s. then_eval (f out s) g)"
  by (auto simp: then_eval_def split: prod.split sum.split)

lemma then_eval_cong [fundef_cong]:
  "r = r' \<Longrightarrow> (\<And>out s. r' = (Inr out, s) \<Longrightarrow> f out s = g out s) \<Longrightarrow> then_eval r f = then_eval r' g"
  by (auto simp: then_eval_def split: prod.split sum.split)

function (sequential)
  eval_ref ::
    "('p \<Rightarrow> 'e \<Rightarrow> follow_mode \<Rightarrow> bool result) \<Rightarrow>
     ('a \<Rightarrow> 'e \<Rightarrow> follow_mode \<Rightarrow> 's \<Rightarrow> outcome result \<times> 's) \<Rightarrow>
     ('p, 'a) runtime_expr \<Rightarrow> 'e \<Rightarrow> follow_mode \<Rightarrow> 's \<Rightarrow> outcome result \<times> 's" and
  eval_and ::
    "('p \<Rightarrow> 'e \<Rightarrow> follow_mode \<Rightarrow> bool result) \<Rightarrow>
     ('a \<Rightarrow> 'e \<Rightarrow> follow_mode \<Rightarrow> 's \<Rightarrow> outcome result \<times> 's) \<Rightarrow>
     ('p, 'a) runtime_expr list \<Rightarrow> runtime_status \<Rightarrow> 'e \<Rightarrow> follow_mode \<Rightarrow> 's \<Rightarrow> outcome result \<times> 's" where
  "eval_ref ev dispatch (RPredicate p) e m s = (try_bind (ev p e m) (\<lambda>b. Inr (outcome_new b)), s)"
| "eval_ref ev dispatch (RAction a) e m s = dispatch a e m s"
| "eval_ref ev dispatch (RAnd items) e m s = eval_and ev dispatch items default_status e m s"
| "eval_ref ev dispatch (ROr l r) e m s =
     then_eval (eval_ref ev dispatch l e m s) (\<lambda>lo s.
       if matched lo \<or> is_stop_requested (status lo) then (Inr lo, s)
       else then_eval (eval_ref ev dispatch r e m s) (\<lambda>ro s.
         (Inr \<lparr>matched = matched ro, status = merge (status lo) (status ro)\<rparr>, s)))"
| "eval_ref ev dispatch (RNot x) e m s =
     then_eval (eval_ref ev dispatch x e m s) (\<lambda>out s.
       (Inr \<lparr>matched = \<not> matched out, status = status out\<rparr>, s))"
| "eval_ref ev dispatch RBarrier e m s = (Inr (outcome_new True), s)"
| "eval_and ev dispatch [] acc e m s = (Inr \<lparr>matched = True, status = acc\<rparr>, s)"
| "eval_and ev dispatch (x # xs) acc e m s =
     then_eval (eval_ref ev dispatch x e m s) (\<lambda>out s.
       (let acc = merge acc (status out) in
        if \<not> matched out \<or> is_stop_requested acc
        then (Inr \<lparr>matched = matched out, status = acc\<rparr>, s)
        else eval_and ev dispatch xs acc e m s))"
  by pat_completeness auto
termination
  by (relation "measure (\<lambda>c. case c of
        Inl (ev, dispatch, x, e, m, s) \<Rightarrow> expr_weight x
      | Inr (ev, dispatch, xs, acc, e, m, s) \<Rightarrow> 1 + sum_list (map (\<lambda>e. 1 + expr_weight e) xs))") auto

text \<open>What a continuation still has to do.\<close>

fun run_cont ::
  "('p \<Rightarrow> 'e \<Rightarrow> follow_mode \<Rightarrow> bool result) \<Rightarrow>
   ('a \<Rightarrow> 'e \<Rightarrow> follow_mode \<Rightarrow> 's \<Rightarrow> outcome result \<times> 's) \<Rightarrow>
   ('p, 'a) eval_continuation \<Rightarrow> 'e \<Rightarrow> follow_mode \<Rightarrow> outcome \<Rightarrow> 's \<Rightarrow> outcome result \<times> 's" where
  "run_cont ev dispatch Done e m out s = (Inr out, s)"
| "run_cont ev dispatch (AfterAnd items i acc k) e m out s =
     (let acc = merge acc (status out) in
      if \<not> matched out \<or> is_stop_requested acc
      then run_cont ev dispatch k e m \<lparr>matched = matched out, status = acc\<rparr> s
      else then_eval (eval_and ev dispatch (drop i items) acc e m s) (run_cont ev dispatch k e m))"
| "run_cont ev dispatch (AfterOrLeft r k) e m out s =
     (if matched out \<or> is_stop_requested (status out) then run_cont ev dispatch k e m out s
      else then_eval (eval_ref ev dispatch r e m s) (\<lambda>ro.
        run_cont ev dispatch k e m \<lparr>matched = matched ro, status = merge (status out) (status ro)\<rparr>))"
| "run_cont ev dispatch (AfterOrRight ls k) e m out s =
     run_cont ev dispatch k e m \<lparr>matched = matched out, status = merge ls (status out)\<rparr> s"
| "run_cont ev dispatch (AfterNot k) e m out s =
     run_cont ev dispatch k e m \<lparr>matched = \<not> matched out, status = status out\<rparr> s"

definition drive ::
  "('p \<Rightarrow> 'e \<Rightarrow> follow_mode \<Rightarrow> bool result) \<Rightarrow>
   ('a \<Rightarrow> 'e \<Rightarrow> follow_mode \<Rightarrow> 's \<Rightarrow> outcome result \<times> 's) \<Rightarrow>
   ('p, 'a, 'e) eval_step result \<Rightarrow> 's \<Rightarrow> outcome result \<times> 's" where
  "drive ev dispatch r s = (case r of Inl err \<Rightarrow> (Inl err, s) | Inr st \<Rightarrow> eval_loop ev dispatch st s)"

lemma drive_simps [simp]:
  "drive ev dispatch (Inl err) s = (Inl err, s)"
  "drive ev dispatch (Inr (Complete out)) s = (Inr out, s)"
  "drive ev dispatch (Inr (PendingAction r pend)) s =
     then_eval (dispatch (req_action r) (req_entry r) (req_follow_mode r) s)
       (\<lambda>out. drive ev dispatch (resume_entry_eval ev pend out))"
  by (auto simp: drive_def then_eval_def split: prod.split sum.split)

lemma drop_hd: "i < length xs \<Longrightarrow> drop i xs = xs ! i # drop (Suc i) xs"
  by (simp add: Cons_nth_drop_Suc)

lemma drive_meaning:
  "(expr_weight x + cont_weight k < n \<longrightarrow>
      drive ev dispatch (step_expr ev x e m k) s
      = then_eval (eval_ref ev dispatch x e m s) (run_cont ev dispatch k e m))
   \<and> (cont_weight k < n \<longrightarrow>
      drive ev dispatch (finish_with_outcome ev k e m out) s = run_cont ev dispatch k e m out s)"
proof (induction n arbitrary: x k out s)
  case (Suc n)
  note step = Suc.IH [THEN conjunct1, rule_format] and fin = Suc.IH [THEN conjunct2, rule_format]
  have expr: "drive ev dispatch (step_expr ev x e m k) s
      = then_eval (eval_ref ev dispatch x e m s) (run_cont ev dispatch k e m)"
    if w: "expr_weight x + cont_weight k < Suc n"
  proof (cases x)
    case (RAnd items)
    then show ?thesis
      using w by (cases items) (simp_all add: fin step then_eval_assoc Let_def outcome_new_def if_distrib
          [of "\<lambda>r. then_eval r f" for f] cong: if_cong then_eval_cong)
  next
    case (RAction a)
    then show ?thesis using w by (simp add: resume_entry_eval_def fin cong: then_eval_cong)
  next
    case (RPredicate p)
    then show ?thesis using w by (cases "ev p e m") (simp_all add: fin)
  next
    case (ROr l r)
    then show ?thesis
      using w by (simp add: step then_eval_assoc if_distrib [of "\<lambda>r. then_eval r f" for f]
          cong: if_cong then_eval_cong)
  next
    case (RNot y)
    then show ?thesis using w by (simp add: step then_eval_assoc cong: then_eval_cong)
  next
    case RBarrier
    then show ?thesis using w by (simp add: fin)
  qed
  have cont: "drive ev dispatch (finish_with_outcome ev k e m out) s = run_cont ev dispatch k e m out s"
    if w: "cont_weight k < Suc n"
  proof (cases k)
    case (AfterAnd items i acc k')
    then show ?thesis
      using w
      by (auto simp: Let_def fin step sum_list_drop drop_hd then_eval_assoc
          if_distrib [of "\<lambda>r. then_eval r f" for f] cong: if_cong then_eval_cong)
  next
    case (AfterOrLeft r k')
    then show ?thesis using w by (simp add: fin step cong: then_eval_cong)
  next
    case (AfterOrRight ls k')
    then show ?thesis using w by (simp add: fin)
  next
    case (AfterNot k')
    then show ?thesis using w by (simp add: fin)
  qed simp
  from expr cont show ?case by blast
qed simp

lemma evaluate_outcome_ref:
  "evaluate_outcome ev dispatch x e m s = eval_ref ev dispatch x e m s"
proof -
  have "evaluate_outcome ev dispatch x e m s = drive ev dispatch (step_expr ev x e m Done) s"
    by (simp add: evaluate_outcome_def begin_entry_eval_def drive_def)
  also have "\<dots> = then_eval (eval_ref ev dispatch x e m s) (\<lambda>out s. (Inr out, s))"
    using drive_meaning [of x Done "Suc (expr_weight x + cont_weight Done)" ev dispatch e m s]
    by (simp add: fun_eq_iff cong: then_eval_cong)
  also have "\<dots> = eval_ref ev dispatch x e m s"
    by (simp add: then_eval_def split: prod.split sum.split)
  finally show ?thesis .
qed

text \<open>
  C1.  The machine is the evaluator: stopping at every action and resuming with its outcome
  gives the same outcome, error and sink state as the recursive evaluation of the expression,
  for every expression, predicate evaluator and sink.  In particular the driver loop ends.
\<close>

theorem pipeline_evaluates_expression:
  "evaluate_outcome ev dispatch x e m s = eval_ref ev dispatch x e m s"
  by (rule evaluate_outcome_ref)

lemma eval_weight_induct [case_names And Or Not Predicate Action Barrier Nil Cons]:
  assumes "\<And>items. Q items \<Longrightarrow> P (RAnd items)"
    and "\<And>l r. P l \<Longrightarrow> P r \<Longrightarrow> P (ROr l r)"
    and "\<And>x. P x \<Longrightarrow> P (RNot x)"
    and "\<And>p. P (RPredicate p)" and "\<And>a. P (RAction a)" and "P RBarrier"
    and "Q []" and "\<And>x xs. P x \<Longrightarrow> Q xs \<Longrightarrow> Q (x # xs)"
  shows "P x" "Q xs"
proof -
  have "(expr_weight x < n \<longrightarrow> P x) \<and> (sum_list (map (\<lambda>e. 1 + expr_weight e) xs) < n \<longrightarrow> Q xs)" for n x xs
  proof (induction n arbitrary: x xs)
    case (Suc n)
    have "P x" if "expr_weight x < Suc n"
      using that assms(1-6) Suc.IH by (cases x) auto
    moreover have "Q xs" if "sum_list (map (\<lambda>e. 1 + expr_weight e) xs) < Suc n"
      using that assms(7,8) Suc.IH by (cases xs) auto
    ultimately show ?case by blast
  qed simp
  then show "P x" "Q xs" by blast+
qed

section \<open>Sinks\<close>

text \<open>
  The contract of an action sink: dispatching keeps the sink's invariant, whatever the outcome.
  What a client may then rely on is that a whole evaluation keeps it.
\<close>

locale action_sink =
  fixes dispatch :: "'a \<Rightarrow> 'e \<Rightarrow> follow_mode \<Rightarrow> 's \<Rightarrow> outcome result \<times> 's"
    and inv :: "'s \<Rightarrow> bool"
  assumes dispatch_inv: "inv s \<Longrightarrow> inv (snd (dispatch a e m s))"
begin

lemma then_inv:
  "inv (snd r) \<Longrightarrow> (\<And>out s. r = (Inr out, s) \<Longrightarrow> inv s \<Longrightarrow> inv (snd (f out s))) \<Longrightarrow>
   inv (snd (then_eval r f))"
  by (cases r; cases "fst r") auto

lemma eval_inv:
  "inv s \<Longrightarrow> inv (snd (eval_ref ev dispatch x e m s))"
  "inv s \<Longrightarrow> inv (snd (eval_and ev dispatch xs acc e m s))"
proof (induction x and xs arbitrary: s and s acc rule: eval_weight_induct)
  case (And items)
  then show ?case by simp
qed (auto simp: dispatch_inv Let_def intro!: then_inv)

lemma evaluate_inv: "inv s \<Longrightarrow> inv (snd (evaluate_outcome ev dispatch x e m s))"
  unfolding evaluate_outcome_ref by (rule eval_inv)

end

text \<open>A sink that keeps the outcomes of its dispatches, next to another sink.\<close>

definition logged ::
  "('a \<Rightarrow> 'e \<Rightarrow> follow_mode \<Rightarrow> 's \<Rightarrow> outcome result \<times> 's) \<Rightarrow>
   'a \<Rightarrow> 'e \<Rightarrow> follow_mode \<Rightarrow> 's \<times> outcome list \<Rightarrow> outcome result \<times> 's \<times> outcome list" where
  "logged dispatch a e m sl =
     (case dispatch a e m (fst sl) of
        (Inl err, s) \<Rightarrow> (Inl err, s, snd sl)
      | (Inr out, s) \<Rightarrow> (Inr out, s, snd sl @ [out]))"

definition merged :: "outcome list \<Rightarrow> runtime_status" where
  "merged l = foldr (\<lambda>out. merge (status out)) l default_status"

definition quiet :: "outcome list \<Rightarrow> bool" where
  "quiet l \<longleftrightarrow> (\<forall>out\<in>set l. \<not> is_stop_requested (status out))"

lemma merged_append: "merged (l @ l') = merge (merged l) (merged l')"
  by (induction l) (simp_all add: merged_def merge_assoc)

lemma merged_single [simp]: "merged [] = default_status" "merged [out] = status out"
  by (simp_all add: merged_def)

lemma quiet_simps [simp]:
  "quiet []" "quiet (l @ l') \<longleftrightarrow> quiet l \<and> quiet l'" "quiet [out] \<longleftrightarrow> \<not> is_stop_requested (status out)"
  by (auto simp: quiet_def)

lemma quiet_iff: "quiet l \<longleftrightarrow> \<not> is_stop_requested (merged l)"
  by (induction l) (auto simp: quiet_def merged_def)

text \<open>
  What the log \<open>l\<close> of an evaluation with result \<open>r\<close> says: a result without error has the
  merge of the logged statuses, a stop request can only be the last of them, and an error comes
  before any stop request.
\<close>

definition log_explains :: "runtime_status \<Rightarrow> outcome result \<Rightarrow> outcome list \<Rightarrow> bool" where
  "log_explains acc r l \<longleftrightarrow>
     quiet (butlast l)
     \<and> (case r of
          Inl err \<Rightarrow> quiet l
        | Inr out \<Rightarrow> status out = merge acc (merged l))"

lemma log_explains_append:
  assumes "log_explains default_status (Inr out) l" "\<not> is_stop_requested (status out)"
    and "log_explains (merge acc (status out)) r l'"
  shows "log_explains acc r (l @ l')"
proof -
  have "quiet l" using assms(1,2) by (simp add: log_explains_def quiet_iff)
  then show ?thesis
    using assms
    by (cases l' rule: rev_cases)
      (auto simp: log_explains_def merged_append merge_assoc butlast_append split: sum.splits
        dest: in_set_butlastD simp: quiet_def)
qed

definition explained ::
  "runtime_status \<Rightarrow> outcome result \<times> 's \<Rightarrow> outcome list \<Rightarrow> outcome result \<times> 's \<times> outcome list \<Rightarrow> bool" where
  "explained acc r l0 r' \<longleftrightarrow>
     (\<exists>l. r' = (fst r, snd r, l0 @ l) \<and> log_explains acc (fst r) l)"

lemma explained_log:
  "explained default_status (eval_ref ev dispatch x e m s) l0
     (eval_ref ev (logged dispatch) x e m (s, l0))"
  "\<not> is_stop_requested acc \<Longrightarrow>
     explained acc (eval_and ev dispatch xs acc e m s) l0
       (eval_and ev (logged dispatch) xs acc e m (s, l0))"
proof (induction ev dispatch x e m s and ev dispatch xs acc e m s arbitrary: l0 and l0
    rule: eval_ref_eval_and.induct)
  case (1 ev dispatch p e m s)
  then show ?case
    by (cases "ev p e m") (simp_all add: explained_def log_explains_def outcome_new_def)
next
  case (2 ev dispatch a e m s)
  then show ?case
    by (cases "dispatch a e m s"; cases "fst (dispatch a e m s)")
      (auto simp: explained_def log_explains_def logged_def)
next
  case (3 ev dispatch items e m s)
  then show ?case by simp
next
  case (4 ev dispatch l r e m s)
  obtain lr ls where left: "eval_ref ev dispatch l e m s = (lr, ls)" by fastforce
  from 4(1) [of l0] obtain ll where ll:
    "eval_ref ev (logged dispatch) l e m (s, l0) = (lr, ls, l0 @ ll)"
    "log_explains default_status lr ll"
    by (auto simp: explained_def left)
  show ?case
  proof (cases lr)
    case (Inl err)
    then show ?thesis using ll by (auto simp: left explained_def)
  next
    case (Inr lo)
    show ?thesis
    proof (cases "matched lo \<or> is_stop_requested (status lo)")
      case True
      then show ?thesis using ll Inr by (auto simp: left explained_def)
    next
      case False
      obtain rr rs where right: "eval_ref ev dispatch r e m ls = (rr, rs)" by fastforce
      from 4(2) [OF _ False, of ls "l0 @ ll"] obtain rl where rl:
        "eval_ref ev (logged dispatch) r e m (ls, l0 @ ll) = (rr, rs, (l0 @ ll) @ rl)"
        "log_explains default_status rr rl"
        by (auto simp: explained_def left Inr right)
      have "log_explains default_status (map_sum id (\<lambda>ro. \<lparr>matched = matched ro,
          status = merge (status lo) (status ro)\<rparr>) rr) (ll @ rl)"
        using ll(2) False rl(2) unfolding Inr
        by (intro log_explains_append [of lo])
          (auto simp: log_explains_def split: sum.splits)
      then show ?thesis
        using ll rl False by (cases rr) (auto simp: left Inr right explained_def)
    qed
  qed
next
  case (5 ev dispatch x e m s)
  obtain xr xs where inner: "eval_ref ev dispatch x e m s = (xr, xs)" by fastforce
  from 5 [of l0] show ?case
    by (cases xr) (auto simp: explained_def inner log_explains_def)
next
  case (6 ev dispatch e m s)
  then show ?case by (simp add: explained_def log_explains_def outcome_new_def)
next
  case (7 ev dispatch acc e m s)
  then show ?case by (simp add: explained_def log_explains_def)
next
  case (8 ev dispatch x xs acc e m s)
  obtain xr s1 where first: "eval_ref ev dispatch x e m s = (xr, s1)" by fastforce
  from 8(1) [of l0] obtain l1 where l1:
    "eval_ref ev (logged dispatch) x e m (s, l0) = (xr, s1, l0 @ l1)"
    "log_explains default_status xr l1"
    by (auto simp: explained_def first)
  show ?case
  proof (cases xr)
    case (Inl err)
    then show ?thesis using l1 by (auto simp: first explained_def log_explains_def)
  next
    case (Inr out)
    let ?acc = "merge acc (status out)"
    show ?thesis
    proof (cases "\<not> matched out \<or> is_stop_requested ?acc")
      case True
      then show ?thesis
        using l1 Inr by (auto simp: first explained_def log_explains_def Let_def)
    next
      case False
      then have quiet: "\<not> is_stop_requested ?acc" and out: "\<not> is_stop_requested (status out)" by auto
      from 8(2) [OF _ refl False quiet, of s1 "l0 @ l1"] obtain l2 where l2:
        "eval_and ev (logged dispatch) xs ?acc e m (s1, l0 @ l1)
           = (fst (eval_and ev dispatch xs ?acc e m s1), snd (eval_and ev dispatch xs ?acc e m s1),
              (l0 @ l1) @ l2)"
        "log_explains ?acc (fst (eval_and ev dispatch xs ?acc e m s1)) l2"
        by (auto simp: explained_def first Inr)
      then have "log_explains acc (fst (eval_and ev dispatch xs ?acc e m s1)) (l1 @ l2)"
        using l1(2) out unfolding Inr by (intro log_explains_append)
      then show ?thesis
        using l1 l2 False by (auto simp: first Inr explained_def Let_def)
    qed
  qed
qed

text \<open>
  Actions and their status.  For every expression and sink: keeping a log of the dispatched
  actions changes nothing; the status of a completed evaluation is the merge of the statuses of
  the actions that ran, so a failure or a stop request is never lost; no action runs after one
  that requested a stop; and an error is never reported after a stop request.
\<close>

theorem evaluation_log:
  "\<exists>l. evaluate_outcome ev (logged dispatch) x e m (s, [])
        = (fst (evaluate_outcome ev dispatch x e m s), snd (evaluate_outcome ev dispatch x e m s), l)
     \<and> quiet (butlast l)
     \<and> (case fst (evaluate_outcome ev dispatch x e m s) of
          Inl err \<Rightarrow> quiet l
        | Inr out \<Rightarrow> status out = merged l)"
  using explained_log(1) [of ev dispatch x e m s "[]"]
  unfolding evaluate_outcome_ref explained_def log_explains_def
  by (auto split: sum.splits)

end
