(* ===== verification/Eval.thy ===== *)
theory Eval
  imports Pipeline Printf_Time "HOL-Library.List_Lexorder"
begin

text \<open>
  Evaluation of predicates: \<^verbatim>\<open>src/src/eval.rs\<close>, and the mount table of
  \<^verbatim>\<open>src/src/platform/filesystem.rs\<close>.  What the program asks the C library (accounts, local
  time) and the regular-expression engines are a record of functions.
\<close>

section \<open>The mount table (platform/filesystem.rs)\<close>

fun key_rank :: "filesystem_key \<Rightarrow> nat \<times> nat \<times> os_string" where
  "key_rank (KeyNumeric n) = (0, unat n, '''')"
| "key_rank (KeyText t) = (1, 0, t)"

lemma key_rank_inj: "key_rank a = key_rank b \<longleftrightarrow> a = b"
  by (cases a; cases b) (auto simp: word_unat_eq_iff)

instantiation filesystem_key :: linorder
begin

definition less_eq_filesystem_key :: "filesystem_key \<Rightarrow> filesystem_key \<Rightarrow> bool" where
  "less_eq_filesystem_key a b \<longleftrightarrow>
     (case (key_rank a, key_rank b) of
        ((i, n, s), (j, m, t)) \<Rightarrow> i < j \<or> i = j \<and> (n < m \<or> n = m \<and> s \<le> t))"

definition less_filesystem_key :: "filesystem_key \<Rightarrow> filesystem_key \<Rightarrow> bool" where
  "less_filesystem_key a b \<longleftrightarrow> a \<le> b \<and> a \<noteq> b"

instance
proof
  fix x y z :: filesystem_key
  show "x < y \<longleftrightarrow> x \<le> y \<and> \<not> y \<le> x"
    by (auto simp: less_filesystem_key_def less_eq_filesystem_key_def simp flip: key_rank_inj
        split: prod.splits)
  show "x \<le> x" by (simp add: less_eq_filesystem_key_def split: prod.split)
  show "x \<le> y \<Longrightarrow> y \<le> z \<Longrightarrow> x \<le> z"
    by (auto simp: less_eq_filesystem_key_def split: prod.splits)
  show "x \<le> y \<Longrightarrow> y \<le> x \<Longrightarrow> x = y"
    by (auto simp: less_eq_filesystem_key_def simp flip: key_rank_inj split: prod.splits)
  show "x \<le> y \<or> y \<le> x" by (auto simp: less_eq_filesystem_key_def split: prod.splits)
qed

end

record filesystem_snapshot =
  types_by_key :: "(filesystem_key, os_string) btree"
  known_types :: "os_string set"

definition default_snapshot :: filesystem_snapshot where
  "default_snapshot = \<lparr>types_by_key = bt_empty, known_types = {}\<rparr>"

definition snapshot_insert :: "filesystem_key \<Rightarrow> os_string \<Rightarrow> filesystem_snapshot \<Rightarrow> filesystem_snapshot" where
  "snapshot_insert key type_name s =
     \<lparr>types_by_key = bt_insert key type_name (types_by_key s),
      known_types = insert type_name (known_types s)\<rparr>"

definition knows_type :: "filesystem_snapshot \<Rightarrow> os_string \<Rightarrow> bool" where
  "knows_type s type_name \<longleftrightarrow> type_name \<in> known_types s"

definition type_for_mount_key :: "filesystem_snapshot \<Rightarrow> filesystem_key \<Rightarrow> os_string option" where
  "type_for_mount_key s key = bt_get (types_by_key s) key"

definition type_for_mount_id :: "filesystem_snapshot \<Rightarrow> u64 \<Rightarrow> os_string option" where
  "type_for_mount_id s mount_id = bt_get (types_by_key s) (KeyNumeric mount_id)"

subsection \<open>\<^verbatim>\<open>/proc/self/mountinfo\<close>\<close>

text \<open>
  The length of the white-space character (Unicode \<^verbatim>\<open>White_Space\<close>) at the head of a
  UTF-8 string, 0 when there is none.
\<close>

definition space_len :: "string \<Rightarrow> nat" where
  "space_len s =
     (let b = (\<lambda>i. if i < length s then byte_val (s ! i) else 0) in
      if b 0 = 0x20 \<or> (9 \<le> b 0 \<and> b 0 \<le> 13) then 1
      else if b 0 = 0xC2 \<and> (b 1 = 0x85 \<or> b 1 = 0xA0) then 2
      else if b 0 = 0xE1 \<and> b 1 = 0x9A \<and> b 2 = 0x80 then 3
      else if b 0 = 0xE2 \<and> b 1 = 0x80 \<and> (0x80 \<le> b 2 \<and> b 2 \<le> 0x8A \<or> b 2 \<in> {0xA8, 0xA9, 0xAF}) then 3
      else if b 0 = 0xE2 \<and> b 1 = 0x81 \<and> b 2 = 0x9F then 3
      else if b 0 = 0xE3 \<and> b 1 = 0x80 \<and> b 2 = 0x80 then 3
      else 0)"

lemma space_len_le: "space_len s \<le> length s"
proof -
  have "length s \<ge> 3 \<or> s = [] \<or> (\<exists>a. s = [a]) \<or> (\<exists>a b. s = [a, b])"
    by (cases s; cases "tl s"; cases "tl (tl s)") auto
  then show ?thesis by (auto simp: space_len_def Let_def)
qed

function skip_spaces :: "string \<Rightarrow> string" where
  "skip_spaces s = (if space_len s = 0 then s else skip_spaces (drop (space_len s) s))"
  by auto
termination
proof (relation "measure length")
  fix s assume "space_len s \<noteq> 0"
  then show "(drop (space_len s) s, s) \<in> measure length"
    using space_len_le [of s] by simp
qed simp

declare skip_spaces.simps [simp del]

fun take_word :: "string \<Rightarrow> string" where
  "take_word [] = []"
| "take_word (c # s) = (if space_len (c # s) > 0 then [] else c # take_word s)"

text \<open>\<^verbatim>\<open>split_whitespace().next()\<close> and \<^verbatim>\<open>trim().is_empty()\<close>.\<close>

definition first_word :: "string \<Rightarrow> string option" where
  "first_word s = (case skip_spaces s of [] \<Rightarrow> None | t \<Rightarrow> Some (take_word t))"

text \<open>\<^verbatim>\<open>str::split_once\<close> with the pattern \<^verbatim>\<open>" - "\<close> and \<^verbatim>\<open>str::lines\<close>.\<close>

fun split_once_str :: "string \<Rightarrow> string \<Rightarrow> (string \<times> string) option" where
  "split_once_str pat [] = (if pat = [] then Some ([], []) else None)"
| "split_once_str pat (c # s) =
     (if take (length pat) (c # s) = pat then Some ([], drop (length pat) (c # s))
      else map_option (\<lambda>(l, r). (c # l, r)) (split_once_str pat s))"

definition chomp :: "string \<Rightarrow> string" where
  "chomp line = (if line \<noteq> [] \<and> last line = CHR 0x0D then butlast line else line)"

text \<open>A \<^verbatim>\<open>\r\<close> is dropped only in front of a newline.\<close>

definition str_lines :: "string \<Rightarrow> string list" where
  "str_lines s =
     (let parts = split_on (CHR 0x0A) s
      in map chomp (butlast parts) @ (if last parts = [] then [] else [last parts]))"

definition invalid_mountinfo_line :: "string \<Rightarrow> diagnostic" where
  "invalid_mountinfo_line line = diagnostic_new (''invalid mountinfo line `'' @ line @ ''`'') 1"

definition mountinfo_line :: "filesystem_snapshot \<Rightarrow> string \<Rightarrow> filesystem_snapshot result" where
  "mountinfo_line s line =
     try_bind (ok_or (invalid_mountinfo_line line) (split_once_str '' - '' line)) (\<lambda>(left, right).
     try_bind (ok_or (invalid_mountinfo_line line) (first_word left)) (\<lambda>id_text.
     try_bind (ok_or (diagnostic_new (''invalid mount ID in `'' @ line @ ''`'') 1)
                 (parse_uint id_text)) (\<lambda>mount_id.
     try_bind (ok_or (invalid_mountinfo_line line) (first_word right)) (\<lambda>type_name.
       Inr (snapshot_insert (KeyNumeric mount_id) type_name s)))))"

fun mountinfo_loop :: "string list \<Rightarrow> filesystem_snapshot \<Rightarrow> filesystem_snapshot result" where
  "mountinfo_loop [] s = Inr s"
| "mountinfo_loop (line # lines) s =
     (if skip_spaces line = [] then mountinfo_loop lines s
      else try_bind (mountinfo_line s line) (mountinfo_loop lines))"

definition from_mountinfo :: "string \<Rightarrow> filesystem_snapshot result" where
  "from_mountinfo text = mountinfo_loop (str_lines text) default_snapshot"

section \<open>The evaluation context\<close>

record eval_context =
  mount_table :: "filesystem_snapshot option"
  frozen_now :: "timestamp option"

definition default_context :: eval_context where
  "default_context = \<lparr>mount_table = None, frozen_now = None\<rparr>"

definition with_now :: "timestamp \<Rightarrow> eval_context" where
  "with_now now = \<lparr>mount_table = None, frozen_now = Some now\<rparr>"

definition with_mount_snapshot :: "filesystem_snapshot \<Rightarrow> eval_context" where
  "with_mount_snapshot s = \<lparr>mount_table = Some s, frozen_now = None\<rparr>"

definition with_mount_snapshot_and_now :: "filesystem_snapshot \<Rightarrow> timestamp \<Rightarrow> eval_context" where
  "with_mount_snapshot_and_now s now = \<lparr>mount_table = Some s, frozen_now = Some now\<rparr>"

definition ctx_mount_snapshot :: "eval_context \<Rightarrow> filesystem_snapshot result" where
  "ctx_mount_snapshot c =
     ok_or (diagnostic_new
       ''internal error: -fstype and -printf %F require a mount snapshot runtime context'' 1)
       (mount_table c)"

definition ctx_evaluation_now :: "eval_context \<Rightarrow> timestamp result" where
  "ctx_evaluation_now c =
     ok_or (diagnostic_new ''internal error: ls rendering requires a frozen runtime now'' 1)
       (frozen_now c)"

section \<open>Predicates\<close>

text \<open>
  What lies outside the repository: the account database, the C library's clock and device
  numbers, the engines that match a compiled regular expression, the platform's switches, and
  the six significant digits of the floating-point ratio of blocks to size that \<^verbatim>\<open>%S\<close> prints.
\<close>

record 'rx services =
  sv_user_exists :: "principal_id \<Rightarrow> bool result"
  sv_group_exists :: "principal_id \<Rightarrow> bool result"
  sv_user_name :: "principal_id \<Rightarrow> os_string option result"
  sv_group_name :: "principal_id \<Rightarrow> os_string option result"
  sv_localtime :: "int \<Rightarrow> full_tm option"
  sv_used_strict :: bool
  sv_regex_is_match :: "'rx \<Rightarrow> os_string \<Rightarrow> bool result"
  sv_zero_pads_strings :: bool
  sv_device_major :: "u64 \<Rightarrow> u64"
  sv_device_minor :: "u64 \<Rightarrow> u64"
  sv_six_sigfigs :: "u64 \<Rightarrow> u64 \<Rightarrow> string"

definition calendar :: "'rx services \<Rightarrow> localtime" where
  "calendar sv = (\<lambda>secs. map_option tm.truncate (sv_localtime sv secs))"

text \<open>\<^verbatim>\<open>unreachable!\<close>: the process stops with the exit code of a panic.\<close>

definition panic :: "string \<Rightarrow> diagnostic" where
  "panic msg = diagnostic_new (''internal error: entered unreachable code: '' @ msg) 101"

fun matches_type :: "file_type_filter \<Rightarrow> entry_kind \<Rightarrow> bool" where
  "matches_type FtFile KindFile = True"
| "matches_type FtDirectory KindDirectory = True"
| "matches_type FtSymlink KindSymlink = True"
| "matches_type FtBlock KindBlock = True"
| "matches_type FtCharacter KindCharacter = True"
| "matches_type FtFifo KindFifo = True"
| "matches_type FtSocket KindSocket = True"
| "matches_type _ _ = False"

fun entry_timestamp :: "entry \<Rightarrow> follow_mode \<Rightarrow> timestamp_kind \<Rightarrow> timestamp result" where
  "entry_timestamp e m KAccess = active_atime e m"
| "entry_timestamp e m KBirth = Inl (panic ''birth timestamps are handled separately'')"
| "entry_timestamp e m KChange = active_ctime e m"
| "entry_timestamp e m KModification = active_mtime e m"

definition matches_newer :: "entry \<Rightarrow> follow_mode \<Rightarrow> newer_matcher \<Rightarrow> bool result" where
  "matches_newer e m matcher =
     (if newer_current matcher = KBirth
      then try_bind (active_birth_time e m)
             (\<lambda>t. Inr (case t of None \<Rightarrow> False | Some actual \<Rightarrow> newer_matches matcher actual))
      else try_bind (entry_timestamp e m (newer_current matcher))
             (\<lambda>t. Inr (newer_matches matcher t)))"

definition fs_type_matches ::
  "eval_context \<Rightarrow> os_string \<Rightarrow> entry \<Rightarrow> follow_mode \<Rightarrow> bool result" where
  "fs_type_matches ctx type_name e m =
     try_bind (ctx_mount_snapshot ctx) (\<lambda>snapshot.
       if \<not> knows_type snapshot type_name then Inr False
       else try_bind (active_mount_id e m) (\<lambda>mount_id.
              Inr (type_for_mount_key snapshot (KeyNumeric mount_id) = Some type_name)))"

definition entry_basename :: "entry \<Rightarrow> os_string" where
  "entry_basename e = (case path_file_name (entry_path e) of None \<Rightarrow> [] | Some n \<Rightarrow> n)"

fun evaluate_predicate ::
  "'rx services \<Rightarrow> eval_context \<Rightarrow> 'rx runtime_predicate \<Rightarrow> entry \<Rightarrow> follow_mode \<Rightarrow> bool result" where
  "evaluate_predicate sv ctx RpPrune e m = Inr True"
| "evaluate_predicate sv ctx (RpFsType type_name) e m = fs_type_matches ctx type_name e m"
| "evaluate_predicate sv ctx RpReadable e m = entry_access e AccessRead"
| "evaluate_predicate sv ctx RpWritable e m = entry_access e AccessWrite"
| "evaluate_predicate sv ctx RpExecutable e m = entry_access e AccessExecute"
| "evaluate_predicate sv ctx (RpName glob) e m = glob_is_match glob (entry_basename e)"
| "evaluate_predicate sv ctx (RpPath glob) e m =
     glob_is_match glob (normalize_match_text (entry_path e))"
| "evaluate_predicate sv ctx (RpRegex matcher) e m =
     sv_regex_is_match sv matcher (normalize_match_text (entry_path e))"
| "evaluate_predicate sv ctx (RpInum expected) e m =
     try_bind (active_inode e m) (\<lambda>n. Inr (numeric_matches expected n))"
| "evaluate_predicate sv ctx (RpLinks expected) e m =
     try_bind (active_link_count e m) (\<lambda>n. Inr (numeric_matches expected n))"
| "evaluate_predicate sv ctx (RpSameFile expected) e m =
     try_bind (active_identity e m) (\<lambda>i. Inr (expected = i))"
| "evaluate_predicate sv ctx (RpLName glob) e m =
     try_bind (active_link_target e m)
       (\<lambda>t. case t of
          Some target \<Rightarrow> glob_is_match glob (normalize_match_text target)
        | None \<Rightarrow> Inr False)"
| "evaluate_predicate sv ctx (RpUid expected) e m =
     try_bind (active_uid e m) (\<lambda>n. Inr (numeric_matches expected (ucast n)))"
| "evaluate_predicate sv ctx (RpGid expected) e m =
     try_bind (active_gid e m) (\<lambda>n. Inr (numeric_matches expected (ucast n)))"
| "evaluate_predicate sv ctx (RpUser expected) e m =
     try_bind (active_owner e m) (\<lambda>i. Inr (expected = i))"
| "evaluate_predicate sv ctx (RpGroup expected) e m =
     try_bind (active_group e m) (\<lambda>i. Inr (expected = i))"
| "evaluate_predicate sv ctx RpNoUser e m =
     try_bind (active_owner e m) (\<lambda>i. try_bind (sv_user_exists sv i) (\<lambda>b. Inr (\<not> b)))"
| "evaluate_predicate sv ctx RpNoGroup e m =
     try_bind (active_group e m) (\<lambda>i. try_bind (sv_group_exists sv i) (\<lambda>b. Inr (\<not> b)))"
| "evaluate_predicate sv ctx (RpPerm matcher) e m =
     try_bind (active_mode_bits e m) (\<lambda>bits. Inr (perm_matches matcher bits))"
| "evaluate_predicate sv ctx (RpFlags matcher) e m =
     try_bind (active_flag_bits e m) (\<lambda>bits. Inr (flags_matches matcher bits))"
| "evaluate_predicate sv ctx (RpReparseType expected) e m =
     try_bind (physical_reparse_tag e)
       (\<lambda>tag. Inr (map_option classify_reparse_tag tag = Some expected))"
| "evaluate_predicate sv ctx (RpSize matcher) e m =
     try_bind (active_size e m) (\<lambda>n. Inr (size_matches matcher n))"
| "evaluate_predicate sv ctx RpEmpty e m = active_is_empty e m"
| "evaluate_predicate sv ctx (RpUsed matcher) e m =
     try_bind (active_atime e m) (\<lambda>atime. try_bind (active_ctime e m) (\<lambda>ctime.
       used_matches (sv_used_strict sv) matcher atime ctime))"
| "evaluate_predicate sv ctx (RpRelativeTime matcher) e m =
     try_bind (entry_timestamp e m (time_kind matcher)) (matches_timestamp_checked (calendar sv) matcher)"
| "evaluate_predicate sv ctx (RpNewer matcher) e m = matches_newer e m matcher"
| "evaluate_predicate sv ctx (RpType expected) e m =
     try_bind (active_kind e m) (\<lambda>kind. Inr (matches_type expected kind))"
| "evaluate_predicate sv ctx (RpXType expected) e m =
     try_bind (xtype_kind e m) (\<lambda>kind. Inr (matches_type expected kind))"
| "evaluate_predicate sv ctx RpTrue e m = Inr True"
| "evaluate_predicate sv ctx RpFalse e m = Inr False"

section \<open>The mount table of a rendered \<^verbatim>\<open>mountinfo\<close>\<close>

record mount_line =
  ml_id :: u64
  ml_fields :: "string list"
  ml_type :: string
  ml_tail :: string

definition mount_word :: "string \<Rightarrow> bool" where
  "mount_word w \<longleftrightarrow> w \<noteq> [] \<and> w \<noteq> ''-'' \<and> CHR '' '' \<notin> set w \<and> CHR 0x0A \<notin> set w"

definition graphic :: "byte \<Rightarrow> bool" where
  "graphic c \<longleftrightarrow> 32 < byte_val c \<and> byte_val c < 127"

definition mount_line_ok :: "mount_line \<Rightarrow> bool" where
  "mount_line_ok l \<longleftrightarrow> list_all mount_word (ml_fields l) \<and> ml_type l \<noteq> [] \<and>
     list_all graphic (ml_type l) \<and> CHR 0x0A \<notin> set (ml_tail l)"

definition mount_left :: "mount_line \<Rightarrow> string" where
  "mount_left l = show_nat (unat (ml_id l)) @ concat (map (\<lambda>w. CHR '' '' # w) (ml_fields l))"

definition mount_text :: "mount_line \<Rightarrow> string" where
  "mount_text l = mount_left l @ '' - '' @ ml_type l @ '' '' @ ml_tail l"

definition mountinfo_text :: "mount_line list \<Rightarrow> string" where
  "mountinfo_text ls = concat (map (\<lambda>l. mount_text l @ [CHR 0x0A]) ls)"

lemma graphic_not_space: "graphic c \<Longrightarrow> space_len (c # s) = 0"
  by (simp add: graphic_def space_len_def)

lemma digit_graphic: "is_ascii_digit c \<Longrightarrow> graphic c"
  by (simp add: is_ascii_digit_def graphic_def in_range_def)

lemma space_len_space [simp]: "space_len (CHR '' '' # s) = 1"
  by (simp add: space_len_def byte_val_def)

lemma take_word_graphic:
  "list_all graphic w \<Longrightarrow> s = [] \<or> hd s = CHR '' '' \<Longrightarrow> take_word (w @ s) = w"
proof (induction w)
  case Nil
  then show ?case by (cases s) auto
next
  case (Cons c w)
  then show ?case by (simp add: graphic_not_space)
qed

lemma first_word_graphic:
  assumes "list_all graphic w" "w \<noteq> []" "s = [] \<or> hd s = CHR '' ''"
  shows "first_word (w @ s) = Some w"
proof -
  obtain c r where w: "w = c # r" using assms(2) by (cases w) auto
  then have "skip_spaces (w @ s) = w @ s"
    using assms(1) by (subst skip_spaces.simps) (simp add: graphic_not_space)
  then show ?thesis
    using take_word_graphic [OF assms(1,3)] w by (simp add: first_word_def)
qed

text \<open>No \<^verbatim>\<open>" - "\<close> starts before the separator.\<close>

lemma split_once_str_skip:
  "CHR '' '' \<notin> set w \<Longrightarrow> split_once_str '' - '' (w @ s) =
     map_option (\<lambda>(l, r). (w @ l, r)) (split_once_str '' - '' s)"
proof (induction w)
  case (Cons c w)
  then show ?case by (cases "split_once_str '' - '' s") auto
qed (cases "split_once_str '' - '' s"; auto)

lemma split_once_str_word:
  assumes "mount_word w" "t \<noteq> []" "hd t = CHR '' ''"
  shows "split_once_str '' - '' (CHR '' '' # w @ t) =
     map_option (\<lambda>(l, r). (CHR '' '' # w @ l, r)) (split_once_str '' - '' t)"
proof -
  have w: "w \<noteq> []" "w \<noteq> ''-''" "CHR '' '' \<notin> set w" using assms(1) by (simp_all add: mount_word_def)
  have "take 2 (w @ t) \<noteq> ''- ''"
  proof (cases w)
    case (Cons c r)
    then show ?thesis using w assms(2,3) by (cases r; cases t) auto
  qed (use w in simp)
  then have "take (length '' - '') (CHR '' '' # w @ t) \<noteq> '' - ''" by (simp add: numeral_2_eq_2)
  then have "split_once_str '' - '' (CHR '' '' # w @ t) =
      map_option (\<lambda>(l, r). (CHR '' '' # l, r)) (split_once_str '' - '' (w @ t))"
    by (simp only: split_once_str.simps if_False)
  then show ?thesis
    by (cases "split_once_str '' - '' t") (simp_all add: split_once_str_skip [OF w(3)] split: prod.split)
qed

lemma split_once_str_fields:
  "list_all mount_word ws \<Longrightarrow>
     split_once_str '' - '' (concat (map (\<lambda>w. CHR '' '' # w) ws) @ '' - '' @ s)
       = Some (concat (map (\<lambda>w. CHR '' '' # w) ws), s)"
proof (induction ws)
  case Nil
  then show ?case by simp
next
  case (Cons w ws)
  let ?t = "concat (map (\<lambda>w. CHR '' '' # w) ws) @ '' - '' @ s"
  have "?t \<noteq> []" "hd ?t = CHR '' ''" by (cases ws; simp)+
  with Cons show ?case by (simp add: split_once_str_word del: split_once_str.simps(2))
qed

lemma mount_line_parsed:
  assumes "mount_line_ok l"
  shows "mountinfo_line s (mount_text l) = Inr (snapshot_insert (KeyNumeric (ml_id l)) (ml_type l) s)"
    and "mountinfo_line s (chomp (mount_text l)) =
           Inr (snapshot_insert (KeyNumeric (ml_id l)) (ml_type l) s)"
proof -
  let ?id = "show_nat (unat (ml_id l))"
  have id: "list_all graphic ?id" "?id \<noteq> []" "CHR '' '' \<notin> set ?id"
    using show_nat_props [of "unat (ml_id l)"]
    by (auto simp: list_all_iff digit_graphic) (auto simp: is_ascii_digit_def in_range_def byte_val_def)
  have parsed: "mountinfo_line s (mount_left l @ '' - '' @ ml_type l @ '' '' @ tail) =
      Inr (snapshot_insert (KeyNumeric (ml_id l)) (ml_type l) s)" for tail
  proof -
    have "split_once_str '' - '' (mount_left l @ '' - '' @ ml_type l @ '' '' @ tail)
        = Some (mount_left l, ml_type l @ '' '' @ tail)"
      using assms split_once_str_fields [of "ml_fields l" "ml_type l @ '' '' @ tail"]
      by (simp add: mount_left_def split_once_str_skip [OF id(3)] mount_line_ok_def)
    moreover have "first_word (mount_left l) = Some ?id"
      unfolding mount_left_def using id by (intro first_word_graphic) (cases "ml_fields l"; simp)+
    moreover have "first_word (ml_type l @ '' '' @ tail) = Some (ml_type l)"
      using assms by (intro first_word_graphic) (simp_all add: mount_line_ok_def)
    ultimately show ?thesis by (simp add: mountinfo_line_def)
  qed
  then show "mountinfo_line s (mount_text l) =
      Inr (snapshot_insert (KeyNumeric (ml_id l)) (ml_type l) s)" by (simp add: mount_text_def)
  have "\<exists>tail. chomp (mount_text l) = mount_left l @ '' - '' @ ml_type l @ '' '' @ tail"
    by (cases "ml_tail l" rule: rev_cases) (auto simp: chomp_def mount_text_def butlast_append)
  then show "mountinfo_line s (chomp (mount_text l)) =
      Inr (snapshot_insert (KeyNumeric (ml_id l)) (ml_type l) s)" using parsed by metis
qed

lemma split_on_line: "d \<notin> set l \<Longrightarrow> split_on d (l @ d # s) = l # split_on d s"
  by (induction l) auto

lemma show_nat_no_newline: "CHR 0x0A \<notin> set (show_nat n)"
  using show_nat_props [of n] by (auto simp: list_all_iff is_ascii_digit_def in_range_def byte_val_def)

lemma mount_text_no_newline: "mount_line_ok l \<Longrightarrow> CHR 0x0A \<notin> set (mount_text l)"
  by (auto simp: mount_line_ok_def mount_text_def mount_left_def show_nat_no_newline list_all_iff
      mount_word_def graphic_def byte_val_def)

lemma split_on_mountinfo:
  "list_all mount_line_ok ls \<Longrightarrow> split_on (CHR 0x0A) (mountinfo_text ls) = map mount_text ls @ [[]]"
  by (induction ls) (simp_all add: mountinfo_text_def mount_text_no_newline split_on_line)

lemma mount_text_not_blank: "skip_spaces (chomp (mount_text l)) \<noteq> []"
proof -
  let ?id = "show_nat (unat (ml_id l))"
  obtain c r where id: "?id = c # r" "is_ascii_digit c" by (rule show_nat_Cons)
  have "\<exists>t. chomp (mount_text l) = ?id @ t"
    by (cases "ml_tail l" rule: rev_cases)
      (auto simp: chomp_def mount_text_def mount_left_def butlast_append)
  then obtain t where "chomp (mount_text l) = c # r @ t" using id by auto
  then show ?thesis
    using digit_graphic [OF id(2)] by (subst skip_spaces.simps) (simp add: graphic_not_space)
qed

definition snapshot_ok :: "filesystem_snapshot \<Rightarrow> bool" where
  "snapshot_ok s \<longleftrightarrow> bt_inv (types_by_key s) \<and> (\<forall>k t. bt_get (types_by_key s) k = Some t \<longrightarrow> t \<in> known_types s)"

lemma snapshot_ok_insert: "snapshot_ok s \<Longrightarrow> snapshot_ok (snapshot_insert k t s)"
  by (auto simp: snapshot_ok_def snapshot_insert_def bt.inv_insert bt.get_insert split: if_splits)

lemma snapshot_ok_default [simp]: "snapshot_ok default_snapshot"
  by (simp add: snapshot_ok_def default_snapshot_def bt.inv_empty bt.get_empty)

lemma mountinfo_loop_ok: "snapshot_ok s \<Longrightarrow> mountinfo_loop ls s = Inr s' \<Longrightarrow> snapshot_ok s'"
proof (induction ls arbitrary: s)
  case (Cons line ls)
  have "mountinfo_line s line = Inr s1 \<Longrightarrow> snapshot_ok s1" for s1
    using Cons.prems(1) by (auto simp: mountinfo_line_def result_simps snapshot_ok_insert)
  then show ?case using Cons by (auto simp: result_simps split: if_splits)
qed simp

lemma from_mountinfo_ok: "from_mountinfo text = Inr s \<Longrightarrow> snapshot_ok s"
  using mountinfo_loop_ok [OF snapshot_ok_default] by (auto simp: from_mountinfo_def)

lemma mountinfo_loop_lines:
  "list_all mount_line_ok ls \<Longrightarrow>
     mountinfo_loop (map (chomp \<circ> mount_text) ls) s
       = Inr (fold (\<lambda>l. snapshot_insert (KeyNumeric (ml_id l)) (ml_type l)) ls s)"
  by (induction ls arbitrary: s) (simp_all add: mount_text_not_blank mount_line_parsed)

lemma snapshot_fold:
  "snapshot_ok s \<Longrightarrow>
     type_for_mount_id (fold (\<lambda>l. snapshot_insert (KeyNumeric (ml_id l)) (ml_type l)) ls s) mid
       = (case map_of (rev (map (\<lambda>l. (ml_id l, ml_type l)) ls)) mid of
            Some t \<Rightarrow> Some t | None \<Rightarrow> type_for_mount_id s mid)
   \<and> known_types (fold (\<lambda>l. snapshot_insert (KeyNumeric (ml_id l)) (ml_type l)) ls s)
       = known_types s \<union> ml_type ` set ls"
proof (induction ls arbitrary: s)
  case (Cons l ls)
  have "bt_inv (types_by_key s)" using Cons.prems by (simp add: snapshot_ok_def)
  then have "type_for_mount_id (snapshot_insert (KeyNumeric (ml_id l)) (ml_type l) s) mid
      = (if mid = ml_id l then Some (ml_type l) else type_for_mount_id s mid)"
    by (simp add: type_for_mount_id_def snapshot_insert_def bt.get_insert)
  then show ?case
    using Cons.IH [OF snapshot_ok_insert [OF Cons.prems], of "KeyNumeric (ml_id l)" "ml_type l"]
    by (auto simp: map_add_def snapshot_insert_def split: option.split)
qed simp

lemma from_mountinfo_text:
  "list_all mount_line_ok ls \<Longrightarrow> from_mountinfo (mountinfo_text ls) =
     Inr (fold (\<lambda>l. snapshot_insert (KeyNumeric (ml_id l)) (ml_type l)) ls default_snapshot)"
  using split_on_mountinfo [of ls] mountinfo_loop_lines [of ls default_snapshot]
  by (simp add: from_mountinfo_def str_lines_def Let_def)

text \<open>
  C40.  Reading a mount table: the table of every rendered \<^verbatim>\<open>mountinfo\<close> (an id, fields
  without blanks of which none is a lone minus, the separator, a type of graphic characters and
  any tail) has, for every id, the type of the last line with that id, and knows exactly the
  types that occur.
\<close>

theorem mountinfo_roundtrip:
  assumes "list_all mount_line_ok ls"
  shows "\<exists>s. from_mountinfo (mountinfo_text ls) = Inr s
    \<and> (\<forall>mid. type_for_mount_id s mid = map_of (rev (map (\<lambda>l. (ml_id l, ml_type l)) ls)) mid)
    \<and> (\<forall>t. knows_type s t \<longleftrightarrow> t \<in> ml_type ` set ls)"
proof -
  let ?s = "fold (\<lambda>l. snapshot_insert (KeyNumeric (ml_id l)) (ml_type l)) ls default_snapshot"
  have "from_mountinfo (mountinfo_text ls) = Inr ?s"
    by (rule from_mountinfo_text [OF assms])
  moreover have "type_for_mount_id ?s mid = map_of (rev (map (\<lambda>l. (ml_id l, ml_type l)) ls)) mid" for mid
    using snapshot_fold [OF snapshot_ok_default, of ls mid]
    by (simp add: type_for_mount_id_def default_snapshot_def bt.get_empty split: option.splits)
  moreover have "knows_type ?s t \<longleftrightarrow> t \<in> ml_type ` set ls" for t
    using snapshot_fold [OF snapshot_ok_default, of ls] by (simp add: knows_type_def default_snapshot_def)
  ultimately show ?thesis by blast
qed

definition sample_mounts :: "mount_line list" where
  "sample_mounts =
     [\<lparr>ml_id = 23, ml_fields = [''1'', ''8:1'', ''/'', ''/'', ''rw''], ml_type = ''ext4'', ml_tail = ''/dev/root rw''\<rparr>,
      \<lparr>ml_id = 24, ml_fields = [''23'', ''0:21'', ''/'', ''/run'', ''rw''], ml_type = ''tmpfs'', ml_tail = ''tmpfs rw''\<rparr>]"

lemma sample_mounts_ok: "list_all mount_line_ok sample_mounts"
  by (simp add: sample_mounts_def mount_line_ok_def mount_word_def graphic_def byte_val_def)

lemma mountinfo_roundtrip_witness:
  "\<exists>s. from_mountinfo (mountinfo_text sample_mounts) = Inr s
     \<and> type_for_mount_id s 24 = Some ''tmpfs'' \<and> \<not> knows_type s ''btrfs''"
  using mountinfo_roundtrip [OF sample_mounts_ok] by (auto simp: sample_mounts_def)

text \<open>
  \<^verbatim>\<open>-fstype\<close> looks up the mount of the entry: with the table read from
  \<^verbatim>\<open>mountinfo\<close> the shortcut for unknown type names never changes an answer, it only
  spares reading the entry.
\<close>

theorem fstype_is_lookup:
  assumes "from_mountinfo text = Inr snapshot" "mount_table ctx = Some snapshot"
    and "active_mount_id e m = Inr mid"
  shows "evaluate_predicate sv ctx (RpFsType t) e m = Inr (type_for_mount_id snapshot mid = Some t)"
  using from_mountinfo_ok [OF assms(1)] assms(2,3)
  by (auto simp: fs_type_matches_def ctx_mount_snapshot_def knows_type_def snapshot_ok_def
      type_for_mount_id_def type_for_mount_key_def)

definition mounted_reader :: platform_reader where
  "mounted_reader =
     sample_reader\<lparr>read_metadata_view := (\<lambda>p follow. Inr ((sample_view KindFile 5)
       \<lparr>view_filesystem_key := Some (KeyNumeric 24)\<rparr>))\<rparr>"

definition sample_services :: "'rx services" where
  "sample_services =
     \<lparr>sv_user_exists = (\<lambda>i. Inr True), sv_group_exists = (\<lambda>i. Inr True),
      sv_user_name = (\<lambda>i. Inr (Some ''root'')), sv_group_name = (\<lambda>i. Inr (Some ''root'')),
      sv_localtime = (\<lambda>s. None), sv_used_strict = False,
      sv_regex_is_match = (\<lambda>rx s. Inr True), sv_zero_pads_strings = False,
      sv_device_major = (\<lambda>d. d div 256), sv_device_minor = (\<lambda>d. d mod 256),
      sv_six_sigfigs = (\<lambda>size blocks. ''1'')\<rparr>"

lemma fstype_is_lookup_witness:
  "\<exists>snapshot. from_mountinfo (mountinfo_text sample_mounts) = Inr snapshot
     \<and> evaluate_predicate sample_services (with_mount_snapshot snapshot) (RpFsType ''tmpfs'')
          (entry_new mounted_reader ''f'' 0 True) Physical = Inr True"
proof -
  note table = from_mountinfo_text [OF sample_mounts_ok]
  let ?s = "fold (\<lambda>l. snapshot_insert (KeyNumeric (ml_id l)) (ml_type l)) sample_mounts default_snapshot"
  have "active_mount_id (entry_new mounted_reader ''f'' 0 True) Physical = Inr 24"
    by (simp add: active_mount_id_def active_field_def active_view_def follows_link_def
        uses_logical_view_def physical_view_def map_err_def entry_new_def
        with_reader_hint_and_root_def mounted_reader_def)
  note t = fstype_is_lookup [OF table _ this, of "with_mount_snapshot ?s" sample_services "''tmpfs''"]
  have "type_for_mount_id ?s 24 = Some ''tmpfs''"
    using snapshot_fold [OF snapshot_ok_default, of sample_mounts 24] by (simp add: sample_mounts_def)
  then show ?thesis using t table by (simp add: with_mount_snapshot_def)
qed

section \<open>Predicates read the object the entry stands for\<close>

text \<open>The fields that a view made from \<^verbatim>\<open>stat\<close> always has.\<close>

definition stat_view :: "metadata_view \<Rightarrow> bool" where
  "stat_view v \<longleftrightarrow> view_identity v \<noteq> None \<and> view_mode_bits v \<noteq> None \<and> view_link_count v \<noteq> None
     \<and> (case view_owner v of Some (PrincipalNumeric u) \<Rightarrow> True | _ \<Rightarrow> False)
     \<and> (case view_group v of Some (PrincipalNumeric g) \<Rightarrow> True | _ \<Rightarrow> False)"

definition view_uid :: "metadata_view \<Rightarrow> u32" where
  "view_uid v = (case view_owner v of Some (PrincipalNumeric u) \<Rightarrow> u | _ \<Rightarrow> 0)"

definition view_gid :: "metadata_view \<Rightarrow> u32" where
  "view_gid v = (case view_group v of Some (PrincipalNumeric g) \<Rightarrow> g | _ \<Rightarrow> 0)"

text \<open>The meaning of the metadata predicates on a view, without errors.\<close>

fun view_satisfies :: "'rx runtime_predicate \<Rightarrow> metadata_view \<Rightarrow> bool option" where
  "view_satisfies (RpType t) v = Some (matches_type t (view_kind v))"
| "view_satisfies (RpInum n) v = Some (numeric_matches n (inode_number (the (view_identity v))))"
| "view_satisfies (RpLinks n) v = Some (numeric_matches n (the (view_link_count v)))"
| "view_satisfies (RpSameFile i) v = Some (view_identity v = Some i)"
| "view_satisfies (RpUid n) v = Some (numeric_matches n (ucast (view_uid v)))"
| "view_satisfies (RpGid n) v = Some (numeric_matches n (ucast (view_gid v)))"
| "view_satisfies (RpUser i) v = Some (i = PrincipalNumeric (view_uid v))"
| "view_satisfies (RpGroup i) v = Some (i = PrincipalNumeric (view_gid v))"
| "view_satisfies (RpPerm p) v = Some (perm_matches p (the (view_mode_bits v)))"
| "view_satisfies (RpFlags f) v = Some (flags_matches f (view_flag_bits v))"
| "view_satisfies (RpSize s) v = Some (size_matches s (view_size v))"
| "view_satisfies (RpNewer n) v =
     (case newer_current n of
        KBirth \<Rightarrow> Some (case view_birth_time v of None \<Rightarrow> False | Some t \<Rightarrow> newer_matches n t)
      | KAccess \<Rightarrow> Some (newer_matches n (view_atime v))
      | KChange \<Rightarrow> Some (newer_matches n (view_ctime v))
      | KModification \<Rightarrow> Some (newer_matches n (view_mtime v)))"
| "view_satisfies _ v = None"

text \<open>
  A metadata predicate evaluates, without error, to its meaning on the view of the object
  that the follow mode says the entry stands for.
\<close>

theorem metadata_predicates_read_denoted_object:
  assumes "unix_entry e pv" "v = denoted_view e m pv" "stat_view v" "view_satisfies p v = Some b"
  shows "evaluate_predicate sv ctx p e m = Inr b"
proof -
  note active = unix_entry_active [OF assms(1,2)]
  obtain i bits n u g where fields: "view_identity v = Some i" "view_mode_bits v = Some bits"
    "view_link_count v = Some n" "view_owner v = Some (PrincipalNumeric u)"
    "view_group v = Some (PrincipalNumeric g)"
    using assms(3) by (auto simp: stat_view_def split: option.splits principal_id.splits)
  then have ids: "active_inode e m = Inr (inode_number i)" "active_uid e m = Inr u"
    "active_gid e m = Inr g" "active_owner e m = Inr (PrincipalNumeric u)"
    "active_group e m = Inr (PrincipalNumeric g)" "active_mode_bits e m = Inr bits"
    "active_link_count e m = Inr n" "view_uid v = u" "view_gid v = g"
    by (simp_all add: active_inode_def active_uid_def active_gid_def active_owner_def
        active_group_def active_mode_bits_def active_link_count_def active_field_def active
        view_uid_def view_gid_def)
  have times: "active_flag_bits e m = Inr (view_flag_bits v)" "active_size e m = Inr (view_size v)"
    "active_atime e m = Inr (view_atime v)" "active_ctime e m = Inr (view_ctime v)"
    "active_mtime e m = Inr (view_mtime v)" "active_birth_time e m = Inr (view_birth_time v)"
    by (simp_all add: active_flag_bits_def active_size_def active_atime_def active_ctime_def
        active_mtime_def active_birth_time_def active)
  show ?thesis
  proof (cases p)
    case (RpNewer n)
    then show ?thesis
      using assms(4)
      by (cases "newer_current n") (auto simp: matches_newer_def times split: option.splits)
  qed (use assms(4) in \<open>auto simp: fields ids times active\<close>)
qed

lemma metadata_predicates_read_denoted_object_witness:
  "evaluate_predicate sample_services default_context (RpSize \<lparr>comparison = NumExactly 4096, unit = Bytes\<rparr>)
     (entry_new sample_reader ''link'' 0 True) Logical = Inr True
   \<and> evaluate_predicate sample_services default_context (RpType FtSymlink)
     (entry_new sample_reader ''link'' 0 True) Logical = Inr False"
proof -
  have u: "unix_entry (entry_new sample_reader ''link'' 0 True) (sample_view KindSymlink 5)"
    by (simp add: unix_entry_def entry_new_def with_reader_hint_and_root_def sample_reader_def
        sample_view_def)
  have v: "sample_view KindDirectory 7
      = denoted_view (entry_new sample_reader ''link'' 0 True) Logical (sample_view KindSymlink 5)"
    by (simp add: denoted_view_def entry_new_def with_reader_hint_and_root_def sample_reader_def
        sample_view_def)
  have s: "stat_view (sample_view KindDirectory 7)" by (simp add: stat_view_def sample_view_def)
  show ?thesis
    by (intro conjI metadata_predicates_read_denoted_object [OF u v s];
        simp add: sample_view_def size_matches_def rounded_up_units_def)
qed

end
