(* ===== verification/Traversal_Control.thy ===== *)
theory Traversal_Control
  imports Eval
begin

text \<open>
  Pruning: \<^verbatim>\<open>src/src/traversal_control.rs\<close>, which evaluates an expression once more
  before the walker descends, and what the projection of \<^verbatim>\<open>src/src/runtime_policy.rs\<close>
  and the reordering of \<^verbatim>\<open>src/src/optimizer.rs\<close> preserve.
\<close>

section \<open>The traversal verdict\<close>

record traversal_control =
  tc_matched :: bool
  tc_prune :: bool

definition tc_allow :: traversal_control where
  "tc_allow = \<lparr>tc_matched = True, tc_prune = False\<rparr>"

text \<open>
  \<^verbatim>\<open>RuntimePredicate::Prune\<close> asks for the kind of the entry only in pre-order, like the
  \<open>&&\<close> of the source.
\<close>

definition prune_verdict :: "traversal_order \<Rightarrow> entry \<Rightarrow> follow_mode \<Rightarrow> traversal_control result" where
  "prune_verdict order e m =
     (if order = PreOrder
      then try_bind (active_kind e m) (\<lambda>kind. Inr \<lparr>tc_matched = True, tc_prune = (kind = KindDirectory)\<rparr>)
      else Inr tc_allow)"

function (sequential)
  evaluate_for_traversal ::
    "'rx services \<Rightarrow> eval_context \<Rightarrow> traversal_order \<Rightarrow> ('rx runtime_predicate, 'a) runtime_expr \<Rightarrow>
     entry \<Rightarrow> follow_mode \<Rightarrow> traversal_control result" and
  traversal_and ::
    "'rx services \<Rightarrow> eval_context \<Rightarrow> traversal_order \<Rightarrow> ('rx runtime_predicate, 'a) runtime_expr list \<Rightarrow>
     traversal_control \<Rightarrow> entry \<Rightarrow> follow_mode \<Rightarrow> traversal_control result" where
  "evaluate_for_traversal sv ctx order (RAnd items) e m = traversal_and sv ctx order items tc_allow e m"
| "evaluate_for_traversal sv ctx order (ROr l r) e m =
     try_bind (evaluate_for_traversal sv ctx order l e m) (\<lambda>left.
       if tc_matched left then Inr left
       else try_bind (evaluate_for_traversal sv ctx order r e m) (\<lambda>right.
              Inr \<lparr>tc_matched = tc_matched right, tc_prune = tc_prune left \<or> tc_prune right\<rparr>))"
| "evaluate_for_traversal sv ctx order (RNot x) e m =
     try_bind (evaluate_for_traversal sv ctx order x e m) (\<lambda>inner.
       Inr \<lparr>tc_matched = \<not> tc_matched inner, tc_prune = tc_prune inner\<rparr>)"
| "evaluate_for_traversal sv ctx order (RPredicate p) e m =
     (case p of
        RpPrune \<Rightarrow> prune_verdict order e m
      | _ \<Rightarrow> try_bind (evaluate_predicate sv ctx p e m) (\<lambda>b. Inr \<lparr>tc_matched = b, tc_prune = False\<rparr>))"
| "evaluate_for_traversal sv ctx order (RAction a) e m = Inr tc_allow"
| "evaluate_for_traversal sv ctx order RBarrier e m = Inr tc_allow"
| "traversal_and sv ctx order [] verdict e m = Inr verdict"
| "traversal_and sv ctx order (item # items) verdict e m =
     try_bind (evaluate_for_traversal sv ctx order item e m) (\<lambda>next.
       let verdict = verdict\<lparr>tc_prune := tc_prune verdict \<or> tc_prune next\<rparr> in
       if \<not> tc_matched next then Inr (verdict\<lparr>tc_matched := False\<rparr>)
       else traversal_and sv ctx order items verdict e m)"
  by pat_completeness auto
termination
  by (relation "measure (\<lambda>c. case c of
        Inl (sv, ctx, order, x, e, m) \<Rightarrow> expr_weight x
      | Inr (sv, ctx, order, xs, v, e, m) \<Rightarrow> 1 + sum_list (map (\<lambda>e. 1 + expr_weight e) xs))") auto

section \<open>The projection\<close>

lemma prune_case [simp]: "(case p of RpPrune \<Rightarrow> a | _ \<Rightarrow> b) = (if p = RpPrune then a else b)"
  by (cases p) simp_all

lemma traversal_map:
  "(\<And>x. x \<in> set items \<Longrightarrow> evaluate_for_traversal sv ctx order (f x) e m = evaluate_for_traversal sv ctx order x e m)
   \<Longrightarrow> traversal_and sv ctx order (map f items) v e m = traversal_and sv ctx order items v e m"
  by (induction items arbitrary: v) (simp_all add: Let_def cong: if_cong)

lemma project_same_verdict:
  "evaluate_for_traversal sv ctx order (project_for_traversal x) e m =
     evaluate_for_traversal sv ctx order x e m"
proof (induction x)
  case (RAnd items)
  then show ?case by (simp add: traversal_map)
qed (simp_all cong: if_cong)

lemma traversal_and_no_prune:
  assumes "\<And>x v. x \<in> set xs \<Longrightarrow> evaluate_for_traversal sv ctx order x e m = Inr v \<Longrightarrow> \<not> tc_prune v"
    and "\<not> tc_prune v0" "traversal_and sv ctx order xs v0 e m = Inr v"
  shows "\<not> tc_prune v"
  using assms
proof (induction xs arbitrary: v0)
  case (Cons x xs)
  from Cons.prems(3) obtain nx where nx: "evaluate_for_traversal sv ctx order x e m = Inr nx"
    by (auto simp: result_simps)
  then have quiet: "\<not> tc_prune nx" by (rule Cons.prems(1) [rotated]) simp
  show ?case
  proof (cases "tc_matched nx")
    case True
    then have "traversal_and sv ctx order xs (v0\<lparr>tc_prune := False\<rparr>) e m = Inr v"
      using Cons.prems(2,3) nx quiet by (simp add: Let_def)
    moreover have "v0\<lparr>tc_prune := False\<rparr> = v0" using Cons.prems(2) by (cases v0) simp
    ultimately have "traversal_and sv ctx order xs v0 e m = Inr v" by (simp only:)
    then show ?thesis using Cons.IH Cons.prems(1,2) by auto
  next
    case False
    then show ?thesis using Cons.prems(2,3) nx quiet by (auto simp: Let_def)
  qed
qed simp

lemma no_prune_no_effect:
  "\<not> contains_prune x \<Longrightarrow> evaluate_for_traversal sv ctx order x e m = Inr v \<Longrightarrow> \<not> tc_prune v"
proof (induction x arbitrary: v)
  case (RAnd items)
  have "\<not> tc_prune v'" if "x \<in> set items" "evaluate_for_traversal sv ctx order x e m = Inr v'" for x v'
    using RAnd.IH [OF that(1) _ that(2)] RAnd.prems(1) that(1) by (auto simp: list_ex_iff)
  note quiet = this
  show ?case
    using traversal_and_no_prune [OF quiet, where ?v0.0 = tc_allow and v = v] RAnd.prems(2) by (simp add: tc_allow_def)
qed (auto simp: result_simps tc_allow_def split: if_splits)

lemma post_order_no_effect:
  "order \<noteq> PreOrder \<Longrightarrow> evaluate_for_traversal sv ctx order x e m = Inr v \<Longrightarrow> \<not> tc_prune v"
proof (induction x arbitrary: v)
  case (RAnd items)
  have "\<not> tc_prune v'" if "x \<in> set items" "evaluate_for_traversal sv ctx order x e m = Inr v'" for x v'
    using RAnd.IH [OF that(1) _ that(2)] RAnd.prems(1) by simp
  note quiet = this
  show ?case
    using traversal_and_no_prune [OF quiet, where ?v0.0 = tc_allow and v = v] RAnd.prems(2) by (simp add: tc_allow_def)
qed (auto simp: result_simps tc_allow_def prune_verdict_def split: if_splits)

text \<open>
  The walker's plan is exact: the verdict of the projected expression is the verdict of the
  expression, and where there is no plan (post-order, or no \<^verbatim>\<open>-prune\<close>) no entry is
  pruned.
\<close>

theorem traversal_plan_exact:
  "case build_traversal_control_plan x order of
     Some plan \<Rightarrow> evaluate_for_traversal sv ctx order plan e m = evaluate_for_traversal sv ctx order x e m
   | None \<Rightarrow> (case evaluate_for_traversal sv ctx order x e m of
        Inr verdict \<Rightarrow> \<not> tc_prune verdict | Inl err \<Rightarrow> True)"
  using no_prune_no_effect [of x sv ctx order e m] post_order_no_effect [of order sv ctx x e m]
  by (auto simp: build_traversal_control_plan_def project_same_verdict split: sum.split)

section \<open>The verdict and the evaluation\<close>

text \<open>
  The verdict takes every action for a match.  To say which actions ran, and how, the sink is
  watched: it also records the result of each action it is handed.
\<close>

definition observed ::
  "('a \<Rightarrow> 'e \<Rightarrow> follow_mode \<Rightarrow> 's \<Rightarrow> outcome result \<times> 's) \<Rightarrow>
   'a \<Rightarrow> 'e \<Rightarrow> follow_mode \<Rightarrow> 's \<times> outcome result list \<Rightarrow> outcome result \<times> 's \<times> outcome result list" where
  "observed dispatch a e m t = (let (r, s') = dispatch a e m (fst t) in (r, s', snd t @ [r]))"

definition carried_out :: "outcome result \<Rightarrow> bool" where
  "carried_out r = (case r of Inl err \<Rightarrow> False | Inr out \<Rightarrow> matched out \<and> \<not> is_stop_requested (status out))"

lemma outcome_new_simps [simp]:
  "matched (outcome_new b) = b" "status (outcome_new b) = default_status"
  "\<lparr>matched = b, status = default_status\<rparr> = outcome_new b"
  by (simp_all add: outcome_new_def)

text \<open>A result with the truth value of the verdict, if all recorded actions were carried out.\<close>

definition agrees :: "outcome result \<Rightarrow> outcome result list \<Rightarrow> traversal_control result \<Rightarrow> bool" where
  "agrees r log verdict \<longleftrightarrow>
     (list_all carried_out log \<longrightarrow> (\<forall>v. verdict = Inr v \<longrightarrow>
        (\<exists>out. r = Inr out \<and> matched out = tc_matched v \<and> \<not> is_stop_requested (status out))))"

definition watched :: "outcome result \<times> 's \<times> outcome result list \<Rightarrow> outcome result \<times> 's \<Rightarrow>
    outcome result list \<Rightarrow> traversal_control result \<Rightarrow> bool" where
  "watched run plain_run log verdict \<longleftrightarrow>
     (\<exists>r s' new. run = (r, s', log @ new) \<and> plain_run = (r, s') \<and> agrees r new verdict)"

lemma watchedE:
  assumes "watched run plain_run log verdict"
  obtains r s' new where "run = (r, s', log @ new)" "plain_run = (r, s')" "agrees r new verdict"
  using assms unfolding watched_def by blast

lemma watched_same: "agrees r [] verdict \<Longrightarrow> watched (r, s, log) (r, s) log verdict"
  unfolding watched_def by (intro exI [of _ r] exI [of _ s] exI [of _ "[]"]) simp

lemma watched_eval:
  "watched (eval_ref (evaluate_predicate sv ctx) (observed dispatch) x e m (s, log))
     (eval_ref (evaluate_predicate sv ctx) dispatch x e m s) log (evaluate_for_traversal sv ctx order x e m)"
  "tc_matched v0 \<Longrightarrow> \<not> is_stop_requested acc \<Longrightarrow>
   watched (eval_and (evaluate_predicate sv ctx) (observed dispatch) xs acc e m (s, log))
     (eval_and (evaluate_predicate sv ctx) dispatch xs acc e m s) log (traversal_and sv ctx order xs v0 e m)"
proof (induction x and xs arbitrary: s log and s log v0 acc rule: eval_weight_induct)
  case (And items)
  then show ?case by (simp add: tc_allow_def)
next
  case (Or l r)
  from Or.IH(1) [of s log] obtain ro s1 new where
    l: "eval_ref (evaluate_predicate sv ctx) (observed dispatch) l e m (s, log) = (ro, s1, log @ new)"
      "eval_ref (evaluate_predicate sv ctx) dispatch l e m s = (ro, s1)"
      "agrees ro new (evaluate_for_traversal sv ctx order l e m)" by (rule watchedE)
  show ?case
  proof (cases "\<exists>lo. ro = Inr lo \<and> \<not> matched lo \<and> \<not> is_stop_requested (status lo)")
    case True
    then obtain lo where lo: "ro = Inr lo" "\<not> matched lo" "\<not> is_stop_requested (status lo)" by blast
    from Or.IH(2) [of s1 "log @ new"] obtain r2 s2 news where
      r: "eval_ref (evaluate_predicate sv ctx) (observed dispatch) r e m (s1, log @ new) = (r2, s2, log @ new @ news)"
        "eval_ref (evaluate_predicate sv ctx) dispatch r e m s1 = (r2, s2)"
        "agrees r2 news (evaluate_for_traversal sv ctx order r e m)" by (rule watchedE) simp
    show ?thesis
      using l r lo
      by (cases r2) (auto simp: watched_def agrees_def result_simps split: if_splits
          dest!: arg_cong [where f = tc_matched])
  next
    case False
    with l show ?thesis
      by (cases ro) (auto simp: watched_def agrees_def result_simps split: if_splits)
  qed
next
  case (Not x)
  from Not.IH [of s log] obtain r s1 new where
    x: "eval_ref (evaluate_predicate sv ctx) (observed dispatch) x e m (s, log) = (r, s1, log @ new)"
      "eval_ref (evaluate_predicate sv ctx) dispatch x e m s = (r, s1)"
      "agrees r new (evaluate_for_traversal sv ctx order x e m)" by (rule watchedE)
  then show ?case by (cases r) (auto simp: watched_def agrees_def result_simps)
next
  case (Predicate p)
  have val: "evaluate_predicate sv ctx p e m = Inr (tc_matched v)"
    if "evaluate_for_traversal sv ctx order (RPredicate p) e m = Inr v" for v
  proof (cases "p = RpPrune")
    case True
    then show ?thesis
      using that by (auto simp: result_simps prune_verdict_def tc_allow_def split: if_splits)
  next
    case False
    then show ?thesis using that by (cases "evaluate_predicate sv ctx p e m") auto
  qed
  show ?case unfolding eval_ref.simps
    by (rule watched_same, unfold agrees_def, intro allI impI, drule val) simp
next
  case (Action a)
  obtain r s1 where "dispatch a e m s = (r, s1)" by force
  then show ?case
    by (auto simp: watched_def observed_def agrees_def carried_out_def tc_allow_def split: sum.splits)
next
  case Barrier
  then show ?case by (simp add: watched_same agrees_def tc_allow_def)
next
  case Nil
  then show ?case by (simp add: watched_same agrees_def)
next
  case (Cons x xs)
  from Cons.IH(1) [of s log] obtain r s1 new where
    x: "eval_ref (evaluate_predicate sv ctx) (observed dispatch) x e m (s, log) = (r, s1, log @ new)"
      "eval_ref (evaluate_predicate sv ctx) dispatch x e m s = (r, s1)"
      "agrees r new (evaluate_for_traversal sv ctx order x e m)" by (rule watchedE)
  show ?case
  proof (cases "\<exists>out. r = Inr out \<and> matched out \<and> \<not> is_stop_requested (merge acc (status out))")
    case True
    then obtain out where out: "r = Inr out" "matched out" "\<not> is_stop_requested (merge acc (status out))" by blast
    let ?acc = "merge acc (status out)"
    have loop: "eval_and (evaluate_predicate sv ctx) (observed dispatch) (x # xs) acc e m (s, log)
          = eval_and (evaluate_predicate sv ctx) (observed dispatch) xs ?acc e m (s1, log @ new)"
      "eval_and (evaluate_predicate sv ctx) dispatch (x # xs) acc e m s
          = eval_and (evaluate_predicate sv ctx) dispatch xs ?acc e m s1"
      using x(1,2) out by (simp_all add: Let_def)
    define v1 where "v1 = (case evaluate_for_traversal sv ctx order x e m of
        Inl err \<Rightarrow> v0 | Inr vx \<Rightarrow> v0\<lparr>tc_prune := tc_prune v0 \<or> tc_prune vx\<rparr>)"
    have "tc_matched v1" using Cons.prems(1) by (simp add: v1_def split: sum.split)
    from Cons.IH(2) [OF this out(3), of s1 "log @ new"] obtain r2 s2 news where
      xs: "eval_and (evaluate_predicate sv ctx) (observed dispatch) xs ?acc e m (s1, log @ new) = (r2, s2, (log @ new) @ news)"
        "eval_and (evaluate_predicate sv ctx) dispatch xs ?acc e m s1 = (r2, s2)"
        "agrees r2 news (traversal_and sv ctx order xs v1 e m)" by (rule watchedE)
    have "agrees r2 (new @ news) (traversal_and sv ctx order (x # xs) v0 e m)"
    proof (cases "evaluate_for_traversal sv ctx order x e m")
      case (Inr vx)
      with x(3) xs(3) out(1,2) show ?thesis by (auto simp: agrees_def v1_def Let_def)
    qed (simp add: agrees_def)
    then show ?thesis unfolding loop xs(1,2) watched_def
      by (intro exI [of _ r2] exI [of _ s2] exI [of _ "new @ news"]) simp
  next
    case False
    with x Cons.prems show ?thesis
      by (cases r) (auto simp: watched_def agrees_def result_simps Let_def split: if_splits)
  qed
qed

section \<open>Reordering predicates\<close>

fun expr_predicates :: "('p, 'a) runtime_expr \<Rightarrow> 'p list" where
  "expr_predicates (RAnd items) = concat (map expr_predicates items)"
| "expr_predicates (ROr l r) = expr_predicates l @ expr_predicates r"
| "expr_predicates (RNot x) = expr_predicates x"
| "expr_predicates (RPredicate p) = [p]"
| "expr_predicates (RAction a) = []"
| "expr_predicates RBarrier = []"

lemma segment_loop_out: "segment_loop out seg items = out @ segment_loop [] seg items"
proof (induction items arbitrary: out seg)
  case (Cons item items)
  show ?case
    by (simp add: flush_segment_def Cons [of out "seg @ [item]"] Cons [of "out @ _ @ _" "[]"]
        Cons [of "sort_key expr_cost seg @ [item]" "[]"])
qed (simp add: flush_segment_def)

lemma sort_key_Nil: "sort_key f [] = []"
  by simp

lemma segment_loop_step:
  "segment_loop [] seg (item # items) =
     (if is_reorderable_leaf item then segment_loop [] (seg @ [item]) items
      else sort_key expr_cost seg @ item # segment_loop [] [] items)"
  by (simp add: flush_segment_def segment_loop_out [of "sort_key expr_cost seg @ [item]"])

declare segment_loop.simps(2) [simp del]

text \<open>
  A segment of predicates that do not fail: it decides by the conjunction of its values, in
  whatever order, and does not touch the status or the sink.
\<close>

definition leaf_true :: "('p \<Rightarrow> 'e \<Rightarrow> follow_mode \<Rightarrow> bool result) \<Rightarrow> 'e \<Rightarrow> follow_mode \<Rightarrow>
    ('p, 'a) runtime_expr \<Rightarrow> bool" where
  "leaf_true ev e m x = (case x of RPredicate p \<Rightarrow> ev p e m = Inr True | _ \<Rightarrow> False)"

definition leaf_total :: "('p \<Rightarrow> 'e \<Rightarrow> follow_mode \<Rightarrow> bool result) \<Rightarrow> 'e \<Rightarrow> follow_mode \<Rightarrow>
    ('p, 'a) runtime_expr \<Rightarrow> bool" where
  "leaf_total ev e m x = (case x of RPredicate p \<Rightarrow> \<not> isl (ev p e m) | _ \<Rightarrow> False)"

lemma eval_segment:
  assumes "\<not> is_stop_requested acc"
  shows "list_all (leaf_total ev e m) seg \<Longrightarrow>
     eval_and ev dispatch (seg @ rest) acc e m s =
       (if list_all (leaf_true ev e m) seg then eval_and ev dispatch rest acc e m s
        else (Inr \<lparr>matched = False, status = acc\<rparr>, s))"
proof (induction seg)
  case (Cons x seg)
  then obtain p b where x: "x = RPredicate p" and b: "ev p e m = Inr b"
    by (auto simp: leaf_total_def isl_def split: runtime_expr.splits)
      (metis isl_def old.sum.exhaust)
  show ?case using Cons assms by (cases b) (simp_all add: x b leaf_true_def)
qed simp

lemma eval_sorted_segment:
  assumes "\<not> is_stop_requested acc" "list_all (leaf_total ev e m) seg"
  shows "eval_and ev dispatch (sort_key f seg @ rest) acc e m s = eval_and ev dispatch (seg @ rest) acc e m s"
proof -
  have "list_all P (sort_key f seg) = list_all P seg" for P by (simp add: list_all_iff)
  then show ?thesis using assms by (simp add: eval_segment)
qed

lemma eval_segment_loop:
  assumes "\<And>i. i \<in> set items \<Longrightarrow> is_reorderable_leaf i \<Longrightarrow> leaf_total ev e m i"
  shows "\<not> is_stop_requested acc \<Longrightarrow> list_all (leaf_total ev e m) seg \<Longrightarrow>
     eval_and ev dispatch (segment_loop [] seg items) acc e m s = eval_and ev dispatch (seg @ items) acc e m s"
  using assms
proof (induction items arbitrary: seg acc s)
  case Nil
  then show ?case using eval_sorted_segment [of acc ev e m seg dispatch expr_cost "[]" s]
    by (simp add: flush_segment_def)
next
  case (Cons item items)
  show ?case
  proof (cases "is_reorderable_leaf item")
    case True
    then have "leaf_total ev e m item" using Cons.prems(3) by simp
    then show ?thesis
      using Cons.IH [of acc "seg @ [item]" s] Cons.prems True by (simp add: segment_loop_step)
  next
    case False
    have rest: "\<not> is_stop_requested acc' \<Longrightarrow>
        eval_and ev dispatch (segment_loop [] [] items) acc' e m s' = eval_and ev dispatch items acc' e m s'"
      for acc' s'
      using Cons.IH [of acc' "[]" s'] Cons.prems(3) by simp
    have "eval_and ev dispatch (item # segment_loop [] [] items) acc e m s
        = eval_and ev dispatch (item # items) acc e m s"
      by (simp only: eval_ref.simps eval_and.simps) (intro then_eval_cong refl; auto simp: Let_def rest)
    then show ?thesis
      using Cons.prems False
      by (simp add: segment_loop_step eval_sorted_segment eval_segment del: eval_ref.simps eval_and.simps)
  qed
qed

lemma eval_and_map:
  "(\<And>x s. x \<in> set items \<Longrightarrow> eval_ref ev dispatch (f x) e m s = eval_ref ev dispatch x e m s) \<Longrightarrow>
     eval_and ev dispatch (map f items) acc e m s = eval_and ev dispatch items acc e m s"
  by (induction items arbitrary: acc s) (simp_all add: Let_def cong: if_cong then_eval_cong)

lemma optimize_leaf: "is_reorderable_leaf (optimize_read_only_and_chains x) \<Longrightarrow>
    optimize_read_only_and_chains x = x \<and> (\<exists>p. x = RPredicate p)"
  by (cases x) simp_all

lemma optimize_eval:
  "list_all (\<lambda>p. \<not> isl (ev p e m)) (expr_predicates x) \<Longrightarrow>
     eval_ref ev dispatch (optimize_read_only_and_chains x) e m s = eval_ref ev dispatch x e m s"
proof (induction x arbitrary: s)
  case (RAnd items)
  have sub: "x \<in> set items \<Longrightarrow> list_all (\<lambda>p. \<not> isl (ev p e m)) (expr_predicates x)" for x
    using RAnd.prems by (auto simp: list_all_iff)
  have leaf: "leaf_total ev e m i"
    if "i \<in> set (map optimize_read_only_and_chains items)" "is_reorderable_leaf i" for i
  proof -
    from that obtain x where x: "x \<in> set items" "i = optimize_read_only_and_chains x" by auto
    with optimize_leaf [of x] that(2) obtain p where "i = RPredicate p" "x = RPredicate p" by auto
    then show ?thesis using sub [OF x(1)] by (simp add: leaf_total_def)
  qed
  have "eval_and ev dispatch (segment_loop [] [] (map optimize_read_only_and_chains items)) default_status e m s
      = eval_and ev dispatch (map optimize_read_only_and_chains items) default_status e m s"
    by (rule eval_segment_loop [where seg = "[]", unfolded append_Nil]) (use leaf in auto)
  then show ?case using RAnd.IH sub by (simp add: eval_and_map)
qed (simp_all cong: if_cong then_eval_cong)

text \<open>
  C29.  Reordering by cost changes nothing that can be observed: when no predicate of the
  expression fails on the entry, the optimised expression gives the same outcome, the same
  status and the same sink, with any actions in between.
\<close>

theorem optimizer_preserves_evaluation:
  assumes "list_all (\<lambda>p. \<not> isl (ev p e m)) (expr_predicates x)"
  shows "evaluate_outcome ev dispatch (optimize_read_only_and_chains x) e m s
           = evaluate_outcome ev dispatch x e m s"
  using optimize_eval [of ev e m x dispatch s] assms by (simp add: evaluate_outcome_ref)

definition sample_chain :: "(unit runtime_predicate, runtime_action) runtime_expr" where
  "sample_chain = RAnd [RPredicate RpReadable, RPredicate RpFalse, RAction RaLs]"

lemma optimizer_preserves_evaluation_witness:
  "optimize_read_only_and_chains sample_chain = RAnd [RPredicate RpFalse, RPredicate RpReadable, RAction RaLs]
   \<and> evaluate_outcome (\<lambda>p e m. Inr (p \<noteq> RpFalse)) (\<lambda>a e m s. (Inr (outcome_new True), a # s))
        (optimize_read_only_and_chains sample_chain) () Physical []
     = evaluate_outcome (\<lambda>p e m. Inr (p \<noteq> RpFalse)) (\<lambda>a e m s. (Inr (outcome_new True), a # s))
        sample_chain () Physical []"
proof
  show "optimize_read_only_and_chains sample_chain =
      RAnd [RPredicate RpFalse, RPredicate RpReadable, RAction RaLs]"
    by (simp add: sample_chain_def segment_loop_step profile_def less_eq_cost_tier_def flush_segment_def)
qed (rule optimizer_preserves_evaluation, simp add: sample_chain_def)

lemma successively_sorted:
  "sorted_wrt (\<lambda>a b. R a b) xs \<Longrightarrow> successively R xs"
  by (induction xs rule: induct_list012) auto

lemma mark_leaves:
  "list_all P xs \<Longrightarrow> map (\<lambda>x. if P x then b else x) xs = replicate (length xs) b"
  by (induction xs) auto

text \<open>
  What the optimiser does to a conjunction: it keeps every operand, it keeps all operands
  other than reorderable predicates in their order and in their place relative to the segments
  between them, and inside a segment the predicates are in ascending order of cost.
\<close>

theorem optimizer_orders_segments:
  "\<exists>out. optimize_read_only_and_chains (RAnd items) = RAnd out
     \<and> mset out = mset (map optimize_read_only_and_chains items)
     \<and> map (\<lambda>x. if is_reorderable_leaf x then RBarrier else x) out
         = map (\<lambda>x. if is_reorderable_leaf x then RBarrier else x) (map optimize_read_only_and_chains items)
     \<and> successively (\<lambda>a b. if is_reorderable_leaf a \<and> is_reorderable_leaf b
          then expr_cost a \<le> expr_cost b else True) out"
proof -
  let ?leaf = is_reorderable_leaf and ?R = "\<lambda>a b. if is_reorderable_leaf a \<and> is_reorderable_leaf b
          then expr_cost a \<le> expr_cost b else True"
  let ?mark = "map (\<lambda>x. if is_reorderable_leaf x then RBarrier else x)"
  have "list_all ?leaf seg \<Longrightarrow> mset (segment_loop [] seg xs) = mset (seg @ xs)
      \<and> ?mark (segment_loop [] seg xs) = ?mark (seg @ xs)
      \<and> successively ?R (segment_loop [] seg xs)" for seg xs
  proof (induction xs arbitrary: seg)
    case Nil
    have "list_all ?leaf (sort_key expr_cost seg)" using Nil by (simp add: list_all_iff)
    moreover have "successively ?R (sort_key expr_cost seg)"
      by (rule successively_sorted, rule sorted_wrt_mono_rel [OF _ sorted_sort_key [unfolded sorted_map]])
        simp
    ultimately show ?case using Nil by (simp add: flush_segment_def mark_leaves)
  next
    case (Cons x xs)
    show ?case
    proof (cases "?leaf x")
      case True
      then show ?thesis using Cons.IH [of "seg @ [x]"] Cons.prems by (simp add: segment_loop_step)
    next
      case False
      have "list_all ?leaf (sort_key expr_cost seg)" using Cons.prems by (simp add: list_all_iff)
      moreover have "successively ?R (sort_key expr_cost seg)"
        by (rule successively_sorted, rule sorted_wrt_mono_rel [OF _ sorted_sort_key [unfolded sorted_map]])
          simp
      ultimately show ?thesis
        using Cons.IH [of "[]"] Cons.prems False
        by (simp add: segment_loop_step mark_leaves successively_append_iff successively_Cons)
    qed
  qed
  from this [of "[]" "map optimize_read_only_and_chains items"] show ?thesis by simp
qed

end
