(* ===== verification/Render.thy ===== *)
theory Render
  imports Eval
begin

text \<open>
  What the output actions write: \<^verbatim>\<open>src/src/metadata_format.rs\<close>, the rendering half of
  \<^verbatim>\<open>src/src/printf.rs\<close>, \<^verbatim>\<open>src/src/ls.rs\<close> (Unix) and \<^verbatim>\<open>src/src/action_output.rs\<close>.
\<close>

section \<open>Names and modes (metadata_format.rs)\<close>

fun principal_id_bytes :: "principal_id \<Rightarrow> string" where
  "principal_id_bytes (PrincipalNumeric v) = show_nat (unat v)"
| "principal_id_bytes (PrincipalSid s) = s"

fun name_or_id_bytes :: "os_string option \<Rightarrow> principal_id \<Rightarrow> string" where
  "name_or_id_bytes (Some name) i = name"
| "name_or_id_bytes None i = principal_id_bytes i"

definition mode_has :: "u32 \<Rightarrow> u32 \<Rightarrow> bool" where
  "mode_has mode bits \<longleftrightarrow> and mode bits \<noteq> 0"

definition execute_char :: "u32 \<Rightarrow> u32 \<Rightarrow> u32 \<Rightarrow> byte \<Rightarrow> byte \<Rightarrow> byte" where
  "execute_char mode exec_bit special_bit when_set when_unset =
     (case (mode_has mode exec_bit, mode_has mode special_bit) of
        (True, True) \<Rightarrow> when_set
      | (False, True) \<Rightarrow> when_unset
      | (True, False) \<Rightarrow> CHR ''x''
      | (False, False) \<Rightarrow> CHR ''-'')"

fun mode_kind_char :: "entry_kind \<Rightarrow> byte" where
  "mode_kind_char KindFile = CHR ''-''"
| "mode_kind_char KindDirectory = CHR ''d''"
| "mode_kind_char KindSymlink = CHR ''l''"
| "mode_kind_char KindBlock = CHR ''b''"
| "mode_kind_char KindCharacter = CHR ''c''"
| "mode_kind_char KindFifo = CHR ''p''"
| "mode_kind_char KindSocket = CHR ''s''"
| "mode_kind_char KindUnknown = CHR ''U''"

definition symbolic_mode_string :: "entry_kind \<Rightarrow> u32 \<Rightarrow> string" where
  "symbolic_mode_string kind mode =
     [mode_kind_char kind,
      if mode_has mode 0x100 then CHR ''r'' else CHR ''-'',
      if mode_has mode 0x080 then CHR ''w'' else CHR ''-'',
      execute_char mode 0x040 0x800 (CHR ''s'') (CHR ''S''),
      if mode_has mode 0x020 then CHR ''r'' else CHR ''-'',
      if mode_has mode 0x010 then CHR ''w'' else CHR ''-'',
      execute_char mode 0x008 0x400 (CHR ''s'') (CHR ''S''),
      if mode_has mode 0x004 then CHR ''r'' else CHR ''-'',
      if mode_has mode 0x002 then CHR ''w'' else CHR ''-'',
      execute_char mode 0x001 0x200 (CHR ''t'') (CHR ''T'')]"

section \<open>Rendering a program (printf.rs)\<close>

fun file_type_letter :: "entry_kind \<Rightarrow> byte" where
  "file_type_letter KindFile = CHR ''f''"
| "file_type_letter KindDirectory = CHR ''d''"
| "file_type_letter KindSymlink = CHR ''l''"
| "file_type_letter KindBlock = CHR ''b''"
| "file_type_letter KindCharacter = CHR ''c''"
| "file_type_letter KindFifo = CHR ''p''"
| "file_type_letter KindSocket = CHR ''s''"
| "file_type_letter KindUnknown = CHR ''U''"

fun target_letter :: "printf_target \<Rightarrow> byte" where
  "target_letter (TargetKind kind) = file_type_letter kind"
| "target_letter TargetLoop = CHR ''L''"
| "target_letter TargetMissing = CHR ''N''"
| "target_letter TargetOtherError = CHR ''?''"

text \<open>The local times that one rendering has resolved so far, one slot per family.\<close>

record render_state =
  slot_access :: "time_parts option option"
  slot_change :: "time_parts option option"
  slot_modification :: "time_parts option option"
  slot_birth :: "time_parts option option"

definition default_render_state :: render_state where
  "default_render_state =
     \<lparr>slot_access = None, slot_change = None, slot_modification = None, slot_birth = None\<rparr>"

fun get_slot :: "time_family \<Rightarrow> render_state \<Rightarrow> time_parts option option" where
  "get_slot FamAccess st = slot_access st"
| "get_slot FamChange st = slot_change st"
| "get_slot FamModification st = slot_modification st"
| "get_slot FamBirth st = slot_birth st"

fun put_slot :: "time_family \<Rightarrow> time_parts option \<Rightarrow> render_state \<Rightarrow> render_state" where
  "put_slot FamAccess p st = st\<lparr>slot_access := Some p\<rparr>"
| "put_slot FamChange p st = st\<lparr>slot_change := Some p\<rparr>"
| "put_slot FamModification p st = st\<lparr>slot_modification := Some p\<rparr>"
| "put_slot FamBirth p st = st\<lparr>slot_birth := Some p\<rparr>"

fun family_timestamp :: "time_family \<Rightarrow> entry \<Rightarrow> follow_mode \<Rightarrow> timestamp option result" where
  "family_timestamp FamAccess e m = try_bind (active_atime e m) (\<lambda>t. Inr (Some t))"
| "family_timestamp FamChange e m = try_bind (active_ctime e m) (\<lambda>t. Inr (Some t))"
| "family_timestamp FamModification e m = try_bind (active_mtime e m) (\<lambda>t. Inr (Some t))"
| "family_timestamp FamBirth e m = active_birth_time e m"

definition resolve_timestamp ::
  "'rx services \<Rightarrow> time_family \<Rightarrow> entry \<Rightarrow> follow_mode \<Rightarrow> time_parts option result" where
  "resolve_timestamp sv family e m =
     try_bind (family_timestamp family e m) (\<lambda>timestamp.
       case timestamp of
         Some t \<Rightarrow> try_bind (resolve_local_time_parts (sv_localtime sv) t) (\<lambda>parts. Inr (Some parts))
       | None \<Rightarrow> Inr None)"

definition resolve_cached_time_parts ::
  "'rx services \<Rightarrow> render_state \<Rightarrow> time_family \<Rightarrow> entry \<Rightarrow> follow_mode \<Rightarrow>
   (time_parts option \<times> render_state) result" where
  "resolve_cached_time_parts sv st family e m =
     (case get_slot family st of
        Some parts \<Rightarrow> Inr (parts, st)
      | None \<Rightarrow>
          try_bind (resolve_timestamp sv family e m) (\<lambda>parts. Inr (parts, put_slot family parts st)))"

definition format_sparseness_ascii :: "'rx services \<Rightarrow> u64 \<Rightarrow> u64 \<Rightarrow> string" where
  "format_sparseness_ascii sv file_size blocks =
     (if file_size = 0 then ''1'' else trim_ascii_float (sv_six_sigfigs sv file_size blocks))"

definition div_ceil_2 :: "u64 \<Rightarrow> u64" where
  "div_ceil_2 n = n div 2 + n mod 2"

text \<open>A time field from the parts of its timestamp; without a timestamp the field is empty.\<close>

definition render_time_directive ::
  "'rx services \<Rightarrow> (time_parts \<Rightarrow> string result) \<Rightarrow> field_format \<Rightarrow> time_parts option \<Rightarrow> string result" where
  "render_time_directive sv render fmt parts =
     (case parts of
        Some p \<Rightarrow> try_bind (render p) (\<lambda>s. Inr (format_string_like (sv_zero_pads_strings sv) s fmt))
      | None \<Rightarrow> Inr (format_string_like (sv_zero_pads_strings sv) [] fmt))"

definition render_directive_bytes ::
  "'rx services \<Rightarrow> eval_context \<Rightarrow> printf_directive \<Rightarrow> entry \<Rightarrow> follow_mode \<Rightarrow> render_state \<Rightarrow>
   (string \<times> render_state) result" where
  "render_directive_bytes sv ctx d e m st =
     (let fmt = directive_format d;
          text = (\<lambda>s. Inr (format_string_like (sv_zero_pads_strings sv) s fmt, st));
          number = (\<lambda>n::u64. text (show_nat (unat n)))
      in case directive_kind d of
        DPath \<Rightarrow> text (display_bytes (entry_path e))
      | DRelativePath \<Rightarrow> try_bind (relative_to_root e) (\<lambda>p. text (display_bytes p))
      | DStartPath \<Rightarrow> text (display_bytes (start_path e))
      | DBasename \<Rightarrow> text (display_bytes (entry_basename e))
      | DDirname \<Rightarrow> text (display_bytes (relative_dir_for_printf (entry_path e)))
      | DDepth \<Rightarrow> Inr (format_depth (entry_depth e) fmt, st)
      | DFileType \<Rightarrow> try_bind (active_kind e m) (\<lambda>k. text [file_type_letter k])
      | DFileTypeFollow \<Rightarrow> try_bind (printf_target_kind e m) (\<lambda>t. text [target_letter t])
      | DSize \<Rightarrow> try_bind (active_size e m) number
      | DSparseness \<Rightarrow> try_bind (active_size e m) (\<lambda>size. try_bind (active_blocks e m) (\<lambda>blocks.
          text (format_sparseness_ascii sv size blocks)))
      | DModeOctal \<Rightarrow> try_bind (active_mode_bits e m) (\<lambda>mode. Inr (format_mode_octal mode fmt, st))
      | DModeSymbolic \<Rightarrow> try_bind (active_kind e m) (\<lambda>k. try_bind (active_mode_bits e m) (\<lambda>mode.
          text (symbolic_mode_string k mode)))
      | DLinkTarget \<Rightarrow> try_bind (active_link_target e m) (\<lambda>t.
          text (display_bytes (case t of Some target \<Rightarrow> target | None \<Rightarrow> [])))
      | DInode \<Rightarrow> try_bind (active_inode e m) number
      | DLinkCount \<Rightarrow> try_bind (active_link_count e m) number
      | DDevice \<Rightarrow> try_bind (active_device e m) number
      | DBlocks512 \<Rightarrow> try_bind (active_blocks e m) number
      | DBlocks1024 \<Rightarrow> try_bind (active_blocks e m) (\<lambda>blocks. number (div_ceil_2 blocks))
      | DUserName \<Rightarrow> try_bind (active_owner e m) (\<lambda>owner. try_bind (sv_user_name sv owner) (\<lambda>name.
          text (name_or_id_bytes name owner)))
      | DUserSid \<Rightarrow> try_bind (active_owner e m) (\<lambda>owner. text (principal_id_bytes owner))
      | DUserId \<Rightarrow> try_bind (active_uid e m) (\<lambda>n. text (show_nat (unat n)))
      | DGroupName \<Rightarrow> try_bind (active_group e m) (\<lambda>group. try_bind (sv_group_name sv group) (\<lambda>name.
          text (name_or_id_bytes name group)))
      | DGroupSid \<Rightarrow> try_bind (active_group e m) (\<lambda>group. text (principal_id_bytes group))
      | DGroupId \<Rightarrow> try_bind (active_gid e m) (\<lambda>n. text (show_nat (unat n)))
      | DFileSystemType \<Rightarrow> try_bind (ctx_mount_snapshot ctx) (\<lambda>snapshot.
          try_bind (active_mount_id e m) (\<lambda>mount_id.
          try_bind (ok_or (diagnostic_new (''internal error: mount ID '' @ show_nat (unat mount_id)
                       @ '' missing from mount snapshot'') 1)
                     (type_for_mount_id snapshot mount_id)) text))
      | DFullTimestamp family \<Rightarrow>
          try_bind (resolve_cached_time_parts sv st family e m) (\<lambda>(parts, st).
          try_bind (render_time_directive sv (\<lambda>p. Inr (render_full_time p)) fmt parts) (\<lambda>s. Inr (s, st)))
      | DTimestampPart family selector \<Rightarrow>
          try_bind (resolve_cached_time_parts sv st family e m) (\<lambda>(parts, st).
          try_bind (render_time_directive sv (\<lambda>p. render_selector p selector) fmt parts) (\<lambda>s. Inr (s, st))))"

fun render_loop ::
  "'rx services \<Rightarrow> eval_context \<Rightarrow> printf_program \<Rightarrow> entry \<Rightarrow> follow_mode \<Rightarrow> string \<Rightarrow> render_state \<Rightarrow>
   string result" where
  "render_loop sv ctx [] e m rendered st = Inr rendered"
| "render_loop sv ctx (PLiteral bytes # atoms) e m rendered st =
     render_loop sv ctx atoms e m (rendered @ bytes) st"
| "render_loop sv ctx (PDirective d # atoms) e m rendered st =
     try_bind (render_directive_bytes sv ctx d e m st) (\<lambda>(s, st).
       render_loop sv ctx atoms e m (rendered @ s) st)"
| "render_loop sv ctx (PStop # atoms) e m rendered st = Inr rendered"

definition render_printf_bytes ::
  "'rx services \<Rightarrow> eval_context \<Rightarrow> printf_program \<Rightarrow> entry \<Rightarrow> follow_mode \<Rightarrow> string result" where
  "render_printf_bytes sv ctx prog e m = render_loop sv ctx prog e m [] default_render_state"

section \<open>\<^verbatim>\<open>-ls\<close> (ls.rs)\<close>

definition RECENT_PAST_WINDOW_SECONDS :: int where
  "RECENT_PAST_WINDOW_SECONDS = 6 * 30 * 24 * 60 * 60"

definition RECENT_FUTURE_WINDOW_SECONDS :: int where
  "RECENT_FUTURE_WINDOW_SECONDS = 60 * 60"

definition recent_window_contains :: "timestamp \<Rightarrow> timestamp \<Rightarrow> bool" where
  "recent_window_contains now t =
     (let not_too_old =
            (case checked_i64 (seconds now - RECENT_PAST_WINDOW_SECONDS) of
               Some s \<Rightarrow> t \<ge> Timestamp s (nanos now) | None \<Rightarrow> True);
          not_too_future =
            (case checked_i64 (seconds now + RECENT_FUTURE_WINDOW_SECONDS) of
               Some s \<Rightarrow> t \<le> Timestamp s (nanos now) | None \<Rightarrow> True)
      in not_too_old \<and> not_too_future)"

definition render_ls_time_column :: "time_parts \<Rightarrow> timestamp \<Rightarrow> string result" where
  "render_ls_time_column parts now =
     (let loc = part_local parts in
      try_bind (ok_or (diagnostic_new ''internal error: local month out of range'' 1)
         (if tm_mon loc < 0 then None else slice_get months_abbr (nat (tm_mon loc)))) (\<lambda>month.
        if recent_window_contains now (part_timestamp parts)
        then Inr (month @ '' '' @ fmt_right 2 (tm_mday loc) @ '' '' @ fmt_zero 2 (tm_hour loc) @ '':''
                   @ fmt_zero 2 (tm_min loc))
        else Inr (month @ '' '' @ fmt_right 2 (tm_mday loc) @ ''  '' @ fmt_zero 4 (tm_year loc + 1900))))"

definition pad_left :: "string \<Rightarrow> nat \<Rightarrow> string" where
  "pad_left val width =
     (if length val \<ge> width then val else replicate (width - length val) (CHR '' '') @ val)"

definition append_padded_field :: "string \<Rightarrow> string \<Rightarrow> nat \<Rightarrow> string" where
  "append_padded_field out val width =
     out @ val @ (if length val < width then replicate (width - length val) (CHR '' '') else [])"

definition format_device_field :: "u64 \<Rightarrow> u64 \<Rightarrow> string" where
  "format_device_field major minor = show_nat (unat major) @ '', '' @ fmt_right 3 (uint minor)"

fun escape_ls_byte :: "byte \<Rightarrow> string" where
  "escape_ls_byte c =
     (if c = CHR '' '' then [CHR 0x5C, CHR '' '']
      else if c = CHR 0x5C then [CHR 0x5C, CHR 0x5C]
      else if c = CHR 0x09 then [CHR 0x5C, CHR ''t'']
      else if c = CHR 0x0A then [CHR 0x5C, CHR ''n'']
      else if c = CHR 0x0D then [CHR 0x5C, CHR ''r'']
      else if c = CHR 0x0C then [CHR 0x5C, CHR ''f'']
      else [c])"

definition escape_ls_bytes :: "string \<Rightarrow> string" where
  "escape_ls_bytes bytes = concat (map escape_ls_byte bytes)"

definition render_entry_timestamp ::
  "'rx services \<Rightarrow> entry \<Rightarrow> follow_mode \<Rightarrow> timestamp \<Rightarrow> string result" where
  "render_entry_timestamp sv e m now =
     try_bind (active_mtime e m) (\<lambda>mtime.
     try_bind (resolve_local_time_parts (sv_localtime sv) mtime) (\<lambda>parts.
       render_ls_time_column parts now))"

definition render_size_field ::
  "'rx services \<Rightarrow> entry \<Rightarrow> follow_mode \<Rightarrow> entry_kind \<Rightarrow> string result" where
  "render_size_field sv e m kind =
     try_bind (active_device_number e m) (\<lambda>device.
       case (kind \<in> {KindBlock, KindCharacter}, device) of
         (True, Some d) \<Rightarrow> Inr (format_device_field (sv_device_major sv d) (sv_device_minor sv d))
       | _ \<Rightarrow> try_bind (active_size e m) (\<lambda>n. Inr (show_nat (unat n))))"

definition render_symlink_suffix :: "entry \<Rightarrow> follow_mode \<Rightarrow> string result" where
  "render_symlink_suffix e m =
     try_bind (active_link_target e m) (\<lambda>t.
       case t of
         Some target \<Rightarrow> Inr ('' -> '' @ escape_ls_bytes (display_bytes target))
       | None \<Rightarrow> Inr [])"

definition OWNER_GROUP_FIELD_WIDTH :: nat where "OWNER_GROUP_FIELD_WIDTH = 8"
definition SIZE_FIELD_WIDTH :: nat where "SIZE_FIELD_WIDTH = 8"

text \<open>The pieces are fetched in the order of the source, so the first error is the one returned.\<close>

definition render_ls_record ::
  "'rx services \<Rightarrow> eval_context \<Rightarrow> entry \<Rightarrow> follow_mode \<Rightarrow> string result" where
  "render_ls_record sv ctx e m =
     try_bind (active_kind e m) (\<lambda>kind.
     try_bind (active_inode e m) (\<lambda>inode.
     try_bind (active_blocks e m) (\<lambda>blocks.
     try_bind (active_mode_bits e m) (\<lambda>mode_bits.
     try_bind (active_link_count e m) (\<lambda>links.
     try_bind (active_owner e m) (\<lambda>owner_id.
     try_bind (active_group e m) (\<lambda>group_id.
     try_bind (sv_user_name sv owner_id) (\<lambda>owner_name.
     try_bind (sv_group_name sv group_id) (\<lambda>group_name.
     try_bind (render_size_field sv e m kind) (\<lambda>size.
     try_bind (ctx_evaluation_now ctx) (\<lambda>now.
     try_bind (render_entry_timestamp sv e m now) (\<lambda>timestamp.
     try_bind (render_symlink_suffix e m) (\<lambda>suffix.
       let head = fmt_right 9 (uint inode) @ '' '' @ fmt_right 6 (uint (div_ceil_2 blocks)) @ '' ''
                    @ symbolic_mode_string kind mode_bits @ '' '' @ fmt_right 3 (uint links) @ '' '';
           out = append_padded_field head (name_or_id_bytes owner_name owner_id) OWNER_GROUP_FIELD_WIDTH @ '' '';
           out = append_padded_field out (name_or_id_bytes group_name group_id) OWNER_GROUP_FIELD_WIDTH @ '' ''
       in Inr (out @ pad_left size SIZE_FIELD_WIDTH @ '' '' @ timestamp @ '' ''
                @ escape_ls_bytes (display_bytes (entry_path e)) @ suffix @ [CHR 0x0A]))))))))))))))"

section \<open>Rendered actions (action_output.rs)\<close>

datatype rendered_action = RenderedStdout string | RenderedFile file_output_id string

fun render_output_bytes :: "output_action \<Rightarrow> entry \<Rightarrow> string" where
  "render_output_bytes OutPrint e = display_bytes (entry_path e) @ [CHR 0x0A]"
| "render_output_bytes OutPrint0 e = display_bytes (entry_path e) @ [CHR 0x00]"

fun render_file_print_bytes :: "entry \<Rightarrow> file_output_terminator \<Rightarrow> string" where
  "render_file_print_bytes e TermNewline = display_bytes (entry_path e) @ [CHR 0x0A]"
| "render_file_print_bytes e TermNul = display_bytes (entry_path e) @ [CHR 0x00]"

fun render_action_output ::
  "'rx services \<Rightarrow> eval_context \<Rightarrow> runtime_action \<Rightarrow> entry \<Rightarrow> follow_mode \<Rightarrow> rendered_action option result" where
  "render_action_output sv ctx (RaOutput out) e m = Inr (Some (RenderedStdout (render_output_bytes out e)))"
| "render_action_output sv ctx (RaPrintf prog) e m =
     try_bind (render_printf_bytes sv ctx prog e m) (\<lambda>bytes. Inr (Some (RenderedStdout bytes)))"
| "render_action_output sv ctx RaLs e m =
     try_bind (render_ls_record sv ctx e m) (\<lambda>bytes. Inr (Some (RenderedStdout bytes)))"
| "render_action_output sv ctx (RaFilePrint destination term) e m =
     Inr (Some (RenderedFile destination (render_file_print_bytes e term)))"
| "render_action_output sv ctx (RaFilePrintf destination prog) e m =
     try_bind (render_printf_bytes sv ctx prog e m) (\<lambda>bytes. Inr (Some (RenderedFile destination bytes)))"
| "render_action_output sv ctx (RaFileLs destination) e m =
     try_bind (render_ls_record sv ctx e m) (\<lambda>bytes. Inr (Some (RenderedFile destination bytes)))"
| "render_action_output sv ctx RaQuit e m = Inr None"
| "render_action_output sv ctx (RaExecImmediate spec) e m = Inr None"
| "render_action_output sv ctx (RaExecBatched spec) e m = Inr None"
| "render_action_output sv ctx (RaExecPrompt spec) e m = Inr None"
| "render_action_output sv ctx RaDelete e m = Inr None"

section \<open>The mode string determines the mode\<close>

lemma mode_kind_char_inj: "mode_kind_char a = mode_kind_char b \<longleftrightarrow> a = b"
  by (cases a; cases b) simp_all

lemma mode_has_bit: "mode_has mode (2 ^ n) \<longleftrightarrow> bit mode n"
proof -
  have "and mode (2 ^ n) = (if bit mode n then 2 ^ n else 0)"
    by (rule bit_word_eqI) (auto simp: bit_simps)
  then show ?thesis
    by (cases "n < 32") (auto simp: mode_has_def bit_imp_le_length dest: bit_imp_le_length)
qed

lemma mode_has_bits [simp]:
  "mode_has mode 0x100 = bit mode 8" "mode_has mode 0x080 = bit mode 7" "mode_has mode 0x040 = bit mode 6"
  "mode_has mode 0x020 = bit mode 5" "mode_has mode 0x010 = bit mode 4" "mode_has mode 0x008 = bit mode 3"
  "mode_has mode 0x004 = bit mode 2" "mode_has mode 0x002 = bit mode 1" "mode_has mode 0x001 = bit mode 0"
  "mode_has mode 0x800 = bit mode 11" "mode_has mode 0x400 = bit mode 10" "mode_has mode 0x200 = bit mode 9"
  using mode_has_bit [of mode] by (simp_all flip: mode_has_bit)

lemma execute_char_inj:
  assumes "s \<noteq> S" "s \<notin> {CHR ''x'', CHR ''-''}" "S \<notin> {CHR ''x'', CHR ''-''}"
  shows "execute_char m1 eb sb s S = execute_char m2 eb sb s S \<longleftrightarrow>
     mode_has m1 eb = mode_has m2 eb \<and> mode_has m1 sb = mode_has m2 sb"
  using assms by (cases "mode_has m1 eb"; cases "mode_has m2 eb"; cases "mode_has m1 sb"; cases "mode_has m2 sb")
    (auto simp: execute_char_def)

lemma low_bits_eq:
  "take_bit 12 (m1 :: u32) = take_bit 12 m2 \<longleftrightarrow> list_all (\<lambda>n. bit m1 n = bit m2 n) [0..<12]"
proof
  assume eq: "take_bit 12 m1 = take_bit 12 m2"
  have "bit m1 n = bit m2 n" if "n < 12" for n
    using arg_cong [OF eq, of "\<lambda>m. bit m n"] that by (simp add: bit_take_bit_iff)
  then show "list_all (\<lambda>n. bit m1 n = bit m2 n) [0..<12]" by (simp add: list_all_iff)
next
  assume "list_all (\<lambda>n. bit m1 n = bit m2 n) [0..<12]"
  then show "take_bit 12 m1 = take_bit 12 m2"
    by (intro bit_eqI) (auto simp: list_all_iff bit_take_bit_iff)
qed

text \<open>
  The mode string of \<^verbatim>\<open>%M\<close> and \<^verbatim>\<open>-ls\<close> says exactly the kind and the twelve permission
  bits: two entries show the same string just when they agree in both, the set-id and sticky
  bits without their execute bits included.
\<close>

theorem symbolic_mode_string_determines_mode:
  "symbolic_mode_string k1 m1 = symbolic_mode_string k2 m2 \<longleftrightarrow>
     k1 = k2 \<and> take_bit 12 m1 = take_bit 12 m2"
proof -
  have ifs: "(if a then CHR ''r'' else CHR ''-'') = (if b then CHR ''r'' else CHR ''-'') \<longleftrightarrow> a = b"
    "(if a then CHR ''w'' else CHR ''-'') = (if b then CHR ''w'' else CHR ''-'') \<longleftrightarrow> a = b" for a b
    by auto
  have "[0..<12] = [0, 1, 2, 3, 4, 5, 6, 7, 8, 9, 10, 11::nat]" by code_simp
  then show ?thesis
    by (auto simp: symbolic_mode_string_def mode_kind_char_inj execute_char_inj low_bits_eq ifs)
qed

section \<open>Escaped names\<close>

fun unescape_ls :: "string \<Rightarrow> string" where
  "unescape_ls [] = []"
| "unescape_ls [c] = [c]"
| "unescape_ls (c # d # s) =
     (if c = CHR 0x5C
      then (if d = CHR ''t'' then CHR 0x09 else if d = CHR ''n'' then CHR 0x0A
            else if d = CHR ''r'' then CHR 0x0D else if d = CHR ''f'' then CHR 0x0C else d) # unescape_ls s
      else c # unescape_ls (d # s))"

text \<open>
  Names in \<^verbatim>\<open>-ls\<close> records: escaping loses nothing, and an escaped name has no byte that
  would end the record or the column: no newline, tab, carriage return or form feed.
\<close>

theorem escape_ls_roundtrip:
  "unescape_ls (escape_ls_bytes s) = s
   \<and> set (escape_ls_bytes s) \<inter> {CHR 0x0A, CHR 0x09, CHR 0x0D, CHR 0x0C} = {}"
proof (induction s)
  case Nil
  then show ?case by (simp add: escape_ls_bytes_def)
next
  case (Cons c s)
  have plain: "unescape_ls (c # t) = c # unescape_ls t" if "c \<noteq> CHR 0x5C" for c t
    using that by (cases t) simp_all
  show ?case using Cons by (auto simp: escape_ls_bytes_def plain)
qed

section \<open>Caching is invisible\<close>

text \<open>The reference: every directive resolves its own time.\<close>

fun render_fresh ::
  "'rx services \<Rightarrow> eval_context \<Rightarrow> printf_program \<Rightarrow> entry \<Rightarrow> follow_mode \<Rightarrow> string result" where
  "render_fresh sv ctx [] e m = Inr []"
| "render_fresh sv ctx (PLiteral bytes # atoms) e m =
     try_bind (render_fresh sv ctx atoms e m) (\<lambda>rest. Inr (bytes @ rest))"
| "render_fresh sv ctx (PDirective d # atoms) e m =
     try_bind (render_directive_bytes sv ctx d e m default_render_state) (\<lambda>(s, st).
     try_bind (render_fresh sv ctx atoms e m) (\<lambda>rest. Inr (s @ rest)))"
| "render_fresh sv ctx (PStop # atoms) e m = Inr []"

definition slots_ok :: "'rx services \<Rightarrow> entry \<Rightarrow> follow_mode \<Rightarrow> render_state \<Rightarrow> bool" where
  "slots_ok sv e m st \<longleftrightarrow>
     (\<forall>family parts. get_slot family st = Some parts \<longrightarrow> resolve_timestamp sv family e m = Inr parts)"

lemma get_put_slot:
  "get_slot f (put_slot g p st) = (if f = g then Some p else get_slot f st)"
  by (cases f; cases g) simp_all

lemma get_default_slot [simp]: "get_slot f default_render_state = None"
  by (cases f) (simp_all add: default_render_state_def)

lemma cached_parts:
  assumes "slots_ok sv e m st"
  shows "\<exists>st'. slots_ok sv e m st' \<and> resolve_cached_time_parts sv st family e m =
     try_bind (resolve_timestamp sv family e m) (\<lambda>parts. Inr (parts, st'))"
proof (cases "get_slot family st")
  case None
  show ?thesis
  proof (cases "resolve_timestamp sv family e m")
    case (Inl err)
    then show ?thesis using None assms by (auto simp: resolve_cached_time_parts_def)
  next
    case (Inr parts)
    then have "slots_ok sv e m (put_slot family parts st)"
      using assms by (simp add: slots_ok_def get_put_slot)
    then show ?thesis using None Inr by (auto simp: resolve_cached_time_parts_def)
  qed
next
  case (Some parts)
  then have "resolve_timestamp sv family e m = Inr parts" using assms by (simp add: slots_ok_def)
  then show ?thesis using Some assms by (auto simp: resolve_cached_time_parts_def)
qed

definition drop_state :: "(string \<times> render_state) result \<Rightarrow> string result" where
  "drop_state r = try_bind r (\<lambda>(s, st). Inr s)"

lemma directive_cached:
  assumes "slots_ok sv e m st"
  shows "\<exists>st'. slots_ok sv e m st' \<and> render_directive_bytes sv ctx d e m st =
     try_bind (drop_state (render_directive_bytes sv ctx d e m default_render_state)) (\<lambda>s. Inr (s, st'))"
proof -
  have ok0: "slots_ok sv e m default_render_state" by (simp add: slots_ok_def)
  show ?thesis
  proof (cases "directive_kind d")
    case (DFullTimestamp family)
    from cached_parts [OF ok0, of family] cached_parts [OF assms, of family] show ?thesis
      by (auto simp: render_directive_bytes_def DFullTimestamp drop_state_def try_bind_assoc)
  next
    case (DTimestampPart family selector)
    from cached_parts [OF ok0, of family] cached_parts [OF assms, of family] show ?thesis
      by (auto simp: render_directive_bytes_def DTimestampPart drop_state_def try_bind_assoc)
  qed (use assms in \<open>auto simp: render_directive_bytes_def drop_state_def try_bind_assoc intro!: exI [of _ st]\<close>)
qed

lemma render_loop_fresh:
  "slots_ok sv e m st \<Longrightarrow> render_loop sv ctx prog e m out st =
     try_bind (render_fresh sv ctx prog e m) (\<lambda>rest. Inr (out @ rest))"
proof (induction prog arbitrary: out st)
  case (Cons a prog)
  show ?case
  proof (cases a)
    case (PDirective d)
    from directive_cached [OF Cons.prems, of ctx d] obtain st' where st': "slots_ok sv e m st'"
      "render_directive_bytes sv ctx d e m st = try_bind
         (drop_state (render_directive_bytes sv ctx d e m default_render_state)) (\<lambda>s. Inr (s, st'))"
      by blast
    then show ?thesis
      using Cons.IH [OF st'(1)]
      by (cases "render_directive_bytes sv ctx d e m default_render_state")
        (auto simp: PDirective drop_state_def try_bind_assoc)
  qed (use Cons in \<open>simp_all add: try_bind_assoc\<close>)
qed simp

text \<open>
  Rendering a program: the result is the concatenation of its atoms up to the first stop,
  every directive rendered on its own; keeping resolved times between the directives of one
  rendering changes neither the bytes nor which error is returned.
\<close>

theorem printf_cache_invisible:
  "render_printf_bytes sv ctx prog e m = render_fresh sv ctx prog e m"
  using render_loop_fresh [of sv e m default_render_state ctx prog "[]"]
  by (simp add: render_printf_bytes_def slots_ok_def)

end
