(* ===== verification/Ordered_Sink.thy ===== *)
theory Ordered_Sink
  imports Render Exec_Batch
begin

text \<open>
  The sink that carries out actions in the thread of the walker: \<^verbatim>\<open>src/src/exec/ordered.rs\<close>,
  with the commands of \<^verbatim>\<open>src/src/exec/child.rs\<close>, the prompt of
  \<^verbatim>\<open>src/src/exec/confirm.rs\<close> and \<^verbatim>\<open>src/src/messages_locale.rs\<close>, \<^verbatim>\<open>src/src/exec/delete.rs\<close>
  and the files of \<^verbatim>\<open>src/src/file_output.rs\<close>.  The operating system is a record of functions on
  a world.
\<close>

section \<open>The operating system\<close>

record 'w host =
  h_write_stdout :: "string \<Rightarrow> 'w \<Rightarrow> unit io_result \<times> 'w"
  h_write_stderr :: "string \<Rightarrow> 'w \<Rightarrow> unit io_result \<times> 'w"
  h_write_file :: "nat \<Rightarrow> string \<Rightarrow> 'w \<Rightarrow> unit io_result \<times> 'w"
  h_open_file :: "nat \<Rightarrow> path \<Rightarrow> 'w \<Rightarrow> unit io_result \<times> 'w"
  h_command_status :: "os_string \<Rightarrow> os_string list \<Rightarrow> path option \<Rightarrow> 'w \<Rightarrow> bool io_result \<times> 'w"
  h_write_prompt :: "string \<Rightarrow> 'w \<Rightarrow> unit io_result \<times> 'w"
  h_flush_prompt :: "'w \<Rightarrow> unit io_result \<times> 'w"
  h_read_reply :: "'w \<Rightarrow> string io_result \<times> 'w"
  h_affirmative :: "string \<Rightarrow> bool"
  h_symlink_is_dir :: "path \<Rightarrow> 'w \<Rightarrow> bool io_result \<times> 'w"
  h_remove_dir :: "path \<Rightarrow> 'w \<Rightarrow> unit io_result \<times> 'w"
  h_remove_file :: "path \<Rightarrow> 'w \<Rightarrow> unit io_result \<times> 'w"

text \<open>The question-mark operator with a state.\<close>

definition then_io ::
  "('e + 'a) \<times> 'w \<Rightarrow> ('a \<Rightarrow> 'w \<Rightarrow> ('e + 'b) \<times> 'w) \<Rightarrow> ('e + 'b) \<times> 'w" where
  "then_io r f = (case r of (Inl err, w) \<Rightarrow> (Inl err, w) | (Inr x, w) \<Rightarrow> f x w)"

lemma then_io_simps [simp]:
  "then_io (Inl err, w) f = (Inl err, w)" "then_io (Inr x, w) f = f x w"
  by (simp_all add: then_io_def)

definition io_err :: "('e \<Rightarrow> 'f) \<Rightarrow> ('e + 'a) \<times> 'w \<Rightarrow> ('f + 'a) \<times> 'w" where
  "io_err f r = (map_err f (fst r), snd r)"

section \<open>Prompts (messages_locale.rs, exec/confirm.rs)\<close>

datatype prompt_locale = LocaleC | LocaleFr

record prompt_fragments =
  fr_prefix :: string
  fr_ellipsis :: string
  fr_suffix :: string

record messages_locale =
  resolved_name :: string
  prompt_locale :: prompt_locale

text \<open>The part before the first separator, or all of it.\<close>

definition head_of :: "byte \<Rightarrow> string \<Rightarrow> string" where
  "head_of sep s = (case split_once sep s of Some (head, tail) \<Rightarrow> head | None \<Rightarrow> s)"

definition locale_candidates :: "string \<Rightarrow> string list" where
  "locale_candidates name =
     (let no_codeset =
            (case split_once (CHR ''@'') (head_of (CHR ''.'') name) of
               Some (head, tail) \<Rightarrow> head | None \<Rightarrow> head_of (CHR ''.'') name)
      in [name, no_codeset, head_of (CHR ''_'') no_codeset])"

fun first_prompt_locale :: "string list \<Rightarrow> prompt_locale" where
  "first_prompt_locale [] = LocaleC"
| "first_prompt_locale (candidate # rest) =
     (if candidate = ''fr'' then LocaleFr
      else if candidate \<in> {''C'', ''POSIX''} then LocaleC
      else first_prompt_locale rest)"

definition prompt_locale_for :: "string \<Rightarrow> prompt_locale" where
  "prompt_locale_for name = first_prompt_locale (locale_candidates name)"

fun prompt_fragments_of :: "prompt_locale \<Rightarrow> prompt_fragments" where
  "prompt_fragments_of LocaleC = \<lparr>fr_prefix = ''< '', fr_ellipsis = '' ...'', fr_suffix = '' > ? ''\<rparr>"
| "prompt_fragments_of LocaleFr = \<lparr>fr_prefix = ''< '', fr_ellipsis = '' ...'', fr_suffix = '' > ? ''\<rparr>"

definition default_messages_locale :: messages_locale where
  "default_messages_locale = \<lparr>resolved_name = ''C'', prompt_locale = LocaleC\<rparr>"

definition render_prompt :: "os_string list \<Rightarrow> messages_locale \<Rightarrow> string" where
  "render_prompt argv loc =
     (let fragments = prompt_fragments_of (prompt_locale loc)
      in fr_prefix fragments
         @ (case argv of [] \<Rightarrow> [] | prog # _ \<Rightarrow> prog)
         @ (if length argv > 1 then fr_ellipsis fragments @ '' '' @ last argv else [])
         @ fr_suffix fragments)"

definition trim_reply_line :: "string \<Rightarrow> string" where
  "trim_reply_line bytes =
     (let bytes = (if bytes \<noteq> [] \<and> last bytes = CHR 0x0A then butlast bytes else bytes)
      in if bytes \<noteq> [] \<and> last bytes = CHR 0x0D then butlast bytes else bytes)"

datatype 'a confirm_outcome = Accepted 'a | Rejected

definition prompt_io_error :: "io_error \<Rightarrow> diagnostic" where
  "prompt_io_error e = diagnostic_new (''failed to use prompt session: '' @ io_text e) 1"

definition confirm_prepared ::
  "'w host \<Rightarrow> messages_locale \<Rightarrow> os_string list \<Rightarrow> prepared_exec_command \<Rightarrow>
   (prepared_exec_command \<Rightarrow> 'w \<Rightarrow> 'a result \<times> 'w) \<Rightarrow> 'w \<Rightarrow> 'a confirm_outcome result \<times> 'w" where
  "confirm_prepared host loc prompt_argv prepared run_confirmed w =
     then_io (io_err prompt_io_error (h_write_prompt host (render_prompt prompt_argv loc) w)) (\<lambda>_ w.
     then_io (io_err prompt_io_error (h_flush_prompt host w)) (\<lambda>_ w.
     then_io (io_err prompt_io_error (h_read_reply host w)) (\<lambda>reply w.
       if reply = [] \<or> \<not> h_affirmative host (trim_reply_line reply) then (Inr Rejected, w)
       else then_io (run_confirmed prepared w) (\<lambda>ok w. (Inr (Accepted ok), w)))))"

section \<open>Commands and deletion (exec/child.rs, exec/delete.rs)\<close>

definition missing_command :: diagnostic where
  "missing_command = diagnostic_new ''internal error: exec action missing command'' 1"

definition run_prepared_inherited ::
  "'w host \<Rightarrow> prepared_exec_command \<Rightarrow> 'w \<Rightarrow> bool result \<times> 'w" where
  "run_prepared_inherited host cmd w =
     (case cmd_argv cmd of
        [] \<Rightarrow> (Inl missing_command, w)
      | prog # args \<Rightarrow>
          (case h_command_status host prog args (cmd_cwd cmd) w of
             (Inr success, w) \<Rightarrow> (Inr success, w)
           | (Inl error, w) \<Rightarrow>
               then_io (io_err (\<lambda>e. failed_to_write ''stderr'' (io_text e))
                  (h_write_stderr host (''rfd: '' @ utf8_lossy prog @ '': '' @ io_text error @ [CHR 0x0A]) w))
                 (\<lambda>_ w. (Inr False, w))))"

definition run_immediate_ordered ::
  "'w host \<Rightarrow> immediate_exec_action \<Rightarrow> path \<Rightarrow> 'w \<Rightarrow> bool result \<times> 'w" where
  "run_immediate_ordered host spec p w = run_prepared_inherited host (build_immediate_command spec p) w"

definition delete_path :: "'w host \<Rightarrow> path \<Rightarrow> 'w \<Rightarrow> bool result \<times> 'w" where
  "delete_path host p w =
     then_io (io_err (path_error p) (h_symlink_is_dir host p w)) (\<lambda>is_dir w.
     then_io (io_err (path_error p) (if is_dir then h_remove_dir host p w else h_remove_file host p w))
       (\<lambda>_ w. (Inr True, w)))"

section \<open>The sink (exec/ordered.rs)\<close>

record 'w ordered_sink =
  os_batches :: "'w batch_sink"
  os_files :: nat
  os_locale :: messages_locale

definition sink_world :: "'w ordered_sink \<Rightarrow> 'w" where
  "sink_world s = world (os_batches s)"

definition set_world :: "'w \<Rightarrow> 'w ordered_sink \<Rightarrow> 'w ordered_sink" where
  "set_world w s = s\<lparr>os_batches := (os_batches s)\<lparr>world := w\<rparr>\<rparr>"

definition note_failure :: "'w ordered_sink \<Rightarrow> 'w ordered_sink" where
  "note_failure s = s\<lparr>os_batches := (os_batches s)\<lparr>had_failures := True\<rparr>\<rparr>"

text \<open>An operation on the world, run on the world of a sink.\<close>

definition on_world :: "('w \<Rightarrow> 'a \<times> 'w) \<Rightarrow> 'w ordered_sink \<Rightarrow> 'a \<times> 'w ordered_sink" where
  "on_world f s = (let (r, w) = f (sink_world s) in (r, set_world w s))"

text \<open>
  \<^verbatim>\<open>OrderedFileOutputs::open_all\<close>: the files are numbered in the order of the specs and the
  first failure stops.
\<close>

fun open_all :: "'w host \<Rightarrow> planned_file_output list \<Rightarrow> nat \<Rightarrow> 'w \<Rightarrow> nat result \<times> 'w" where
  "open_all host [] n w = (Inr n, w)"
| "open_all host (spec # specs) n w =
     then_io (io_err (path_error (output_path spec)) (h_open_file host n (output_path spec) w)) (\<lambda>_ w.
       open_all host specs (n + 1) w)"

definition with_prompt ::
  "'w host \<Rightarrow> nat \<Rightarrow> planned_file_output list \<Rightarrow> messages_locale \<Rightarrow> 'w \<Rightarrow> 'w ordered_sink result \<times> 'w" where
  "with_prompt host limit_bytes specs loc w =
     then_io (open_all host specs 0 w) (\<lambda>n w.
       (Inr \<lparr>os_batches = empty_sink limit_bytes w, os_files = n, os_locale = loc\<rparr>, w))"

definition write_diagnostic :: "'w host \<Rightarrow> string \<Rightarrow> 'w \<Rightarrow> unit result \<times> 'w" where
  "write_diagnostic host msg w =
     io_err (\<lambda>e. failed_to_write ''stderr'' (io_text e)) (h_write_stderr host (runtime_stderr_line msg) w)"

definition write_stdout_bytes :: "'w host \<Rightarrow> string \<Rightarrow> 'w \<Rightarrow> unit result \<times> 'w" where
  "write_stdout_bytes host bytes w =
     io_err (\<lambda>e. failed_to_write ''stdout'' (io_text e)) (h_write_stdout host bytes w)"

text \<open>\<^verbatim>\<open>self.files[id]\<close> panics when there is no such file.\<close>

definition write_record :: "'w host \<Rightarrow> nat \<Rightarrow> file_output_id \<Rightarrow> string \<Rightarrow> 'w \<Rightarrow> unit result \<times> 'w" where
  "write_record host files i bytes w =
     (if i < files
      then io_err (\<lambda>e. failed_to_write ''file output'' (io_text e)) (h_write_file host i bytes w)
      else (Inl (panic ''index out of bounds''), w))"

definition enqueue ::
  "'w host \<Rightarrow> batched_exec_action \<Rightarrow> path \<Rightarrow> 'w ordered_sink \<Rightarrow> runtime_status result \<times> 'w ordered_sink" where
  "enqueue host spec p s =
     (let (r, b) = ordered_enqueue (run_ready_batch (run_prepared_inherited host))
            (\<lambda>error. write_diagnostic host (''rfd: '' @ message error)) spec p (os_batches s)
      in (map_sum id (\<lambda>failed. if failed then action_failure_status else default_status) r,
          s\<lparr>os_batches := b\<rparr>))"

definition sink_flush :: "'w host \<Rightarrow> 'w ordered_sink \<Rightarrow> runtime_status result \<times> 'w ordered_sink" where
  "sink_flush host s =
     (let (r, b) = ordered_flush (run_ready_batch (run_prepared_inherited host)) (os_batches s)
      in (map_sum id (\<lambda>failed. if failed then action_failure_status else default_status) r,
          s\<lparr>os_batches := b\<rparr>))"

text \<open>An error of an action becomes a line on the error output and a failure of the action.\<close>

definition report_failure ::
  "'w host \<Rightarrow> diagnostic \<Rightarrow> 'w ordered_sink \<Rightarrow> outcome result \<times> 'w ordered_sink" where
  "report_failure host error s =
     then_io (on_world (write_diagnostic host (message error)) s) (\<lambda>_ s.
       (Inr (action_failure False), note_failure s))"

definition dispatch_rendered ::
  "'w host \<Rightarrow> rendered_action \<Rightarrow> 'w ordered_sink \<Rightarrow> outcome result \<times> 'w ordered_sink" where
  "dispatch_rendered host rendered s =
     then_io (on_world
        (case rendered of
           RenderedStdout bytes \<Rightarrow> write_stdout_bytes host bytes
         | RenderedFile destination bytes \<Rightarrow> write_record host (os_files s) destination bytes) s)
       (\<lambda>_ s. (Inr (outcome_new True), s))"

fun dispatch_action ::
  "'w host \<Rightarrow> runtime_action \<Rightarrow> entry \<Rightarrow> 'w ordered_sink \<Rightarrow> outcome result \<times> 'w ordered_sink" where
  "dispatch_action host RaQuit e s = (Inr outcome_quit, s)"
| "dispatch_action host (RaExecImmediate spec) e s =
     then_io (on_world (run_immediate_ordered host spec (entry_path e)) s) (\<lambda>ok s.
       (Inr (outcome_new ok), s))"
| "dispatch_action host (RaExecPrompt spec) e s =
     (let prompt_argv = render_prompt_argv spec (entry_path e);
          prepared = build_immediate_command spec (entry_path e)
      in case on_world (confirm_prepared host (os_locale s) prompt_argv prepared
                          (run_prepared_inherited host)) s of
           (Inr (Accepted True), s) \<Rightarrow> (Inr (outcome_new True), s)
         | (Inr (Accepted False), s) \<Rightarrow> (Inr (action_failure False), note_failure s)
         | (Inr Rejected, s) \<Rightarrow> (Inr (outcome_new False), s)
         | (Inl error, s) \<Rightarrow> report_failure host error s)"
| "dispatch_action host (RaExecBatched spec) e s =
     then_io (enqueue host spec (entry_path e) s) (\<lambda>status s.
       (Inr \<lparr>matched = True, status = status\<rparr>, s))"
| "dispatch_action host RaDelete e s =
     (case on_world (delete_path host (entry_path e)) s of
        (Inr result, s) \<Rightarrow> (Inr (outcome_new result), s)
      | (Inl error, s) \<Rightarrow> report_failure host error s)"
| "dispatch_action host _ e s =
     (Inl (panic ''rendered runtime action must have been handled already''), s)"

definition ordered_dispatch ::
  "'rx services \<Rightarrow> eval_context \<Rightarrow> 'w host \<Rightarrow> runtime_action \<Rightarrow> entry \<Rightarrow> follow_mode \<Rightarrow>
   'w ordered_sink \<Rightarrow> outcome result \<times> 'w ordered_sink" where
  "ordered_dispatch sv ctx host a e m s =
     (case render_action_output sv ctx a e m of
        Inl err \<Rightarrow> (Inl err, s)
      | Inr (Some rendered) \<Rightarrow> dispatch_rendered host rendered s
      | Inr None \<Rightarrow> dispatch_action host a e s)"

section \<open>The sink's contract\<close>

text \<open>
  A sink that also keeps a failure flag: dispatching sets it exactly when the outcome reports a
  failed action.
\<close>

locale failure_sink = action_sink dispatch inv
  for dispatch :: "'a \<Rightarrow> 'e \<Rightarrow> follow_mode \<Rightarrow> 's \<Rightarrow> outcome result \<times> 's" and inv :: "'s \<Rightarrow> bool" +
  fixes failed :: "'s \<Rightarrow> bool"
  assumes dispatch_failed:
    "inv s \<Longrightarrow> dispatch a e m s = (Inr out, s') \<Longrightarrow> failed s' \<longleftrightarrow> failed s \<or> had_action_failures (status out)"
begin

lemma then_eval_Inr:
  "then_eval r f = (Inr out, s) \<Longrightarrow> (\<And>o1 s1. r = (Inr o1, s1) \<Longrightarrow> f o1 s1 = (Inr out, s) \<Longrightarrow> P) \<Longrightarrow> P"
  by (cases r; cases "fst r") auto

lemma eval_failed:
  "inv s \<Longrightarrow> eval_ref ev dispatch x e m s = (Inr out, s') \<Longrightarrow>
     failed s' \<longleftrightarrow> failed s \<or> had_action_failures (status out)"
  "inv s \<Longrightarrow> had_action_failures acc \<longrightarrow> failed s \<Longrightarrow> eval_and ev dispatch xs acc e m s = (Inr out, s') \<Longrightarrow>
     (failed s' \<longleftrightarrow> failed s \<or> had_action_failures (status out)) \<and> (had_action_failures acc \<longrightarrow> had_action_failures (status out))"
proof (induction x and xs arbitrary: s out s' and s acc out s' rule: eval_weight_induct)
  case (And items)
  have "\<not> had_action_failures default_status" by (simp add: default_status_def)
  with And.IH [OF And.prems(1), of default_status out s'] And.prems(2) show ?case by simp
next
  case (Or l r)
  from Or.prems(2) show ?case
    apply simp
  proof (erule then_eval_Inr)
    fix lo :: outcome and s1
    assume l: "eval_ref ev dispatch l e m s = (Inr lo, s1)"
      and rest: "(if matched lo \<or> is_stop_requested (status lo) then (Inr lo, s1)
        else then_eval (eval_ref ev dispatch r e m s1)
          (\<lambda>ro s. (Inr \<lparr>matched = matched ro, status = merge (status lo) (status ro)\<rparr>, s))) = (Inr out, s')"
    have s1: "inv s1" using eval_inv(1) [OF Or.prems(1), of ev l e m] l by simp
    have fl: "failed s1 \<longleftrightarrow> failed s \<or> had_action_failures (status lo)" by (rule Or.IH(1) [OF Or.prems(1) l])
    show "failed s' \<longleftrightarrow> failed s \<or> had_action_failures (status out)"
    proof (cases "matched lo \<or> is_stop_requested (status lo)")
      case True
      then show ?thesis using rest fl by auto
    next
      case False
      then have "then_eval (eval_ref ev dispatch r e m s1)
          (\<lambda>ro s. (Inr \<lparr>matched = matched ro, status = merge (status lo) (status ro)\<rparr>, s)) = (Inr out, s')"
        using rest by simp
      then show ?thesis
      proof (rule then_eval_Inr)
        fix ro :: outcome and s2
        assume r: "eval_ref ev dispatch r e m s1 = (Inr ro, s2)"
          and out: "(Inr \<lparr>matched = matched ro, status = merge (status lo) (status ro)\<rparr>, s2) = (Inr out, s')"
        from Or.IH(2) [OF s1 r] out fl show ?thesis by auto
      qed
    qed
  qed
next
  case (Not x)
  from Not.prems(2) show ?case
    by simp (erule then_eval_Inr, use Not.IH [OF Not.prems(1)] in auto)
next
  case (Predicate p)
  then show ?case by (cases "ev p e m") (auto simp: outcome_new_def default_status_def)
next
  case (Action a)
  then show ?case using dispatch_failed by simp
next
  case Barrier
  then show ?case by (auto simp: outcome_new_def default_status_def)
next
  case Nil
  then show ?case by auto
next
  case (Cons x xs)
  from Cons.prems(3) have "then_eval (eval_ref ev dispatch x e m s) (\<lambda>out s.
       (let acc = merge acc (status out) in
        if \<not> matched out \<or> is_stop_requested acc
        then (Inr \<lparr>matched = matched out, status = acc\<rparr>, s)
        else eval_and ev dispatch xs acc e m s)) = (Inr out, s')" by simp
  then show ?case
  proof (rule then_eval_Inr)
    fix o1 :: outcome and s1
    let ?acc = "merge acc (status o1)"
    assume x: "eval_ref ev dispatch x e m s = (Inr o1, s1)"
      and rest: "(let acc = ?acc in
        if \<not> matched o1 \<or> is_stop_requested acc
        then (Inr \<lparr>matched = matched o1, status = acc\<rparr>, s1)
        else eval_and ev dispatch xs acc e m s1) = (Inr out, s')"
    have s1: "inv s1" using eval_inv(1) [OF Cons.prems(1), of ev x e m] x by simp
    have fx: "failed s1 \<longleftrightarrow> failed s \<or> had_action_failures (status o1)" by (rule Cons.IH(1) [OF Cons.prems(1) x])
    show ?thesis
    proof (cases "\<not> matched o1 \<or> is_stop_requested ?acc")
      case True
      then show ?thesis using rest fx Cons.prems(2) by (auto simp: Let_def)
    next
      case False
      then have "eval_and ev dispatch xs ?acc e m s1 = (Inr out, s')" using rest by (simp add: Let_def)
      from Cons.IH(2) [OF s1 _ this] fx Cons.prems(2) show ?thesis by auto
    qed
  qed
qed

lemma evaluate_failed:
  "inv s \<Longrightarrow> evaluate_outcome ev dispatch x e m s = (Inr out, s') \<Longrightarrow>
     failed s' \<longleftrightarrow> failed s \<or> had_action_failures (status out)"
  unfolding evaluate_outcome_ref by (rule eval_failed(1))

end

definition sink_inv :: "nat \<Rightarrow> nat \<Rightarrow> 'w ordered_sink \<Rightarrow> bool" where
  "sink_inv lim files s \<longleftrightarrow>
     bt_inv (pending (os_batches s)) \<and> batch_limit (os_batches s) = lim \<and> os_files s = files"

definition sink_failed :: "'w ordered_sink \<Rightarrow> bool" where
  "sink_failed s \<longleftrightarrow> had_failures (os_batches s)"

lemma run_in_sink_facts:
  "run_in_sink run rb s = (r, s') \<Longrightarrow> pending s' = pending s \<and> batch_limit s' = batch_limit s
     \<and> (case r of Inl err \<Rightarrow> True | Inr f \<Rightarrow> had_failures s' = (had_failures s \<or> f))"
  by (cases "run rb (world s)"; cases "fst (run rb (world s))")
    (auto simp: run_in_sink_def split: bool.splits)

lemma ordered_enqueue_facts:
  assumes "bt_inv (pending s)" "ordered_enqueue run report spec p s = (r, s')"
  shows "bt_inv (pending s') \<and> batch_limit s' = batch_limit s
     \<and> (case r of Inl err \<Rightarrow> True | Inr f \<Rightarrow> had_failures s' = (had_failures s \<or> f))"
proof -
  define key where "key = batch_key spec p"
  define b where "b = sink_entry spec key s"
  obtain ready b1 where pre: "(if pb_paths b \<noteq> [] \<and> would_overflow b p
      then (case take_ready b of (r, b') \<Rightarrow> (Some r, b')) else (None, b)) = (ready, b1)" by fastforce
  define s1 where "s1 = s\<lparr>pending := bt_insert key b1 (pending s)\<rparr>"
  obtain r1 s2 where run1: "(case ready of None \<Rightarrow> (Inr False, s1) | Some rb \<Rightarrow> run_in_sink run rb s1) = (r1, s2)"
    by fastforce
  have s2: "pending s2 = pending s1 \<and> batch_limit s2 = batch_limit s1
      \<and> (case r1 of Inl err \<Rightarrow> True | Inr f \<Rightarrow> had_failures s2 = (had_failures s1 \<or> f))"
    using run1 run_in_sink_facts [of run "the ready" s1 r1 s2] by (cases ready) auto
  obtain pushed b2 where push: "pending_push b1 p = (pushed, b2)" by fastforce
  define s3 where "s3 = s2\<lparr>pending := bt_insert key b2 (pending s2)\<rparr>"
  have inv: "bt_inv (pending s1)" "bt_inv (pending s2)" "bt_inv (pending s3)"
    using assms(1) s2 by (simp_all add: s1_def s3_def bt.inv_insert)
  have eq: "ordered_enqueue run report spec p s = (case r1 of
      Inl e \<Rightarrow> (Inl e, s2)
    | Inr failed1 \<Rightarrow> (case pushed of
        Inr (Some rb) \<Rightarrow> (case run_in_sink run rb s3 of
            (Inl e, s) \<Rightarrow> (Inl e, s) | (Inr failed2, s) \<Rightarrow> (Inr (failed1 \<or> failed2), s))
      | Inr None \<Rightarrow> (Inr failed1, s3)
      | Inl error \<Rightarrow> (case report error (world s3) of
            (Inl e, w) \<Rightarrow> (Inl e, s3\<lparr>world := w\<rparr>)
          | (Inr _, w) \<Rightarrow> (Inr True, s3\<lparr>world := w, had_failures := True\<rparr>))))"
    by (simp only: ordered_enqueue_def Let_def key_def [symmetric] b_def [symmetric] pre prod.case
        s1_def [symmetric] run1 push s3_def [symmetric])

  show ?thesis
  proof (cases r1)
    case (Inl e)
    then have "r = Inl e" "s' = s2" using assms(2) eq by simp_all
    then show ?thesis using inv s2 by (simp add: s1_def)
  next
    case r1: (Inr failed1)
    then have base: "had_failures s3 = (had_failures s \<or> failed1)" "batch_limit s3 = batch_limit s"
      using s2 by (simp_all add: s1_def s3_def)
    consider (error) error where "pushed = Inl error" | (none) "pushed = Inr None"
      | (batch) rb where "pushed = Inr (Some rb)"
      by (cases pushed; cases "projr pushed") auto
    then show ?thesis
    proof cases
      case error
      obtain rr w where rep: "report error (world s3) = (rr, w)" by fastforce
      then show ?thesis using assms(2) inv base by (cases rr) (auto simp: eq r1 error)
    next
      case none
      then show ?thesis using assms(2) inv base by (auto simp: eq r1)
    next
      case batch
      obtain rr s4 where again: "run_in_sink run rb s3 = (rr, s4)" by fastforce
      then show ?thesis
        using assms(2) inv base run_in_sink_facts [OF again] by (cases rr) (auto simp: eq r1 batch)
    qed
  qed
qed

lemma world_simps [simp]:
  "os_files (set_world w s) = os_files s" "os_locale (set_world w s) = os_locale s"
  "sink_inv lim n (set_world w s) = sink_inv lim n s" "sink_failed (set_world w s) = sink_failed s"
  "sink_inv lim n (note_failure s) = sink_inv lim n s" "sink_failed (note_failure s)"
  by (simp_all add: set_world_def note_failure_def sink_inv_def sink_failed_def)

lemma on_world_E:
  "on_world f s = (r, s') \<Longrightarrow> \<exists>w. s' = set_world w s"
  by (auto simp: on_world_def split: prod.splits)

text \<open>The effect of one dispatch on the invariant and on the flag.\<close>

definition sink_effect :: "nat \<Rightarrow> nat \<Rightarrow> 'w ordered_sink \<Rightarrow> outcome result \<times> 'w ordered_sink \<Rightarrow> bool" where
  "sink_effect lim n s r \<longleftrightarrow> sink_inv lim n (snd r)
     \<and> (case fst r of
          Inl err \<Rightarrow> True
        | Inr out \<Rightarrow> sink_failed (snd r) = (sink_failed s \<or> had_action_failures (status out)))"

lemma failures_simps [simp]:
  "\<not> had_action_failures default_status" "had_action_failures action_failure_status"
  "\<not> had_action_failures stop_requested_status"
  "\<not> had_action_failures (status (outcome_new b))" "had_action_failures (status (action_failure b))"
  "\<not> had_action_failures (status outcome_quit)"
  by (simp_all add: default_status_def action_failure_status_def stop_requested_status_def
      outcome_new_def action_failure_def outcome_quit_def)

lemma sink_effect_quiet:
  assumes "sink_inv lim n s"
  shows "sink_effect lim n s (then_io (on_world f s) (\<lambda>x s. (Inr (outcome_new (g x)), s)))"
proof -
  obtain r s1 where r: "on_world f s = (r, s1)" by fastforce
  then show ?thesis
    using on_world_E [OF r] assms by (cases r) (auto simp: sink_effect_def)
qed

lemma sink_effect_report:
  assumes "sink_inv lim n s"
  shows "sink_effect lim n s (report_failure host error s)"
proof -
  obtain r s1 where r: "on_world (write_diagnostic host (message error)) s = (r, s1)" by fastforce
  then show ?thesis
    using on_world_E [OF r] assms by (cases r) (auto simp: sink_effect_def report_failure_def)
qed

lemma sink_effect_step:
  "sink_inv lim n s \<Longrightarrow> sink_effect lim n (set_world w s) r \<longleftrightarrow> sink_effect lim n s r"
  by (simp add: sink_effect_def split: sum.split)

lemma enqueue_effect_on_sink:
  assumes "sink_inv lim n s" "enqueue host spec p s = (r, s')"
  shows "sink_inv lim n s'
     \<and> (case r of Inl err \<Rightarrow> True | Inr st \<Rightarrow> sink_failed s' = (sink_failed s \<or> had_action_failures st))"
proof -
  obtain q b where q: "ordered_enqueue (run_ready_batch (run_prepared_inherited host))
      (\<lambda>error. write_diagnostic host (''rfd: '' @ message error)) spec p (os_batches s) = (q, b)"
    by fastforce
  then have r: "r = map_sum id (\<lambda>failed. if failed then action_failure_status else default_status) q"
    "s' = s\<lparr>os_batches := b\<rparr>"
    using assms(2) by (simp_all only: enqueue_def q Let_def prod.case prod.inject)
  from ordered_enqueue_facts [OF _ q] assms(1) show ?thesis
    by (cases q) (auto simp: r sink_inv_def sink_failed_def)
qed

lemma dispatch_action_effect:
  assumes "sink_inv lim n s"
  shows "sink_effect lim n s (dispatch_action host a e s)"
proof (cases a)
  case (RaExecPrompt spec)
  let ?confirm = "on_world (confirm_prepared host (os_locale s) (render_prompt_argv spec (entry_path e))
      (build_immediate_command spec (entry_path e)) (run_prepared_inherited host)) s"
  obtain r s1 where r: "?confirm = (r, s1)" by fastforce
  from on_world_E [OF r] obtain w where w: "s1 = set_world w s" by blast
  show ?thesis
  proof (cases r)
    case (Inl error)
    have "sink_effect lim n s1 (report_failure host error s1)"
      by (rule sink_effect_report) (simp add: w assms)
    then show ?thesis using assms by (simp add: RaExecPrompt r Inl w sink_effect_step)
  next
    case (Inr answer)
    then show ?thesis
      using assms w
      by (cases answer rule: confirm_outcome.exhaust)
        (auto simp: RaExecPrompt r sink_effect_def split: bool.splits)
  qed
next
  case (RaExecBatched spec)
  obtain r s1 where r: "enqueue host spec (entry_path e) s = (r, s1)" by fastforce
  then show ?thesis
    using enqueue_effect_on_sink [OF assms r] by (cases r) (auto simp: RaExecBatched sink_effect_def)
next
  case RaDelete
  obtain r s1 where r: "on_world (delete_path host (entry_path e)) s = (r, s1)" by fastforce
  from on_world_E [OF r] obtain w where w: "s1 = set_world w s" by blast
  show ?thesis
  proof (cases r)
    case (Inl error)
    have "sink_effect lim n s1 (report_failure host error s1)"
      by (rule sink_effect_report) (simp add: w assms)
    then show ?thesis using assms by (simp add: RaDelete r Inl w sink_effect_step)
  qed (use assms w in \<open>auto simp: RaDelete r sink_effect_def\<close>)
qed (use assms in \<open>auto simp: sink_effect_def sink_effect_quiet [unfolded sink_effect_def]\<close>)

lemma ordered_dispatch_effect:
  "sink_inv lim n s \<Longrightarrow> sink_effect lim n s (ordered_dispatch sv ctx host a e m s)"
  using sink_effect_quiet [of lim n s _ "\<lambda>_. True"] dispatch_action_effect [of lim n s host a e]
  by (auto simp: ordered_dispatch_def dispatch_rendered_def split: sum.split option.split)
    (simp add: sink_effect_def)

interpretation os: failure_sink "ordered_dispatch sv ctx host" "sink_inv lim n" sink_failed
proof unfold_locales
  fix s :: "'b ordered_sink" and a e m
  assume inv: "sink_inv lim n s"
  show "sink_inv lim n (snd (ordered_dispatch sv ctx host a e m s))"
    using ordered_dispatch_effect [OF inv, of sv ctx host a e m] by (simp add: sink_effect_def)
next
  fix s :: "'b ordered_sink" and a e m out s'
  assume inv: "sink_inv lim n s" and "ordered_dispatch sv ctx host a e m s = (Inr out, s')"
  then show "sink_failed s' \<longleftrightarrow> sink_failed s \<or> had_action_failures (status out)"
    using ordered_dispatch_effect [OF inv, of sv ctx host a e m] by (simp add: sink_effect_def)
qed

text \<open>
  C22.  Failures of actions are accounted for: evaluating an entry against the ordered sink sets
  its failure flag exactly when the status of the outcome reports a failure, so the flag at the
  end says whether any action of the run failed; the pending batches, the limit and the open
  files stay well formed, also when the evaluation ends with an error.
\<close>

theorem ordered_sink_accounts_failures:
  assumes "sink_inv lim n s"
  shows "sink_inv lim n (snd (evaluate_outcome ev (ordered_dispatch sv ctx host) x e m s))
    \<and> (case evaluate_outcome ev (ordered_dispatch sv ctx host) x e m s of
         (Inl err, s') \<Rightarrow> True
       | (Inr out, s') \<Rightarrow> sink_failed s' = (sink_failed s \<or> had_action_failures (status out)))"
proof -
  let ?r = "evaluate_outcome ev (ordered_dispatch sv ctx host) x e m s"
  have "sink_inv lim n (snd ?r)" by (rule os.evaluate_inv [OF assms])
  moreover have "?r = (Inr out, s') \<Longrightarrow> sink_failed s' = (sink_failed s \<or> had_action_failures (status out))"
    for out s'
    by (rule os.evaluate_failed [OF assms])
  ultimately show ?thesis by (auto split: prod.split sum.split)
qed

text \<open>A host on which every operation succeeds; its world is the list of what was written.\<close>

definition quiet_host :: "string list host" where
  "quiet_host =
     \<lparr>h_write_stdout = (\<lambda>b w. (Inr (), w @ [b])), h_write_stderr = (\<lambda>b w. (Inr (), w @ [''2: '' @ b])),
      h_write_file = (\<lambda>i b w. (Inr (), w @ [b])), h_open_file = (\<lambda>i p w. (Inr (), w)),
      h_command_status = (\<lambda>prog args cwd w. (Inr False, w @ [prog])),
      h_write_prompt = (\<lambda>b w. (Inr (), w @ [b])), h_flush_prompt = (\<lambda>w. (Inr (), w)),
      h_read_reply = (\<lambda>w. (Inr ''y'', w)), h_affirmative = (\<lambda>reply. reply = ''y''),
      h_symlink_is_dir = (\<lambda>p w. (Inr False, w)), h_remove_dir = (\<lambda>p w. (Inr (), w)),
      h_remove_file = (\<lambda>p w. (Inl \<lparr>io_text = ''Permission denied'', raw_os_error = Some 13\<rparr>, w))\<rparr>"

definition fresh_sink :: "nat \<Rightarrow> nat \<Rightarrow> 'w \<Rightarrow> 'w ordered_sink" where
  "fresh_sink lim files w = \<lparr>os_batches = empty_sink lim w, os_files = files, os_locale = default_messages_locale\<rparr>"

lemma fresh_sink_inv [simp]: "sink_inv lim files (fresh_sink lim files w)" "\<not> sink_failed (fresh_sink lim files w)"
  by (simp_all add: sink_inv_def sink_failed_def fresh_sink_def empty_sink_def bt.inv_empty)

lemma ordered_sink_accounts_failures_witness:
  "sink_failed (snd (evaluate_outcome (evaluate_predicate (sample_services :: unit services) default_context)
      (ordered_dispatch (sample_services :: unit services) default_context quiet_host)
      (RAnd [RAction (RaOutput OutPrint), RAction RaDelete])
      (entry_new sample_reader ''a'' 0 True) Physical (fresh_sink 100 0 [])))"
proof -
  let ?r = "evaluate_outcome (evaluate_predicate (sample_services :: unit services) default_context)
      (ordered_dispatch (sample_services :: unit services) default_context quiet_host)
      (RAnd [RAction (RaOutput OutPrint), RAction RaDelete])
      (entry_new sample_reader ''a'' 0 True) Physical (fresh_sink 100 0 [])"
  have "\<exists>s'. ?r = (Inr (action_failure False), s')"
    by (simp add: evaluate_outcome_def begin_entry_eval_def resume_entry_eval_def ordered_dispatch_def
        dispatch_rendered_def on_world_def write_stdout_bytes_def io_err_def map_err_def quiet_host_def
        delete_path_def report_failure_def write_diagnostic_def outcome_new_def action_failure_def
        Let_def)
  then show ?thesis
    using ordered_sink_accounts_failures [of 100 0 "fresh_sink 100 0 []"
        "evaluate_predicate (sample_services :: unit services) default_context" "sample_services :: unit services" default_context quiet_host
        "RAnd [RAction (RaOutput OutPrint), RAction RaDelete]" "entry_new sample_reader ''a'' 0 True" Physical]
    by auto
qed

text \<open>A diagnostic that already starts with the program's name gets the name twice.\<close>

lemma prefixed_diagnostic_line:
  "write_diagnostic host (''rfd: '' @ msg) w =
     io_err (\<lambda>e. failed_to_write ''stderr'' (io_text e))
       (h_write_stderr host (''rfd: rfd: '' @ msg @ [CHR 0x0A]) w)"
  by (simp add: write_diagnostic_def runtime_stderr_line_def)

end
