(* ===== verification/Literal_Time.thy ===== *)
theory Literal_Time
  imports Eval
begin

text \<open>
  Literal times of \<^verbatim>\<open>-newermt\<close>: \<^verbatim>\<open>src/src/literal_time.rs\<close> (Unix), and the start of
  the local day of \<^verbatim>\<open>src/src/time.rs\<close>.  \<^verbatim>\<open>mktime\<close> is an argument: it gives the seconds
  and the normalised fields.
\<close>

section \<open>Data\<close>

datatype date_shape = Delimited | Compact

datatype date_time_separator = SepSpace | SepT

record parsed_date =
  pd_year :: int
  pd_month :: nat
  pd_day :: nat
  pd_shape :: date_shape

record parsed_clock =
  pc_hour :: nat
  pc_minute :: nat
  pc_second :: nat
  pc_nanos :: int
  pc_offset :: "int option"

record c_time =
  ct_year :: int
  ct_mon :: int
  ct_mday :: int
  ct_hour :: int
  ct_min :: int
  ct_sec :: int

type_synonym mktime = "c_time \<Rightarrow> int \<times> c_time"

definition unsupported_literal_time :: "string \<Rightarrow> diagnostic" where
  "unsupported_literal_time raw =
     diagnostic_new (''unsupported literal time format for `-newerXY`: `'' @ raw @ ''`'') 1"

definition all_ascii_digits :: "string \<Rightarrow> bool" where
  "all_ascii_digits s = list_all is_ascii_digit s"

text \<open>\<^verbatim>\<open>parse::<T>\<close> of digits; \<open>lim\<close> is the greatest value of the type.\<close>

definition i32_max :: nat where "i32_max = 2147483647"
definition u32_max :: nat where "u32_max = 4294967295"

definition parse_digits :: "nat \<Rightarrow> string \<Rightarrow> string \<Rightarrow> nat result" where
  "parse_digits lim raw original =
     (if raw = [] \<or> \<not> all_ascii_digits raw then Inl (unsupported_literal_time original)
      else if digits_val 10 0 raw > lim then Inl (unsupported_literal_time original)
      else Inr (digits_val 10 0 raw))"

definition is_leap_year_lt :: "int \<Rightarrow> bool" where
  "is_leap_year_lt year \<longleftrightarrow> (year mod 4 = 0 \<and> year mod 100 \<noteq> 0) \<or> year mod 400 = 0"

definition days_in_month_lt :: "int \<Rightarrow> nat \<Rightarrow> nat" where
  "days_in_month_lt year month =
     (if month \<in> {1, 3, 5, 7, 8, 10, 12} then 31
      else if month \<in> {4, 6, 9, 11} then 30
      else if month = 2 \<and> is_leap_year_lt year then 29
      else if month = 2 then 28
      else 0)"

definition ensure_valid_date :: "int \<Rightarrow> nat \<Rightarrow> nat \<Rightarrow> string \<Rightarrow> unit result" where
  "ensure_valid_date year month day original =
     (if \<not> (1 \<le> month \<and> month \<le> 12) then Inl (unsupported_literal_time original)
      else if day = 0 \<or> day > days_in_month_lt year month then Inl (unsupported_literal_time original)
      else Inr ())"

definition ensure_valid_time :: "nat \<Rightarrow> nat \<Rightarrow> nat \<Rightarrow> string \<Rightarrow> unit result" where
  "ensure_valid_time hour minute second original =
     (if hour > 23 \<or> minute > 59 \<or> second > 59 then Inl (unsupported_literal_time original) else Inr ())"

section \<open>Times\<close>

definition fixed_offset_timestamp ::
  "int \<Rightarrow> nat \<Rightarrow> nat \<Rightarrow> nat \<Rightarrow> nat \<Rightarrow> nat \<Rightarrow> int \<Rightarrow> timestamp result" where
  "fixed_offset_timestamp year month day hour minute second nsec =
     try_bind (ensure_valid_date year month day ''fixed-offset timestamp'') (\<lambda>_.
     try_bind (ensure_valid_time hour minute second ''fixed-offset timestamp'') (\<lambda>_.
       let days = days_from_civil year (int month) (int day);
           day_seconds = int hour * 3600 + int minute * 60 + int second
       in Inr (Timestamp (days * 86400 + day_seconds) nsec)))"

definition local_timestamp ::
  "mktime \<Rightarrow> int \<Rightarrow> nat \<Rightarrow> nat \<Rightarrow> nat \<Rightarrow> nat \<Rightarrow> nat \<Rightarrow> int \<Rightarrow> string \<Rightarrow> timestamp result" where
  "local_timestamp mk year month day hour minute second nsec original =
     try_bind (ensure_valid_date year month day original) (\<lambda>_.
     try_bind (ensure_valid_time hour minute second original) (\<lambda>_.
       let tm0 = \<lparr>ct_year = year - 1900, ct_mon = int month - 1, ct_mday = int day,
                   ct_hour = int hour, ct_min = int minute, ct_sec = int second\<rparr>;
           (secs, tm1) = mk tm0
       in if ct_sec tm1 \<noteq> int second \<or> ct_min tm1 \<noteq> int minute \<or> ct_hour tm1 \<noteq> int hour
             \<or> ct_mday tm1 \<noteq> int day \<or> ct_mon tm1 \<noteq> int month - 1 \<or> ct_year tm1 \<noteq> year - 1900
          then Inl (unsupported_literal_time original)
          else Inr (Timestamp secs nsec)))"

definition local_day_start :: "mktime \<Rightarrow> (int \<Rightarrow> full_tm option) \<Rightarrow> timestamp \<Rightarrow> timestamp result" where
  "local_day_start mk lt now =
     try_bind (ok_or (diagnostic_new ''failed to resolve local time for relative time matching'' 1)
                 (lt (seconds now))) (\<lambda>loc.
       let (day_start, tm1) = mk \<lparr>ct_year = tm_year loc, ct_mon = tm_mon loc, ct_mday = tm_mday loc,
                                  ct_hour = 0, ct_min = 0, ct_sec = 0\<rparr>
       in if day_start = - 1 then Inl (diagnostic_new ''failed to compute local day start'' 1)
          else Inr (Timestamp day_start 0))"

section \<open>Parsing\<close>

definition parse_fractional_nanos :: "string \<Rightarrow> string \<Rightarrow> int result" where
  "parse_fractional_nanos raw original =
     (if \<not> all_ascii_digits raw then Inl (unsupported_literal_time original)
      else (let ds = take (min (length raw) 9) raw;
                ds = ds @ replicate (9 - length ds) (CHR ''0'')
            in if digits_val 10 0 ds > i32_max then Inl (unsupported_literal_time original)
               else Inr (int (digits_val 10 0 ds))))"

text \<open>The nanoseconds of an optional fraction, and the split at the decimal point.\<close>

definition optional_nanos :: "string option \<Rightarrow> string \<Rightarrow> int result" where
  "optional_nanos frac original =
     (case frac of None \<Rightarrow> Inr 0 | Some f \<Rightarrow> parse_fractional_nanos f original)"

definition split_fraction :: "string \<Rightarrow> string \<Rightarrow> (string \<times> string option) result" where
  "split_fraction text original =
     (case split_once (CHR ''.'') text of
        Some (base, frac) \<Rightarrow>
          if frac \<noteq> [] then Inr (base, Some frac) else Inl (unsupported_literal_time original)
      | None \<Rightarrow> Inr (text, None))"

definition epoch_sign :: "string \<Rightarrow> bool \<times> string" where
  "epoch_sign raw =
     (case raw of
        c # rest \<Rightarrow> if c = CHR ''+'' then (False, rest) else if c = CHR ''-'' then (True, rest) else (False, raw)
      | [] \<Rightarrow> (False, raw))"

definition parse_epoch_seconds :: "string \<Rightarrow> string \<Rightarrow> timestamp result" where
  "parse_epoch_seconds raw original =
     (let (negative, body) = epoch_sign raw in
      try_bind (split_fraction body original) (\<lambda>(whole_part, frac_part).
        if whole_part = [] \<or> \<not> all_ascii_digits whole_part then Inl (unsupported_literal_time original)
        else
          try_bind (ok_or (unsupported_literal_time original) (parse_i64 whole_part)) (\<lambda>whole.
          try_bind (optional_nanos frac_part original) (\<lambda>ns.
            if \<not> negative then Inr (Timestamp whole ns)
            else if ns = 0 then Inr (Timestamp (- whole) 0)
            else Inr (Timestamp (- whole - 1) (1000000000 - ns))))))"

definition parse_date :: "string \<Rightarrow> string \<Rightarrow> parsed_date result" where
  "parse_date raw original =
     (if length raw = 10 \<and> raw ! 4 = CHR ''-'' \<and> raw ! 7 = CHR ''-'' then
        try_bind (parse_digits i32_max (take 4 raw) original) (\<lambda>year.
        try_bind (parse_digits u32_max (take 2 (drop 5 raw)) original) (\<lambda>month.
        try_bind (parse_digits u32_max (drop 8 raw) original) (\<lambda>day.
        try_bind (ensure_valid_date (int year) month day original) (\<lambda>_.
          Inr \<lparr>pd_year = int year, pd_month = month, pd_day = day, pd_shape = Delimited\<rparr>))))
      else if length raw = 8 \<and> all_ascii_digits raw then
        try_bind (parse_digits i32_max (take 4 raw) original) (\<lambda>year.
        try_bind (parse_digits u32_max (take 2 (drop 4 raw)) original) (\<lambda>month.
        try_bind (parse_digits u32_max (drop 6 raw) original) (\<lambda>day.
        try_bind (ensure_valid_date (int year) month day original) (\<lambda>_.
          Inr \<lparr>pd_year = int year, pd_month = month, pd_day = day, pd_shape = Compact\<rparr>))))
      else Inl (unsupported_literal_time original))"

definition split_date_time :: "string \<Rightarrow> (string \<times> date_time_separator \<times> string) result" where
  "split_date_time raw =
     (case split_once (CHR ''T'') raw of
        Some (date, time) \<Rightarrow> Inr (date, SepT, time)
      | None \<Rightarrow>
          (case split_once (CHR '' '') raw of
             Some (date, time) \<Rightarrow> Inr (date, SepSpace, time)
           | None \<Rightarrow> Inl (unsupported_literal_time raw)))"

definition parse_coloned_clock :: "string \<Rightarrow> string \<Rightarrow> (nat \<times> nat \<times> nat \<times> bool) result" where
  "parse_coloned_clock raw original =
     (let fields = split_on (CHR '':'') raw in
      case (slice_get fields 0, slice_get fields 1) of
        (Some hour, Some minute) \<Rightarrow>
          if length fields > 3 \<or> length hour \<noteq> 2 \<or> length minute \<noteq> 2
             \<or> (case slice_get fields 2 of None \<Rightarrow> False | Some second \<Rightarrow> length second \<noteq> 2)
          then Inl (unsupported_literal_time original)
          else
            try_bind (parse_digits u32_max hour original) (\<lambda>h.
            try_bind (parse_digits u32_max minute original) (\<lambda>mi.
            try_bind (case slice_get fields 2 of None \<Rightarrow> Inr 0
                      | Some second \<Rightarrow> parse_digits u32_max second original) (\<lambda>se.
              Inr (h, mi, se, slice_get fields 2 \<noteq> None))))
      | _ \<Rightarrow> Inl (unsupported_literal_time original))"

definition parse_compact_hhmm :: "string \<Rightarrow> string \<Rightarrow> (nat \<times> nat \<times> nat \<times> bool) result" where
  "parse_compact_hhmm raw original =
     (if length raw \<noteq> 4 \<or> \<not> all_ascii_digits raw then Inl (unsupported_literal_time original)
      else
        try_bind (parse_digits u32_max (take 2 raw) original) (\<lambda>h.
        try_bind (parse_digits u32_max (drop 2 raw) original) (\<lambda>mi. Inr (h, mi, 0, False))))"

text \<open>
  \<^verbatim>\<open>char_indices().skip(1)\<close>: the first character, of one byte or more, is not looked at; a
  sign is never inside a longer character.
\<close>

fun find_sign :: "nat \<Rightarrow> string \<Rightarrow> nat option" where
  "find_sign i [] = None"
| "find_sign i (c # s) = (if c = CHR ''+'' \<or> c = CHR ''-'' then Some i else find_sign (i + 1) s)"

definition find_offset_start :: "string \<Rightarrow> nat option" where
  "find_offset_start raw = find_sign 1 (drop 1 raw)"

text \<open>Slicing a \<^verbatim>\<open>str\<close> inside a character is a panic.\<close>

definition is_char_boundary :: "string \<Rightarrow> nat \<Rightarrow> bool" where
  "is_char_boundary s i \<longleftrightarrow>
     i = 0 \<or> i = length s \<or> (i < length s \<and> \<not> in_range 0x80 0xBF (s ! i))"

definition offset_fields :: "string \<Rightarrow> string \<Rightarrow> (string \<times> string) result" where
  "offset_fields body original =
     (if length body = 2 then Inr (body, ''00'')
      else if length body = 4 then
        (if is_char_boundary body 2 then Inr (take 2 body, drop 2 body)
         else Inl (panic ''byte index 2 is not a char boundary''))
      else if length body = 5 \<and> body ! 2 = CHR '':'' then Inr (take 2 body, drop 3 body)
      else Inl (unsupported_literal_time original))"

definition parse_offset :: "string \<Rightarrow> string \<Rightarrow> int result" where
  "parse_offset raw original =
     try_bind (ok_or (unsupported_literal_time original)
        (case raw of
           c # rest \<Rightarrow> if c = CHR ''+'' then Some 1 else if c = CHR ''-'' then Some (- 1) else None
         | [] \<Rightarrow> None)) (\<lambda>sign.
     try_bind (offset_fields (drop 1 raw) original) (\<lambda>(hours, minutes).
     try_bind (parse_digits i32_max hours original) (\<lambda>h.
     try_bind (parse_digits i32_max minutes original) (\<lambda>mi.
       if \<not> (h \<le> 23) \<or> \<not> (mi \<le> 59) then Inl (unsupported_literal_time original)
       else Inr (sign * (int h * 3600 + int mi * 60))))))"

definition split_zone_suffix :: "string \<Rightarrow> string \<Rightarrow> (string \<times> int option) result" where
  "split_zone_suffix raw original =
     (if raw \<noteq> [] \<and> last raw = CHR ''Z'' then Inr (butlast raw, Some 0)
      else (case find_offset_start raw of
              Some at_byte \<Rightarrow>
                try_bind (parse_offset (drop at_byte raw) original) (\<lambda>off. Inr (take at_byte raw, Some off))
            | None \<Rightarrow> Inr (raw, None)))"

definition parse_clock ::
  "string \<Rightarrow> string \<Rightarrow> date_shape \<Rightarrow> date_time_separator \<Rightarrow> parsed_clock result" where
  "parse_clock raw original shape separator =
     try_bind (split_zone_suffix raw original) (\<lambda>(clock_part, offset_seconds).
       let coloned = CHR '':'' \<in> set clock_part in
       if offset_seconds \<noteq> None \<and> \<not> (shape = Delimited \<and> coloned)
       then Inl (unsupported_literal_time original)
       else if shape = Delimited \<and> separator = SepT \<and> \<not> coloned
       then Inl (unsupported_literal_time original)
       else
         try_bind (split_fraction clock_part original) (\<lambda>(base, frac).
         try_bind (if coloned then parse_coloned_clock base original else parse_compact_hhmm base original)
           (\<lambda>(hour, minute, second, has_seconds).
           if frac \<noteq> None \<and> \<not> has_seconds then Inl (unsupported_literal_time original)
           else
             try_bind (optional_nanos frac original) (\<lambda>ns.
             try_bind (ensure_valid_time hour minute second original) (\<lambda>_.
               Inr \<lparr>pc_hour = hour, pc_minute = minute, pc_second = second, pc_nanos = ns,
                    pc_offset = offset_seconds\<rparr>)))))"

definition parse_date_only :: "mktime \<Rightarrow> string \<Rightarrow> timestamp result" where
  "parse_date_only mk raw =
     try_bind (parse_date raw raw) (\<lambda>date.
       local_timestamp mk (pd_year date) (pd_month date) (pd_day date) 0 0 0 0 raw)"

definition parse_date_time :: "mktime \<Rightarrow> string \<Rightarrow> timestamp result" where
  "parse_date_time mk raw =
     try_bind (split_date_time raw) (\<lambda>(date_part, separator, time_part).
     try_bind (parse_date date_part raw) (\<lambda>date.
     try_bind (parse_clock time_part raw (pd_shape date) separator) (\<lambda>clock.
       case pc_offset clock of
         Some off \<Rightarrow>
           try_bind (fixed_offset_timestamp (pd_year date) (pd_month date) (pd_day date)
               (pc_hour clock) (pc_minute clock) (pc_second clock) (pc_nanos clock)) (\<lambda>utc.
             Inr (Timestamp (seconds utc - off) (nanos utc)))
       | None \<Rightarrow>
           local_timestamp mk (pd_year date) (pd_month date) (pd_day date)
             (pc_hour clock) (pc_minute clock) (pc_second clock) (pc_nanos clock) raw)))"

definition parse_literal_time :: "mktime \<Rightarrow> os_string \<Rightarrow> timestamp result" where
  "parse_literal_time mk raw =
     (if \<not> is_utf8 raw then Inl (unsupported_literal_time (utf8_lossy raw))
      else (case raw of
              [] \<Rightarrow> parse_date_time mk raw
            | c # rest \<Rightarrow>
                if c = CHR ''@'' then parse_epoch_seconds rest raw
                else (case parse_date_only mk raw of
                        Inr t \<Rightarrow> Inr t
                      | Inl err \<Rightarrow> parse_date_time mk raw)))"

section \<open>Reference files (time.rs)\<close>

definition parse_current_timestamp_kind :: "string \<Rightarrow> byte \<Rightarrow> timestamp_kind result" where
  "parse_current_timestamp_kind flag c =
     (if c = CHR ''a'' then Inr KAccess
      else if c = CHR ''B'' then Inr KBirth
      else if c = CHR ''c'' then Inr KChange
      else if c = CHR ''m'' then Inr KModification
      else if c = CHR ''t'' then
        Inl (diagnostic_new (''invalid `-newerXY` current timestamp kind `t` in `'' @ flag @ ''`'') 1)
      else Inl (diagnostic_new (''invalid `-newerXY` current timestamp kind `'' @ char_from_u8 c @ ''`'') 1))"

definition reference_view :: "platform_reader \<Rightarrow> path \<Rightarrow> follow_mode \<Rightarrow> metadata_view io_result" where
  "reference_view rd p mode =
     (if mode = Physical then read_metadata_view rd p False
      else (case read_metadata_view rd p True of
              Inr v \<Rightarrow> Inr v
            | Inl e \<Rightarrow> read_metadata_view rd p False))"

definition reference_metadata_timestamp ::
  "platform_reader \<Rightarrow> path \<Rightarrow> follow_mode \<Rightarrow> timestamp_kind \<Rightarrow> timestamp result" where
  "reference_metadata_timestamp rd p mode kind =
     (case reference_view rd p mode of
        Inl e \<Rightarrow> Inl (path_error p e)
      | Inr v \<Rightarrow>
          (case kind of
             KAccess \<Rightarrow> Inr (view_atime v)
           | KBirth \<Rightarrow> ok_or (diagnostic_new (utf8_lossy p @ '': birth time is not available'') 1) (view_birth_time v)
           | KChange \<Rightarrow> Inr (view_ctime v)
           | KModification \<Rightarrow> Inr (view_mtime v)))"

text \<open>\<^verbatim>\<open>str::contains\<close> on a string.\<close>

definition str_contains :: "string \<Rightarrow> string \<Rightarrow> bool" where
  "str_contains needle s \<longleftrightarrow> split_once_str needle s \<noteq> None"

definition resolve_reference_timestamp ::
  "mktime \<Rightarrow> platform_reader \<Rightarrow> string \<Rightarrow> byte \<Rightarrow> os_string \<Rightarrow> follow_mode \<Rightarrow> timestamp result" where
  "resolve_reference_timestamp mk rd flag ref arg mode =
     (if ref = CHR ''a'' then reference_metadata_timestamp rd arg mode KAccess
      else if ref = CHR ''B'' then
        (case reference_metadata_timestamp rd arg mode KBirth of
           Inr t \<Rightarrow> Inr t
         | Inl err \<Rightarrow>
             Inl (if str_contains ''birth time is not available'' (message err)
                  then diagnostic_new (''reference birth time unavailable for `'' @ utf8_lossy arg
                         @ ''` in `'' @ flag @ ''`'') 1
                  else err))
      else if ref = CHR ''c'' then reference_metadata_timestamp rd arg mode KChange
      else if ref = CHR ''m'' then reference_metadata_timestamp rd arg mode KModification
      else if ref = CHR ''t'' then parse_literal_time mk arg
      else Inl (diagnostic_new (''invalid `-newerXY` reference timestamp kind `'' @ char_from_u8 ref @ ''`'') 1))"

definition resolve_reference_matcher ::
  "mktime \<Rightarrow> platform_reader \<Rightarrow> string \<Rightarrow> byte \<Rightarrow> byte \<Rightarrow> os_string \<Rightarrow> follow_mode \<Rightarrow> newer_matcher result" where
  "resolve_reference_matcher mk rd flag current reference arg mode =
     try_bind (parse_current_timestamp_kind flag current) (\<lambda>kind.
     try_bind (resolve_reference_timestamp mk rd flag reference arg mode) (\<lambda>t.
       Inr \<lparr>newer_current = kind, newer_reference = t\<rparr>))"

section \<open>Seconds since the epoch\<close>

text \<open>The digits of nanoseconds a fraction denotes: it is cut after nine digits.\<close>

definition nine_digits :: "string \<Rightarrow> string" where
  "nine_digits f = take 9 (f @ replicate 9 (CHR ''0''))"

lemma zero_is_digit [simp]: "is_ascii_digit (CHR ''0'')"
  by code_simp

lemma nine_digits_props:
  assumes "list_all is_ascii_digit f"
  shows "length (nine_digits f) = 9" "list_all is_ascii_digit (nine_digits f)"
    "dec_val (nine_digits f) < 1000000000"
proof -
  show l: "length (nine_digits f) = 9" by (simp add: nine_digits_def)
  show d: "list_all is_ascii_digit (nine_digits f)"
    using assms by (auto simp: nine_digits_def list_all_iff dest: in_set_takeD)
  show "dec_val (nine_digits f) < 1000000000"
    using dec_val_less [OF d] l by simp
qed

lemma parse_fractional_nanos_eq:
  assumes "list_all is_ascii_digit f"
  shows "parse_fractional_nanos f original = Inr (int (dec_val (nine_digits f)))"
proof -
  have eq: "take (min (length f) 9) f @ replicate (9 - length (take (min (length f) 9) f)) (CHR ''0'')
      = nine_digits f"
    by (simp add: nine_digits_def min_def)
  show ?thesis
    using assms nine_digits_props(3) [OF assms]
    by (simp add: parse_fractional_nanos_def all_ascii_digits_def Let_def eq [simplified] i32_max_def)
qed

definition sign_prefix :: "bool \<Rightarrow> string" where
  "sign_prefix neg = (if neg then ''-'' else '''')"

definition total_nanos :: "timestamp \<Rightarrow> int" where
  "total_nanos t = seconds t * 1000000000 + nanos t"

lemma parse_epoch_seconds_value:
  assumes "w \<noteq> []" "list_all is_ascii_digit w" "int (dec_val w) \<le> i64_max"
    "f \<noteq> []" "list_all is_ascii_digit f"
  shows "\<exists>t. parse_epoch_seconds (sign_prefix neg @ w @ ''.'' @ f) original = Inr t \<and>
     0 \<le> nanos t \<and> nanos t < 1000000000 \<and>
     total_nanos t = (if neg then - 1 else 1) * int (dec_val w * 1000000000 + dec_val (nine_digits f))"
proof -
  have sg: "epoch_sign (sign_prefix neg @ w @ ''.'' @ f) = (neg, w @ ''.'' @ f)"
    using assms(1,2) by (cases w) (auto simp: epoch_sign_def sign_prefix_def dest: digit_not_sign)
  have dot: "CHR ''.'' \<notin> set w"
    using assms(2) by (auto simp: list_all_iff is_ascii_digit_def in_range_def byte_val_def)
  have sp: "split_fraction (w @ ''.'' @ f) original = Inr (w, Some f)"
    using split_once_append [OF dot, of f] assms(4) by (simp add: split_fraction_def)
  have p: "parse_i64 w = Some (int (dec_val w))"
    using assms(1-3) by (simp add: parse_i64_digits checked_i64_def in_i64_def i64_min_def)
  note nd = nine_digits_props [OF assms(5)]
  have "parse_epoch_seconds (sign_prefix neg @ w @ ''.'' @ f) original =
      (if \<not> neg then Inr (Timestamp (int (dec_val w)) (int (dec_val (nine_digits f))))
       else if dec_val (nine_digits f) = 0 then Inr (Timestamp (- int (dec_val w)) 0)
       else Inr (Timestamp (- int (dec_val w) - 1) (1000000000 - int (dec_val (nine_digits f)))))"
    using assms(1,2)
    by (simp only: parse_epoch_seconds_def sg Let_def case_prod_conv sp try_bind_simps)
      (simp add: p all_ascii_digits_def optional_nanos_def parse_fractional_nanos_eq [OF assms(5)])
  then show ?thesis
    using nd(3) by (simp add: total_nanos_def algebra_simps)
qed

lemma digits_ascii: "list_all is_ascii_digit s \<Longrightarrow> list_all is_ascii s"
  by (auto simp: list_all_iff is_ascii_digit_is_ascii)

text \<open>
  \<^verbatim>\<open>-newermt @S\<close> takes the seconds since the epoch literally, with a sign and a fraction
  of which nine digits count: the resulting time, in nanoseconds, is exactly the signed
  decimal value, and its nanoseconds are normalised to \<open>[0, 10^9)\<close> also before the epoch
  (\<^verbatim>\<open>@-1.5\<close> is two seconds before the epoch plus half a second).
\<close>

theorem epoch_seconds_value:
  assumes "w \<noteq> []" "list_all is_ascii_digit w" "int (dec_val w) \<le> i64_max"
    "f \<noteq> []" "list_all is_ascii_digit f"
  shows "\<exists>t. parse_literal_time mk (''@'' @ sign_prefix neg @ w @ ''.'' @ f) = Inr t \<and>
     0 \<le> nanos t \<and> nanos t < 1000000000 \<and>
     total_nanos t = (if neg then - 1 else 1) * int (dec_val w * 1000000000 + dec_val (nine_digits f))"
proof -
  let ?raw = "''@'' @ sign_prefix neg @ w @ ''.'' @ f"
  have "list_all is_ascii ?raw"
    using assms(2,5) by (simp add: digits_ascii sign_prefix_def is_ascii_def byte_val_def)
  then have "is_utf8 ?raw" by (rule is_utf8_ascii)
  then have "parse_literal_time mk ?raw = parse_epoch_seconds (sign_prefix neg @ w @ ''.'' @ f) ?raw"
    by (simp add: parse_literal_time_def)
  with parse_epoch_seconds_value [OF assms, of neg ?raw] show ?thesis by simp
qed

definition no_mktime :: mktime where
  "no_mktime c = (- 1, c)"

lemma epoch_seconds_value_witness:
  "\<exists>t. parse_literal_time no_mktime (''@'' @ sign_prefix True @ ''1'' @ ''.'' @ ''5'') = Inr t \<and>
     0 \<le> nanos t \<and> nanos t < 1000000000 \<and>
     total_nanos t = (if True then - 1 else 1) *
       int (dec_val ''1'' * 1000000000 + dec_val (nine_digits ''5''))"
  by (rule epoch_seconds_value) code_simp+

section \<open>Dates with a zone\<close>

definition two_digits :: "nat \<Rightarrow> string" where
  "two_digits n = [digit_char (n div 10), digit_char (n mod 10)]"

definition four_digits :: "nat \<Rightarrow> string" where
  "four_digits n = two_digits (n div 100) @ two_digits (n mod 100)"

text \<open>\<^verbatim>\<open>YYYY-MM-DDThh:mm:ss+hh:mm\<close>.\<close>

definition zone_text :: "bool \<Rightarrow> nat \<Rightarrow> nat \<Rightarrow> string" where
  "zone_text west oh om = (if west then ''-'' else ''+'') @ two_digits oh @ '':'' @ two_digits om"

definition date_text :: "nat \<Rightarrow> nat \<Rightarrow> nat \<Rightarrow> string" where
  "date_text y mo d = four_digits y @ ''-'' @ two_digits mo @ ''-'' @ two_digits d"

definition clock_text :: "nat \<Rightarrow> nat \<Rightarrow> nat \<Rightarrow> string" where
  "clock_text h mi s = two_digits h @ '':'' @ two_digits mi @ '':'' @ two_digits s"

lemma two_digits_props:
  assumes "n < 100"
  shows "list_all is_ascii_digit (two_digits n)" "dec_val (two_digits n) = n" "length (two_digits n) = 2"
  using assms by (simp_all add: two_digits_def)

lemma four_digits_props:
  assumes "n < 10000"
  shows "list_all is_ascii_digit (four_digits n)" "dec_val (four_digits n) = n" "length (four_digits n) = 4"
  using assms by (simp_all add: four_digits_def two_digits_def)

lemma parse_digits_eq:
  "list_all is_ascii_digit s \<Longrightarrow> s \<noteq> [] \<Longrightarrow> dec_val s \<le> lim \<Longrightarrow> parse_digits lim s original = Inr (dec_val s)"
  by (simp add: parse_digits_def all_ascii_digits_def)

lemma parse_two_digits [simp]:
  assumes "n < 100" "99 \<le> lim"
  shows "parse_digits lim (two_digits n) original = Inr n"
  using parse_digits_eq [OF two_digits_props(1) [OF assms(1)], of lim original]
    two_digits_props [OF assms(1)] assms by (auto simp flip: length_greater_0_conv)

lemma parse_four_digits [simp]:
  assumes "n < 10000" "9999 \<le> lim"
  shows "parse_digits lim (four_digits n) original = Inr n"
  using parse_digits_eq [OF four_digits_props(1) [OF assms(1)], of lim original]
    four_digits_props [OF assms(1)] assms by (auto simp flip: length_greater_0_conv)

lemma parse_date_text:
  assumes "y < 10000" "1 \<le> mo" "mo \<le> 12" "1 \<le> d" "d \<le> days_in_month_lt (int y) mo"
  shows "parse_date (date_text y mo d) original =
     Inr \<lparr>pd_year = int y, pd_month = mo, pd_day = d, pd_shape = Delimited\<rparr>"
proof -
  have d: "d < 100" using assms(5) by (simp add: days_in_month_lt_def split: if_splits)
  have len: "length (date_text y mo d) = 10" by (simp add: date_text_def four_digits_def two_digits_def)
  have dash: "date_text y mo d ! 4 = CHR ''-''" "date_text y mo d ! 7 = CHR ''-''"
    by (simp_all add: date_text_def four_digits_def two_digits_def)
  have parts: "take 4 (date_text y mo d) = four_digits y" "take 2 (drop 5 (date_text y mo d)) = two_digits mo"
    "drop 8 (date_text y mo d) = two_digits d"
    by (simp_all add: date_text_def four_digits_def two_digits_def)
  show ?thesis
    using assms d
    by (simp add: parse_date_def len dash parts i32_max_def u32_max_def ensure_valid_date_def)
qed

lemma clock_two_fields:
  assumes "h < 100" "mi < 100" "s < 100"
  shows "split_on (CHR '':'') (clock_text h mi s) = [two_digits h, two_digits mi, two_digits s]"
proof -
  have "digit_char n \<noteq> CHR '':''" if "n < 10" for n
    using digit_char_props(1) [OF that] by (auto simp: is_ascii_digit_def in_range_def byte_val_def)
  then show ?thesis using assms by (simp add: clock_text_def two_digits_def)
qed

lemma digit_char_neq [simp]:
  assumes "n < 10"
  shows "digit_char n \<noteq> CHR ''+''" "digit_char n \<noteq> CHR ''-''" "digit_char n \<noteq> CHR '':''"
    "digit_char n \<noteq> CHR ''Z''" "digit_char n \<noteq> CHR ''.''" "digit_char n \<noteq> CHR ''T''"
    "digit_char n \<noteq> CHR '' ''" "digit_char n \<noteq> CHR ''@''"
  using digit_char_props(1) [OF assms] by (auto simp: is_ascii_digit_def in_range_def byte_val_def)

definition zone_seconds :: "bool \<Rightarrow> nat \<Rightarrow> nat \<Rightarrow> int" where
  "zone_seconds west oh om = (if west then - 1 else 1) * (int oh * 3600 + int om * 60)"

lemma parse_offset_zone:
  assumes "oh \<le> 23" "om \<le> 59"
  shows "parse_offset (zone_text west oh om) original = Inr (zone_seconds west oh om)"
proof -
  have "length (drop 1 (zone_text west oh om)) = 5" "drop 1 (zone_text west oh om) ! 2 = CHR '':''"
    "take 2 (drop 1 (zone_text west oh om)) = two_digits oh"
    "drop 3 (drop 1 (zone_text west oh om)) = two_digits om"
    by (simp_all add: zone_text_def two_digits_def)
  then have "offset_fields (drop 1 (zone_text west oh om)) original = Inr (two_digits oh, two_digits om)"
    by (simp only: offset_fields_def) simp
  then show ?thesis
    using assms by (simp only: parse_offset_def) (simp add: zone_text_def zone_seconds_def i32_max_def)
qed

lemma split_zone_clock:
  assumes "h < 100" "mi < 100" "s < 100" "oh \<le> 23" "om \<le> 59"
  shows "split_zone_suffix (clock_text h mi s @ zone_text west oh om) original =
     Inr (clock_text h mi s, Some (zone_seconds west oh om))"
proof -
  let ?raw = "clock_text h mi s @ zone_text west oh om"
  have l: "last ?raw \<noteq> CHR ''Z''" "?raw \<noteq> []"
    using assms by (simp_all add: zone_text_def two_digits_def)
  have o: "find_offset_start ?raw = Some 8"
    using assms by (simp add: find_offset_start_def clock_text_def zone_text_def two_digits_def)
  have len: "length (clock_text h mi s) = 8" by (simp add: clock_text_def two_digits_def)
  show ?thesis
    unfolding split_zone_suffix_def using l
    by (simp add: o len parse_offset_zone [OF assms(4,5)])
qed

lemma parse_clock_text:
  assumes "h \<le> 23" "mi \<le> 59" "s \<le> 59" "oh \<le> 23" "om \<le> 59"
  shows "parse_clock (clock_text h mi s @ zone_text west oh om) original Delimited sep =
     Inr \<lparr>pc_hour = h, pc_minute = mi, pc_second = s, pc_nanos = 0,
          pc_offset = Some (zone_seconds west oh om)\<rparr>"
proof -
  have colon: "CHR '':'' \<in> set (clock_text h mi s)" by (simp add: clock_text_def)
  have "CHR ''.'' \<notin> set (clock_text h mi s)"
    using assms by (simp add: clock_text_def two_digits_def eq_commute [of "CHR ''.''"])
  then have frac: "split_fraction (clock_text h mi s) original = Inr (clock_text h mi s, None)"
    by (simp add: split_fraction_def iffD2 [OF split_once_None])
  have cc: "parse_coloned_clock (clock_text h mi s) original = Inr (h, mi, s, True)"
    using assms clock_two_fields [of h mi s] two_digits_props(3)
    by (simp add: parse_coloned_clock_def slice_get_def u32_max_def)
  show ?thesis
    unfolding parse_clock_def
    using assms by (simp add: split_zone_clock colon frac cc optional_nanos_def ensure_valid_time_def)
qed

lemma parse_literal_time_plain:
  assumes "is_utf8 raw" "raw = c # rest" "c \<noteq> CHR ''@''"
    "parse_date raw raw = Inl err"
  shows "parse_literal_time mk raw = parse_date_time mk raw"
  using assms by (simp add: parse_literal_time_def parse_date_only_def del: is_utf8.simps)

text \<open>
  C34.  A date, a clock and a numeric zone written as \<^verbatim>\<open>YYYY-MM-DDThh:mm:ss+hh:mm\<close> (or with
  a space for the \<^verbatim>\<open>T\<close>) are read back: for every calendar date of the years 0 to 9999, every
  time of the day and every offset of less than a day the result is the day number of the
  date times 86400 plus the seconds of the clock less the offset, and the local time zone is
  not asked.
\<close>

theorem zoned_date_time_roundtrip:
  assumes "y < 10000" "1 \<le> mo" "mo \<le> 12" "1 \<le> d" "d \<le> days_in_month_lt (int y) mo"
    "h \<le> 23" "mi \<le> 59" "s \<le> 59" "oh \<le> 23" "om \<le> 59" "sep = CHR ''T'' \<or> sep = CHR '' ''"
  shows "parse_literal_time mk (date_text y mo d @ [sep] @ clock_text h mi s @ zone_text west oh om) =
     Inr (Timestamp (days_from_civil (int y) (int mo) (int d) * 86400
            + int (h * 3600 + mi * 60 + s) - zone_seconds west oh om) 0)"
proof -
  let ?date = "date_text y mo d" let ?time = "clock_text h mi s @ zone_text west oh om"
  let ?raw = "?date @ [sep] @ ?time"
  have d: "d < 100" using assms(5) by (simp add: days_in_month_lt_def split: if_splits)
  have asc: "list_all is_ascii ?raw"
    using assms d
    by (auto simp: date_text_def clock_text_def zone_text_def digits_ascii two_digits_props(1)
        four_digits_props(1) is_ascii_def byte_val_def)
  have len: "length ?raw = 25"
    by (simp add: date_text_def clock_text_def zone_text_def four_digits_def two_digits_def)
  have sepd: "?raw ! 10 = sep"
    by (simp add: date_text_def four_digits_def two_digits_def)
  have "CHR ''T'' \<notin> set ?date" "CHR '' '' \<notin> set ?date" "CHR ''T'' \<notin> set ?time" "CHR '' '' \<notin> set ?time"
    using assms d
    by (simp_all add: date_text_def clock_text_def zone_text_def four_digits_def two_digits_def
        eq_commute [of "CHR ''T''"] eq_commute [of "CHR '' ''"])
  then have "\<exists>st. split_date_time ?raw = Inr (?date, st, ?time)"
    using assms(11) split_once_append [of sep ?date ?time]
    by (auto simp: split_date_time_def iffD2 [OF split_once_None])
  then obtain st where sp: "split_date_time ?raw = Inr (?date, st, ?time)" ..
  obtain c rest where c: "?raw = c # rest" "c \<noteq> CHR ''@''"
    using assms(1) by (simp add: date_text_def four_digits_def two_digits_def)
  have "parse_date ?raw ?raw = Inl (unsupported_literal_time ?raw)"
    by (simp only: parse_date_def len) simp
  then have "parse_literal_time mk ?raw = parse_date_time mk ?raw"
    by (rule parse_literal_time_plain [OF is_utf8_ascii [OF asc] c])
  also have "parse_date_time mk ?raw =
      Inr (Timestamp (days_from_civil (int y) (int mo) (int d) * 86400
            + int (h * 3600 + mi * 60 + s) - zone_seconds west oh om) 0)"
    unfolding parse_date_time_def sp
    using assms
    by (simp add: parse_date_text parse_clock_text fixed_offset_timestamp_def ensure_valid_date_def
        ensure_valid_time_def Let_def)
  finally show ?thesis by simp
qed

lemma zoned_date_time_roundtrip_witness:
  "parse_literal_time no_mktime
     (date_text 2024 2 29 @ [CHR ''T''] @ clock_text 23 59 58 @ zone_text True 5 30) =
   Inr (Timestamp (days_from_civil (int 2024) (int 2) (int 29) * 86400
          + int (23 * 3600 + 59 * 60 + 58) - zone_seconds True 5 30) 0)"
  by (rule zoned_date_time_roundtrip) (simp_all add: days_in_month_lt_def is_leap_year_lt_def)

text \<open>
  A four-byte offset is cut after its second byte; when a character stands there the slice is
  a panic.
\<close>

lemma offset_slice_panics:
  "parse_literal_time mk (''2024-01-01T00:00+a'' @ [CHR 0xC3, CHR 0xA9] @ ''b'') =
     Inl (panic ''byte index 2 is not a char boundary'')"
proof -
  let ?time = "''00:00+a'' @ [CHR 0xC3, CHR 0xA9] @ ''b''"
  let ?raw = "''2024-01-01T'' @ ?time"
  have "parse_literal_time mk ?raw = parse_date_time mk ?raw"
  proof (rule parse_literal_time_plain)
    show "is_utf8 ?raw" by (simp add: utf8_step_def Let_def in_range_def byte_val_def byte_at_def)
    show "?raw = CHR ''2'' # ''024-01-01T'' @ ?time" by simp
    show "parse_date ?raw ?raw = Inl (unsupported_literal_time ?raw)"
      by (simp add: parse_date_def)
  qed simp
  also have "\<dots> = Inl (panic ''byte index 2 is not a char boundary'')"
  proof -
    have "split_date_time ?raw = Inr (''2024-01-01'', SepT, ?time)" by code_simp
    moreover have "parse_date ''2024-01-01'' ?raw =
        Inr \<lparr>pd_year = 2024, pd_month = 1, pd_day = 1, pd_shape = Delimited\<rparr>"
    proof -
      have "''2024-01-01'' = date_text 2024 1 1" by code_simp
      then show ?thesis using parse_date_text [of 2024 1 1 ?raw] by (simp add: days_in_month_lt_def)
    qed
    moreover have "parse_clock ?time ?raw Delimited SepT =
        Inl (panic ''byte index 2 is not a char boundary'')"
    proof -
      have "offset_fields (''a'' @ [CHR 0xC3, CHR 0xA9] @ ''b'') ?raw =
          Inl (panic ''byte index 2 is not a char boundary'')"
        by (simp add: offset_fields_def is_char_boundary_def in_range_def byte_val_def)
      then show ?thesis
        by (simp add: parse_clock_def split_zone_suffix_def find_offset_start_def parse_offset_def)
    qed
    ultimately show ?thesis
      by (simp only: parse_date_time_def try_bind_simps case_prod_conv parsed_date.simps)
  qed
  finally show ?thesis by simp
qed

end
