(* ===== verification/Regex_Gnu.thy ===== *)
theory Regex_Gnu
  imports Eval
begin

text \<open>
  Regular expressions: the dialects and the compiler of \<^verbatim>\<open>src/src/regex_match/\<close>.  The GNU
  dialects are lexed, parsed and written out again in the syntax of the engine; the engines
  themselves (the \<^verbatim>\<open>regex\<close> and \<^verbatim>\<open>pcre2\<close> crates) are arguments.  The lexer works on the rest
  of the pattern, the parser on the rest of the tokens.
\<close>

section \<open>Data (mod.rs, ir.rs, backend.rs)\<close>

datatype regex_dialect = Emacs | PosixExtended | PosixBasic | DialectRust | DialectPcre2

datatype repetition_kind = ZeroOrMore | OneOrMore | ZeroOrOne | Bounded u32 "u32 option"

datatype anchor_kind = AnchorStart | AnchorEnd

datatype assertion_kind =
  WordBoundary | NotWordBoundary | WordStart | WordEnd | BufferStart | BufferEnd

datatype gnu_class_item = CiByte byte | CiRange byte byte | CiPosix string

record class_expr =
  class_negated :: bool
  class_items :: "gnu_class_item list"

type_synonym u16 = "16 word"

datatype (plugins only: code size) gnu_expr =
    GEmpty
  | GnuLiteral byte
  | GDot
  | GConcat "gnu_expr list"
  | GAlternation "gnu_expr list"
  | GGroup u16 gnu_expr
  | GClass class_expr
  | GRepeat gnu_expr repetition_kind
  | GAnchor anchor_kind
  | GBackreference u16
  | GAssertion assertion_kind
  | GWordByteClass bool

record gnu_regex =
  gnu_root :: gnu_expr
  capture_count :: u16

datatype (plugins only: code size) gnu_token =
    TLiteral byte
  | TDot
  | TAnchor anchor_kind
  | TClass class_expr
  | TGroupOpen
  | TGroupClose
  | TAlternation
  | TQuantifier repetition_kind
  | TBackreference u16
  | TAssertion assertion_kind
  | TWordByteClass bool

datatype regex_backend = BackendRust | BackendPcre2

definition dialect_parse :: "os_string \<Rightarrow> regex_dialect result" where
  "dialect_parse val =
     (if \<not> is_utf8 val then
        Inl (diagnostic_new (''invalid UTF-8 `-regextype` value; supported values: ''
               @ ''emacs, posix-extended, posix-basic, rust, pcre2'') 1)
      else if val = ''emacs'' then Inr Emacs
      else if val = ''posix-extended'' then Inr PosixExtended
      else if val = ''posix-basic'' then Inr PosixBasic
      else if val = ''rust'' then Inr DialectRust
      else if val = ''pcre2'' then Inr DialectPcre2
      else Inl (diagnostic_new (''unsupported `-regextype` value `'' @ val
             @ ''`; supported values: emacs, posix-extended, posix-basic, rust, pcre2'') 1))"

fun dialect_label :: "regex_dialect \<Rightarrow> string" where
  "dialect_label Emacs = ''emacs''"
| "dialect_label PosixExtended = ''posix-extended''"
| "dialect_label PosixBasic = ''posix-basic''"
| "dialect_label DialectRust = ''rust''"
| "dialect_label DialectPcre2 = ''pcre2''"

definition unsupported_construct :: "string \<Rightarrow> regex_dialect \<Rightarrow> string \<Rightarrow> diagnostic" where
  "unsupported_construct flag dialect reason =
     diagnostic_new (''unsupported construct in '' @ dialect_label dialect @ '' regex for `'' @ flag
       @ ''`: '' @ reason) 1"

definition malformed_regex :: "string \<Rightarrow> regex_dialect \<Rightarrow> string \<Rightarrow> diagnostic" where
  "malformed_regex flag dialect reason =
     diagnostic_new (''malformed '' @ dialect_label dialect @ '' regex for `'' @ flag @ ''`: '' @ reason) 1"

section \<open>Writing bytes\<close>

definition printable :: "byte \<Rightarrow> bool" where
  "printable c = in_range 0x20 0x7E c"

definition hex_digit_upper :: "nat \<Rightarrow> byte" where
  "hex_digit_upper d = (if d < 10 then digit_char d else char_of (55 + d))"

definition push_hex_byte :: "byte \<Rightarrow> string" where
  "push_hex_byte c =
     [CHR 0x5C, CHR ''x'', hex_digit_upper (byte_val c div 16), hex_digit_upper (byte_val c mod 16)]"

definition escaped_display :: "byte \<Rightarrow> string" where
  "escaped_display c = (if printable c then [CHR 0x5C, c] else push_hex_byte c)"

section \<open>The lexer (gnu.rs)\<close>

definition canonical_posix_class :: "string \<Rightarrow> regex_dialect \<Rightarrow> string \<Rightarrow> string result" where
  "canonical_posix_class flag dialect name =
     (if name \<in> set [''alnum'', ''alpha'', ''blank'', ''cntrl'', ''digit'', ''graph'', ''lower'', ''print'',
           ''punct'', ''space'', ''upper'', ''xdigit'']
      then Inr name
      else Inl (unsupported_construct flag dialect
             (''unsupported POSIX character class `[:'' @ name @ '':]`'')))"

fun take_posix_class_name ::
  "string \<Rightarrow> regex_dialect \<Rightarrow> string \<Rightarrow> string \<Rightarrow> (string \<times> string) result" where
  "take_posix_class_name flag dialect name (c1 # c2 # rest) =
     (if c1 = CHR '':'' \<and> c2 = CHR '']'' then
        (if \<not> is_utf8 name
         then Inl (unsupported_construct flag dialect ''unsupported POSIX character class'')
         else try_bind (canonical_posix_class flag dialect name) (\<lambda>name. Inr (name, rest)))
      else if \<not> is_ascii c1
      then Inl (unsupported_construct flag dialect ''unsupported POSIX character class'')
      else take_posix_class_name flag dialect (name @ [c1]) (c2 # rest))"
| "take_posix_class_name flag dialect name _ =
     Inl (malformed_regex flag dialect ''unterminated POSIX character class'')"

fun lex_class_item :: "string \<Rightarrow> regex_dialect \<Rightarrow> string \<Rightarrow> (gnu_class_item \<times> string) result" where
  "lex_class_item flag dialect [] =
     Inl (malformed_regex flag dialect ''unterminated bracket expression'')"
| "lex_class_item flag dialect (c # s) =
     (if c = CHR ''['' then
        (case s of
           [] \<Rightarrow> Inr (CiByte (CHR ''[''), s)
         | c1 # s1 \<Rightarrow>
             if c1 = CHR '':'' then
               try_bind (take_posix_class_name flag dialect [] s1) (\<lambda>(name, s2). Inr (CiPosix name, s2))
             else if c1 = CHR ''.'' then
               Inl (unsupported_construct flag dialect ''POSIX collating symbols are out of scope'')
             else if c1 = CHR ''='' then
               Inl (unsupported_construct flag dialect ''POSIX equivalence classes are out of scope'')
             else Inr (CiByte (CHR ''[''), s))
      else Inr (CiByte c, s))"

lemma take_posix_class_name_shorter:
  "take_posix_class_name flag dialect name s = Inr (n, s') \<Longrightarrow> length s' < length s"
  by (induction flag dialect name s rule: take_posix_class_name.induct)
    (fastforce simp: result_simps split: if_splits)+

lemma lex_class_item_shorter:
  "lex_class_item flag dialect s = Inr (item, s') \<Longrightarrow> length s' < length s"
  by (cases s) (fastforce simp: result_simps dest: take_posix_class_name_shorter
      split: if_splits list.splits)+

text \<open>The range that ends an item followed by \<open>-\<close>; other items around a \<open>-\<close> are kept as they are.\<close>

fun join_range :: "string \<Rightarrow> regex_dialect \<Rightarrow> gnu_class_item \<Rightarrow> gnu_class_item \<Rightarrow> gnu_class_item list result" where
  "join_range flag dialect (CiByte a) (CiByte b) =
     (if byte_val a > byte_val b
      then Inl (malformed_regex flag dialect ''invalid range in bracket expression'')
      else Inr [CiRange a b])"
| "join_range flag dialect a b = Inr [a, CiByte (CHR ''-''), b]"

function class_items_loop ::
  "string \<Rightarrow> regex_dialect \<Rightarrow> gnu_class_item list \<Rightarrow> string \<Rightarrow> (gnu_class_item list \<times> string) result" where
  "class_items_loop flag dialect items [] =
     Inl (malformed_regex flag dialect ''unterminated bracket expression'')"
| "class_items_loop flag dialect items (c # s) =
     (if c = CHR '']'' then Inr (items, s)
      else
        try_bind (lex_class_item flag dialect (c # s)) (\<lambda>(item, s1).
          if item = CiByte (CHR ''-'') \<and> items \<noteq> [] \<and> slice_get s1 0 \<noteq> Some (CHR '']'') then
            try_bind (lex_class_item flag dialect s1) (\<lambda>(end_item, s2).
            try_bind (join_range flag dialect (last items) end_item) (\<lambda>joined.
              class_items_loop flag dialect (butlast items @ joined) s2))
          else class_items_loop flag dialect (items @ [item]) s1))"
  by pat_completeness auto
termination
  by (relation "measure (\<lambda>(flag, dialect, items, s). length s)")
    (fastforce dest: lex_class_item_shorter)+

definition strip_byte :: "byte \<Rightarrow> string \<Rightarrow> string option" where
  "strip_byte c s = (case s of c' # rest \<Rightarrow> if c' = c then Some rest else None | [] \<Rightarrow> None)"

definition lex_class :: "string \<Rightarrow> regex_dialect \<Rightarrow> string \<Rightarrow> (class_expr \<times> string) result" where
  "lex_class flag dialect s =
     (let (negated, s) = (case strip_byte (CHR ''^'') s of Some rest \<Rightarrow> (True, rest) | None \<Rightarrow> (False, s));
          (items, s) =
            (case strip_byte (CHR '']'') s of Some rest \<Rightarrow> ([CiByte (CHR '']'')], rest) | None \<Rightarrow> ([], s))
      in try_bind (class_items_loop flag dialect items s) (\<lambda>(items, s).
           Inr (\<lparr>class_negated = negated, class_items = items\<rparr>, s)))"

definition repetition_bound :: "diagnostic \<Rightarrow> string \<Rightarrow> u32 result" where
  "repetition_bound invalid s = ok_or invalid (parse_uint s)"

definition parse_repetition_body :: "string \<Rightarrow> regex_dialect \<Rightarrow> string \<Rightarrow> repetition_kind result" where
  "parse_repetition_body flag dialect body =
     (let invalid = malformed_regex flag dialect ''malformed bounded repetition'' in
      case split_once (CHR '','') body of
        Some (left, right) \<Rightarrow>
          if \<not> list_all is_ascii_digit left \<or> \<not> list_all is_ascii_digit right then Inl invalid
          else
            try_bind (if left = [] then Inr 0 else repetition_bound invalid left) (\<lambda>lo.
            try_bind (if right = [] then Inr None
                      else try_bind (repetition_bound invalid right) (\<lambda>hi. Inr (Some hi))) (\<lambda>hi.
              Inr (Bounded lo hi)))
      | None \<Rightarrow>
          if body \<noteq> [] \<and> list_all is_ascii_digit body then
            try_bind (repetition_bound invalid body) (\<lambda>exact. Inr (Bounded exact (Some exact)))
          else Inl invalid)"

definition bound_body :: "string \<Rightarrow> regex_dialect \<Rightarrow> string \<Rightarrow> repetition_kind result" where
  "bound_body flag dialect body =
     (if \<not> is_utf8 body then Inl (malformed_regex flag dialect ''malformed bounded repetition'')
      else parse_repetition_body flag dialect body)"

fun lex_extended_bound ::
  "string \<Rightarrow> regex_dialect \<Rightarrow> string \<Rightarrow> string \<Rightarrow> (repetition_kind \<times> string) result" where
  "lex_extended_bound flag dialect body [] =
     Inl (malformed_regex flag dialect ''unterminated bounded repetition'')"
| "lex_extended_bound flag dialect body (c # s) =
     (if c = CHR ''}'' then try_bind (bound_body flag dialect body) (\<lambda>kind. Inr (kind, s))
      else lex_extended_bound flag dialect (body @ [c]) s)"

fun lex_basic_bound ::
  "string \<Rightarrow> regex_dialect \<Rightarrow> string \<Rightarrow> string \<Rightarrow> (repetition_kind \<times> string) result" where
  "lex_basic_bound flag dialect body (c1 # c2 # s) =
     (if c1 = CHR 0x5C \<and> c2 = CHR ''}'' then
        try_bind (bound_body flag dialect body) (\<lambda>kind. Inr (kind, s))
      else lex_basic_bound flag dialect (body @ [c1]) (c2 # s))"
| "lex_basic_bound flag dialect body _ =
     Inl (malformed_regex flag dialect ''unterminated bounded repetition'')"

definition backreference_digit :: "byte \<Rightarrow> bool" where
  "backreference_digit c = in_range 49 57 c"

definition backreference_token :: "byte \<Rightarrow> gnu_token" where
  "backreference_token c = TBackreference (of_nat (digit_val c))"

text \<open>The word and buffer operators, the same in both POSIX dialects.\<close>

definition operator_escape :: "byte \<Rightarrow> gnu_token option" where
  "operator_escape c =
     (if c = CHR ''w'' then Some (TWordByteClass False)
      else if c = CHR ''W'' then Some (TWordByteClass True)
      else if c = CHR ''b'' then Some (TAssertion WordBoundary)
      else if c = CHR ''B'' then Some (TAssertion NotWordBoundary)
      else if c = CHR ''<'' then Some (TAssertion WordStart)
      else if c = CHR ''>'' then Some (TAssertion WordEnd)
      else if c = CHR 0x60 then Some (TAssertion BufferStart)
      else if c = CHR 0x27 then Some (TAssertion BufferEnd)
      else None)"

definition unsupported_escape :: "string \<Rightarrow> regex_dialect \<Rightarrow> byte \<Rightarrow> diagnostic" where
  "unsupported_escape flag dialect c =
     unsupported_construct flag dialect (''unsupported escape `'' @ escaped_display c @ ''`'')"

definition lex_extended_escape :: "string \<Rightarrow> regex_dialect \<Rightarrow> string \<Rightarrow> (gnu_token \<times> string) result" where
  "lex_extended_escape flag dialect s =
     (case s of
        [] \<Rightarrow> Inl (malformed_regex flag dialect (''trailing `'' @ [CHR 0x5C] @ ''`''))
      | c # rest \<Rightarrow>
          if backreference_digit c then Inr (backreference_token c, rest)
          else (case operator_escape c of
                  Some token \<Rightarrow> Inr (token, rest)
                | None \<Rightarrow>
                    if c = CHR 0x5C \<or> c \<in> set ''.^$*+?()|{}[]'' then Inr (TLiteral c, rest)
                    else Inl (unsupported_escape flag dialect c)))"

text \<open>A closing group operator, with the number of open groups.\<close>

definition close_group ::
  "string \<Rightarrow> regex_dialect \<Rightarrow> nat \<Rightarrow> string \<Rightarrow> (gnu_token \<times> string \<times> nat) result" where
  "close_group flag dialect depth rest =
     (if depth = 0 then Inl (malformed_regex flag dialect ''unmatched `)`'')
      else Inr (TGroupClose, rest, depth - 1))"

definition basic_bound_token ::
  "string \<Rightarrow> regex_dialect \<Rightarrow> nat \<Rightarrow> string \<Rightarrow> (gnu_token \<times> string \<times> nat) result" where
  "basic_bound_token flag dialect depth rest =
     try_bind (lex_basic_bound flag dialect [] rest) (\<lambda>(kind, rest).
       Inr (TQuantifier kind, rest, depth))"

definition lex_basic_escape ::
  "string \<Rightarrow> regex_dialect \<Rightarrow> byte \<Rightarrow> string \<Rightarrow> bool \<Rightarrow> nat \<Rightarrow> (gnu_token \<times> string \<times> nat) result" where
  "lex_basic_escape flag dialect c rest can_repeat depth =
     (if backreference_digit c then Inr (backreference_token c, rest, depth)
      else if c = CHR ''('' then Inr (TGroupOpen, rest, depth + 1)
      else if c = CHR '')'' then close_group flag dialect depth rest
      else if c = CHR ''|'' then Inr (TAlternation, rest, depth)
      else if c = CHR ''+'' then
        Inr (if can_repeat then TQuantifier OneOrMore else TLiteral (CHR ''+''), rest, depth)
      else if c = CHR ''?'' then
        Inr (if can_repeat then TQuantifier ZeroOrOne else TLiteral (CHR ''?''), rest, depth)
      else if c = CHR ''{'' then
        (if can_repeat then basic_bound_token flag dialect depth rest
         else Inr (TLiteral (CHR ''{''), rest, depth))
      else (case operator_escape c of
              Some token \<Rightarrow> Inr (token, rest, depth)
            | None \<Rightarrow>
                if c = CHR 0x5C \<or> c \<in> set ''.^$*[]}'' then Inr (TLiteral c, rest, depth)
                else Inl (unsupported_escape flag dialect c)))"

definition lex_emacs_escape ::
  "string \<Rightarrow> regex_dialect \<Rightarrow> byte \<Rightarrow> string \<Rightarrow> bool \<Rightarrow> nat \<Rightarrow> (gnu_token \<times> string \<times> nat) result" where
  "lex_emacs_escape flag dialect c rest can_repeat depth =
     (if c = CHR ''('' then Inr (TGroupOpen, rest, depth + 1)
      else if c = CHR '')'' then close_group flag dialect depth rest
      else if c = CHR ''|'' then Inr (TAlternation, rest, depth)
      else if c = CHR ''{'' \<and> can_repeat then basic_bound_token flag dialect depth rest
      else if backreference_digit c then Inr (backreference_token c, rest, depth)
      else Inr (TLiteral c, rest, depth))"

definition lex_bre_or_emacs_escape ::
  "string \<Rightarrow> regex_dialect \<Rightarrow> string \<Rightarrow> bool \<Rightarrow> nat \<Rightarrow> (gnu_token \<times> string \<times> nat) result" where
  "lex_bre_or_emacs_escape flag dialect s can_repeat depth =
     (case s of
        [] \<Rightarrow> Inl (malformed_regex flag dialect (''trailing `'' @ [CHR 0x5C] @ ''`''))
      | c # rest \<Rightarrow>
          (case dialect of
             PosixBasic \<Rightarrow> lex_basic_escape flag dialect c rest can_repeat depth
           | Emacs \<Rightarrow> lex_emacs_escape flag dialect c rest can_repeat depth
           | _ \<Rightarrow> Inl (panic ''internal error: entered unreachable code'')))"

definition emacs_dollar_is_anchor :: "string \<Rightarrow> bool" where
  "emacs_dollar_is_anchor rest \<longleftrightarrow>
     (case rest of
        [] \<Rightarrow> True
      | c # rest \<Rightarrow> c = CHR 0x5C \<and> slice_get rest 0 \<in> {Some (CHR '')''), Some (CHR ''|'')})"

text \<open>One round of the lexer: the token, the rest of the pattern and the open groups.\<close>

definition lex_class_token ::
  "string \<Rightarrow> regex_dialect \<Rightarrow> nat \<Rightarrow> string \<Rightarrow> (gnu_token \<times> string \<times> nat) result" where
  "lex_class_token flag dialect depth rest =
     try_bind (lex_class flag dialect rest) (\<lambda>(cls, rest). Inr (TClass cls, rest, depth))"

definition lex_token ::
  "string \<Rightarrow> regex_dialect \<Rightarrow> byte \<Rightarrow> string \<Rightarrow> bool \<Rightarrow> nat \<Rightarrow> bool \<Rightarrow> (gnu_token \<times> string \<times> nat) result" where
  "lex_token flag dialect c rest can_repeat depth branch_start =
     (case dialect of
        PosixExtended \<Rightarrow>
          if c = CHR 0x5C then
            try_bind (lex_extended_escape flag dialect rest) (\<lambda>(token, rest). Inr (token, rest, depth))
          else if c = CHR ''('' then Inr (TGroupOpen, rest, depth + 1)
          else if c = CHR '')'' then
            (if depth = 0 then Inr (TLiteral c, rest, depth) else Inr (TGroupClose, rest, depth - 1))
          else if c = CHR ''|'' then Inr (TAlternation, rest, depth)
          else if c = CHR ''*'' then Inr (TQuantifier ZeroOrMore, rest, depth)
          else if c = CHR ''+'' then Inr (TQuantifier OneOrMore, rest, depth)
          else if c = CHR ''?'' then Inr (TQuantifier ZeroOrOne, rest, depth)
          else if c = CHR ''{'' \<and> can_repeat then
            try_bind (lex_extended_bound flag dialect [] rest) (\<lambda>(kind, rest).
              Inr (TQuantifier kind, rest, depth))
          else if c = CHR ''['' then lex_class_token flag dialect depth rest
          else if c = CHR ''.'' then Inr (TDot, rest, depth)
          else if c = CHR ''^'' then Inr (TAnchor AnchorStart, rest, depth)
          else if c = CHR ''$'' then Inr (TAnchor AnchorEnd, rest, depth)
          else Inr (TLiteral c, rest, depth)
      | PosixBasic \<Rightarrow>
          if c = CHR 0x5C then lex_bre_or_emacs_escape flag dialect rest can_repeat depth
          else if c = CHR ''*'' \<and> can_repeat then Inr (TQuantifier ZeroOrMore, rest, depth)
          else if c = CHR ''['' then lex_class_token flag dialect depth rest
          else if c = CHR ''.'' then Inr (TDot, rest, depth)
          else if c = CHR ''^'' then Inr (TAnchor AnchorStart, rest, depth)
          else if c = CHR ''$'' then Inr (TAnchor AnchorEnd, rest, depth)
          else Inr (TLiteral c, rest, depth)
      | Emacs \<Rightarrow>
          if c = CHR 0x5C then lex_bre_or_emacs_escape flag dialect rest can_repeat depth
          else if c = CHR ''^'' \<and> branch_start then Inr (TAnchor AnchorStart, rest, depth)
          else if c = CHR ''$'' \<and> emacs_dollar_is_anchor rest then Inr (TAnchor AnchorEnd, rest, depth)
          else if c = CHR ''*'' \<and> can_repeat then Inr (TQuantifier ZeroOrMore, rest, depth)
          else if c = CHR ''+'' \<and> can_repeat then Inr (TQuantifier OneOrMore, rest, depth)
          else if c = CHR ''?'' \<and> can_repeat then Inr (TQuantifier ZeroOrOne, rest, depth)
          else if c = CHR ''['' then lex_class_token flag dialect depth rest
          else if c = CHR ''.'' then Inr (TDot, rest, depth)
          else Inr (TLiteral c, rest, depth)
      | _ \<Rightarrow> Inl (panic ''internal error: entered unreachable code''))"

fun token_can_repeat :: "gnu_token \<Rightarrow> bool" where
  "token_can_repeat (TLiteral c) \<longleftrightarrow> True"
| "token_can_repeat TDot \<longleftrightarrow> True"
| "token_can_repeat (TClass cls) \<longleftrightarrow> True"
| "token_can_repeat TGroupClose \<longleftrightarrow> True"
| "token_can_repeat (TWordByteClass neg) \<longleftrightarrow> True"
| "token_can_repeat _ \<longleftrightarrow> False"

text \<open>Every round consumes a byte.\<close>

lemma lex_extended_bound_shorter:
  "lex_extended_bound flag dialect body s = Inr (k, s') \<Longrightarrow> length s' < length s"
  by (induction flag dialect body s rule: lex_extended_bound.induct)
    (fastforce simp: result_simps split: if_splits)+

lemma lex_basic_bound_shorter:
  "lex_basic_bound flag dialect body s = Inr (k, s') \<Longrightarrow> length s' < length s"
  by (induction flag dialect body s rule: lex_basic_bound.induct)
    (fastforce simp: result_simps split: if_splits)+

lemma class_items_loop_shorter:
  "class_items_loop flag dialect items s = Inr (r, s') \<Longrightarrow> length s' < length s"
proof (induction "length s" arbitrary: items s rule: less_induct)
  case less
  show ?case
  proof (cases s)
    case Nil
    then show ?thesis using less.prems by simp
  next
    case (Cons c cs)
    show ?thesis
    proof (cases "c = CHR '']''")
      case True
      then show ?thesis using less.prems Cons by simp
    next
      case False
      with less.prems Cons obtain item s1 where item: "lex_class_item flag dialect s = Inr (item, s1)"
        by (auto simp: result_simps)
      note lt = lex_class_item_shorter [OF item]
      show ?thesis
      proof (cases "item = CiByte (CHR ''-'') \<and> items \<noteq> [] \<and> slice_get s1 0 \<noteq> Some (CHR '']'')")
        case True
        with less.prems Cons False item obtain e s2 j where
            e: "lex_class_item flag dialect s1 = Inr (e, s2)"
          and rec: "class_items_loop flag dialect (butlast items @ j) s2 = Inr (r, s')"
          by (auto simp: result_simps)
        then show ?thesis using less.hyps [OF _ rec] lt lex_class_item_shorter [OF e] by simp
      next
        case no: False
        have "class_items_loop flag dialect (items @ [item]) s1 = Inr (r, s')"
          using less.prems Cons False item no by (simp only: class_items_loop.simps) simp
        then show ?thesis using less.hyps lt by fastforce
      qed
    qed
  qed
qed

lemma strip_byte_shorter: "strip_byte c s = Some s' \<Longrightarrow> length s' < length s"
  by (auto simp: strip_byte_def split: list.splits if_splits)

lemma lex_class_shorter: "lex_class flag dialect s = Inr (cls, s') \<Longrightarrow> length s' < length s"
  by (auto simp: lex_class_def Let_def result_simps split: option.splits
      dest!: class_items_loop_shorter strip_byte_shorter)

lemma lex_token_shorter:
  assumes "lex_token flag dialect c rest can_repeat depth branch_start = Inr (t, rest', d)"
  shows "length rest' \<le> length rest"
proof -
  have basic: "length r' \<le> length r" if "basic_bound_token flag dl depth r = Inr (t, r', d)" for dl r r'
    using that by (auto simp: basic_bound_token_def result_simps dest: lex_basic_bound_shorter)
  have cls: "length r' \<le> length r" if "lex_class_token flag dl depth r = Inr (t, r', d)" for dl r r'
    using that by (auto simp: lex_class_token_def result_simps dest: lex_class_shorter)
  have close: "r' = r" if "close_group flag dl depth r = Inr (t, r', d)" for dl r r'
    using that by (simp add: close_group_def split: if_splits)
  have be: "length rest' \<le> length rest"
    if "lex_bre_or_emacs_escape flag dl rest can_repeat depth = Inr (t, rest', d)" for dl
  proof (cases rest)
    case (Cons e r)
    then have "length rest' \<le> length r"
      using that by (auto simp: lex_bre_or_emacs_escape_def lex_basic_escape_def lex_emacs_escape_def
          split: if_splits option.splits regex_dialect.splits dest: basic close)
    then show ?thesis using Cons by simp
  qed (use that in \<open>simp add: lex_bre_or_emacs_escape_def\<close>)
  have ext: "length rest' \<le> length rest" if "lex_extended_escape flag dl rest = Inr (t, rest')" for dl
    using that by (auto simp: lex_extended_escape_def split: list.splits if_splits option.splits)
  show ?thesis
    using assms by (auto simp: lex_token_def result_simps split: regex_dialect.splits if_splits
        dest: be cls ext lex_extended_bound_shorter)
qed

function lex_loop ::
  "string \<Rightarrow> regex_dialect \<Rightarrow> gnu_token list \<Rightarrow> bool \<Rightarrow> nat \<Rightarrow> bool \<Rightarrow> string \<Rightarrow> gnu_token list result" where
  "lex_loop flag dialect ts can_repeat depth branch_start [] =
     (if depth \<noteq> 0 then Inl (malformed_regex flag dialect ''unclosed group'') else Inr ts)"
| "lex_loop flag dialect ts can_repeat depth branch_start (c # rest) =
     try_bind (lex_token flag dialect c rest can_repeat depth branch_start) (\<lambda>(token, rest, depth).
       lex_loop flag dialect (ts @ [token]) (token_can_repeat token) depth
         (token = TGroupOpen \<or> token = TAlternation) rest)"
  by pat_completeness auto
termination
  by (relation "measure (\<lambda>(flag, dialect, ts, can_repeat, depth, branch_start, s). length s)")
    (auto dest!: lex_token_shorter)

definition lex_gnu_tokens :: "string \<Rightarrow> regex_dialect \<Rightarrow> string \<Rightarrow> gnu_token list result" where
  "lex_gnu_tokens flag dialect pat = lex_loop flag dialect [] False 0 True pat"

section \<open>The parser (gnu.rs)\<close>

text \<open>
  The parser's state is the rest of the tokens and the number of the last capture.  The
  functions take fuel and \<^term>\<open>None\<close> says that it ran out; \<open>gnu_fuel\<close> is enough.
\<close>

type_synonym 'a gnu_parsed = "('a \<times> gnu_token list \<times> u16) result option"

definition gnu_bind ::
  "'a gnu_parsed \<Rightarrow> ('a \<Rightarrow> gnu_token list \<Rightarrow> u16 \<Rightarrow> 'b gnu_parsed) \<Rightarrow> 'b gnu_parsed" where
  "gnu_bind p f =
     (case p of
        None \<Rightarrow> None
      | Some (Inl err) \<Rightarrow> Some (Inl err)
      | Some (Inr (x, ts, cap)) \<Rightarrow> f x ts cap)"

lemma gnu_bind_simps [simp]:
  "gnu_bind None f = None"
  "gnu_bind (Some (Inl err)) f = Some (Inl err)"
  "gnu_bind (Some (Inr (x, ts, cap))) f = f x ts cap"
  by (simp_all add: gnu_bind_def)

definition concat_items :: "gnu_expr list \<Rightarrow> gnu_expr" where
  "concat_items items = (case items of [] \<Rightarrow> GEmpty | [e] \<Rightarrow> e | _ \<Rightarrow> GConcat items)"

definition alternation_of :: "gnu_expr list \<Rightarrow> gnu_expr" where
  "alternation_of branches = (case branches of [e] \<Rightarrow> e | _ \<Rightarrow> GAlternation branches)"

text \<open>What ends a sequence, what repeats its last item, and the atoms that are no groups.\<close>

definition ends_sequence :: "gnu_token \<Rightarrow> bool" where
  "ends_sequence token \<longleftrightarrow> token = TGroupClose \<or> token = TAlternation"

fun quantifier_of :: "gnu_token \<Rightarrow> repetition_kind option" where
  "quantifier_of (TQuantifier kind) = Some kind"
| "quantifier_of _ = None"

fun plain_atom :: "string \<Rightarrow> regex_dialect \<Rightarrow> gnu_token \<Rightarrow> gnu_expr result" where
  "plain_atom flag dialect (TLiteral c) = Inr (GnuLiteral c)"
| "plain_atom flag dialect TDot = Inr GDot"
| "plain_atom flag dialect (TAnchor a) = Inr (GAnchor a)"
| "plain_atom flag dialect (TClass cls) = Inr (GClass cls)"
| "plain_atom flag dialect TGroupClose = Inl (malformed_regex flag dialect ''unmatched `)`'')"
| "plain_atom flag dialect (TBackreference i) = Inr (GBackreference i)"
| "plain_atom flag dialect (TAssertion a) = Inr (GAssertion a)"
| "plain_atom flag dialect (TWordByteClass neg) = Inr (GWordByteClass neg)"
| "plain_atom flag dialect (TQuantifier kind) =
     Inl (malformed_regex flag dialect ''repetition operator missing expression'')"
| "plain_atom flag dialect _ = Inr GEmpty"

function (sequential) parse_alternation :: "nat \<Rightarrow> string \<Rightarrow> regex_dialect \<Rightarrow> gnu_token list \<Rightarrow> u16 \<Rightarrow> gnu_expr gnu_parsed"
and alternation_loop ::
  "nat \<Rightarrow> string \<Rightarrow> regex_dialect \<Rightarrow> gnu_expr list \<Rightarrow> gnu_token list \<Rightarrow> u16 \<Rightarrow> gnu_expr gnu_parsed"
and sequence_loop ::
  "nat \<Rightarrow> string \<Rightarrow> regex_dialect \<Rightarrow> gnu_expr list \<Rightarrow> gnu_token list \<Rightarrow> u16 \<Rightarrow> gnu_expr gnu_parsed"
and parse_regex_atom :: "nat \<Rightarrow> string \<Rightarrow> regex_dialect \<Rightarrow> gnu_token \<Rightarrow> gnu_token list \<Rightarrow> u16 \<Rightarrow> gnu_expr gnu_parsed"
and parse_group :: "nat \<Rightarrow> string \<Rightarrow> regex_dialect \<Rightarrow> gnu_token list \<Rightarrow> u16 \<Rightarrow> gnu_expr gnu_parsed" where
  "parse_alternation 0 flag dialect ts cap = None"
| "parse_alternation (Suc n) flag dialect ts cap =
     gnu_bind (sequence_loop n flag dialect [] ts cap) (\<lambda>e ts cap.
       alternation_loop n flag dialect [e] ts cap)"
| "alternation_loop 0 flag dialect branches ts cap = None"
| "alternation_loop (Suc n) flag dialect branches ts cap =
     (if slice_get ts 0 = Some TAlternation then
        gnu_bind (sequence_loop n flag dialect [] (drop 1 ts) cap) (\<lambda>e ts cap.
          alternation_loop n flag dialect (branches @ [e]) ts cap)
      else Some (Inr (alternation_of branches, ts, cap)))"
| "sequence_loop 0 flag dialect items ts cap = None"
| "sequence_loop (Suc n) flag dialect items ts cap =
     (case ts of
        [] \<Rightarrow> Some (Inr (concat_items items, ts, cap))
      | token # ts' \<Rightarrow>
          if ends_sequence token then Some (Inr (concat_items items, ts, cap))
          else (case quantifier_of token of
            Some kind \<Rightarrow>
              if items = []
              then Some (Inl (malformed_regex flag dialect ''repetition operator missing expression''))
              else sequence_loop n flag dialect (butlast items @ [GRepeat (last items) kind]) ts' cap
          | None \<Rightarrow>
              gnu_bind (parse_regex_atom n flag dialect token ts' cap) (\<lambda>e ts cap.
                sequence_loop n flag dialect (items @ [e]) ts cap)))"
| "parse_regex_atom 0 flag dialect token ts cap = None"
| "parse_regex_atom (Suc n) flag dialect token ts cap =
     (if token = TGroupOpen then parse_group n flag dialect ts cap
      else Some (try_bind (plain_atom flag dialect token) (\<lambda>e. Inr (e, ts, cap))))"
| "parse_group 0 flag dialect ts cap = None"
| "parse_group (Suc n) flag dialect ts cap =
     gnu_bind (parse_alternation n flag dialect ts (cap + 1)) (\<lambda>e ts' cap'.
       if slice_get ts' 0 = Some TGroupClose then Some (Inr (GGroup (cap + 1) e, drop 1 ts', cap'))
       else Some (Inl (malformed_regex flag dialect ''unclosed group'')))"

  by pat_completeness auto
termination
  by (relation "measure (\<lambda>x. case x of
      Inl (Inl (n, _)) \<Rightarrow> n | Inl (Inr (n, _)) \<Rightarrow> n
    | Inr (Inl (n, _)) \<Rightarrow> n | Inr (Inr (Inl (n, _))) \<Rightarrow> n | Inr (Inr (Inr (n, _))) \<Rightarrow> n)") simp_all

definition gnu_fuel :: "nat \<Rightarrow> nat" where
  "gnu_fuel n = 5 * n + 5"

definition parse_tokens :: "string \<Rightarrow> regex_dialect \<Rightarrow> gnu_token list \<Rightarrow> gnu_regex result" where
  "parse_tokens flag dialect ts =
     (case parse_alternation (gnu_fuel (length ts)) flag dialect ts 0 of
        None \<Rightarrow> Inl (panic ''out of fuel'')
      | Some (Inl err) \<Rightarrow> Inl err
      | Some (Inr (e, rest, cap)) \<Rightarrow>
          if rest \<noteq> [] then Inl (malformed_regex flag dialect ''trailing input'')
          else Inr \<lparr>gnu_root = e, capture_count = cap\<rparr>)"

section \<open>Validation, the backend and the written pattern (gnu.rs)\<close>

fun walk_regex :: "string \<Rightarrow> regex_dialect \<Rightarrow> gnu_expr \<Rightarrow> u16 \<Rightarrow> u16 result"
and walk_concat :: "string \<Rightarrow> regex_dialect \<Rightarrow> gnu_expr list \<Rightarrow> u16 \<Rightarrow> u16 result"
and walk_branches :: "string \<Rightarrow> regex_dialect \<Rightarrow> gnu_expr list \<Rightarrow> u16 \<Rightarrow> u16 \<Rightarrow> u16 result" where
  "walk_regex flag dialect (GBackreference i) closed =
     (if i = 0 \<or> i > closed then Inl (malformed_regex flag dialect ''invalid back reference'')
      else Inr closed)"
| "walk_regex flag dialect (GConcat items) closed = walk_concat flag dialect items closed"
| "walk_regex flag dialect (GAlternation items) closed = walk_branches flag dialect items closed closed"
| "walk_regex flag dialect (GGroup i e) closed =
     try_bind (walk_regex flag dialect e closed) (\<lambda>closed. Inr (max closed i))"
| "walk_regex flag dialect (GRepeat e kind) closed =
     (if (case kind of Bounded lo (Some hi) \<Rightarrow> lo > hi | _ \<Rightarrow> False)
      then Inl (malformed_regex flag dialect ''invalid bounded repetition'')
      else walk_regex flag dialect e closed)"
| "walk_regex flag dialect _ closed = Inr closed"
| "walk_concat flag dialect [] closed = Inr closed"
| "walk_concat flag dialect (e # es) closed =
     try_bind (walk_regex flag dialect e closed) (\<lambda>closed. walk_concat flag dialect es closed)"
| "walk_branches flag dialect [] closed max_closed = Inr max_closed"
| "walk_branches flag dialect (e # es) closed max_closed =
     try_bind (walk_regex flag dialect e closed) (\<lambda>c. walk_branches flag dialect es closed (max max_closed c))"

definition validate_gnu_regex :: "string \<Rightarrow> regex_dialect \<Rightarrow> gnu_regex \<Rightarrow> unit result" where
  "validate_gnu_regex flag dialect re =
     try_bind (walk_regex flag dialect (gnu_root re) 0) (\<lambda>_. Inr ())"

definition parse_gnu_regex :: "string \<Rightarrow> regex_dialect \<Rightarrow> string \<Rightarrow> gnu_regex result" where
  "parse_gnu_regex flag dialect pat =
     try_bind (lex_gnu_tokens flag dialect pat) (\<lambda>ts.
     try_bind (parse_tokens flag dialect ts) (\<lambda>re.
     try_bind (validate_gnu_regex flag dialect re) (\<lambda>_. Inr re)))"

fun visit_backend :: "gnu_expr \<Rightarrow> regex_backend" where
  "visit_backend (GBackreference i) = BackendPcre2"
| "visit_backend (GAssertion a) = BackendPcre2"
| "visit_backend (GConcat items) =
     (if BackendPcre2 \<in> set (map visit_backend items) then BackendPcre2 else BackendRust)"
| "visit_backend (GAlternation items) =
     (if BackendPcre2 \<in> set (map visit_backend items) then BackendPcre2 else BackendRust)"
| "visit_backend (GGroup i e) = visit_backend e"
| "visit_backend (GRepeat e kind) = visit_backend e"
| "visit_backend _ = BackendRust"

definition choose_backend :: "gnu_regex \<Rightarrow> regex_backend" where
  "choose_backend re = visit_backend (gnu_root re)"

definition push_literal_regex_byte :: "byte \<Rightarrow> string" where
  "push_literal_regex_byte c =
     (if c = CHR 0x5C \<or> c \<in> set ''.^$|()[]{}*+?'' then [CHR 0x5C, c]
      else if printable c then [c]
      else push_hex_byte c)"

definition push_bracket_escaped_byte :: "byte \<Rightarrow> string" where
  "push_bracket_escaped_byte c =
     (if c = CHR 0x5C \<or> c \<in> set '']^-'' then [CHR 0x5C, c]
      else if printable c then [c]
      else push_hex_byte c)"

definition push_bracket_range_endpoint_byte :: "byte \<Rightarrow> string" where
  "push_bracket_range_endpoint_byte c =
     (if c = CHR 0x5C \<or> c \<in> set '']^'' then [CHR 0x5C, c]
      else if printable c then [c]
      else push_hex_byte c)"

definition posix_named_class_fragment :: "string \<Rightarrow> string" where
  "posix_named_class_fragment name =
     (if name = ''alnum'' then ''A-Za-z0-9''
      else if name = ''alpha'' then ''A-Za-z''
      else if name = ''blank'' then '' '' @ [CHR 0x5C] @ ''t''
      else if name = ''cntrl'' then
        [CHR 0x5C] @ ''x00-'' @ [CHR 0x5C] @ ''x1F'' @ [CHR 0x5C] @ ''x7F''
      else if name = ''digit'' then ''0-9''
      else if name = ''graph'' then ''!-~''
      else if name = ''lower'' then ''a-z''
      else if name = ''print'' then [CHR 0x5C] @ ''x20-'' @ [CHR 0x5C] @ ''x7E''
      else if name = ''punct'' then ''!-/:-@'' @ [CHR 0x5C] @ ''x5B-'' @ [CHR 0x5C] @ ''x60{-~''
      else if name = ''space'' then
        '' '' @ [CHR 0x5C] @ ''t'' @ [CHR 0x5C] @ ''r'' @ [CHR 0x5C] @ ''n'' @ [CHR 0x5C] @ ''f''
          @ [CHR 0x5C] @ ''x0B''
      else if name = ''upper'' then ''A-Z''
      else ''A-Fa-f0-9'')"

fun render_class_item :: "gnu_class_item \<Rightarrow> string" where
  "render_class_item (CiByte c) = push_bracket_escaped_byte c"
| "render_class_item (CiRange a b) =
     push_bracket_range_endpoint_byte a @ ''-'' @ push_bracket_range_endpoint_byte b"
| "render_class_item (CiPosix name) = posix_named_class_fragment name"

fun render_repetition :: "repetition_kind \<Rightarrow> string" where
  "render_repetition ZeroOrMore = ''*''"
| "render_repetition OneOrMore = ''+''"
| "render_repetition ZeroOrOne = ''?''"
| "render_repetition (Bounded lo hi) =
     (case hi of
        Some hi \<Rightarrow>
          if hi = lo then ''{'' @ show_nat (unat lo) @ ''}''
          else ''{'' @ show_nat (unat lo) @ '','' @ show_nat (unat hi) @ ''}''
      | None \<Rightarrow> ''{'' @ show_nat (unat lo) @ '',}'')"

fun render_assertion :: "assertion_kind \<Rightarrow> string" where
  "render_assertion WordBoundary = [CHR 0x5C] @ ''b''"
| "render_assertion NotWordBoundary = [CHR 0x5C] @ ''B''"
| "render_assertion WordStart = [CHR 0x5C] @ ''b(?='' @ [CHR 0x5C] @ ''w)''"
| "render_assertion WordEnd = [CHR 0x5C] @ ''b(?<='' @ [CHR 0x5C] @ ''w)''"
| "render_assertion BufferStart = [CHR 0x5C] @ ''A''"
| "render_assertion BufferEnd = [CHR 0x5C] @ ''z''"

text \<open>The written pattern; it is the same for both engines (\<^verbatim>\<open>debug_assert\<close> apart).\<close>

fun render_regex :: "gnu_expr \<Rightarrow> string"
and render_branches :: "gnu_expr list \<Rightarrow> string" where
  "render_regex GEmpty = ''''"
| "render_regex (GnuLiteral c) = push_literal_regex_byte c"
| "render_regex GDot = ''.''"
| "render_regex (GConcat items) = concat (map render_regex items)"
| "render_regex (GAlternation items) = ''(?:'' @ render_branches items @ '')''"
| "render_regex (GGroup i e) = ''('' @ render_regex e @ '')''"
| "render_regex (GClass cls) =
     ''['' @ (if class_negated cls then ''^'' else '''') @ concat (map render_class_item (class_items cls)) @ '']''"
| "render_regex (GRepeat e kind) =
     (case e of
        GAlternation _ \<Rightarrow> ''(?:'' @ render_regex e @ '')''
      | GConcat _ \<Rightarrow> ''(?:'' @ render_regex e @ '')''
      | _ \<Rightarrow> render_regex e)
     @ render_repetition kind"
| "render_regex (GAnchor a) = (case a of AnchorStart \<Rightarrow> ''^'' | AnchorEnd \<Rightarrow> ''$'')"
| "render_regex (GBackreference i) = [CHR 0x5C] @ show_nat (unat i)"
| "render_regex (GAssertion a) = render_assertion a"
| "render_regex (GWordByteClass neg) = [CHR 0x5C] @ (if neg then ''W'' else ''w'')"
| "render_branches [] = ''''"
| "render_branches [e] = render_regex e"
| "render_branches (e # es) = render_regex e @ ''|'' @ render_branches es"

section \<open>Compiled matchers (backend.rs, mod.rs)\<close>

datatype ('r, 'p) compiled_regex = CompiledRust 'r | CompiledPcre2 'p

text \<open>
  The engines: building a pattern, with the case flag, or an error text; matching.  The
  \<^verbatim>\<open>regex\<close> crate is run without Unicode classes.
\<close>

record ('r, 'p) regex_engines =
  en_build_rust :: "string \<Rightarrow> bool \<Rightarrow> string + 'r"
  en_build_pcre2 :: "string \<Rightarrow> bool \<Rightarrow> string + 'p"
  en_match_rust :: "'r \<Rightarrow> string \<Rightarrow> bool"
  en_match_pcre2 :: "'p \<Rightarrow> string \<Rightarrow> string + bool"

definition compile_rust_anchored ::
  "('r, 'p) regex_engines \<Rightarrow> string \<Rightarrow> string \<Rightarrow> string \<Rightarrow> bool \<Rightarrow> ('r, 'p) compiled_regex result" where
  "compile_rust_anchored en flag label anchored insensitive =
     (case en_build_rust en anchored insensitive of
        Inl error \<Rightarrow>
          Inl (diagnostic_new (''failed to compile '' @ label @ '' regex for `'' @ flag @ ''`: '' @ error) 1)
      | Inr re \<Rightarrow> Inr (CompiledRust re))"

definition compile_pcre2_anchored ::
  "('r, 'p) regex_engines \<Rightarrow> string \<Rightarrow> string \<Rightarrow> bool \<Rightarrow> ('r, 'p) compiled_regex result" where
  "compile_pcre2_anchored en flag anchored insensitive =
     (case en_build_pcre2 en anchored insensitive of
        Inl error \<Rightarrow> Inl (diagnostic_new (''failed to compile pcre2 regex for `'' @ flag @ ''`: '' @ error) 1)
      | Inr re \<Rightarrow> Inr (CompiledPcre2 re))"

fun compiled_is_match ::
  "('r, 'p) regex_engines \<Rightarrow> ('r, 'p) compiled_regex \<Rightarrow> string \<Rightarrow> bool result" where
  "compiled_is_match en (CompiledRust re) candidate = Inr (en_match_rust en re candidate)"
| "compiled_is_match en (CompiledPcre2 re) candidate =
     (case en_match_pcre2 en re candidate of
        Inl error \<Rightarrow> Inl (diagnostic_new (''failed to execute pcre2 regex: '' @ error) 1)
      | Inr ok \<Rightarrow> Inr ok)"

text \<open>\<open>\A(?:...)\z\<close>: the whole path has to match.\<close>

definition anchor_pattern :: "string \<Rightarrow> string" where
  "anchor_pattern s = [CHR 0x5C] @ ''A(?:'' @ s @ '')'' @ [CHR 0x5C] @ ''z''"

definition compile_gnu_regex ::
  "('r, 'p) regex_engines \<Rightarrow> string \<Rightarrow> regex_dialect \<Rightarrow> string \<Rightarrow> bool \<Rightarrow>
   (regex_backend \<times> string \<times> ('r, 'p) compiled_regex) result" where
  "compile_gnu_regex en flag dialect pat insensitive =
     try_bind (parse_gnu_regex flag dialect pat) (\<lambda>re.
       let backend = choose_backend re;
           translated = render_regex (gnu_root re);
           anchored = anchor_pattern translated
       in try_bind (case backend of
              BackendRust \<Rightarrow> compile_rust_anchored en flag (dialect_label dialect) anchored insensitive
            | BackendPcre2 \<Rightarrow> compile_pcre2_anchored en flag anchored insensitive) (\<lambda>compiled.
            Inr (backend, translated, compiled)))"

definition translate_rust_bytes :: "string \<Rightarrow> string" where
  "translate_rust_bytes pat = concat (map (\<lambda>c. if printable c then [c] else push_hex_byte c) pat)"

record ('r, 'p) regex_matcher =
  rm_dialect :: regex_dialect
  rm_backend :: regex_backend
  rm_original :: string
  rm_translated :: string
  rm_insensitive :: bool
  rm_compiled :: "('r, 'p) compiled_regex"

definition regex_compile ::
  "('r, 'p) regex_engines \<Rightarrow> string \<Rightarrow> regex_dialect \<Rightarrow> os_string \<Rightarrow> bool \<Rightarrow>
   ('r, 'p) regex_matcher result" where
  "regex_compile en flag dialect pat insensitive =
     try_bind
       (case dialect of
          DialectRust \<Rightarrow>
            (let translated = translate_rust_bytes pat in
             try_bind (compile_rust_anchored en flag (dialect_label dialect) (anchor_pattern translated)
                         insensitive) (\<lambda>compiled.
               Inr (BackendRust, translated, compiled)))
        | DialectPcre2 \<Rightarrow>
            (if \<not> is_utf8 pat then
               Inl (diagnostic_new (''failed to compile pcre2 regex for `'' @ flag
                 @ ''`: raw pcre2 patterns must be valid UTF-8; use PCRE2 byte escapes like `''
                 @ [CHR 0x5C, CHR 0x5C] @ ''xFF` for arbitrary bytes'') 1)
             else
               try_bind (compile_pcre2_anchored en flag (anchor_pattern pat) insensitive) (\<lambda>compiled.
                 Inr (BackendPcre2, pat, compiled)))
        | _ \<Rightarrow> compile_gnu_regex en flag dialect pat insensitive)
       (\<lambda>(backend, translated, compiled).
          Inr \<lparr>rm_dialect = dialect, rm_backend = backend, rm_original = pat,
               rm_translated = translated, rm_insensitive = insensitive, rm_compiled = compiled\<rparr>)"

definition regex_is_match ::
  "('r, 'p) regex_engines \<Rightarrow> ('r, 'p) regex_matcher \<Rightarrow> os_string \<Rightarrow> bool result" where
  "regex_is_match en m candidate = compiled_is_match en (rm_compiled m) candidate"

section \<open>Enough fuel\<close>

text \<open>A parse that returns, and consumes nothing or more than \<open>k\<close> tokens less.\<close>

definition gnu_ok :: "nat \<Rightarrow> 'a gnu_parsed \<Rightarrow> bool" where
  "gnu_ok k p \<longleftrightarrow> (case p of None \<Rightarrow> False | Some (Inl err) \<Rightarrow> True | Some (Inr (x, ts, cap)) \<Rightarrow> length ts \<le> k)"

lemma gnu_ok_simps [simp]:
  "\<not> gnu_ok k None" "gnu_ok k (Some (Inl err))" "gnu_ok k (Some (Inr (x, ts, cap))) \<longleftrightarrow> length ts \<le> k"
  by (simp_all add: gnu_ok_def)

lemma gnu_ok_bind:
  assumes "gnu_ok j p" "\<And>x ts cap. p = Some (Inr (x, ts, cap)) \<Longrightarrow> length ts \<le> j \<Longrightarrow> gnu_ok k (f x ts cap)"
  shows "gnu_ok k (gnu_bind p f)"
  using assms by (auto simp: gnu_ok_def gnu_bind_def split: option.splits sum.splits)

lemma gnu_ok_mono: "gnu_ok j p \<Longrightarrow> j \<le> k \<Longrightarrow> gnu_ok k p"
  by (auto simp: gnu_ok_def split: option.splits sum.splits)

lemma gnu_fuel_enough:
  "(5 * length ts + 4 \<le> n \<longrightarrow> gnu_ok (length ts) (parse_alternation n flag dialect ts cap))
   \<and> (5 * length ts + 2 \<le> n \<longrightarrow> gnu_ok (length ts) (alternation_loop n flag dialect es ts cap))
   \<and> (5 * length ts + 3 \<le> n \<longrightarrow> gnu_ok (length ts) (sequence_loop n flag dialect es ts cap))
   \<and> (5 * length ts + 6 \<le> n \<longrightarrow> gnu_ok (length ts) (parse_regex_atom n flag dialect t ts cap))
   \<and> (5 * length ts + 5 \<le> n \<longrightarrow> gnu_ok (length ts) (parse_group n flag dialect ts cap))"
proof (induction n arbitrary: ts cap es t)
  case 0
  then show ?case by simp
next
  case (Suc n)
  note IH = Suc.IH
  have alt: "5 * length ts + 4 \<le> n \<Longrightarrow> gnu_ok (length ts) (parse_alternation n flag dialect ts cap)" for ts cap
    using IH by blast
  have loop: "5 * length ts + 2 \<le> n \<Longrightarrow> gnu_ok (length ts) (alternation_loop n flag dialect es ts cap)" for ts cap es
    using IH by blast
  have seq: "5 * length ts + 3 \<le> n \<Longrightarrow> gnu_ok (length ts) (sequence_loop n flag dialect es ts cap)" for ts cap es
    using IH by blast
  have atom: "5 * length ts + 6 \<le> n \<Longrightarrow> gnu_ok (length ts) (parse_regex_atom n flag dialect t ts cap)" for ts cap t
    using IH by blast
  have grp: "5 * length ts + 5 \<le> n \<Longrightarrow> gnu_ok (length ts) (parse_group n flag dialect ts cap)" for ts cap
    using IH by blast
  have 1: "gnu_ok (length ts) (parse_alternation (Suc n) flag dialect ts cap)" if "5 * length ts + 4 \<le> Suc n"
    using that by (auto intro!: gnu_ok_bind [OF seq] gnu_ok_mono [OF loop])
  have 2: "gnu_ok (length ts) (alternation_loop (Suc n) flag dialect es ts cap)" if "5 * length ts + 2 \<le> Suc n"
    using that by (cases ts) (auto simp: slice_get_def intro!: gnu_ok_bind [OF seq] gnu_ok_mono [OF loop])
  have 3: "gnu_ok (length ts) (sequence_loop (Suc n) flag dialect es ts cap)" if "5 * length ts + 3 \<le> Suc n"
    using that by (cases ts) (auto split: option.split intro!: gnu_ok_bind [OF atom] gnu_ok_mono [OF seq])
  have 4: "gnu_ok (length ts) (parse_regex_atom (Suc n) flag dialect t ts cap)" if "5 * length ts + 6 \<le> Suc n"
    using that grp [of ts cap] by (cases "plain_atom flag dialect t") auto
  have 5: "gnu_ok (length ts) (parse_group (Suc n) flag dialect ts cap)" if "5 * length ts + 5 \<le> Suc n"
    using that by (auto intro!: gnu_ok_bind [OF alt])
  from 1 2 3 4 5 show ?case by blast
qed

section \<open>Errors\<close>

lemma malformed_exit_code [simp]: "exit_code (malformed_regex flag dialect reason) = 1"
  by (simp add: malformed_regex_def)

lemma unsupported_exit_code [simp]: "exit_code (unsupported_construct flag dialect reason) = 1"
  by (simp add: unsupported_construct_def)

text \<open>A result whose error is a diagnostic of exit code 1, and no panic.\<close>

definition plain_error :: "'a result \<Rightarrow> bool" where
  "plain_error r \<longleftrightarrow> (case r of Inl err \<Rightarrow> exit_code err = 1 | Inr x \<Rightarrow> True)"

lemma plain_error_simps [simp]:
  "plain_error (Inl err) \<longleftrightarrow> exit_code err = 1" "plain_error (Inr x)"
  by (simp_all add: plain_error_def)

lemma plain_error_bind [intro]:
  "plain_error r \<Longrightarrow> (\<And>x. r = Inr x \<Longrightarrow> plain_error (f x)) \<Longrightarrow> plain_error (try_bind r f)"
  by (cases r) auto

lemma plain_error_prod:
  "(\<And>a b. x = (a, b) \<Longrightarrow> plain_error (f a b)) \<Longrightarrow> plain_error (case x of (a, b) \<Rightarrow> f a b)"
  by (cases x) simp

lemma plain_posix_name: "plain_error (take_posix_class_name flag dialect name s)"
  by (induction flag dialect name s rule: take_posix_class_name.induct)
    (auto simp: canonical_posix_class_def)

lemma plain_class_item: "plain_error (lex_class_item flag dialect s)"
  by (cases s) (auto intro!: plain_error_bind plain_posix_name split: list.split)

lemma plain_error_if:
  "(c \<Longrightarrow> plain_error a) \<Longrightarrow> (\<not> c \<Longrightarrow> plain_error b) \<Longrightarrow> plain_error (if c then a else b)"
  by simp

lemma plain_class_items: "plain_error (class_items_loop flag dialect items s)"
proof (induction "length s" arbitrary: items s rule: less_induct)
  case less
  have j: "plain_error (join_range flag dialect a b)" for a b
    by (cases a; cases b) auto
  show ?case
  proof (cases s)
    case (Cons c cs)
    have step: "plain_error (class_items_loop flag dialect its s2)" if "length s2 < length s" for its s2
      using less that by blast
    show ?thesis
      unfolding Cons class_items_loop.simps
    proof (intro plain_error_if plain_error_bind plain_class_item plain_error_prod j)
      fix x item s1 y e s2 joined
      assume "lex_class_item flag dialect (c # cs) = Inr x" "x = (item, s1)"
        "lex_class_item flag dialect s1 = Inr y" "y = (e, s2)"
      then have "length s2 < length s"
        using lex_class_item_shorter [of flag dialect "c # cs" item s1]
          lex_class_item_shorter [of flag dialect s1 e s2] Cons by simp
      then show "plain_error (class_items_loop flag dialect (butlast items @ joined) s2)" by (rule step)
    next
      fix x item s1
      assume "lex_class_item flag dialect (c # cs) = Inr x" "x = (item, s1)"
      then have "length s1 < length s"
        using lex_class_item_shorter [of flag dialect "c # cs" item s1] Cons by simp
      then show "plain_error (class_items_loop flag dialect (items @ [item]) s1)" by (rule step)
    qed simp
  qed simp
qed

lemma plain_bound_body: "plain_error (bound_body flag dialect body)"
  by (auto simp: bound_body_def parse_repetition_body_def Let_def repetition_bound_def ok_or_def
      intro!: plain_error_bind split: option.split)

lemma plain_extended_bound: "plain_error (lex_extended_bound flag dialect body s)"
  by (induction flag dialect body s rule: lex_extended_bound.induct)
    (auto intro!: plain_error_bind plain_bound_body)

lemma plain_basic_bound: "plain_error (lex_basic_bound flag dialect body s)"
  by (induction flag dialect body s rule: lex_basic_bound.induct)
    (auto intro!: plain_error_bind plain_bound_body)

definition gnu_dialect :: "regex_dialect \<Rightarrow> bool" where
  "gnu_dialect d \<longleftrightarrow> d \<in> {Emacs, PosixExtended, PosixBasic}"

lemma plain_class_token: "plain_error (lex_class_token flag dialect depth s)"
  by (auto simp: lex_class_token_def lex_class_def Let_def intro!: plain_error_bind plain_class_items
      split: option.split)

lemma plain_basic_token: "plain_error (basic_bound_token flag dialect depth rest)"
  by (auto simp: basic_bound_token_def intro!: plain_error_bind plain_basic_bound)

lemma plain_close_group: "plain_error (close_group flag dialect depth rest)"
  by (simp add: close_group_def)

lemma plain_operator:
  "plain_error b \<Longrightarrow> (\<And>t. plain_error (f t)) \<Longrightarrow> plain_error (case operator_escape c of Some t \<Rightarrow> f t | None \<Rightarrow> b)"
  by (cases "operator_escape c") auto

lemma plain_unsupported_escape: "plain_error (Inl (unsupported_escape flag dialect c))"
  by (simp add: unsupported_escape_def)

lemmas plain_token_intros = plain_error_if plain_error_bind plain_error_prod plain_operator
  plain_unsupported_escape plain_close_group plain_basic_token plain_class_token
  plain_extended_bound plain_error_simps(2)

lemma plain_escape:
  assumes "gnu_dialect dialect" "dialect \<noteq> PosixExtended"
  shows "plain_error (lex_bre_or_emacs_escape flag dialect s can_repeat depth)"
proof (cases s)
  case (Cons c rest)
  have "plain_error (lex_basic_escape flag dialect c rest can_repeat depth)"
    unfolding lex_basic_escape_def by (intro plain_token_intros)
  moreover have "plain_error (lex_emacs_escape flag dialect c rest can_repeat depth)"
    unfolding lex_emacs_escape_def by (intro plain_token_intros)
  ultimately show ?thesis
    using assms Cons by (cases dialect) (simp_all add: lex_bre_or_emacs_escape_def gnu_dialect_def)
qed (simp add: lex_bre_or_emacs_escape_def)

lemma plain_extended_escape: "plain_error (lex_extended_escape flag dialect s)"
proof (cases s)
  case (Cons c rest)
  show ?thesis
    unfolding Cons lex_extended_escape_def list.case by (intro plain_token_intros)
qed (simp add: lex_extended_escape_def)

lemma plain_token:
  assumes "gnu_dialect dialect"
  shows "plain_error (lex_token flag dialect c rest can_repeat depth branch_start)"
proof (cases dialect)
  case Emacs
  show ?thesis
    unfolding Emacs lex_token_def regex_dialect.case
    by (intro plain_token_intros plain_escape) (simp_all add: gnu_dialect_def)
next
  case PosixExtended
  show ?thesis
    unfolding PosixExtended lex_token_def regex_dialect.case
    by (intro plain_token_intros plain_extended_escape)
next
  case PosixBasic
  show ?thesis
    unfolding PosixBasic lex_token_def regex_dialect.case
    by (intro plain_token_intros plain_escape) (simp_all add: gnu_dialect_def)
qed (use assms in \<open>simp_all add: gnu_dialect_def\<close>)

lemma plain_lex_loop:
  "gnu_dialect dialect \<Longrightarrow> plain_error (lex_loop flag dialect ts can_repeat depth branch_start s)"
proof (induction flag dialect ts can_repeat depth branch_start s rule: lex_loop.induct)
  case (2 flag dialect ts can_repeat depth branch_start c rest)
  then show ?case by (auto intro!: plain_error_bind plain_token)
qed auto

definition plain_parse :: "'a gnu_parsed \<Rightarrow> bool" where
  "plain_parse p \<longleftrightarrow> (case p of Some (Inl err) \<Rightarrow> exit_code err = 1 | _ \<Rightarrow> True)"

lemma plain_parse_simps [simp]:
  "plain_parse None" "plain_parse (Some (Inl err)) \<longleftrightarrow> exit_code err = 1" "plain_parse (Some (Inr x))"
  by (simp_all add: plain_parse_def)

lemma plain_parse_bind:
  "plain_parse p \<Longrightarrow> (\<And>x ts cap. plain_parse (f x ts cap)) \<Longrightarrow> plain_parse (gnu_bind p f)"
proof (cases p)
  case (Some q)
  moreover assume "plain_parse p" "\<And>x ts cap. plain_parse (f x ts cap)"
  ultimately show ?thesis by (cases q) auto
qed simp

lemma plain_parsers:
  "plain_parse (parse_alternation n flag dialect ts cap)
   \<and> plain_parse (alternation_loop n flag dialect es ts cap)
   \<and> plain_parse (sequence_loop n flag dialect es ts cap)
   \<and> plain_parse (parse_regex_atom n flag dialect t ts cap)
   \<and> plain_parse (parse_group n flag dialect ts cap)"
proof (induction n arbitrary: ts cap es t)
  case (Suc n)
  have "plain_parse (Some (try_bind (plain_atom flag dialect t) (\<lambda>e. Inr (e, ts, cap))))"
    by (cases t) simp_all
  then show ?case
    using Suc.IH by (auto intro!: plain_parse_bind split: list.split option.split)
qed simp

lemma plain_walk:
  "plain_error (walk_regex flag dialect e c1)"
  "plain_error (walk_concat flag dialect es c2)"
  "plain_error (walk_branches flag dialect es c3 c4)"
  by (induction flag dialect e c1 and flag dialect es c2 and flag dialect es c3 c4
      rule: walk_regex_walk_concat_walk_branches.induct) auto

text \<open>
  C36.  The compiler of the GNU dialects ends on every pattern, however malformed: the fuel of
  the parser is enough, no unreachable branch is entered, and what is not a regular expression
  is a diagnostic with exit code 1.
\<close>

theorem gnu_regex_compiles_or_reports:
  assumes "gnu_dialect dialect"
  shows "case parse_gnu_regex flag dialect pat of Inl err \<Rightarrow> exit_code err = 1 | Inr re \<Rightarrow> True"
proof -
  have "plain_error (parse_tokens flag dialect ts)" for ts
    using gnu_fuel_enough [of ts "gnu_fuel (length ts)" flag dialect 0 "[]" TDot]
      plain_parsers [of "gnu_fuel (length ts)" flag dialect ts 0 "[]" TDot]
    by (auto simp: parse_tokens_def gnu_fuel_def split: option.split sum.split)
  then have "plain_error (parse_gnu_regex flag dialect pat)"
    by (auto simp: parse_gnu_regex_def lex_gnu_tokens_def validate_gnu_regex_def
        intro!: plain_error_bind plain_lex_loop [OF assms] plain_walk)
  then show ?thesis by (simp add: plain_error_def)
qed

lemma gnu_regex_compiles_or_reports_witness:
  "case parse_gnu_regex ''-regex'' PosixBasic ''a'' of Inl err \<Rightarrow> exit_code err = 1 | Inr re \<Rightarrow> True"
  by (rule gnu_regex_compiles_or_reports) (simp add: gnu_dialect_def)

section \<open>Captures and back references\<close>

fun groups :: "gnu_expr \<Rightarrow> u16 list" where
  "groups (GConcat items) = concat (map groups items)"
| "groups (GAlternation items) = concat (map groups items)"
| "groups (GGroup i e) = i # groups e"
| "groups (GRepeat e kind) = groups e"
| "groups _ = []"

fun references :: "gnu_expr \<Rightarrow> u16 set" where
  "references (GConcat items) = (\<Union>e\<in>set items. references e)"
| "references (GAlternation items) = (\<Union>e\<in>set items. references e)"
| "references (GGroup i e) = references e"
| "references (GRepeat e kind) = references e"
| "references (GBackreference i) = {i}"
| "references _ = {}"

text \<open>The operators the \<^verbatim>\<open>regex\<close> crate has no equivalent of.\<close>

fun special_token :: "gnu_token \<Rightarrow> bool" where
  "special_token (TBackreference i) \<longleftrightarrow> True"
| "special_token (TAssertion a) \<longleftrightarrow> True"
| "special_token _ \<longleftrightarrow> False"

definition needs_pcre2 :: "gnu_expr \<Rightarrow> bool" where
  "needs_pcre2 e \<longleftrightarrow> visit_backend e = BackendPcre2"

lemma image_eq_iff: "y \<in> f ` S \<longleftrightarrow> (\<exists>x\<in>S. f x = y)"
  by blast

lemma needs_pcre2_leaf [simp]:
  "needs_pcre2 (GBackreference i)" "needs_pcre2 (GAssertion a)"
  "\<not> needs_pcre2 GEmpty" "\<not> needs_pcre2 (GnuLiteral c)" "\<not> needs_pcre2 GDot"
  "\<not> needs_pcre2 (GClass cls)" "\<not> needs_pcre2 (GAnchor an)" "\<not> needs_pcre2 (GWordByteClass neg)"
  by (simp_all add: needs_pcre2_def)

lemma needs_pcre2_node [simp]:
  "needs_pcre2 (GConcat items) \<longleftrightarrow> (\<exists>e\<in>set items. needs_pcre2 e)"
  "needs_pcre2 (GAlternation items) \<longleftrightarrow> (\<exists>e\<in>set items. needs_pcre2 e)"
  "needs_pcre2 (GGroup i e) \<longleftrightarrow> needs_pcre2 e"
  "needs_pcre2 (GRepeat e kind) \<longleftrightarrow> needs_pcre2 e"
proof -
  have any: "BackendPcre2 \<in> set (map visit_backend items) \<longleftrightarrow> (\<exists>e\<in>set items. visit_backend e = BackendPcre2)"
    by (auto simp: image_eq_iff)
  show "needs_pcre2 (GConcat items) \<longleftrightarrow> (\<exists>e\<in>set items. needs_pcre2 e)"
    "needs_pcre2 (GAlternation items) \<longleftrightarrow> (\<exists>e\<in>set items. needs_pcre2 e)"
    unfolding needs_pcre2_def visit_backend.simps any by (auto split: if_splits)
qed (simp_all add: needs_pcre2_def)

definition opens :: "gnu_token list \<Rightarrow> nat" where
  "opens ts = length (filter ((=) TGroupOpen) ts)"

lemma opens_simps [simp]:
  "opens [] = 0" "opens (t # ts) = (if t = TGroupOpen then Suc (opens ts) else opens ts)"
  "opens (ts @ us) = opens ts + opens us"
  by (simp_all add: opens_def)

text \<open>The captures numbered after \<open>cap\<close>.\<close>

definition numbered :: "u16 \<Rightarrow> nat \<Rightarrow> u16 list" where
  "numbered cap k = map (\<lambda>i. cap + of_nat (Suc i)) [0..<k]"

lemma numbered_simps [simp]:
  "numbered cap 0 = []"
  "numbered cap (j + k) = numbered cap j @ numbered (cap + of_nat j) k"
proof -
  show "numbered cap (j + k) = numbered cap j @ numbered (cap + of_nat j) k"
    by (induction k) (simp_all only: numbered_def add_Suc_right upt_Suc_append le0 map_append
        list.map upt_0 append.right_neutral append_assoc of_nat_Suc of_nat_add ac_simps add_0_right add_0)
qed (simp add: numbered_def)

lemma numbered_Suc: "numbered cap (Suc k) = (cap + 1) # numbered (cap + 1) k"
  using numbered_simps(2) [of cap 1 k] by (simp add: numbered_def)

text \<open>
  What a parse makes of the tokens it takes: their groups in order after those of the items it
  started from, and the special operators.
\<close>

definition reads_as ::
  "gnu_token list \<Rightarrow> u16 \<Rightarrow> gnu_expr list \<Rightarrow> gnu_expr gnu_parsed \<Rightarrow> bool" where
  "reads_as ts cap items p \<longleftrightarrow>
     (\<forall>e ts' cap'. p = Some (Inr (e, ts', cap')) \<longrightarrow>
        (\<exists>pre. ts = pre @ ts' \<and> cap' = cap + of_nat (opens pre)
          \<and> groups e = concat (map groups items) @ numbered cap (opens pre)
          \<and> (needs_pcre2 e \<longleftrightarrow> (\<exists>x\<in>set items. needs_pcre2 x) \<or> (\<exists>t\<in>set pre. special_token t))))"

lemma reads_as_simps [simp]: "reads_as ts cap items None" "reads_as ts cap items (Some (Inl err))"
  by (simp_all add: reads_as_def)

lemma reads_as_done:
  assumes "groups e = concat (map groups items)" "needs_pcre2 e \<longleftrightarrow> (\<exists>x\<in>set items. needs_pcre2 x)"
  shows "reads_as ts cap items (Some (Inr (e, ts, cap)))"
  unfolding reads_as_def using assms by (intro allI impI exI [of _ "[]"]) auto

lemma reads_as_skip:
  assumes "reads_as ts cap items p" "\<not> special_token t" "t \<noteq> TGroupOpen"
  shows "reads_as (t # ts) cap items p"
  unfolding reads_as_def
proof (intro allI impI)
  fix e ts' cap'
  assume "p = Some (Inr (e, ts', cap'))"
  with assms obtain pre where "ts = pre @ ts'" "cap' = cap + of_nat (opens pre)"
      "groups e = concat (map groups items) @ numbered cap (opens pre)"
      "needs_pcre2 e \<longleftrightarrow> (\<exists>x\<in>set items. needs_pcre2 x) \<or> (\<exists>t\<in>set pre. special_token t)"
    unfolding reads_as_def by blast
  with assms(2,3) show "\<exists>pre. t # ts = pre @ ts' \<and> cap' = cap + of_nat (opens pre)
      \<and> groups e = concat (map groups items) @ numbered cap (opens pre)
      \<and> (needs_pcre2 e \<longleftrightarrow> (\<exists>x\<in>set items. needs_pcre2 x) \<or> (\<exists>t\<in>set pre. special_token t))"
    by (intro exI [of _ "t # pre"]) auto
qed

lemma reads_as_bind:
  assumes "reads_as ts cap [] p" "\<And>e ts cap. reads_as ts cap (items @ [e]) (f e ts cap)"
  shows "reads_as ts cap items (gnu_bind p f)"
  unfolding reads_as_def
proof (intro allI impI)
  fix e' ts2 cap2
  assume eq: "gnu_bind p f = Some (Inr (e', ts2, cap2))"
  then obtain e ts1 cap1 where p: "p = Some (Inr (e, ts1, cap1))" and f: "f e ts1 cap1 = Some (Inr (e', ts2, cap2))"
    by (auto simp: gnu_bind_def split: option.splits sum.splits)
  from assms(1) p obtain pre where 1: "ts = pre @ ts1" "cap1 = cap + of_nat (opens pre)"
      "groups e = numbered cap (opens pre)" "needs_pcre2 e \<longleftrightarrow> (\<exists>t\<in>set pre. special_token t)"
    unfolding reads_as_def by auto
  from assms(2) [of ts1 cap1 e] f obtain post where 2: "ts1 = post @ ts2" "cap2 = cap1 + of_nat (opens post)"
      "groups e' = concat (map groups (items @ [e])) @ numbered cap1 (opens post)"
      "needs_pcre2 e' \<longleftrightarrow> (\<exists>x\<in>set (items @ [e]). needs_pcre2 x) \<or> (\<exists>t\<in>set post. special_token t)"
    unfolding reads_as_def by blast
  show "\<exists>pre. ts = pre @ ts2 \<and> cap2 = cap + of_nat (opens pre)
      \<and> groups e' = concat (map groups items) @ numbered cap (opens pre)
      \<and> (needs_pcre2 e' \<longleftrightarrow> (\<exists>x\<in>set items. needs_pcre2 x) \<or> (\<exists>t\<in>set pre. special_token t))"
    using 1 2 by (intro exI [of _ "pre @ post"]) auto
qed

lemma groups_concat_items [simp]: "groups (concat_items items) = concat (map groups items)"
  by (auto simp: concat_items_def split: list.split)

lemma needs_concat_items [simp]: "needs_pcre2 (concat_items items) \<longleftrightarrow> (\<exists>x\<in>set items. needs_pcre2 x)"
  by (auto simp: concat_items_def split: list.split)

lemma groups_alternation_of [simp]: "groups (alternation_of items) = concat (map groups items)"
  by (auto simp: alternation_of_def split: list.split)

lemma needs_alternation_of [simp]: "needs_pcre2 (alternation_of items) \<longleftrightarrow> (\<exists>x\<in>set items. needs_pcre2 x)"
  by (auto simp: alternation_of_def split: list.split)

lemma reads_as_repeat:
  assumes "items \<noteq> []" "reads_as ts cap (butlast items @ [GRepeat (last items) kind]) p"
  shows "reads_as ts cap items p"
proof -
  have "items = butlast items @ [last items]" using assms(1) by simp
  then have "concat (map groups (butlast items @ [GRepeat (last items) kind])) = concat (map groups items)"
    "(\<exists>x\<in>set (butlast items @ [GRepeat (last items) kind]). needs_pcre2 x) \<longleftrightarrow> (\<exists>x\<in>set items. needs_pcre2 x)"
    by (metis concat_append concat.simps groups.simps(4) list.simps(8,9) map_append)
      (metis (no_types, opaque_lifting) Un_iff list.set_intros(1) needs_pcre2_node(4) set_ConsD set_append
        empty_iff list.set(1) \<open>items = butlast items @ [last items]\<close>)
  then show ?thesis using assms(2) by (simp only: reads_as_def)
qed

lemma plain_atom_reads:
  assumes "t \<noteq> TGroupOpen" "plain_atom flag dialect t = Inr e"
  shows "groups e = []" "needs_pcre2 e \<longleftrightarrow> special_token t"
  using assms by (cases t; auto)+

lemma reads_as_close_group:
  assumes "reads_as ts (cap + 1) [] p"
  shows "reads_as (TGroupOpen # ts) cap [] (gnu_bind p (\<lambda>e ts' cap'.
       if slice_get ts' 0 = Some TGroupClose then Some (Inr (GGroup (cap + 1) e, drop 1 ts', cap'))
       else Some (Inl err)))"
  unfolding reads_as_def
proof (intro allI impI)
  fix e' ts2 cap2
  assume eq: "gnu_bind p (\<lambda>e ts' cap'.
       if slice_get ts' 0 = Some TGroupClose then Some (Inr (GGroup (cap + 1) e, drop 1 ts', cap'))
       else Some (Inl err)) = Some (Inr (e', ts2, cap2))"
  then obtain e ts1 where p: "p = Some (Inr (e, ts1, cap2))" and c: "slice_get ts1 0 = Some TGroupClose"
    and e': "e' = GGroup (cap + 1) e" "ts2 = drop 1 ts1"
    by (auto simp: gnu_bind_def split: option.splits sum.splits if_splits)
  from c have ts1: "ts1 = TGroupClose # ts2" using e'(2) by (cases ts1) (simp_all add: slice_get_def)
  from assms p obtain pre where 1: "ts = pre @ ts1" "cap2 = cap + 1 + of_nat (opens pre)"
      "groups e = numbered (cap + 1) (opens pre)" "needs_pcre2 e \<longleftrightarrow> (\<exists>t\<in>set pre. special_token t)"
    unfolding reads_as_def by auto
  show "\<exists>pre. TGroupOpen # ts = pre @ ts2 \<and> cap2 = cap + of_nat (opens pre)
      \<and> groups e' = concat (map groups []) @ numbered cap (opens pre)
      \<and> (needs_pcre2 e' \<longleftrightarrow> (\<exists>x\<in>set []. needs_pcre2 x) \<or> (\<exists>t\<in>set pre. special_token t))"
  proof (intro exI conjI)
    let ?pre = "TGroupOpen # pre @ [TGroupClose]"
    have o: "opens ?pre = Suc (opens pre)" by simp
    show "TGroupOpen # ts = ?pre @ ts2" using 1(1) ts1 by simp
    show "cap2 = cap + of_nat (opens ?pre)" unfolding o 1(2) by simp
    show "groups e' = concat (map groups []) @ numbered cap (opens ?pre)"
      unfolding o e'(1) numbered_Suc using 1(3) by simp
    show "needs_pcre2 e' \<longleftrightarrow> (\<exists>x\<in>set []. needs_pcre2 x) \<or> (\<exists>t\<in>set ?pre. special_token t)"
      unfolding e'(1) using 1(4) by simp
  qed
qed

lemma parsers_read:
  "reads_as ts cap [] (parse_alternation n flag dialect ts cap)
   \<and> reads_as ts cap es (alternation_loop n flag dialect es ts cap)
   \<and> reads_as ts cap es (sequence_loop n flag dialect es ts cap)
   \<and> (\<not> ends_sequence t \<longrightarrow> quantifier_of t = None \<longrightarrow>
        reads_as (t # ts) cap [] (parse_regex_atom n flag dialect t ts cap))
   \<and> reads_as (TGroupOpen # ts) cap [] (parse_group n flag dialect ts cap)"
proof (induction n arbitrary: ts cap es t)
  case (Suc n)
  have alt: "reads_as ts cap [] (parse_alternation n flag dialect ts cap)" for ts cap
    using Suc.IH by blast
  have loop: "reads_as ts cap es (alternation_loop n flag dialect es ts cap)" for ts cap es
    using Suc.IH by blast
  have seq: "reads_as ts cap es (sequence_loop n flag dialect es ts cap)" for ts cap es
    using Suc.IH by blast
  have atom: "\<not> ends_sequence t \<Longrightarrow> quantifier_of t = None \<Longrightarrow>
      reads_as (t # ts) cap [] (parse_regex_atom n flag dialect t ts cap)" for t ts cap
    using Suc.IH by blast
  have grp: "reads_as (TGroupOpen # ts) cap [] (parse_group n flag dialect ts cap)" for ts cap
    using Suc.IH by blast
  have first: "reads_as ts cap [] (parse_alternation (Suc n) flag dialect ts cap)"
    unfolding parse_alternation.simps
  proof (rule reads_as_bind [OF seq])
    show "reads_as ts cap ([] @ [e]) (alternation_loop n flag dialect [e] ts cap)" for e ts cap
      using loop [of ts cap "[e]"] by simp
  qed
  have second: "reads_as ts cap es (alternation_loop (Suc n) flag dialect es ts cap)"
  proof (cases "slice_get ts 0 = Some TAlternation")
    case True
    then obtain ts' where ts: "ts = TAlternation # ts'" by (cases ts) (auto simp: slice_get_def)
    have "reads_as (TAlternation # ts') cap es (gnu_bind (sequence_loop n flag dialect [] ts' cap)
        (\<lambda>e ts cap. alternation_loop n flag dialect (es @ [e]) ts cap))"
      by (intro reads_as_skip reads_as_bind seq loop) simp_all
    then show ?thesis using True ts by simp
  qed (simp add: reads_as_done)
  have third: "reads_as ts cap es (sequence_loop (Suc n) flag dialect es ts cap)"
  proof (cases ts)
    case (Cons t ts')
    show ?thesis
    proof (cases "quantifier_of t")
      case None
      then show ?thesis
        using Cons by (auto intro!: reads_as_done reads_as_bind atom seq)
    next
      case (Some kind)
      then have "\<not> special_token t" "t \<noteq> TGroupOpen" by (cases t; simp)+
      then show ?thesis
        using Cons Some by (auto intro!: reads_as_done reads_as_skip reads_as_repeat [OF _ seq])
    qed
  qed (simp add: reads_as_done)
  have fourth: "reads_as (t # ts) cap [] (parse_regex_atom (Suc n) flag dialect t ts cap)"
    if "\<not> ends_sequence t" "quantifier_of t = None"
  proof (cases "t = TGroupOpen")
    case False
    show ?thesis
    proof (cases "plain_atom flag dialect t")
      case (Inr e)
      with False plain_atom_reads [OF False Inr] show ?thesis
        unfolding reads_as_def by (auto intro!: exI [of _ "[t]"])
    qed (use False in simp)
  qed (simp add: grp)
  have fifth: "reads_as (TGroupOpen # ts) cap [] (parse_group (Suc n) flag dialect ts cap)"
    by (simp add: reads_as_close_group [OF alt])
  show ?case using first second third fourth fifth by blast
qed simp

lemma parse_tokens_reads:
  assumes "parse_tokens flag dialect ts = Inr re"
  shows "groups (gnu_root re) = numbered 0 (opens ts)" "capture_count re = of_nat (opens ts)"
    "needs_pcre2 (gnu_root re) \<longleftrightarrow> (\<exists>t\<in>set ts. special_token t)"
proof -
  from assms obtain e cap where p: "parse_alternation (gnu_fuel (length ts)) flag dialect ts 0 = Some (Inr (e, [], cap))"
    and re: "re = \<lparr>gnu_root = e, capture_count = cap\<rparr>"
    by (auto simp: parse_tokens_def split: option.splits sum.splits if_splits)
  have "reads_as ts 0 [] (parse_alternation (gnu_fuel (length ts)) flag dialect ts 0)"
    using parsers_read by blast
  with p show "groups (gnu_root re) = numbered 0 (opens ts)" "capture_count re = of_nat (opens ts)"
    "needs_pcre2 (gnu_root re) \<longleftrightarrow> (\<exists>t\<in>set ts. special_token t)"
    by (auto simp: reads_as_def re)
qed

lemma lex_loop_length:
  "lex_loop flag dialect ts can_repeat depth branch_start s = Inr us \<Longrightarrow> length us \<le> length ts + length s"
proof (induction flag dialect ts can_repeat depth branch_start s rule: lex_loop.induct)
  case (2 flag dialect ts can_repeat depth branch_start c rest)
  from 2(2) obtain t r d where tok: "lex_token flag dialect c rest can_repeat depth branch_start = Inr (t, r, d)"
    and rec: "lex_loop flag dialect (ts @ [t]) (token_can_repeat t) d (t = TGroupOpen \<or> t = TAlternation) r = Inr us"
    by (auto simp: result_simps)
  show ?case
    using 2(1) [OF tok refl refl] rec lex_token_shorter [OF tok] by fastforce
qed (simp split: if_splits)

lemma opens_length: "opens ts \<le> length ts"
  by (simp add: opens_def)

text \<open>What the walk over back references guarantees.\<close>

lemma walk_references:
  "walk_regex flag dialect e k1 = Inr c \<Longrightarrow>
     (c = k1 \<or> c \<in> set (groups e)) \<and> k1 \<le> c \<and>
     (\<forall>i\<in>references e. i \<noteq> 0 \<and> (i \<le> k1 \<or> (\<exists>g\<in>set (groups e). i \<le> g)))"
  "walk_concat flag dialect es k2 = Inr c \<Longrightarrow>
     (c = k2 \<or> (\<exists>e\<in>set es. c \<in> set (groups e))) \<and> k2 \<le> c \<and>
     (\<forall>e\<in>set es. \<forall>i\<in>references e. i \<noteq> 0 \<and> (i \<le> k2 \<or> (\<exists>e\<in>set es. \<exists>g\<in>set (groups e). i \<le> g)))"
  "walk_branches flag dialect es k3 m = Inr c \<Longrightarrow>
     (c = m \<or> c = k3 \<or> (\<exists>e\<in>set es. c \<in> set (groups e))) \<and> m \<le> c \<and>
     (\<forall>e\<in>set es. \<forall>i\<in>references e. i \<noteq> 0 \<and> (i \<le> k3 \<or> (\<exists>e\<in>set es. \<exists>g\<in>set (groups e). i \<le> g)))"
proof (induction flag dialect e k1 and flag dialect es k2 and flag dialect es k3 m arbitrary: c and c and c
    rule: walk_regex_walk_concat_walk_branches.induct)
  case (1 flag dialect i closed)
  then show ?case by (auto split: if_splits)
next
  case (2 flag dialect items closed)
  then show ?case using 2(1) [of c] by simp
next
  case (3 flag dialect items closed)
  then show ?case using 3(1) [of c] by simp
next
  case (4 flag dialect i e closed)
  then obtain d where d: "walk_regex flag dialect e closed = Inr d" "c = max d i" by (auto simp: result_simps)
  from 4(1) [OF d(1)] d(2) show ?case by (auto simp: max_def)
next
  case (5 flag dialect e kind closed)
  then show ?case by (auto split: if_splits)
next
  case (8 flag dialect e es closed)
  from 8(3) obtain d where d: "walk_regex flag dialect e closed = Inr d" "walk_concat flag dialect es d = Inr c"
    by (auto simp: result_simps)
  note a = 8(1) [OF d(1)] and b = 8(2) [OF d]
  have le: "i \<le> closed \<or> (\<exists>g\<in>set (groups e). i \<le> g)" if "i \<le> d" for i
    using that a by auto
  show ?case
  proof (intro conjI ballI)
    show "c = closed \<or> (\<exists>x\<in>set (e # es). c \<in> set (groups x))" using a b by auto
    show "closed \<le> c" using a b by auto
    fix x i assume x: "x \<in> set (e # es)" and i: "i \<in> references x"
    have "i \<noteq> 0 \<and> (i \<le> closed \<or> (\<exists>e\<in>set (e # es). \<exists>g\<in>set (groups e). i \<le> g))"
    proof (cases "x = e")
      case True
      then have "i \<noteq> 0 \<and> (i \<le> closed \<or> (\<exists>g\<in>set (groups e). i \<le> g))" using a i by blast
      moreover have "e \<in> set (e # es)" by simp
      ultimately show ?thesis by blast
    next
      case False
      then have "x \<in> set es" using x by simp
      then have "i \<noteq> 0 \<and> (i \<le> d \<or> (\<exists>e\<in>set es. \<exists>g\<in>set (groups e). i \<le> g))" using b i by blast
      moreover have "set es \<subseteq> set (e # es)" "e \<in> set (e # es)" by auto
      ultimately show ?thesis using le [of i] by blast
    qed
    then show "i \<noteq> 0" "i \<le> closed \<or> (\<exists>e\<in>set (e # es). \<exists>g\<in>set (groups e). i \<le> g)" by blast+
  qed
next
  case (10 flag dialect e es closed max_closed)
  from 10(3) obtain d where d: "walk_regex flag dialect e closed = Inr d"
      "walk_branches flag dialect es closed (max max_closed d) = Inr c"
    by (auto simp: result_simps)
  note a = 10(1) [OF d(1)] and b = 10(2) [OF d]
  show ?case
  proof (intro conjI ballI)
    show "c = max_closed \<or> c = closed \<or> (\<exists>x\<in>set (e # es). c \<in> set (groups x))"
      using a b by (auto simp: max_def split: if_splits)
    show "max_closed \<le> c" using b by auto
    fix x i assume x: "x \<in> set (e # es)" and i: "i \<in> references x"
    have "i \<noteq> 0 \<and> (i \<le> closed \<or> (\<exists>e\<in>set (e # es). \<exists>g\<in>set (groups e). i \<le> g))"
    proof (cases "x = e")
      case True
      then have "i \<noteq> 0 \<and> (i \<le> closed \<or> (\<exists>g\<in>set (groups e). i \<le> g))" using a i by blast
      moreover have "e \<in> set (e # es)" by simp
      ultimately show ?thesis by blast
    next
      case False
      then have "x \<in> set es" using x by simp
      then have "i \<noteq> 0 \<and> (i \<le> closed \<or> (\<exists>e\<in>set es. \<exists>g\<in>set (groups e). i \<le> g))" using b i by blast
      moreover have "set es \<subseteq> set (e # es)" by auto
      ultimately show ?thesis by blast
    qed
    then show "i \<noteq> 0" "i \<le> closed \<or> (\<exists>e\<in>set (e # es). \<exists>g\<in>set (groups e). i \<le> g)" by blast+
  qed
qed simp_all

text \<open>
  C28.  Captures of a compiled GNU pattern: the groups are numbered 1, 2, 3 and so on in the
  order of their opening parentheses, the capture count is the number of groups, and a back
  reference never names a group that the pattern does not have.  (Up to 65535 bytes, where the
  16-bit capture number cannot wrap.)
\<close>

theorem gnu_captures_numbered:
  assumes "parse_gnu_regex flag dialect pat = Inr re" "length pat < 65536"
  shows "groups (gnu_root re) = map of_nat [1..<Suc (unat (capture_count re))]
    \<and> references (gnu_root re) \<subseteq> set (groups (gnu_root re))"
proof -
  from assms(1) obtain ts c where ts: "lex_gnu_tokens flag dialect pat = Inr ts"
    and re: "parse_tokens flag dialect ts = Inr re" and w: "walk_regex flag dialect (gnu_root re) 0 = Inr c"
    by (auto simp: parse_gnu_regex_def validate_gnu_regex_def result_simps)
  have "length ts \<le> length pat"
    using lex_loop_length [of flag dialect "[]"] ts by (force simp: lex_gnu_tokens_def)
  then have k: "opens ts < 65536" using opens_length [of ts] assms(2) by linarith
  then have un: "unat (of_nat (opens ts) :: u16) = opens ts" by (simp add: unsigned_of_nat take_bit_nat_eq_self)
  note r = parse_tokens_reads [OF re]
  have num: "numbered 0 m = map of_nat [1..<Suc m]" for m
    by (simp add: numbered_def map_Suc_upt [symmetric] del: upt_Suc)
  have "groups (gnu_root re) = map of_nat [1..<Suc (unat (capture_count re))]"
    unfolding r(1,2) un num ..
  moreover have "i \<in> set (groups (gnu_root re))" if i: "i \<in> references (gnu_root re)" for i
  proof -
    obtain g where g: "g \<in> set (groups (gnu_root re))" "i \<noteq> 0" "i \<le> g"
      using walk_references(1) [OF w] i by (metis word_le_0_iff)
    then obtain j where j: "g = of_nat j" "1 \<le> j" "j \<le> opens ts"
      using r(1) by (auto simp: num simp del: upt_Suc)
    then have "unat g = j" using k by (simp add: unsigned_of_nat take_bit_nat_eq_self)
    then have "unat i \<le> opens ts" "1 \<le> unat i"
      using g(2,3) j(3) by (simp_all add: word_le_nat_alt unat_gt_0 Suc_leI)
    then have "of_nat (unat i) \<in> set (map of_nat [1..<Suc (opens ts)] :: u16 list)"
      unfolding set_map by (intro imageI) auto
    then show ?thesis by (simp only: r(1) num) simp
  qed
  ultimately show ?thesis by blast
qed

text \<open>\<^verbatim>\<open>\(a\|\(b\)\)\2\<close>.\<close>

definition sample_pattern :: string where
  "sample_pattern = [CHR 0x5C] @ ''(a'' @ [CHR 0x5C] @ ''|'' @ [CHR 0x5C] @ ''(b'' @ [CHR 0x5C] @ '')''
     @ [CHR 0x5C] @ '')'' @ [CHR 0x5C] @ ''2''"

definition sample_regex :: gnu_regex where
  "sample_regex = \<lparr>gnu_root = GConcat [GGroup 1 (GAlternation [GnuLiteral (CHR ''a''), GGroup 2 (GnuLiteral (CHR ''b''))]),
     GBackreference 2], capture_count = 2\<rparr>"

lemma sample_regex_parses: "parse_gnu_regex ''-regex'' PosixBasic sample_pattern = Inr sample_regex"
  by code_simp

lemma gnu_captures_numbered_witness:
  "groups (gnu_root sample_regex) = map of_nat [1..<Suc (unat (capture_count sample_regex))]
    \<and> references (gnu_root sample_regex) \<subseteq> set (groups (gnu_root sample_regex))"
  by (rule gnu_captures_numbered [OF sample_regex_parses]) (simp add: sample_pattern_def)

text \<open>
  A pattern goes to the PCRE2 engine exactly when its text has a back reference or a word
  or buffer operator; every other GNU pattern stays with the linear-time engine.
\<close>

theorem pcre2_only_when_needed:
  assumes "parse_gnu_regex flag dialect pat = Inr re"
  shows "choose_backend re = BackendPcre2 \<longleftrightarrow>
     (case lex_gnu_tokens flag dialect pat of Inl err \<Rightarrow> False | Inr ts \<Rightarrow> list_ex special_token ts)"
proof -
  from assms obtain ts where ts: "lex_gnu_tokens flag dialect pat = Inr ts"
    and re: "parse_tokens flag dialect ts = Inr re"
    by (auto simp: parse_gnu_regex_def result_simps)
  from parse_tokens_reads(3) [OF re] show ?thesis
    by (simp add: ts choose_backend_def needs_pcre2_def list_ex_iff)
qed

lemma pcre2_only_when_needed_witness:
  "choose_backend sample_regex = BackendPcre2 \<longleftrightarrow>
     (case lex_gnu_tokens ''-regex'' PosixBasic sample_pattern of Inl err \<Rightarrow> False | Inr ts \<Rightarrow> list_ex special_token ts)"
  by (rule pcre2_only_when_needed [OF sample_regex_parses])

section \<open>Quoted text\<close>

text \<open>A byte quoted for the extended dialect.\<close>

definition extended_special :: "byte \<Rightarrow> bool" where
  "extended_special c \<longleftrightarrow> c = CHR 0x5C \<or> c \<in> set ''.^$*+?()|{}[]''"

definition quote_extended :: "string \<Rightarrow> string" where
  "quote_extended s = concat (map (\<lambda>c. if extended_special c then [CHR 0x5C, c] else [c]) s)"

definition hex_val :: "byte \<Rightarrow> nat" where
  "hex_val c = (if is_ascii_digit c then digit_val c else byte_val c - 55)"

definition upper_hex_digit :: "byte \<Rightarrow> bool" where
  "upper_hex_digit c \<longleftrightarrow> is_ascii_digit c \<or> in_range 65 70 c"

text \<open>
  The syntax of the linear-time engine, as far as literals go: its metacharacters count
  as literals only after a backslash, \<^verbatim>\<open>\xHH\<close> is a byte, any other escape is an operator, and
  other printable characters are themselves.  A pattern that is nothing but literals
  matches one text; any other pattern has no such text.
\<close>

definition engine_meta :: "byte \<Rightarrow> bool" where
  "engine_meta c \<longleftrightarrow> c = CHR 0x5C \<or> c \<in> set ''.+*?()|[]{}^$''"

fun literal_text :: "string \<Rightarrow> string option" where
  "literal_text [] = Some []"
| "literal_text (c # s) =
     (if c = CHR 0x5C then
        (case s of
           [] \<Rightarrow> None
         | h # s' \<Rightarrow>
             if engine_meta h then map_option ((#) h) (literal_text s')
             else if h = CHR ''x'' then
               (case s' of
                  a # b # rest \<Rightarrow>
                    if upper_hex_digit a \<and> upper_hex_digit b
                    then map_option ((#) (char_of (hex_val a * 16 + hex_val b))) (literal_text rest)
                    else None
                | _ \<Rightarrow> None)
             else None)
      else if engine_meta c \<or> \<not> in_range 0x20 0x7E c then None
      else map_option ((#) c) (literal_text s))"

lemma hex_val_digit: "d < 16 \<Longrightarrow> hex_val (hex_digit_upper d) = d"
  by (auto simp: hex_val_def hex_digit_upper_def is_ascii_digit_def in_range_def byte_val_char_of
      digit_val_def digit_char_def)

lemma upper_hex_digit_upper: "d < 16 \<Longrightarrow> upper_hex_digit (hex_digit_upper d)"
  by (auto simp: upper_hex_digit_def hex_digit_upper_def is_ascii_digit_def in_range_def byte_val_char_of
      digit_char_def)

lemma literal_text_escaped: "engine_meta c \<Longrightarrow> literal_text (CHR 0x5C # c # s) = map_option ((#) c) (literal_text s)"
  by simp

lemma literal_text_push:
  "literal_text (push_literal_regex_byte c @ s) = map_option ((#) c) (literal_text s)"
proof -
  consider "c = CHR 0x5C \<or> c \<in> set ''.^$|()[]{}*+?''"
    | "\<not> (c = CHR 0x5C \<or> c \<in> set ''.^$|()[]{}*+?'')" "printable c"
    | "\<not> (c = CHR 0x5C \<or> c \<in> set ''.^$|()[]{}*+?'')" "\<not> printable c"
    by blast
  then show ?thesis
  proof cases
    case 1
    then have "engine_meta c" by (auto simp: engine_meta_def)
    from literal_text_escaped [OF this] 1 show ?thesis
      by (simp only: push_literal_regex_byte_def if_True append_Cons append_Nil)
  next
    case 2
    then have "\<not> engine_meta c" "c \<noteq> CHR 0x5C" by (auto simp: engine_meta_def)
    moreover have "in_range 0x20 0x7E c" using 2(2) by (auto simp: printable_def in_range_def)
    ultimately show ?thesis using 2 by (simp add: push_literal_regex_byte_def)
  next
    case 3
    have d: "byte_val c div 16 < 16" "byte_val c mod 16 < 16"
      using byte_val_less [of c] by (auto simp: less_mult_imp_div_less)
    have "push_literal_regex_byte c = push_hex_byte c"
      unfolding push_literal_regex_byte_def using 3 by (simp only: if_False)
    moreover have "char_of (byte_val c) = c" by (simp add: byte_val_def)
    moreover have "\<not> engine_meta (CHR ''x'')" by (simp add: engine_meta_def)
    ultimately show ?thesis
      using d by (simp add: push_hex_byte_def hex_val_digit upper_hex_digit_upper)
  qed
qed

lemma lex_quoted_byte:
  "lex_loop flag PosixExtended ts rep depth bs ((if extended_special c then [CHR 0x5C, c] else [c]) @ s)
     = lex_loop flag PosixExtended (ts @ [TLiteral c]) True depth False s"
proof (cases "extended_special c")
  case True
  have n: "\<not> backreference_digit c" "operator_escape c = None"
    using True by (auto simp: extended_special_def backreference_digit_def operator_escape_def
        in_range_def byte_val_def)
  have "lex_extended_escape flag PosixExtended (c # s) = Inr (TLiteral c, s)"
    using n True by (simp only: lex_extended_escape_def list.case if_False option.case extended_special_def if_True)
  then have "lex_token flag PosixExtended (CHR 0x5C) (c # s) rep depth bs = Inr (TLiteral c, s, depth)"
    by (simp add: lex_token_def)
  then show ?thesis using True by simp
next
  case False
  then have "lex_token flag PosixExtended c s rep depth bs = Inr (TLiteral c, s, depth)"
    by (simp add: lex_token_def extended_special_def)
  then show ?thesis using False by simp
qed

lemma lex_quoted:
  "lex_loop flag PosixExtended ts rep 0 bs (quote_extended s) = Inr (ts @ map TLiteral s)"
proof (induction s arbitrary: ts rep bs)
  case (Cons c s)
  have "quote_extended (c # s) = (if extended_special c then [CHR 0x5C, c] else [c]) @ quote_extended s"
    by (simp add: quote_extended_def)
  then show ?case using Cons lex_quoted_byte by simp
qed (simp add: quote_extended_def)

lemma sequence_of_literals:
  "length s + 1 \<le> n \<Longrightarrow> sequence_loop (Suc n) flag dialect es (map TLiteral s) cap =
     Some (Inr (concat_items (es @ map GnuLiteral s), [], cap))"
proof (induction s arbitrary: n es)
  case (Cons c s)
  then obtain m where m: "n = Suc m" by (cases n) auto
  have "sequence_loop (Suc n) flag dialect es (map TLiteral (c # s)) cap =
      sequence_loop n flag dialect (es @ [GnuLiteral c]) (map TLiteral s) cap"
    by (simp add: m ends_sequence_def del: sequence_loop.simps(2)) (simp add: ends_sequence_def)
  also have "\<dots> = Some (Inr (concat_items (es @ map GnuLiteral (c # s)), [], cap))"
    using Cons.IH [of m "es @ [GnuLiteral c]"] Cons.prems m by simp
  finally show ?case .
qed simp

text \<open>
  C35.  A text that is quoted byte by byte for the extended dialect is matched literally: the
  pattern compiles for every byte string, to the linear-time engine and without captures, and
  the pattern handed to that engine is made of literals only, every metacharacter of the text
  escaped, and they spell exactly the bytes of the text.
\<close>

theorem quoted_text_roundtrip:
  "\<exists>re. parse_gnu_regex flag PosixExtended (quote_extended s) = Inr re
     \<and> choose_backend re = BackendRust \<and> capture_count re = 0
     \<and> literal_text (render_regex (gnu_root re)) = Some s"
proof -
  let ?e = "concat_items (map GnuLiteral s)"
  have lex: "lex_gnu_tokens flag PosixExtended (quote_extended s) = Inr (map TLiteral s)"
    using lex_quoted [of flag "[]" False True s] by (simp add: lex_gnu_tokens_def)
  have "parse_alternation (Suc (Suc (5 * length s + 3))) flag PosixExtended (map TLiteral s) 0 =
      Some (Inr (?e, [], 0))"
  proof -
    have "sequence_loop (Suc (5 * length s + 3)) flag PosixExtended [] (map TLiteral s) 0 = Some (Inr (?e, [], 0))"
      using sequence_of_literals [of s "5 * length s + 3" flag PosixExtended "[]" 0] by simp
    then show ?thesis
      by (simp only: parse_alternation.simps gnu_bind_simps alternation_loop.simps)
        (simp add: alternation_of_def slice_get_def)
  qed
  then have parse: "parse_tokens flag PosixExtended (map TLiteral s) = Inr \<lparr>gnu_root = ?e, capture_count = 0\<rparr>"
    by (simp add: parse_tokens_def gnu_fuel_def eval_nat_numeral)
  have "walk_concat flag PosixExtended (map GnuLiteral t) 0 = Inr 0" for t by (induction t) auto
  then have walk: "walk_regex flag PosixExtended ?e 0 = Inr 0"
    by (auto simp: concat_items_def split: list.split)
  have "needs_pcre2 ?e = False" by simp
  then have backend: "visit_backend ?e = BackendRust"
    by (cases "visit_backend ?e") (simp_all add: needs_pcre2_def)
  have render: "render_regex ?e = concat (map push_literal_regex_byte s)"
    by (auto simp: concat_items_def comp_def split: list.split)
  have "literal_text (concat (map push_literal_regex_byte s)) = Some s"
    by (induction s) (simp_all add: literal_text_push)
  with parse walk backend render lex show ?thesis
    by (simp add: parse_gnu_regex_def validate_gnu_regex_def choose_backend_def)
qed

section \<open>What the written pattern does not keep\<close>

text \<open>
  The translated patterns of \<^verbatim>\<open>a+?\<close> (an optional \<^verbatim>\<open>a+\<close>, in the engine a lazy \<^verbatim>\<open>a+\<close>) and of
  \<^verbatim>\<open>\(a\)\10\<close> (the group again and a zero, in the engine the tenth group or an octal code),
  and a back reference to the group it stands in, accepted after an inner group has closed.
\<close>

definition translated :: "regex_dialect \<Rightarrow> string \<Rightarrow> string option" where
  "translated dialect pat =
     (case parse_gnu_regex ''-regex'' dialect pat of
        Inl err \<Rightarrow> None | Inr re \<Rightarrow> Some (render_regex (gnu_root re)))"

lemma optional_plus_written_lazily: "translated PosixExtended ''a+?'' = Some ''a+?''"
  by code_simp

lemma back_reference_before_digit:
  "translated PosixBasic ([CHR 0x5C] @ ''(a'' @ [CHR 0x5C] @ '')'' @ [CHR 0x5C] @ ''10'') =
     Some (''(a)'' @ [CHR 0x5C] @ ''10'')"
  by code_simp

lemma back_reference_to_open_group:
  "translated PosixExtended (''(a(b)'' @ [CHR 0x5C] @ ''1)'') \<noteq> None"
  by code_simp

lemma class_operators_written_raw: "translated PosixExtended ''[a&&b]'' = Some ''[a&&b]''"
  by code_simp

end
