(* ===== verification/Accounts.thy ===== *)
theory Accounts
  imports Eval
begin

text \<open>
  Users and groups on a Unix host: \<^verbatim>\<open>src/src/platform/accounts.rs\<close> and
  \<^verbatim>\<open>src/src/account.rs\<close>.  The account database is a record of the C library's re-entrant
  calls, each given the length of its buffer and returning a status and the fields read; they are
  called again with a buffer of twice the length as long as they report \<^verbatim>\<open>ERANGE\<close>.
\<close>

section \<open>The C library\<close>

definition ERANGE :: int where "ERANGE = 34"
definition ESRCH :: int where "ESRCH = 3"
definition EBADF :: int where "EBADF = 9"
definition EPERM :: int where "EPERM = 1"

text \<open>The identifier and name of an entry, when there is one.\<close>

type_synonym account_reply = "int \<times> (u32 \<times> os_string) option"

record account_calls =
  call_getpwnam :: "string \<Rightarrow> nat \<Rightarrow> account_reply"
  call_getgrnam :: "string \<Rightarrow> nat \<Rightarrow> account_reply"
  call_getpwuid :: "u32 \<Rightarrow> nat \<Rightarrow> account_reply"
  call_getgrgid :: "u32 \<Rightarrow> nat \<Rightarrow> account_reply"
  call_pw_size :: int
  call_gr_size :: int
  call_os_error :: "int \<Rightarrow> string"

definition c_string :: "os_string \<Rightarrow> string \<Rightarrow> string result" where
  "c_string raw label =
     (if CHR 0x00 \<in> set raw then Inl (diagnostic_new (label @ '' contains an interior NUL byte'') 1)
      else Inr raw)"

definition initial_buffer_size :: "int \<Rightarrow> nat" where
  "initial_buffer_size reported = (if reported > 0 then nat reported else 16 * 1024)"

definition nss_error :: "account_calls \<Rightarrow> string \<Rightarrow> int \<Rightarrow> diagnostic" where
  "nss_error db prefix code = diagnostic_new (prefix @ '': '' @ call_os_error db code) 1"

definition is_not_found_status :: "int \<Rightarrow> bool" where
  "is_not_found_status code \<longleftrightarrow> code \<in> {ENOENT, ESRCH, EBADF, EPERM}"

text \<open>The retry loop of the six look-ups; it ends when the library stops asking for room.\<close>

partial_function (option) lookup_loop ::
  "account_calls \<Rightarrow> string \<Rightarrow> (nat \<Rightarrow> account_reply) \<Rightarrow> nat \<Rightarrow> (u32 \<times> os_string) option result option" where
  "lookup_loop db prefix call len =
     (let (code, reply) = call len in
      if code = 0 then Some (Inr reply)
      else if code = ERANGE then lookup_loop db prefix call (2 * len)
      else if is_not_found_status code then Some (Inr None)
      else Some (Inl (nss_error db prefix code)))"

declare lookup_loop.simps [code]

text \<open>A step on a look-up that may not return.\<close>

definition try_opt :: "'a result option \<Rightarrow> ('a \<Rightarrow> 'b result) \<Rightarrow> 'b result option" where
  "try_opt r f = map_option (\<lambda>r. try_bind r f) r"

definition lookup_user_by_name :: "account_calls \<Rightarrow> os_string \<Rightarrow> u32 option result option" where
  "lookup_user_by_name db raw =
     (case c_string raw ''user name'' of
        Inl err \<Rightarrow> Some (Inl err)
      | Inr name \<Rightarrow>
          try_opt (lookup_loop db ''failed to look up user by name'' (call_getpwnam db name)
                     (initial_buffer_size (call_pw_size db)))
            (\<lambda>reply. Inr (map_option fst reply)))"

definition lookup_group_by_name :: "account_calls \<Rightarrow> os_string \<Rightarrow> u32 option result option" where
  "lookup_group_by_name db raw =
     (case c_string raw ''group name'' of
        Inl err \<Rightarrow> Some (Inl err)
      | Inr name \<Rightarrow>
          try_opt (lookup_loop db ''failed to look up group by name'' (call_getgrnam db name)
                     (initial_buffer_size (call_gr_size db)))
            (\<lambda>reply. Inr (map_option fst reply)))"

definition lookup_user_by_id :: "account_calls \<Rightarrow> u32 \<Rightarrow> bool result option" where
  "lookup_user_by_id db uid =
     try_opt (lookup_loop db ''failed to look up user by id'' (call_getpwuid db uid)
                (initial_buffer_size (call_pw_size db)))
       (\<lambda>reply. Inr (reply \<noteq> None))"

definition lookup_group_by_id :: "account_calls \<Rightarrow> u32 \<Rightarrow> bool result option" where
  "lookup_group_by_id db gid =
     try_opt (lookup_loop db ''failed to look up group by id'' (call_getgrgid db gid)
                (initial_buffer_size (call_gr_size db)))
       (\<lambda>reply. Inr (reply \<noteq> None))"

definition lookup_user_name_by_id :: "account_calls \<Rightarrow> u32 \<Rightarrow> os_string option result option" where
  "lookup_user_name_by_id db uid =
     try_opt (lookup_loop db ''failed to look up user name by id'' (call_getpwuid db uid)
                (initial_buffer_size (call_pw_size db)))
       (\<lambda>reply. Inr (map_option snd reply))"

definition lookup_group_name_by_id :: "account_calls \<Rightarrow> u32 \<Rightarrow> os_string option result option" where
  "lookup_group_name_by_id db gid =
     try_opt (lookup_loop db ''failed to look up group name by id'' (call_getgrgid db gid)
                (initial_buffer_size (call_gr_size db)))
       (\<lambda>reply. Inr (map_option snd reply))"

section \<open>The backend\<close>

definition parse_decimal_id :: "os_string \<Rightarrow> u32 option" where
  "parse_decimal_id raw =
     (if raw = [] \<or> \<not> list_all is_ascii_digit raw then None else parse_uint raw)"

definition resolve_user_principal :: "account_calls \<Rightarrow> os_string \<Rightarrow> principal_id result option" where
  "resolve_user_principal db raw =
     (case parse_decimal_id raw of
        Some uid \<Rightarrow> Some (Inr (PrincipalNumeric uid))
      | None \<Rightarrow>
          try_opt (lookup_user_by_name db raw) (\<lambda>found.
            case found of
              Some uid \<Rightarrow> Inr (PrincipalNumeric uid)
            | None \<Rightarrow>
                Inl (diagnostic_new (''`'' @ utf8_lossy raw @ ''` is not the name of a known user'') 1)))"

definition resolve_group_principal :: "account_calls \<Rightarrow> os_string \<Rightarrow> principal_id result option" where
  "resolve_group_principal db raw =
     (case parse_decimal_id raw of
        Some gid \<Rightarrow> Some (Inr (PrincipalNumeric gid))
      | None \<Rightarrow>
          try_opt (lookup_group_by_name db raw) (\<lambda>found.
            case found of
              Some gid \<Rightarrow> Inr (PrincipalNumeric gid)
            | None \<Rightarrow>
                Inl (diagnostic_new (''`'' @ utf8_lossy raw @ ''` is not the name of an existing group'') 1)))"

definition canonicalize_sid_principal :: "os_string \<Rightarrow> principal_id result" where
  "canonicalize_sid_principal raw =
     Inl (diagnostic_unsupported ''SID predicates are only supported on Windows'')"

text \<open>The four process-wide caches, one of each kind of look-up.\<close>

definition cached_value ::
  "(u32 \<Rightarrow> 'v result option) \<Rightarrow> u32 \<Rightarrow> (u32 \<rightharpoonup> 'v) \<Rightarrow> ('v result \<times> (u32 \<rightharpoonup> 'v)) option" where
  "cached_value lookup i cache =
     (case cache i of
        Some v \<Rightarrow> Some (Inr v, cache)
      | None \<Rightarrow>
          (case lookup i of
             None \<Rightarrow> None
           | Some (Inl err) \<Rightarrow> Some (Inl err, cache)
           | Some (Inr v) \<Rightarrow> Some (Inr v, cache(i \<mapsto> v))))"

record account_caches =
  user_exists_cache :: "u32 \<rightharpoonup> bool"
  group_exists_cache :: "u32 \<rightharpoonup> bool"
  user_name_cache :: "u32 \<rightharpoonup> os_string option"
  group_name_cache :: "u32 \<rightharpoonup> os_string option"

definition empty_caches :: account_caches where
  "empty_caches = \<lparr>user_exists_cache = Map.empty, group_exists_cache = Map.empty,
     user_name_cache = Map.empty, group_name_cache = Map.empty\<rparr>"

definition user_exists ::
  "account_calls \<Rightarrow> principal_id \<Rightarrow> account_caches \<Rightarrow> (bool result \<times> account_caches) option" where
  "user_exists db p cs =
     (case principal_numeric p of
        None \<Rightarrow> Some (Inr False, cs)
      | Some uid \<Rightarrow>
          map_option (\<lambda>(r, c). (r, cs\<lparr>user_exists_cache := c\<rparr>))
            (cached_value (lookup_user_by_id db) uid (user_exists_cache cs)))"

definition group_exists ::
  "account_calls \<Rightarrow> principal_id \<Rightarrow> account_caches \<Rightarrow> (bool result \<times> account_caches) option" where
  "group_exists db p cs =
     (case principal_numeric p of
        None \<Rightarrow> Some (Inr False, cs)
      | Some gid \<Rightarrow>
          map_option (\<lambda>(r, c). (r, cs\<lparr>group_exists_cache := c\<rparr>))
            (cached_value (lookup_group_by_id db) gid (group_exists_cache cs)))"

definition user_name ::
  "account_calls \<Rightarrow> principal_id \<Rightarrow> account_caches \<Rightarrow> (os_string option result \<times> account_caches) option" where
  "user_name db p cs =
     (case principal_numeric p of
        None \<Rightarrow> Some (Inr None, cs)
      | Some uid \<Rightarrow>
          map_option (\<lambda>(r, c). (r, cs\<lparr>user_name_cache := c\<rparr>))
            (cached_value (lookup_user_name_by_id db) uid (user_name_cache cs)))"

definition group_name ::
  "account_calls \<Rightarrow> principal_id \<Rightarrow> account_caches \<Rightarrow> (os_string option result \<times> account_caches) option" where
  "group_name db p cs =
     (case principal_numeric p of
        None \<Rightarrow> Some (Inr None, cs)
      | Some gid \<Rightarrow>
          map_option (\<lambda>(r, c). (r, cs\<lparr>group_name_cache := c\<rparr>))
            (cached_value (lookup_group_name_by_id db) gid (group_name_cache cs)))"

section \<open>The caches\<close>

text \<open>What a cache holds is what the look-up returns.\<close>

definition cache_ok :: "(u32 \<Rightarrow> 'v result option) \<Rightarrow> (u32 \<rightharpoonup> 'v) \<Rightarrow> bool" where
  "cache_ok lookup cache \<longleftrightarrow> (\<forall>i v. cache i = Some v \<longrightarrow> lookup i = Some (Inr v))"

lemma cached_value_lookup:
  assumes "cache_ok lookup cache"
  shows "map_option fst (cached_value lookup i cache) = lookup i"
    and "cached_value lookup i cache = Some (r, cache') \<Longrightarrow> cache_ok lookup cache'"
proof -
  show "map_option fst (cached_value lookup i cache) = lookup i"
    using assms by (auto simp: cached_value_def cache_ok_def split: option.split sum.split)
  show "cached_value lookup i cache = Some (r, cache') \<Longrightarrow> cache_ok lookup cache'"
    using assms by (auto simp: cached_value_def cache_ok_def split: option.splits sum.splits if_splits)
qed

definition caches_ok :: "account_calls \<Rightarrow> account_caches \<Rightarrow> bool" where
  "caches_ok db cs \<longleftrightarrow>
     cache_ok (lookup_user_by_id db) (user_exists_cache cs)
     \<and> cache_ok (lookup_group_by_id db) (group_exists_cache cs)
     \<and> cache_ok (lookup_user_name_by_id db) (user_name_cache cs)
     \<and> cache_ok (lookup_group_name_by_id db) (group_name_cache cs)"

text \<open>One question to the database, and a run of questions with the caches between them.\<close>

datatype account_query =
    QUserExists principal_id | QGroupExists principal_id | QUserName principal_id | QGroupName principal_id

datatype account_answer = AnsExists "bool result" | AnsName "os_string option result"

fun ask :: "account_calls \<Rightarrow> account_query \<Rightarrow> account_caches \<Rightarrow> (account_answer \<times> account_caches) option" where
  "ask db (QUserExists p) cs = map_option (\<lambda>(r, cs). (AnsExists r, cs)) (user_exists db p cs)"
| "ask db (QGroupExists p) cs = map_option (\<lambda>(r, cs). (AnsExists r, cs)) (group_exists db p cs)"
| "ask db (QUserName p) cs = map_option (\<lambda>(r, cs). (AnsName r, cs)) (user_name db p cs)"
| "ask db (QGroupName p) cs = map_option (\<lambda>(r, cs). (AnsName r, cs)) (group_name db p cs)"

fun ask_all ::
  "account_calls \<Rightarrow> account_query list \<Rightarrow> account_caches \<Rightarrow> (account_answer list \<times> account_caches) option" where
  "ask_all db [] cs = Some ([], cs)"
| "ask_all db (q # qs) cs =
     (case ask db q cs of
        None \<Rightarrow> None
      | Some (a, cs) \<Rightarrow> map_option (\<lambda>(as, cs). (a # as, cs)) (ask_all db qs cs))"

text \<open>The answer without any cache.\<close>

fun answer :: "account_calls \<Rightarrow> account_query \<Rightarrow> account_answer option" where
  "answer db (QUserExists p) =
     (case principal_numeric p of None \<Rightarrow> Some (AnsExists (Inr False))
      | Some uid \<Rightarrow> map_option AnsExists (lookup_user_by_id db uid))"
| "answer db (QGroupExists p) =
     (case principal_numeric p of None \<Rightarrow> Some (AnsExists (Inr False))
      | Some gid \<Rightarrow> map_option AnsExists (lookup_group_by_id db gid))"
| "answer db (QUserName p) =
     (case principal_numeric p of None \<Rightarrow> Some (AnsName (Inr None))
      | Some uid \<Rightarrow> map_option AnsName (lookup_user_name_by_id db uid))"
| "answer db (QGroupName p) =
     (case principal_numeric p of None \<Rightarrow> Some (AnsName (Inr None))
      | Some gid \<Rightarrow> map_option AnsName (lookup_group_name_by_id db gid))"

lemma ask_answers:
  assumes "caches_ok db cs"
  shows "map_option fst (ask db q cs) = answer db q"
    and "ask db q cs = Some (a, cs') \<Longrightarrow> caches_ok db cs'"
proof -
  note c = assms [unfolded caches_ok_def]
  show "map_option fst (ask db q cs) = answer db q"
    using c cached_value_lookup(1)
    by (cases q) (auto simp: user_exists_def group_exists_def user_name_def group_name_def
        option.map_comp comp_def case_prod_beta split: option.split
        simp flip: cached_value_lookup(1))
  show "ask db q cs = Some (a, cs') \<Longrightarrow> caches_ok db cs'"
    using c by (cases q) (auto simp: user_exists_def group_exists_def user_name_def group_name_def
        caches_ok_def split: option.splits dest: cached_value_lookup(2) [rotated])
qed

text \<open>
  The process-wide caches of user and group look-ups are invisible: any sequence of
  questions, asked from empty caches and in any mix of the four kinds, gets the answers the
  account database would give without a cache, and an error is never remembered.
\<close>

theorem account_caches_invisible:
  "map_option fst (ask_all db qs empty_caches) = those (map (answer db) qs)"
proof -
  have "map_option fst (ask_all db qs cs) = those (map (answer db) qs)" if "caches_ok db cs" for cs
    using that
  proof (induction qs arbitrary: cs)
    case (Cons q qs)
    show ?case
    proof (cases "ask db q cs")
      case None
      then show ?thesis using ask_answers(1) [OF Cons.prems, of q] by simp
    next
      case (Some r)
      obtain a cs' where r: "r = (a, cs')" by fastforce
      have "answer db q = Some a" using ask_answers(1) [OF Cons.prems, of q] Some r by simp
      moreover have "caches_ok db cs'" using ask_answers(2) [OF Cons.prems] Some r by blast
      ultimately show ?thesis
        using Cons.IH [of cs', symmetric] Some r
        by (cases "ask_all db qs cs'") (auto simp: option.map_comp comp_def case_prod_beta)
    qed
  qed simp
  then show ?thesis by (simp add: caches_ok_def cache_ok_def empty_caches_def)
qed

section \<open>The retry loop ends\<close>

lemma lookup_loop_returns:
  assumes room: "\<And>len. bound \<le> len \<Longrightarrow> fst (call len) \<noteq> ERANGE" and "0 < len"
  shows "\<exists>r. lookup_loop db prefix call len = Some r"
  using assms(2)
proof (induction "bound - len" arbitrary: len rule: less_induct)
  case less
  show ?case
  proof (cases "fst (call len) = ERANGE")
    case True
    then have "\<not> bound \<le> len" using room by blast
    then have "bound - 2 * len < bound - len" using less.prems by linarith
    from less.hyps [OF this] obtain r where "lookup_loop db prefix call (2 * len) = Some r"
      using less.prems by fastforce
    then show ?thesis
      using True by (subst lookup_loop.simps) (auto simp: case_prod_beta ERANGE_def)
  next
    case False
    then show ?thesis by (subst lookup_loop.simps) (auto simp: case_prod_beta)
  qed
qed

lemma initial_buffer_size_pos: "0 < initial_buffer_size reported"
  by (simp add: initial_buffer_size_def)

text \<open>
  \<^verbatim>\<open>-user\<close> and \<^verbatim>\<open>-group\<close> end: when the C library answers for every buffer of some size
  or more, doubling the buffer reaches that size from any size that \<^verbatim>\<open>sysconf\<close> reports, and
  the operand resolves to an identifier or to an error; an operand of digits that fits 32 bits is
  an identifier without any look-up.
\<close>

theorem resolve_principal_returns:
  assumes "\<And>name len. bound \<le> len \<Longrightarrow> fst (call_getpwnam db name len) \<noteq> ERANGE"
    "\<And>name len. bound \<le> len \<Longrightarrow> fst (call_getgrnam db name len) \<noteq> ERANGE"
  shows "(\<exists>r. resolve_user_principal db raw = Some r) \<and> (\<exists>r. resolve_group_principal db raw = Some r)
    \<and> (case parse_decimal_id raw of None \<Rightarrow> True
       | Some i \<Rightarrow> resolve_user_principal db raw = Some (Inr (PrincipalNumeric i)))"
proof -
  have "\<exists>r. lookup_user_by_name db raw = Some r"
    using lookup_loop_returns [where db = db, OF assms(1) initial_buffer_size_pos]
    by (fastforce simp: lookup_user_by_name_def try_opt_def split: sum.split)
  moreover have "\<exists>r. lookup_group_by_name db raw = Some r"
    using lookup_loop_returns [where db = db, OF assms(2) initial_buffer_size_pos]
    by (fastforce simp: lookup_group_by_name_def try_opt_def split: sum.split)
  ultimately show ?thesis
    by (auto simp: resolve_user_principal_def resolve_group_principal_def try_opt_def split: option.split)
qed

definition sample_accounts :: account_calls where
  "sample_accounts =
     \<lparr>call_getpwnam = \<lambda>name len. if len < 4096 then (ERANGE, None) else (0, Some (7, name)),
      call_getgrnam = \<lambda>name len. (ENOENT, None),
      call_getpwuid = \<lambda>uid len. (0, None), call_getgrgid = \<lambda>gid len. (0, None),
      call_pw_size = 1024, call_gr_size = - 1, call_os_error = \<lambda>code. []\<rparr>"

lemma resolve_principal_returns_witness:
  "(\<exists>r. resolve_user_principal sample_accounts ''alice'' = Some r)
    \<and> (\<exists>r. resolve_group_principal sample_accounts ''alice'' = Some r)
    \<and> (case parse_decimal_id ''alice'' of None \<Rightarrow> True
       | Some i \<Rightarrow> resolve_user_principal sample_accounts ''alice'' = Some (Inr (PrincipalNumeric i)))"
  by (rule resolve_principal_returns [where bound = 4096])
    (simp_all add: sample_accounts_def ERANGE_def ENOENT_def)

end
