(* ===== verification/Planner.thy ===== *)
theory Planner
  imports Literal_Time Regex_Gnu Exec_Batch Traversal_Control
begin

text \<open>
  From the command line's tree to the plan of a run: \<^verbatim>\<open>src/src/planner.rs\<close> and the support
  table of \<^verbatim>\<open>src/src/platform/capabilities.rs\<close>.  What planning asks the host (accounts, file
  attributes, the regular-expression engines, local time, the number of processors) is a
  record of functions.
\<close>

section \<open>Capabilities (platform/capabilities.rs)\<close>

datatype support_level = SupportExact | SupportApproximate string | SupportUnsupported string

datatype platform_feature =
    FeatFsType | FeatSameFileSystem | FeatBirthTime | FeatFileFlags | FeatReparseType
  | FeatNamedOwnership | FeatNumericOwnership | FeatWindowsOwnershipPredicates
  | FeatAccessPredicates | FeatMessagesLocale | FeatCaseInsensitiveGlob | FeatModeBits

datatype output_contract = ContractPosix | ContractWindowsNative

record platform_capabilities =
  cap_fstype :: support_level
  cap_same_file_system :: support_level
  cap_birth_time :: support_level
  cap_file_flags :: support_level
  cap_reparse_type :: support_level
  cap_named_ownership :: support_level
  cap_numeric_ownership :: support_level
  cap_windows_ownership :: support_level
  cap_access_predicates :: support_level
  cap_messages_locale :: support_level
  cap_case_insensitive_glob :: support_level
  cap_mode_bits :: support_level
  cap_output_contract :: output_contract

fun support :: "platform_capabilities \<Rightarrow> platform_feature \<Rightarrow> support_level" where
  "support caps FeatFsType = cap_fstype caps"
| "support caps FeatSameFileSystem = cap_same_file_system caps"
| "support caps FeatBirthTime = cap_birth_time caps"
| "support caps FeatFileFlags = cap_file_flags caps"
| "support caps FeatReparseType = cap_reparse_type caps"
| "support caps FeatNamedOwnership = cap_named_ownership caps"
| "support caps FeatNumericOwnership = cap_numeric_ownership caps"
| "support caps FeatWindowsOwnershipPredicates = cap_windows_ownership caps"
| "support caps FeatAccessPredicates = cap_access_predicates caps"
| "support caps FeatMessagesLocale = cap_messages_locale caps"
| "support caps FeatCaseInsensitiveGlob = cap_case_insensitive_glob caps"
| "support caps FeatModeBits = cap_mode_bits caps"

definition uses_windows_native_output_contract :: "platform_capabilities \<Rightarrow> bool" where
  "uses_windows_native_output_contract caps \<longleftrightarrow> cap_output_contract caps = ContractWindowsNative"

section \<open>Plans and planning state\<close>

record traversal_options =
  to_min_depth :: nat
  to_max_depth :: "nat option"
  to_same_file_system :: bool
  to_order :: traversal_order

record runtime_requirements =
  rr_mount_snapshot :: bool
  rr_evaluation_now :: timestamp
  rr_execdir_requires_safe_path :: bool
  rr_messages_locale_required :: bool

record temporal_state =
  ts_now :: timestamp
  ts_daystart_active :: bool

record planning_state =
  pl_temporal :: temporal_state
  pl_regex_dialect :: regex_dialect
  pl_saw_action :: bool
  pl_saw_delete :: bool
  pl_next_exec_batch_id :: exec_batch_id
  pl_startup_warnings :: "string list"
  pl_file_outputs :: "planned_file_output list"
  pl_file_output_ids :: "(component list, file_output_id) btree"

definition planning_state_new :: "timestamp \<Rightarrow> planning_state" where
  "planning_state_new now =
     \<lparr>pl_temporal = \<lparr>ts_now = now, ts_daystart_active = False\<rparr>, pl_regex_dialect = Emacs,
      pl_saw_action = False, pl_saw_delete = False, pl_next_exec_batch_id = 0,
      pl_startup_warnings = [], pl_file_outputs = [], pl_file_output_ids = bt_empty\<rparr>"

text \<open>What lowering changes: the three arguments the source passes by mutable reference.\<close>

record lowering =
  lw_traversal :: traversal_options
  lw_runtime :: runtime_requirements
  lw_state :: planning_state

datatype execution_mode = OrderedSingle | ParallelRelaxed

record 'rx execution_plan =
  plan_start_paths :: "path list"
  plan_follow_mode :: follow_mode
  plan_traversal :: traversal_options
  plan_runtime :: runtime_requirements
  plan_startup_warnings :: "string list"
  plan_file_outputs :: "planned_file_output list"
  plan_expr :: "'rx rexpr"
  plan_mode :: execution_mode
  plan_parallel_policy :: "parallel_policy option"
  plan_action_profile :: action_profile
  plan_runtime_policy :: runtime_policy
  plan_traversal_control :: "'rx rexpr option"

record ('r, 'p) plan_env =
  pe_capabilities :: platform_capabilities
  pe_reader :: platform_reader
  pe_stat :: "path \<Rightarrow> bool \<Rightarrow> stat_metadata io_result"
  pe_mktime :: mktime
  pe_localtime :: "int \<Rightarrow> full_tm option"
  pe_user :: "os_string \<Rightarrow> principal_id result"
  pe_group :: "os_string \<Rightarrow> principal_id result"
  pe_sid :: "os_string \<Rightarrow> principal_id result"
  pe_engines :: "('r, 'p) regex_engines"
  pe_flag_specs :: "flag_spec list"
  pe_host_parallelism :: nat

section \<open>Helpers\<close>

fun follow_step :: "follow_mode \<Rightarrow> global_option \<Rightarrow> follow_mode" where
  "follow_step mode (OptFollow next_mode) = next_mode"
| "follow_step mode OptVersion = Physical"

definition resolve_follow_mode :: "global_option list \<Rightarrow> follow_mode" where
  "resolve_follow_mode options = foldl follow_step Physical options"

definition push_warning :: "string \<Rightarrow> lowering \<Rightarrow> lowering" where
  "push_warning w st =
     st\<lparr>lw_state := (lw_state st)\<lparr>pl_startup_warnings := pl_startup_warnings (lw_state st) @ [w]\<rparr>\<rparr>"

definition require_platform_feature ::
  "platform_capabilities \<Rightarrow> platform_feature \<Rightarrow> lowering \<Rightarrow> lowering result" where
  "require_platform_feature caps feature st =
     (case support caps feature of
        SupportExact \<Rightarrow> Inr st
      | SupportApproximate msg \<Rightarrow> Inr (push_warning (''rfd: warning: '' @ msg) st)
      | SupportUnsupported msg \<Rightarrow> Inl (diagnostic_unsupported msg))"

definition validate_atom ::
  "string \<Rightarrow> platform_capabilities \<Rightarrow> printf_atom \<Rightarrow> lowering \<Rightarrow> lowering result" where
  "validate_atom flag caps atom st =
     (case atom of
        PDirective d \<Rightarrow>
          (let kind = directive_kind d in
           if kind = DUserSid then
             (if uses_windows_native_output_contract caps then Inr st
              else Inl (diagnostic_unsupported ''%US is only supported on Windows''))
           else if kind = DGroupSid then
             (if uses_windows_native_output_contract caps then Inr st
              else Inl (diagnostic_unsupported ''%GS is only supported on Windows''))
           else if kind \<in> {DUserId, DGroupId} then require_platform_feature caps FeatNumericOwnership st
           else if kind \<in> {DModeOctal, DModeSymbolic} then require_platform_feature caps FeatModeBits st
           else if kind \<in> {DDevice, DBlocks512, DBlocks1024} \<and> uses_windows_native_output_contract caps
           then Inl (diagnostic_new (''unsupported '' @ flag @ '' directive on Windows'') 1)
           else Inr st)
      | _ \<Rightarrow> Inr st)"

fun validate_platform_printf_program ::
  "string \<Rightarrow> platform_capabilities \<Rightarrow> printf_program \<Rightarrow> lowering \<Rightarrow> lowering result" where
  "validate_platform_printf_program flag caps [] st = Inr st"
| "validate_platform_printf_program flag caps (atom # atoms) st =
     try_bind (validate_atom flag caps atom st) (\<lambda>st.
       validate_platform_printf_program flag caps atoms st)"

definition windows_ownership_predicates_supported :: "platform_capabilities \<Rightarrow> bool" where
  "windows_ownership_predicates_supported caps \<longleftrightarrow>
     support caps FeatWindowsOwnershipPredicates = SupportExact"

definition unsupported_windows_numeric_ownership ::
  "string \<Rightarrow> platform_capabilities \<Rightarrow> diagnostic option" where
  "unsupported_windows_numeric_ownership flag caps =
     (if \<not> (case support caps FeatNumericOwnership of SupportUnsupported msg \<Rightarrow> True | _ \<Rightarrow> False) then None
      else if \<not> windows_ownership_predicates_supported caps then None
      else if flag = ''-uid'' then
        Some (diagnostic_unsupported ''-uid is not supported on Windows; use -owner-sid for SID matching'')
      else if flag = ''-gid'' then
        Some (diagnostic_unsupported ''-gid is not supported on Windows; use -group-sid for SID matching'')
      else None)"

definition require_windows_ownership_predicate ::
  "string \<Rightarrow> platform_capabilities \<Rightarrow> unit result" where
  "require_windows_ownership_predicate flag caps =
     (if windows_ownership_predicates_supported caps then Inr ()
      else Inl (diagnostic_unsupported (flag @ '' is only supported on Windows'')))"

definition parse_reparse_type :: "os_string \<Rightarrow> reparse_type_class result" where
  "parse_reparse_type raw =
     (let name = utf8_lossy raw in
      if name = ''symbolic'' then Inr ReparseSymbolic
      else if name = ''mount-point'' then Inr ReparseMountPoint
      else if name = ''app-exec-link'' then Inr ReparseAppExecLink
      else if name = ''wsl-symlink'' then Inr ReparseWslSymlink
      else if name = ''af-unix'' then Inr ReparseAfUnix
      else if name = ''cloud'' then Inr ReparseCloud
      else if name = ''projfs'' then Inr ReparseProjFs
      else if name = ''other'' then Inr ReparseOther
      else Inl (diagnostic_new (''unknown -reparse-type name `'' @ name @ ''`'') 1))"

definition relative_baseline :: "('r, 'p) plan_env \<Rightarrow> temporal_state \<Rightarrow> timestamp result" where
  "relative_baseline env t =
     (if ts_daystart_active t then local_day_start (pe_mktime env) (pe_localtime env) (ts_now t)
      else Inr (ts_now t))"

definition resolve_samefile_reference ::
  "('r, 'p) plan_env \<Rightarrow> path \<Rightarrow> follow_mode \<Rightarrow> file_identity result" where
  "resolve_samefile_reference env p mode =
     (let metadata =
        (if mode = Physical then pe_stat env p False
         else (case pe_stat env p True of Inr m \<Rightarrow> Inr m | Inl e \<Rightarrow> pe_stat env p False))
      in case metadata of
           Inl e \<Rightarrow> Inl (path_error p e)
         | Inr m \<Rightarrow> Inr (identity_from_metadata m))"

text \<open>The table of output files; paths are compared by components.\<close>

definition register_file_output :: "path \<Rightarrow> lowering \<Rightarrow> file_output_id \<times> lowering" where
  "register_file_output p st =
     (let ps = lw_state st in
      case bt_get (pl_file_output_ids ps) (components p) of
        Some existing \<Rightarrow> (existing, st)
      | None \<Rightarrow>
          (let i = length (pl_file_outputs ps) in
           (i, st\<lparr>lw_state := ps\<lparr>
                pl_file_outputs := pl_file_outputs ps @ [\<lparr>output_id = i, output_path = p\<rparr>],
                pl_file_output_ids := bt_insert (components p) i (pl_file_output_ids ps)\<rparr>\<rparr>)))"

definition fresh_batch_id :: "lowering \<Rightarrow> exec_batch_id \<times> lowering" where
  "fresh_batch_id st =
     (let ps = lw_state st in
      (pl_next_exec_batch_id ps,
       st\<lparr>lw_state := ps\<lparr>pl_next_exec_batch_id := pl_next_exec_batch_id ps + 1\<rparr>\<rparr>))"

section \<open>Lowering\<close>

type_synonym ('r, 'p) lowered = "(('r, 'p) regex_matcher rexpr \<times> lowering) result"

definition lowered_predicate ::
  "('r, 'p) regex_matcher runtime_predicate \<Rightarrow> lowering \<Rightarrow> ('r, 'p) lowered" where
  "lowered_predicate p st = Inr (RPredicate p, st)"

definition lowered_action :: "runtime_action \<Rightarrow> lowering \<Rightarrow> ('r, 'p) lowered" where
  "lowered_action a st = Inr (RAction a, st)"

text \<open>A name pattern, with the support its case folding needs.\<close>

definition lower_glob ::
  "platform_capabilities \<Rightarrow> string \<Rightarrow> os_string \<Rightarrow> bool \<Rightarrow>
   (compiled_glob \<Rightarrow> ('r, 'p) regex_matcher runtime_predicate) \<Rightarrow> lowering \<Rightarrow> ('r, 'p) lowered" where
  "lower_glob caps flag pat insensitive wrap st =
     try_bind (if insensitive then require_platform_feature caps FeatCaseInsensitiveGlob st else Inr st) (\<lambda>st.
     try_bind (compile_glob flag pat (if insensitive then CaseInsensitive else CaseSensitive) SlashLiteral) (\<lambda>g.
       lowered_predicate (wrap g) st))"

definition lower_relative_time ::
  "('r, 'p) plan_env \<Rightarrow> string \<Rightarrow> os_string \<Rightarrow> timestamp_kind \<Rightarrow> relative_time_unit \<Rightarrow>
   lowering \<Rightarrow> ('r, 'p) lowered" where
  "lower_relative_time env flag raw kind u st =
     try_bind (relative_baseline env (pl_temporal (lw_state st))) (\<lambda>base.
     try_bind (parse_relative_time_argument flag raw kind u base
                (ts_daystart_active (pl_temporal (lw_state st)))) (\<lambda>m.
       lowered_predicate (RpRelativeTime m) st))"

definition lower_newer ::
  "('r, 'p) plan_env \<Rightarrow> string \<Rightarrow> byte \<Rightarrow> byte \<Rightarrow> os_string \<Rightarrow> follow_mode \<Rightarrow>
   lowering \<Rightarrow> ('r, 'p) lowered" where
  "lower_newer env flag current reference arg mode st =
     try_bind (resolve_reference_matcher (pe_mktime env) (pe_reader env) flag current reference arg mode)
       (\<lambda>m. lowered_predicate (RpNewer m) st)"

text \<open>A predicate that only needs the support of the platform.\<close>

definition lower_supported ::
  "platform_capabilities \<Rightarrow> platform_feature \<Rightarrow> ('r, 'p) regex_matcher runtime_predicate \<Rightarrow>
   lowering \<Rightarrow> ('r, 'p) lowered" where
  "lower_supported caps feature p st =
     try_bind (require_platform_feature caps feature st) (\<lambda>st. lowered_predicate p st)"

definition lower_numeric_ownership ::
  "platform_capabilities \<Rightarrow> string \<Rightarrow> os_string \<Rightarrow>
   (numeric_comparison \<Rightarrow> ('r, 'p) regex_matcher runtime_predicate) \<Rightarrow> lowering \<Rightarrow> ('r, 'p) lowered" where
  "lower_numeric_ownership caps flag raw wrap st =
     (case unsupported_windows_numeric_ownership flag caps of
        Some error \<Rightarrow> Inl error
      | None \<Rightarrow>
          try_bind (require_platform_feature caps FeatNumericOwnership st) (\<lambda>st.
          try_bind (parse_numeric_argument flag raw) (\<lambda>n. lowered_predicate (wrap n) st)))"

definition set_traversal :: "(traversal_options \<Rightarrow> traversal_options) \<Rightarrow> lowering \<Rightarrow> lowering" where
  "set_traversal f st = st\<lparr>lw_traversal := f (lw_traversal st)\<rparr>"

definition set_runtime :: "(runtime_requirements \<Rightarrow> runtime_requirements) \<Rightarrow> lowering \<Rightarrow> lowering" where
  "set_runtime f st = st\<lparr>lw_runtime := f (lw_runtime st)\<rparr>"

definition set_state :: "(planning_state \<Rightarrow> planning_state) \<Rightarrow> lowering \<Rightarrow> lowering" where
  "set_state f st = st\<lparr>lw_state := f (lw_state st)\<rparr>"

fun lower_predicate ::
  "('r, 'p) plan_env \<Rightarrow> follow_mode \<Rightarrow> predicate \<Rightarrow> lowering \<Rightarrow> ('r, 'p) lowered" where
  "lower_predicate env mode (PrMaxDepth v) st =
     Inr (RBarrier, set_traversal (\<lambda>t. t\<lparr>to_max_depth := Some (unat v)\<rparr>) st)"
| "lower_predicate env mode (PrMinDepth v) st =
     Inr (RBarrier, set_traversal (\<lambda>t. t\<lparr>to_min_depth := unat v\<rparr>) st)"
| "lower_predicate env mode PrDepth st =
     Inr (RBarrier, set_traversal (\<lambda>t. t\<lparr>to_order := DepthFirstPostOrder\<rparr>) st)"
| "lower_predicate env mode PrPrune st = lowered_predicate RpPrune st"
| "lower_predicate env mode PrXDev st =
     try_bind (require_platform_feature (pe_capabilities env) FeatSameFileSystem st) (\<lambda>st.
       Inr (RBarrier, set_traversal (\<lambda>t. t\<lparr>to_same_file_system := True\<rparr>) st))"
| "lower_predicate env mode PrReadable st = lower_supported (pe_capabilities env) FeatAccessPredicates RpReadable st"
| "lower_predicate env mode PrWritable st = lower_supported (pe_capabilities env) FeatAccessPredicates RpWritable st"
| "lower_predicate env mode PrExecutable st = lower_supported (pe_capabilities env) FeatAccessPredicates RpExecutable st"
| "lower_predicate env mode (PrName pat ci) st =
     lower_glob (pe_capabilities env) (if ci then ''-iname'' else ''-name'') pat ci RpName st"
| "lower_predicate env mode (PrPath pat ci) st =
     lower_glob (pe_capabilities env) (if ci then ''-ipath'' else ''-path'') (normalize_match_text pat) ci RpPath st"
| "lower_predicate env mode (PrRegex pat ci) st =
     try_bind (regex_compile (pe_engines env) (if ci then ''-iregex'' else ''-regex'')
                (pl_regex_dialect (lw_state st)) pat ci) (\<lambda>m.
       lowered_predicate (RpRegex m) st)"
| "lower_predicate env mode (PrRegexType raw) st =
     try_bind (dialect_parse raw) (\<lambda>d. Inr (RBarrier, set_state (\<lambda>s. s\<lparr>pl_regex_dialect := d\<rparr>) st))"
| "lower_predicate env mode (PrFsType name) st =
     try_bind (require_platform_feature (pe_capabilities env) FeatFsType st) (\<lambda>st.
       lowered_predicate (RpFsType name) (set_runtime (\<lambda>r. r\<lparr>rr_mount_snapshot := True\<rparr>) st))"
| "lower_predicate env mode (PrInum raw) st =
     try_bind (parse_numeric_argument ''-inum'' raw) (\<lambda>n. lowered_predicate (RpInum n) st)"
| "lower_predicate env mode (PrLinks raw) st =
     try_bind (parse_numeric_argument ''-links'' raw) (\<lambda>n. lowered_predicate (RpLinks n) st)"
| "lower_predicate env mode (PrSameFile p) st =
     try_bind (resolve_samefile_reference env p mode) (\<lambda>i. lowered_predicate (RpSameFile i) st)"
| "lower_predicate env mode (PrLName pat ci) st =
     lower_glob (pe_capabilities env) (if ci then ''-ilname'' else ''-lname'') (normalize_match_text pat) ci RpLName st"
| "lower_predicate env mode (PrUid raw) st = lower_numeric_ownership (pe_capabilities env) ''-uid'' raw RpUid st"
| "lower_predicate env mode (PrGid raw) st = lower_numeric_ownership (pe_capabilities env) ''-gid'' raw RpGid st"
| "lower_predicate env mode (PrUser raw) st =
     try_bind (require_platform_feature (pe_capabilities env) FeatNamedOwnership st) (\<lambda>st.
     try_bind (pe_user env raw) (\<lambda>i. lowered_predicate (RpUser i) st))"
| "lower_predicate env mode (PrGroup raw) st =
     try_bind (require_platform_feature (pe_capabilities env) FeatNamedOwnership st) (\<lambda>st.
     try_bind (pe_group env raw) (\<lambda>i. lowered_predicate (RpGroup i) st))"
| "lower_predicate env mode (PrOwner raw) st =
     try_bind (require_windows_ownership_predicate ''-owner'' (pe_capabilities env)) (\<lambda>_.
     try_bind (pe_user env raw) (\<lambda>i. lowered_predicate (RpUser i) st))"
| "lower_predicate env mode (PrOwnerSid raw) st =
     try_bind (require_windows_ownership_predicate ''-owner-sid'' (pe_capabilities env)) (\<lambda>_.
     try_bind (pe_sid env raw) (\<lambda>i. lowered_predicate (RpUser i) st))"
| "lower_predicate env mode (PrGroupSid raw) st =
     try_bind (require_windows_ownership_predicate ''-group-sid'' (pe_capabilities env)) (\<lambda>_.
     try_bind (pe_sid env raw) (\<lambda>i. lowered_predicate (RpGroup i) st))"
| "lower_predicate env mode PrNoUser st = lower_supported (pe_capabilities env) FeatNamedOwnership RpNoUser st"
| "lower_predicate env mode PrNoGroup st = lower_supported (pe_capabilities env) FeatNamedOwnership RpNoGroup st"
| "lower_predicate env mode (PrPerm raw) st =
     try_bind (require_platform_feature (pe_capabilities env) FeatModeBits st) (\<lambda>st.
     try_bind (parse_perm_argument raw) (\<lambda>m. lowered_predicate (RpPerm m) st))"
| "lower_predicate env mode (PrFlags raw) st =
     try_bind (require_platform_feature (pe_capabilities env) FeatFileFlags st) (\<lambda>st.
     try_bind (parse_flags_argument raw (pe_flag_specs env)) (\<lambda>m. lowered_predicate (RpFlags m) st))"
| "lower_predicate env mode (PrReparseType raw) st =
     try_bind (require_platform_feature (pe_capabilities env) FeatReparseType st) (\<lambda>st.
     try_bind (parse_reparse_type raw) (\<lambda>t. lowered_predicate (RpReparseType t) st))"
| "lower_predicate env mode (PrSize raw) st =
     try_bind (parse_size_argument raw) (\<lambda>m. lowered_predicate (RpSize m) st)"
| "lower_predicate env mode PrEmpty st = lowered_predicate RpEmpty st"
| "lower_predicate env mode (PrUsed raw) st =
     try_bind (parse_time_comparison ''-used'' raw) (\<lambda>c. lowered_predicate (RpUsed \<lparr>used_cmp = c\<rparr>) st)"
| "lower_predicate env mode (PrATime raw) st = lower_relative_time env ''-atime'' raw KAccess Days st"
| "lower_predicate env mode (PrCTime raw) st = lower_relative_time env ''-ctime'' raw KChange Days st"
| "lower_predicate env mode (PrMTime raw) st = lower_relative_time env ''-mtime'' raw KModification Days st"
| "lower_predicate env mode (PrAMin raw) st = lower_relative_time env ''-amin'' raw KAccess Minutes st"
| "lower_predicate env mode (PrCMin raw) st = lower_relative_time env ''-cmin'' raw KChange Minutes st"
| "lower_predicate env mode (PrMMin raw) st = lower_relative_time env ''-mmin'' raw KModification Minutes st"
| "lower_predicate env mode (PrNewer p) st = lower_newer env ''-newer'' (CHR ''m'') (CHR ''m'') p mode st"
| "lower_predicate env mode (PrANewer p) st = lower_newer env ''-anewer'' (CHR ''a'') (CHR ''m'') p mode st"
| "lower_predicate env mode (PrCNewer p) st = lower_newer env ''-cnewer'' (CHR ''c'') (CHR ''m'') p mode st"
| "lower_predicate env mode (PrNewerXY current reference arg) st =
     try_bind (if current = CHR ''B'' \<or> reference = CHR ''B''
               then require_platform_feature (pe_capabilities env) FeatBirthTime st else Inr st) (\<lambda>st.
       lower_newer env ''-newerXY'' current reference arg mode st)"
| "lower_predicate env mode PrDayStart st =
     Inr (RBarrier, set_state (\<lambda>s. s\<lparr>pl_temporal := (pl_temporal s)\<lparr>ts_daystart_active := True\<rparr>\<rparr>) st)"
| "lower_predicate env mode (PrType t) st = lowered_predicate (RpType t) st"
| "lower_predicate env mode (PrXType t) st = lowered_predicate (RpXType t) st"
| "lower_predicate env mode PrTrue st = lowered_predicate RpTrue st"
| "lower_predicate env mode PrFalse st = lowered_predicate RpFalse st"

text \<open>The format of \<^verbatim>\<open>-printf\<close> and \<^verbatim>\<open>-fprintf\<close>.\<close>

definition lower_printf ::
  "platform_capabilities \<Rightarrow> string \<Rightarrow> os_string \<Rightarrow> lowering \<Rightarrow> (printf_program \<times> lowering) result" where
  "lower_printf caps flag fmt st =
     try_bind (compile_printf_program flag fmt) (\<lambda>compiled.
     try_bind (if requires_mount_snapshot (printf_atoms compiled) then
                 try_bind (require_platform_feature caps FeatFsType st) (\<lambda>st.
                   Inr (set_runtime (\<lambda>r. r\<lparr>rr_mount_snapshot := True\<rparr>) st))
               else Inr st) (\<lambda>st.
     try_bind (validate_platform_printf_program flag caps (printf_atoms compiled) st) (\<lambda>st.
       Inr (printf_atoms compiled,
            set_state (\<lambda>s. s\<lparr>pl_startup_warnings := pl_startup_warnings s @ printf_warnings compiled\<rparr>) st))))"

definition require_mode_bits :: "platform_capabilities \<Rightarrow> lowering \<Rightarrow> lowering result" where
  "require_mode_bits caps st =
     (if uses_windows_native_output_contract caps then Inr st
      else require_platform_feature caps FeatModeBits st)"

definition lower_batched ::
  "exec_semantics \<Rightarrow> os_string list \<Rightarrow> lowering \<Rightarrow> ('r, 'p) lowered" where
  "lower_batched sem argv st =
     (let (i, st) = fresh_batch_id st in
      try_bind (compile_batched_exec i sem argv) (\<lambda>spec. lowered_action (RaExecBatched spec) st))"

definition needs_safe_path :: "lowering \<Rightarrow> lowering" where
  "needs_safe_path st = set_runtime (\<lambda>r. r\<lparr>rr_execdir_requires_safe_path := True\<rparr>) st"

definition needs_messages_locale :: "lowering \<Rightarrow> lowering" where
  "needs_messages_locale st = set_runtime (\<lambda>r. r\<lparr>rr_messages_locale_required := True\<rparr>) st"

fun lower_action_kind :: "platform_capabilities \<Rightarrow> action \<Rightarrow> lowering \<Rightarrow> ('r, 'p) lowered" where
  "lower_action_kind caps AcPrint st = lowered_action (RaOutput OutPrint) st"
| "lower_action_kind caps AcPrint0 st = lowered_action (RaOutput OutPrint0) st"
| "lower_action_kind caps (AcPrintf fmt) st =
     try_bind (lower_printf caps ''-printf'' fmt st) (\<lambda>(prog, st). lowered_action (RaPrintf prog) st)"
| "lower_action_kind caps (AcFPrint p) st =
     (let (i, st) = register_file_output p st in lowered_action (RaFilePrint i TermNewline) st)"
| "lower_action_kind caps (AcFPrint0 p) st =
     (let (i, st) = register_file_output p st in lowered_action (RaFilePrint i TermNul) st)"
| "lower_action_kind caps (AcFPrintf p fmt) st =
     try_bind (lower_printf caps ''-fprintf'' fmt st) (\<lambda>(prog, st).
       let (i, st) = register_file_output p st in lowered_action (RaFilePrintf i prog) st)"
| "lower_action_kind caps AcLs st = try_bind (require_mode_bits caps st) (\<lambda>st. lowered_action RaLs st)"
| "lower_action_kind caps (AcFls p) st =
     try_bind (require_mode_bits caps st) (\<lambda>st.
       let (i, st) = register_file_output p st in lowered_action (RaFileLs i) st)"
| "lower_action_kind caps AcQuit st = lowered_action RaQuit st"
| "lower_action_kind caps (AcExec argv batch) st =
     (if batch then lower_batched SemNormal argv st
      else lowered_action (RaExecImmediate (compile_immediate_exec SemNormal argv)) st)"
| "lower_action_kind caps (AcExecDir argv batch) st =
     (if batch then lower_batched SemDirLocal argv (needs_safe_path st)
      else lowered_action (RaExecImmediate (compile_immediate_exec SemDirLocal argv)) (needs_safe_path st))"
| "lower_action_kind caps (AcOk argv batch) st =
     (if batch then Inl (diagnostic_parse ''`-ok` only supports the `;` terminator'')
      else try_bind (require_platform_feature caps FeatMessagesLocale st) (\<lambda>st.
        lowered_action (RaExecPrompt (compile_immediate_exec SemNormal argv)) (needs_messages_locale st)))"
| "lower_action_kind caps (AcOkDir argv batch) st =
     (if batch then Inl (diagnostic_parse ''`-okdir` only supports the `;` terminator'')
      else try_bind (require_platform_feature caps FeatMessagesLocale st) (\<lambda>st.
        lowered_action (RaExecPrompt (compile_immediate_exec SemDirLocal argv))
          (needs_safe_path (needs_messages_locale st))))"
| "lower_action_kind caps AcDelete st =
     lowered_action RaDelete (set_state (\<lambda>s. s\<lparr>pl_saw_delete := True\<rparr>) st)"

definition lower_action :: "platform_capabilities \<Rightarrow> action \<Rightarrow> lowering \<Rightarrow> ('r, 'p) lowered" where
  "lower_action caps a st = lower_action_kind caps a (set_state (\<lambda>s. s\<lparr>pl_saw_action := True\<rparr>) st)"

fun lower_expr :: "('r, 'p) plan_env \<Rightarrow> follow_mode \<Rightarrow> expr \<Rightarrow> lowering \<Rightarrow> ('r, 'p) lowered"
and lower_items ::
  "('r, 'p) plan_env \<Rightarrow> follow_mode \<Rightarrow> expr list \<Rightarrow> lowering \<Rightarrow>
   (('r, 'p) regex_matcher rexpr list \<times> lowering) result" where
  "lower_expr env mode (EAnd items) st =
     try_bind (lower_items env mode items st) (\<lambda>(es, st). Inr (RAnd es, st))"
| "lower_expr env mode (EOr l r) st =
     try_bind (lower_expr env mode l st) (\<lambda>(l, st).
     try_bind (lower_expr env mode r st) (\<lambda>(r, st). Inr (ROr l r, st)))"
| "lower_expr env mode (ENot e) st =
     try_bind (lower_expr env mode e st) (\<lambda>(e, st). Inr (RNot e, st))"
| "lower_expr env mode (EPredicate p) st = lower_predicate env mode p st"
| "lower_expr env mode (EAction a) st = lower_action (pe_capabilities env) a st"
| "lower_items env mode [] st = Inr ([], st)"
| "lower_items env mode (e # es) st =
     try_bind (lower_expr env mode e st) (\<lambda>(e, st).
     try_bind (lower_items env mode es st) (\<lambda>(es, st). Inr (e # es, st)))"

section \<open>The plan\<close>

definition initial_lowering :: "timestamp \<Rightarrow> lowering" where
  "initial_lowering now =
     \<lparr>lw_traversal = \<lparr>to_min_depth = 0, to_max_depth = None, to_same_file_system = False, to_order = PreOrder\<rparr>,
      lw_runtime = \<lparr>rr_mount_snapshot = False, rr_evaluation_now = now,
        rr_execdir_requires_safe_path = False, rr_messages_locale_required = False\<rparr>,
      lw_state = planning_state_new now\<rparr>"

definition plan_command ::
  "('r, 'p) plan_env \<Rightarrow> command_ast \<Rightarrow> nat \<Rightarrow> timestamp \<Rightarrow>
   ('r, 'p) regex_matcher execution_plan result" where
  "plan_command env ast workers now =
     (let mode = resolve_follow_mode (global_options ast) in
      try_bind (lower_expr env mode (command_expr ast) (initial_lowering now)) (\<lambda>(lowered, st).
        let lowered = optimize_read_only_and_chains lowered;
            ps = lw_state st;
            traversal =
              (if pl_saw_delete ps then (lw_traversal st)\<lparr>to_order := DepthFirstPostOrder\<rparr> else lw_traversal st);
            e = (if pl_saw_action ps then lowered else RAnd [lowered, RAction (RaOutput OutPrint)]);
            prof = compute_action_profile e;
            exec_mode = (if workers \<le> 1 then OrderedSingle else ParallelRelaxed)
        in Inr \<lparr>plan_start_paths = start_paths ast, plan_follow_mode = mode, plan_traversal = traversal,
                plan_runtime = lw_runtime st, plan_startup_warnings = pl_startup_warnings ps,
                plan_file_outputs = pl_file_outputs ps, plan_expr = e, plan_mode = exec_mode,
                plan_parallel_policy = choose_parallel_policy workers (to_order traversal) prof,
                plan_action_profile = prof,
                plan_runtime_policy =
                  derive_with_parallelism workers (to_order traversal) (exec_mode = OrderedSingle)
                    (pe_host_parallelism env),
                plan_traversal_control = build_traversal_control_plan e (to_order traversal)\<rparr>))"

section \<open>Leaves\<close>

text \<open>The predicates and actions of a tree in the order they are written.\<close>

datatype leaf = LeafPredicate predicate | LeafAction action

fun leaves :: "expr \<Rightarrow> leaf list" where
  "leaves (EAnd items) = concat (map leaves items)"
| "leaves (EOr l r) = leaves l @ leaves r"
| "leaves (ENot e) = leaves e"
| "leaves (EPredicate p) = [LeafPredicate p]"
| "leaves (EAction a) = [LeafAction a]"

fun runtime_leaves :: "('p, 'a) runtime_expr \<Rightarrow> ('p, 'a) runtime_expr list" where
  "runtime_leaves (RAnd items) = concat (map runtime_leaves items)"
| "runtime_leaves (ROr l r) = runtime_leaves l @ runtime_leaves r"
| "runtime_leaves (RNot e) = runtime_leaves e"
| "runtime_leaves (RPredicate p) = [RPredicate p]"
| "runtime_leaves (RAction a) = [RAction a]"
| "runtime_leaves RBarrier = [RBarrier]"

fun lower_leaf :: "('r, 'p) plan_env \<Rightarrow> follow_mode \<Rightarrow> leaf \<Rightarrow> lowering \<Rightarrow> ('r, 'p) lowered" where
  "lower_leaf env mode (LeafPredicate p) st = lower_predicate env mode p st"
| "lower_leaf env mode (LeafAction a) st = lower_action (pe_capabilities env) a st"

fun lower_leaves ::
  "('r, 'p) plan_env \<Rightarrow> follow_mode \<Rightarrow> leaf list \<Rightarrow> lowering \<Rightarrow>
   (('r, 'p) regex_matcher rexpr list \<times> lowering) result" where
  "lower_leaves env mode [] st = Inr ([], st)"
| "lower_leaves env mode (l # ls) st =
     try_bind (lower_leaf env mode l st) (\<lambda>(x, st).
     try_bind (lower_leaves env mode ls st) (\<lambda>(xs, st). Inr (x # xs, st)))"

lemma lower_leaves_append:
  assumes "lower_leaves env mode ls st = Inr (xs, st1)" "lower_leaves env mode ms st1 = Inr (ys, st2)"
  shows "lower_leaves env mode (ls @ ms) st = Inr (xs @ ys, st2)"
  using assms by (induction ls arbitrary: st xs) (auto simp: result_simps)

definition is_leaf :: "('p, 'a) runtime_expr \<Rightarrow> bool" where
  "is_leaf x \<longleftrightarrow> runtime_leaves x = [x]"

lemma is_leaf_simps [simp]: "is_leaf (RPredicate p)" "is_leaf (RAction a)" "is_leaf RBarrier"
  by (simp_all add: is_leaf_def)

text \<open>The state after warnings.\<close>

definition warned :: "string list \<Rightarrow> lowering \<Rightarrow> lowering" where
  "warned ws st = set_state (\<lambda>s. s\<lparr>pl_startup_warnings := pl_startup_warnings s @ ws\<rparr>) st"

lemma warned_fields [simp]:
  "lw_traversal (warned ws st) = lw_traversal st" "lw_runtime (warned ws st) = lw_runtime st"
  "pl_temporal (lw_state (warned ws st)) = pl_temporal (lw_state st)"
  "pl_saw_action (lw_state (warned ws st)) = pl_saw_action (lw_state st)"
  "pl_saw_delete (lw_state (warned ws st)) = pl_saw_delete (lw_state st)"
  "pl_next_exec_batch_id (lw_state (warned ws st)) = pl_next_exec_batch_id (lw_state st)"
  "pl_file_outputs (lw_state (warned ws st)) = pl_file_outputs (lw_state st)"
  "pl_file_output_ids (lw_state (warned ws st)) = pl_file_output_ids (lw_state st)"
  by (simp_all add: warned_def set_state_def)

lemma warned_Nil: "warned [] st = st"
  by (simp add: warned_def set_state_def)

lemma warned_warned [simp]: "warned vs (warned ws st) = warned (ws @ vs) st"
  by (simp add: warned_def set_state_def)

lemma set_fields [simp]:
  "lw_traversal (set_traversal f st) = f (lw_traversal st)" "lw_runtime (set_traversal f st) = lw_runtime st"
  "lw_state (set_traversal f st) = lw_state st"
  "lw_traversal (set_runtime g st) = lw_traversal st" "lw_runtime (set_runtime g st) = g (lw_runtime st)"
  "lw_state (set_runtime g st) = lw_state st"
  "lw_traversal (set_state h st) = lw_traversal st" "lw_runtime (set_state h st) = lw_runtime st"
  "lw_state (set_state h st) = h (lw_state st)"
  by (simp_all add: set_traversal_def set_runtime_def set_state_def)

lemma push_warning_warned: "push_warning w st = warned [w] st"
  by (simp add: push_warning_def warned_def set_state_def)

lemma require_feature_warned:
  "require_platform_feature caps feature st = Inr st' \<Longrightarrow> \<exists>ws. st' = warned ws st"
  by (auto simp: require_platform_feature_def push_warning_warned split: support_level.splits
      intro: sym [OF warned_Nil])

lemma validate_atom_warned: "validate_atom flag caps atom st = Inr st' \<Longrightarrow> \<exists>ws. st' = warned ws st"
  by (auto simp: validate_atom_def Let_def warned_Nil dest: require_feature_warned
      split: printf_atom.splits if_splits intro: exI [of _ "[]"] sym [OF warned_Nil])

lemma validate_program_warned:
  "validate_platform_printf_program flag caps atoms st = Inr st' \<Longrightarrow> \<exists>ws. st' = warned ws st"
proof (induction atoms arbitrary: st)
  case (Cons a atoms)
  then obtain st1 where 1: "validate_atom flag caps a st = Inr st1"
      "validate_platform_printf_program flag caps atoms st1 = Inr st'"
    by (auto simp: result_simps)
  from validate_atom_warned [OF 1(1)] Cons.IH [OF 1(2)] show ?case by force
qed (auto intro: exI [of _ "[]"] simp: warned_Nil)

lemma optional_feature_warned:
  "(if c then require_platform_feature caps feature st else Inr st) = Inr st' \<Longrightarrow> \<exists>ws. st' = warned ws st"
  by (auto dest: require_feature_warned split: if_splits intro: exI [of _ "[]"] sym [OF warned_Nil])

section \<open>What lowering a leaf does\<close>

text \<open>The options a leaf sets, wherever it stands in the expression.\<close>

fun leaf_traversal :: "leaf \<Rightarrow> traversal_options \<Rightarrow> traversal_options" where
  "leaf_traversal (LeafPredicate p) t =
     (case p of
        PrMaxDepth v \<Rightarrow> t\<lparr>to_max_depth := Some (unat v)\<rparr>
      | PrMinDepth v \<Rightarrow> t\<lparr>to_min_depth := unat v\<rparr>
      | PrDepth \<Rightarrow> t\<lparr>to_order := DepthFirstPostOrder\<rparr>
      | PrXDev \<Rightarrow> t\<lparr>to_same_file_system := True\<rparr>
      | _ \<Rightarrow> t)"
| "leaf_traversal (LeafAction a) t = t"

fun is_action_leaf :: "leaf \<Rightarrow> bool" where
  "is_action_leaf (LeafAction a) \<longleftrightarrow> True"
| "is_action_leaf (LeafPredicate p) \<longleftrightarrow> False"

text \<open>What a lowered leaf may rely on in the state after it.\<close>

fun leaf_ok ::
  "runtime_requirements \<Rightarrow> nat \<Rightarrow> ('rx runtime_predicate, runtime_action) runtime_expr \<Rightarrow> bool" where
  "leaf_ok r files (RPredicate q) \<longleftrightarrow>
     (case q of
        RpFsType t \<Rightarrow> rr_mount_snapshot r
      | RpRelativeTime m \<Rightarrow> time_kind m \<noteq> KBirth
      | _ \<Rightarrow> True)"
| "leaf_ok r files (RAction a) \<longleftrightarrow>
     (case a of
        RaPrintf prog \<Rightarrow> requires_mount_snapshot prog \<longrightarrow> rr_mount_snapshot r
      | RaFilePrint i t \<Rightarrow> i < files
      | RaFilePrintf i prog \<Rightarrow> i < files
          \<and> (requires_mount_snapshot prog \<longrightarrow> rr_mount_snapshot r)
      | RaFileLs i \<Rightarrow> i < files
      | RaExecImmediate spec \<Rightarrow>
          imm_semantics spec = SemDirLocal \<longrightarrow> rr_execdir_requires_safe_path r
      | RaExecBatched spec \<Rightarrow>
          batch_semantics spec = SemDirLocal \<longrightarrow> rr_execdir_requires_safe_path r
      | RaExecPrompt spec \<Rightarrow> rr_messages_locale_required r
          \<and> (imm_semantics spec = SemDirLocal \<longrightarrow> rr_execdir_requires_safe_path r)
      | _ \<Rightarrow> True)"
| "leaf_ok r files _ \<longleftrightarrow> True"

abbreviation runtime_leaf_ok ::
  "lowering \<Rightarrow> ('rx runtime_predicate, runtime_action) runtime_expr \<Rightarrow> bool" where
  "runtime_leaf_ok st x \<equiv> leaf_ok (lw_runtime st) (length (pl_file_outputs (lw_state st))) x"

definition grows :: "lowering \<Rightarrow> lowering \<Rightarrow> bool" where
  "grows st st' \<longleftrightarrow>
     (rr_mount_snapshot (lw_runtime st) \<longrightarrow> rr_mount_snapshot (lw_runtime st'))
     \<and> (rr_execdir_requires_safe_path (lw_runtime st) \<longrightarrow> rr_execdir_requires_safe_path (lw_runtime st'))
     \<and> (rr_messages_locale_required (lw_runtime st) \<longrightarrow> rr_messages_locale_required (lw_runtime st'))
     \<and> length (pl_file_outputs (lw_state st)) \<le> length (pl_file_outputs (lw_state st'))"

lemma grows_refl [simp]: "grows st st"
  by (simp add: grows_def)

lemma grows_trans: "grows a b \<Longrightarrow> grows b c \<Longrightarrow> grows a c"
  by (auto simp: grows_def)

lemma runtime_leaf_ok_grows: "runtime_leaf_ok st x \<Longrightarrow> grows st st' \<Longrightarrow> runtime_leaf_ok st' x"
  by (cases x; auto simp: grows_def split: runtime_predicate.splits runtime_action.splits)

text \<open>The part of the state that only actions change.\<close>

definition same_actions :: "lowering \<Rightarrow> lowering \<Rightarrow> bool" where
  "same_actions st st' \<longleftrightarrow>
     pl_saw_action (lw_state st') = pl_saw_action (lw_state st)
     \<and> pl_saw_delete (lw_state st') = pl_saw_delete (lw_state st)
     \<and> pl_next_exec_batch_id (lw_state st') = pl_next_exec_batch_id (lw_state st)
     \<and> pl_file_outputs (lw_state st') = pl_file_outputs (lw_state st)
     \<and> pl_file_output_ids (lw_state st') = pl_file_output_ids (lw_state st)"

definition predicate_effect ::
  "leaf \<Rightarrow> lowering \<Rightarrow> ('r, 'p) regex_matcher rexpr \<Rightarrow> lowering \<Rightarrow> bool" where
  "predicate_effect l st x st' \<longleftrightarrow>
     lw_traversal st' = leaf_traversal l (lw_traversal st) \<and> same_actions st st' \<and> grows st st'
     \<and> runtime_leaf_ok st' x \<and> (x = RBarrier \<or> (\<exists>q. x = RPredicate q))"

lemma glob_effect:
  assumes "lower_glob caps flag pat ci wrap st = Inr (x, st')"
  shows "\<exists>g ws. x = RPredicate (wrap g) \<and> st' = warned ws st"
  using assms optional_feature_warned [of ci caps FeatCaseInsensitiveGlob st]
  by (auto simp: lower_glob_def lowered_predicate_def result_simps)

lemma relative_effect:
  assumes "lower_relative_time env flag raw kind u st = Inr (x, st')"
  shows "\<exists>m. x = RPredicate (RpRelativeTime m) \<and> time_kind m = kind \<and> st' = st"
  using assms by (auto simp: lower_relative_time_def parse_relative_time_argument_def
      lowered_predicate_def result_simps)

lemma newer_effect:
  assumes "lower_newer env flag current reference arg mode st = Inr (x, st')"
  shows "\<exists>m. x = RPredicate (RpNewer m) \<and> st' = st"
  using assms by (auto simp: lower_newer_def lowered_predicate_def result_simps)

lemma supported_effect:
  assumes "lower_supported caps feature p st = Inr (x, st')"
  shows "\<exists>ws. x = RPredicate p \<and> st' = warned ws st"
  using assms by (auto simp: lower_supported_def lowered_predicate_def result_simps dest: require_feature_warned)

lemma ownership_effect:
  assumes "lower_numeric_ownership caps flag raw wrap st = Inr (x, st')"
  shows "\<exists>n ws. x = RPredicate (wrap n) \<and> st' = warned ws st"
  using assms by (auto simp: lower_numeric_ownership_def lowered_predicate_def result_simps
      dest: require_feature_warned split: option.splits)

lemma same_actions_simps [simp]:
  "same_actions st st" "same_actions st (warned ws st)" "grows st (warned ws st)"
  "same_actions st (set_traversal f st)" "grows st (set_traversal f st)"
  "same_actions st (set_runtime g (warned ws st))" "same_actions st (set_traversal f (warned ws st))"
  "grows st (set_traversal f (warned ws st))"
  by (simp_all add: same_actions_def grows_def)

lemma lower_predicate_effect:
  assumes "lower_predicate env mode p st = Inr (x, st')"
  shows "predicate_effect (LeafPredicate p) st x st'"
  using assms
  by (cases p)
    (auto simp: predicate_effect_def lowered_predicate_def result_simps same_actions_def grows_def
      dest!: glob_effect relative_effect newer_effect supported_effect ownership_effect
        require_feature_warned optional_feature_warned)

text \<open>The table of output files: numbered in order, one entry for each path.\<close>

definition outputs_ok :: "lowering \<Rightarrow> bool" where
  "outputs_ok st \<longleftrightarrow>
     (let os = pl_file_outputs (lw_state st); ids = pl_file_output_ids (lw_state st) in
      bt_inv ids \<and> map output_id os = [0..<length os]
      \<and> (\<forall>key i. bt_get ids key = Some i \<longleftrightarrow> i < length os \<and> components (output_path (os ! i)) = key))"

lemma outputs_distinct:
  assumes "outputs_ok st"
  shows "distinct (map (\<lambda>out. components (output_path out)) (pl_file_outputs (lw_state st)))"
  unfolding distinct_conv_nth
proof (intro allI impI)
  let ?os = "pl_file_outputs (lw_state st)" and ?ids = "pl_file_output_ids (lw_state st)"
  fix i j
  assume *: "i < length (map (\<lambda>out. components (output_path out)) ?os)"
    "j < length (map (\<lambda>out. components (output_path out)) ?os)" "i \<noteq> j"
  then have "bt_get ?ids (components (output_path (?os ! i))) = Some i"
    "bt_get ?ids (components (output_path (?os ! j))) = Some j"
    using assms by (simp_all add: outputs_ok_def Let_def)
  with * show "map (\<lambda>out. components (output_path out)) ?os ! i \<noteq> map (\<lambda>out. components (output_path out)) ?os ! j"
    by auto
qed

text \<open>What an action may change besides the files and the flags of the run.\<close>

definition same_plan :: "lowering \<Rightarrow> lowering \<Rightarrow> bool" where
  "same_plan st st' \<longleftrightarrow>
     lw_traversal st' = lw_traversal st \<and> grows st st'
     \<and> pl_saw_action (lw_state st') = pl_saw_action (lw_state st)
     \<and> pl_saw_delete (lw_state st') = pl_saw_delete (lw_state st)
     \<and> pl_next_exec_batch_id (lw_state st') = pl_next_exec_batch_id (lw_state st)"

lemma register_effect:
  assumes "register_file_output p st = (i, st')" "outputs_ok st"
  shows "outputs_ok st' \<and> same_plan st st' \<and> i < length (pl_file_outputs (lw_state st'))
    \<and> components (output_path (pl_file_outputs (lw_state st') ! i)) = components p
    \<and> lw_runtime st' = lw_runtime st"
proof (cases "bt_get (pl_file_output_ids (lw_state st)) (components p)")
  case (Some j)
  then show ?thesis using assms by (auto simp: register_file_output_def Let_def same_plan_def outputs_ok_def)
next
  case None
  let ?os = "pl_file_outputs (lw_state st)" and ?ids = "pl_file_output_ids (lw_state st)"
  have st': "i = length ?os" "st' = st\<lparr>lw_state := (lw_state st)\<lparr>
        pl_file_outputs := ?os @ [\<lparr>output_id = i, output_path = p\<rparr>],
        pl_file_output_ids := bt_insert (components p) i ?ids\<rparr>\<rparr>"
    using assms(1) None by (auto simp: register_file_output_def Let_def)
  have ok: "bt_inv ?ids" "map output_id ?os = [0..<length ?os]"
    "\<And>key k. bt_get ?ids key = Some k \<longleftrightarrow> k < length ?os \<and> components (output_path (?os ! k)) = key"
    using assms(2) by (auto simp: outputs_ok_def Let_def)
  have fresh: "components (output_path (?os ! k)) \<noteq> components p" if "k < length ?os" for k
    using ok(3) [of "components p" k] None that by auto
  have "outputs_ok st'"
    using ok fresh
    by (auto simp: st' outputs_ok_def Let_def bt_inv_insert bt_get_insert nth_append less_Suc_eq)
  then show ?thesis by (simp add: st' same_plan_def grows_def)
qed

lemma outputs_ok_cong:
  "pl_file_outputs (lw_state st') = pl_file_outputs (lw_state st) \<Longrightarrow>
   pl_file_output_ids (lw_state st') = pl_file_output_ids (lw_state st) \<Longrightarrow> outputs_ok st' \<longleftrightarrow> outputs_ok st"
  by (simp add: outputs_ok_def)

lemma printf_effect:
  assumes "lower_printf caps flag fmt st = Inr (prog, st')"
  shows "same_plan st st' \<and> (requires_mount_snapshot prog \<longrightarrow> rr_mount_snapshot (lw_runtime st'))
    \<and> pl_file_outputs (lw_state st') = pl_file_outputs (lw_state st)
    \<and> pl_file_output_ids (lw_state st') = pl_file_output_ids (lw_state st)"
proof -
  from assms obtain compiled st1 st2 where c: "compile_printf_program flag fmt = Inr compiled"
    and 1: "(if requires_mount_snapshot (printf_atoms compiled) then
             try_bind (require_platform_feature caps FeatFsType st) (\<lambda>st.
               Inr (set_runtime (\<lambda>r. r\<lparr>rr_mount_snapshot := True\<rparr>) st)) else Inr st) = Inr st1"
    and 2: "validate_platform_printf_program flag caps (printf_atoms compiled) st1 = Inr st2"
    and prog: "prog = printf_atoms compiled"
    and st': "st' = set_state (\<lambda>s. s\<lparr>pl_startup_warnings := pl_startup_warnings s @ printf_warnings compiled\<rparr>) st2"
    by (auto simp: lower_printf_def result_simps)
  from validate_program_warned [OF 2] obtain ws where st2: "st2 = warned ws st1" ..
  have "same_plan st st1 \<and> (requires_mount_snapshot prog \<longrightarrow> rr_mount_snapshot (lw_runtime st1))
    \<and> pl_file_outputs (lw_state st1) = pl_file_outputs (lw_state st)
    \<and> pl_file_output_ids (lw_state st1) = pl_file_output_ids (lw_state st)"
    using 1 prog by (auto simp: result_simps same_plan_def grows_def dest!: require_feature_warned split: if_splits)
  then show ?thesis by (simp add: st' st2 same_plan_def grows_def)
qed

fun batch_ids :: "('p, runtime_action) runtime_expr \<Rightarrow> exec_batch_id list" where
  "batch_ids (RAction (RaExecBatched spec)) = [batch_id spec]"
| "batch_ids _ = []"

definition action_effect :: "action \<Rightarrow> lowering \<Rightarrow> ('r, 'p) regex_matcher rexpr \<Rightarrow> lowering \<Rightarrow> bool" where
  "action_effect a st x st' \<longleftrightarrow>
     lw_traversal st' = lw_traversal st \<and> grows st st' \<and> outputs_ok st' \<and> runtime_leaf_ok st' x
     \<and> pl_saw_action (lw_state st') = pl_saw_action (lw_state st)
     \<and> pl_saw_delete (lw_state st') = (pl_saw_delete (lw_state st) \<or> a = AcDelete)
     \<and> pl_next_exec_batch_id (lw_state st') = pl_next_exec_batch_id (lw_state st) + of_nat (length (batch_ids x))
     \<and> set (batch_ids x) \<subseteq> {pl_next_exec_batch_id (lw_state st)} \<and> (\<exists>b. x = RAction b)"

lemma compile_batched_fields:
  "compile_batched_exec i sem argv = Inr spec \<Longrightarrow> batch_id spec = i \<and> batch_semantics spec = sem"
  by (auto simp: compile_batched_exec_def Let_def split: list.splits if_splits)

lemma batched_effect:
  assumes "lower_batched sem argv st = Inr (x, st')"
  shows "\<exists>spec. x = RAction (RaExecBatched spec) \<and> batch_id spec = pl_next_exec_batch_id (lw_state st)
    \<and> batch_semantics spec = sem
    \<and> st' = set_state (\<lambda>s. s\<lparr>pl_next_exec_batch_id := pl_next_exec_batch_id s + 1\<rparr>) st"
  using assms by (auto simp: lower_batched_def fresh_batch_id_def Let_def lowered_action_def result_simps
      set_state_def dest: compile_batched_fields)

lemma mode_bits_effect: "require_mode_bits caps st = Inr st' \<Longrightarrow> \<exists>ws. st' = warned ws st"
  by (auto simp: require_mode_bits_def dest: require_feature_warned split: if_splits
      intro: sym [OF warned_Nil] exI [of _ "[]"])

lemma plain_action_effect:
  assumes "outputs_ok st" "same_plan st st'" "outputs_ok st'" "runtime_leaf_ok st' (RAction b)"
    "batch_ids (RAction b :: ('r, 'p) regex_matcher rexpr) = []" "a \<noteq> AcDelete"
  shows "action_effect a st (RAction b :: ('r, 'p) regex_matcher rexpr) st'"
  using assms by (simp add: action_effect_def same_plan_def)

lemma same_plan_simps [simp]:
  "same_plan st st" "same_plan st (warned ws st)" "same_plan st (needs_safe_path st)"
  "same_plan st (needs_messages_locale (warned ws st))"
  "same_plan st (needs_safe_path (needs_messages_locale (warned ws st)))"
  by (simp_all add: same_plan_def grows_def needs_safe_path_def needs_messages_locale_def)

lemma same_plan_trans: "same_plan a b \<Longrightarrow> same_plan b c \<Longrightarrow> same_plan a c"
  by (auto simp: same_plan_def dest: grows_trans)

lemma outputs_ok_simps [simp]:
  "outputs_ok (warned ws st) \<longleftrightarrow> outputs_ok st" "outputs_ok (needs_safe_path st) \<longleftrightarrow> outputs_ok st"
  "outputs_ok (needs_messages_locale st) \<longleftrightarrow> outputs_ok st"
  by (simp_all add: outputs_ok_def needs_safe_path_def needs_messages_locale_def)

lemma flag_simps [simp]:
  "rr_execdir_requires_safe_path (lw_runtime (needs_safe_path st))"
  "rr_messages_locale_required (lw_runtime (needs_messages_locale st))"
  "rr_messages_locale_required (lw_runtime (needs_safe_path st)) = rr_messages_locale_required (lw_runtime st)"
  "lw_traversal (needs_safe_path st) = lw_traversal st" "lw_state (needs_safe_path st) = lw_state st"
  by (simp_all add: needs_safe_path_def needs_messages_locale_def)

lemma file_action_effect:
  assumes "outputs_ok st" "same_plan st st1" "outputs_ok st1"
    "(let (i, st) = register_file_output p st1 in lowered_action (act i) st) = Inr (x, st')"
    "\<And>i. i < length (pl_file_outputs (lw_state st')) \<Longrightarrow> lw_runtime st' = lw_runtime st1 \<Longrightarrow>
       runtime_leaf_ok st' (RAction (act i))"
    "\<And>i. batch_ids (RAction (act i) :: ('r, 'p) regex_matcher rexpr) = []" "a \<noteq> AcDelete"
  shows "action_effect a st (x :: ('r, 'p) regex_matcher rexpr) st'"
proof -
  obtain i st2 where r: "register_file_output p st1 = (i, st2)" by fastforce
  with assms(4) have x: "x = RAction (act i)" "st' = st2" by (simp_all add: lowered_action_def)
  from register_effect [OF r assms(3)] have e: "outputs_ok st2" "same_plan st1 st2"
    "i < length (pl_file_outputs (lw_state st2))" "lw_runtime st2 = lw_runtime st1" by auto
  show ?thesis
    unfolding x by (rule plain_action_effect [OF assms(1) same_plan_trans [OF assms(2) e(2)] e(1)])
      (use assms(5-7) e x in auto)
qed

lemma batched_action_effect:
  assumes "outputs_ok st" "same_plan st st1" "outputs_ok st1" "lower_batched sem argv st1 = Inr (x, st')"
    "sem = SemDirLocal \<Longrightarrow> rr_execdir_requires_safe_path (lw_runtime st1)"
    "pl_next_exec_batch_id (lw_state st1) = pl_next_exec_batch_id (lw_state st)" "a \<noteq> AcDelete"
  shows "action_effect a st (x :: ('r, 'p) regex_matcher rexpr) st'"
proof -
  from batched_effect [OF assms(4)] obtain spec where x: "x = RAction (RaExecBatched spec)"
    and spec: "batch_id spec = pl_next_exec_batch_id (lw_state st1)" "batch_semantics spec = sem"
    and st': "st' = set_state (\<lambda>s. s\<lparr>pl_next_exec_batch_id := pl_next_exec_batch_id s + 1\<rparr>) st1"
    by blast
  have "outputs_ok st'" using assms(3) by (simp add: st' outputs_ok_def)
  then show ?thesis
    using assms(2,5-7) spec by (simp add: x st' action_effect_def same_plan_def grows_def)
qed

lemma lower_action_effect_kind:
  assumes "lower_action_kind caps a st = Inr (x, st')" "outputs_ok st"
  shows "action_effect a st (x :: ('r, 'p) regex_matcher rexpr) st'"
proof (cases a)
  case (AcPrintf fmt)
  with assms(1) obtain prog where p: "lower_printf caps ''-printf'' fmt st = Inr (prog, st')" "x = RAction (RaPrintf prog)"
    by (auto simp: lowered_action_def result_simps)
  from printf_effect [OF p(1)] have "same_plan st st'" "requires_mount_snapshot prog \<longrightarrow> rr_mount_snapshot (lw_runtime st')"
    "outputs_ok st'" using assms(2) outputs_ok_cong by blast+
  then show ?thesis unfolding p(2) by (intro plain_action_effect) (simp_all add: assms(2) AcPrintf)
next
  case (AcFPrint p)
  show ?thesis
    by (rule file_action_effect [where act = "\<lambda>i. RaFilePrint i TermNewline" and p = p, OF assms(2) same_plan_simps(1) assms(2)])
      (use assms(1) AcFPrint in auto)
next
  case (AcFPrint0 p)
  show ?thesis
    by (rule file_action_effect [where act = "\<lambda>i. RaFilePrint i TermNul" and p = p, OF assms(2) same_plan_simps(1) assms(2)])
      (use assms(1) AcFPrint0 in auto)
next
  case (AcFPrintf p fmt)
  with assms(1) obtain prog st1 where p: "lower_printf caps ''-fprintf'' fmt st = Inr (prog, st1)"
    and r: "(let (i, st) = register_file_output p st1 in lowered_action (RaFilePrintf i prog) st) = Inr (x, st')"
    by (auto simp: result_simps)
  from printf_effect [OF p] have sp: "same_plan st st1"
    and m: "requires_mount_snapshot prog \<longrightarrow> rr_mount_snapshot (lw_runtime st1)"
    and ok: "outputs_ok st1" using assms(2) outputs_ok_cong by blast+
  show ?thesis
    by (rule file_action_effect [OF assms(2) sp ok r]) (use m AcFPrintf in auto)
next
  case AcLs
  with assms(1) obtain st1 where "require_mode_bits caps st = Inr st1" "x = RAction RaLs" "st' = st1"
    by (auto simp: lowered_action_def result_simps)
  then show ?thesis
    using mode_bits_effect [of caps st st1] assms(2) AcLs by (auto intro!: plain_action_effect)
next
  case (AcFls p)
  with assms(1) obtain st1 where m: "require_mode_bits caps st = Inr st1"
    and r: "(let (i, st) = register_file_output p st1 in lowered_action (RaFileLs i) st) = Inr (x, st')"
    by (auto simp: result_simps)
  from mode_bits_effect [OF m] have sp: "same_plan st st1" and ok: "outputs_ok st1" using assms(2) by auto
  show ?thesis
    by (rule file_action_effect [OF assms(2) sp ok r]) (use AcFls in auto)
next
  case (AcExec argv batch)
  show ?thesis
  proof (cases batch)
    case True
    with assms(1) AcExec have "lower_batched SemNormal argv st = Inr (x, st')" by simp
    then show ?thesis
      by (rule batched_action_effect [OF assms(2) same_plan_simps(1) assms(2)]) (simp_all add: AcExec)
  next
    case False
    with assms AcExec show ?thesis
      by (auto simp: lowered_action_def compile_immediate_exec_def intro!: plain_action_effect)
  qed
next
  case (AcExecDir argv batch)
  show ?thesis
  proof (cases batch)
    case True
    with assms(1) AcExecDir have "lower_batched SemDirLocal argv (needs_safe_path st) = Inr (x, st')" by simp
    then show ?thesis
      by (rule batched_action_effect [OF assms(2), rotated 2]) (simp_all add: AcExecDir assms(2))
  next
    case False
    with assms AcExecDir show ?thesis
      by (auto simp: lowered_action_def intro!: plain_action_effect)
  qed
next
  case (AcOk argv batch)
  with assms show ?thesis
    by (auto simp: lowered_action_def result_simps compile_immediate_exec_def dest!: require_feature_warned
        split: if_splits intro!: plain_action_effect)
next
  case (AcOkDir argv batch)
  with assms show ?thesis
    by (auto simp: lowered_action_def result_simps dest!: require_feature_warned
        split: if_splits intro!: plain_action_effect)
next
  case AcDelete
  with assms show ?thesis
    by (auto simp: lowered_action_def action_effect_def grows_def outputs_ok_def)
qed (use assms in \<open>auto simp: lowered_action_def intro!: plain_action_effect\<close>)

section \<open>What lowering an expression does\<close>

definition numbered_from :: "32 word \<Rightarrow> 32 word list \<Rightarrow> bool" where
  "numbered_from i ids \<longleftrightarrow> ids = map (\<lambda>k. i + of_nat k) [0..<length ids]"

lemma numbered_from_Nil [simp]: "numbered_from i []"
  by (simp add: numbered_from_def)

definition lowers_to ::
  "lowering \<Rightarrow> leaf list \<Rightarrow> ('r, 'p) regex_matcher rexpr list \<Rightarrow> lowering \<Rightarrow> bool" where
  "lowers_to st ls xs st' \<longleftrightarrow>
     list_all is_leaf xs \<and> outputs_ok st' \<and> grows st st' \<and> list_all (runtime_leaf_ok st') xs
     \<and> lw_traversal st' = fold leaf_traversal ls (lw_traversal st)
     \<and> pl_saw_action (lw_state st') = (pl_saw_action (lw_state st) \<or> list_ex is_action_leaf ls)
     \<and> pl_saw_delete (lw_state st') = (pl_saw_delete (lw_state st) \<or> LeafAction AcDelete \<in> set ls)
     \<and> pl_next_exec_batch_id (lw_state st') =
         pl_next_exec_batch_id (lw_state st) + of_nat (length (concat (map batch_ids xs)))
     \<and> numbered_from (pl_next_exec_batch_id (lw_state st)) (concat (map batch_ids xs))
     \<and> list_all2 (\<lambda>l x. is_action_leaf l \<longleftrightarrow> (\<exists>a. x = RAction a)) ls xs"

lemma lower_leaf_effect:
  fixes x :: "('r, 'p) regex_matcher rexpr"
  assumes "lower_leaf env mode l st = Inr (x, st')" "outputs_ok st"
  shows "lowers_to st [l] [x] st'"
proof (cases l)
  case (LeafPredicate p)
  with assms(1) have e: "predicate_effect l st x st'" by (auto dest: lower_predicate_effect)
  then have "outputs_ok st'" using assms(2) by (simp add: predicate_effect_def same_actions_def outputs_ok_def)
  with e show ?thesis
    by (auto simp: predicate_effect_def same_actions_def lowers_to_def LeafPredicate)
next
  case (LeafAction a)
  let ?st = "set_state (\<lambda>s. s\<lparr>pl_saw_action := True\<rparr>) st"
  have "outputs_ok ?st" using assms(2) by (simp add: outputs_ok_def)
  with assms(1) LeafAction have e: "action_effect a ?st x st'"
    by (auto simp: lower_action_def dest: lower_action_effect_kind)
  then obtain b where b: "x = RAction b" by (auto simp: action_effect_def)
  have ids: "batch_ids x = map (\<lambda>k. pl_next_exec_batch_id (lw_state st) + of_nat k) [0..<length (batch_ids x)]"
    using e unfolding b by (cases "RAction b :: ('r, 'p) regex_matcher rexpr" rule: batch_ids.cases)
      (auto simp: action_effect_def)
  have "grows st st'" using e by (auto simp: action_effect_def grows_def)
  have "numbered_from (pl_next_exec_batch_id (lw_state st)) (batch_ids x)"
    using ids unfolding numbered_from_def .
  with e \<open>grows st st'\<close> show ?thesis
    by (simp add: action_effect_def lowers_to_def LeafAction b eq_commute [of AcDelete])
qed

lemma numbered_from_distinct:
  assumes "numbered_from i ids" "length ids < 2 ^ 32"
  shows "distinct ids"
proof -
  have "inj_on (\<lambda>k. i + of_nat k) {0..<length ids}"
    using assms(2) by (auto simp: inj_on_def of_nat_inverse word_of_nat_eq_iff take_bit_nat_eq_self)
  then have "distinct (map (\<lambda>k. i + of_nat k) [0..<length ids])" by (simp add: distinct_map)
  then show ?thesis using assms(1) unfolding numbered_from_def by simp
qed

lemma numbered_from_append:
  assumes "numbered_from i ids" "numbered_from (i + of_nat (length ids)) ids'"
  shows "numbered_from i (ids @ ids')"
  unfolding numbered_from_def
proof (rule nth_equalityI)
  fix k assume k: "k < length (ids @ ids')"
  have l: "m < length ids \<Longrightarrow> ids ! m = i + of_nat m" for m
    using arg_cong [OF assms(1) [unfolded numbered_from_def], of "\<lambda>l. l ! m"] by simp
  have r: "m < length ids' \<Longrightarrow> ids' ! m = i + of_nat (length ids) + of_nat m" for m
    using arg_cong [OF assms(2) [unfolded numbered_from_def], of "\<lambda>l. l ! m"] by simp
  show "(ids @ ids') ! k = map (\<lambda>k. i + of_nat k) [0..<length (ids @ ids')] ! k"
  proof (cases "k < length ids")
    case True
    with l [of k] k show ?thesis by (simp add: nth_append)
  next
    case False
    then obtain m where m: "k = length ids + m" by (metis le_Suc_ex linorder_not_less)
    with r [of m] k show ?thesis by (simp add: nth_append add.assoc)
  qed
qed simp

lemma lowers_to_append:
  assumes "lowers_to st ls xs st1" "lowers_to st1 ms ys st2"
  shows "lowers_to st (ls @ ms) (xs @ ys) st2"
proof -
  note a = assms(1) [unfolded lowers_to_def] and b = assms(2) [unfolded lowers_to_def]
  have i: "pl_next_exec_batch_id (lw_state st1) =
      pl_next_exec_batch_id (lw_state st) + of_nat (length (concat (map batch_ids xs)))"
    using a by blast
  have "numbered_from (pl_next_exec_batch_id (lw_state st)) (concat (map batch_ids xs))"
    using a by blast
  moreover have "numbered_from (pl_next_exec_batch_id (lw_state st1)) (concat (map batch_ids ys))"
    using b by blast
  ultimately have ids: "numbered_from (pl_next_exec_batch_id (lw_state st)) (concat (map batch_ids (xs @ ys)))"
    unfolding i map_append concat_append by (rule numbered_from_append)
  have "list_all (runtime_leaf_ok st1) xs" "grows st1 st2" using a b by blast+
  then have "list_all (runtime_leaf_ok st2) xs"
    by (auto simp: list_all_iff intro: runtime_leaf_ok_grows)
  then have ok: "list_all (runtime_leaf_ok st2) (xs @ ys)" using b by simp
  have gr: "grows st st2" using a b by (blast intro: grows_trans)
  have nxt: "pl_next_exec_batch_id (lw_state st2) =
      pl_next_exec_batch_id (lw_state st) + of_nat (length (concat (map batch_ids (xs @ ys))))"
    using b i by (simp only: map_append concat_append length_append of_nat_add ac_simps)
  have act: "pl_saw_action (lw_state st2) = (pl_saw_action (lw_state st) \<or> list_ex is_action_leaf (ls @ ms))"
    using a b by (simp only: list_ex_append disj_assoc)
  have del: "pl_saw_delete (lw_state st2) = (pl_saw_delete (lw_state st) \<or> LeafAction AcDelete \<in> set (ls @ ms))"
    using a b by (simp only: set_append Un_iff disj_assoc)
  have trav: "lw_traversal st2 = fold leaf_traversal (ls @ ms) (lw_traversal st)"
    using a b by (simp only: fold_append comp_apply)
  have shape: "list_all2 (\<lambda>l x. is_action_leaf l \<longleftrightarrow> (\<exists>a. x = RAction a)) (ls @ ms) (xs @ ys)"
    "list_all is_leaf (xs @ ys)" "outputs_ok st2"
    using a b by (simp_all add: list_all2_appendI)
  from ids ok gr nxt act del trav shape show ?thesis unfolding lowers_to_def by blast
qed

lemma lower_leaves_effect:
  fixes xs :: "('r, 'p) regex_matcher rexpr list"
  assumes "lower_leaves env mode ls st = Inr (xs, st')" "outputs_ok st"
  shows "lowers_to st ls xs st'"
  using assms
proof (induction ls arbitrary: st xs)
  case Nil
  then show ?case by (simp add: lowers_to_def numbered_from_def)
next
  case (Cons l ls)
  then obtain x st1 ys where 1: "lower_leaf env mode l st = Inr (x, st1)"
    and 2: "lower_leaves env mode ls st1 = Inr (ys, st')" and xs: "xs = x # ys"
    by (auto simp: result_simps)
  from lower_leaf_effect [OF 1 Cons.prems(2)] have e: "lowers_to st [l] [x] st1" .
  then have "outputs_ok st1" by (simp add: lowers_to_def)
  from lowers_to_append [OF e Cons.IH [OF 2 this]] show ?case by (simp add: xs)
qed

lemma lower_leaf_is_leaf: "lower_leaf env mode l st = Inr (x, st') \<Longrightarrow> runtime_leaves x = [x]"
proof (cases l)
  case (LeafPredicate p)
  assume "lower_leaf env mode l st = Inr (x, st')"
  with LeafPredicate have "predicate_effect l st x st'" by (auto dest: lower_predicate_effect)
  then show ?thesis by (auto simp: predicate_effect_def)
next
  case (LeafAction a)
  assume "lower_leaf env mode l st = Inr (x, st')"
  with LeafAction show ?thesis
    by (cases a) (auto simp: lower_action_def lowered_action_def lower_batched_def Let_def result_simps
        case_prod_beta split: if_splits)
qed

lemma lower_expr_leaves:
  "lower_expr env mode e st = Inr (x, st') \<Longrightarrow> lower_leaves env mode (leaves e) st = Inr (runtime_leaves x, st')"
  "lower_items env mode es st = Inr (ys, st') \<Longrightarrow>
     lower_leaves env mode (concat (map leaves es)) st = Inr (concat (map runtime_leaves ys), st')"
proof (induction env mode e st and env mode es st arbitrary: x st' and ys st'
    rule: lower_expr_lower_items.induct)
  case (1 env mode items st)
  then show ?case by (auto simp: result_simps)
next
  case (2 env mode l r st)
  from 2(3) obtain a st1 b where l: "lower_expr env mode l st = Inr (a, st1)"
    and r: "lower_expr env mode r st1 = Inr (b, st')" and x: "x = ROr a b"
    by (auto simp: result_simps)
  from lower_leaves_append [OF 2(1) [OF l] 2(2) [OF l refl r]] show ?case by (simp add: x)
next
  case (3 env mode e st)
  then show ?case by (auto simp: result_simps)
next
  case (4 env mode p st)
  then have "lower_leaf env mode (LeafPredicate p) st = Inr (x, st')" by simp
  with lower_leaf_is_leaf [OF this] show ?case by simp
next
  case (5 env mode a st)
  then have "lower_leaf env mode (LeafAction a) st = Inr (x, st')" by simp
  with lower_leaf_is_leaf [OF this] show ?case by simp
next
  case (6 env mode st)
  then show ?case by simp
next
  case (7 env mode e es st)
  from 7(3) obtain a st1 bs where e: "lower_expr env mode e st = Inr (a, st1)"
    and es: "lower_items env mode es st1 = Inr (bs, st')" and ys: "ys = a # bs"
    by (auto simp: result_simps)
  from lower_leaves_append [OF 7(1) [OF e] 7(2) [OF e refl es]] show ?case by (simp add: ys)
qed

lemma mset_segment_loop: "mset (segment_loop out seg items) = mset out + mset seg + mset items"
  by (induction out seg items rule: segment_loop.induct) (simp_all add: flush_segment_def)

lemma mset_concat_map: "mset (concat (map f ys)) = (\<Sum>y\<in>#mset ys. mset (f y))"
  by (induction ys) simp_all

lemma optimizer_leaves: "mset (runtime_leaves (optimize_read_only_and_chains x)) = mset (runtime_leaves x)"
proof (induction x)
  case (RAnd items)
  have "mset (runtime_leaves (optimize_read_only_and_chains (RAnd items))) =
      (\<Sum>y\<in>#mset (map optimize_read_only_and_chains items). mset (runtime_leaves y))"
    by (simp add: mset_concat_map mset_segment_loop)
  also have "\<dots> = (\<Sum>x\<in>#mset items. mset (runtime_leaves (optimize_read_only_and_chains x)))"
    by (simp add: image_mset.compositionality comp_def)
  also have "\<dots> = (\<Sum>x\<in>#mset items. mset (runtime_leaves x))"
    using RAnd.IH by (intro arg_cong [of _ _ sum_mset] image_mset_cong) simp
  finally show ?case by (simp add: mset_concat_map)
qed simp_all

section \<open>What a plan promises\<close>

lemma initial_outputs_ok: "outputs_ok (initial_lowering now)"
  by (simp add: outputs_ok_def initial_lowering_def planning_state_new_def bt_empty_def bt_inv_def bt_get_def)

lemma initial_fields:
  "pl_saw_action (lw_state (initial_lowering now)) = False"
  "pl_saw_delete (lw_state (initial_lowering now)) = False"
  "pl_next_exec_batch_id (lw_state (initial_lowering now)) = 0"
  "to_order (lw_traversal (initial_lowering now)) = PreOrder"
  "to_same_file_system (lw_traversal (initial_lowering now)) = False"
  "to_min_depth (lw_traversal (initial_lowering now)) = 0"
  "to_max_depth (lw_traversal (initial_lowering now)) = None"
  by (simp_all add: initial_lowering_def planning_state_new_def)

abbreviation implicit_print :: "('p, runtime_action) runtime_expr" where
  "implicit_print \<equiv> RAction (RaOutput OutPrint)"

lemma plan_commandE:
  fixes plan :: "('r, 'p) regex_matcher execution_plan"
  assumes "plan_command env ast workers now = Inr plan"
  obtains xs st where "lowers_to (initial_lowering now) (leaves (command_expr ast)) xs st"
    "mset (runtime_leaves (plan_expr plan)) =
       mset xs + (if pl_saw_action (lw_state st) then {#} else {#implicit_print#})"
    "plan_runtime plan = lw_runtime st" "plan_file_outputs plan = pl_file_outputs (lw_state st)"
    "plan_traversal plan = (if pl_saw_delete (lw_state st)
       then (lw_traversal st)\<lparr>to_order := DepthFirstPostOrder\<rparr> else lw_traversal st)"
    "plan_traversal_control plan = build_traversal_control_plan (plan_expr plan) (to_order (plan_traversal plan))"
    "plan_parallel_policy plan = choose_parallel_policy workers (to_order (plan_traversal plan)) (plan_action_profile plan)"
proof -
  from assms obtain e st where
    low: "lower_expr env (resolve_follow_mode (global_options ast)) (command_expr ast) (initial_lowering now) = Inr (e, st)"
    by (auto simp: plan_command_def Let_def result_simps)
  let ?x = "optimize_read_only_and_chains e"
  have e: "plan_expr plan = (if pl_saw_action (lw_state st) then ?x else RAnd [?x, implicit_print])"
    and rest: "plan_runtime plan = lw_runtime st" "plan_file_outputs plan = pl_file_outputs (lw_state st)"
    "plan_traversal plan = (if pl_saw_delete (lw_state st)
       then (lw_traversal st)\<lparr>to_order := DepthFirstPostOrder\<rparr> else lw_traversal st)"
    "plan_traversal_control plan = build_traversal_control_plan (plan_expr plan) (to_order (plan_traversal plan))"
    "plan_parallel_policy plan = choose_parallel_policy workers (to_order (plan_traversal plan)) (plan_action_profile plan)"
    using assms low by (auto simp: plan_command_def Let_def)
  have "mset (runtime_leaves (plan_expr plan)) =
      mset (runtime_leaves e) + (if pl_saw_action (lw_state st) then {#} else {#implicit_print#})"
    by (simp add: e optimizer_leaves)
  from that [OF lower_leaves_effect [OF lower_expr_leaves(1) [OF low] initial_outputs_ok] this rest] show thesis .
qed

lemma batch_ids_length: "length (concat (map batch_ids ys)) \<le> length ys"
proof (induction ys)
  case (Cons y ys)
  have "length (batch_ids y) \<le> 1" by (cases y rule: batch_ids.cases) simp_all
  with Cons show ?case by simp
qed simp

text \<open>
  C10.  The leaves of a plan agree with the resources the plan records: a printing leaf names
  a registered file output, a leaf that needs the mount table, the messages locale or a safe
  search path has the requirement set, the outputs are numbered in order with no
  path twice, and no relative-time test asks for a birth time.
\<close>

theorem plan_resources_registered:
  assumes "plan_command env ast workers now = Inr plan"
  shows "list_all (leaf_ok (plan_runtime plan) (length (plan_file_outputs plan))) (runtime_leaves (plan_expr plan))
    \<and> map output_id (plan_file_outputs plan) = [0..<length (plan_file_outputs plan)]
    \<and> distinct (map (\<lambda>out. components (output_path out)) (plan_file_outputs plan))"
proof -
  from assms obtain xs st where l: "lowers_to (initial_lowering now) (leaves (command_expr ast)) xs st"
    and m: "mset (runtime_leaves (plan_expr plan)) =
       mset xs + (if pl_saw_action (lw_state st) then {#} else {#implicit_print#})"
    and p: "plan_runtime plan = lw_runtime st" "plan_file_outputs plan = pl_file_outputs (lw_state st)"
    by (rule plan_commandE)
  have "set (runtime_leaves (plan_expr plan)) \<subseteq> insert implicit_print (set xs)"
    using arg_cong [OF m, of set_mset] by auto
  moreover have "list_all (runtime_leaf_ok st) xs" and o: "outputs_ok st" using l by (simp_all add: lowers_to_def)
  ultimately have "list_all (leaf_ok (plan_runtime plan) (length (plan_file_outputs plan))) (runtime_leaves (plan_expr plan))"
    by (fastforce simp: p list_all_iff)
  with o outputs_distinct [OF o] show ?thesis by (simp add: p outputs_ok_def Let_def)
qed

text \<open>
  C31.  Two batched exec actions of one plan never share a batch id, as long as the command
  has fewer than \<open>2 ^ 32\<close> leaves (the counter is a \<^verbatim>\<open>u32\<close>).
\<close>

theorem plan_batch_ids_distinct:
  assumes "plan_command env ast workers now = Inr plan" "length (leaves (command_expr ast)) < 2 ^ 32"
  shows "distinct (concat (map batch_ids (runtime_leaves (plan_expr plan))))"
proof -
  from assms(1) obtain xs st where l: "lowers_to (initial_lowering now) (leaves (command_expr ast)) xs st"
    and m: "mset (runtime_leaves (plan_expr plan)) =
       mset xs + (if pl_saw_action (lw_state st) then {#} else {#implicit_print#})"
    by (rule plan_commandE)
  have "length xs < 2 ^ 32" using l assms(2) by (auto simp: lowers_to_def dest!: list_all2_lengthD)
  then have "length (concat (map batch_ids xs)) < 2 ^ 32" by (rule le_less_trans [OF batch_ids_length])
  then have "distinct (concat (map batch_ids xs))"
    using l by (auto simp: lowers_to_def intro: numbered_from_distinct)
  moreover have "mset (concat (map batch_ids (runtime_leaves (plan_expr plan)))) = mset (concat (map batch_ids xs))"
    by (simp add: mset_concat_map m)
  ultimately show ?thesis by (metis mset_eq_imp_distinct_iff)
qed

text \<open>The depth bounds written in a list of leaves, in order.\<close>

fun max_depths :: "leaf list \<Rightarrow> 32 word list" where
  "max_depths [] = []"
| "max_depths (l # ls) = (case l of LeafPredicate (PrMaxDepth v) \<Rightarrow> v # max_depths ls | _ \<Rightarrow> max_depths ls)"

fun min_depths :: "leaf list \<Rightarrow> 32 word list" where
  "min_depths [] = []"
| "min_depths (l # ls) = (case l of LeafPredicate (PrMinDepth v) \<Rightarrow> v # min_depths ls | _ \<Rightarrow> min_depths ls)"

lemma leaf_traversal_fields:
  "to_order (leaf_traversal l t) = (if l = LeafPredicate PrDepth then DepthFirstPostOrder else to_order t)"
  "to_same_file_system (leaf_traversal l t) = (l = LeafPredicate PrXDev \<or> to_same_file_system t)"
  "to_max_depth (leaf_traversal l t) =
     (case l of LeafPredicate (PrMaxDepth v) \<Rightarrow> Some (unat v) | _ \<Rightarrow> to_max_depth t)"
  "to_min_depth (leaf_traversal l t) = (case l of LeafPredicate (PrMinDepth v) \<Rightarrow> unat v | _ \<Rightarrow> to_min_depth t)"
  by (cases "(l, t)" rule: leaf_traversal.cases; simp split: predicate.splits)+

lemma fold_leaf_traversal:
  "to_order (fold leaf_traversal ls t) =
     (if LeafPredicate PrDepth \<in> set ls then DepthFirstPostOrder else to_order t)"
  "to_same_file_system (fold leaf_traversal ls t) \<longleftrightarrow> LeafPredicate PrXDev \<in> set ls \<or> to_same_file_system t"
  "to_max_depth (fold leaf_traversal ls t) =
     (if max_depths ls = [] then to_max_depth t else Some (unat (last (max_depths ls))))"
  "to_min_depth (fold leaf_traversal ls t) =
     (if min_depths ls = [] then to_min_depth t else unat (last (min_depths ls)))"
  by (induction ls arbitrary: t) (auto simp: leaf_traversal_fields split: leaf.splits predicate.splits)

text \<open>
  C32.  The options of a plan do not depend on where in the expression they are written:
  the order is post-order exactly when \<^verbatim>\<open>-depth\<close> or \<^verbatim>\<open>-delete\<close> occurs anywhere (even in a
  branch never evaluated), \<^verbatim>\<open>-xdev\<close> likewise, and the last depth bound written wins.
\<close>

theorem plan_options_positionless:
  assumes "plan_command env ast workers now = Inr plan"
  shows "plan_traversal plan =
    (let ls = leaves (command_expr ast) in
     \<lparr>to_min_depth = (if min_depths ls = [] then 0 else unat (last (min_depths ls))),
      to_max_depth = (if max_depths ls = [] then None else Some (unat (last (max_depths ls)))),
      to_same_file_system = (LeafPredicate PrXDev \<in> set ls),
      to_order = (if LeafPredicate PrDepth \<in> set ls \<or> LeafAction AcDelete \<in> set ls
                  then DepthFirstPostOrder else PreOrder)\<rparr>)"
proof (rule plan_commandE [OF assms])
  fix xs st
  assume l: "lowers_to (initial_lowering now) (leaves (command_expr ast)) xs st"
    and t: "plan_traversal plan = (if pl_saw_delete (lw_state st)
       then (lw_traversal st)\<lparr>to_order := DepthFirstPostOrder\<rparr> else lw_traversal st)"
  from l show ?thesis
    by (auto simp: t lowers_to_def Let_def initial_fields fold_leaf_traversal intro!: traversal_options.equality)
qed

text \<open>
  Every plan acts: it has the actions that were written, and when none was written it
  has one, the implicit \<^verbatim>\<open>-print\<close>.
\<close>

theorem plan_always_acts:
  assumes "plan_command env ast workers now = Inr plan"
  shows "length (filter (\<lambda>x. \<exists>a. x = RAction a) (runtime_leaves (plan_expr plan))) =
    max 1 (length (filter is_action_leaf (leaves (command_expr ast))))"
proof -
  from assms obtain xs st where l: "lowers_to (initial_lowering now) (leaves (command_expr ast)) xs st"
    and m: "mset (runtime_leaves (plan_expr plan)) =
       mset xs + (if pl_saw_action (lw_state st) then {#} else {#implicit_print#})"
    by (rule plan_commandE)
  have "list_all2 (\<lambda>l x. is_action_leaf l \<longleftrightarrow> (\<exists>a. x = RAction a)) ls ys \<Longrightarrow>
      length (filter (\<lambda>x. \<exists>a. x = RAction a) ys) = length (filter is_action_leaf ls)"
    for ls and ys :: "('c, 'd) regex_matcher rexpr list"
    by (induction ls ys rule: list_all2_induct) auto
  then have xs: "length (filter (\<lambda>x. \<exists>a. x = RAction a) xs) = length (filter is_action_leaf (leaves (command_expr ast)))"
    and saw: "pl_saw_action (lw_state st) \<longleftrightarrow> filter is_action_leaf (leaves (command_expr ast)) \<noteq> []"
    using l by (auto simp: lowers_to_def initial_fields filter_empty_conv list_ex_iff)
  have "length (filter (\<lambda>x. \<exists>a. x = RAction a) (runtime_leaves (plan_expr plan))) =
      size (filter_mset (\<lambda>x. \<exists>a. x = RAction a) (mset (runtime_leaves (plan_expr plan))))"
    by (metis mset_filter size_mset)
  also have "\<dots> = length (filter (\<lambda>x. \<exists>a. x = RAction a) xs) + (if pl_saw_action (lw_state st) then 0 else 1)"
    by (simp add: m flip: mset_filter)
  finally show ?thesis by (cases "filter is_action_leaf (leaves (command_expr ast))") (auto simp: xs saw)
qed

section \<open>A sample plan\<close>

definition sample_capabilities :: platform_capabilities where
  "sample_capabilities =
     \<lparr>cap_fstype = SupportExact, cap_same_file_system = SupportExact, cap_birth_time = SupportExact,
      cap_file_flags = SupportExact, cap_reparse_type = SupportUnsupported ''no'',
      cap_named_ownership = SupportExact, cap_numeric_ownership = SupportExact,
      cap_windows_ownership = SupportUnsupported ''no'', cap_access_predicates = SupportExact,
      cap_messages_locale = SupportExact, cap_case_insensitive_glob = SupportExact,
      cap_mode_bits = SupportApproximate ''guessed'', cap_output_contract = ContractPosix\<rparr>"

definition no_file :: io_error where
  "no_file = \<lparr>io_text = ''none'', raw_os_error = Some 2\<rparr>"

definition sample_env :: "(unit, unit) plan_env" where
  "sample_env =
     \<lparr>pe_capabilities = sample_capabilities,
      pe_reader =
        \<lparr>read_metadata_view = \<lambda>p b. Inl (no_file), read_link = \<lambda>p. Inl (no_file),
         read_directory_is_empty = \<lambda>p. Inl (no_file), read_access = \<lambda>p m. Inl (no_file)\<rparr>,
      pe_stat = \<lambda>p b. Inl (no_file), pe_mktime = \<lambda>tm. (-1, tm), pe_localtime = \<lambda>t. None,
      pe_user = \<lambda>v. Inl (diagnostic_parse ''none''), pe_group = \<lambda>v. Inl (diagnostic_parse ''none''),
      pe_sid = \<lambda>v. Inl (diagnostic_parse ''none''),
      pe_engines =
        \<lparr>en_build_rust = \<lambda>p i. Inl ''none'', en_build_pcre2 = \<lambda>p i. Inl ''none'',
         en_match_rust = \<lambda>r s. False, en_match_pcre2 = \<lambda>r s. Inl ''none''\<rparr>,
      pe_flag_specs = [], pe_host_parallelism = 4\<rparr>"

text \<open>\<^verbatim>\<open>-maxdepth 3 -fprint d/out -exec echo {} + -fls d//out -execdir ls {} + -delete -maxdepth 2\<close>\<close>

definition sample_command :: command_ast where
  "sample_command =
     \<lparr>start_paths = [], global_options = [],
      command_expr = EAnd [EPredicate (PrMaxDepth 3), EAction (AcFPrint ''d/out''),
        EAction (AcExec [''echo'', ''{}''] True), EAction (AcFls ''d//out''),
        EAction (AcExecDir [''ls'', ''{}''] True), EAction AcDelete, EPredicate (PrMaxDepth 2)]\<rparr>"

definition sample_now :: timestamp where
  "sample_now = Timestamp 0 0"

lemma sample_planned:
  "case plan_command sample_env sample_command 2 sample_now of
     Inl d \<Rightarrow> False
   | Inr plan \<Rightarrow>
       plan_file_outputs plan = [\<lparr>output_id = 0, output_path = ''d/out''\<rparr>]
       \<and> concat (map batch_ids (runtime_leaves (plan_expr plan))) = [0, 1]"
  by code_simp

lemma plan_resources_registered_witness:
  "\<exists>plan. plan_command sample_env sample_command 2 sample_now = Inr plan
     \<and> list_all (leaf_ok (plan_runtime plan) 1) (runtime_leaves (plan_expr plan))
     \<and> distinct (map (\<lambda>out. components (output_path out)) (plan_file_outputs plan))"
proof -
  from sample_planned obtain plan where p: "plan_command sample_env sample_command 2 sample_now = Inr plan"
    and o: "plan_file_outputs plan = [\<lparr>output_id = 0, output_path = ''d/out''\<rparr>]"
    by (auto split: sum.splits)
  from plan_resources_registered [OF p] o have "list_all (leaf_ok (plan_runtime plan) 1) (runtime_leaves (plan_expr plan))"
    "distinct (map (\<lambda>out. components (output_path out)) (plan_file_outputs plan))" by simp_all
  with p show ?thesis by blast
qed

lemma plan_batch_ids_distinct_witness:
  "\<exists>plan. plan_command sample_env sample_command 2 sample_now = Inr plan
     \<and> distinct (concat (map batch_ids (runtime_leaves (plan_expr plan))))
     \<and> concat (map batch_ids (runtime_leaves (plan_expr plan))) = [0, 1]"
proof -
  from sample_planned obtain plan where p: "plan_command sample_env sample_command 2 sample_now = Inr plan"
    and b: "concat (map batch_ids (runtime_leaves (plan_expr plan))) = [0, 1]"
    by (auto split: sum.splits)
  have "length (leaves (command_expr sample_command)) < 2 ^ 32" by (simp add: sample_command_def)
  from plan_batch_ids_distinct [OF p this] p b show ?thesis by blast
qed

lemma plan_options_positionless_witness:
  "\<exists>plan. plan_command sample_env sample_command 2 sample_now = Inr plan
     \<and> plan_traversal plan = \<lparr>to_min_depth = 0, to_max_depth = Some 2, to_same_file_system = False,
         to_order = DepthFirstPostOrder\<rparr>"
proof -
  from sample_planned obtain plan where p: "plan_command sample_env sample_command 2 sample_now = Inr plan"
    by (auto split: sum.splits)
  from plan_options_positionless [OF p] show ?thesis using p by (simp add: sample_command_def Let_def)
qed

lemma plan_always_acts_witness:
  "\<exists>plan. plan_command sample_env sample_command 2 sample_now = Inr plan
     \<and> length (filter (\<lambda>x. \<exists>a. x = RAction a) (runtime_leaves (plan_expr plan))) = 5"
proof -
  from sample_planned obtain plan where p: "plan_command sample_env sample_command 2 sample_now = Inr plan"
    by (auto split: sum.splits)
  from plan_always_acts [OF p] show ?thesis using p by (simp add: sample_command_def)
qed

end
