(* ===== verification/Walker.thy ===== *)
theory Walker
  imports Planner "HOL-Library.Multiset"
begin

text \<open>
  The ordered walker of \<^verbatim>\<open>src/src/walker.rs\<close>: a stack of frames, a back end that reads the file
  system, and the callbacks of the caller that decide where to prune and what to do with an
  entry.  The tickets of \<^verbatim>\<open>src/src/runtime_pipeline.rs\<close> number the entries of a run.
\<close>

section \<open>Entries of a walk (runtime_pipeline.rs, walker.rs)\<close>

datatype subtree_barrier_id = SubtreeBarrierId nat

record entry_ticket =
  ticket_sequence :: u64
  ticket_ancestor_barriers :: "subtree_barrier_id list"
  ticket_block_on_subtree :: "subtree_barrier_id option"

record sched_entry =
  se_entry :: entry
  se_ticket :: entry_ticket

datatype (plugins only: code size) walk_event =
    WalkEntry sched_entry
  | WalkDirectoryComplete sched_entry
  | WalkError diagnostic

datatype walk_directive = WalkContinue | WalkStop

record pending_path =
  pp_path :: path
  pp_root_path :: path
  pp_depth :: nat
  pp_is_root :: bool
  pp_hint :: "file_type option"
  pp_ancestry :: "file_identity list"
  pp_ancestor_barriers :: "subtree_barrier_id list"
  pp_root_device :: "u64 option"
  pp_parent_completion :: "nat option"

datatype (plugins only: code size) ordered_frame =
    FrameVisit pending_path
  | FrameComplete entry "subtree_barrier_id list"

record discovered_child =
  dc_path :: path
  dc_hint :: "file_type option"

definition scheduled_entry ::
  "entry \<Rightarrow> u64 \<Rightarrow> subtree_barrier_id list \<Rightarrow> subtree_barrier_id option \<Rightarrow> sched_entry" where
  "scheduled_entry e seq barriers block =
     \<lparr>se_entry = e,
      se_ticket = \<lparr>ticket_sequence = seq, ticket_ancestor_barriers = barriers,
        ticket_block_on_subtree = block\<rparr>\<rparr>"

section \<open>The back end\<close>

text \<open>
  \<^verbatim>\<open>visit_children\<close> calls its visitor once per child or error and then returns; the calls are
  the list.
\<close>

record walk_backend =
  wb_load_entry :: "pending_path \<Rightarrow> entry result"
  wb_visit_children :: "path \<Rightarrow> discovered_child result list \<times> unit result"
  wb_active_directory_identity :: "entry \<Rightarrow> follow_mode \<Rightarrow> file_identity option result"

fun split_children :: "discovered_child result list \<Rightarrow> discovered_child list \<times> diagnostic list" where
  "split_children [] = ([], [])"
| "split_children (item # items) =
     (let (children, diagnostics) = split_children items in
      case item of
        Inr child \<Rightarrow> (child # children, diagnostics)
      | Inl error \<Rightarrow> (children, error # diagnostics))"

definition read_children ::
  "walk_backend \<Rightarrow> path \<Rightarrow> (discovered_child list \<times> diagnostic list) result" where
  "read_children b p =
     (let (items, r) = wb_visit_children b p in try_bind r (\<lambda>_. Inr (split_children items)))"

definition load_entry :: "platform_reader \<Rightarrow> pending_path \<Rightarrow> entry result" where
  "load_entry reader p =
     (let e = with_file_type_hint_and_root reader (pp_path p) (pp_depth p) (pp_is_root p)
                (pp_root_path p) (pp_hint p)
      in if pp_is_root p then try_bind (physical_kind e) (\<lambda>_. Inr e) else Inr e)"

text \<open>What \<^verbatim>\<open>fs::read_dir\<close> yields: an error, or items each of which may be an error.\<close>

record dir_item =
  di_path :: path
  di_file_type :: "file_type io_result"

definition visit_children ::
  "(path \<Rightarrow> dir_item io_result list io_result) \<Rightarrow> path \<Rightarrow> discovered_child result list \<times> unit result" where
  "visit_children read_dir p =
     (case read_dir p of
        Inl error \<Rightarrow> ([], Inl (path_error p error))
      | Inr items \<Rightarrow>
          (map (\<lambda>item. case item of
              Inr child \<Rightarrow> Inr \<lparr>dc_path = di_path child, dc_hint = ok_value (di_file_type child)\<rparr>
            | Inl error \<Rightarrow> Inl (path_error p error)) items, Inr ()))"

definition fs_walk_backend ::
  "platform_reader \<Rightarrow> (path \<Rightarrow> dir_item io_result list io_result) \<Rightarrow> walk_backend" where
  "fs_walk_backend reader read_dir =
     \<lparr>wb_load_entry = load_entry reader, wb_visit_children = visit_children read_dir,
      wb_active_directory_identity = active_directory_identity\<rparr>"

section \<open>Where the walk goes down\<close>

definition should_descend :: "nat \<Rightarrow> nat option \<Rightarrow> bool" where
  "should_descend depth max_depth = (case max_depth of Some deepest \<Rightarrow> depth < deepest | None \<Rightarrow> True)"

definition loop_error :: "path \<Rightarrow> diagnostic" where
  "loop_error p = diagnostic_new (''filesystem loop detected at '' @ utf8_lossy p) 1"

definition should_descend_directory ::
  "pending_path \<Rightarrow> entry \<Rightarrow> follow_mode \<Rightarrow> traversal_options \<Rightarrow> traversal_control \<Rightarrow> walk_backend \<Rightarrow>
   (file_identity list \<times> u64 option) option result" where
  "should_descend_directory p e mode options verdict b =
     (if tc_prune verdict \<or> \<not> should_descend (pp_depth p) (to_max_depth options) then Inr None
      else try_bind (wb_active_directory_identity b e mode) (\<lambda>identity.
        case identity of
          None \<Rightarrow> Inr None
        | Some i \<Rightarrow>
            if i \<in> set (pp_ancestry p) then Inl (loop_error (pp_path p))
            else
              (let root_device =
                     (case pp_root_device p of Some d \<Rightarrow> Some d | None \<Rightarrow> Some (device_number i))
               in if to_same_file_system options \<and> (case root_device of Some d \<Rightarrow> device_number i \<noteq> d | None \<Rightarrow> False)
                  then Inr None
                  else Inr (Some (pp_ancestry p @ [i], root_device)))))"

section \<open>The loop\<close>

text \<open>
  The arguments of \<^verbatim>\<open>walk_ordered_with_backend\<close>.  The callback \<open>emit\<close> runs on a state of the
  caller; a frame either leaves a stack and a sequence number, or ends the walk.
\<close>

record walk_args =
  wk_backend :: walk_backend
  wk_mode :: follow_mode
  wk_options :: traversal_options
  wk_control :: "entry \<Rightarrow> traversal_control result"

type_synonym 's emitter = "walk_event \<Rightarrow> 's \<Rightarrow> walk_directive result \<times> 's"

datatype (plugins only: code size) 's walk_next =
    WalkOn "ordered_frame list" u64 's
  | WalkDone "unit result" 's

text \<open>\<^verbatim>\<open>if emit(..)? == Stop { return Ok(()) }\<close>, and \<^verbatim>\<open>emit(..)?\<close>.\<close>

definition emit_or_stop ::
  "'s emitter \<Rightarrow> walk_event \<Rightarrow> 's \<Rightarrow> ('s \<Rightarrow> 's walk_next) \<Rightarrow> 's walk_next" where
  "emit_or_stop emit ev s next =
     (case emit ev s of
        (Inl err, s) \<Rightarrow> WalkDone (Inl err) s
      | (Inr WalkStop, s) \<Rightarrow> WalkDone (Inr ()) s
      | (Inr WalkContinue, s) \<Rightarrow> next s)"

definition emit_error ::
  "'s emitter \<Rightarrow> diagnostic \<Rightarrow> 's \<Rightarrow> ('s \<Rightarrow> 's walk_next) \<Rightarrow> 's walk_next" where
  "emit_error emit error s next =
     (case emit (WalkError error) s of
        (Inl err, s) \<Rightarrow> WalkDone (Inl err) s
      | (Inr d, s) \<Rightarrow> next s)"

fun emit_errors ::
  "'s emitter \<Rightarrow> diagnostic list \<Rightarrow> 's \<Rightarrow> ('s \<Rightarrow> 's walk_next) \<Rightarrow> 's walk_next" where
  "emit_errors emit [] s next = next s"
| "emit_errors emit (error # errors) s next =
     emit_error emit error s (\<lambda>s. emit_errors emit errors s next)"

definition child_pending :: "pending_path \<Rightarrow> file_identity list \<Rightarrow> u64 option \<Rightarrow> discovered_child \<Rightarrow> pending_path" where
  "child_pending p ancestry root_device child =
       \<lparr>pp_path = dc_path child, pp_root_path = pp_root_path p, pp_depth = pp_depth p + 1,
        pp_is_root = False, pp_hint = dc_hint child, pp_ancestry = ancestry,
        pp_ancestor_barriers = pp_ancestor_barriers p, pp_root_device = root_device,
        pp_parent_completion = None\<rparr>"

definition root_pending :: "path \<Rightarrow> pending_path" where
  "root_pending p =
       \<lparr>pp_path = p, pp_root_path = p, pp_depth = 0, pp_is_root = True, pp_hint = None,
        pp_ancestry = [], pp_ancestor_barriers = [], pp_root_device = None,
        pp_parent_completion = None\<rparr>"

text \<open>
  The two places where a directory that is not entered is completed at once in post-order.
\<close>

definition complete_now ::
  "walk_args \<Rightarrow> 's emitter \<Rightarrow> pending_path \<Rightarrow> entry \<Rightarrow> bool \<Rightarrow> ordered_frame list \<Rightarrow> u64 \<Rightarrow> 's \<Rightarrow> 's walk_next" where
  "complete_now wk emit p e is_directory rest seq s =
     (if to_order (wk_options wk) = DepthFirstPostOrder \<and> is_directory then
        emit_or_stop emit (WalkDirectoryComplete (scheduled_entry e seq (pp_ancestor_barriers p) None)) s
          (\<lambda>s. WalkOn rest (seq + 1) s)
      else WalkOn rest seq s)"

text \<open>The part of an iteration after the entry itself has been emitted.\<close>

definition descend_frame ::
  "walk_args \<Rightarrow> 's emitter \<Rightarrow> pending_path \<Rightarrow> entry \<Rightarrow> traversal_control \<Rightarrow> bool \<Rightarrow> ordered_frame list \<Rightarrow>
   u64 \<Rightarrow> 's \<Rightarrow> 's walk_next" where
  "descend_frame wk emit p e verdict is_directory rest seq s =
     (case should_descend_directory p e (wk_mode wk) (wk_options wk) verdict (wk_backend wk) of
        Inl error \<Rightarrow> emit_error emit error s (\<lambda>s. WalkOn rest seq s)
      | Inr None \<Rightarrow> complete_now wk emit p e is_directory rest seq s
      | Inr (Some (ancestry, root_device)) \<Rightarrow>
          (case read_children (wk_backend wk) (pp_path p) of
             Inl error \<Rightarrow>
               emit_error emit error s (\<lambda>s. complete_now wk emit p e is_directory rest seq s)
           | Inr (children, diagnostics) \<Rightarrow>
               emit_errors emit diagnostics s (\<lambda>s.
                 WalkOn
                   (map (\<lambda>child. FrameVisit (child_pending p ancestry root_device child)) children
                    @ (if to_order (wk_options wk) = DepthFirstPostOrder \<and> is_directory
                       then [FrameComplete e (pp_ancestor_barriers p)] else [])
                    @ rest)
                   seq s)))"

definition visit_frame ::
  "walk_args \<Rightarrow> 's emitter \<Rightarrow> pending_path \<Rightarrow> ordered_frame list \<Rightarrow> u64 \<Rightarrow> 's \<Rightarrow> 's walk_next" where
  "visit_frame wk emit p rest seq s =
     (case wb_load_entry (wk_backend wk) p of
        Inl error \<Rightarrow> emit_error emit error s (\<lambda>s. WalkOn rest seq s)
      | Inr e \<Rightarrow>
     (case wk_control wk e of
        Inl error \<Rightarrow> emit_error emit error s (\<lambda>s. WalkOn rest seq s)
      | Inr verdict \<Rightarrow>
     (case wb_active_directory_identity (wk_backend wk) e (wk_mode wk) of
        Inl error \<Rightarrow> emit_error emit error s (\<lambda>s. WalkOn rest seq s)
      | Inr identity \<Rightarrow>
          (let is_directory = identity \<noteq> None in
           if to_order (wk_options wk) = PreOrder \<or> \<not> is_directory then
             emit_or_stop emit (WalkEntry (scheduled_entry e seq (pp_ancestor_barriers p) None)) s
               (\<lambda>s. descend_frame wk emit p e verdict is_directory rest (seq + 1) s)
           else descend_frame wk emit p e verdict is_directory rest seq s))))"

fun walk_frame ::
  "walk_args \<Rightarrow> 's emitter \<Rightarrow> ordered_frame \<Rightarrow> ordered_frame list \<Rightarrow> u64 \<Rightarrow> 's \<Rightarrow> 's walk_next" where
  "walk_frame wk emit (FrameVisit p) rest seq s = visit_frame wk emit p rest seq s"
| "walk_frame wk emit (FrameComplete e barriers) rest seq s =
     emit_or_stop emit (WalkDirectoryComplete (scheduled_entry e seq barriers None)) s
       (\<lambda>s. WalkOn rest (seq + 1) s)"

text \<open>
  The loop, with fuel; the head of the list is the top of the stack.  \<open>walk_returns\<close> below shows
  that some fuel is enough.
\<close>

fun walk_loop ::
  "nat \<Rightarrow> walk_args \<Rightarrow> 's emitter \<Rightarrow> ordered_frame list \<Rightarrow> u64 \<Rightarrow> 's \<Rightarrow> (unit result \<times> 's) option" where
  "walk_loop 0 wk emit stack seq s = None"
| "walk_loop (Suc n) wk emit stack seq s =
     (case stack of
        [] \<Rightarrow> Some (Inr (), s)
      | frame # rest \<Rightarrow>
          (case walk_frame wk emit frame rest seq s of
             WalkDone r s \<Rightarrow> Some (r, s)
           | WalkOn stack seq s \<Rightarrow> walk_loop n wk emit stack seq s))"

definition walk_ordered ::
  "nat \<Rightarrow> walk_args \<Rightarrow> 's emitter \<Rightarrow> path list \<Rightarrow> 's \<Rightarrow> (unit result \<times> 's) option" where
  "walk_ordered n wk emit starts s = walk_loop n wk emit (map (\<lambda>p. FrameVisit (root_pending p)) starts) 0 s"

section \<open>The walk as a recursion\<close>

text \<open>
  The specification: what a visit emits before and after the children, without the stack, the
  numbering and the callback.
\<close>

datatype (plugins only: code size) walk_mark = MarkEntry entry | MarkDone entry | MarkError diagnostic

definition visit_node ::
  "walk_args \<Rightarrow> pending_path \<Rightarrow> walk_mark list \<times> pending_path list option \<times> walk_mark list" where
  "visit_node wk p =
     (case wb_load_entry (wk_backend wk) p of
        Inl error \<Rightarrow> ([MarkError error], None, [])
      | Inr e \<Rightarrow>
     (case wk_control wk e of
        Inl error \<Rightarrow> ([MarkError error], None, [])
      | Inr verdict \<Rightarrow>
     (case wb_active_directory_identity (wk_backend wk) e (wk_mode wk) of
        Inl error \<Rightarrow> ([MarkError error], None, [])
      | Inr identity \<Rightarrow>
          (let late = (to_order (wk_options wk) = DepthFirstPostOrder \<and> identity \<noteq> None);
               before = (if late then [] else [MarkEntry e]);
               after = (if late then [MarkDone e] else [])
           in case should_descend_directory p e (wk_mode wk) (wk_options wk) verdict (wk_backend wk) of
                Inl error \<Rightarrow> (before @ [MarkError error], None, [])
              | Inr None \<Rightarrow> (before, None, after)
              | Inr (Some (ancestry, root_device)) \<Rightarrow>
                  (case read_children (wk_backend wk) (pp_path p) of
                     Inl error \<Rightarrow> (before @ [MarkError error], None, after)
                   | Inr (children, diagnostics) \<Rightarrow>
                       (before @ map MarkError diagnostics,
                        Some (map (child_pending p ancestry root_device) children), after))))))"

definition node_kids :: "walk_args \<Rightarrow> pending_path \<Rightarrow> pending_path list" where
  "node_kids wk p = (case fst (snd (visit_node wk p)) of Some kids \<Rightarrow> kids | None \<Rightarrow> [])"

text \<open>The depth-first walk to a depth of \<open>k\<close> visits.\<close>

fun tree_marks :: "nat \<Rightarrow> walk_args \<Rightarrow> pending_path \<Rightarrow> walk_mark list" where
  "tree_marks 0 wk p = []"
| "tree_marks (Suc k) wk p =
     fst (visit_node wk p) @ concat (map (tree_marks k wk) (node_kids wk p)) @ snd (snd (visit_node wk p))"

text \<open>Tickets: entries and completed directories are numbered, errors are not.\<close>

fun mark_event :: "u64 \<Rightarrow> subtree_barrier_id list \<Rightarrow> walk_mark \<Rightarrow> walk_event" where
  "mark_event seq barriers (MarkEntry e) = WalkEntry (scheduled_entry e seq barriers None)"
| "mark_event seq barriers (MarkDone e) = WalkDirectoryComplete (scheduled_entry e seq barriers None)"
| "mark_event seq barriers (MarkError error) = WalkError error"

fun is_error_mark :: "walk_mark \<Rightarrow> bool" where
  "is_error_mark (MarkError error) \<longleftrightarrow> True"
| "is_error_mark _ \<longleftrightarrow> False"

definition next_seq :: "u64 \<Rightarrow> walk_mark \<Rightarrow> u64" where
  "next_seq seq m = (if is_error_mark m then seq else seq + 1)"

text \<open>The callback on a list of marks: an error of it ends the list, and so does a stop after an entry.\<close>

fun feed :: "'s emitter \<Rightarrow> subtree_barrier_id list \<Rightarrow> walk_mark list \<Rightarrow> u64 \<Rightarrow> 's \<Rightarrow> walk_directive result \<times> u64 \<times> 's" where
  "feed emit barriers [] seq s = (Inr WalkContinue, seq, s)"
| "feed emit barriers (m # ms) seq s =
     (case emit (mark_event seq barriers m) s of
        (Inl err, s) \<Rightarrow> (Inl err, seq, s)
      | (Inr d, s) \<Rightarrow>
          if d = WalkStop \<and> \<not> is_error_mark m then (Inr WalkStop, seq, s)
          else feed emit barriers ms (next_seq seq m) s)"

definition and_then_feed ::
  "walk_directive result \<times> u64 \<times> 's \<Rightarrow> (u64 \<Rightarrow> 's \<Rightarrow> 'a) \<Rightarrow> (unit result \<Rightarrow> 's \<Rightarrow> 'a) \<Rightarrow> 'a" where
  "and_then_feed r go stop =
     (case r of
        (Inl err, seq, s) \<Rightarrow> stop (Inl err) s
      | (Inr WalkStop, seq, s) \<Rightarrow> stop (Inr ()) s
      | (Inr WalkContinue, seq, s) \<Rightarrow> go seq s)"

lemma and_then_feed_simps [simp]:
  "and_then_feed (Inl err, seq, s) go stop = stop (Inl err) s"
  "and_then_feed (Inr WalkStop, seq, s) go stop = stop (Inr ()) s"
  "and_then_feed (Inr WalkContinue, seq, s) go stop = go seq s"
  by (simp_all add: and_then_feed_def)

lemma feed_append:
  "and_then_feed (feed emit barriers (ms @ ms') seq s) go stop =
     and_then_feed (feed emit barriers ms seq s)
       (\<lambda>seq s. and_then_feed (feed emit barriers ms' seq s) go stop) stop"
  by (induction ms arbitrary: seq s) (auto split: prod.splits sum.splits)

lemma emit_errors_walk:
  "emit_errors emit errors s (\<lambda>s. WalkOn stack seq s) =
     and_then_feed (feed emit barriers (map MarkError errors) seq s) (WalkOn stack) WalkDone"
  by (induction errors arbitrary: s) (auto simp: emit_error_def next_seq_def split: prod.splits sum.splits)

fun done_frame :: "subtree_barrier_id list \<Rightarrow> walk_mark \<Rightarrow> ordered_frame list" where
  "done_frame barriers (MarkDone e) = [FrameComplete e barriers]"
| "done_frame barriers _ = []"

definition node_now :: "walk_args \<Rightarrow> pending_path \<Rightarrow> walk_mark list" where
  "node_now wk p =
     (case visit_node wk p of (before, kids, after) \<Rightarrow> if kids = None then before @ after else before)"

definition node_frames :: "walk_args \<Rightarrow> pending_path \<Rightarrow> ordered_frame list" where
  "node_frames wk p =
     (case visit_node wk p of
        (before, None, after) \<Rightarrow> []
      | (before, Some kids, after) \<Rightarrow>
          map FrameVisit kids @ concat (map (done_frame (pp_ancestor_barriers p)) after))"

lemma walk_on_simps:
  "emit_or_stop emit (WalkEntry (scheduled_entry e seq barriers None)) s next =
     and_then_feed (feed emit barriers [MarkEntry e] seq s) (\<lambda>seq s. next s) WalkDone"
  "emit_or_stop emit (WalkDirectoryComplete (scheduled_entry e seq barriers None)) s (\<lambda>s. WalkOn stack (seq + 1) s) =
     and_then_feed (feed emit barriers [MarkDone e] seq s) (WalkOn stack) WalkDone"
  "emit_error emit error s (\<lambda>s. WalkOn stack seq s) =
     and_then_feed (feed emit barriers [MarkError error] seq s) (WalkOn stack) WalkDone"
  by (auto simp: emit_or_stop_def emit_error_def next_seq_def
      split: prod.splits sum.splits walk_directive.splits)

lemma descend_frame_feed:
  "descend_frame wk emit p e verdict is_directory rest seq s =
     (let after = (if to_order (wk_options wk) = DepthFirstPostOrder \<and> is_directory then [MarkDone e] else []);
          barriers = pp_ancestor_barriers p
      in case should_descend_directory p e (wk_mode wk) (wk_options wk) verdict (wk_backend wk) of
           Inl error \<Rightarrow> and_then_feed (feed emit barriers [MarkError error] seq s) (WalkOn rest) WalkDone
         | Inr None \<Rightarrow> and_then_feed (feed emit barriers after seq s) (WalkOn rest) WalkDone
         | Inr (Some (ancestry, root_device)) \<Rightarrow>
             (case read_children (wk_backend wk) (pp_path p) of
                Inl error \<Rightarrow>
                  and_then_feed (feed emit barriers (MarkError error # after) seq s) (WalkOn rest) WalkDone
              | Inr (children, diagnostics) \<Rightarrow>
                  and_then_feed (feed emit barriers (map MarkError diagnostics) seq s)
                    (WalkOn (map (\<lambda>c. FrameVisit (child_pending p ancestry root_device c)) children
                       @ concat (map (done_frame barriers) after) @ rest)) WalkDone))"
proof -
  have now: "complete_now wk emit p e is_directory rest seq s =
      and_then_feed (feed emit (pp_ancestor_barriers p)
        (if to_order (wk_options wk) = DepthFirstPostOrder \<and> is_directory then [MarkDone e] else []) seq s)
        (WalkOn rest) WalkDone" for s
    by (simp add: complete_now_def walk_on_simps)
  have err: "emit_error emit error s (\<lambda>s. complete_now wk emit p e is_directory rest seq s) =
      and_then_feed (feed emit (pp_ancestor_barriers p) (MarkError error #
        (if to_order (wk_options wk) = DepthFirstPostOrder \<and> is_directory then [MarkDone e] else [])) seq s)
        (WalkOn rest) WalkDone" for error s
    unfolding now by (auto simp: emit_error_def next_seq_def split: prod.splits sum.splits)
  show ?thesis
    unfolding descend_frame_def Let_def now err
    by (auto simp: walk_on_simps(3) [where barriers = "pp_ancestor_barriers p"]
        emit_errors_walk [where barriers = "pp_ancestor_barriers p"]
        split: sum.splits option.splits)
qed

lemma visit_frame_feed:
  "visit_frame wk emit p rest seq s =
     and_then_feed (feed emit (pp_ancestor_barriers p) (node_now wk p) seq s)
       (WalkOn (node_frames wk p @ rest)) WalkDone"
proof (cases "wb_load_entry (wk_backend wk) p")
  case (Inl error)
  then show ?thesis
    by (simp add: visit_frame_def node_now_def node_frames_def visit_node_def
        walk_on_simps(3) [where barriers = "pp_ancestor_barriers p"])
next
  case load: (Inr e)
  show ?thesis
  proof (cases "wk_control wk e")
    case (Inl error)
    with load show ?thesis
      by (simp add: visit_frame_def node_now_def node_frames_def visit_node_def
          walk_on_simps(3) [where barriers = "pp_ancestor_barriers p"])
  next
    case verdict: (Inr verdict)
    show ?thesis
    proof (cases "wb_active_directory_identity (wk_backend wk) e (wk_mode wk)")
      case (Inl error)
      with load verdict show ?thesis
        by (simp add: visit_frame_def node_now_def node_frames_def visit_node_def
            walk_on_simps(3) [where barriers = "pp_ancestor_barriers p"])
    next
      case identity: (Inr identity)
      define late where "late \<longleftrightarrow> to_order (wk_options wk) = DepthFirstPostOrder \<and> identity \<noteq> None"
      define before where "before = (if late then [] else [MarkEntry e])"
      have early: "to_order (wk_options wk) = PreOrder \<or> \<not> identity \<noteq> None \<longleftrightarrow> \<not> late"
        unfolding late_def by (cases "to_order (wk_options wk)") auto
      have visit: "visit_frame wk emit p rest seq s =
          and_then_feed (feed emit (pp_ancestor_barriers p) before seq s)
            (\<lambda>seq s. descend_frame wk emit p e verdict (identity \<noteq> None) rest seq s) WalkDone"
        unfolding visit_frame_def load verdict identity sum.case Let_def early before_def
        by (auto simp: emit_or_stop_def next_seq_def split: prod.splits sum.splits walk_directive.splits)
      let ?d = "should_descend_directory p e (wk_mode wk) (wk_options wk) verdict (wk_backend wk)"
      have node: "visit_node wk p =
          (case ?d of
             Inl error \<Rightarrow> (before @ [MarkError error], None, [])
           | Inr None \<Rightarrow> (before, None, if late then [MarkDone e] else [])
           | Inr (Some (ancestry, root_device)) \<Rightarrow>
               (case read_children (wk_backend wk) (pp_path p) of
                  Inl error \<Rightarrow> (before @ [MarkError error], None, if late then [MarkDone e] else [])
                | Inr (children, diagnostics) \<Rightarrow>
                    (before @ map MarkError diagnostics,
                     Some (map (child_pending p ancestry root_device) children),
                     if late then [MarkDone e] else [])))"
        unfolding visit_node_def load verdict identity sum.case Let_def late_def [symmetric] before_def [symmetric] ..
      show ?thesis
        unfolding visit descend_frame_feed late_def [symmetric] Let_def node_now_def node_frames_def node
        by (cases ?d; cases "read_children (wk_backend wk) (pp_path p)")
          (simp_all add: feed_append comp_def del: feed.simps(2) split: option.split prod.split)
    qed
  qed
qed

section \<open>The loop walks the tree\<close>

fun frame_steps :: "nat \<Rightarrow> walk_args \<Rightarrow> ordered_frame \<Rightarrow> nat" where
  "frame_steps k wk (FrameComplete e barriers) = 1"
| "frame_steps 0 wk (FrameVisit p) = 0"
| "frame_steps (Suc k) wk (FrameVisit p) = Suc (sum_list (map (frame_steps k wk) (node_frames wk p)))"

fun frame_marks :: "nat \<Rightarrow> walk_args \<Rightarrow> ordered_frame \<Rightarrow> walk_mark list" where
  "frame_marks k wk (FrameVisit p) = tree_marks k wk p"
| "frame_marks k wk (FrameComplete e barriers) = [MarkDone e]"

lemma visit_node_after: "visit_node wk p = (before, kids, after) \<Longrightarrow> after = [] \<or> (\<exists>e. after = [MarkDone e])"
  by (auto simp: visit_node_def Let_def split: sum.splits option.splits if_splits)

lemma tree_marks_frames:
  "tree_marks (Suc k) wk p = node_now wk p @ concat (map (frame_marks k wk) (node_frames wk p))"
proof -
  obtain before kids after where v: "visit_node wk p = (before, kids, after)" by (cases "visit_node wk p")
  from visit_node_after [OF v] show ?thesis
    by (cases kids) (auto simp: node_now_def node_frames_def node_kids_def v comp_def)
qed

text \<open>How many directories can still be entered below a path.\<close>

definition frame_ok :: "file_identity set \<Rightarrow> subtree_barrier_id list \<Rightarrow> nat \<Rightarrow> ordered_frame \<Rightarrow> bool" where
  "frame_ok U barriers k f =
     (case f of
        FrameVisit p \<Rightarrow> card (U - set (pp_ancestry p)) < k \<and> pp_ancestor_barriers p = barriers
      | FrameComplete e bs \<Rightarrow> bs = barriers)"

lemma frame_ok_simps [simp]:
  "frame_ok U barriers k (FrameVisit p) \<longleftrightarrow>
     card (U - set (pp_ancestry p)) < k \<and> pp_ancestor_barriers p = barriers"
  "frame_ok U barriers k (FrameComplete e bs) \<longleftrightarrow> bs = barriers"
  by (simp_all add: frame_ok_def)

definition all_directories :: "walk_args \<Rightarrow> file_identity set" where
  "all_directories wk = {i. \<exists>e. wb_active_directory_identity (wk_backend wk) e (wk_mode wk) = Inr (Some i)}"

lemma descend_fresh:
  assumes "should_descend_directory p e mode options verdict b = Inr (Some (ancestry, dev))"
  shows "\<exists>i. wb_active_directory_identity b e mode = Inr (Some i) \<and> i \<notin> set (pp_ancestry p)
    \<and> ancestry = pp_ancestry p @ [i] \<and> should_descend (pp_depth p) (to_max_depth options)
    \<and> \<not> tc_prune verdict \<and> dev = Some (case pp_root_device p of Some d \<Rightarrow> d | None \<Rightarrow> device_number i)
    \<and> (to_same_file_system options \<longrightarrow> dev = Some (device_number i))"
proof (cases "wb_active_directory_identity b e mode")
  case (Inr identity)
  with assms show ?thesis
    by (cases identity; cases "pp_root_device p") (auto simp: should_descend_directory_def Let_def split: if_splits option.splits)
qed (use assms in \<open>simp add: should_descend_directory_def split: if_splits\<close>)

lemma node_kidsE:
  assumes "c \<in> set (node_kids wk p)"
  obtains e verdict i dev child where "wb_load_entry (wk_backend wk) p = Inr e" "wk_control wk e = Inr verdict"
    "wb_active_directory_identity (wk_backend wk) e (wk_mode wk) = Inr (Some i)"
    "should_descend_directory p e (wk_mode wk) (wk_options wk) verdict (wk_backend wk)
       = Inr (Some (pp_ancestry p @ [i], dev))"
    "c = child_pending p (pp_ancestry p @ [i]) dev child"
proof -
  obtain e verdict anc dev child where
    1: "wb_load_entry (wk_backend wk) p = Inr e" "wk_control wk e = Inr verdict"
      "should_descend_directory p e (wk_mode wk) (wk_options wk) verdict (wk_backend wk) = Inr (Some (anc, dev))"
      "c = child_pending p anc dev child"
    using assms by (auto simp: node_kids_def visit_node_def Let_def split: sum.splits option.splits prod.splits)
  from descend_fresh [OF 1(3)] 1 that show thesis by metis
qed

lemma node_kids_ok:
  assumes "finite U" "all_directories wk \<subseteq> U" "c \<in> set (node_kids wk p)" "card (U - set (pp_ancestry p)) < Suc k"
  shows "card (U - set (pp_ancestry c)) < k" "pp_ancestor_barriers c = pp_ancestor_barriers p"
proof -
  from assms(3) obtain e verdict i dev child where
    id: "wb_active_directory_identity (wk_backend wk) e (wk_mode wk) = Inr (Some i)"
    and d: "should_descend_directory p e (wk_mode wk) (wk_options wk) verdict (wk_backend wk)
       = Inr (Some (pp_ancestry p @ [i], dev))" and c: "c = child_pending p (pp_ancestry p @ [i]) dev child"
    by (rule node_kidsE)
  from descend_fresh [OF d] have "i \<notin> set (pp_ancestry p)" by auto
  moreover have "i \<in> U" using id assms(2) by (auto simp: all_directories_def)
  ultimately have "card (U - set (pp_ancestry p @ [i])) < card (U - set (pp_ancestry p))"
    using assms(1) by (intro psubset_card_mono) auto
  with assms(4) show "card (U - set (pp_ancestry c)) < k" by (simp add: c child_pending_def)
  show "pp_ancestor_barriers c = pp_ancestor_barriers p" by (simp add: c child_pending_def)
qed

lemma node_frames_ok:
  assumes "finite U" "all_directories wk \<subseteq> U" "frame_ok U barriers (Suc k) (FrameVisit p)" "f \<in> set (node_frames wk p)"
  shows "frame_ok U barriers k f"
proof -
  obtain before kids after where v: "visit_node wk p = (before, kids, after)" by (cases "visit_node wk p")
  from assms(4) v visit_node_after [OF v] consider c where "f = FrameVisit c" "c \<in> set (node_kids wk p)"
    | e where "f = FrameComplete e (pp_ancestor_barriers p)"
    by (auto simp: node_frames_def node_kids_def split: option.splits)
  then show ?thesis
    using node_kids_ok [OF assms(1,2)] assms(3) by cases auto
qed

lemma case_and_then_feed:
  "(case and_then_feed r (WalkOn stack) WalkDone of
      WalkDone r s \<Rightarrow> Some (r, s) | WalkOn stack seq s \<Rightarrow> g stack seq s) =
   and_then_feed r (g stack) (\<lambda>r s. Some (r, s))"
  by (auto simp: and_then_feed_def split: prod.splits sum.splits walk_directive.splits)

lemma feed_done:
  "and_then_feed (feed emit barriers (MarkDone e # ms) seq s) go stop =
     and_then_feed (feed emit barriers [MarkDone e] seq s)
       (\<lambda>seq s. and_then_feed (feed emit barriers ms seq s) go stop) stop"
  using feed_append [of emit barriers "[MarkDone e]" ms] by simp

lemma walk_loop_marks:
  assumes "finite U" "all_directories wk \<subseteq> U"
  shows "\<forall>f\<in>set fs. frame_ok U barriers k f \<Longrightarrow>
     walk_loop (sum_list (map (frame_steps k wk) fs) + n) wk emit (fs @ rest) seq s =
       and_then_feed (feed emit barriers (concat (map (frame_marks k wk) fs)) seq s)
         (walk_loop n wk emit rest) (\<lambda>r s. Some (r, s))"
proof (induction k arbitrary: fs n rest seq s)
  case 0
  then show ?case
  proof (induction fs arbitrary: seq s)
    case (Cons f fs)
    from Cons.prems obtain e where f: "f = FrameComplete e barriers" by (cases f) auto
    from Cons.prems have "\<forall>f\<in>set fs. frame_ok U barriers 0 f" by simp
    from Cons.IH [OF this] have IH:
      "walk_loop (sum_list (map (frame_steps 0 wk) fs) + n) wk emit (fs @ rest) =
         (\<lambda>seq s. and_then_feed (feed emit barriers (concat (map (frame_marks 0 wk) fs)) seq s)
           (walk_loop n wk emit rest) (\<lambda>r s. Some (r, s)))"
      by (intro ext)
    show ?case
      by (simp add: f walk_on_simps case_and_then_feed feed_done [of emit barriers e "concat _"] IH del: feed.simps)
  qed simp
next
  case (Suc k)
  from Suc.prems show ?case
  proof (induction fs arbitrary: seq s)
    case (Cons f fs)
    from Cons.prems have "\<forall>f\<in>set fs. frame_ok U barriers (Suc k) f" by simp
    from Cons.IH [OF this] have IH:
      "walk_loop (sum_list (map (frame_steps (Suc k) wk) fs) + n) wk emit (fs @ rest) =
         (\<lambda>seq s. and_then_feed (feed emit barriers (concat (map (frame_marks (Suc k) wk) fs)) seq s)
           (walk_loop n wk emit rest) (\<lambda>r s. Some (r, s)))"
      by (intro ext)
    show ?case
    proof (cases f)
      case (FrameComplete e bs)
      then have f: "f = FrameComplete e barriers" using Cons.prems by simp
      show ?thesis
        by (simp add: f walk_on_simps case_and_then_feed feed_done [of emit barriers e "concat _"] IH del: feed.simps)
    next
      case f: (FrameVisit p)
      then have p: "frame_ok U barriers (Suc k) (FrameVisit p)" using Cons.prems by simp
      then have b: "pp_ancestor_barriers p = barriers" by simp
      have "\<forall>f\<in>set (node_frames wk p). frame_ok U barriers k f"
        using node_frames_ok [OF assms p] by blast
      from Suc.IH [OF this] have kids:
        "walk_loop (sum_list (map (frame_steps k wk) (node_frames wk p)) + m) wk emit (node_frames wk p @ others) =
           (\<lambda>seq s. and_then_feed (feed emit barriers (concat (map (frame_marks k wk) (node_frames wk p))) seq s)
             (walk_loop m wk emit others) (\<lambda>r s. Some (r, s)))" for m others
        by (intro ext)
      show ?thesis
        by (simp add: f visit_frame_feed b case_and_then_feed tree_marks_frames feed_append kids IH add.assoc
            del: feed.simps tree_marks.simps)
    qed
  qed simp
qed

section \<open>What a walk does\<close>

text \<open>
  Identities are pairs of machine words, so there are finitely many, and no path of the walk
  enters a directory twice.
\<close>

lemma finite_identities: "finite (A :: file_identity set)"
proof (rule finite_subset)
  show "A \<subseteq> range (\<lambda>(dev, ino). UnixId dev ino) \<union> range (\<lambda>(vol, fid). WindowsId vol fid)"
  proof
    fix i assume "i \<in> A"
    show "i \<in> range (\<lambda>(dev, ino). UnixId dev ino) \<union> range (\<lambda>(vol, fid). WindowsId vol fid)"
      by (cases i) (force intro: image_eqI [where x = "(_, _)"])+
  qed
qed simp

definition room :: "walk_args \<Rightarrow> pending_path \<Rightarrow> nat" where
  "room wk p = card (all_directories wk - set (pp_ancestry p))"

definition walk_tree :: "walk_args \<Rightarrow> pending_path \<Rightarrow> walk_mark list" where
  "walk_tree wk p = tree_marks (Suc (room wk p)) wk p"

lemma tree_marks_enough: "room wk p < k \<Longrightarrow> room wk p < l \<Longrightarrow> tree_marks k wk p = tree_marks l wk p"
proof (induction k arbitrary: l p)
  case (Suc k)
  then obtain l' where l: "l = Suc l'" by (cases l) auto
  have "tree_marks k wk c = tree_marks l' wk c" if "c \<in> set (node_kids wk p)" for c
    using node_kids_ok(1) [OF finite_identities subset_refl that] Suc.prems
    by (intro Suc.IH) (auto simp: room_def l)
  then have "map (tree_marks k wk) (node_kids wk p) = map (tree_marks l' wk) (node_kids wk p)" by simp
  then show ?case unfolding l tree_marks.simps by (simp only:)
qed simp

lemma walk_tree_eq:
  "walk_tree wk p =
     fst (visit_node wk p) @ concat (map (walk_tree wk) (node_kids wk p)) @ snd (snd (visit_node wk p))"
proof -
  have "tree_marks (room wk p) wk c = walk_tree wk c" if "c \<in> set (node_kids wk p)" for c
    using node_kids_ok(1) [OF finite_identities subset_refl that, of "room wk p"]
    unfolding walk_tree_def room_def by (intro tree_marks_enough) (auto simp: room_def)
  then have "map (tree_marks (room wk p) wk) (node_kids wk p) = map (walk_tree wk) (node_kids wk p)" by simp
  then show ?thesis unfolding walk_tree_def [of wk p] tree_marks.simps by (simp only:)
qed

definition start_marks :: "walk_args \<Rightarrow> path list \<Rightarrow> walk_mark list" where
  "start_marks wk starts = concat (map (\<lambda>p. walk_tree wk (root_pending p)) starts)"

definition walk_fuel :: "walk_args \<Rightarrow> path list \<Rightarrow> nat" where
  "walk_fuel wk starts =
     Suc (sum_list (map (\<lambda>p. frame_steps (Suc (card (all_directories wk))) wk (FrameVisit (root_pending p))) starts))"

lemma walk_ordered_marks:
  "walk_ordered (walk_fuel wk starts + n) wk emit starts s =
     and_then_feed (feed emit [] (start_marks wk starts) 0 s) (\<lambda>seq s. Some (Inr (), s)) (\<lambda>r s. Some (r, s))"
proof -
  let ?k = "Suc (card (all_directories wk))" and ?fs = "map (\<lambda>p. FrameVisit (root_pending p)) starts"
  have "\<forall>f\<in>set ?fs. frame_ok (all_directories wk) [] ?k f" by (simp add: root_pending_def)
  from walk_loop_marks [OF finite_identities subset_refl this, of "Suc n" emit "[]" 0 s]
  have "walk_loop (sum_list (map (frame_steps ?k wk) ?fs) + Suc n) wk emit ?fs 0 s =
      and_then_feed (feed emit [] (concat (map (frame_marks ?k wk) ?fs)) 0 s)
        (\<lambda>seq s. Some (Inr (), s)) (\<lambda>r s. Some (r, s))"
    unfolding walk_loop.simps(2) list.case append_Nil2 .
  moreover have "concat (map (frame_marks ?k wk) ?fs) = start_marks wk starts"
    by (simp add: start_marks_def walk_tree_def room_def root_pending_def comp_def)
  moreover have "sum_list (map (frame_steps ?k wk) ?fs) + Suc n = walk_fuel wk starts + n"
    by (simp add: walk_fuel_def comp_def del: frame_steps.simps)
  ultimately show ?thesis unfolding walk_ordered_def by (simp only:)
qed

text \<open>
  C19.  The walk ends on every file system, with every callback: the loop check stops it from
  entering a directory below itself, and there are finitely many identities.
\<close>

theorem walk_returns: "\<exists>n. \<forall>k. walk_ordered (n + k) wk emit starts s \<noteq> None"
proof (intro exI allI)
  show "walk_ordered (walk_fuel wk starts + k) wk emit starts s \<noteq> None" for k
    by (simp add: walk_ordered_marks and_then_feed_def split: prod.split sum.split walk_directive.split)
qed

text \<open>
  C20.  The stack machine is the recursive walk: the caller sees, start path by start path, the
  events before the children of a path, those of its children and those after them, numbered in
  that order, until the callback fails or stops.
\<close>

theorem walk_refines_recursion:
  "\<exists>n. walk_ordered n wk emit starts s =
     (case feed emit [] (concat (map (\<lambda>p. walk_tree wk (root_pending p)) starts)) 0 s of
        (Inl err, seq, s') \<Rightarrow> Some (Inl err, s')
      | (Inr d, seq, s') \<Rightarrow> Some (Inr (), s'))
   \<and> (\<forall>p. walk_tree wk p =
        fst (visit_node wk p) @ concat (map (walk_tree wk) (node_kids wk p)) @ snd (snd (visit_node wk p)))"
proof (intro exI conjI allI)
  show "walk_ordered (walk_fuel wk starts) wk emit starts s =
     (case feed emit [] (concat (map (\<lambda>p. walk_tree wk (root_pending p)) starts)) 0 s of
        (Inl err, seq, s') \<Rightarrow> Some (Inl err, s')
      | (Inr d, seq, s') \<Rightarrow> Some (Inr (), s'))"
    using walk_ordered_marks [of wk starts 0 emit s]
    by (auto simp: and_then_feed_def start_marks_def split: prod.splits sum.splits walk_directive.splits)
qed (rule walk_tree_eq)

section \<open>Which entries are reached\<close>

inductive reachable :: "walk_args \<Rightarrow> path list \<Rightarrow> pending_path \<Rightarrow> bool" for wk starts where
  start: "x \<in> set starts \<Longrightarrow> reachable wk starts (root_pending x)"
| child: "reachable wk starts p \<Longrightarrow> c \<in> set (node_kids wk p) \<Longrightarrow> reachable wk starts c"

fun mark_entries :: "walk_mark \<Rightarrow> entry list" where
  "mark_entries (MarkEntry e) = [e]"
| "mark_entries (MarkDone e) = [e]"
| "mark_entries (MarkError error) = []"

fun event_entries :: "walk_event \<Rightarrow> entry list" where
  "event_entries (WalkEntry x) = [se_entry x]"
| "event_entries (WalkDirectoryComplete x) = [se_entry x]"
| "event_entries (WalkError error) = []"

text \<open>The callback that records everything and never stops.\<close>

definition collect :: "walk_event list emitter" where
  "collect ev evs = (Inr WalkContinue, evs @ [ev])"

fun mark_events :: "u64 \<Rightarrow> walk_mark list \<Rightarrow> walk_event list" where
  "mark_events seq [] = []"
| "mark_events seq (m # ms) = mark_event seq [] m # mark_events (next_seq seq m) ms"

lemma feed_collect: "\<exists>seq'. feed collect [] ms seq evs = (Inr WalkContinue, seq', evs @ mark_events seq ms)"
proof (induction ms arbitrary: seq evs)
  case (Cons m ms)
  from Cons [of "next_seq seq m" "evs @ [mark_event seq [] m]"] show ?case by (simp add: collect_def)
qed simp

lemma mark_events_entries: "concat (map event_entries (mark_events seq ms)) = concat (map mark_entries ms)"
proof (induction ms arbitrary: seq)
  case (Cons m ms)
  then show ?case by (cases m) (simp_all add: scheduled_entry_def)
qed simp

lemma walk_loop_more: "walk_loop n wk emit stack seq s = Some r \<Longrightarrow> walk_loop (n + m) wk emit stack seq s = Some r"
  by (induction n arbitrary: stack seq s) (auto split: list.splits walk_next.splits)

lemma collect_fueled:
  "walk_ordered (walk_fuel wk starts + n) wk collect starts [] = Some (Inr (), mark_events 0 (start_marks wk starts))"
proof -
  obtain seq where "feed collect [] (start_marks wk starts) 0 [] =
      (Inr WalkContinue, seq, mark_events 0 (start_marks wk starts))"
    using feed_collect [of "start_marks wk starts" 0 "[]"] by auto
  then show ?thesis by (simp only: walk_ordered_marks and_then_feed_simps)
qed

lemma collect_walk:
  assumes "walk_ordered n wk collect starts [] = Some r"
  shows "r = (Inr (), mark_events 0 (start_marks wk starts))"
proof -
  have "walk_ordered (walk_fuel wk starts + n) wk collect starts [] = Some r"
    using walk_loop_more [OF assms [unfolded walk_ordered_def], of "walk_fuel wk starts"]
    by (simp add: walk_ordered_def add.commute)
  then show ?thesis by (simp add: collect_fueled)
qed

lemma tree_of_reachable:
  assumes "reachable wk starts p"
  shows "set (walk_tree wk p) \<subseteq> set (start_marks wk starts)"
  using assms
proof induction
  case (child p c)
  then have "set (walk_tree wk c) \<subseteq> set (walk_tree wk p)" by (subst (2) walk_tree_eq) auto
  with child.IH show ?case by blast
qed (auto simp: start_marks_def)

lemma visit_of_entry:
  assumes "wb_load_entry (wk_backend wk) p = Inr e" "wk_control wk e = Inr verdict"
    "wb_active_directory_identity (wk_backend wk) e (wk_mode wk) = Inr identity"
    "to_order (wk_options wk) = PreOrder \<or>
     (\<exists>d. should_descend_directory p e (wk_mode wk) (wk_options wk) verdict (wk_backend wk) = Inr d)"
  shows "\<exists>m \<in> set (walk_tree wk p). e \<in> set (mark_entries m)"
  using assms
  by (subst walk_tree_eq) (auto simp: visit_node_def Let_def split: sum.splits option.splits)

lemma tree_entries_reachable:
  "m \<in> set (tree_marks k wk p) \<Longrightarrow> e \<in> set (mark_entries m) \<Longrightarrow> reachable wk starts p \<Longrightarrow>
   \<exists>q. reachable wk starts q \<and> wb_load_entry (wk_backend wk) q = Inr e"
proof (induction k arbitrary: p)
  case (Suc k)
  from Suc.prems(1) consider "m \<in> set (fst (visit_node wk p)) \<union> set (snd (snd (visit_node wk p)))"
    | c where "c \<in> set (node_kids wk p)" "m \<in> set (tree_marks k wk c)" by auto
  then show ?case
  proof cases
    case 1
    with Suc.prems(2) have "wb_load_entry (wk_backend wk) p = Inr e"
      by (auto simp: visit_node_def Let_def split: sum.splits option.splits if_splits)
    with Suc.prems(3) show ?thesis by blast
  next
    case 2
    with Suc.IH [OF 2(2) Suc.prems(2) reachable.child [OF Suc.prems(3)]] show ?thesis by blast
  qed
qed simp

text \<open>
  C12.  No entry is missed: a path that can be reached from a start path through directories the
  walk may enter is reported, when it can be read and (in post-order) closes no loop.
\<close>

theorem walk_reports_reachable:
  assumes "reachable wk starts p"
    and "wb_load_entry (wk_backend wk) p = Inr e" "wk_control wk e = Inr verdict"
    and "wb_active_directory_identity (wk_backend wk) e (wk_mode wk) = Inr identity"
    and "to_order (wk_options wk) = PreOrder \<or>
      (\<exists>d. should_descend_directory p e (wk_mode wk) (wk_options wk) verdict (wk_backend wk) = Inr d)"
  shows "\<exists>n evs. walk_ordered n wk collect starts [] = Some (Inr (), evs)
    \<and> e \<in> set (concat (map event_entries evs))"
proof -
  from visit_of_entry [OF assms(2-5)] obtain m where m: "m \<in> set (walk_tree wk p)" "e \<in> set (mark_entries m)" ..
  with tree_of_reachable [OF assms(1)] have "e \<in> set (concat (map mark_entries (start_marks wk starts)))" by auto
  then have "e \<in> set (concat (map event_entries (mark_events 0 (start_marks wk starts))))"
    by (simp only: mark_events_entries)
  with collect_fueled [of wk starts 0] show ?thesis by blast
qed

text \<open>The chain of directories above a path.\<close>

definition pending_ok :: "walk_args \<Rightarrow> path list \<Rightarrow> pending_path \<Rightarrow> bool" where
  "pending_ok wk starts p \<longleftrightarrow>
     (\<forall>deepest. to_max_depth (wk_options wk) = Some deepest \<longrightarrow> pp_depth p \<le> deepest)
     \<and> pp_root_path p \<in> set starts \<and> (pp_is_root p \<longleftrightarrow> pp_depth p = 0)
     \<and> distinct (pp_ancestry p) \<and> length (pp_ancestry p) = pp_depth p
     \<and> (case pp_root_device p of
          None \<Rightarrow> pp_ancestry p = []
        | Some d \<Rightarrow> to_same_file_system (wk_options wk) \<longrightarrow> (\<forall>i\<in>set (pp_ancestry p). device_number i = d))"

lemma reachable_ok: "reachable wk starts p \<Longrightarrow> pending_ok wk starts p"
proof (induction rule: reachable.induct)
  case (start x)
  then show ?case by (simp add: pending_ok_def root_pending_def)
next
  case (child p c)
  from child.hyps(2) obtain e verdict i dev kid where
    d: "should_descend_directory p e (wk_mode wk) (wk_options wk) verdict (wk_backend wk)
       = Inr (Some (pp_ancestry p @ [i], dev))" and c: "c = child_pending p (pp_ancestry p @ [i]) dev kid"
    by (rule node_kidsE)
  from descend_fresh [OF d] have i: "i \<notin> set (pp_ancestry p)"
    "should_descend (pp_depth p) (to_max_depth (wk_options wk))"
    "dev = Some (case pp_root_device p of Some d \<Rightarrow> d | None \<Rightarrow> device_number i)"
    "to_same_file_system (wk_options wk) \<Longrightarrow> dev = Some (device_number i)" by auto
  from child.IH i show ?case
    by (auto simp: c pending_ok_def child_pending_def should_descend_def split: option.splits)
qed

text \<open>
  Which directories an entry was found through, told from the file system alone: the directories
  above it from the start path down, each listed in the one before.
\<close>

inductive found_below ::
  "platform_reader \<Rightarrow> (path \<Rightarrow> dir_item io_result list io_result) \<Rightarrow> path \<Rightarrow> entry list \<Rightarrow> entry \<Rightarrow> bool"
  for reader read_dir root where
  at_start: "found_below reader read_dir root [] (with_file_type_hint_and_root reader root 0 True root None)"
| listed: "found_below reader read_dir root dirs d \<Longrightarrow> read_dir (entry_path d) = Inr items \<Longrightarrow> Inr item \<in> set items \<Longrightarrow>
    found_below reader read_dir root (dirs @ [d])
      (with_file_type_hint_and_root reader (di_path item) (Suc (length dirs)) False root (ok_value (di_file_type item)))"

definition entry_for :: "platform_reader \<Rightarrow> pending_path \<Rightarrow> entry" where
  "entry_for reader p =
     with_file_type_hint_and_root reader (pp_path p) (pp_depth p) (pp_is_root p) (pp_root_path p) (pp_hint p)"

lemma load_entry_for: "load_entry reader p = Inr e \<Longrightarrow> e = entry_for reader p"
  by (auto simp: load_entry_def entry_for_def Let_def result_simps split: if_splits)

lemma entry_for_path [simp]: "entry_path (entry_for reader p) = pp_path p"
  by (simp add: entry_for_def with_file_type_hint_and_root_def with_reader_hint_and_root_def)

lemma split_children_in: "c \<in> set (fst (split_children items)) \<Longrightarrow> Inr c \<in> set items"
  by (induction items rule: split_children.induct) (auto simp: Let_def split: sum.splits prod.splits)

lemma read_children_listed:
  assumes "read_children (fs_walk_backend reader read_dir) p = Inr (children, errors)" "c \<in> set children"
  obtains items item where "read_dir p = Inr items" "Inr item \<in> set items"
    "dc_path c = di_path item" "dc_hint c = ok_value (di_file_type item)"
proof -
  obtain items where items: "read_dir p = Inr items"
    using assms(1) by (auto simp: read_children_def fs_walk_backend_def visit_children_def split: sum.splits)
  with assms(1) have "children = fst (split_children (map (\<lambda>item. case item of
              Inr child \<Rightarrow> Inr \<lparr>dc_path = di_path child, dc_hint = ok_value (di_file_type child)\<rparr>
            | Inl error \<Rightarrow> Inl (path_error p error)) items))"
    by (auto simp: read_children_def fs_walk_backend_def visit_children_def)
  with split_children_in assms(2) obtain item where "Inr item \<in> set items"
    "c = \<lparr>dc_path = di_path item, dc_hint = ok_value (di_file_type item)\<rparr>"
    by (fastforce split: sum.splits)
  with items that show thesis by simp
qed

lemma node_kids_listed:
  assumes "c \<in> set (node_kids wk p)"
  obtains e verdict i dev child children errors where "wb_load_entry (wk_backend wk) p = Inr e"
    "wk_control wk e = Inr verdict" "\<not> tc_prune verdict"
    "wb_active_directory_identity (wk_backend wk) e (wk_mode wk) = Inr (Some i)"
    "read_children (wk_backend wk) (pp_path p) = Inr (children, errors)" "child \<in> set children"
    "c = child_pending p (pp_ancestry p @ [i]) dev child"
proof -
  obtain e verdict anc dev child children errors where
    1: "wb_load_entry (wk_backend wk) p = Inr e" "wk_control wk e = Inr verdict"
      "should_descend_directory p e (wk_mode wk) (wk_options wk) verdict (wk_backend wk) = Inr (Some (anc, dev))"
      "read_children (wk_backend wk) (pp_path p) = Inr (children, errors)" "child \<in> set children"
      "c = child_pending p anc dev child"
    using assms by (auto simp: node_kids_def visit_node_def Let_def split: sum.splits option.splits prod.splits)
  from descend_fresh [OF 1(3)] 1 that show thesis by metis
qed

lemma reachable_found_below:
  assumes "wk_backend wk = fs_walk_backend reader read_dir"
  shows "reachable wk starts q \<Longrightarrow>
    \<exists>dirs. found_below reader read_dir (pp_root_path q) dirs (entry_for reader q) \<and> length dirs = pp_depth q
      \<and> map (\<lambda>d. active_directory_identity d (wk_mode wk)) dirs = map (\<lambda>i. Inr (Some i)) (pp_ancestry q)
      \<and> (\<forall>d\<in>set dirs. \<exists>verdict. wk_control wk d = Inr verdict \<and> \<not> tc_prune verdict)"
proof (induction rule: reachable.induct)
  case (start x)
  then show ?case using found_below.at_start [of reader read_dir x] by (simp add: root_pending_def entry_for_def)
next
  case (child p c)
  from child.IH obtain dirs where IH: "found_below reader read_dir (pp_root_path p) dirs (entry_for reader p)"
    "length dirs = pp_depth p"
    "map (\<lambda>d. active_directory_identity d (wk_mode wk)) dirs = map (\<lambda>i. Inr (Some i)) (pp_ancestry p)"
    "\<forall>d\<in>set dirs. \<exists>verdict. wk_control wk d = Inr verdict \<and> \<not> tc_prune verdict" by blast
  from child.hyps(2) obtain e verdict i dev kid children errors where
    e: "wb_load_entry (wk_backend wk) p = Inr e" "wk_control wk e = Inr verdict" "\<not> tc_prune verdict"
    and i: "wb_active_directory_identity (wk_backend wk) e (wk_mode wk) = Inr (Some i)"
    and kid: "read_children (wk_backend wk) (pp_path p) = Inr (children, errors)" "kid \<in> set children"
    and c: "c = child_pending p (pp_ancestry p @ [i]) dev kid" by (rule node_kids_listed)
  have d: "e = entry_for reader p" "active_directory_identity e (wk_mode wk) = Inr (Some i)"
    using e(1) i load_entry_for by (auto simp: assms fs_walk_backend_def)
  obtain items item where item: "read_dir (pp_path p) = Inr items" "Inr item \<in> set items"
    "dc_path kid = di_path item" "dc_hint kid = ok_value (di_file_type item)"
    using read_children_listed kid unfolding assms by blast
  from item(1) have here: "read_dir (entry_path (entry_for reader p)) = Inr items" by simp
  have "found_below reader read_dir (pp_root_path c) (dirs @ [e]) (entry_for reader c)"
    using found_below.listed [OF IH(1) here item(2)] item d(1) IH(2) by (simp add: c child_pending_def entry_for_def)
  moreover have "length (dirs @ [e]) = pp_depth c" using IH(2) by (simp add: c child_pending_def)
  moreover have "map (\<lambda>d. active_directory_identity d (wk_mode wk)) (dirs @ [e]) = map (\<lambda>i. Inr (Some i)) (pp_ancestry c)"
    using IH(3) d(2) by (simp add: c child_pending_def)
  ultimately show ?case using IH(4) e by (intro exI [of _ "dirs @ [e]"]) auto
qed

text \<open>
  C21.  Every entry the walk reports lies within its bounds: it comes from a start path, is no
  deeper than the maximal depth, and the directories through which it was found are as many as its
  depth.  Their identities, as read from the file system, are pairwise different, they are on one
  device when the walk stays on one file system, and the verdict pruned none of them.
\<close>

theorem walk_reports_in_bounds:
  assumes "walk_ordered n wk collect starts [] = Some (Inr (), evs)"
    and "wk_backend wk = fs_walk_backend reader read_dir"
    and "e \<in> set (concat (map event_entries evs))"
  shows "root_path e \<in> set starts \<and> (is_command_line_root e \<longleftrightarrow> entry_depth e = 0)
    \<and> (\<forall>deepest. to_max_depth (wk_options wk) = Some deepest \<longrightarrow> entry_depth e \<le> deepest)
    \<and> (\<exists>dirs ids. found_below reader read_dir (root_path e) dirs e \<and> length dirs = entry_depth e
         \<and> map (\<lambda>d. active_directory_identity d (wk_mode wk)) dirs = map (\<lambda>i. Inr (Some i)) ids
         \<and> distinct ids
         \<and> (to_same_file_system (wk_options wk) \<longrightarrow> (\<forall>i\<in>set ids. device_number i = device_number (hd ids)))
         \<and> (\<forall>d\<in>set dirs. \<exists>verdict. wk_control wk d = Inr verdict \<and> \<not> tc_prune verdict))"
proof -
  from collect_walk [OF assms(1)] assms(3) have "e \<in> set (concat (map mark_entries (start_marks wk starts)))"
    by (simp only: prod.inject mark_events_entries)
  then obtain x m where "x \<in> set starts" "m \<in> set (walk_tree wk (root_pending x))" "e \<in> set (mark_entries m)"
    by (auto simp: start_marks_def)
  then obtain q where q: "reachable wk starts q" "wb_load_entry (wk_backend wk) q = Inr e"
    unfolding walk_tree_def by (blast dest: tree_entries_reachable intro: reachable.start)
  then have e: "e = entry_for reader q" using load_entry_for by (simp add: assms(2) fs_walk_backend_def)
  then have fields: "root_path e = pp_root_path q" "entry_depth e = pp_depth q" "is_command_line_root e = pp_is_root q"
    by (simp_all add: entry_for_def with_file_type_hint_and_root_def with_reader_hint_and_root_def)
  have "to_same_file_system (wk_options wk) \<longrightarrow> (\<forall>i\<in>set (pp_ancestry q). device_number i = device_number (hd (pp_ancestry q)))"
    using reachable_ok [OF q(1)] unfolding pending_ok_def
    by (cases "pp_ancestry q") (auto split: option.splits)
  with reachable_ok [OF q(1)] reachable_found_below [OF assms(2) q(1)] show ?thesis
    unfolding fields e [symmetric] pending_ok_def by blast
qed

section \<open>A sample walk\<close>

text \<open>
  Under \<^verbatim>\<open>-L\<close>, a directory \<^verbatim>\<open>d\<close> with a file \<^verbatim>\<open>d/f\<close> and a link \<^verbatim>\<open>d/l\<close> to the directory itself.
\<close>

definition loop_reader :: platform_reader where
  "loop_reader =
     sample_reader\<lparr>read_metadata_view := (\<lambda>p follow. Inr (
       if p = ''d/f'' then sample_view KindFile 2
       else if p = ''d/l'' \<and> \<not> follow then (sample_view KindSymlink 3)
       else sample_view KindDirectory 1))\<rparr>"

definition loop_dir :: "path \<Rightarrow> dir_item io_result list io_result" where
  "loop_dir p =
     Inr (if p = ''d'' then [Inr \<lparr>di_path = ''d/f'', di_file_type = Inr 0x8000\<rparr>,
       Inr \<lparr>di_path = ''d/l'', di_file_type = Inr 0xA000\<rparr>] else [])"

definition loop_walk :: walk_args where
  "loop_walk =
     \<lparr>wk_backend = fs_walk_backend loop_reader loop_dir, wk_mode = Logical,
      wk_options = \<lparr>to_min_depth = 0, to_max_depth = Some 9, to_same_file_system = True, to_order = PreOrder\<rparr>,
      wk_control = \<lambda>e. Inr tc_allow\<rparr>"

definition loop_events :: "walk_event list" where
  "loop_events = snd (the (walk_ordered 9 loop_walk collect [''d''] []))"

lemma loop_walk_runs:
  "map_option fst (walk_ordered 9 loop_walk collect [''d''] []) = Some (Inr ())"
  "map (map_option (\<lambda>e. (entry_path e, entry_depth e)) \<circ> (\<lambda>l. case l of [] \<Rightarrow> None | e # _ \<Rightarrow> Some e) \<circ> event_entries)
     loop_events = [Some (''d'', 0), Some (''d/f'', 1), Some (''d/l'', 1), None]"
  by code_simp+

definition loop_child :: pending_path where
  "loop_child = (case node_kids loop_walk (root_pending ''d'') of [f, l] \<Rightarrow> l | _ \<Rightarrow> root_pending ''d'')"

lemma loop_child_reached:
  "loop_child \<in> set (node_kids loop_walk (root_pending ''d''))"
  "map_sum id entry_path (wb_load_entry (wk_backend loop_walk) loop_child) = Inr ''d/l''"
  "map_sum id (\<lambda>e. wb_active_directory_identity (wk_backend loop_walk) e Logical)
     (wb_load_entry (wk_backend loop_walk) loop_child) = Inr (Inr (Some (UnixId 1 1)))"
proof -
  have "length (node_kids loop_walk (root_pending ''d'')) = 2" by code_simp
  then show "loop_child \<in> set (node_kids loop_walk (root_pending ''d''))"
    by (auto simp: loop_child_def length_Suc_conv numeral_2_eq_2)
qed code_simp+

lemma walk_reports_reachable_witness:
  "\<exists>n evs e. walk_ordered n loop_walk collect [''d''] [] = Some (Inr (), evs)
    \<and> e \<in> set (concat (map event_entries evs)) \<and> entry_path e = ''d/l''"
proof -
  have r: "reachable loop_walk [''d''] loop_child"
    by (rule reachable.child [OF reachable.start loop_child_reached(1)]) simp
  obtain e where e: "wb_load_entry (wk_backend loop_walk) loop_child = Inr e" "entry_path e = ''d/l''"
    "wb_active_directory_identity (wk_backend loop_walk) e (wk_mode loop_walk) = Inr (Some (UnixId 1 1))"
    using loop_child_reached(2,3)
    by (cases "wb_load_entry (wk_backend loop_walk) loop_child") (auto simp: loop_walk_def)
  have "wk_control loop_walk e = Inr tc_allow" "to_order (wk_options loop_walk) = PreOrder"
    by (simp_all add: loop_walk_def)
  with walk_reports_reachable [OF r e(1) _ e(3)] e(2) show ?thesis by blast
qed

lemma walk_reports_in_bounds_witness:
  "\<exists>evs e. walk_ordered 9 loop_walk collect [''d''] [] = Some (Inr (), evs)
    \<and> e \<in> set (concat (map event_entries evs)) \<and> entry_path e = ''d/l'' \<and> root_path e = ''d''
    \<and> (\<exists>dirs. found_below loop_reader loop_dir ''d'' dirs e \<and> length dirs = entry_depth e \<and> length dirs \<le> 9)"
proof -
  have run: "walk_ordered 9 loop_walk collect [''d''] [] = Some (Inr (), loop_events)"
    using loop_walk_runs(1)
    by (cases "walk_ordered 9 loop_walk collect [''d''] []") (auto simp: loop_events_def)
  have "list_ex (\<lambda>e. entry_path e = ''d/l'') (concat (map event_entries loop_events))" by code_simp
  then obtain e where e: "e \<in> set (concat (map event_entries loop_events))" "entry_path e = ''d/l''"
    by (auto simp: list_ex_iff)
  have b: "wk_backend loop_walk = fs_walk_backend loop_reader loop_dir"
    and "to_max_depth (wk_options loop_walk) = Some 9" by (simp_all add: loop_walk_def)
  with walk_reports_in_bounds [OF run b e(1)] have "root_path e = ''d''" "entry_depth e \<le> 9"
    "\<exists>dirs. found_below loop_reader loop_dir (root_path e) dirs e \<and> length dirs = entry_depth e" by auto
  with run e show ?thesis by metis
qed

end
