(* ===== verification/Ordered_Engine.thy ===== *)
theory Ordered_Engine
  imports Walker Ordered_Sink
begin

text \<open>
  The ordered runs of \<^verbatim>\<open>src/src/ordered/engine.rs\<close>, the queue of \<^verbatim>\<open>src/src/runtime_pipeline.rs\<close>
  that puts the evaluator threads' results back in order, and the start of a run in
  \<^verbatim>\<open>src/src/runner.rs\<close>.  The threads appear as the order in which their results arrive.
\<close>

section \<open>The ready queue (runtime_pipeline.rs)\<close>

record 'a ready_queue =
  rq_next_sequence :: u64
  rq_buffered :: "(u64, 'a) btree"

definition rq_default :: "'a ready_queue" where
  "rq_default = \<lparr>rq_next_sequence = 0, rq_buffered = bt_empty\<rparr>"

definition rq_insert :: "u64 \<Rightarrow> 'a \<Rightarrow> 'a ready_queue \<Rightarrow> 'a ready_queue" where
  "rq_insert seq item q = q\<lparr>rq_buffered := bt_insert seq item (rq_buffered q)\<rparr>"

definition rq_pop_next :: "'a ready_queue \<Rightarrow> ('a \<times> 'a ready_queue) option" where
  "rq_pop_next q =
     (case bt_get (rq_buffered q) (rq_next_sequence q) of
        None \<Rightarrow> None
      | Some item \<Rightarrow>
          Some (item, q\<lparr>rq_next_sequence := rq_next_sequence q + 1,
                        rq_buffered := bt_remove (rq_next_sequence q) (rq_buffered q)\<rparr>))"

lemma bt_remove_shrinks: "bt_get m k = Some v \<Longrightarrow> length (bt_remove k m) < length m"
  by (induction m) (auto simp: bt_get_def bt_remove_def le_imp_less_Suc split: if_splits)

lemma rq_pop_shrinks: "rq_pop_next q = Some (item, q') \<Longrightarrow> length (rq_buffered q') < length (rq_buffered q)"
  by (auto simp: rq_pop_next_def bt_remove_shrinks split: option.splits)

text \<open>
  \<^verbatim>\<open>while let Some(ready) = queue.pop_next()\<close> with a body \<open>g\<close> that may fail, and the loop over
  the arrivals around it.
\<close>

function drain_ready ::
  "('a \<Rightarrow> 'x \<Rightarrow> unit result \<times> 'x) \<Rightarrow> 'a ready_queue \<Rightarrow> 'x \<Rightarrow> unit result \<times> 'a ready_queue \<times> 'x" where
  "drain_ready g q x =
     (case rq_pop_next q of
        None \<Rightarrow> (Inr (), q, x)
      | Some (item, q') \<Rightarrow>
          (case g item x of
             (Inl err, x) \<Rightarrow> (Inl err, q', x)
           | (Inr _, x) \<Rightarrow> drain_ready g q' x))"
  by pat_completeness auto
termination
  by (relation "measure (\<lambda>(g, q, x). length (rq_buffered q))") (auto simp: rq_pop_shrinks)

declare drain_ready.simps [simp del]

fun commit_arrivals ::
  "('a \<Rightarrow> 'x \<Rightarrow> unit result \<times> 'x) \<Rightarrow> (u64 \<times> 'a) list \<Rightarrow> 'a ready_queue \<Rightarrow> 'x \<Rightarrow> unit result \<times> 'x" where
  "commit_arrivals g [] q x = (Inr (), x)"
| "commit_arrivals g ((seq, item) # arrivals) q x =
     (case drain_ready g (rq_insert seq item q) x of
        (Inl err, q, x) \<Rightarrow> (Inl err, x)
      | (Inr _, q, x) \<Rightarrow> commit_arrivals g arrivals q x)"

section \<open>The start of a run (runner.rs)\<close>

record run_summary =
  had_runtime_errors :: bool
  summary_action_failures :: bool

fun write_startup_warnings :: "'w host \<Rightarrow> string list \<Rightarrow> 'w \<Rightarrow> unit result \<times> 'w" where
  "write_startup_warnings host [] w = (Inr (), w)"
| "write_startup_warnings host (warning # warnings) w =
     then_io (io_err (\<lambda>e. diagnostic_new (''failed to write stderr: '' @ io_text e) 1)
         (h_write_stderr host (warning @ [CHR 0x0A]) w))
       (\<lambda>_ w. write_startup_warnings host warnings w)"

text \<open>\<^verbatim>\<open>std::env::split_paths\<close> on Unix: the pieces between colons, one empty piece for the empty text.\<close>

fun split_paths :: "os_string \<Rightarrow> os_string list" where
  "split_paths [] = [[]]"
| "split_paths (c # cs) =
     (if c = CHR '':'' then [] # split_paths cs
      else (case split_paths cs of p # ps \<Rightarrow> (c # p) # ps | [] \<Rightarrow> [[c]]))"

definition unsafe_path :: diagnostic where
  "unsafe_path =
     diagnostic_new ''unsafe PATH for `-execdir`: PATH entries must be absolute and non-empty'' 1"

definition validate_execdir_path_value :: "os_string \<Rightarrow> unit result" where
  "validate_execdir_path_value p =
     (if list_ex (\<lambda>dir. dir = [] \<or> \<not> is_absolute dir) (split_paths p) then Inl unsafe_path else Inr ())"

text \<open>What a run asks of its surroundings.\<close>

record ('rx, 'w) run_env =
  re_services :: "'rx services"
  re_host :: "'w host"
  re_backend :: walk_backend
  re_path_variable :: "os_string option"
  re_mounts :: "filesystem_snapshot result"
  re_messages :: "messages_locale result"
  re_batch_limit :: nat

definition validate_startup_requirements ::
  "('rx, 'w) run_env \<Rightarrow> 'rx execution_plan \<Rightarrow> unit result" where
  "validate_startup_requirements env plan =
     (if \<not> rr_execdir_requires_safe_path (plan_runtime plan) then Inr ()
      else validate_execdir_path_value (case re_path_variable env of Some p \<Rightarrow> p | None \<Rightarrow> []))"

definition build_messages_locale ::
  "('rx, 'w) run_env \<Rightarrow> 'rx execution_plan \<Rightarrow> messages_locale option result" where
  "build_messages_locale env plan =
     (if \<not> rr_messages_locale_required (plan_runtime plan) then Inr None
      else map_sum id Some (re_messages env))"

definition build_eval_context ::
  "('rx, 'w) run_env \<Rightarrow> 'rx execution_plan \<Rightarrow> eval_context result" where
  "build_eval_context env plan =
     (if \<not> rr_mount_snapshot (plan_runtime plan) then Inr (with_now (rr_evaluation_now (plan_runtime plan)))
      else try_bind (re_mounts env) (\<lambda>mounts.
        Inr (with_mount_snapshot_and_now mounts (rr_evaluation_now (plan_runtime plan)))))"

definition traversal_control_for_entry ::
  "'rx services \<Rightarrow> eval_context \<Rightarrow> 'rx execution_plan \<Rightarrow> entry \<Rightarrow> traversal_control result" where
  "traversal_control_for_entry sv ctx plan e =
     (case plan_traversal_control plan of
        Some x \<Rightarrow>
          evaluate_for_traversal sv ctx (to_order (plan_traversal plan)) x e (plan_follow_mode plan)
      | None \<Rightarrow> Inr tc_allow)"

section \<open>Ordered runs (ordered/engine.rs)\<close>

fun contains_commit_sensitive_action :: "('p, runtime_action) runtime_expr \<Rightarrow> bool" where
  "contains_commit_sensitive_action (RAnd items) \<longleftrightarrow> list_ex contains_commit_sensitive_action items"
| "contains_commit_sensitive_action (ROr l r) \<longleftrightarrow>
     contains_commit_sensitive_action l \<or> contains_commit_sensitive_action r"
| "contains_commit_sensitive_action (RNot x) \<longleftrightarrow> contains_commit_sensitive_action x"
| "contains_commit_sensitive_action (RAction a) \<longleftrightarrow>
     (case a of
        RaOutput out \<Rightarrow> False
      | RaPrintf prog \<Rightarrow> False
      | RaFilePrint destination term \<Rightarrow> False
      | RaFilePrintf destination prog \<Rightarrow> False
      | _ \<Rightarrow> True)"
| "contains_commit_sensitive_action (RPredicate p) \<longleftrightarrow> False"
| "contains_commit_sensitive_action RBarrier \<longleftrightarrow> False"

definition ordered_evaluator_workers :: "'rx execution_plan \<Rightarrow> nat" where
  "ordered_evaluator_workers plan =
     (if contains_commit_sensitive_action (plan_expr plan) then 1
      else evaluation_workers (plan_runtime_policy plan))"

definition plan_walk_args ::
  "('rx, 'w) run_env \<Rightarrow> eval_context \<Rightarrow> 'rx execution_plan \<Rightarrow> walk_args" where
  "plan_walk_args env ctx plan =
     \<lparr>wk_backend = re_backend env, wk_mode = plan_follow_mode plan, wk_options = plan_traversal plan,
      wk_control = traversal_control_for_entry (re_services env) ctx plan\<rparr>"

text \<open>An error of the walk: a line on the error output and the flag of the run.\<close>

definition report_walk_error ::
  "'w host \<Rightarrow> diagnostic \<Rightarrow> 'w ordered_sink \<Rightarrow> unit result \<times> 'w ordered_sink" where
  "report_walk_error host error s = on_world (write_diagnostic host (''rfd: '' @ message error)) s"

definition inline_entry ::
  "('rx, 'w) run_env \<Rightarrow> eval_context \<Rightarrow> 'rx execution_plan \<Rightarrow> entry \<Rightarrow> 'w ordered_sink \<times> bool \<Rightarrow>
   walk_directive result \<times> 'w ordered_sink \<times> bool" where
  "inline_entry env ctx plan e state =
     (let (sink, errors) = state in
      if entry_depth e \<ge> to_min_depth (plan_traversal plan) then
        (case evaluate_outcome (evaluate_predicate (re_services env) ctx)
                (ordered_dispatch (re_services env) ctx (re_host env)) (plan_expr plan) e
                (plan_follow_mode plan) sink of
           (Inl err, sink) \<Rightarrow> (Inl err, sink, errors)
         | (Inr out, sink) \<Rightarrow>
             (Inr (if is_stop_requested (status out) then WalkStop else WalkContinue), sink, errors))
      else (Inr WalkContinue, sink, errors))"

fun inline_event ::
  "('rx, 'w) run_env \<Rightarrow> eval_context \<Rightarrow> 'rx execution_plan \<Rightarrow> ('w ordered_sink \<times> bool) emitter" where
  "inline_event env ctx plan (WalkEntry item) state = inline_entry env ctx plan (se_entry item) state"
| "inline_event env ctx plan (WalkDirectoryComplete item) state =
     inline_entry env ctx plan (se_entry item) state"
| "inline_event env ctx plan (WalkError error) state =
     (case report_walk_error (re_host env) error (fst state) of
        (Inl err, sink) \<Rightarrow> (Inl err, sink, True)
      | (Inr _, sink) \<Rightarrow> (Inr WalkContinue, sink, True))"

text \<open>The start shared by both ways to run: the context and the sink.\<close>

definition start_sink ::
  "('rx, 'w) run_env \<Rightarrow> 'rx execution_plan \<Rightarrow> messages_locale \<Rightarrow> 'w \<Rightarrow>
   (eval_context \<times> 'w ordered_sink) result \<times> 'w" where
  "start_sink env plan loc w =
     (case build_eval_context env plan of
        Inl err \<Rightarrow> (Inl err, w)
      | Inr ctx \<Rightarrow>
          then_io (with_prompt (re_host env) (re_batch_limit env) (plan_file_outputs plan) loc w) (\<lambda>sink w.
            (Inr (ctx, sink), w)))"

definition run_ordered_inline ::
  "nat \<Rightarrow> ('rx, 'w) run_env \<Rightarrow> 'rx execution_plan \<Rightarrow> messages_locale \<Rightarrow> 'w \<Rightarrow> (run_summary result \<times> 'w) option" where
  "run_ordered_inline n env plan loc w =
     (case start_sink env plan loc w of
        (Inl err, w) \<Rightarrow> Some (Inl err, w)
      | (Inr (ctx, sink), w) \<Rightarrow>
          (case walk_ordered n (plan_walk_args env ctx plan) (inline_event env ctx plan)
                  (plan_start_paths plan) (sink, False) of
             None \<Rightarrow> None
           | Some (Inl err, sink, errors) \<Rightarrow> Some (Inl err, sink_world sink)
           | Some (Inr _, sink, errors) \<Rightarrow>
               (case sink_flush (re_host env) sink of
                  (Inl err, sink) \<Rightarrow> Some (Inl err, sink_world sink)
                | (Inr st, sink) \<Rightarrow>
                    Some (Inr \<lparr>had_runtime_errors = errors, summary_action_failures = had_action_failures st\<rparr>,
                          sink_world sink))))"

text \<open>
  The pipelined run first walks and hands the entries to the evaluators; the state of its
  callback has the sink, the error flag and the entries sent, numbered from 0.
\<close>

record 'w pipeline_walk =
  pw_sink :: "'w ordered_sink"
  pw_errors :: bool
  pw_next_sequence :: u64
  pw_sent :: "(u64 \<times> entry) list"

definition pipeline_entry ::
  "'rx execution_plan \<Rightarrow> entry \<Rightarrow> 'w pipeline_walk \<Rightarrow> walk_directive result \<times> 'w pipeline_walk" where
  "pipeline_entry plan e s =
     (if entry_depth e \<ge> to_min_depth (plan_traversal plan) then
        if ordered_evaluator_workers plan = 0
        then (Inl (diagnostic_new ''internal error: ordered evaluator channel is unavailable'' 1), s)
        else (Inr WalkContinue,
              s\<lparr>pw_sent := pw_sent s @ [(pw_next_sequence s, e)], pw_next_sequence := pw_next_sequence s + 1\<rparr>)
      else (Inr WalkContinue, s))"

fun pipeline_event ::
  "('rx, 'w) run_env \<Rightarrow> 'rx execution_plan \<Rightarrow> 'w pipeline_walk emitter" where
  "pipeline_event env plan (WalkEntry item) s = pipeline_entry plan (se_entry item) s"
| "pipeline_event env plan (WalkDirectoryComplete item) s = pipeline_entry plan (se_entry item) s"
| "pipeline_event env plan (WalkError error) s =
     (case report_walk_error (re_host env) error (pw_sink s) of
        (Inl err, sink) \<Rightarrow> (Inl err, s\<lparr>pw_sink := sink, pw_errors := True\<rparr>)
      | (Inr _, sink) \<Rightarrow> (Inr WalkContinue, s\<lparr>pw_sink := sink, pw_errors := True\<rparr>))"

text \<open>Committing one ready step: the loop over its pending actions is the one of the evaluator.\<close>

definition commit_step ::
  "('rx, 'w) run_env \<Rightarrow> eval_context \<Rightarrow>
   ('rx runtime_predicate, runtime_action, entry) eval_step result \<Rightarrow> runtime_status \<times> 'w ordered_sink \<Rightarrow>
   unit result \<times> runtime_status \<times> 'w ordered_sink" where
  "commit_step env ctx ready state =
     (let (st, sink) = state in
      case ready of
        Inl err \<Rightarrow> (Inl err, st, sink)
      | Inr step \<Rightarrow>
          (case eval_loop (evaluate_predicate (re_services env) ctx)
                  (ordered_dispatch (re_services env) ctx (re_host env)) step sink of
             (Inl err, sink) \<Rightarrow> (Inl err, st, sink)
           | (Inr out, sink) \<Rightarrow> (Inr (), merge st (status out), sink)))"

text \<open>The argument \<open>arrive\<close> is the order in which the threads deliver their results.\<close>

definition run_ordered_pipeline ::
  "nat \<Rightarrow> ((u64 \<times> ('rx runtime_predicate, runtime_action, entry) eval_step result) list \<Rightarrow>
           (u64 \<times> ('rx runtime_predicate, runtime_action, entry) eval_step result) list) \<Rightarrow>
   ('rx, 'w) run_env \<Rightarrow> 'rx execution_plan \<Rightarrow> messages_locale \<Rightarrow> 'w \<Rightarrow> (run_summary result \<times> 'w) option" where
  "run_ordered_pipeline n arrive env plan loc w =
     (case start_sink env plan loc w of
        (Inl err, w) \<Rightarrow> Some (Inl err, w)
      | (Inr (ctx, sink), w) \<Rightarrow>
          (case walk_ordered n (plan_walk_args env ctx plan) (pipeline_event env plan) (plan_start_paths plan)
                  \<lparr>pw_sink = sink, pw_errors = False, pw_next_sequence = 0, pw_sent = []\<rparr> of
             None \<Rightarrow> None
           | Some (Inl err, s) \<Rightarrow> Some (Inl err, sink_world (pw_sink s))
           | Some (Inr _, s) \<Rightarrow>
               (let steps = map (\<lambda>(seq, e). (seq, begin_entry_eval (evaluate_predicate (re_services env) ctx)
                              (plan_expr plan) e (plan_follow_mode plan))) (pw_sent s)
                in case commit_arrivals (commit_step env ctx) (arrive steps) rq_default (default_status, pw_sink s) of
                     (Inl err, st, sink) \<Rightarrow> Some (Inl err, sink_world sink)
                   | (Inr _, st, sink) \<Rightarrow>
                       (case sink_flush (re_host env) sink of
                          (Inl err, sink) \<Rightarrow> Some (Inl err, sink_world sink)
                        | (Inr flushed, sink) \<Rightarrow>
                            Some (Inr \<lparr>had_runtime_errors = pw_errors s,
                                       summary_action_failures = had_action_failures (merge st flushed)\<rparr>,
                                  sink_world sink)))))"

definition run_ordered_plan ::
  "nat \<Rightarrow> ((u64 \<times> ('rx runtime_predicate, runtime_action, entry) eval_step result) list \<Rightarrow>
           (u64 \<times> ('rx runtime_predicate, runtime_action, entry) eval_step result) list) \<Rightarrow>
   ('rx, 'w) run_env \<Rightarrow> 'rx execution_plan \<Rightarrow> messages_locale option \<Rightarrow> 'w \<Rightarrow> (run_summary result \<times> 'w) option" where
  "run_ordered_plan n arrive env plan locale w =
     (let loc = (case locale of Some l \<Rightarrow> l | None \<Rightarrow> default_messages_locale) in
      if contains_commit_sensitive_action (plan_expr plan) then run_ordered_inline n env plan loc w
      else run_ordered_pipeline n arrive env plan loc w)"

text \<open>\<^verbatim>\<open>run_plan\<close> for a plan of one worker.\<close>

definition run_plan_ordered ::
  "nat \<Rightarrow> ((u64 \<times> ('rx runtime_predicate, runtime_action, entry) eval_step result) list \<Rightarrow>
           (u64 \<times> ('rx runtime_predicate, runtime_action, entry) eval_step result) list) \<Rightarrow>
   ('rx, 'w) run_env \<Rightarrow> 'rx execution_plan \<Rightarrow> 'w \<Rightarrow> (run_summary result \<times> 'w) option" where
  "run_plan_ordered n arrive env plan w =
     (case validate_startup_requirements env plan of
        Inl err \<Rightarrow> Some (Inl err, w)
      | Inr _ \<Rightarrow>
     (case build_messages_locale env plan of
        Inl err \<Rightarrow> Some (Inl err, w)
      | Inr locale \<Rightarrow>
     (case write_startup_warnings (re_host env) (plan_startup_warnings plan) w of
        (Inl err, w) \<Rightarrow> Some (Inl err, w)
      | (Inr _, w) \<Rightarrow> run_ordered_plan n arrive env plan locale w)))"

section \<open>The queue commits in order\<close>

fun run_in_order :: "('a \<Rightarrow> 'x \<Rightarrow> unit result \<times> 'x) \<Rightarrow> 'a list \<Rightarrow> 'x \<Rightarrow> unit result \<times> 'x" where
  "run_in_order g [] x = (Inr (), x)"
| "run_in_order g (item # items) x =
     (case g item x of (Inl err, x) \<Rightarrow> (Inl err, x) | (Inr _, x) \<Rightarrow> run_in_order g items x)"

definition numbered :: "'a list \<Rightarrow> (u64 \<times> 'a) list" where
  "numbered items = map (\<lambda>i. (of_nat i, items ! i)) [0..<length items]"

text \<open>The queue waits for item \<open>c\<close> and holds the items with the numbers in \<open>B\<close>.\<close>

definition queue_holds :: "'a list \<Rightarrow> nat \<Rightarrow> nat set \<Rightarrow> 'a ready_queue \<Rightarrow> bool" where
  "queue_holds items c B q \<longleftrightarrow>
     rq_next_sequence q = of_nat c \<and> c \<le> length items \<and> B \<subseteq> {c..<length items} \<and> bt_inv (rq_buffered q)
     \<and> (\<forall>k. bt_get (rq_buffered q) k = (if unat k \<in> B then Some (items ! unat k) else None))"

lemma unat_small: "length items < 2 ^ 64 \<Longrightarrow> i \<le> length items \<Longrightarrow> unat (of_nat i :: u64) = i"
  by (simp add: unat_of_nat take_bit_nat_eq_self)

lemma queue_holds_empty: "queue_holds items 0 {} rq_default"
  by (simp add: queue_holds_def rq_default_def bt.inv_empty bt.get_empty)

lemma queue_holds_insert:
  assumes "length items < 2 ^ 64" "queue_holds items c B q" "c \<le> i" "i < length items"
  shows "queue_holds items c (insert i B) (rq_insert (of_nat i) (items ! i) q)"
proof -
  have "k = of_nat i \<longleftrightarrow> unat k = i" for k :: u64
    using unat_small [OF assms(1), of i] assms(4) by auto
  then show ?thesis
    using assms by (auto simp: queue_holds_def rq_insert_def bt.inv_insert bt.get_insert)
qed

lemma queue_holds_pop:
  assumes "length items < 2 ^ 64" "queue_holds items c B q"
  shows "if c \<in> B then \<exists>q'. rq_pop_next q = Some (items ! c, q') \<and> queue_holds items (Suc c) (B - {c}) q'
    else rq_pop_next q = None"
proof -
  have c: "unat (of_nat c :: u64) = c" using assms by (simp add: queue_holds_def unat_small)
  then have k: "k = of_nat c \<longleftrightarrow> unat k = c" for k :: u64 by auto
  show ?thesis
    using assms(2)
    by (auto simp: queue_holds_def rq_pop_next_def bt.inv_remove bt.get_remove k c add.commute
        dest: iffD2 [OF word_unat_eq_iff])
qed

lemma drain_in_order:
  assumes "length items < 2 ^ 64"
  shows "queue_holds items c B q \<Longrightarrow>
    (case drain_ready g q x of
       (Inl err, q', x') \<Rightarrow> run_in_order g (drop c items) x = (Inl err, x')
     | (Inr _, q', x') \<Rightarrow> (\<exists>c'. c \<le> c' \<and> c' \<notin> B \<and> {c..<c'} \<subseteq> B \<and> queue_holds items c' (B - {c..<c'}) q'
         \<and> run_in_order g (drop c items) x = run_in_order g (drop c' items) x'))"
proof (induction g q x arbitrary: c B rule: drain_ready.induct)
  case (1 g q x)
  show ?case
  proof (cases "c \<in> B")
    case False
    then have "rq_pop_next q = None" using queue_holds_pop [OF assms 1(2)] by simp
    then have "drain_ready g q x = (Inr (), q, x)" by (subst drain_ready.simps) simp
    with False 1(2) show ?thesis by (simp only: prod.case sum.case) (rule exI [of _ c], simp)
  next
    case True
    then obtain q' where pop: "rq_pop_next q = Some (items ! c, q')" "queue_holds items (Suc c) (B - {c}) q'"
      using queue_holds_pop [OF assms 1(2)] by auto
    have "c < length items" using True 1(2) by (auto simp: queue_holds_def)
    then have d: "drop c items = items ! c # drop (Suc c) items" by (simp add: Cons_nth_drop_Suc)
    show ?thesis
    proof (cases "g (items ! c) x")
      case (Pair r x1)
      show ?thesis
      proof (cases r)
        case (Inl err)
        then show ?thesis using Pair pop d by (subst drain_ready.simps) simp
      next
        case (Inr u)
        then have g: "g (items ! c) x = (Inr (), x1)" using Pair by simp
        have step: "drain_ready g q x = drain_ready g q' x1" 
          by (simp only: drain_ready.simps [of g q x] pop(1) g option.case prod.case sum.case)
        have run: "run_in_order g (drop c items) x = run_in_order g (drop (Suc c) items) x1" by (simp add: d g)
        show ?thesis
        proof (cases "drain_ready g q' x1")
          case (fields r' q2 x2)
          show ?thesis
          proof (cases r')
            case (Inl err)
            then show ?thesis using 1(1) [OF pop(1) refl g [symmetric] refl pop(2)] fields by (simp add: step run)
          next
            case (Inr u)
            then obtain c' where c': "Suc c \<le> c'" "c' \<notin> B - {c}" "{Suc c..<c'} \<subseteq> B - {c}"
              "queue_holds items c' (B - {c} - {Suc c..<c'}) q2"
              "run_in_order g (drop (Suc c) items) x1 = run_in_order g (drop c' items) x2"
              using 1(1) [OF pop(1) refl g [symmetric] refl pop(2)] fields by auto
            moreover have "{c..<c'} = insert c {Suc c..<c'}" using c'(1) by auto
            moreover have "B - insert c {Suc c..<c'} = B - {c} - {Suc c..<c'}" by auto
            ultimately show ?thesis
              using fields Inr True by (auto simp: step run intro!: exI [of _ c'])
          qed
        qed
      qed
    qed
  qed
qed

lemma commit_in_order:
  assumes "length items < 2 ^ 64"
  shows "queue_holds items c B q \<Longrightarrow> c \<notin> B \<Longrightarrow> distinct is \<Longrightarrow> set is \<inter> B = {} \<Longrightarrow>
    set is \<union> B = {c..<length items} \<Longrightarrow>
    commit_arrivals g (map (\<lambda>i. (of_nat i, items ! i)) is) q x = run_in_order g (drop c items) x"
proof (induction "is" arbitrary: c B q x)
  case Nil
  then have "c \<notin> {c..<length items}" by simp
  then have "drop c items = []" by simp
  then show ?case by simp
next
  case (Cons i "is")
  have i: "c \<le> i" "i < length items" using Cons.prems(5) by auto
  let ?q = "rq_insert (of_nat i) (items ! i) q"
  have holds: "queue_holds items c (insert i B) ?q" by (rule queue_holds_insert [OF assms Cons.prems(1) i])
  note drained = drain_in_order [OF assms holds, of g x]
  show ?case
  proof (cases "drain_ready g ?q x")
    case (fields r q' x')
    show ?thesis
    proof (cases r)
      case (Inl err)
      then show ?thesis using drained fields by simp
    next
      case (Inr u)
      then obtain c' where c': "c \<le> c'" "c' \<notin> insert i B" "{c..<c'} \<subseteq> insert i B"
        "queue_holds items c' (insert i B - {c..<c'}) q'"
        "run_in_order g (drop c items) x = run_in_order g (drop c' items) x'"
        using drained fields by auto
      have "set is \<inter> (insert i B - {c..<c'}) = {}" using Cons.prems(3,4) by auto
      moreover have "set is \<union> (insert i B - {c..<c'}) = {c'..<length items}"
      proof -
        have "set is \<union> insert i B = {c..<length items}" using Cons.prems(5) by auto
        moreover have "set is \<inter> {c..<c'} = {}" using c'(3) Cons.prems(3,4) by auto
        ultimately have "set is \<union> (insert i B - {c..<c'}) = {c..<length items} - {c..<c'}" by blast
        also have "\<dots> = {c'..<length items}" using c'(1) by auto
        finally show ?thesis .
      qed
      ultimately have "commit_arrivals g (map (\<lambda>i. (of_nat i, items ! i)) is) q' x' = run_in_order g (drop c' items) x'"
        using c'(2) Cons.prems(3) by (intro Cons.IH [OF c'(4)]) auto
      then show ?thesis using fields Inr c'(5) by simp
    qed
  qed
qed

lemma mset_eq_map: "mset xs = mset (map f js) \<Longrightarrow> \<exists>is. mset is = mset js \<and> xs = map f is"
proof (induction xs arbitrary: js)
  case (Cons x xs)
  then have "x \<in> set (map f js)" by (metis list.set_intros(1) mset_eq_setD)
  then obtain ks j ls where js: "js = ks @ j # ls" and x: "x = f j"
    by (auto simp: in_set_conv_decomp [of _ js])
  with Cons.prems have "mset xs = mset (map f (ks @ ls))" by simp
  from Cons.IH [OF this] obtain "is" where "mset is = mset (ks @ ls)" "xs = map f is" by auto
  then show ?case by (intro exI [of _ "j # is"]) (simp add: js x)
qed simp

lemma arrivals_numbered:
  assumes "mset arrivals = mset (numbered items)"
  obtains "is" where "arrivals = map (\<lambda>i. (of_nat i, items ! i)) is" "distinct is" "set is = {0..<length items}"
proof -
  from mset_eq_map [OF assms [unfolded numbered_def]] obtain "is" where m: "mset is = mset [0..<length items]"
    and a: "arrivals = map (\<lambda>i. (of_nat i, items ! i)) is" by blast
  from mset_eq_imp_distinct_iff [OF m] have "distinct is" by simp
  moreover from mset_eq_setD [OF m] have "set is = {0..<length items}" by simp
  ultimately show thesis using a that by blast
qed

lemma commit_arrivals_numbered:
  assumes "length items < 2 ^ 64" "mset arrivals = mset (numbered items)"
  shows "commit_arrivals g arrivals rq_default x = run_in_order g items x"
proof -
  from assms(2) obtain "is" where "arrivals = map (\<lambda>i. (of_nat i, items ! i)) is"
    and "distinct is" "set is = {0..<length items}" by (rule arrivals_numbered)
  with commit_in_order [OF assms(1) queue_holds_empty, of "is" g x] show ?thesis by simp
qed

text \<open>
  C25.  However the evaluator threads interleave, their results are committed in the order of the
  walk: for every arrival order of the numbered results the loop does what running them one
  after the other does, and it stops at the same error.
\<close>

theorem ready_queue_commits_in_order:
  assumes "length items < 2 ^ 64" "mset arrivals = mset (numbered items)"
  shows "commit_arrivals g arrivals rq_default x = run_in_order g items x"
  using assms by (rule commit_arrivals_numbered)

lemma ready_queue_commits_in_order_witness:
  "commit_arrivals (\<lambda>a x. (Inr (), x @ a)) [(2, ''c''), (0, ''a''), (1, ''b'')] rq_default [] = (Inr (), ''abc'')"
proof -
  have "mset [(2, ''c''), (0, ''a''), (1, ''b'')] = mset (numbered [''a'', ''b'', ''c''])"
    by (simp add: numbered_def)
  from ready_queue_commits_in_order [OF _ this, of "\<lambda>a x. (Inr (), x @ a)" "[]"] show ?thesis by simp
qed

section \<open>The pipeline is the inline run\<close>

lemma status_outcome_new [simp]: "status (outcome_new b) = default_status"
  by (simp only: outcome_new_def outcome.simps)

lemma dispatch_quiet:
  assumes "\<not> contains_commit_sensitive_action (RAction a)" "ordered_dispatch sv ctx host a e m s = (Inr out, s')"
  shows "status out = default_status"
proof -
  have "dispatch_rendered host r s = (Inr out, s') \<Longrightarrow> status out = default_status" for r
    unfolding dispatch_rendered_def then_io_def by (auto split: prod.splits sum.splits)
  moreover have "render_action_output sv ctx a e m \<noteq> Inr None"
    using assms(1) by (cases a) (auto simp: result_simps)
  ultimately show ?thesis
    using assms(2) by (auto simp: ordered_dispatch_def split: sum.splits option.splits)
qed

lemma then_evalE:
  assumes "then_eval r f = (Inr out, s')"
  obtains o1 s1 where "r = (Inr o1, s1)" "f o1 s1 = (Inr out, s')"
  using assms by (cases r; cases "fst r") auto

lemma eval_quiet:
  "\<not> contains_commit_sensitive_action x \<Longrightarrow> eval_ref ev (ordered_dispatch sv ctx host) x e m s = (Inr out, s')
     \<Longrightarrow> status out = default_status"
  "\<not> list_ex contains_commit_sensitive_action xs \<Longrightarrow>
     eval_and ev (ordered_dispatch sv ctx host) xs default_status e m s = (Inr out, s')
     \<Longrightarrow> status out = default_status"
proof (induction x and xs arbitrary: s out s' and s out s' rule: eval_weight_induct)
  case (And items)
  then show ?case by simp
next
  case (Or l r)
  from Or.prems(2) obtain lo s1 where l: "eval_ref ev (ordered_dispatch sv ctx host) l e m s = (Inr lo, s1)"
    and rest: "(if matched lo \<or> is_stop_requested (status lo) then (Inr lo, s1)
      else then_eval (eval_ref ev (ordered_dispatch sv ctx host) r e m s1)
        (\<lambda>ro s. (Inr \<lparr>matched = matched ro, status = merge (status lo) (status ro)\<rparr>, s))) = (Inr out, s')"
    by (auto elim!: then_evalE)
  have lo: "status lo = default_status" using Or.IH(1) [OF _ l] Or.prems(1) by simp
  show ?case
  proof (cases "matched lo")
    case False
    then obtain ro s2 where "eval_ref ev (ordered_dispatch sv ctx host) r e m s1 = (Inr ro, s2)"
      "out = \<lparr>matched = matched ro, status = merge (status lo) (status ro)\<rparr>"
      using rest lo by (auto elim!: then_evalE)
    with Or.IH(2) Or.prems(1) lo show ?thesis by simp
  qed (use rest lo in simp)
next
  case (Not x)
  then show ?case by (auto elim!: then_evalE)
next
  case (Predicate p)
  then show ?case by (auto simp: result_simps)
next
  case (Action a)
  then show ?case using dispatch_quiet by (metis eval_ref.simps(2))
next
  case Barrier
  then show ?case by auto
next
  case Nil
  then show ?case by auto
next
  case (Cons x xs)
  from Cons.prems(2) obtain o1 s1 where x: "eval_ref ev (ordered_dispatch sv ctx host) x e m s = (Inr o1, s1)"
    and rest: "(let acc = merge default_status (status o1) in
      if \<not> matched o1 \<or> is_stop_requested acc then (Inr \<lparr>matched = matched o1, status = acc\<rparr>, s1)
      else eval_and ev (ordered_dispatch sv ctx host) xs acc e m s1) = (Inr out, s')"
    by (auto elim!: then_evalE)
  have o1: "status o1 = default_status" using Cons.IH(1) [OF _ x] Cons.prems(1) by simp
  show ?case
  proof (cases "matched o1")
    case True
    with rest o1 have "eval_and ev (ordered_dispatch sv ctx host) xs default_status e m s1 = (Inr out, s')" by simp
    from Cons.IH(2) [OF _ this] Cons.prems(1) show ?thesis by simp
  qed (use rest o1 in auto)
qed

lemma evaluate_quiet:
  "\<not> contains_commit_sensitive_action x \<Longrightarrow>
   evaluate_outcome ev (ordered_dispatch sv ctx host) x e m s = (Inr out, s') \<Longrightarrow> status out = default_status"
  unfolding evaluate_outcome_ref by (rule eval_quiet(1))

text \<open>Evaluating one entry and committing its outcome.\<close>

definition commit_entry ::
  "('rx, 'w) run_env \<Rightarrow> eval_context \<Rightarrow> 'rx execution_plan \<Rightarrow> entry \<Rightarrow> runtime_status \<times> 'w ordered_sink \<Rightarrow>
   unit result \<times> runtime_status \<times> 'w ordered_sink" where
  "commit_entry env ctx plan e =
     commit_step env ctx (begin_entry_eval (evaluate_predicate (re_services env) ctx)
       (plan_expr plan) e (plan_follow_mode plan))"

lemma commit_entry_evaluates:
  "commit_entry env ctx plan e (st, sink) =
     (case evaluate_outcome (evaluate_predicate (re_services env) ctx)
             (ordered_dispatch (re_services env) ctx (re_host env)) (plan_expr plan) e (plan_follow_mode plan) sink of
        (Inl err, sink) \<Rightarrow> (Inl err, st, sink)
      | (Inr out, sink) \<Rightarrow> (Inr (), merge st (status out), sink))"
  by (simp add: commit_entry_def commit_step_def evaluate_outcome_def split: sum.split)

definition deep_entries :: "'rx execution_plan \<Rightarrow> walk_mark list \<Rightarrow> entry list" where
  "deep_entries plan ms =
     filter (\<lambda>e. entry_depth e \<ge> to_min_depth (plan_traversal plan)) (concat (map mark_entries ms))"

lemma deep_entries_Cons: "deep_entries plan (m # ms) = deep_entries plan [m] @ deep_entries plan ms"
  by (simp add: deep_entries_def)

lemma deep_entries_length: "length (deep_entries plan ms) \<le> length ms"
proof (induction ms)
  case (Cons m ms)
  have "length (deep_entries plan [m]) \<le> 1" by (cases m) (simp_all add: deep_entries_def)
  with Cons show ?case by (simp add: deep_entries_Cons [of plan m ms])
qed (simp add: deep_entries_def)

definition finish_inline :: "unit result \<times> runtime_status \<times> 's \<Rightarrow> ('s \<times> bool \<Rightarrow> 'a) \<Rightarrow> (unit result \<Rightarrow> 's \<times> bool \<Rightarrow> 'a) \<Rightarrow> 'a" where
  "finish_inline r go stop =
     (case r of (Inl err, st, sink) \<Rightarrow> stop (Inl err) (sink, False) | (Inr u, st, sink) \<Rightarrow> go (sink, False))"

lemma feed_inline:
  assumes "\<not> contains_commit_sensitive_action (plan_expr plan)"
  shows "\<forall>m\<in>set ms. \<not> is_error_mark m \<Longrightarrow>
    and_then_feed (feed (inline_event env ctx plan) [] ms seq (sink, False)) (\<lambda>seq. go) stop =
    finish_inline (run_in_order (commit_entry env ctx plan) (deep_entries plan ms) (default_status, sink)) go stop"
proof (induction ms arbitrary: seq sink)
  case Nil
  then show ?case by (simp add: deep_entries_def finish_inline_def)
next
  case (Cons m ms)
  then have IH: "\<And>seq sink. and_then_feed (feed (inline_event env ctx plan) [] ms seq (sink, False)) (\<lambda>seq. go) stop =
      finish_inline (run_in_order (commit_entry env ctx plan) (deep_entries plan ms) (default_status, sink)) go stop"
    by simp
  from Cons.prems obtain e where "m = MarkEntry e \<or> m = MarkDone e" by (cases m) auto
  then have m: "mark_entries m = [e]" "\<not> is_error_mark m"
    "inline_event env ctx plan (mark_event seq [] m) (sink, False) = inline_entry env ctx plan e (sink, False)"
    by (auto simp: scheduled_entry_def)
  show ?case
  proof (cases "entry_depth e \<ge> to_min_depth (plan_traversal plan)")
    case False
    then show ?thesis by (simp add: m inline_entry_def IH deep_entries_Cons [of plan m ms] deep_entries_def [of plan "[m]"])
  next
    case True
    let ?run = "evaluate_outcome (evaluate_predicate (re_services env) ctx)
      (ordered_dispatch (re_services env) ctx (re_host env)) (plan_expr plan) e (plan_follow_mode plan) sink"
    show ?thesis
    proof (cases ?run)
      case (Pair r sink')
      show ?thesis
      proof (cases r)
        case (Inl err)
        with Pair True show ?thesis
          by (simp add: m inline_entry_def deep_entries_Cons [of plan m ms] deep_entries_def [of plan "[m]"]
              commit_entry_evaluates finish_inline_def)
      next
        case (Inr out)
        have "status out = default_status" using evaluate_quiet [OF assms] Pair Inr by blast
        with Pair Inr True show ?thesis
          by (simp add: m inline_entry_def deep_entries_Cons [of plan m ms] deep_entries_def [of plan "[m]"]
              commit_entry_evaluates IH)
      qed
    qed
  qed
qed

fun number_from :: "u64 \<Rightarrow> 'a list \<Rightarrow> (u64 \<times> 'a) list" where
  "number_from k [] = []"
| "number_from k (x # xs) = (k, x) # number_from (k + 1) xs"

lemma number_from_map: "number_from k xs = map (\<lambda>i. (k + of_nat i, xs ! i)) [0..<length xs]"
proof (induction xs arbitrary: k)
  case (Cons x xs)
  have "[0..<length (x # xs)] = 0 # map Suc [0..<length xs]" by (simp add: map_Suc_upt upt_conv_Cons del: upt_Suc)
  with Cons show ?case by (simp add: comp_def add.assoc del: upt_Suc)
qed simp

lemma numbered_number_from: "numbered xs = number_from 0 xs"
  by (simp add: numbered_def number_from_map)

lemma map_numbered: "map (\<lambda>(seq, e). (seq, f e)) (numbered es) = numbered (map f es)"
  by (simp add: numbered_def)

lemma feed_pipeline:
  assumes "ordered_evaluator_workers plan \<noteq> 0"
  shows "\<forall>m\<in>set ms. \<not> is_error_mark m \<Longrightarrow>
    and_then_feed (feed (pipeline_event env plan) [] ms seq s) (\<lambda>seq. go) stop =
    go (s\<lparr>pw_sent := pw_sent s @ number_from (pw_next_sequence s) (deep_entries plan ms),
          pw_next_sequence := pw_next_sequence s + of_nat (length (deep_entries plan ms))\<rparr>)"
proof (induction ms arbitrary: seq s)
  case Nil
  then show ?case by (simp add: deep_entries_def)
next
  case (Cons m ms)
  then have IH: "\<And>seq s. and_then_feed (feed (pipeline_event env plan) [] ms seq s) (\<lambda>seq. go) stop =
      go (s\<lparr>pw_sent := pw_sent s @ number_from (pw_next_sequence s) (deep_entries plan ms),
            pw_next_sequence := pw_next_sequence s + of_nat (length (deep_entries plan ms))\<rparr>)"
    by simp
  from Cons.prems obtain e where "m = MarkEntry e \<or> m = MarkDone e" by (cases m) auto
  then have m: "mark_entries m = [e]" "\<not> is_error_mark m"
    "pipeline_event env plan (mark_event seq [] m) s = pipeline_entry plan e s"
    by (auto simp: scheduled_entry_def)
  show ?case
    using assms
    by (simp add: m pipeline_entry_def IH deep_entries_Cons [of plan m ms] deep_entries_def [of plan "[m]"] add.assoc)
qed

lemma commit_map: "run_in_order (commit_entry env ctx plan) es x =
    run_in_order (commit_step env ctx) (map (\<lambda>e. begin_entry_eval (evaluate_predicate (re_services env) ctx)
      (plan_expr plan) e (plan_follow_mode plan)) es) x"
  by (induction es arbitrary: x) (simp_all add: commit_entry_def split: prod.split sum.split)

lemma commits_stay_quiet:
  assumes "\<not> contains_commit_sensitive_action (plan_expr plan)"
    "run_in_order (commit_entry env ctx plan) es (default_status, sink) = (Inr u, st, sink')"
  shows "st = default_status"
  using assms(2)
proof (induction es arbitrary: sink)
  case (Cons e es)
  from Cons.prems obtain out s1 where
    run: "evaluate_outcome (evaluate_predicate (re_services env) ctx)
       (ordered_dispatch (re_services env) ctx (re_host env)) (plan_expr plan) e (plan_follow_mode plan) sink
       = (Inr out, s1)"
    and rest: "run_in_order (commit_entry env ctx plan) es (status out, s1) = (Inr u, st, sink')"
    by (auto simp: commit_entry_evaluates split: prod.splits sum.splits)
  from Cons.IH rest show ?case by (simp add: evaluate_quiet [OF assms(1) run])
qed simp

text \<open>The end of both runs, from the result of the commits.\<close>

definition finish_run ::
  "('rx, 'w) run_env \<Rightarrow> unit result \<times> runtime_status \<times> 'w ordered_sink \<Rightarrow> (run_summary result \<times> 'w) option" where
  "finish_run env r =
     (case r of
        (Inl err, st, sink) \<Rightarrow> Some (Inl err, sink_world sink)
      | (Inr u, st, sink) \<Rightarrow>
          (case sink_flush (re_host env) sink of
             (Inl err, sink) \<Rightarrow> Some (Inl err, sink_world sink)
           | (Inr flushed, sink) \<Rightarrow>
               Some (Inr \<lparr>had_runtime_errors = False,
                          summary_action_failures = had_action_failures (merge st flushed)\<rparr>, sink_world sink)))"

lemma start_sink_context: "start_sink env plan loc w = (Inr (ctx, sink), w1) \<Longrightarrow> build_eval_context env plan = Inr ctx"
  by (auto simp: start_sink_def then_io_def split: sum.splits prod.splits)

text \<open>A walk of a plan without errors of its own, on fewer entries than sequence numbers.\<close>

definition quiet_walk :: "walk_args \<Rightarrow> path list \<Rightarrow> bool" where
  "quiet_walk wk starts \<longleftrightarrow>
     list_all (\<lambda>m. \<not> is_error_mark m) (start_marks wk starts) \<and> length (start_marks wk starts) < 2 ^ 64"

lemma run_pipeline_commits:
  assumes start: "start_sink env plan loc w = (Inr (ctx, sink), w1)"
    and quiet: "quiet_walk (plan_walk_args env ctx plan) (plan_start_paths plan)"
    and workers: "ordered_evaluator_workers plan \<noteq> 0" and arrive: "\<And>xs. mset (arrive xs) = mset xs"
  shows "run_ordered_pipeline (walk_fuel (plan_walk_args env ctx plan) (plan_start_paths plan) + k) arrive env plan loc w =
    finish_run env (run_in_order (commit_entry env ctx plan)
      (deep_entries plan (start_marks (plan_walk_args env ctx plan) (plan_start_paths plan))) (default_status, sink))"
proof -
  let ?ms = "start_marks (plan_walk_args env ctx plan) (plan_start_paths plan)"
  let ?es = "deep_entries plan ?ms"
  let ?steps = "map (\<lambda>e. begin_entry_eval (evaluate_predicate (re_services env) ctx)
    (plan_expr plan) e (plan_follow_mode plan)) ?es"
  have marks: "\<forall>m\<in>set ?ms. \<not> is_error_mark m" using quiet by (simp add: quiet_walk_def list_all_iff)
  have "length ?steps < 2 ^ 64"
    using quiet deep_entries_length [of plan ?ms] by (simp add: quiet_walk_def)
  then have commits: "commit_arrivals (commit_step env ctx) (arrive (numbered ?steps)) rq_default (default_status, sink) =
      run_in_order (commit_entry env ctx plan) ?es (default_status, sink)"
    unfolding commit_map by (rule commit_arrivals_numbered [OF _ arrive])
  show ?thesis
    unfolding run_ordered_pipeline_def start prod.case sum.case walk_ordered_marks
      feed_pipeline [OF workers marks] finish_run_def
    by (simp only: option.case prod.case sum.case Let_def pipeline_walk.simps append_Nil
        numbered_number_from [symmetric] map_numbered commits)
qed

lemma run_inline_commits:
  assumes start: "start_sink env plan loc w = (Inr (ctx, sink), w1)"
    and quiet: "quiet_walk (plan_walk_args env ctx plan) (plan_start_paths plan)"
    and only_output: "\<not> contains_commit_sensitive_action (plan_expr plan)"
  shows "run_ordered_inline (walk_fuel (plan_walk_args env ctx plan) (plan_start_paths plan) + k) env plan loc w =
    finish_run env (run_in_order (commit_entry env ctx plan)
      (deep_entries plan (start_marks (plan_walk_args env ctx plan) (plan_start_paths plan))) (default_status, sink))"
proof -
  let ?ms = "start_marks (plan_walk_args env ctx plan) (plan_start_paths plan)"
  have marks: "\<forall>m\<in>set ?ms. \<not> is_error_mark m" using quiet by (simp add: quiet_walk_def list_all_iff)
  let ?run = "run_in_order (commit_entry env ctx plan) (deep_entries plan ?ms) (default_status, sink)"
  obtain q st sink1 where run: "?run = (q, st, sink1)" by (cases ?run)
  have st: "merge st flushed = flushed" if "q = Inr u" for u flushed
    using commits_stay_quiet [OF only_output] run that by force
  show ?thesis
    unfolding run_ordered_inline_def start prod.case sum.case walk_ordered_marks feed_inline [OF only_output marks]
    by (cases q) (auto simp: run finish_inline_def finish_run_def st split: sum.split prod.split)
qed

text \<open>
  C9.  The pipelined run is the inline run: for a plan whose actions only write output, whatever
  order the evaluator threads deliver in, the two engines leave the same world and return the
  same summary or error, on a walk that reports no error of its own (the lines of such errors
  come first in the pipeline and in between in the inline run).
\<close>

theorem pipeline_is_inline:
  assumes "\<not> contains_commit_sensitive_action (plan_expr plan)"
    and "evaluation_workers (plan_runtime_policy plan) \<noteq> 0"
    and "\<And>xs. mset (arrive xs) = mset xs"
    and "\<And>ctx. build_eval_context env plan = Inr ctx \<Longrightarrow>
      quiet_walk (plan_walk_args env ctx plan) (plan_start_paths plan)"
  shows "\<exists>n. \<forall>m\<ge>n. run_ordered_pipeline m arrive env plan loc w = run_ordered_inline m env plan loc w"
proof (cases "start_sink env plan loc w")
  case (Pair r w1)
  show ?thesis
  proof (cases r)
    case (Inl err)
    with Pair show ?thesis by (simp add: run_ordered_pipeline_def run_ordered_inline_def)
  next
    case (Inr begun)
    then obtain ctx sink where start: "start_sink env plan loc w = (Inr (ctx, sink), w1)"
      using Pair by (cases begun) auto
    note quiet = assms(4) [OF start_sink_context [OF start]]
    have workers: "ordered_evaluator_workers plan \<noteq> 0" using assms(1,2) by (simp add: ordered_evaluator_workers_def)
    have "run_ordered_pipeline (walk_fuel (plan_walk_args env ctx plan) (plan_start_paths plan) + k) arrive env plan loc w =
        run_ordered_inline (walk_fuel (plan_walk_args env ctx plan) (plan_start_paths plan) + k) env plan loc w" for k
      using run_pipeline_commits [of env plan loc w ctx sink w1 arrive k, OF start quiet workers assms(3)]
        run_inline_commits [OF start quiet assms(1), of k] by simp
    then show ?thesis by (metis le_iff_add)
  qed
qed

section \<open>A sample run\<close>

definition print_plan :: "unit execution_plan" where
  "print_plan =
     \<lparr>plan_start_paths = [''d''], plan_follow_mode = Physical,
      plan_traversal = \<lparr>to_min_depth = 1, to_max_depth = None, to_same_file_system = False, to_order = PreOrder\<rparr>,
      plan_runtime = \<lparr>rr_mount_snapshot = False, rr_evaluation_now = Timestamp 0 0,
        rr_execdir_requires_safe_path = False, rr_messages_locale_required = False\<rparr>,
      plan_startup_warnings = [], plan_file_outputs = [], plan_expr = RAction (RaOutput OutPrint),
      plan_mode = OrderedSingle, plan_parallel_policy = None, plan_action_profile = default_action_profile,
      plan_runtime_policy = derive_with_parallelism 1 PreOrder True 4, plan_traversal_control = None\<rparr>"

definition print_env :: "(unit, string list) run_env" where
  "print_env =
     \<lparr>re_services = sample_services, re_host = quiet_host, re_backend = fs_walk_backend loop_reader loop_dir,
      re_path_variable = None, re_mounts = Inr default_snapshot, re_messages = Inr default_messages_locale,
      re_batch_limit = 100\<rparr>"

lemma print_run:
  "map_option (map_prod (map_sum id had_runtime_errors) id)
     (run_ordered_inline 9 print_env print_plan default_messages_locale []) =
   Some (Inr False, [''d/f'' @ [CHR 0x0A], ''d/l'' @ [CHR 0x0A]])"
  by code_simp

lemma mark_events_marks:
  "length (mark_events seq ms) = length ms"
  "list_all (\<lambda>ev. case ev of WalkError e \<Rightarrow> False | _ \<Rightarrow> True) (mark_events seq ms)
     \<longleftrightarrow> list_all (\<lambda>m. \<not> is_error_mark m) ms"
proof -
  have m: "(case mark_event seq [] m of WalkError e \<Rightarrow> False | _ \<Rightarrow> True) \<longleftrightarrow> \<not> is_error_mark m" for seq m
    by (cases m) simp_all
  show "length (mark_events seq ms) = length ms" by (induction ms arbitrary: seq) simp_all
  show "list_all (\<lambda>ev. case ev of WalkError e \<Rightarrow> False | _ \<Rightarrow> True) (mark_events seq ms)
     \<longleftrightarrow> list_all (\<lambda>m. \<not> is_error_mark m) ms"
    by (induction ms arbitrary: seq) (simp_all add: m)
qed

lemma print_walk_quiet:
  "quiet_walk (plan_walk_args print_env (with_now (Timestamp 0 0)) print_plan) (plan_start_paths print_plan)"
proof -
  let ?wk = "plan_walk_args print_env (with_now (Timestamp 0 0)) print_plan"
  define r where "r = walk_ordered 9 ?wk collect (plan_start_paths print_plan) []"
  have "case r of None \<Rightarrow> False | Some (q, evs) \<Rightarrow> length evs = 3 \<and>
      list_all (\<lambda>ev. case ev of WalkError e \<Rightarrow> False | _ \<Rightarrow> True) evs"
    unfolding r_def by code_simp
  then obtain q evs where w: "walk_ordered 9 ?wk collect (plan_start_paths print_plan) [] = Some (q, evs)"
    and evs: "length evs = 3" "list_all (\<lambda>ev. case ev of WalkError e \<Rightarrow> False | _ \<Rightarrow> True) evs"
    by (auto simp: r_def split: option.splits)
  from collect_walk [OF w] evs show ?thesis by (auto simp: quiet_walk_def mark_events_marks)
qed

lemma pipeline_is_inline_witness:
  "\<exists>n. \<forall>m\<ge>n. run_ordered_pipeline m rev print_env print_plan default_messages_locale [] =
     run_ordered_inline m print_env print_plan default_messages_locale []"
proof (rule pipeline_is_inline)
  show "\<not> contains_commit_sensitive_action (plan_expr print_plan)" by (simp add: print_plan_def)
  show "evaluation_workers (plan_runtime_policy print_plan) \<noteq> 0"
    by (simp add: print_plan_def derive_with_parallelism_def Let_def)
  show "mset (rev xs) = mset xs" for xs :: "(u64 \<times> (unit runtime_predicate, runtime_action, entry) eval_step result) list"
    by simp
  fix ctx assume "build_eval_context print_env print_plan = Inr ctx"
  then have "ctx = with_now (Timestamp 0 0)" by (simp add: build_eval_context_def print_plan_def)
  then show "quiet_walk (plan_walk_args print_env ctx print_plan) (plan_start_paths print_plan)"
    using print_walk_quiet by simp
qed

section \<open>The verdict of the walker and the sink\<close>

text \<open>
  C23.  The verdict by which the walker decides to descend says whether the expression matches the
  entry: whatever sink evaluates the expression, if each action that it was handed was carried out
  (returned a match and did not ask to stop), the evaluation succeeds and matches exactly when the
  verdict does.
\<close>

theorem verdict_predicts_match:
  assumes "evaluate_for_traversal sv ctx order x e m = Inr v"
    and "evaluate_outcome (evaluate_predicate sv ctx) (observed dispatch) x e m (s, []) = (r, s', results)"
    and "list_all carried_out results"
  shows "\<exists>out. evaluate_outcome (evaluate_predicate sv ctx) dispatch x e m s = (Inr out, s')
    \<and> r = Inr out \<and> matched out = tc_matched v"
  using watched_eval(1) [of sv ctx dispatch x e m s "[]" order] assms
  unfolding evaluate_outcome_ref by (auto simp: agrees_def elim!: watchedE)

definition print_then_fail :: "(unit runtime_predicate, runtime_action) runtime_expr" where
  "print_then_fail = RAnd [RNot (RPredicate RpFalse), RAction (RaOutput OutPrint), RPredicate RpFalse]"

lemma verdict_predicts_match_witness:
  "evaluate_for_traversal (sample_services :: unit services) default_context PreOrder print_then_fail
      (entry_new sample_reader ''a'' 0 True) Physical = Inr \<lparr>tc_matched = False, tc_prune = False\<rparr>
   \<and> (\<exists>out s'. evaluate_outcome (evaluate_predicate (sample_services :: unit services) default_context)
        (ordered_dispatch (sample_services :: unit services) default_context quiet_host) print_then_fail
        (entry_new sample_reader ''a'' 0 True) Physical (fresh_sink 100 0 []) = (Inr out, s')
      \<and> \<not> matched out \<and> sink_world s' = [''a'' @ [CHR 0x0A]])"
proof -
  let ?e = "entry_new sample_reader ''a'' 0 True" and ?s = "fresh_sink 100 0 []"
  let ?ev = "evaluate_predicate (sample_services :: unit services) default_context"
  let ?dispatch = "ordered_dispatch (sample_services :: unit services) default_context quiet_host"
  have v: "evaluate_for_traversal (sample_services :: unit services) default_context PreOrder print_then_fail ?e Physical
      = Inr \<lparr>tc_matched = False, tc_prune = False\<rparr>"
    by (simp add: print_then_fail_def tc_allow_def Let_def)
  have "\<exists>r s' results. evaluate_outcome ?ev (observed ?dispatch) print_then_fail ?e Physical (?s, []) = (r, s', results)
      \<and> list_all carried_out results \<and> sink_world s' = [''a'' @ [CHR 0x0A]]"
    by (simp add: print_then_fail_def fresh_sink_def empty_sink_def set_world_def sink_world_def display_bytes_def entry_new_def
        with_reader_hint_and_root_def
        evaluate_outcome_ref observed_def carried_out_def Let_def ordered_dispatch_def
        dispatch_rendered_def on_world_def write_stdout_bytes_def io_err_def map_err_def quiet_host_def)
  then obtain r s' results where run: "evaluate_outcome ?ev (observed ?dispatch) print_then_fail ?e Physical (?s, []) = (r, s', results)"
    and results: "list_all carried_out results" and world: "sink_world s' = [''a'' @ [CHR 0x0A]]" by blast
  from verdict_predicts_match [OF v run results] world v show ?thesis by auto
qed

end
