(* ===== verification/Broker.thy ===== *)
theory Broker
  imports Ordered_Sink
begin

text \<open>
  The output of a parallel run: the broker thread and the plain sinks of \<^verbatim>\<open>src/src/output.rs\<close>,
  and the commands of \<^verbatim>\<open>src/src/exec/child.rs\<close> whose output is collected through pipes.  A
  channel is the list of the messages not yet received; sending fails once the receiver is gone.
\<close>

section \<open>Messages and the broker thread (output.rs)\<close>

datatype broker_message = BmStdout string | BmStderr string

record broker_channel =
  bc_messages :: "broker_message list"
  bc_open :: bool

definition open_channel :: broker_channel where
  "open_channel = \<lparr>bc_messages = [], bc_open = True\<rparr>"

fun write_message :: "'w host \<Rightarrow> broker_message \<Rightarrow> 'w \<Rightarrow> unit result \<times> 'w" where
  "write_message host (BmStdout bytes) w =
     io_err (\<lambda>e. failed_to_write ''stdout'' (io_text e)) (h_write_stdout host bytes w)"
| "write_message host (BmStderr bytes) w =
     io_err (\<lambda>e. failed_to_write ''stderr'' (io_text e)) (h_write_stderr host bytes w)"

fun broker_loop :: "'w host \<Rightarrow> broker_message list \<Rightarrow> 'w \<Rightarrow> unit result \<times> 'w" where
  "broker_loop host [] w = (Inr (), w)"
| "broker_loop host (msg # msgs) w = then_io (write_message host msg w) (\<lambda>_ w. broker_loop host msgs w)"

text \<open>What the threads of a run share for their output.\<close>

record 'w brokered =
  bk_channel :: broker_channel
  bk_world :: 'w

definition broker_send :: "broker_message \<Rightarrow> 'w brokered \<Rightarrow> bool \<times> 'w brokered" where
  "broker_send msg b =
     (if bc_open (bk_channel b)
      then (True, b\<lparr>bk_channel := (bk_channel b)\<lparr>bc_messages := bc_messages (bk_channel b) @ [msg]\<rparr>\<rparr>)
      else (False, b))"

text \<open>An operation on the operating system by a thread that also holds the channel.\<close>

definition on_bk_world :: "('w \<Rightarrow> 'a \<times> 'w) \<Rightarrow> 'w brokered \<Rightarrow> 'a \<times> 'w brokered" where
  "on_bk_world f b = (let (r, w) = f (bk_world b) in (r, b\<lparr>bk_world := w\<rparr>))"

section \<open>Plain sinks (output.rs)\<close>

definition stdout_dispatch ::
  "'rx services \<Rightarrow> eval_context \<Rightarrow> 'w host \<Rightarrow> runtime_action \<Rightarrow> entry \<Rightarrow> follow_mode \<Rightarrow> 'w \<Rightarrow>
   outcome result \<times> 'w" where
  "stdout_dispatch sv ctx host a e m w =
     (case render_action_output sv ctx a e m of
        Inl err \<Rightarrow> (Inl err, w)
      | Inr (Some (RenderedStdout bytes)) \<Rightarrow>
          then_io (write_stdout_bytes host bytes w) (\<lambda>_ w. (Inr (outcome_new True), w))
      | Inr _ \<Rightarrow>
          (Inl (diagnostic_new ''internal error: plain stdout sink cannot execute runtime actions'' 1), w))"

definition recording_dispatch ::
  "'rx services \<Rightarrow> eval_context \<Rightarrow> runtime_action \<Rightarrow> entry \<Rightarrow> follow_mode \<Rightarrow> string \<Rightarrow>
   outcome result \<times> string" where
  "recording_dispatch sv ctx a e m recorded =
     (case render_action_output sv ctx a e m of
        Inl err \<Rightarrow> (Inl err, recorded)
      | Inr (Some (RenderedStdout bytes)) \<Rightarrow> (Inr (outcome_new True), recorded @ bytes)
      | Inr _ \<Rightarrow>
          (Inl (diagnostic_new ''internal error: recording sink cannot execute runtime actions'' 1), recorded))"

section \<open>The buffer of a pipe (exec/child.rs)\<close>

text \<open>
  The temporary file comes from a library: what it holds is a text, and its operations are
  arguments.  \<open>temp_files_ok\<close> states what they document: writing appends, reading back from the
  start gives what was written.
\<close>

record temp_files =
  tf_new :: "string io_result"
  tf_write :: "string \<Rightarrow> string \<Rightarrow> string io_result"
  tf_read_back :: "string \<Rightarrow> string io_result"

definition temp_files_ok :: "temp_files \<Rightarrow> bool" where
  "temp_files_ok tf \<longleftrightarrow>
     (\<forall>s. tf_new tf = Inr s \<longrightarrow> s = [])
   \<and> (\<forall>s t u. tf_write tf s t = Inr u \<longrightarrow> u = s @ t)
   \<and> (\<forall>s t. tf_read_back tf s = Inr t \<longrightarrow> t = s)"

record spill_buffer =
  sb_threshold :: nat
  sb_memory :: string
  sb_spill :: "string option"

definition spill_new :: "nat \<Rightarrow> spill_buffer" where
  "spill_new threshold = \<lparr>sb_threshold = threshold, sb_memory = [], sb_spill = None\<rparr>"

definition spill_write_all :: "temp_files \<Rightarrow> string \<Rightarrow> spill_buffer \<Rightarrow> spill_buffer io_result" where
  "spill_write_all tf bytes b =
     (case sb_spill b of
        Some file \<Rightarrow> try_bind (tf_write tf file bytes) (\<lambda>file. Inr (b\<lparr>sb_spill := Some file\<rparr>))
      | None \<Rightarrow>
          if length (sb_memory b) + length bytes \<le> sb_threshold b
          then Inr (b\<lparr>sb_memory := sb_memory b @ bytes\<rparr>)
          else
            try_bind (tf_new tf) (\<lambda>file.
            try_bind (tf_write tf file (sb_memory b)) (\<lambda>file.
            try_bind (tf_write tf file bytes) (\<lambda>file.
              Inr (b\<lparr>sb_memory := [], sb_spill := Some file\<rparr>)))))"

definition spill_write :: "temp_files \<Rightarrow> string \<Rightarrow> spill_buffer \<Rightarrow> (nat \<times> spill_buffer) io_result" where
  "spill_write tf bytes b = try_bind (spill_write_all tf bytes b) (\<lambda>b. Inr (length bytes, b))"

definition spill_into_bytes :: "temp_files \<Rightarrow> spill_buffer \<Rightarrow> string io_result" where
  "spill_into_bytes tf b =
     (case sb_spill b of Some file \<Rightarrow> tf_read_back tf file | None \<Rightarrow> Inr (sb_memory b))"

text \<open>A pipe is the results of its successive reads; an empty read is the end of the output.\<close>

fun read_pipe_loop :: "temp_files \<Rightarrow> string io_result list \<Rightarrow> spill_buffer \<Rightarrow> spill_buffer io_result" where
  "read_pipe_loop tf [] b = Inr b"
| "read_pipe_loop tf (Inl error # reads) b = Inl error"
| "read_pipe_loop tf (Inr chunk # reads) b =
     (if chunk = [] then Inr b
      else try_bind (spill_write_all tf chunk b) (read_pipe_loop tf reads))"

definition read_child_pipe :: "temp_files \<Rightarrow> nat \<Rightarrow> string io_result list \<Rightarrow> string io_result" where
  "read_child_pipe tf threshold reads =
     try_bind (read_pipe_loop tf reads (spill_new threshold)) (spill_into_bytes tf)"

section \<open>Commands with collected output (exec/child.rs)\<close>

text \<open>A child that was started: what its pipes deliver and how it ends.\<close>

record child_run =
  cr_stdout :: "string io_result list"
  cr_stderr :: "string io_result list"
  cr_success :: "bool io_result"

record 'w piped_host =
  ph_spawn :: "os_string \<Rightarrow> os_string list \<Rightarrow> path option \<Rightarrow> 'w \<Rightarrow> child_run io_result \<times> 'w"
  ph_temp :: temp_files

definition send_broker_message :: "broker_message \<Rightarrow> 'w brokered \<Rightarrow> unit result \<times> 'w brokered" where
  "send_broker_message msg b =
     (let (sent, b) = broker_send msg b
      in (if sent then Inr () else Inl (diagnostic_new ''internal error: output broker is unavailable'' 1), b))"

definition join_child_reader :: "string io_result \<Rightarrow> string result" where
  "join_child_reader r =
     map_err (\<lambda>e. diagnostic_new (''failed to read exec child output: '' @ io_text e) 1) r"

definition send_unless_empty :: "(string \<Rightarrow> broker_message) \<Rightarrow> string \<Rightarrow> 'w brokered \<Rightarrow> unit result \<times> 'w brokered" where
  "send_unless_empty to_message bytes b =
     (if bytes = [] then (Inr (), b) else send_broker_message (to_message bytes) b)"

definition run_parallel_command ::
  "'w piped_host \<Rightarrow> nat \<Rightarrow> prepared_exec_command \<Rightarrow> 'w brokered \<Rightarrow> bool result \<times> 'w brokered" where
  "run_parallel_command ph spill_threshold cmd b =
     (case cmd_argv cmd of
        [] \<Rightarrow> (Inl missing_command, b)
      | prog # args \<Rightarrow>
          (case on_bk_world (ph_spawn ph prog args (cmd_cwd cmd)) b of
             (Inl error, b) \<Rightarrow>
               then_io (send_broker_message
                   (BmStderr (''rfd: '' @ utf8_lossy prog @ '': '' @ io_text error @ [CHR 0x0A])) b)
                 (\<lambda>_ b. (Inr False, b))
           | (Inr child, b) \<Rightarrow>
               then_io (map_err (\<lambda>e. diagnostic_new (''failed to wait for exec child: '' @ io_text e) 1)
                   (cr_success child), b) (\<lambda>success b.
               then_io (join_child_reader (read_child_pipe (ph_temp ph) spill_threshold (cr_stdout child)), b) (\<lambda>out b.
               then_io (join_child_reader (read_child_pipe (ph_temp ph) spill_threshold (cr_stderr child)), b) (\<lambda>err b.
               then_io (send_unless_empty BmStdout out b) (\<lambda>_ b.
               then_io (send_unless_empty BmStderr err b) (\<lambda>_ b.
                 (Inr success, b))))))))"

definition run_immediate_parallel ::
  "'w piped_host \<Rightarrow> nat \<Rightarrow> immediate_exec_action \<Rightarrow> path \<Rightarrow> 'w brokered \<Rightarrow> bool result \<times> 'w brokered" where
  "run_immediate_parallel ph spill_threshold spec p b =
     run_parallel_command ph spill_threshold (build_immediate_command spec p) b"

definition run_parallel_ready_batch ::
  "'w piped_host \<Rightarrow> nat \<Rightarrow> ready_batch \<Rightarrow> 'w brokered \<Rightarrow> bool result \<times> 'w brokered" where
  "run_parallel_ready_batch ph spill_threshold = run_ready_batch (run_parallel_command ph spill_threshold)"

section \<open>What the buffer and the broker promise\<close>

text \<open>The contents of a buffer, wherever they are.\<close>

definition spill_contents :: "spill_buffer \<Rightarrow> string" where
  "spill_contents b = (case sb_spill b of Some file \<Rightarrow> file | None \<Rightarrow> sb_memory b)"

definition spill_ok :: "spill_buffer \<Rightarrow> bool" where
  "spill_ok b \<longleftrightarrow> length (sb_memory b) \<le> sb_threshold b \<and> (sb_spill b \<noteq> None \<longrightarrow> sb_memory b = [])"

lemma spill_write_all_ok:
  assumes "temp_files_ok tf" "spill_ok b" "spill_write_all tf bytes b = Inr b'"
  shows "spill_contents b' = spill_contents b @ bytes" "spill_ok b'" "sb_threshold b' = sb_threshold b"
    "sb_spill b' = None \<longleftrightarrow> sb_spill b = None \<and> length (spill_contents b) + length bytes \<le> sb_threshold b"
proof -
  have tf: "tf_new tf = Inr s \<Longrightarrow> s = []" "tf_write tf s t = Inr u \<Longrightarrow> u = s @ t" for s t u
    using assms(1) by (auto simp: temp_files_ok_def)
  show "spill_contents b' = spill_contents b @ bytes" "spill_ok b'" "sb_threshold b' = sb_threshold b"
    "sb_spill b' = None \<longleftrightarrow> sb_spill b = None \<and> length (spill_contents b) + length bytes \<le> sb_threshold b"
    using assms(2,3)
    by (auto simp: spill_write_all_def spill_contents_def spill_ok_def try_bind_Inr_iff dest!: tf
        split: option.splits if_splits)
qed

fun pipe_output :: "string io_result list \<Rightarrow> string option" where
  "pipe_output [] = Some []"
| "pipe_output (Inl error # reads) = None"
| "pipe_output (Inr chunk # reads) =
     (if chunk = [] then Some [] else map_option ((@) chunk) (pipe_output reads))"

lemma read_pipe_loop_ok:
  "temp_files_ok tf \<Longrightarrow> spill_ok b \<Longrightarrow> read_pipe_loop tf reads b = Inr b' \<Longrightarrow>
    spill_ok b' \<and> sb_threshold b' = sb_threshold b
    \<and> (\<exists>s. pipe_output reads = Some s \<and> spill_contents b' = spill_contents b @ s)
    \<and> (sb_spill b' = None \<longleftrightarrow> sb_spill b = None \<and> length (spill_contents b') \<le> sb_threshold b)"
proof (induction tf reads b rule: read_pipe_loop.induct)
  case (1 tf b)
  then show ?case by (auto simp: spill_ok_def spill_contents_def split: option.splits)
next
  case (3 tf chunk reads b)
  show ?case
  proof (cases "chunk = []")
    case True
    then show ?thesis using 3 by (auto simp: spill_ok_def spill_contents_def split: option.splits)
  next
    case False
    then obtain b1 where b1: "spill_write_all tf chunk b = Inr b1" and rest: "read_pipe_loop tf reads b1 = Inr b'"
      using 3(4) by (auto simp: try_bind_Inr_iff)
    note w = spill_write_all_ok [OF 3(2,3) b1]
    from 3(1) [OF False b1 3(2) w(2) rest] obtain s where
      s: "spill_ok b'" "sb_threshold b' = sb_threshold b1" "pipe_output reads = Some s"
        "spill_contents b' = spill_contents b1 @ s"
        "sb_spill b' = None \<longleftrightarrow> sb_spill b1 = None \<and> length (spill_contents b') \<le> sb_threshold b1" by auto
    then show ?thesis using w False by auto
  qed
qed simp

text \<open>Temporary files that never fail.\<close>

definition memory_files :: temp_files where
  "memory_files = \<lparr>tf_new = Inr [], tf_write = (\<lambda>s t. Inr (s @ t)), tf_read_back = Inr\<rparr>"

lemma memory_files_ok [simp]: "temp_files_ok memory_files"
  by (simp add: temp_files_ok_def memory_files_def)

lemma spill_ok_new [simp]: "spill_ok (spill_new n)" "spill_contents (spill_new n) = []" "sb_spill (spill_new n) = None"
  "sb_threshold (spill_new n) = n"
  by (simp_all add: spill_new_def spill_ok_def spill_contents_def)

lemma read_child_pipe_gives_output:
  assumes "temp_files_ok tf" "read_child_pipe tf threshold reads = Inr out"
  shows "pipe_output reads = Some out"
proof -
  from assms(2) obtain b where b: "read_pipe_loop tf reads (spill_new threshold) = Inr b"
    and out: "spill_into_bytes tf b = Inr out"
    by (auto simp: read_child_pipe_def try_bind_Inr_iff)
  have "out = spill_contents b"
    using out assms(1) by (auto simp: spill_into_bytes_def spill_contents_def temp_files_ok_def split: option.splits)
  with read_pipe_loop_ok [OF assms(1) spill_ok_new(1) b] show ?thesis by simp
qed

text \<open>
  C16.  What is collected from the pipe of a child is what the child wrote, byte for byte and up
  to the end of its output, whether or not it was moved to a temporary file on the way, and an
  error of a read is never turned into output.
\<close>

theorem child_pipe_collected:
  assumes "temp_files_ok tf" "read_child_pipe tf threshold reads = Inr out"
  shows "pipe_output reads = Some out"
  using assms by (rule read_child_pipe_gives_output)

lemma child_pipe_collected_witness:
  "pipe_output [Inr ''abc'', Inr ''de'', Inr [], Inr ''lost''] = Some ''abcde''"
proof -
  have "read_child_pipe memory_files 4 [Inr ''abc'', Inr ''de'', Inr [], Inr ''lost''] = Inr ''abcde''"
    by code_simp
  from child_pipe_collected [OF memory_files_ok this] show ?thesis .
qed

text \<open>The buffer keeps its bytes in memory exactly as long as they fit the threshold.\<close>

lemma spill_exactly_above_threshold:
  assumes "temp_files_ok tf" "read_pipe_loop tf reads (spill_new threshold) = Inr b"
  shows "sb_spill b = None \<longleftrightarrow> length (spill_contents b) \<le> threshold"
  using read_pipe_loop_ok [OF assms(1) spill_ok_new(1) assms(2)] by simp

text \<open>The bytes of one stream among the messages.\<close>

fun message_out :: "broker_message \<Rightarrow> string" where
  "message_out (BmStdout bytes) = bytes" | "message_out (BmStderr bytes) = []"

fun message_err :: "broker_message \<Rightarrow> string" where
  "message_err (BmStdout bytes) = []" | "message_err (BmStderr bytes) = bytes"

lemma broker_loop_append:
  "broker_loop host (ms @ ms') w = then_io (broker_loop host ms w) (\<lambda>_ w. broker_loop host ms' w)"
proof (induction ms arbitrary: w)
  case (Cons m ms)
  show ?case
    by (cases "write_message host m w"; cases "fst (write_message host m w)") (simp_all add: Cons.IH)
qed simp

text \<open>A message is sent exactly while the broker still receives.\<close>

lemma broker_send_cases:
  "bc_open (bk_channel b) \<Longrightarrow> broker_send msg b =
     (True, b\<lparr>bk_channel := \<lparr>bc_messages = bc_messages (bk_channel b) @ [msg], bc_open = True\<rparr>\<rparr>)"
  "\<not> bc_open (bk_channel b) \<Longrightarrow> broker_send msg b = (False, b)"
  by (simp_all add: broker_send_def)

text \<open>A world that records what is written to each stream.\<close>

lemma broker_loop_records:
  assumes "\<And>bytes out err. h_write_stdout host bytes (out, err) = (Inr (), (out @ bytes, err))"
    and "\<And>bytes out err. h_write_stderr host bytes (out, err) = (Inr (), (out, err @ bytes))"
  shows "broker_loop host ms (out, err) =
     (Inr (), (out @ concat (map message_out ms), err @ concat (map message_err ms)))"
proof (induction ms arbitrary: out err)
  case (Cons m ms)
  then show ?case by (cases m) (simp_all add: assms io_err_def map_err_def)
qed simp

end
