(* ===== verification/Parallel_Core.thy ===== *)
theory Parallel_Core
  imports Walker
begin

text \<open>
  What the threads of a parallel run share, from \<^verbatim>\<open>src/src/parallel\<close>: the flags and the count of
  tasks (\<^verbatim>\<open>control.rs\<close>), tasks (\<^verbatim>\<open>task.rs\<close>), the splitting of a directory into chunks
  (\<^verbatim>\<open>chunking.rs\<close>), the barriers that hold a directory back until its children are done
  (\<^verbatim>\<open>postorder.rs\<close>) and the queues (\<^verbatim>\<open>scheduler.rs\<close>).  Each atomic operation is a function on
  the shared state.
\<close>

section \<open>Flags and counter (control.rs)\<close>

record global_control =
  accept_new_work :: bool
  quit_seen :: bool
  fatal_error_seen :: bool
  outstanding_tasks :: nat

definition control_new :: global_control where
  "control_new =
     \<lparr>accept_new_work = True, quit_seen = False, fatal_error_seen = False, outstanding_tasks = 0\<rparr>"

definition accepts_new_work :: "global_control \<Rightarrow> bool" where
  "accepts_new_work c \<longleftrightarrow> accept_new_work c"

definition request_quit :: "global_control \<Rightarrow> global_control" where
  "request_quit c = c\<lparr>quit_seen := True, accept_new_work := False\<rparr>"

definition request_fatal_stop :: "global_control \<Rightarrow> global_control" where
  "request_fatal_stop c = c\<lparr>fatal_error_seen := True, accept_new_work := False\<rparr>"

text \<open>The counter is a \<^verbatim>\<open>usize\<close>; taking one from zero wraps.\<close>

definition task_spawned :: "global_control \<Rightarrow> global_control" where
  "task_spawned c = c\<lparr>outstanding_tasks := outstanding_tasks c + 1\<rparr>"

definition task_finished :: "global_control \<Rightarrow> global_control" where
  "task_finished c =
     c\<lparr>outstanding_tasks := (if outstanding_tasks c = 0 then 2 ^ 64 - 1 else outstanding_tasks c - 1)\<rparr>"

definition workers_should_exit :: "global_control \<Rightarrow> bool" where
  "workers_should_exit c \<longleftrightarrow> outstanding_tasks c = 0"

section \<open>Tasks (task.rs)\<close>

record pre_order_root_task =
  prt_pending :: pending_path

record post_order_resume_task =
  rt_entry :: entry
  rt_notify_parent :: "subtree_barrier_id option"

record sibling_chunk_task =
  sct_pending :: "pending_path list"
  sct_completion_barrier :: "subtree_barrier_id option"

datatype (plugins only: code size) parallel_task =
    PreOrderRoot pre_order_root_task
  | SiblingChunk sibling_chunk_task
  | PostOrderResume post_order_resume_task

definition pre_order_root_for_path :: "path \<Rightarrow> nat \<Rightarrow> pre_order_root_task" where
  "pre_order_root_for_path p depth =
     \<lparr>prt_pending =
        \<lparr>pp_path = p, pp_root_path = p, pp_depth = depth, pp_is_root = (depth = 0), pp_hint = None,
         pp_ancestry = [], pp_ancestor_barriers = [], pp_root_device = None, pp_parent_completion = None\<rparr>\<rparr>"

lemma pre_order_root_is_root [simp]: "prt_pending (pre_order_root_for_path p 0) = root_pending p"
  by (simp add: pre_order_root_for_path_def root_pending_def)

section \<open>Chunks (chunking.rs)\<close>

record chunk_plan =
  cp_local_stack :: "pending_path list"
  cp_spilled_chunks :: "pending_path list list"

record chunk_accumulator =
  ca_split_threshold :: nat
  ca_chunk_size :: nat
  ca_local_stack :: "pending_path list"
  ca_spill_buffer :: "pending_path list"
  ca_spilled_chunks :: "pending_path list list"

definition default_split_child_threshold :: nat where
  "default_split_child_threshold = 32"

definition default_spill_chunk_size :: nat where
  "default_spill_chunk_size = 32"

definition chunks_new :: "nat \<Rightarrow> nat \<Rightarrow> chunk_accumulator" where
  "chunks_new split_threshold chunk_size =
     \<lparr>ca_split_threshold = split_threshold, ca_chunk_size = max chunk_size 1,
      ca_local_stack = [], ca_spill_buffer = [], ca_spilled_chunks = []\<rparr>"

definition chunks_push :: "pending_path \<Rightarrow> bool \<Rightarrow> chunk_accumulator \<Rightarrow> chunk_accumulator" where
  "chunks_push child may_split acc =
     (if \<not> may_split \<or> length (ca_local_stack acc) < ca_split_threshold acc
      then acc\<lparr>ca_local_stack := ca_local_stack acc @ [child]\<rparr>
      else
        (let buffer = ca_spill_buffer acc @ [child] in
         if length buffer \<ge> ca_chunk_size acc
         then acc\<lparr>ca_spill_buffer := [], ca_spilled_chunks := ca_spilled_chunks acc @ [buffer]\<rparr>
         else acc\<lparr>ca_spill_buffer := buffer\<rparr>))"

definition chunks_observe_quit :: "chunk_accumulator \<Rightarrow> chunk_accumulator" where
  "chunks_observe_quit acc =
     acc\<lparr>ca_local_stack := ca_local_stack acc @ concat (ca_spilled_chunks acc) @ ca_spill_buffer acc,
         ca_spill_buffer := [], ca_spilled_chunks := []\<rparr>"

definition take_spilled_chunks :: "chunk_accumulator \<Rightarrow> pending_path list list \<times> chunk_accumulator" where
  "take_spilled_chunks acc = (ca_spilled_chunks acc, acc\<lparr>ca_spilled_chunks := []\<rparr>)"

definition chunks_finish :: "chunk_accumulator \<Rightarrow> chunk_plan" where
  "chunks_finish acc =
     \<lparr>cp_local_stack = ca_local_stack acc,
      cp_spilled_chunks = ca_spilled_chunks acc @ (if ca_spill_buffer acc = [] then [] else [ca_spill_buffer acc])\<rparr>"

text \<open>The children an accumulator holds.\<close>

definition chunk_children :: "chunk_accumulator \<Rightarrow> pending_path multiset" where
  "chunk_children acc =
     mset (ca_local_stack acc) + mset (ca_spill_buffer acc) + mset (concat (ca_spilled_chunks acc))"

definition plan_children :: "chunk_plan \<Rightarrow> pending_path multiset" where
  "plan_children pl = mset (cp_local_stack pl) + mset (concat (cp_spilled_chunks pl))"

definition chunks_ok :: "chunk_accumulator \<Rightarrow> bool" where
  "chunks_ok acc \<longleftrightarrow> length (ca_spill_buffer acc) < ca_chunk_size acc
     \<and> (\<forall>chunk\<in>set (ca_spilled_chunks acc). length chunk = ca_chunk_size acc)"

lemma chunks_new_ok [simp]: "chunks_ok (chunks_new t n)" "chunk_children (chunks_new t n) = {#}"
  "ca_chunk_size (chunks_new t n) = max n 1" "ca_split_threshold (chunks_new t n) = t"
  "ca_local_stack (chunks_new t n) = []"
  by (simp_all add: chunks_new_def chunks_ok_def chunk_children_def)

lemma chunks_push_ok:
  assumes "chunks_ok acc"
  shows "chunks_ok (chunks_push child may acc)"
    "chunk_children (chunks_push child may acc) = add_mset child (chunk_children acc)"
    "ca_chunk_size (chunks_push child may acc) = ca_chunk_size acc"
    "ca_split_threshold (chunks_push child may acc) = ca_split_threshold acc"
  using assms by (auto simp: chunks_push_def chunks_ok_def chunk_children_def Let_def)

lemma chunks_take_ok:
  assumes "chunks_ok acc" "take_spilled_chunks acc = (chunks, acc')"
  shows "chunks_ok acc'" "chunk_children acc = mset (concat chunks) + chunk_children acc'"
    "\<forall>chunk\<in>set chunks. length chunk = ca_chunk_size acc" "ca_chunk_size acc' = ca_chunk_size acc"
    "ca_split_threshold acc' = ca_split_threshold acc" "ca_local_stack acc' = ca_local_stack acc"
  using assms by (auto simp: take_spilled_chunks_def chunks_ok_def chunk_children_def)

lemma chunks_quit_ok:
  assumes "chunks_ok acc"
  shows "chunks_ok (chunks_observe_quit acc)" "chunk_children (chunks_observe_quit acc) = chunk_children acc"
    "cp_spilled_chunks (chunks_finish (chunks_observe_quit acc)) = []"
  using assms by (auto simp: chunks_observe_quit_def chunks_ok_def chunk_children_def chunks_finish_def)

lemma chunks_finish_ok:
  assumes "chunks_ok acc"
  shows "plan_children (chunks_finish acc) = chunk_children acc"
    "\<forall>chunk\<in>set (cp_spilled_chunks (chunks_finish acc)). chunk \<noteq> [] \<and> length chunk \<le> ca_chunk_size acc"
  using assms by (auto simp: chunks_finish_def chunks_ok_def chunk_children_def plan_children_def)

text \<open>
  Reading a directory: each child is pushed with the answer of the flag at that moment, and the
  chunks that are ready are taken when \<open>publish\<close> says so.
\<close>

fun collect_chunks ::
  "(pending_path \<times> bool \<times> bool) list \<Rightarrow> chunk_accumulator \<Rightarrow> pending_path list list \<Rightarrow>
   pending_path list list \<times> chunk_accumulator" where
  "collect_chunks [] acc published = (published, acc)"
| "collect_chunks ((child, may_split, publish) # events) acc published =
     (let acc = chunks_push child may_split acc in
      if publish then
        (let (chunks, acc) = take_spilled_chunks acc in collect_chunks events acc (published @ chunks))
      else collect_chunks events acc published)"

lemma collect_chunks_ok:
  assumes "chunks_ok acc" "collect_chunks events acc published = (published', acc')"
  shows "chunks_ok acc' \<and> ca_chunk_size acc' = ca_chunk_size acc
    \<and> mset (concat published') + chunk_children acc'
       = mset (concat published) + chunk_children acc + mset (map fst events)
    \<and> set published' \<subseteq> set published \<union> {chunk. length chunk = ca_chunk_size acc}"
  using assms
proof (induction events acc published rule: collect_chunks.induct)
  case (2 child may publish events acc published)
  note push = chunks_push_ok [OF 2(3), of child may]
  show ?case
  proof (cases publish)
    case True
    obtain chunks acc1 where take: "take_spilled_chunks (chunks_push child may acc) = (chunks, acc1)" by fastforce
    note t = chunks_take_ok [OF push(1) take]
    from 2(1) [OF refl True take [symmetric] refl t(1)] 2(4) True take show ?thesis
      using t push by (auto simp: Let_def)
  next
    case False
    from 2(2) [OF refl False push(1)] 2(4) False show ?thesis
      using push by (auto simp: Let_def)
  qed
qed simp

text \<open>
  C14.  Splitting a directory loses no child and repeats none: however the flag answers while the
  directory is read and whenever ready chunks are published, the published chunks, the local
  stack and the chunks left at the end together are the children pushed, each as often.  A
  published chunk is never empty and no chunk is longer than the chunk size.
\<close>

theorem chunks_partition_children:
  assumes "collect_chunks events (chunks_new threshold chunk_size) [] = (published, acc)"
  shows "mset (concat published) + plan_children (chunks_finish acc) = mset (map fst events)
    \<and> (\<forall>chunk\<in>set (published @ cp_spilled_chunks (chunks_finish acc)).
         chunk \<noteq> [] \<and> length chunk \<le> max chunk_size 1)"
proof -
  from collect_chunks_ok [OF chunks_new_ok(1) assms] have
    "chunks_ok acc" "ca_chunk_size acc = max chunk_size 1"
    "mset (concat published) + chunk_children acc = mset (map fst events)"
    "set published \<subseteq> {chunk. length chunk = max chunk_size 1}" by auto
  with chunks_finish_ok [of acc] show ?thesis by (auto simp: max_def split: if_splits)
qed

lemma chunks_partition_children_witness:
  "length (concat (cp_spilled_chunks (chunks_finish (snd (collect_chunks
     (map (\<lambda>n. (root_pending (replicate n (CHR ''d'')), True, False)) [0..<7]) (chunks_new 4 2) []))))) = 3"
proof -
  let ?events = "map (\<lambda>n. (root_pending (replicate n (CHR ''d'')), True, False)) [0..<7]"
  obtain published acc where c: "collect_chunks ?events (chunks_new 4 2) [] = (published, acc)" by fastforce
  have "published = [] \<and> length (cp_local_stack (chunks_finish acc)) = 4"
    using c by (auto simp: upt_rec chunks_new_def chunks_push_def chunks_finish_def)
  moreover from chunks_partition_children [OF c]
  have "size (mset (concat published) + plan_children (chunks_finish acc)) = 7" by simp
  ultimately show ?thesis using c by (simp add: plan_children_def)
qed

section \<open>Barriers (postorder.rs)\<close>

datatype (plugins only: code size) barrier_record =
    BarrierDirectory entry nat "subtree_barrier_id option"
  | BarrierBatch nat subtree_barrier_id

datatype (plugins only: code size) barrier_release =
    ReleaseResume post_order_resume_task
  | ReleaseNotifyParent subtree_barrier_id

record barrier_table =
  bt_next_id :: nat
  bt_records :: "subtree_barrier_id \<Rightarrow> barrier_record option"

definition barriers_new :: barrier_table where
  "barriers_new = \<lparr>bt_next_id = 0, bt_records = (\<lambda>_. None)\<rparr>"

definition begin_directory ::
  "entry \<Rightarrow> nat \<Rightarrow> subtree_barrier_id option \<Rightarrow> barrier_table \<Rightarrow> subtree_barrier_id \<times> barrier_table" where
  "begin_directory e spilled_children notify_parent t =
     (let barrier = SubtreeBarrierId (bt_next_id t) in
      (barrier, t\<lparr>bt_next_id := bt_next_id t + 1,
                  bt_records := (bt_records t)(barrier \<mapsto> BarrierDirectory e spilled_children notify_parent)\<rparr>))"

definition begin_batch ::
  "nat \<Rightarrow> subtree_barrier_id \<Rightarrow> barrier_table \<Rightarrow> subtree_barrier_id \<times> barrier_table" where
  "begin_batch roots notify_parent t =
     (let barrier = SubtreeBarrierId (bt_next_id t) in
      (barrier, t\<lparr>bt_next_id := bt_next_id t + 1,
                  bt_records := (bt_records t)(barrier \<mapsto> BarrierBatch roots notify_parent)\<rparr>))"

definition finish_spilled_chunk ::
  "subtree_barrier_id \<Rightarrow> barrier_table \<Rightarrow> barrier_release option \<times> barrier_table" where
  "finish_spilled_chunk barrier t =
     (case bt_records t barrier of
        None \<Rightarrow> (None, t)
      | Some (BarrierDirectory e units notify_parent) \<Rightarrow>
          if units > 1
          then (None, t\<lparr>bt_records := (bt_records t)(barrier \<mapsto> BarrierDirectory e (units - 1) notify_parent)\<rparr>)
          else (Some (ReleaseResume \<lparr>rt_entry = e, rt_notify_parent = notify_parent\<rparr>),
                t\<lparr>bt_records := (bt_records t)(barrier := None)\<rparr>)
      | Some (BarrierBatch units notify_parent) \<Rightarrow>
          if units > 1
          then (None, t\<lparr>bt_records := (bt_records t)(barrier \<mapsto> BarrierBatch (units - 1) notify_parent)\<rparr>)
          else (Some (ReleaseNotifyParent notify_parent), t\<lparr>bt_records := (bt_records t)(barrier := None)\<rparr>))"

text \<open>Finishing several units one after the other, with the releases in order.\<close>

fun finish_units :: "nat \<Rightarrow> subtree_barrier_id \<Rightarrow> barrier_table \<Rightarrow> barrier_release list \<times> barrier_table" where
  "finish_units 0 barrier t = ([], t)"
| "finish_units (Suc n) barrier t =
     (let (release, t) = finish_spilled_chunk barrier t;
          (releases, t) = finish_units n barrier t
      in ((case release of None \<Rightarrow> releases | Some r \<Rightarrow> r # releases), t))"

lemma finish_units_gone: "bt_records t barrier = None \<Longrightarrow> finish_units n barrier t = ([], t)"
  by (induction n) (simp_all add: finish_spilled_chunk_def)

lemma finish_units_directory:
  "bt_records t barrier = Some (BarrierDirectory e k notify) \<Longrightarrow> k \<ge> 1 \<Longrightarrow>
   finish_units n barrier t =
     (if n < k
      then ([], t\<lparr>bt_records := (bt_records t)(barrier \<mapsto> BarrierDirectory e (k - n) notify)\<rparr>)
      else ([ReleaseResume \<lparr>rt_entry = e, rt_notify_parent = notify\<rparr>],
            t\<lparr>bt_records := (bt_records t)(barrier := None)\<rparr>))"
proof (induction n arbitrary: t k)
  case 0
  then show ?case by (cases t) (simp add: fun_upd_idem)
next
  case (Suc n)
  show ?case
  proof (cases "k > 1")
    case True
    let ?t = "t\<lparr>bt_records := (bt_records t)(barrier \<mapsto> BarrierDirectory e (k - 1) notify)\<rparr>"
    from Suc.IH [of ?t "k - 1"] True
    show ?thesis using Suc.prems by (auto simp: finish_spilled_chunk_def)
  next
    case False
    with Suc.prems have "k = 1" by simp
    with Suc.prems show ?thesis by (simp add: finish_spilled_chunk_def finish_units_gone)
  qed
qed

text \<open>
  C13.  A directory that waits for some units of its children is resumed by the last of them and
  by no other: after fewer units nothing has been released, after that many and after any
  further ones it has been released once, with its entry and its parent, and the barrier is gone.
\<close>

theorem directory_released_by_last_unit:
  assumes "begin_directory e k notify t = (barrier, t')" "k \<ge> 1"
  shows "fst (finish_units n barrier t') =
     (if n < k then [] else [ReleaseResume \<lparr>rt_entry = e, rt_notify_parent = notify\<rparr>])"
proof -
  have "bt_records t' barrier = Some (BarrierDirectory e k notify)"
    using assms(1) by (auto simp: begin_directory_def Let_def)
  from finish_units_directory [OF this assms(2), of n] show ?thesis by simp
qed

lemma directory_released_by_last_unit_witness:
  "fst (finish_units 3 (SubtreeBarrierId 0)
     (snd (begin_directory (entry_new sample_reader ''d'' 0 True) 2 (Some (SubtreeBarrierId 9)) barriers_new)))
   = [ReleaseResume \<lparr>rt_entry = entry_new sample_reader ''d'' 0 True, rt_notify_parent = Some (SubtreeBarrierId 9)\<rparr>]"
proof -
  have "begin_directory (entry_new sample_reader ''d'' 0 True) 2 (Some (SubtreeBarrierId 9)) barriers_new
      = (SubtreeBarrierId 0, snd (begin_directory (entry_new sample_reader ''d'' 0 True) 2 (Some (SubtreeBarrierId 9)) barriers_new))"
    by (simp add: begin_directory_def barriers_new_def Let_def)
  from directory_released_by_last_unit [OF this, of 3] show ?thesis by simp
qed

text \<open>Barriers are numbered upwards, so a new one is never in use.\<close>

definition barriers_ok :: "barrier_table \<Rightarrow> bool" where
  "barriers_ok t \<longleftrightarrow> (\<forall>k r. bt_records t (SubtreeBarrierId k) = Some r \<longrightarrow> k < bt_next_id t)"

lemma barriers_ok_new [simp]: "barriers_ok barriers_new"
  by (simp add: barriers_ok_def barriers_new_def)

lemma barriers_ok_fresh: "barriers_ok t \<Longrightarrow> bt_records t (SubtreeBarrierId (bt_next_id t)) = None"
  by (cases "bt_records t (SubtreeBarrierId (bt_next_id t))") (auto simp: barriers_ok_def)

lemma barriers_ok_directory: "barriers_ok t \<Longrightarrow> barriers_ok (snd (begin_directory e k notify t))"
  by (auto simp: barriers_ok_def begin_directory_def Let_def intro: less_SucI)

lemma barriers_ok_batch: "barriers_ok t \<Longrightarrow> barriers_ok (snd (begin_batch k notify t))"
  by (auto simp: barriers_ok_def begin_batch_def Let_def intro: less_SucI)

lemma barriers_ok_finish: "barriers_ok t \<Longrightarrow> barriers_ok (snd (finish_spilled_chunk b t))"
  by (auto simp: barriers_ok_def finish_spilled_chunk_def split: option.splits barrier_record.splits)

section \<open>Queues (scheduler.rs)\<close>

text \<open>
  The queue of the run and one queue per worker; the queues come from a library.  A worker takes
  the front of its own queue.  When that is empty it takes the front of the queue of the run and
  may move some further tasks over, or it takes the front of another worker's queue; a steal may
  also come back empty-handed, so which of these happens is a choice.
\<close>

record task_queues =
  tq_injector :: "parallel_task list"
  tq_locals :: "parallel_task list list"

definition queues_new :: "nat \<Rightarrow> task_queues" where
  "queues_new workers = \<lparr>tq_injector = [], tq_locals = replicate workers []\<rparr>"

definition push_inject :: "parallel_task \<Rightarrow> global_control \<Rightarrow> task_queues \<Rightarrow> global_control \<times> task_queues" where
  "push_inject task c q =
     (if \<not> accepts_new_work c then (c, q)
      else (task_spawned c, q\<lparr>tq_injector := tq_injector q @ [task]\<rparr>))"

definition push_local ::
  "nat \<Rightarrow> parallel_task \<Rightarrow> global_control \<Rightarrow> task_queues \<Rightarrow> global_control \<times> task_queues" where
  "push_local i task c q =
     (if \<not> accepts_new_work c then (c, q)
      else (task_spawned c, q\<lparr>tq_locals := (tq_locals q)[i := tq_locals q ! i @ [task]]\<rparr>))"

fun push_all_local ::
  "nat \<Rightarrow> parallel_task list \<Rightarrow> global_control \<Rightarrow> task_queues \<Rightarrow> global_control \<times> task_queues" where
  "push_all_local i [] c q = (c, q)"
| "push_all_local i (task # tasks) c q =
     (let (c, q) = push_local i task c q in push_all_local i tasks c q)"

datatype steal_choice = TakeLocal | TakeInjected nat | TakeFrom nat

definition pop_task :: "nat \<Rightarrow> steal_choice \<Rightarrow> task_queues \<Rightarrow> (parallel_task \<times> task_queues) option" where
  "pop_task i choice q =
     (case tq_locals q ! i of
        task # rest \<Rightarrow>
          if choice = TakeLocal then Some (task, q\<lparr>tq_locals := (tq_locals q)[i := rest]\<rparr>) else None
      | [] \<Rightarrow>
          (case choice of
             TakeLocal \<Rightarrow> None
           | TakeInjected batch \<Rightarrow>
               (case tq_injector q of
                  [] \<Rightarrow> None
                | task # rest \<Rightarrow>
                    Some (task, q\<lparr>tq_injector := drop batch rest,
                                  tq_locals := (tq_locals q)[i := take batch rest]\<rparr>))
           | TakeFrom peer \<Rightarrow>
               if peer = i \<or> peer \<ge> length (tq_locals q) then None
               else
                 (case tq_locals q ! peer of
                    [] \<Rightarrow> None
                  | task # rest \<Rightarrow> Some (task, q\<lparr>tq_locals := (tq_locals q)[peer := rest]\<rparr>))))"

definition queued :: "task_queues \<Rightarrow> parallel_task multiset" where
  "queued q = mset (tq_injector q) + sum_list (map mset (tq_locals q))"

lemma sum_list_mset_update:
  "i < length xss \<Longrightarrow> sum_list (map mset (xss[i := ys])) + mset (xss ! i) = sum_list (map mset xss) + mset ys"
proof (induction xss arbitrary: i)
  case (Cons xs xss)
  show ?case
  proof (cases i)
    case (Suc j)
    with Cons.IH [of j] Cons.prems show ?thesis by (simp add: ac_simps)
  qed (simp add: ac_simps)
qed simp

lemma queued_update:
  assumes "i < length (tq_locals q)"
  shows "queued (q\<lparr>tq_locals := (tq_locals q)[i := ys]\<rparr>) + mset (tq_locals q ! i) = queued q + mset ys"
  using sum_list_mset_update [OF assms, of ys] by (simp add: queued_def ac_simps)

lemma queued_push_inject:
  "push_inject task c q = (c', q') \<Longrightarrow> accepts_new_work c \<Longrightarrow>
     queued q' = add_mset task (queued q) \<and> outstanding_tasks c' = outstanding_tasks c + 1
     \<and> length (tq_locals q') = length (tq_locals q)"
  by (auto simp: push_inject_def queued_def task_spawned_def)

lemma push_local_refused: "\<not> accepts_new_work c \<Longrightarrow> push_local i task c q = (c, q)"
  by (simp add: push_local_def)

lemma queued_push_local:
  assumes "i < length (tq_locals q)" "push_local i task c q = (c', q')"
  shows "queued q' = queued q + (if accepts_new_work c then {#task#} else {#})"
    "outstanding_tasks c' = outstanding_tasks c + (if accepts_new_work c then 1 else 0)"
    "length (tq_locals q') = length (tq_locals q)"
    "c'\<lparr>outstanding_tasks := 0\<rparr> = c\<lparr>outstanding_tasks := 0\<rparr>"
proof -
  have "queued (q\<lparr>tq_locals := (tq_locals q)[i := tq_locals q ! i @ [task]]\<rparr>) = add_mset task (queued q)"
    using queued_update [OF assms(1), of "tq_locals q ! i @ [task]"] by (simp add: ac_simps)
  then show "queued q' = queued q + (if accepts_new_work c then {#task#} else {#})"
    "outstanding_tasks c' = outstanding_tasks c + (if accepts_new_work c then 1 else 0)"
    "length (tq_locals q') = length (tq_locals q)"
    "c'\<lparr>outstanding_tasks := 0\<rparr> = c\<lparr>outstanding_tasks := 0\<rparr>"
    using assms(2) by (auto simp: push_local_def task_spawned_def split: if_splits)
qed

lemma queued_push_all:
  "i < length (tq_locals q) \<Longrightarrow> push_all_local i tasks c q = (c', q') \<Longrightarrow>
     queued q' = queued q + (if accepts_new_work c then mset tasks else {#})
     \<and> outstanding_tasks c' = outstanding_tasks c + (if accepts_new_work c then length tasks else 0)
     \<and> length (tq_locals q') = length (tq_locals q)
     \<and> c'\<lparr>outstanding_tasks := 0\<rparr> = c\<lparr>outstanding_tasks := 0\<rparr>"
proof (induction tasks arbitrary: c q)
  case (Cons task tasks)
  obtain c1 q1 where p: "push_local i task c q = (c1, q1)" by fastforce
  note l = queued_push_local [OF Cons.prems(1) p]
  have same: "accepts_new_work c1 = accepts_new_work c"
    using p by (auto simp: push_local_def accepts_new_work_def task_spawned_def split: if_splits)
  from Cons.IH [of q1 c1] Cons.prems p l same show ?case by (auto simp: Let_def)
qed simp

lemma pop_task_queued:
  assumes "i < length (tq_locals q)" "pop_task i choice q = Some (task, q')"
  shows "queued q = add_mset task (queued q') \<and> length (tq_locals q') = length (tq_locals q)"
proof (cases "tq_locals q ! i")
  case (Cons t rest)
  then have "task = t" "q' = q\<lparr>tq_locals := (tq_locals q)[i := rest]\<rparr>"
    using assms(2) by (auto simp: pop_task_def split: if_splits)
  with queued_update [OF assms(1), of rest] Cons show ?thesis by (simp add: ac_simps)
next
  case Nil
  show ?thesis
  proof (cases choice)
    case (TakeInjected batch)
    with Nil assms(2) obtain rest where inj: "tq_injector q = task # rest"
      and q': "q' = q\<lparr>tq_injector := drop batch rest, tq_locals := (tq_locals q)[i := take batch rest]\<rparr>"
      by (auto simp: pop_task_def split: list.splits)
    have "mset rest = mset (take batch rest) + mset (drop batch rest)"
      by (metis append_take_drop_id mset_append)
    with sum_list_mset_update [OF assms(1), of "take batch rest"] show ?thesis
      by (simp add: q' inj queued_def Nil ac_simps)
  next
    case (TakeFrom peer)
    with Nil assms(2) obtain rest where peer: "peer < length (tq_locals q)" "tq_locals q ! peer = task # rest"
      and q': "q' = q\<lparr>tq_locals := (tq_locals q)[peer := rest]\<rparr>"
      by (auto simp: pop_task_def split: list.splits if_splits)
    with queued_update [OF peer(1), of rest] show ?thesis by (simp add: ac_simps)
  qed (use Nil assms(2) in \<open>simp add: pop_task_def\<close>)
qed

text \<open>Whenever some task is queued, a worker can get one.\<close>

lemma pop_task_available:
  assumes "i < length (tq_locals q)" "queued q \<noteq> {#}"
  shows "\<exists>choice r. pop_task i choice q = Some r"
proof (cases "tq_locals q ! i")
  case (Cons t rest)
  then show ?thesis by (intro exI [of _ TakeLocal]) (simp add: pop_task_def)
next
  case Nil
  show ?thesis
  proof (cases "tq_injector q")
    case (Cons t rest)
    then show ?thesis using Nil by (intro exI [of _ "TakeInjected 0"]) (simp add: pop_task_def)
  next
    case inj: Nil
    have "\<exists>peer<length (tq_locals q). tq_locals q ! peer \<noteq> []"
    proof (rule ccontr)
      assume "\<not> ?thesis"
      then have "\<forall>xs\<in>set (tq_locals q). xs = []" by (auto simp: in_set_conv_nth)
      then have "map mset (tq_locals q) = map (\<lambda>_. {#}) (tq_locals q)" by simp
      then have "sum_list (map mset (tq_locals q)) = {#}" by (simp only: sum_list_0)
      with inj assms(2) show False by (simp add: queued_def)
    qed
    then obtain peer t rest where "peer < length (tq_locals q)" "tq_locals q ! peer = t # rest"
      by (metis neq_Nil_conv)
    then show ?thesis using Nil by (intro exI [of _ "TakeFrom peer"]) (auto simp: pop_task_def)
  qed
qed

lemma queued_new [simp]: "queued (queues_new n) = {#}" "length (tq_locals (queues_new n)) = n"
proof -
  have "sum_list (replicate n {#}) = {#}" by (induction n) simp_all
  then show "queued (queues_new n) = {#}" by (simp add: queues_new_def queued_def)
  show "length (tq_locals (queues_new n)) = n" by (simp add: queues_new_def)
qed

end
