(* ===== verification/Worker_Sink.thy ===== *)
theory Worker_Sink
  imports Broker Parallel_Core Ordered_Engine
begin

text \<open>
  The sinks of parallel runs: the one of a worker in \<^verbatim>\<open>src/src/parallel/worker.rs\<close>, whose batches
  are those of \<^verbatim>\<open>src/src/parallel/batch.rs\<close>, and the shared one of \<^verbatim>\<open>src/src/exec/parallel.rs\<close>.  Both
  write through the broker's channel and run commands with collected output.
\<close>

section \<open>The worker's sink (parallel/worker.rs)\<close>

definition default_spill_threshold :: nat where
  "default_spill_threshold = 64 * 1024"

record 'w worker_sink =
  ws_control :: global_control
  ws_files :: nat
  ws_batches :: "'w brokered worker_batches"
  ws_prompt :: messages_locale

definition worker_sink_new ::
  "global_control \<Rightarrow> 'w brokered \<Rightarrow> nat \<Rightarrow> messages_locale \<Rightarrow> nat \<Rightarrow> 'w worker_sink" where
  "worker_sink_new c b files prompt limit_bytes =
     \<lparr>ws_control = c, ws_files = files,
      ws_batches = \<lparr>wb_pending = bt_empty, wb_limit = limit_bytes, wb_world = b\<rparr>, ws_prompt = prompt\<rparr>"

definition on_brokered :: "('w brokered \<Rightarrow> 'a \<times> 'w brokered) \<Rightarrow> 'w worker_sink \<Rightarrow> 'a \<times> 'w worker_sink" where
  "on_brokered f s =
     (let (r, b) = f (wb_world (ws_batches s)) in (r, s\<lparr>ws_batches := (ws_batches s)\<lparr>wb_world := b\<rparr>\<rparr>))"

definition worker_send :: "broker_message \<Rightarrow> 'w worker_sink \<Rightarrow> unit result \<times> 'w worker_sink" where
  "worker_send msg s =
     (let (sent, s) = on_brokered (broker_send msg) s
      in (if sent then Inr () else Inl (internal_unavailable ''v2 broker''), s))"

definition emit_runtime_error :: "diagnostic \<Rightarrow> 'w worker_sink \<Rightarrow> unit result \<times> 'w worker_sink" where
  "emit_runtime_error error s = worker_send (BmStderr (runtime_stderr_line (message error))) s"

definition worker_batch_status :: "bool result \<Rightarrow> runtime_status result" where
  "worker_batch_status r = map_sum id (\<lambda>failed. if failed then action_failure_status else default_status) r"

definition worker_sink_enqueue ::
  "'w piped_host \<Rightarrow> batched_exec_action \<Rightarrow> path \<Rightarrow> 'w worker_sink \<Rightarrow> runtime_status result \<times> 'w worker_sink" where
  "worker_sink_enqueue ph spec p s =
     (let (r, b) = worker_enqueue (run_parallel_ready_batch ph default_spill_threshold) spec p (ws_batches s)
      in (worker_batch_status r, s\<lparr>ws_batches := b\<rparr>))"

definition worker_flush :: "'w piped_host \<Rightarrow> 'w worker_sink \<Rightarrow> runtime_status result \<times> 'w worker_sink" where
  "worker_flush ph s =
     (let (r, b) = worker_flush_all (run_parallel_ready_batch ph default_spill_threshold) (ws_batches s)
      in (worker_batch_status r, s\<lparr>ws_batches := b\<rparr>))"

definition run_immediate ::
  "'w piped_host \<Rightarrow> immediate_exec_action \<Rightarrow> path \<Rightarrow> 'w worker_sink \<Rightarrow> outcome result \<times> 'w worker_sink" where
  "run_immediate ph spec p s =
     then_io (on_brokered (run_immediate_parallel ph default_spill_threshold spec p) s) (\<lambda>ok s.
       (Inr (outcome_new ok), s))"

text \<open>The prompt and a confirmed command use the terminal and not the channel.\<close>

definition run_prompted ::
  "'w host \<Rightarrow> immediate_exec_action \<Rightarrow> path \<Rightarrow> 'w worker_sink \<Rightarrow> outcome result \<times> 'w worker_sink" where
  "run_prompted host spec p s =
     (let prompt_argv = render_prompt_argv spec p;
          prepared = build_immediate_command spec p
      in case on_brokered (on_bk_world (confirm_prepared host (ws_prompt s) prompt_argv prepared
                (run_prepared_inherited host))) s of
           (Inr (Accepted True), s) \<Rightarrow> (Inr (outcome_new True), s)
         | (Inr (Accepted False), s) \<Rightarrow> (Inr (action_failure False), s)
         | (Inr Rejected, s) \<Rightarrow> (Inr (outcome_new False), s)
         | (Inl error, s) \<Rightarrow>
             then_io (emit_runtime_error error s) (\<lambda>_ s. (Inr (action_failure False), s)))"

definition delete_now :: "'w host \<Rightarrow> path \<Rightarrow> 'w worker_sink \<Rightarrow> outcome result \<times> 'w worker_sink" where
  "delete_now host p s =
     (case on_brokered (on_bk_world (delete_path host p)) s of
        (Inr result, s) \<Rightarrow> (Inr (outcome_new result), s)
      | (Inl error, s) \<Rightarrow>
          then_io (worker_send (BmStderr (runtime_stderr_line (message error))) s) (\<lambda>_ s.
            (Inr (action_failure False), s)))"

fun worker_action ::
  "'w host \<Rightarrow> 'w piped_host \<Rightarrow> runtime_action \<Rightarrow> entry \<Rightarrow> 'w worker_sink \<Rightarrow> outcome result \<times> 'w worker_sink" where
  "worker_action host ph RaQuit e s = (Inr outcome_quit, s\<lparr>ws_control := request_quit (ws_control s)\<rparr>)"
| "worker_action host ph (RaExecImmediate spec) e s = run_immediate ph spec (entry_path e) s"
| "worker_action host ph (RaExecPrompt spec) e s = run_prompted host spec (entry_path e) s"
| "worker_action host ph (RaExecBatched spec) e s =
     then_io (worker_sink_enqueue ph spec (entry_path e) s) (\<lambda>status s.
       (Inr \<lparr>matched = True, status = status\<rparr>, s))"
| "worker_action host ph RaDelete e s = delete_now host (entry_path e) s"
| "worker_action host ph _ e s =
     (Inl (panic ''rendered runtime action must have been handled already''), s)"

definition worker_rendered ::
  "'w host \<Rightarrow> rendered_action \<Rightarrow> 'w worker_sink \<Rightarrow> unit result \<times> 'w worker_sink" where
  "worker_rendered host rendered s =
     (case rendered of
        RenderedStdout bytes \<Rightarrow> worker_send (BmStdout bytes) s
      | RenderedFile destination bytes \<Rightarrow>
          on_brokered (on_bk_world (write_record host (ws_files s) destination bytes)) s)"

definition worker_dispatch ::
  "'rx services \<Rightarrow> eval_context \<Rightarrow> 'w host \<Rightarrow> 'w piped_host \<Rightarrow> runtime_action \<Rightarrow> entry \<Rightarrow> follow_mode \<Rightarrow>
   'w worker_sink \<Rightarrow> outcome result \<times> 'w worker_sink" where
  "worker_dispatch sv ctx host ph a e m s =
     (case render_action_output sv ctx a e m of
        Inl err \<Rightarrow> (Inl err, s)
      | Inr (Some rendered) \<Rightarrow> then_io (worker_rendered host rendered s) (\<lambda>_ s. (Inr (outcome_new True), s))
      | Inr None \<Rightarrow> worker_action host ph a e s)"

definition process_entry_preorder_fast_path ::
  "'rx services \<Rightarrow> eval_context \<Rightarrow> 'w host \<Rightarrow> 'w piped_host \<Rightarrow> 'rx execution_plan \<Rightarrow> entry \<Rightarrow> 'w worker_sink \<Rightarrow>
   runtime_status result \<times> 'w worker_sink" where
  "process_entry_preorder_fast_path sv ctx host ph plan e s =
     then_io (evaluate_outcome (evaluate_predicate sv ctx) (worker_dispatch sv ctx host ph)
         (plan_expr plan) e (plan_follow_mode plan) s)
       (\<lambda>out s. (Inr (status out), s))"

section \<open>The shared sink (exec/parallel.rs)\<close>

text \<open>
  This sink belongs to the library's interface; a run of the program uses the worker's.  Its
  batches are keyed by the batch alone and not by the directory.
\<close>

record 'w parallel_sink =
  ps_pending :: "(exec_batch_id, pending_batch) btree"
  ps_limit :: nat
  ps_had_failures :: bool
  ps_threshold :: nat
  ps_prompt :: messages_locale
  ps_brokered :: "'w brokered"

definition parallel_sink_new :: "nat \<Rightarrow> 'w brokered \<Rightarrow> 'w parallel_sink" where
  "parallel_sink_new limit_bytes b =
     \<lparr>ps_pending = bt_empty, ps_limit = limit_bytes, ps_had_failures = False,
      ps_threshold = default_spill_threshold, ps_prompt = default_messages_locale, ps_brokered = b\<rparr>"

definition on_ps :: "('w brokered \<Rightarrow> 'a \<times> 'w brokered) \<Rightarrow> 'w parallel_sink \<Rightarrow> 'a \<times> 'w parallel_sink" where
  "on_ps f s = (let (r, b) = f (ps_brokered s) in (r, s\<lparr>ps_brokered := b\<rparr>))"

definition mark_action_failure :: "'w parallel_sink \<Rightarrow> 'w parallel_sink" where
  "mark_action_failure s = s\<lparr>ps_had_failures := True\<rparr>"

text \<open>A batch that is run, and the status it merges into.\<close>

definition run_ps_batch ::
  "'w piped_host \<Rightarrow> ready_batch \<Rightarrow> runtime_status \<Rightarrow> 'w parallel_sink \<Rightarrow> runtime_status result \<times> 'w parallel_sink" where
  "run_ps_batch ph ready st s =
     then_io (on_ps (run_parallel_ready_batch ph (ps_threshold s) ready) s) (\<lambda>ok s.
       (if ok then (Inr st, s) else (Inr (merge st action_failure_status), mark_action_failure s)))"

fun ps_flush_loop ::
  "'w piped_host \<Rightarrow> pending_batch list \<Rightarrow> runtime_status \<Rightarrow> 'w parallel_sink \<Rightarrow>
   runtime_status result \<times> 'w parallel_sink" where
  "ps_flush_loop ph [] st s = (Inr st, s)"
| "ps_flush_loop ph (b # bs) st s =
     (if pb_paths b = [] then ps_flush_loop ph bs st s
      else then_io (run_ps_batch ph \<lparr>ready_spec = pb_spec b, ready_paths = pb_paths b\<rparr> st s) (\<lambda>st s.
        ps_flush_loop ph bs st s))"

definition ps_flush_all :: "'w piped_host \<Rightarrow> 'w parallel_sink \<Rightarrow> runtime_status result \<times> 'w parallel_sink" where
  "ps_flush_all ph s =
     ps_flush_loop ph (map snd (bt_entries (ps_pending s)))
       (if ps_had_failures s then action_failure_status else default_status) (s\<lparr>ps_pending := bt_empty\<rparr>)"

definition ps_enqueue ::
  "'w piped_host \<Rightarrow> batched_exec_action \<Rightarrow> path \<Rightarrow> 'w parallel_sink \<Rightarrow> runtime_status result \<times> 'w parallel_sink" where
  "ps_enqueue ph spec p s =
     (let b = (case bt_get (ps_pending s) (batch_id spec) of
                 Some b \<Rightarrow> b
               | None \<Rightarrow> pending_new spec (ps_limit s) (fixed_batch_cost spec));
          (ready, b) =
            (if pb_paths b \<noteq> [] \<and> would_overflow b p
             then (let (r, b') = take_ready b in (Some r, b')) else (None, b));
          (pushed, b) = pending_push b p;
          s = s\<lparr>ps_pending := bt_insert (batch_id spec) b (ps_pending s)\<rparr>
      in then_io (case ready of None \<Rightarrow> (Inr default_status, s) | Some rb \<Rightarrow> run_ps_batch ph rb default_status s)
        (\<lambda>st s.
          case pushed of
            Inr (Some rb) \<Rightarrow> run_ps_batch ph rb st s
          | Inr None \<Rightarrow> (Inr st, s)
          | Inl error \<Rightarrow>
              then_io (on_ps (send_broker_message (BmStderr (''rfd: '' @ message error @ [CHR 0x0A]))) s) (\<lambda>_ s.
                (Inr (merge st action_failure_status), mark_action_failure s))))"

definition ps_report_failure :: "diagnostic \<Rightarrow> 'w parallel_sink \<Rightarrow> outcome result \<times> 'w parallel_sink" where
  "ps_report_failure error s =
     then_io (on_ps (send_broker_message (BmStderr (runtime_stderr_line (message error)))) s) (\<lambda>_ s.
       (Inr (action_failure False), mark_action_failure s))"

fun ps_action ::
  "'w host \<Rightarrow> 'w piped_host \<Rightarrow> runtime_action \<Rightarrow> entry \<Rightarrow> 'w parallel_sink \<Rightarrow> outcome result \<times> 'w parallel_sink" where
  "ps_action host ph RaQuit e s = (Inr outcome_quit, s)"
| "ps_action host ph (RaExecImmediate spec) e s =
     then_io (on_ps (run_immediate_parallel ph (ps_threshold s) spec (entry_path e)) s) (\<lambda>ok s.
       (Inr (outcome_new ok), s))"
| "ps_action host ph (RaExecPrompt spec) e s =
     (case on_ps (on_bk_world (confirm_prepared host (ps_prompt s) (render_prompt_argv spec (entry_path e))
             (build_immediate_command spec (entry_path e)) (run_prepared_inherited host))) s of
        (Inr (Accepted True), s) \<Rightarrow> (Inr (outcome_new True), s)
      | (Inr (Accepted False), s) \<Rightarrow> (Inr (action_failure False), mark_action_failure s)
      | (Inr Rejected, s) \<Rightarrow> (Inr (outcome_new False), s)
      | (Inl error, s) \<Rightarrow> ps_report_failure error s)"
| "ps_action host ph (RaExecBatched spec) e s =
     then_io (ps_enqueue ph spec (entry_path e) s) (\<lambda>status s. (Inr \<lparr>matched = True, status = status\<rparr>, s))"
| "ps_action host ph RaDelete e s =
     (case on_ps (on_bk_world (delete_path host (entry_path e))) s of
        (Inr result, s) \<Rightarrow> (Inr (outcome_new result), s)
      | (Inl error, s) \<Rightarrow> ps_report_failure error s)"
| "ps_action host ph _ e s =
     (Inl (panic ''rendered runtime action must have been handled already''), s)"

definition ps_execute_action ::
  "'rx services \<Rightarrow> eval_context \<Rightarrow> 'w host \<Rightarrow> 'w piped_host \<Rightarrow> runtime_action \<Rightarrow> entry \<Rightarrow> follow_mode \<Rightarrow>
   'w parallel_sink \<Rightarrow> outcome result \<times> 'w parallel_sink" where
  "ps_execute_action sv ctx host ph a e m s =
     (case render_action_output sv ctx a e m of
        Inl err \<Rightarrow> (Inl err, s)
      | Inr (Some (RenderedStdout bytes)) \<Rightarrow>
          then_io (on_ps (send_broker_message (BmStdout bytes)) s) (\<lambda>_ s. (Inr (outcome_new True), s))
      | Inr (Some (RenderedFile destination bytes)) \<Rightarrow>
          (Inl (diagnostic_new
             ''internal error: file-backed output actions are not wired into parallel execution yet'' 1), s)
      | Inr None \<Rightarrow> ps_action host ph a e s)"

section \<open>A sink that hears the stop\<close>

text \<open>
  A sink with a flag that a stop sets and nothing clears: an evaluation whose status asks for the
  stop leaves the flag set.
\<close>

locale stopping_sink = action_sink dispatch inv
  for dispatch :: "'a \<Rightarrow> 'e \<Rightarrow> follow_mode \<Rightarrow> 's \<Rightarrow> outcome result \<times> 's" and inv :: "'s \<Rightarrow> bool" +
  fixes stopped :: "'s \<Rightarrow> bool"
  assumes stop_seen: "inv s \<Longrightarrow> dispatch a e m s = (Inr out, s') \<Longrightarrow> is_stop_requested (status out) \<Longrightarrow> stopped s'"
    and stop_kept: "inv s \<Longrightarrow> stopped s \<Longrightarrow> stopped (snd (dispatch a e m s))"
begin

lemma then_eval_Inr:
  "then_eval r f = (Inr out, s) \<Longrightarrow> (\<And>o1 s1. r = (Inr o1, s1) \<Longrightarrow> f o1 s1 = (Inr out, s) \<Longrightarrow> P) \<Longrightarrow> P"
  by (cases r; cases "fst r") auto

lemma eval_kept:
  "inv s \<and> stopped s \<Longrightarrow> inv (snd (eval_ref ev dispatch x e m s)) \<and> stopped (snd (eval_ref ev dispatch x e m s))"
  by (rule action_sink.eval_inv(1) [of dispatch "\<lambda>s. inv s \<and> stopped s"], unfold_locales)
    (auto simp: dispatch_inv stop_kept)

lemma eval_stop:
  "inv s \<Longrightarrow> eval_ref ev dispatch x e m s = (Inr out, s') \<Longrightarrow> is_stop_requested (status out) \<Longrightarrow> stopped s'"
  "inv s \<Longrightarrow> is_stop_requested acc \<longrightarrow> stopped s \<Longrightarrow> eval_and ev dispatch xs acc e m s = (Inr out, s') \<Longrightarrow>
     is_stop_requested (status out) \<Longrightarrow> stopped s'"
proof (induction x and xs arbitrary: s out s' and s acc out s' rule: eval_weight_induct)
  case (And items)
  from And.IH [OF And.prems(1), of default_status out s'] And.prems(2,3) show ?case by simp
next
  case (Or l r)
  from Or.prems(2) obtain lo s1 where l: "eval_ref ev dispatch l e m s = (Inr lo, s1)"
    and rest: "(if matched lo \<or> is_stop_requested (status lo) then (Inr lo, s1)
        else then_eval (eval_ref ev dispatch r e m s1)
          (\<lambda>ro s. (Inr \<lparr>matched = matched ro, status = merge (status lo) (status ro)\<rparr>, s))) = (Inr out, s')"
    by (auto elim!: then_eval_Inr)
  show ?case
  proof (cases "matched lo \<or> is_stop_requested (status lo)")
    case True
    then have "lo = out" "s1 = s'" using rest by auto
    with Or.IH(1) [OF Or.prems(1) l] Or.prems(3) show ?thesis by simp
  next
    case False
    then obtain ro where r: "eval_ref ev dispatch r e m s1 = (Inr ro, s')"
      and out: "status out = merge (status lo) (status ro)"
      using rest by (auto elim!: then_eval_Inr)
    have "inv s1" using eval_inv(1) [OF Or.prems(1), of ev l e m] l by simp
    from Or.IH(2) [OF this r] Or.prems(3) out False show ?thesis by simp
  qed
next
  case (Not x)
  from Not.prems(2) obtain xo where x: "eval_ref ev dispatch x e m s = (Inr xo, s')" "status out = status xo"
    by (auto elim!: then_eval_Inr)
  with Not.IH [OF Not.prems(1) x(1)] Not.prems(3) show ?case by simp
next
  case (Predicate p)
  then show ?case
    by (cases "ev p e m") (auto simp: outcome_new_def is_stop_requested_def default_status_def)
next
  case (Action a)
  then show ?case using stop_seen by simp
next
  case Barrier
  then show ?case by (auto simp: outcome_new_def is_stop_requested_def default_status_def)
next
  case Nil
  then show ?case by auto
next
  case (Cons x xs)
  from Cons.prems(3) obtain o1 s1 where x: "eval_ref ev dispatch x e m s = (Inr o1, s1)"
    and rest: "(let acc = merge acc (status o1) in
        if \<not> matched o1 \<or> is_stop_requested acc
        then (Inr \<lparr>matched = matched o1, status = acc\<rparr>, s1)
        else eval_and ev dispatch xs acc e m s1) = (Inr out, s')"
    by (auto elim!: then_eval_Inr)
  have s1: "inv s1" using eval_inv(1) [OF Cons.prems(1), of ev x e m] x by simp
  have hear: "is_stop_requested (merge acc (status o1)) \<longrightarrow> stopped s1"
    using Cons.IH(1) [OF Cons.prems(1) x] eval_kept [of s ev x e m] Cons.prems(1,2) x by auto
  show ?case
  proof (cases "\<not> matched o1 \<or> is_stop_requested (merge acc (status o1))")
    case True
    then show ?thesis using rest hear Cons.prems(4) by (auto simp: Let_def split: if_splits)
  next
    case False
    then have "eval_and ev dispatch xs (merge acc (status o1)) e m s1 = (Inr out, s')"
      using rest by (simp add: Let_def)
    from Cons.IH(2) [OF s1 hear this Cons.prems(4)] show ?thesis .
  qed
qed

lemma evaluate_stop:
  "inv s \<Longrightarrow> evaluate_outcome ev dispatch x e m s = (Inr out, s') \<Longrightarrow> is_stop_requested (status out) \<Longrightarrow> stopped s'"
  unfolding evaluate_outcome_ref by (rule eval_stop(1))

end

section \<open>The worker's sink as such a sink\<close>

text \<open>
  What an evaluation may do to the shared flags: nothing, or ask for the end of the run.  The
  count of tasks and the flag of fatal errors are not its business.
\<close>

definition worker_inv :: "global_control \<Rightarrow> nat \<Rightarrow> nat \<Rightarrow> 'w worker_sink \<Rightarrow> bool" where
  "worker_inv c lim n s \<longleftrightarrow>
     (ws_control s = c \<or> ws_control s = request_quit c)
   \<and> bt_inv (wb_pending (ws_batches s)) \<and> wb_limit (ws_batches s) = lim \<and> ws_files s = n"

definition sink_quit :: "'w worker_sink \<Rightarrow> bool" where
  "sink_quit s \<longleftrightarrow> quit_seen (ws_control s)"

text \<open>Everything but the flags, the pending batches and the channel stays as it is.\<close>

definition worker_same :: "'w worker_sink \<Rightarrow> 'w worker_sink \<Rightarrow> bool" where
  "worker_same s s' \<longleftrightarrow> ws_control s' = ws_control s \<and> ws_files s' = ws_files s
     \<and> wb_limit (ws_batches s') = wb_limit (ws_batches s)
     \<and> (bt_inv (wb_pending (ws_batches s)) \<longrightarrow> bt_inv (wb_pending (ws_batches s')))"

lemma worker_same_refl [simp]: "worker_same s s"
  by (simp add: worker_same_def)

lemma worker_same_trans [trans]: "worker_same s s1 \<Longrightarrow> worker_same s1 s2 \<Longrightarrow> worker_same s s2"
  by (simp add: worker_same_def)

lemma worker_same_inv: "worker_same s s' \<Longrightarrow> worker_inv c lim n s \<Longrightarrow> worker_inv c lim n s'"
  by (auto simp: worker_same_def worker_inv_def)

lemma worker_same_quit: "worker_same s s' \<Longrightarrow> sink_quit s' = sink_quit s"
  by (simp add: worker_same_def sink_quit_def)

lemma on_brokered_same: "on_brokered f s = (r, s') \<Longrightarrow> worker_same s s'"
  by (auto simp: on_brokered_def worker_same_def split: prod.splits)

lemma worker_send_same: "worker_send msg s = (r, s') \<Longrightarrow> worker_same s s'"
  by (auto simp: worker_send_def split: prod.splits dest: on_brokered_same)

lemma then_io_E:
  assumes "then_io r f = (x, s')"
  obtains (err) err where "r = (Inl err, s')" "x = Inl err" | (ok) y s1 where "r = (Inr y, s1)" "f y s1 = (x, s')"
  using assms by (cases r; cases "fst r") auto

lemma run_in_worker_pending: "run_in_worker run rb s = (r, s') \<Longrightarrow> wb_pending s' = wb_pending s \<and> wb_limit s' = wb_limit s"
  by (auto simp: run_in_worker_def split: prod.splits)

lemma worker_enqueue_keeps:
  assumes "worker_enqueue run spec p s = (r, s')"
  shows "(bt_inv (wb_pending s) \<longrightarrow> bt_inv (wb_pending s')) \<and> wb_limit s' = wb_limit s"
proof -
  define key where "key = batch_key spec p"
  define b where "b = (case bt_get (wb_pending s) key of
      Some b \<Rightarrow> b | None \<Rightarrow> pending_new spec (wb_limit s) (fixed_batch_cost spec))"
  obtain ready b1 where pre: "(if pb_paths b \<noteq> [] \<and> would_overflow b p
      then (case take_ready b of (r, b') \<Rightarrow> (Some r, b')) else (None, b)) = (ready, b1)" by fastforce
  define s1 where "s1 = s\<lparr>wb_pending := bt_insert key b1 (wb_pending s)\<rparr>"
  obtain r1 s2 where run1: "(case ready of None \<Rightarrow> (Inr False, s1) | Some rb \<Rightarrow> run_in_worker run rb s1) = (r1, s2)"
    by fastforce
  have s2: "wb_pending s2 = wb_pending s1 \<and> wb_limit s2 = wb_limit s1"
    using run1 by (cases ready) (auto dest: run_in_worker_pending)
  obtain pushed b2 where push: "pending_push b1 p = (pushed, b2)" by fastforce
  define s3 where "s3 = s2\<lparr>wb_pending := bt_insert key b2 (wb_pending s2)\<rparr>"
  have eq: "worker_enqueue run spec p s = (case r1 of
      Inl e \<Rightarrow> (Inl e, s2)
    | Inr failed1 \<Rightarrow> (case pushed of
        Inr (Some rb) \<Rightarrow> (case run_in_worker run rb s3 of
            (Inl e, s) \<Rightarrow> (Inl e, s) | (Inr failed2, s) \<Rightarrow> (Inr (failed1 \<or> failed2), s))
      | Inr None \<Rightarrow> (Inr failed1, s3)
      | Inl error \<Rightarrow> (Inl error, s3)))"
    by (simp only: worker_enqueue_def Let_def key_def [symmetric] b_def [symmetric] pre prod.case
        s1_def [symmetric] run1 push s3_def [symmetric])
  have 2: "(bt_inv (wb_pending s) \<longrightarrow> bt_inv (wb_pending s2)) \<and> wb_limit s2 = wb_limit s"
    by (simp add: s2 s1_def bt.inv_insert)
  have 3: "(bt_inv (wb_pending s) \<longrightarrow> bt_inv (wb_pending s3)) \<and> wb_limit s3 = wb_limit s"
    using 2 by (auto simp: s3_def bt.inv_insert)
  have "s' = s2 \<or> s' = s3 \<or> wb_pending s' = wb_pending s3 \<and> wb_limit s' = wb_limit s3"
    using assms unfolding eq
    by (auto split: sum.splits option.splits prod.splits dest: run_in_worker_pending)
  with 2 3 show ?thesis by auto
qed

lemma worker_sink_enqueue_same: "worker_sink_enqueue ph spec p s = (r, s') \<Longrightarrow> worker_same s s'"
  by (auto simp: worker_sink_enqueue_def worker_same_def split: prod.splits dest: worker_enqueue_keeps)

lemma worker_action_same:
  assumes "worker_action host ph a e s = (r, s')" "a \<noteq> RaQuit"
  shows "worker_same s s'"
proof (cases a)
  case (RaExecImmediate spec)
  with assms show ?thesis
    by (auto simp: run_immediate_def elim!: then_io_E dest: on_brokered_same)
next
  case (RaExecPrompt spec)
  obtain c s1 where c: "on_brokered (on_bk_world (confirm_prepared host (ws_prompt s)
      (render_prompt_argv spec (entry_path e)) (build_immediate_command spec (entry_path e))
      (run_prepared_inherited host))) s = (c, s1)" by fastforce
  from on_brokered_same [OF c] have s1: "worker_same s s1" .
  show ?thesis
  proof (cases c)
    case (Inl error)
    with RaExecPrompt assms(1) c s1 show ?thesis
      by (auto simp: run_prompted_def emit_runtime_error_def elim!: then_io_E
          dest!: worker_send_same intro: worker_same_trans)
  next
    case (Inr ok)
    with RaExecPrompt assms(1) c s1 show ?thesis
      by (auto simp: run_prompted_def split: confirm_outcome.splits bool.splits)
  qed
next
  case (RaExecBatched spec)
  with assms show ?thesis by (auto elim!: then_io_E dest: worker_sink_enqueue_same)
next
  case RaDelete
  obtain c s1 where c: "on_brokered (on_bk_world (delete_path host (entry_path e))) s = (c, s1)" by fastforce
  from on_brokered_same [OF c] have s1: "worker_same s s1" .
  show ?thesis
  proof (cases c)
    case (Inl error)
    with RaDelete assms(1) c s1 show ?thesis
      by (auto simp: delete_now_def elim!: then_io_E dest!: worker_send_same intro: worker_same_trans)
  next
    case (Inr ok)
    with RaDelete assms(1) c s1 show ?thesis by (auto simp: delete_now_def)
  qed
qed (use assms in auto)

lemma worker_rendered_same: "worker_rendered host rendered s = (r, s') \<Longrightarrow> worker_same s s'"
  by (auto simp: worker_rendered_def split: rendered_action.splits dest: worker_send_same on_brokered_same)

lemma worker_dispatch_cases:
  assumes "worker_dispatch sv ctx host ph a e m s = (r, s')"
  shows "worker_same s s' \<or> a = RaQuit \<and> r = Inr outcome_quit \<and> s' = s\<lparr>ws_control := request_quit (ws_control s)\<rparr>"
proof (cases "render_action_output sv ctx a e m")
  case (Inr rendered)
  then show ?thesis
  proof (cases rendered)
    case None
    with Inr assms show ?thesis by (cases "a = RaQuit") (auto simp: worker_dispatch_def dest: worker_action_same)
  next
    case (Some ra)
    with Inr assms show ?thesis
      by (auto simp: worker_dispatch_def elim!: then_io_E dest: worker_rendered_same)
  qed
qed (use assms in \<open>simp add: worker_dispatch_def\<close>)

lemma worker_action_goes_on:
  assumes "worker_action host ph a e s = (Inr out, s')" "a \<noteq> RaQuit"
  shows "\<not> is_stop_requested (status out)"
proof -
  have fail: "\<not> is_stop_requested (status (action_failure b))" "\<not> is_stop_requested (status (outcome_new b))"
    "\<not> is_stop_requested action_failure_status" for b
    by (simp_all add: action_failure_def action_failure_status_def outcome_new_def default_status_def
        is_stop_requested_def)
  show ?thesis
  proof (cases a)
    case (RaExecImmediate spec)
    with assms fail show ?thesis by (auto simp: run_immediate_def elim!: then_io_E)
  next
    case (RaExecPrompt spec)
    with assms(1) fail show ?thesis
      by (auto simp: run_prompted_def Let_def elim!: then_io_E
          split: prod.splits sum.splits confirm_outcome.splits bool.splits)
  next
    case (RaExecBatched spec)
    with assms(1) fail show ?thesis
      by (auto simp: worker_sink_enqueue_def worker_batch_status_def map_sum_def elim!: then_io_E
          split: prod.splits sum.splits if_splits)
  next
    case RaDelete
    with assms(1) fail show ?thesis
      by (auto simp: delete_now_def elim!: then_io_E split: prod.splits sum.splits)
  qed (use assms in auto)
qed

lemma worker_dispatch_stop:
  assumes "worker_dispatch sv ctx host ph a e m s = (Inr out, s')" "is_stop_requested (status out)"
  shows "sink_quit s'"
proof (cases "render_action_output sv ctx a e m")
  case (Inr rendered)
  show ?thesis
  proof (cases rendered)
    case None
    with Inr assms worker_action_goes_on [of host ph a e s out s'] show ?thesis
      by (cases "a = RaQuit") (auto simp: worker_dispatch_def sink_quit_def request_quit_def)
  next
    case (Some ra)
    with Inr assms show ?thesis
      by (auto simp: worker_dispatch_def outcome_new_def is_stop_requested_def default_status_def elim!: then_io_E)
  qed
qed (use assms in \<open>simp add: worker_dispatch_def\<close>)

interpretation ws: stopping_sink "worker_dispatch sv ctx host ph" "worker_inv c lim n" sink_quit
proof unfold_locales
  fix s :: "'b worker_sink" and a e m
  assume inv: "worker_inv c lim n s"
  obtain r s' where d: "worker_dispatch sv ctx host ph a e m s = (r, s')" by fastforce
  from worker_dispatch_cases [OF d] inv have "worker_inv c lim n s'"
    by (auto simp: worker_same_inv) (auto simp: worker_inv_def request_quit_def)
  with d show "worker_inv c lim n (snd (worker_dispatch sv ctx host ph a e m s))" by simp
next
  fix s :: "'b worker_sink" and a e m out s'
  assume "worker_inv c lim n s" and d: "worker_dispatch sv ctx host ph a e m s = (Inr out, s')"
    and "is_stop_requested (status out)"
  then show "sink_quit s'" by (auto dest: worker_dispatch_stop)
next
  fix s :: "'b worker_sink" and a e m
  assume "worker_inv c lim n s" and q: "sink_quit s"
  obtain r s' where d: "worker_dispatch sv ctx host ph a e m s = (r, s')" by fastforce
  from worker_dispatch_cases [OF d] q have "sink_quit s'"
    by (auto simp: worker_same_quit) (auto simp: sink_quit_def request_quit_def)
  with d show "sink_quit (snd (worker_dispatch sv ctx host ph a e m s))" by simp
qed

text \<open>
  C15.  Evaluating an entry in a worker leaves the shared control as it was or asks for the end of
  the run, it never touches the count of tasks; and when the status it returns asks to stop, the
  whole run has been told.
\<close>

theorem worker_stop_is_announced:
  assumes "worker_inv c lim n s" "process_entry_preorder_fast_path sv ctx host ph plan e s = (r, s')"
  shows "worker_inv c lim n s' \<and> (\<forall>st. r = Inr st \<and> is_stop_requested st \<longrightarrow> sink_quit s')"
proof -
  let ?run = "evaluate_outcome (evaluate_predicate sv ctx) (worker_dispatch sv ctx host ph)
    (plan_expr plan) e (plan_follow_mode plan) s"
  have s': "s' = snd ?run" and r: "r = map_sum id status (fst ?run)"
    using assms(2) by (auto simp: process_entry_preorder_fast_path_def elim!: then_io_E)
  have inv: "worker_inv c lim n s'" unfolding s' by (rule ws.evaluate_inv [OF assms(1)])
  moreover have "sink_quit s'" if "r = Inr st" "is_stop_requested st" for st
  proof -
    from r that obtain out where "?run = (Inr out, s')" "status out = st"
      by (cases "fst ?run") (auto simp: s' prod_eq_iff)
    with ws.evaluate_stop [OF assms(1)] that(2) show ?thesis by blast
  qed
  ultimately show ?thesis by blast
qed

text \<open>A worker on a quiet host, with a plan that quits at the first entry.\<close>

definition quiet_commands :: "string list piped_host" where
  "quiet_commands =
     \<lparr>ph_spawn = (\<lambda>prog args cwd w.
        (Inr \<lparr>cr_stdout = [Inr prog], cr_stderr = [], cr_success = Inr True\<rparr>, w @ [prog])),
      ph_temp = memory_files\<rparr>"

definition quiet_worker :: "string list worker_sink" where
  "quiet_worker =
     worker_sink_new control_new \<lparr>bk_channel = open_channel, bk_world = []\<rparr> 0 default_messages_locale 100"

definition quit_plan :: "unit execution_plan" where
  "quit_plan = print_plan\<lparr>plan_expr := RAction RaQuit\<rparr>"

lemma quiet_worker_inv: "worker_inv control_new 100 0 quiet_worker"
  by (simp add: worker_inv_def quiet_worker_def worker_sink_new_def bt.inv_empty)

lemma worker_stop_is_announced_witness:
  "sink_quit (snd (process_entry_preorder_fast_path (sample_services :: unit services) default_context quiet_host
     quiet_commands quit_plan (entry_new sample_reader ''a'' 0 True) quiet_worker))"
proof -
  let ?r = "process_entry_preorder_fast_path (sample_services :: unit services) default_context quiet_host
     quiet_commands quit_plan (entry_new sample_reader ''a'' 0 True) quiet_worker"
  have "fst ?r = Inr stop_requested_status"
    by (simp add: process_entry_preorder_fast_path_def quit_plan_def print_plan_def evaluate_outcome_def
        begin_entry_eval_def resume_entry_eval_def worker_dispatch_def outcome_quit_def Let_def)
  moreover have "is_stop_requested stop_requested_status"
    by (simp add: is_stop_requested_def stop_requested_status_def)
  ultimately obtain st s' where r: "?r = (Inr st, s')" "is_stop_requested st" by (cases ?r) auto
  from worker_stop_is_announced [OF quiet_worker_inv r(1)] r show ?thesis by simp
qed

section \<open>The shared sink accounts failures\<close>

definition ps_inv :: "'w parallel_sink \<Rightarrow> bool" where
  "ps_inv s \<longleftrightarrow> bt_inv (ps_pending s)"

text \<open>The effect of an operation that returns a status, and of one that returns an outcome.\<close>

definition ps_status_effect :: "'w parallel_sink \<Rightarrow> runtime_status result \<times> 'w parallel_sink \<Rightarrow> bool" where
  "ps_status_effect s r \<longleftrightarrow> ps_inv (snd r)
     \<and> (case fst r of Inl err \<Rightarrow> True
        | Inr st \<Rightarrow> ps_had_failures (snd r) = (ps_had_failures s \<or> had_action_failures st))"

definition ps_effect :: "'w parallel_sink \<Rightarrow> outcome result \<times> 'w parallel_sink \<Rightarrow> bool" where
  "ps_effect s r \<longleftrightarrow> ps_status_effect s (map_sum id status (fst r), snd r)"

lemma on_ps_same: "on_ps f s = (r, s') \<Longrightarrow> ps_pending s' = ps_pending s \<and> ps_had_failures s' = ps_had_failures s"
  by (auto simp: on_ps_def split: prod.splits)

lemma mark_simps [simp]:
  "ps_had_failures (mark_action_failure s)" "ps_inv (mark_action_failure s) = ps_inv s"
  "ps_pending (mark_action_failure s) = ps_pending s"
  by (simp_all add: mark_action_failure_def ps_inv_def)

lemma run_ps_batch_facts:
  assumes "run_ps_batch ph ready st s = (r, s')" "had_action_failures st \<longrightarrow> ps_had_failures s"
  shows "ps_pending s' = ps_pending s \<and> (case r of Inl err \<Rightarrow> True
    | Inr st' \<Rightarrow> ps_had_failures s' = (ps_had_failures s \<or> had_action_failures st')
        \<and> (had_action_failures st \<longrightarrow> had_action_failures st'))"
  using assms
  by (auto simp: run_ps_batch_def action_failure_status_def elim!: then_io_E dest!: on_ps_same split: if_splits)

lemma ps_enqueue_effect:
  assumes "ps_inv s"
  shows "ps_status_effect s (ps_enqueue ph spec p s)"
proof -
  define b where "b = (case bt_get (ps_pending s) (batch_id spec) of
      Some b \<Rightarrow> b | None \<Rightarrow> pending_new spec (ps_limit s) (fixed_batch_cost spec))"
  obtain ready b1 where pre: "(if pb_paths b \<noteq> [] \<and> would_overflow b p
      then (case take_ready b of (r, b') \<Rightarrow> (Some r, b')) else (None, b)) = (ready, b1)" by fastforce
  obtain pushed b2 where push: "pending_push b1 p = (pushed, b2)" by fastforce
  define s1 where "s1 = s\<lparr>ps_pending := bt_insert (batch_id spec) b2 (ps_pending s)\<rparr>"
  obtain r1 s2 where run1: "(case ready of None \<Rightarrow> (Inr default_status, s1)
      | Some rb \<Rightarrow> run_ps_batch ph rb default_status s1) = (r1, s2)" by fastforce
  have s1: "ps_inv s1" "ps_had_failures s1 = ps_had_failures s"
    using assms by (simp_all add: ps_inv_def s1_def bt.inv_insert)
  have s2: "ps_pending s2 = ps_pending s1 \<and> (case r1 of Inl err \<Rightarrow> True
      | Inr st \<Rightarrow> ps_had_failures s2 = (ps_had_failures s1 \<or> had_action_failures st))"
    using run1 run_ps_batch_facts [of ph "the ready" default_status s1 r1 s2]
    by (cases ready) (auto split: sum.splits)
  have eq: "ps_enqueue ph spec p s = then_io (r1, s2) (\<lambda>st s. case pushed of
      Inr (Some rb) \<Rightarrow> run_ps_batch ph rb st s
    | Inr None \<Rightarrow> (Inr st, s)
    | Inl error \<Rightarrow>
        then_io (on_ps (send_broker_message (BmStderr (''rfd: '' @ message error @ [CHR 0x0A]))) s) (\<lambda>_ s.
          (Inr (merge st action_failure_status), mark_action_failure s)))"
    by (simp only: ps_enqueue_def Let_def b_def [symmetric] pre prod.case push s1_def [symmetric] run1)
  show ?thesis
  proof (cases r1)
    case (Inl err)
    then show ?thesis using s1 s2 by (simp add: eq ps_status_effect_def ps_inv_def)
  next
    case r1: (Inr st)
    have f2: "ps_inv s2" "ps_had_failures s2 = (ps_had_failures s \<or> had_action_failures st)"
      using s1 s2 r1 by (simp_all add: ps_inv_def)
    consider (error) error where "pushed = Inl error" | (none) "pushed = Inr None"
      | (batch) rb where "pushed = Inr (Some rb)"
      by (cases pushed; cases "projr pushed") auto
    then show ?thesis
    proof cases
      case error
      obtain q s3 where q: "on_ps (send_broker_message (BmStderr (''rfd: '' @ message error @ [CHR 0x0A]))) s2 = (q, s3)"
        by fastforce
      have "ps_status_effect s (then_io (q, s3) (\<lambda>_ s.
          (Inr (merge st action_failure_status), mark_action_failure s)))"
        using on_ps_same [OF q] f2 by (cases q) (auto simp: ps_status_effect_def ps_inv_def)
      then show ?thesis unfolding eq r1 error then_io_simps sum.case q .
    next
      case none
      with f2 show ?thesis by (simp add: eq r1 ps_status_effect_def)
    next
      case batch
      obtain q s3 where q: "run_ps_batch ph rb st s2 = (q, s3)" by fastforce
      from run_ps_batch_facts [OF q] f2 show ?thesis
        by (cases q) (auto simp: eq r1 batch q ps_status_effect_def ps_inv_def)
    qed
  qed
qed

lemma ps_effect_quiet:
  assumes "ps_inv s"
  shows "ps_effect s (then_io (on_ps f s) (\<lambda>x s. (Inr (outcome_new (g x)), s)))"
proof -
  obtain r s1 where r: "on_ps f s = (r, s1)" by fastforce
  from on_ps_same [OF r] assms show ?thesis
    by (cases r) (auto simp: r ps_effect_def ps_status_effect_def ps_inv_def)
qed

lemma ps_effect_report:
  assumes "ps_inv s"
  shows "ps_effect s (ps_report_failure error s)"
proof -
  obtain r s1 where r: "on_ps (send_broker_message (BmStderr (runtime_stderr_line (message error)))) s = (r, s1)"
    by fastforce
  from on_ps_same [OF r] assms show ?thesis
    by (cases r) (auto simp: r ps_report_failure_def ps_effect_def ps_status_effect_def ps_inv_def)
qed

lemma ps_action_effect:
  assumes "ps_inv s"
  shows "ps_effect s (ps_action host ph a e s)"
proof (cases a)
  case (RaExecPrompt spec)
  obtain c s1 where c: "on_ps (on_bk_world (confirm_prepared host (ps_prompt s)
      (render_prompt_argv spec (entry_path e)) (build_immediate_command spec (entry_path e))
      (run_prepared_inherited host))) s = (c, s1)" by fastforce
  from on_ps_same [OF c] have s1: "ps_inv s1" "ps_had_failures s1 = ps_had_failures s"
    using assms by (simp_all add: ps_inv_def)
  show ?thesis
  proof (cases c)
    case (Inl error)
    from ps_effect_report [OF s1(1), of error] s1 show ?thesis
      by (auto simp: RaExecPrompt c Inl ps_effect_def ps_status_effect_def split: sum.splits)
  next
    case (Inr ok)
    have "ps_effect s (Inr (action_failure False), mark_action_failure s1)"
      "ps_effect s (Inr (outcome_new b), s1)" for b
      using s1 by (simp_all add: ps_effect_def ps_status_effect_def)
    then show ?thesis
      by (auto simp: RaExecPrompt c Inr split: confirm_outcome.splits bool.splits)
  qed
next
  case (RaExecBatched spec)
  obtain q s1 where q: "ps_enqueue ph spec (entry_path e) s = (q, s1)" by fastforce
  from ps_enqueue_effect [OF assms, of ph spec "entry_path e"] q show ?thesis
    by (cases q) (auto simp: RaExecBatched ps_effect_def ps_status_effect_def)
next
  case RaDelete
  obtain c s1 where c: "on_ps (on_bk_world (delete_path host (entry_path e))) s = (c, s1)" by fastforce
  from on_ps_same [OF c] have s1: "ps_inv s1" "ps_had_failures s1 = ps_had_failures s"
    using assms by (simp_all add: ps_inv_def)
  show ?thesis
  proof (cases c)
    case (Inl error)
    from ps_effect_report [OF s1(1), of error] s1 show ?thesis
      by (auto simp: RaDelete c Inl ps_effect_def ps_status_effect_def split: sum.splits)
  qed (use s1 in \<open>auto simp: RaDelete c ps_effect_def ps_status_effect_def\<close>)
next
  case (RaExecImmediate spec)
  then show ?thesis using ps_effect_quiet [OF assms, of _ "\<lambda>x. x"] by simp
next
  case RaQuit
  then show ?thesis using assms by (simp add: ps_effect_def ps_status_effect_def)
qed (use assms in \<open>simp_all add: ps_effect_def ps_status_effect_def\<close>)

lemma ps_execute_effect:
  assumes "ps_inv s"
  shows "ps_effect s (ps_execute_action sv ctx host ph a e m s)"
proof (cases "render_action_output sv ctx a e m")
  case (Inr rendered)
  show ?thesis
  proof (cases rendered)
    case None
    with Inr ps_action_effect [OF assms] show ?thesis by (simp add: ps_execute_action_def)
  next
    case (Some ra)
    show ?thesis
    proof (cases ra)
      case (RenderedStdout bytes)
      have "ps_effect s (then_io (on_ps (send_broker_message (BmStdout bytes)) s) (\<lambda>_ s. (Inr (outcome_new True), s)))"
        using ps_effect_quiet [OF assms, of _ "\<lambda>_. True"] .
      with Inr Some RenderedStdout show ?thesis by (simp add: ps_execute_action_def)
    qed (use Inr Some assms in \<open>simp add: ps_execute_action_def ps_effect_def ps_status_effect_def\<close>)
  qed
qed (use assms in \<open>simp add: ps_execute_action_def ps_effect_def ps_status_effect_def\<close>)

interpretation ps: failure_sink "ps_execute_action sv ctx host ph" ps_inv ps_had_failures
proof unfold_locales
  fix s :: "'b parallel_sink" and a e m
  assume inv: "ps_inv s"
  show "ps_inv (snd (ps_execute_action sv ctx host ph a e m s))"
    using ps_execute_effect [OF inv, of sv ctx host ph a e m] by (simp add: ps_effect_def ps_status_effect_def)
next
  fix s :: "'b parallel_sink" and a e m out s'
  assume inv: "ps_inv s" and "ps_execute_action sv ctx host ph a e m s = (Inr out, s')"
  then show "ps_had_failures s' \<longleftrightarrow> ps_had_failures s \<or> had_action_failures (status out)"
    using ps_execute_effect [OF inv, of sv ctx host ph a e m] by (simp add: ps_effect_def ps_status_effect_def)
qed

text \<open>The flush reports the failures recorded before it and the ones of the last batches.\<close>

lemma ps_flush_loop_facts:
  "had_action_failures st = ps_had_failures s \<Longrightarrow> ps_flush_loop ph bs st s = (Inr st', s') \<Longrightarrow>
     ps_had_failures s' = had_action_failures st'"
proof (induction bs arbitrary: st s)
  case (Cons b bs)
  show ?case
  proof (cases "pb_paths b = []")
    case False
    with Cons.prems(2) obtain st1 s1 where
      run: "run_ps_batch ph \<lparr>ready_spec = pb_spec b, ready_paths = pb_paths b\<rparr> st s = (Inr st1, s1)"
      and rest: "ps_flush_loop ph bs st1 s1 = (Inr st', s')" by (auto elim!: then_io_E)
    from run_ps_batch_facts [OF run] Cons.prems(1) have "had_action_failures st1 = ps_had_failures s1" by auto
    from Cons.IH [OF this rest] show ?thesis .
  qed (use Cons in simp)
qed simp

lemma ps_run_accounts_failures:
  assumes "ps_inv s" "\<not> ps_had_failures s"
    and "evaluate_outcome ev (ps_execute_action sv ctx host ph) x e m s = (Inr out, s1)"
    and "ps_flush_all ph s1 = (Inr st, s2)"
  shows "had_action_failures (status out) \<longrightarrow> had_action_failures st"
proof -
  from ps.evaluate_failed [OF assms(1,3)] assms(2) have f: "ps_had_failures s1 = had_action_failures (status out)" by simp
  have "had_action_failures st' \<or> \<not> had_action_failures acc"
    if "ps_flush_loop ph bs acc s = (Inr st', s')" "had_action_failures acc \<longrightarrow> ps_had_failures s" for bs acc s st' s'
    using that
  proof (induction bs arbitrary: acc s)
    case (Cons b bs)
    show ?case
    proof (cases "pb_paths b = []")
      case False
      with Cons.prems(1) obtain st1 s1 where
        run: "run_ps_batch ph \<lparr>ready_spec = pb_spec b, ready_paths = pb_paths b\<rparr> acc s = (Inr st1, s1)"
        and rest: "ps_flush_loop ph bs st1 s1 = (Inr st', s')" by (auto elim!: then_io_E)
      from run_ps_batch_facts [OF run Cons.prems(2)] Cons.IH [OF rest] show ?thesis by auto
    qed (use Cons in simp)
  qed simp
  from this [OF assms(4) [unfolded ps_flush_all_def]] f show ?thesis
    by (auto simp: action_failure_status_def)
qed

end
