(* ===== verification/Parallel_Worker.thy ===== *)
theory Parallel_Worker
  imports Worker_Sink
begin

text \<open>
  The workers of a parallel run, from \<^verbatim>\<open>src/src/parallel/worker.rs\<close>, and the run they are started
  and joined by, from \<^verbatim>\<open>src/src/parallel/engine.rs\<close>.  The state of the run is what the threads
  share and where each of them stands; a task in progress is the list of the loops it is in,
  innermost first.  A step of a worker runs one iteration of its innermost loop, and the steps of
  the workers and of the broker interleave in every order.
\<close>

section \<open>Where a worker stands\<close>

datatype (plugins only: code size) task_frame =
    PreLoop "pending_path list" runtime_status
  | PreVisit pending_path "file_identity list" "u64 option" "discovered_child result list" "unit result"
      chunk_accumulator "diagnostic option"
  | PostBatch "subtree_barrier_id option" "pending_path list" runtime_status
  | PostVisit pending_path entry "file_identity list" "u64 option" "discovered_child result list" "unit result"
      chunk_accumulator "diagnostic option"
  | PostSpill subtree_barrier_id "pending_path list list" runtime_status
  | NotifyBarrier subtree_barrier_id
  | TaskEnd runtime_status

datatype (plugins only: code size) worker_phase =
    Popping
  | Popped parallel_task
  | InTask "task_frame list"
  | Flushing
  | Finished

record worker_report =
  report_status :: runtime_status
  report_errors :: bool

record worker_thread =
  wt_phase :: worker_phase
  wt_batches :: "(exec_batch_key, pending_batch) btree"
  wt_status :: runtime_status
  wt_errors :: bool

text \<open>The log is no part of the program: it lists the entries that were evaluated, in order.\<close>

record 'w par_state =
  pr_control :: global_control
  pr_queues :: task_queues
  pr_barriers :: barrier_table
  pr_brokered :: "'w brokered"
  pr_broker_result :: "unit result option"
  pr_workers :: "worker_thread list"
  pr_results :: "worker_report result list"
  pr_log :: "entry list"

record ('rx, 'w) par_args =
  pa_env :: "('rx, 'w) run_env"
  pa_piped :: "'w piped_host"
  pa_ctx :: eval_context
  pa_plan :: "'rx execution_plan"
  pa_files :: nat
  pa_prompt :: messages_locale

abbreviation pa_walk :: "('rx, 'w) par_args \<Rightarrow> walk_args" where
  "pa_walk args \<equiv> plan_walk_args (pa_env args) (pa_ctx args) (pa_plan args)"

definition on_worker :: "nat \<Rightarrow> (worker_thread \<Rightarrow> worker_thread) \<Rightarrow> 'w par_state \<Rightarrow> 'w par_state" where
  "on_worker i f s = s\<lparr>pr_workers := (pr_workers s)[i := f (pr_workers s ! i)]\<rparr>"

definition set_phase :: "nat \<Rightarrow> worker_phase \<Rightarrow> 'w par_state \<Rightarrow> 'w par_state" where
  "set_phase i ph s = on_worker i (\<lambda>t. t\<lparr>wt_phase := ph\<rparr>) s"

definition note_runtime_error :: "nat \<Rightarrow> 'w par_state \<Rightarrow> 'w par_state" where
  "note_runtime_error i s = on_worker i (\<lambda>t. t\<lparr>wt_errors := True\<rparr>) s"

definition on_control :: "(global_control \<Rightarrow> global_control) \<Rightarrow> 'w par_state \<Rightarrow> 'w par_state" where
  "on_control f s = s\<lparr>pr_control := f (pr_control s)\<rparr>"

text \<open>The sink of a worker is its own batches and the shared control and output.\<close>

definition sink_of :: "('rx, 'w) par_args \<Rightarrow> nat \<Rightarrow> 'w par_state \<Rightarrow> 'w worker_sink" where
  "sink_of args i s =
     \<lparr>ws_control = pr_control s, ws_files = pa_files args,
      ws_batches = \<lparr>wb_pending = wt_batches (pr_workers s ! i), wb_limit = re_batch_limit (pa_env args),
        wb_world = pr_brokered s\<rparr>,
      ws_prompt = pa_prompt args\<rparr>"

definition put_sink :: "nat \<Rightarrow> 'w worker_sink \<Rightarrow> 'w par_state \<Rightarrow> 'w par_state" where
  "put_sink i k s =
     on_worker i (\<lambda>t. t\<lparr>wt_batches := wb_pending (ws_batches k)\<rparr>)
       (s\<lparr>pr_control := ws_control k, pr_brokered := wb_world (ws_batches k)\<rparr>)"

definition with_sink ::
  "('rx, 'w) par_args \<Rightarrow> nat \<Rightarrow> ('w worker_sink \<Rightarrow> 'a \<times> 'w worker_sink) \<Rightarrow> 'w par_state \<Rightarrow> 'a \<times> 'w par_state" where
  "with_sink args i f s = (let (r, k) = f (sink_of args i s) in (r, put_sink i k s))"

text \<open>A task that ends with an error ends its worker and stops the run.\<close>

definition fail_task :: "nat \<Rightarrow> diagnostic \<Rightarrow> 'w par_state \<Rightarrow> 'w par_state" where
  "fail_task i err s =
     set_phase i Finished
       (on_control (\<lambda>c. request_fatal_stop (task_finished c)) (s\<lparr>pr_results := pr_results s @ [Inl err]\<rparr>))"

text \<open>\<^verbatim>\<open>sink.emit_runtime_error(error)?\<close> and the flag, then the rest.\<close>

definition report_error ::
  "('rx, 'w) par_args \<Rightarrow> nat \<Rightarrow> diagnostic \<Rightarrow> ('w par_state \<Rightarrow> 'w par_state) \<Rightarrow> 'w par_state \<Rightarrow> 'w par_state" where
  "report_error args i error k s =
     (case with_sink args i (emit_runtime_error error) s of
        (Inl err, s) \<Rightarrow> fail_task i err s
      | (Inr _, s) \<Rightarrow> k (note_runtime_error i s))"

definition process_entry ::
  "('rx, 'w) par_args \<Rightarrow> nat \<Rightarrow> entry \<Rightarrow> 'w par_state \<Rightarrow> runtime_status result \<times> 'w par_state" where
  "process_entry args i e s =
     with_sink args i (process_entry_preorder_fast_path (re_services (pa_env args)) (pa_ctx args)
       (re_host (pa_env args)) (pa_piped args) (pa_plan args) e) (s\<lparr>pr_log := pr_log s @ [e]\<rparr>)"

definition min_depth :: "('rx, 'w) par_args \<Rightarrow> nat" where
  "min_depth args = to_min_depth (plan_traversal (pa_plan args))"

definition entry_control :: "('rx, 'w) par_args \<Rightarrow> entry \<Rightarrow> traversal_control result" where
  "entry_control args e =
     traversal_control_for_entry (re_services (pa_env args)) (pa_ctx args) (pa_plan args) e"

definition descend_into ::
  "('rx, 'w) par_args \<Rightarrow> pending_path \<Rightarrow> entry \<Rightarrow> traversal_control \<Rightarrow>
   (file_identity list \<times> u64 option) option result" where
  "descend_into args p e verdict =
     should_descend_directory p e (plan_follow_mode (pa_plan args)) (plan_traversal (pa_plan args)) verdict
       (re_backend (pa_env args))"

definition stop_seen :: "'w par_state \<Rightarrow> bool" where
  "stop_seen s \<longleftrightarrow> quit_seen (pr_control s) \<or> fatal_error_seen (pr_control s)"

definition push_tasks :: "nat \<Rightarrow> parallel_task list \<Rightarrow> 'w par_state \<Rightarrow> 'w par_state" where
  "push_tasks i tasks s =
     (let (c, q) = push_all_local i tasks (pr_control s) (pr_queues s)
      in s\<lparr>pr_control := c, pr_queues := q\<rparr>)"

text \<open>A loop that ends hands its status to the loop around it.\<close>

fun return_status :: "runtime_status \<Rightarrow> task_frame list \<Rightarrow> task_frame list" where
  "return_status st (TaskEnd acc # fs) = TaskEnd (merge acc st) # fs"
| "return_status st (PostSpill b chunks acc # fs) = PostSpill b chunks (merge acc st) # fs"
| "return_status st (PostBatch b ps acc # fs) =
     (if is_stop_requested (merge acc st) then return_status (merge acc st) fs
      else PostBatch b ps (merge acc st) # fs)"
| "return_status st fs = fs"

section \<open>Pre-order (run_preorder_pending_batch)\<close>

definition discovered_child_to_pending ::
  "discovered_child \<Rightarrow> pending_path \<Rightarrow> file_identity list \<Rightarrow> u64 option \<Rightarrow> pending_path" where
  "discovered_child_to_pending child p child_ancestry root_device =
     \<lparr>pp_path = dc_path child, pp_root_path = pp_root_path p, pp_depth = pp_depth p + 1,
      pp_is_root = False, pp_hint = dc_hint child, pp_ancestry = child_ancestry,
      pp_ancestor_barriers = pp_ancestor_barriers p, pp_root_device = root_device,
      pp_parent_completion = None\<rparr>"

definition chunk_tasks :: "subtree_barrier_id option \<Rightarrow> pending_path list list \<Rightarrow> parallel_task list" where
  "chunk_tasks barrier chunks =
     map (\<lambda>chunk. SiblingChunk \<lparr>sct_pending = chunk, sct_completion_barrier = barrier\<rparr>) chunks"

definition publish_preorder_sibling_chunks :: "nat \<Rightarrow> pending_path list list \<Rightarrow> 'w par_state \<Rightarrow> 'w par_state" where
  "publish_preorder_sibling_chunks i chunks s = push_tasks i (chunk_tasks None chunks) s"

definition fresh_chunks :: chunk_accumulator where
  "fresh_chunks = chunks_new default_split_child_threshold default_spill_chunk_size"

definition preorder_descend ::
  "('rx, 'w) par_args \<Rightarrow> nat \<Rightarrow> pending_path \<Rightarrow> entry \<Rightarrow> traversal_control \<Rightarrow> pending_path list \<Rightarrow>
   runtime_status \<Rightarrow> task_frame list \<Rightarrow> 'w par_state \<Rightarrow> 'w par_state" where
  "preorder_descend args i p e verdict stack st fs s =
     (case descend_into args p e verdict of
        Inl error \<Rightarrow> report_error args i error (set_phase i (InTask (PreLoop stack st # fs))) s
      | Inr None \<Rightarrow> set_phase i (InTask (PreLoop stack st # fs)) s
      | Inr (Some (child_ancestry, root_device)) \<Rightarrow>
          (let (items, r) = wb_visit_children (re_backend (pa_env args)) (pp_path p)
           in set_phase i (InTask (PreVisit p child_ancestry root_device items r fresh_chunks None
                # PreLoop stack st # fs)) s))"

definition preorder_iteration ::
  "('rx, 'w) par_args \<Rightarrow> nat \<Rightarrow> pending_path \<Rightarrow> pending_path list \<Rightarrow> runtime_status \<Rightarrow> task_frame list \<Rightarrow>
   'w par_state \<Rightarrow> 'w par_state" where
  "preorder_iteration args i p stack st fs s =
     (if stop_seen s then set_phase i (InTask (return_status st fs)) s
      else
        (case wb_load_entry (re_backend (pa_env args)) p of
           Inl error \<Rightarrow> report_error args i error (set_phase i (InTask (PreLoop stack st # fs))) s
         | Inr e \<Rightarrow>
        (case entry_control args e of
           Inl error \<Rightarrow> report_error args i error (set_phase i (InTask (PreLoop stack st # fs))) s
         | Inr verdict \<Rightarrow>
             if pp_depth p \<ge> min_depth args then
               (case process_entry args i e s of
                  (Inl err, s) \<Rightarrow> fail_task i err s
                | (Inr st1, s) \<Rightarrow>
                    if is_stop_requested (merge st st1)
                    then set_phase i (InTask (return_status (merge st st1) fs)) s
                    else preorder_descend args i p e verdict stack (merge st st1) fs s)
             else preorder_descend args i p e verdict stack st fs s)))"

text \<open>One call of the visitor, and what follows the last one.\<close>

definition preorder_child ::
  "('rx, 'w) par_args \<Rightarrow> nat \<Rightarrow> pending_path \<Rightarrow> file_identity list \<Rightarrow> u64 option \<Rightarrow> discovered_child result \<Rightarrow>
   discovered_child result list \<Rightarrow> unit result \<Rightarrow> chunk_accumulator \<Rightarrow> diagnostic option \<Rightarrow> task_frame list \<Rightarrow>
   'w par_state \<Rightarrow> 'w par_state" where
  "preorder_child args i p child_ancestry root_device item items r chunks emitted fs s =
     (case item of
        Inr child \<Rightarrow>
          (let chunks = chunks_push (discovered_child_to_pending child p child_ancestry root_device)
                 (accepts_new_work (pr_control s)) chunks
           in if accepts_new_work (pr_control s) then
                (let (spilled, chunks) = take_spilled_chunks chunks
                 in set_phase i (InTask (PreVisit p child_ancestry root_device items r chunks emitted # fs))
                      (publish_preorder_sibling_chunks i spilled s))
              else set_phase i (InTask (PreVisit p child_ancestry root_device items r chunks emitted # fs)) s)
      | Inl error \<Rightarrow>
          (let (sent, s) = with_sink args i (emit_runtime_error error) s;
               emitted = (case sent of Inl err \<Rightarrow> Some err | Inr _ \<Rightarrow> emitted)
           in set_phase i (InTask (PreVisit p child_ancestry root_device items r chunks emitted # fs))
                (note_runtime_error i s)))"

definition preorder_publish ::
  "nat \<Rightarrow> unit result \<Rightarrow> chunk_accumulator \<Rightarrow> diagnostic option \<Rightarrow> pending_path list \<Rightarrow> runtime_status \<Rightarrow>
   task_frame list \<Rightarrow> 'w par_state \<Rightarrow> 'w par_state" where
  "preorder_publish i r chunks emitted stack st fs s =
     (case r of
        Inl err \<Rightarrow> fail_task i err s
      | Inr _ \<Rightarrow>
     (case emitted of
        Some err \<Rightarrow> fail_task i err s
      | None \<Rightarrow>
          (let plan = chunks_finish (if quit_seen (pr_control s) then chunks_observe_quit chunks else chunks)
           in set_phase i (InTask (PreLoop (cp_local_stack plan @ stack) st # fs))
                (publish_preorder_sibling_chunks i (cp_spilled_chunks plan) s))))"

section \<open>Post-order (run_postorder_pending_batch, run_postorder_pending_root)\<close>

definition barrier_number :: "subtree_barrier_id \<Rightarrow> nat" where
  "barrier_number b = (case b of SubtreeBarrierId k \<Rightarrow> k)"

definition enter_postorder_batch ::
  "nat \<Rightarrow> pending_path list \<Rightarrow> subtree_barrier_id option \<Rightarrow> task_frame list \<Rightarrow> 'w par_state \<Rightarrow> 'w par_state" where
  "enter_postorder_batch i initial completion fs s =
     (case completion of
        Some parent \<Rightarrow>
          if length initial > 1 then
            (let (batch, t) = begin_batch (length initial) parent (pr_barriers s)
             in set_phase i (InTask (PostBatch (Some batch) initial default_status # fs)) (s\<lparr>pr_barriers := t\<rparr>))
          else set_phase i (InTask (PostBatch (Some parent) initial default_status # fs)) s
      | None \<Rightarrow> set_phase i (InTask (PostBatch None initial default_status # fs)) s)"

definition with_completion :: "subtree_barrier_id option \<Rightarrow> pending_path \<Rightarrow> pending_path" where
  "with_completion root_completion p =
     (case root_completion of
        Some parent \<Rightarrow> p\<lparr>pp_parent_completion := Some (barrier_number parent)\<rparr>
      | None \<Rightarrow> p)"

definition notify_parent :: "pending_path \<Rightarrow> subtree_barrier_id option" where
  "notify_parent p = map_option SubtreeBarrierId (pp_parent_completion p)"

definition notify_frames :: "subtree_barrier_id option \<Rightarrow> task_frame list" where
  "notify_frames notify = (case notify of Some b \<Rightarrow> [NotifyBarrier b] | None \<Rightarrow> [])"

definition complete_postorder_entry ::
  "('rx, 'w) par_args \<Rightarrow> nat \<Rightarrow> entry \<Rightarrow> subtree_barrier_id option \<Rightarrow> task_frame list \<Rightarrow> 'w par_state \<Rightarrow> 'w par_state" where
  "complete_postorder_entry args i e notify fs s =
     (if entry_depth e \<ge> min_depth args then
        (case process_entry args i e s of
           (Inl err, s) \<Rightarrow> fail_task i err s
         | (Inr st, s) \<Rightarrow>
             if is_stop_requested st then set_phase i (InTask (return_status st fs)) s
             else set_phase i (InTask (notify_frames notify @ return_status st fs)) s)
      else set_phase i (InTask (notify_frames notify @ fs)) s)"

text \<open>A root that ends with a reported error notifies its parent.\<close>

definition postorder_root_error ::
  "('rx, 'w) par_args \<Rightarrow> nat \<Rightarrow> diagnostic \<Rightarrow> pending_path \<Rightarrow> task_frame list \<Rightarrow> 'w par_state \<Rightarrow> 'w par_state" where
  "postorder_root_error args i error p fs s =
     report_error args i error (set_phase i (InTask (notify_frames (notify_parent p) @ fs))) s"

definition run_postorder_pending_root ::
  "('rx, 'w) par_args \<Rightarrow> nat \<Rightarrow> pending_path \<Rightarrow> task_frame list \<Rightarrow> 'w par_state \<Rightarrow> 'w par_state" where
  "run_postorder_pending_root args i p fs s =
     (case wb_load_entry (re_backend (pa_env args)) p of
        Inl error \<Rightarrow> postorder_root_error args i error p fs s
      | Inr e \<Rightarrow>
     (case entry_control args e of
        Inl error \<Rightarrow> postorder_root_error args i error p fs s
      | Inr verdict \<Rightarrow>
     (case wb_active_directory_identity (re_backend (pa_env args)) e (plan_follow_mode (pa_plan args)) of
        Inl error \<Rightarrow> postorder_root_error args i error p fs s
      | Inr None \<Rightarrow> complete_postorder_entry args i e (notify_parent p) fs s
      | Inr (Some _) \<Rightarrow>
     (case descend_into args p e verdict of
        Inl error \<Rightarrow> postorder_root_error args i error p fs s
      | Inr None \<Rightarrow> complete_postorder_entry args i e (notify_parent p) fs s
      | Inr (Some (child_ancestry, root_device)) \<Rightarrow>
          (let (items, r) = wb_visit_children (re_backend (pa_env args)) (pp_path p)
           in set_phase i (InTask (PostVisit p e child_ancestry root_device items r fresh_chunks None # fs)) s)))))"

definition postorder_iteration ::
  "('rx, 'w) par_args \<Rightarrow> nat \<Rightarrow> subtree_barrier_id option \<Rightarrow> pending_path \<Rightarrow> pending_path list \<Rightarrow> runtime_status \<Rightarrow>
   task_frame list \<Rightarrow> 'w par_state \<Rightarrow> 'w par_state" where
  "postorder_iteration args i root_completion p ps st fs s =
     (if stop_seen s then set_phase i (InTask (return_status st fs)) s
      else run_postorder_pending_root args i (with_completion root_completion p)
             (PostBatch root_completion ps st # fs) s)"

definition postorder_child ::
  "('rx, 'w) par_args \<Rightarrow> nat \<Rightarrow> pending_path \<Rightarrow> entry \<Rightarrow> file_identity list \<Rightarrow> u64 option \<Rightarrow>
   discovered_child result \<Rightarrow> discovered_child result list \<Rightarrow> unit result \<Rightarrow> chunk_accumulator \<Rightarrow>
   diagnostic option \<Rightarrow> task_frame list \<Rightarrow> 'w par_state \<Rightarrow> 'w par_state" where
  "postorder_child args i p e child_ancestry root_device item items r chunks emitted fs s =
     (case item of
        Inr child \<Rightarrow>
          set_phase i (InTask (PostVisit p e child_ancestry root_device items r
            (chunks_push (discovered_child_to_pending child p child_ancestry root_device)
               (accepts_new_work (pr_control s)) chunks) emitted # fs)) s
      | Inl error \<Rightarrow>
          (let (sent, s) = with_sink args i (emit_runtime_error error) s;
               emitted = (case sent of Inl err \<Rightarrow> Some err | Inr _ \<Rightarrow> emitted)
           in set_phase i (InTask (PostVisit p e child_ancestry root_device items r chunks emitted # fs))
                (note_runtime_error i s)))"

definition under_barrier :: "subtree_barrier_id \<Rightarrow> pending_path \<Rightarrow> pending_path" where
  "under_barrier barrier child = child\<lparr>pp_ancestor_barriers := [barrier]\<rparr>"

definition postorder_publish ::
  "('rx, 'w) par_args \<Rightarrow> nat \<Rightarrow> pending_path \<Rightarrow> entry \<Rightarrow> unit result \<Rightarrow> chunk_accumulator \<Rightarrow> diagnostic option \<Rightarrow>
   task_frame list \<Rightarrow> 'w par_state \<Rightarrow> 'w par_state" where
  "postorder_publish args i p e r chunks emitted fs s =
     (case r of
        Inl error \<Rightarrow> report_error args i error (complete_postorder_entry args i e (notify_parent p) fs) s
      | Inr _ \<Rightarrow>
     (case emitted of
        Some err \<Rightarrow> fail_task i err s
      | None \<Rightarrow>
          if stop_seen s then set_phase i (InTask (return_status default_status fs)) s
          else
            (let plan = chunks_finish chunks;
                 has_local_batch = cp_local_stack plan \<noteq> [];
                 child_units = length (cp_spilled_chunks plan) + (if has_local_batch then 1 else 0)
             in if child_units = 0 then complete_postorder_entry args i e (notify_parent p) fs s
                else
                  (let (barrier, t) = begin_directory e child_units (notify_parent p) (pr_barriers s);
                       fs = PostSpill barrier (cp_spilled_chunks plan) default_status # fs
                   in if has_local_batch
                      then enter_postorder_batch i (map (under_barrier barrier) (cp_local_stack plan))
                             (Some barrier) fs (s\<lparr>pr_barriers := t\<rparr>)
                      else set_phase i (InTask fs) (s\<lparr>pr_barriers := t\<rparr>)))))"

definition postorder_spill ::
  "nat \<Rightarrow> subtree_barrier_id \<Rightarrow> pending_path list list \<Rightarrow> runtime_status \<Rightarrow> task_frame list \<Rightarrow>
   'w par_state \<Rightarrow> 'w par_state" where
  "postorder_spill i barrier chunks st fs s =
     (if \<not> accepts_new_work (pr_control s) \<or> is_stop_requested st
      then set_phase i (InTask (return_status st fs)) s
      else set_phase i (InTask (return_status st fs))
             (push_tasks i (chunk_tasks (Some barrier) (map (map (under_barrier barrier)) chunks)) s))"

text \<open>One round of the loop of \<^verbatim>\<open>notify_parent_barrier\<close>.\<close>

definition notify_round ::
  "nat \<Rightarrow> subtree_barrier_id \<Rightarrow> task_frame list \<Rightarrow> 'w par_state \<Rightarrow> 'w par_state" where
  "notify_round i barrier fs s =
     (let (release, t) = finish_spilled_chunk barrier (pr_barriers s);
          s = s\<lparr>pr_barriers := t\<rparr>
      in case release of
           Some (ReleaseResume task) \<Rightarrow> set_phase i (InTask fs) (push_tasks i [PostOrderResume task] s)
         | Some (ReleaseNotifyParent parent) \<Rightarrow> set_phase i (InTask (NotifyBarrier parent # fs)) s
         | None \<Rightarrow> set_phase i (InTask fs) s)"

definition run_postorder_resume ::
  "('rx, 'w) par_args \<Rightarrow> nat \<Rightarrow> post_order_resume_task \<Rightarrow> 'w par_state \<Rightarrow> 'w par_state" where
  "run_postorder_resume args i task s =
     (if entry_depth (rt_entry task) \<ge> min_depth args then
        (case process_entry args i (rt_entry task) s of
           (Inl err, s) \<Rightarrow> fail_task i err s
         | (Inr st, s) \<Rightarrow> set_phase i (InTask (notify_frames (rt_notify_parent task) @ [TaskEnd st])) s)
      else set_phase i (InTask (notify_frames (rt_notify_parent task) @ [TaskEnd default_status])) s)"

section \<open>The loop of a worker (run_parallel_worker)\<close>

definition start_task ::
  "('rx, 'w) par_args \<Rightarrow> nat \<Rightarrow> parallel_task \<Rightarrow> 'w par_state \<Rightarrow> 'w par_state" where
  "start_task args i task s =
     (if \<not> accepts_new_work (pr_control s) then set_phase i Popping (on_control task_finished s)
      else
        (case task of
           PreOrderRoot root \<Rightarrow>
             if to_order (plan_traversal (pa_plan args)) = DepthFirstPostOrder
             then enter_postorder_batch i [prt_pending root] None [TaskEnd default_status] s
             else set_phase i (InTask [PreLoop [prt_pending root] default_status, TaskEnd default_status]) s
         | SiblingChunk chunk \<Rightarrow>
             if sct_completion_barrier chunk \<noteq> None
             then enter_postorder_batch i (sct_pending chunk) (sct_completion_barrier chunk) [TaskEnd default_status] s
             else set_phase i (InTask [PreLoop (sct_pending chunk) default_status, TaskEnd default_status]) s
         | PostOrderResume resume \<Rightarrow> run_postorder_resume args i resume s))"

fun run_frames ::
  "('rx, 'w) par_args \<Rightarrow> nat \<Rightarrow> task_frame list \<Rightarrow> 'w par_state \<Rightarrow> 'w par_state" where
  "run_frames args i (PreLoop [] st # fs) s = set_phase i (InTask (return_status st fs)) s"
| "run_frames args i (PreLoop (p # stack) st # fs) s = preorder_iteration args i p stack st fs s"
| "run_frames args i (PreVisit p anc dev (item # items) r chunks emitted # fs) s =
     preorder_child args i p anc dev item items r chunks emitted fs s"
| "run_frames args i (PreVisit p anc dev [] r chunks emitted # PreLoop stack st # fs) s =
     preorder_publish i r chunks emitted stack st fs s"
| "run_frames args i (PostBatch b [] st # fs) s = set_phase i (InTask (return_status st fs)) s"
| "run_frames args i (PostBatch b (p # ps) st # fs) s = postorder_iteration args i b p ps st fs s"
| "run_frames args i (PostVisit p e anc dev (item # items) r chunks emitted # fs) s =
     postorder_child args i p e anc dev item items r chunks emitted fs s"
| "run_frames args i (PostVisit p e anc dev [] r chunks emitted # fs) s =
     postorder_publish args i p e r chunks emitted fs s"
| "run_frames args i (PostSpill b chunks st # fs) s = postorder_spill i b chunks st fs s"
| "run_frames args i (NotifyBarrier b # fs) s = notify_round i b fs s"
| "run_frames args i (TaskEnd st # fs) s =
     set_phase i Popping (on_worker i (\<lambda>t. t\<lparr>wt_status := merge (wt_status t) st\<rparr>) (on_control task_finished s))"
| "run_frames args i fs s = s"

definition finish_worker :: "('rx, 'w) par_args \<Rightarrow> nat \<Rightarrow> 'w par_state \<Rightarrow> 'w par_state" where
  "finish_worker args i s =
     (case with_sink args i (worker_flush (pa_piped args)) s of
        (Inr st, s) \<Rightarrow>
          set_phase i Finished
            (s\<lparr>pr_results := pr_results s @
                [Inr \<lparr>report_status = merge (wt_status (pr_workers s ! i)) st,
                      report_errors = wt_errors (pr_workers s ! i)\<rparr>]\<rparr>)
      | (Inl err, s) \<Rightarrow>
          set_phase i Finished
            (on_control request_fatal_stop (s\<lparr>pr_results := pr_results s @ [Inl err]\<rparr>)))"

datatype worker_move = MovePop steal_choice | MoveExit | MoveRun

definition worker_step ::
  "('rx, 'w) par_args \<Rightarrow> nat \<Rightarrow> worker_move \<Rightarrow> 'w par_state \<Rightarrow> 'w par_state option" where
  "worker_step args i mv s =
     (if i \<ge> length (pr_workers s) then None
      else
        (case wt_phase (pr_workers s ! i) of
           Popping \<Rightarrow>
             (case mv of
                MovePop choice \<Rightarrow>
                  (case pop_task i choice (pr_queues s) of
                     Some (task, q) \<Rightarrow> Some (set_phase i (Popped task) (s\<lparr>pr_queues := q\<rparr>))
                   | None \<Rightarrow> None)
              | MoveExit \<Rightarrow>
                  if tq_locals (pr_queues s) ! i = [] \<and> workers_should_exit (pr_control s)
                  then Some (set_phase i Flushing s) else None
              | MoveRun \<Rightarrow> None)
         | Popped task \<Rightarrow> if mv = MoveRun then Some (start_task args i task s) else None
         | InTask fs \<Rightarrow> if mv = MoveRun then Some (run_frames args i fs s) else None
         | Flushing \<Rightarrow> if mv = MoveRun then Some (finish_worker args i s) else None
         | Finished \<Rightarrow> None))"

section \<open>The broker's steps and the run (parallel/engine.rs)\<close>

definition broker_step :: "('rx, 'w) par_args \<Rightarrow> 'w par_state \<Rightarrow> 'w par_state option" where
  "broker_step args s =
     (if pr_broker_result s \<noteq> None then None
      else
        (case bc_messages (bk_channel (pr_brokered s)) of
           msg # msgs \<Rightarrow>
             (case write_message (re_host (pa_env args)) msg (bk_world (pr_brokered s)) of
                (Inr _, w) \<Rightarrow>
                  Some (s\<lparr>pr_brokered := \<lparr>bk_channel = \<lparr>bc_messages = msgs, bc_open = True\<rparr>, bk_world = w\<rparr>\<rparr>)
              | (Inl err, w) \<Rightarrow>
                  Some (s\<lparr>pr_brokered := \<lparr>bk_channel = \<lparr>bc_messages = [], bc_open = False\<rparr>, bk_world = w\<rparr>,
                          pr_broker_result := Some (Inl err)\<rparr>))
         | [] \<Rightarrow>
             if \<forall>t\<in>set (pr_workers s). wt_phase t = Finished
             then Some (s\<lparr>pr_broker_result := Some (Inr ())\<rparr>) else None))"

inductive par_step :: "('rx, 'w) par_args \<Rightarrow> 'w par_state \<Rightarrow> 'w par_state \<Rightarrow> bool" for args where
  worker: "worker_step args i mv s = Some s' \<Longrightarrow> par_step args s s'"
| broker: "broker_step args s = Some s' \<Longrightarrow> par_step args s s'"

inductive par_reach :: "('rx, 'w) par_args \<Rightarrow> 'w par_state \<Rightarrow> 'w par_state \<Rightarrow> bool" for args s0 where
  start: "par_reach args s0 s0"
| step: "par_reach args s0 s \<Longrightarrow> par_step args s s' \<Longrightarrow> par_reach args s0 s'"

inductive_cases par_stepE: "par_step args s s'"

fun push_roots :: "path list \<Rightarrow> global_control \<Rightarrow> task_queues \<Rightarrow> global_control \<times> task_queues" where
  "push_roots [] c q = (c, q)"
| "push_roots (p # ps) c q =
     (let (c, q) = push_inject (PreOrderRoot (pre_order_root_for_path p 0)) c q in push_roots ps c q)"

definition idle_worker :: worker_thread where
  "idle_worker = \<lparr>wt_phase = Popping, wt_batches = bt_empty, wt_status = default_status, wt_errors = False\<rparr>"

definition worker_count :: "('rx, 'w) par_args \<Rightarrow> nat" where
  "worker_count args = max (requested_workers (plan_runtime_policy (pa_plan args))) 1"

definition par_start :: "('rx, 'w) par_args \<Rightarrow> 'w \<Rightarrow> 'w par_state" where
  "par_start args w =
     (let workers = worker_count args;
          (c, q) = push_roots (plan_start_paths (pa_plan args)) control_new (queues_new workers)
      in \<lparr>pr_control = c, pr_queues = q, pr_barriers = barriers_new,
          pr_brokered = \<lparr>bk_channel = open_channel, bk_world = w\<rparr>, pr_broker_result = None,
          pr_workers = replicate workers idle_worker, pr_results = [], pr_log = []\<rparr>)"

text \<open>The loop over the reports, then the threads are joined: the broker's error comes first.\<close>

fun collect_reports ::
  "worker_report result list \<Rightarrow> diagnostic option \<Rightarrow> bool \<Rightarrow> bool \<Rightarrow> diagnostic option \<times> bool \<times> bool" where
  "collect_reports [] first errors failures = (first, errors, failures)"
| "collect_reports (Inr report # reports) first errors failures =
     collect_reports reports first (errors \<or> report_errors report)
       (failures \<or> had_action_failures (report_status report))"
| "collect_reports (Inl err # reports) first errors failures =
     collect_reports reports (case first of None \<Rightarrow> Some err | Some f \<Rightarrow> Some f) errors failures"

definition parallel_summary :: "worker_report result list \<Rightarrow> unit result \<Rightarrow> run_summary result" where
  "parallel_summary reports broker =
     (let (first, errors, failures) = collect_reports reports None False False
      in case broker of
           Inl err \<Rightarrow> Inl err
         | Inr _ \<Rightarrow>
             (case first of
                Some err \<Rightarrow> Inl err
              | None \<Rightarrow> Inr \<lparr>had_runtime_errors = errors, summary_action_failures = failures\<rparr>))"

definition par_args_for ::
  "('rx, 'w) run_env \<Rightarrow> 'w piped_host \<Rightarrow> 'rx execution_plan \<Rightarrow> eval_context \<Rightarrow> nat \<Rightarrow> messages_locale option \<Rightarrow>
   ('rx, 'w) par_args" where
  "par_args_for env piped plan ctx files loc =
     \<lparr>pa_env = env, pa_piped = piped, pa_ctx = ctx, pa_plan = plan, pa_files = files,
      pa_prompt = (case loc of Some l \<Rightarrow> l | None \<Rightarrow> default_messages_locale)\<rparr>"

text \<open>The possible results of a run, with the final world.\<close>

inductive run_parallel_v2 ::
  "('rx, 'w) run_env \<Rightarrow> 'w piped_host \<Rightarrow> 'rx execution_plan \<Rightarrow> messages_locale option \<Rightarrow> 'w \<Rightarrow>
   run_summary result \<times> 'w \<Rightarrow> bool" for env piped plan loc w where
  no_context: "build_eval_context env plan = Inl err \<Longrightarrow> run_parallel_v2 env piped plan loc w (Inl err, w)"
| no_files: "build_eval_context env plan = Inr ctx \<Longrightarrow>
     open_all (re_host env) (plan_file_outputs plan) 0 w = (Inl err, w') \<Longrightarrow>
     run_parallel_v2 env piped plan loc w (Inl err, w')"
| joined: "build_eval_context env plan = Inr ctx \<Longrightarrow>
     open_all (re_host env) (plan_file_outputs plan) 0 w = (Inr files, w') \<Longrightarrow>
     args = par_args_for env piped plan ctx files loc \<Longrightarrow>
     par_reach args (par_start args w') s \<Longrightarrow> pr_broker_result s = Some broker \<Longrightarrow>
     \<forall>t\<in>set (pr_workers s). wt_phase t = Finished \<Longrightarrow>
     run_parallel_v2 env piped plan loc w (parallel_summary (pr_results s) broker, bk_world (pr_brokered s))"
end
