(* ===== verification/Parallel_Moves.thy ===== *)
theory Parallel_Moves
  imports Parallel_Worker
begin

text \<open>
  What one step of a worker does to its task, to the barriers, to the queues and to the log,
  without the output and the flags: the relation \<open>task_move\<close>.  The steps of \<open>Parallel_Worker\<close>
  refine it; the invariants of a run are proved for it.
\<close>

section \<open>Moves of a task\<close>

definition deep :: "('rx, 'w) par_args \<Rightarrow> entry \<Rightarrow> bool" where
  "deep args e \<longleftrightarrow> entry_depth e \<ge> min_depth args"

definition evaluated :: "('rx, 'w) par_args \<Rightarrow> entry \<Rightarrow> entry list" where
  "evaluated args e = (if deep args e then [e] else [])"

definition unreadable :: "('rx, 'w) par_args \<Rightarrow> pending_path \<Rightarrow> bool" where
  "unreadable args p \<longleftrightarrow>
     (case wb_load_entry (re_backend (pa_env args)) p of
        Inl error \<Rightarrow> True
      | Inr e \<Rightarrow> (case entry_control args e of Inl error \<Rightarrow> True | Inr verdict \<Rightarrow> False))"

definition readable :: "('rx, 'w) par_args \<Rightarrow> pending_path \<Rightarrow> entry \<Rightarrow> traversal_control \<Rightarrow> bool" where
  "readable args p e verdict \<longleftrightarrow>
     wb_load_entry (re_backend (pa_env args)) p = Inr e \<and> entry_control args e = Inr verdict"

definition identity_of :: "('rx, 'w) par_args \<Rightarrow> entry \<Rightarrow> file_identity option result" where
  "identity_of args e =
     wb_active_directory_identity (re_backend (pa_env args)) e (plan_follow_mode (pa_plan args))"

definition children_of :: "('rx, 'w) par_args \<Rightarrow> pending_path \<Rightarrow> discovered_child result list \<times> unit result" where
  "children_of args p = wb_visit_children (re_backend (pa_env args)) (pp_path p)"

text \<open>\<open>go\<close> tells whether new work is still accepted after the step.\<close>

inductive task_move ::
  "('rx, 'w) par_args \<Rightarrow> bool \<Rightarrow> task_frame list \<Rightarrow> barrier_table \<Rightarrow>
   task_frame list \<Rightarrow> parallel_task list \<Rightarrow> barrier_table \<Rightarrow> entry list \<Rightarrow> bool" for args go where
  loop_end: "task_move args go (PreLoop [] st # fs) t (return_status st fs) [] t []"
| loop_skip: "unreadable args p \<Longrightarrow> task_move args go (PreLoop (p # ps) st # fs) t (PreLoop ps st # fs) [] t []"
| loop_leaf: "readable args p e verdict \<Longrightarrow> descend_into args p e verdict = d \<Longrightarrow> (\<forall>x. d \<noteq> Inr (Some x)) \<Longrightarrow>
     L = (if pp_depth p \<ge> min_depth args then [e] else []) \<Longrightarrow> \<not> is_stop_requested st' \<or> st' = st \<Longrightarrow>
     task_move args go (PreLoop (p # ps) st # fs) t (PreLoop ps st' # fs) [] t L"
| loop_open: "readable args p e verdict \<Longrightarrow> descend_into args p e verdict = Inr (Some (anc, dev)) \<Longrightarrow>
     children_of args p = (items, r) \<Longrightarrow>
     L = (if pp_depth p \<ge> min_depth args then [e] else []) \<Longrightarrow> \<not> is_stop_requested st' \<or> st' = st \<Longrightarrow>
     task_move args go (PreLoop (p # ps) st # fs) t
       (PreVisit p anc dev items r fresh_chunks None # PreLoop ps st' # fs) [] t L"
| loop_child: "chunks_push (discovered_child_to_pending child p anc dev) may chunks = c1 \<Longrightarrow>
     take_spilled_chunks c1 = (spilled, c2) \<or> spilled = [] \<and> c2 = c1 \<Longrightarrow>
     task_move args go (PreVisit p anc dev (Inr child # items) r chunks em # fs) t
       (PreVisit p anc dev items r c2 em # fs) (chunk_tasks None spilled) t []"
| loop_item_error:
    "task_move args go (PreVisit p anc dev (Inl error # items) r chunks em # fs) t
       (PreVisit p anc dev items r chunks em' # fs) [] t []"
| loop_publish: "plan = chunks_finish chunks \<or> plan = chunks_finish (chunks_observe_quit chunks) \<Longrightarrow>
     task_move args go (PreVisit p anc dev [] (Inr u) chunks None # PreLoop ps st # fs) t
       (PreLoop (cp_local_stack plan @ ps) st # fs) (chunk_tasks None (cp_spilled_chunks plan)) t []"
| batch_end: "task_move args go (PostBatch b [] st # fs) t (return_status st fs) [] t []"
| batch_error: "q = with_completion b p \<Longrightarrow>
     unreadable args q \<or> (\<exists>e verdict error. readable args q e verdict \<and>
       (identity_of args e = Inl error \<or> (\<exists>x. identity_of args e = Inr (Some x)) \<and> descend_into args q e verdict = Inl error)) \<Longrightarrow>
     task_move args go (PostBatch b (p # ps) st # fs) t
       (notify_frames (notify_parent q) @ PostBatch b ps st # fs) [] t []"
| batch_leaf: "q = with_completion b p \<Longrightarrow> readable args q e verdict \<Longrightarrow>
     identity_of args e = Inr None \<or> (\<exists>x. identity_of args e = Inr (Some x)) \<and> descend_into args q e verdict = Inr None \<Longrightarrow>
     \<not> is_stop_requested st' \<Longrightarrow>
     task_move args go (PostBatch b (p # ps) st # fs) t
       (notify_frames (notify_parent q) @ return_status st' (PostBatch b ps st # fs)) [] t (evaluated args e)"
| batch_open: "q = with_completion b p \<Longrightarrow> readable args q e verdict \<Longrightarrow> identity_of args e = Inr (Some x) \<Longrightarrow>
     descend_into args q e verdict = Inr (Some (anc, dev)) \<Longrightarrow> children_of args q = (items, r) \<Longrightarrow>
     task_move args go (PostBatch b (p # ps) st # fs) t
       (PostVisit q e anc dev items r fresh_chunks None # PostBatch b ps st # fs) [] t []"
| visit_child: "chunks_push (discovered_child_to_pending child p anc dev) may chunks = c1 \<Longrightarrow>
     task_move args go (PostVisit p e anc dev (Inr child # items) r chunks em # fs) t
       (PostVisit p e anc dev items r c1 em # fs) [] t []"
| visit_item_error:
    "task_move args go (PostVisit p e anc dev (Inl error # items) r chunks em # fs) t
       (PostVisit p e anc dev items r chunks em' # fs) [] t []"
| visit_complete: "(\<exists>error. r = Inl error) \<or> chunk_children chunks = {#} \<Longrightarrow> \<not> is_stop_requested st \<Longrightarrow>
     task_move args go (PostVisit p e anc dev [] r chunks em # fs) t
       (notify_frames (notify_parent p) @ return_status st fs) [] t (evaluated args e)"
| visit_split: "plan = chunks_finish chunks \<Longrightarrow> cp_local_stack plan = [] \<Longrightarrow> cp_spilled_chunks plan \<noteq> [] \<Longrightarrow>
     begin_directory e (length (cp_spilled_chunks plan)) (notify_parent p) t = (b, t') \<Longrightarrow>
     task_move args go (PostVisit p e anc dev [] (Inr u) chunks None # fs) t
       (PostSpill b (cp_spilled_chunks plan) default_status # fs) [] t' []"
| visit_split_one: "plan = chunks_finish chunks \<Longrightarrow> cp_local_stack plan = [c] \<Longrightarrow>
     begin_directory e (length (cp_spilled_chunks plan) + 1) (notify_parent p) t = (b, t') \<Longrightarrow>
     task_move args go (PostVisit p e anc dev [] (Inr u) chunks None # fs) t
       (PostBatch (Some b) [under_barrier b c] default_status
        # PostSpill b (cp_spilled_chunks plan) default_status # fs) [] t' []"
| visit_split_many: "plan = chunks_finish chunks \<Longrightarrow> length (cp_local_stack plan) > 1 \<Longrightarrow>
     begin_directory e (length (cp_spilled_chunks plan) + 1) (notify_parent p) t = (b, t1) \<Longrightarrow>
     begin_batch (length (cp_local_stack plan)) b t1 = (b', t') \<Longrightarrow>
     task_move args go (PostVisit p e anc dev [] (Inr u) chunks None # fs) t
       (PostBatch (Some b') (map (under_barrier b) (cp_local_stack plan)) default_status
        # PostSpill b (cp_spilled_chunks plan) default_status # fs) [] t' []"
| spill: "\<not> is_stop_requested st \<Longrightarrow>
     task_move args go (PostSpill b chunks st # fs) t
       (return_status st fs) (chunk_tasks (Some b) (map (map (under_barrier b)) chunks)) t []"
| notify_wait: "finish_spilled_chunk b t = (None, t') \<Longrightarrow> task_move args go (NotifyBarrier b # fs) t fs [] t' []"
| notify_resume: "finish_spilled_chunk b t = (Some (ReleaseResume task), t') \<Longrightarrow>
     task_move args go (NotifyBarrier b # fs) t fs [PostOrderResume task] t' []"
| notify_up: "finish_spilled_chunk b t = (Some (ReleaseNotifyParent parent), t') \<Longrightarrow>
     task_move args go (NotifyBarrier b # fs) t (NotifyBarrier parent # fs) [] t' []"
| stopped: "\<not> go \<Longrightarrow> (\<forall>st. f \<noteq> TaskEnd st) \<Longrightarrow>
     task_move args go (f # fs) t (return_status st fs) [] t L"

inductive_cases task_moveE: "task_move args go fs t fs' tasks t' L"

section \<open>What a step leaves alone\<close>

definition phases :: "'w par_state \<Rightarrow> worker_phase list" where
  "phases s = map wt_phase (pr_workers s)"

lemma phases_length [simp]: "length (phases s) = length (pr_workers s)"
  by (simp add: phases_def)

lemma phases_nth [simp]: "i < length (pr_workers s) \<Longrightarrow> phases s ! i = wt_phase (pr_workers s ! i)"
  by (simp add: phases_def)

lemma phases_on_worker: "(\<And>t. wt_phase (f t) = wt_phase t) \<Longrightarrow> phases (on_worker i f s) = phases s"
  by (simp add: phases_def on_worker_def map_update list_update_same_conv [symmetric])
    (metis (no_types, lifting) length_map list_update_beyond list_update_id map_update not_le_imp_less nth_map)

lemma phases_update [simp]:
  "phases (s\<lparr>pr_control := c\<rparr>) = phases s" "phases (s\<lparr>pr_queues := q\<rparr>) = phases s"
  "phases (s\<lparr>pr_barriers := t\<rparr>) = phases s" "phases (s\<lparr>pr_results := r\<rparr>) = phases s"
  "phases (s\<lparr>pr_log := l\<rparr>) = phases s" "phases (s\<lparr>pr_brokered := b\<rparr>) = phases s"
  "phases (s\<lparr>pr_broker_result := x\<rparr>) = phases s"
  by (simp_all add: phases_def)

lemma on_worker_simps [simp]:
  "pr_control (on_worker i f s) = pr_control s" "pr_queues (on_worker i f s) = pr_queues s"
  "pr_barriers (on_worker i f s) = pr_barriers s" "pr_log (on_worker i f s) = pr_log s"
  "pr_brokered (on_worker i f s) = pr_brokered s" "pr_results (on_worker i f s) = pr_results s"
  "pr_broker_result (on_worker i f s) = pr_broker_result s"
  "length (pr_workers (on_worker i f s)) = length (pr_workers s)"
  by (simp_all add: on_worker_def)

lemma set_phase_simps [simp]:
  "pr_control (set_phase i ph s) = pr_control s" "pr_queues (set_phase i ph s) = pr_queues s"
  "pr_barriers (set_phase i ph s) = pr_barriers s" "pr_log (set_phase i ph s) = pr_log s"
  "pr_brokered (set_phase i ph s) = pr_brokered s" "pr_results (set_phase i ph s) = pr_results s"
  "pr_broker_result (set_phase i ph s) = pr_broker_result s"
  "phases (set_phase i ph s) = (phases s)[i := ph]"
  by (simp_all add: set_phase_def) (simp add: phases_def on_worker_def map_update)

lemma on_control_simps [simp]:
  "pr_control (on_control f s) = f (pr_control s)" "pr_queues (on_control f s) = pr_queues s"
  "pr_barriers (on_control f s) = pr_barriers s" "pr_log (on_control f s) = pr_log s"
  "pr_workers (on_control f s) = pr_workers s" "phases (on_control f s) = phases s"
  "pr_brokered (on_control f s) = pr_brokered s" "pr_results (on_control f s) = pr_results s"
  "pr_broker_result (on_control f s) = pr_broker_result s"
  by (simp_all add: on_control_def phases_def)

lemma note_error_simps [simp]:
  "pr_control (note_runtime_error i s) = pr_control s" "pr_queues (note_runtime_error i s) = pr_queues s"
  "pr_barriers (note_runtime_error i s) = pr_barriers s" "pr_log (note_runtime_error i s) = pr_log s"
  "phases (note_runtime_error i s) = phases s" "pr_results (note_runtime_error i s) = pr_results s"
  "pr_broker_result (note_runtime_error i s) = pr_broker_result s"
  by (simp_all add: note_runtime_error_def phases_on_worker)

text \<open>The shared control after a part of a step: as before, or asked to quit.\<close>

definition quit_or_same :: "global_control \<Rightarrow> global_control \<Rightarrow> bool" where
  "quit_or_same c c' \<longleftrightarrow> c' = c \<or> c' = request_quit c"

definition same_work :: "'w par_state \<Rightarrow> 'w par_state \<Rightarrow> bool" where
  "same_work s s' \<longleftrightarrow> pr_queues s' = pr_queues s \<and> pr_barriers s' = pr_barriers s \<and> phases s' = phases s
     \<and> pr_results s' = pr_results s \<and> pr_broker_result s' = pr_broker_result s"

lemma with_sink_same:
  assumes "with_sink args i f s = (r, s')"
  shows "same_work s s'" "pr_log s' = pr_log s" "pr_control s' = ws_control (snd (f (sink_of args i s)))"
    "r = fst (f (sink_of args i s))"
proof -
  obtain k where k: "f (sink_of args i s) = (r, k)" "s' = put_sink i k s"
    using assms by (auto simp: with_sink_def split: prod.splits)
  have "phases (put_sink i k s) = phases s"
    unfolding put_sink_def by (subst phases_on_worker) (simp_all add: phases_def)
  then show "same_work s s'" "pr_log s' = pr_log s" "pr_control s' = ws_control (snd (f (sink_of args i s)))"
    "r = fst (f (sink_of args i s))"
    using k by (auto simp: same_work_def put_sink_def)
qed

lemma emit_same:
  assumes "with_sink args i (emit_runtime_error error) s = (r, s')"
  shows "same_work s s'" "pr_log s' = pr_log s" "pr_control s' = pr_control s"
proof -
  note w = with_sink_same [OF assms]
  obtain x k where x: "emit_runtime_error error (sink_of args i s) = (x, k)" by fastforce
  then have "worker_same (sink_of args i s) k" unfolding emit_runtime_error_def by (rule worker_send_same)
  with w x show "same_work s s'" "pr_log s' = pr_log s" "pr_control s' = pr_control s"
    by (simp_all add: worker_same_def sink_of_def)
qed

interpretation wq: stopping_sink "worker_dispatch sv ctx host ph" "\<lambda>k. quit_or_same c (ws_control k)" sink_quit
proof unfold_locales
  fix s :: "'b worker_sink" and a e m
  assume q: "quit_or_same c (ws_control s)"
  obtain r s' where d: "worker_dispatch sv ctx host ph a e m s = (r, s')" by fastforce
  from worker_dispatch_cases [OF d] q have "quit_or_same c (ws_control s')"
    by (auto simp: worker_same_def quit_or_same_def request_quit_def)
  with d show "quit_or_same c (ws_control (snd (worker_dispatch sv ctx host ph a e m s)))" by simp
next
  fix s :: "'b worker_sink" and a e m out s'
  assume "worker_dispatch sv ctx host ph a e m s = (Inr out, s')" "is_stop_requested (status out)"
  then show "sink_quit s'" by (rule worker_dispatch_stop)
next
  fix s :: "'b worker_sink" and a e m
  assume q: "sink_quit s"
  obtain r s' where d: "worker_dispatch sv ctx host ph a e m s = (r, s')" by fastforce
  from worker_dispatch_cases [OF d] q have "sink_quit s'"
    by (auto simp: worker_same_quit) (auto simp: sink_quit_def request_quit_def)
  with d show "sink_quit (snd (worker_dispatch sv ctx host ph a e m s))" by simp
qed

lemma quit_or_same_refl [simp]: "quit_or_same c c"
  by (simp add: quit_or_same_def)

lemma sink_evaluate:
  assumes "process_entry_preorder_fast_path sv ctx host ph plan e k = (r, k')"
  shows "quit_or_same (ws_control k) (ws_control k')"
    "r = Inr st \<Longrightarrow> is_stop_requested st \<Longrightarrow> quit_seen (ws_control k')"
proof -
  let ?run = "evaluate_outcome (evaluate_predicate sv ctx) (worker_dispatch sv ctx host ph)
    (plan_expr plan) e (plan_follow_mode plan) k"
  have k': "k' = snd ?run" and r: "r = map_sum id status (fst ?run)"
    using assms by (auto simp: process_entry_preorder_fast_path_def elim!: then_io_E)
  show "quit_or_same (ws_control k) (ws_control k')"
    unfolding k' by (rule wq.evaluate_inv) simp
  assume "r = Inr st" "is_stop_requested st"
  with r obtain out where out: "?run = (Inr out, k')" "is_stop_requested (status out)"
    by (cases "fst ?run") (auto simp: k' prod_eq_iff)
  have "sink_quit k'" by (rule wq.evaluate_stop [OF quit_or_same_refl out])
  then show "quit_seen (ws_control k')" by (simp add: sink_quit_def)
qed

lemma process_entry_same:
  assumes "process_entry args i e s = (r, s')"
  shows "same_work s s'" "pr_log s' = pr_log s @ [e]" "quit_or_same (pr_control s) (pr_control s')"
    "r = Inr st \<Longrightarrow> is_stop_requested st \<Longrightarrow> quit_seen (pr_control s')"
proof -
  note w = with_sink_same [OF assms [unfolded process_entry_def]]
  obtain x k where x: "process_entry_preorder_fast_path (re_services (pa_env args)) (pa_ctx args)
       (re_host (pa_env args)) (pa_piped args) (pa_plan args) e (sink_of args i (s\<lparr>pr_log := pr_log s @ [e]\<rparr>)) = (x, k)"
    by fastforce
  note e = sink_evaluate [OF x]
  have "ws_control (sink_of args i (s\<lparr>pr_log := pr_log s @ [e]\<rparr>)) = pr_control s" by (simp add: sink_of_def)
  with w x e show "same_work s s'" "pr_log s' = pr_log s @ [e]" "quit_or_same (pr_control s) (pr_control s')"
    "r = Inr st \<Longrightarrow> is_stop_requested st \<Longrightarrow> quit_seen (pr_control s')"
    by (auto simp: same_work_def phases_def)
qed

section \<open>A step refines a move\<close>

definition control_ok :: "global_control \<Rightarrow> bool" where
  "control_ok c \<longleftrightarrow> (accept_new_work c \<longleftrightarrow> \<not> quit_seen c \<and> \<not> fatal_error_seen c)"

fun frame_status :: "task_frame \<Rightarrow> runtime_status option" where
  "frame_status (PreLoop ps st) = Some st"
| "frame_status (PostBatch b ps st) = Some st"
| "frame_status (PostSpill b chunks st) = Some st"
| "frame_status (TaskEnd st) = Some st"
| "frame_status _ = None"

definition calm :: "task_frame list \<Rightarrow> bool" where
  "calm fs \<longleftrightarrow> (\<forall>f\<in>set fs. case frame_status f of Some st \<Rightarrow> \<not> is_stop_requested st | None \<Rightarrow> True)"

lemma calm_simps [simp]:
  "calm []" "calm (f # fs) \<longleftrightarrow> (case frame_status f of Some st \<Rightarrow> \<not> is_stop_requested st | None \<Rightarrow> True) \<and> calm fs"
  "calm (fs @ fs') \<longleftrightarrow> calm fs \<and> calm fs'"
  by (auto simp: calm_def)

fun task_shape :: "task_frame list \<Rightarrow> bool" where
  "task_shape [] \<longleftrightarrow> False"
| "task_shape (TaskEnd st # fs) \<longleftrightarrow> fs = []"
| "task_shape (PreVisit p anc dev items r chunks em # PreLoop ps st # fs) \<longleftrightarrow>
     \<not> is_stop_requested st \<and> task_shape fs"
| "task_shape (PreVisit p anc dev items r chunks em # fs) \<longleftrightarrow> False"
| "task_shape (PreLoop ps st # fs) \<longleftrightarrow> \<not> is_stop_requested st \<and> task_shape fs"
| "task_shape (PostBatch b ps st # fs) \<longleftrightarrow> \<not> is_stop_requested st \<and> task_shape fs"
| "task_shape (f # fs) \<longleftrightarrow> task_shape fs"

lemma shape_return [simp]: "task_shape fs \<Longrightarrow> return_status default_status fs = fs"
  by (induction fs rule: task_shape.induct) simp_all

inductive task_outcome ::
  "('rx, 'w) par_args \<Rightarrow> nat \<Rightarrow> task_frame list \<Rightarrow> 'w par_state \<Rightarrow> 'w par_state \<Rightarrow> bool" for args i fs s where
  moved: "quit_or_same (pr_control s) c \<Longrightarrow> c = pr_control s \<or> tasks = [] \<Longrightarrow>
     push_all_local i tasks c (pr_queues s) = (pr_control s', pr_queues s') \<Longrightarrow>
     phases s' = (phases s)[i := InTask fs'] \<Longrightarrow> pr_log s' = pr_log s @ L \<Longrightarrow>
     pr_results s' = pr_results s \<Longrightarrow> pr_broker_result s' = pr_broker_result s \<Longrightarrow>
     task_move args (accepts_new_work (pr_control s')) fs (pr_barriers s) fs' tasks (pr_barriers s') L \<Longrightarrow>
     task_outcome args i fs s s'"
| ended: "fs = TaskEnd st # fs0 \<Longrightarrow> pr_control s' = task_finished (pr_control s) \<Longrightarrow>
     pr_queues s' = pr_queues s \<Longrightarrow> pr_barriers s' = pr_barriers s \<Longrightarrow> pr_log s' = pr_log s \<Longrightarrow>
     pr_results s' = pr_results s \<Longrightarrow> pr_broker_result s' = pr_broker_result s \<Longrightarrow>
     phases s' = (phases s)[i := Popping] \<Longrightarrow> task_outcome args i fs s s'"
| failed: "quit_or_same (pr_control s) c \<Longrightarrow> pr_control s' = request_fatal_stop (task_finished c) \<Longrightarrow>
     pr_queues s' = pr_queues s \<Longrightarrow> pr_barriers s' = pr_barriers s \<Longrightarrow>
     pr_results s' = pr_results s @ [Inl err] \<Longrightarrow> pr_broker_result s' = pr_broker_result s \<Longrightarrow>
     phases s' = (phases s)[i := Finished] \<Longrightarrow> task_outcome args i fs s s'"

lemma same_work_refl [simp]: "same_work s s"
  by (simp add: same_work_def)

lemma moved_quietly:
  assumes "same_work s s1" "quit_or_same (pr_control s) (pr_control s1)" "pr_log s1 = pr_log s @ L"
    and "task_move args (accepts_new_work (pr_control s1)) fs (pr_barriers s) fs' [] (pr_barriers s) L"
  shows "task_outcome args i fs s (set_phase i (InTask fs') s1)"
  using assms by (intro moved [of s "pr_control s1" "[]" i _ fs' L]) (simp_all add: same_work_def)

lemma moved_pushing:
  assumes "same_work s s1" "pr_control s1 = pr_control s" "pr_log s1 = pr_log s"
    and "task_move args (accepts_new_work (pr_control s)) fs (pr_barriers s) fs' tasks (pr_barriers s) []"
  shows "task_outcome args i fs s (set_phase i (InTask fs') (push_tasks i tasks s1))"
proof -
  obtain c q where p: "push_all_local i tasks (pr_control s) (pr_queues s) = (c, q)" by fastforce
  have acc: "push_all_local i tasks c0 q0 = (c, q) \<Longrightarrow> accepts_new_work c = accepts_new_work c0" for c0 q0 c q
    by (induction tasks arbitrary: c0 q0)
      (auto simp: push_local_def accepts_new_work_def task_spawned_def Let_def split: if_splits)
  have s1: "pr_queues s1 = pr_queues s" "pr_barriers s1 = pr_barriers s" "phases s1 = phases s"
    "pr_results s1 = pr_results s" "pr_broker_result s1 = pr_broker_result s"
    using assms(1) by (simp_all add: same_work_def)
  show ?thesis
    using assms p acc [OF p] s1
    by (intro moved [of s "pr_control s" tasks i _ fs' "[]"])
      (simp_all add: push_tasks_def)
qed

lemma fail_outcome:
  assumes "same_work s s1" "quit_or_same (pr_control s) (pr_control s1)"
  shows "task_outcome args i fs s (fail_task i err s1)"
proof -
  show ?thesis
    using assms
    by (intro failed [of s "pr_control s1"]) (simp_all add: fail_task_def same_work_def)
qed

lemma report_outcome:
  assumes "\<And>s1. same_work s s1 \<Longrightarrow> pr_log s1 = pr_log s \<Longrightarrow> pr_control s1 = pr_control s \<Longrightarrow>
    task_outcome args i fs s (k s1)"
  shows "task_outcome args i fs s (report_error args i error k s)"
proof -
  obtain r s1 where r: "with_sink args i (emit_runtime_error error) s = (r, s1)" by fastforce
  note e = emit_same [OF r]
  show ?thesis
  proof (cases r)
    case (Inl err)
    from fail_outcome [OF e(1), of args i fs err] e(3) show ?thesis by (simp add: report_error_def r Inl)
  next
    case (Inr u)
    have "same_work s (note_runtime_error i s1)" using e(1) by (simp add: same_work_def)
    with assms [OF this] e show ?thesis by (simp add: report_error_def r Inr)
  qed
qed

lemma report_then_move:
  assumes "task_move args (accepts_new_work (pr_control s)) fs (pr_barriers s) fs' [] (pr_barriers s) []"
  shows "task_outcome args i fs s (report_error args i error (set_phase i (InTask fs')) s)"
  using assms by (intro report_outcome moved_quietly [where L = "[]"]) simp_all

lemma stop_refuses: "control_ok (pr_control s) \<Longrightarrow> stop_seen s \<Longrightarrow> \<not> accepts_new_work (pr_control s)"
  by (auto simp: control_ok_def stop_seen_def accepts_new_work_def)

lemma quit_refuses:
  "control_ok c \<Longrightarrow> quit_or_same c c' \<Longrightarrow> quit_seen c' \<Longrightarrow> \<not> accepts_new_work c'"
  by (auto simp: control_ok_def quit_or_same_def accepts_new_work_def request_quit_def)

lemma stop_move:
  assumes "control_ok (pr_control s)" "same_work s s1" "quit_or_same (pr_control s) (pr_control s1)"
    and "quit_seen (pr_control s1) \<or> stop_seen s" "pr_log s1 = pr_log s @ L" "\<forall>st. f \<noteq> TaskEnd st"
  shows "task_outcome args i (f # fs) s (set_phase i (InTask (return_status st fs)) s1)"
proof -
  have "\<not> accepts_new_work (pr_control s1)"
  proof (cases "pr_control s1 = pr_control s")
    case True
    with assms(1,4) show ?thesis by (auto simp: control_ok_def stop_seen_def accepts_new_work_def)
  next
    case False
    with assms(3) show ?thesis by (simp add: quit_or_same_def request_quit_def accepts_new_work_def)
  qed
  then show ?thesis by (intro moved_quietly [OF assms(2,3,5)] task_move.stopped assms(6))
qed

lemma descend_outcome:
  assumes "same_work s s1" "quit_or_same (pr_control s) (pr_control s1)" "pr_log s1 = pr_log s @ L"
    and "readable args p e verdict" "L = (if pp_depth p \<ge> min_depth args then [e] else [])"
    and "\<not> is_stop_requested st' \<or> st' = st"
  shows "task_outcome args i (PreLoop (p # ps) st # fs) s (preorder_descend args i p e verdict ps st' fs s1)"
proof (cases "descend_into args p e verdict")
  case (Inl error)
  have leaf: "task_move args go (PreLoop (p # ps) st # fs) t (PreLoop ps st' # fs) [] t L" for go t
    by (rule loop_leaf [OF assms(4) Inl _ assms(5,6)]) simp
  obtain r s2 where r: "with_sink args i (emit_runtime_error error) s1 = (r, s2)" by fastforce
  note e = emit_same [OF r]
  have s2: "same_work s s2" using e(1) assms(1) by (simp add: same_work_def)
  show ?thesis
  proof (cases r)
    case err: (Inl err)
    show ?thesis
      unfolding preorder_descend_def Inl sum.case report_error_def r err prod.case
      by (rule fail_outcome [OF s2]) (use e assms(2) in simp)
  next
    case (Inr u)
    have "same_work s (note_runtime_error i s2)" using s2 by (simp add: same_work_def)
    then show ?thesis
      unfolding preorder_descend_def Inl sum.case report_error_def r Inr prod.case
      using e assms(2,3) by (intro moved_quietly [where L = L] leaf) simp_all
  qed
next
  case (Inr d)
  show ?thesis
  proof (cases d)
    case None
    show ?thesis
      unfolding preorder_descend_def Inr None sum.case option.case
      by (rule moved_quietly [OF assms(1-3)], rule loop_leaf [OF assms(4) Inr _ assms(5,6)]) (simp add: None)
  next
    case (Some x)
    obtain anc dev items r where x: "x = (anc, dev)" and items: "children_of args p = (items, r)"
      by (metis surj_pair)
    have "preorder_descend args i p e verdict ps st' fs s1 =
        set_phase i (InTask (PreVisit p anc dev items r fresh_chunks None # PreLoop ps st' # fs)) s1"
      using items by (simp add: preorder_descend_def Inr Some x children_of_def)
    moreover have "descend_into args p e verdict = Inr (Some (anc, dev))" using Inr Some x by simp
    ultimately show ?thesis
      using moved_quietly [OF assms(1-3) loop_open [OF assms(4) _ items assms(5,6)]] by simp
  qed
qed

lemma preorder_outcome:
  assumes "control_ok (pr_control s)" "\<not> is_stop_requested st"
  shows "task_outcome args i (PreLoop (p # ps) st # fs) s (preorder_iteration args i p ps st fs s)"
proof (cases "stop_seen s")
  case True
  then show ?thesis
    unfolding preorder_iteration_def by (simp add: stop_move [OF assms(1), where L = "[]"])
next
  case go: False
  show ?thesis
  proof (cases "unreadable args p")
    case True
    note m = report_then_move [OF loop_skip [OF True]]
    from True show ?thesis
      by (auto simp: preorder_iteration_def go unreadable_def m split: sum.splits)
  next
    case False
    then obtain e verdict where e: "wb_load_entry (re_backend (pa_env args)) p = Inr e"
      "entry_control args e = Inr verdict"
      by (auto simp: unreadable_def split: sum.splits)
    then have read: "readable args p e verdict" by (simp add: readable_def)
    show ?thesis
    proof (cases "pp_depth p \<ge> min_depth args")
      case False
      then have eq: "preorder_iteration args i p ps st fs s = preorder_descend args i p e verdict ps st fs s"
        by (simp add: preorder_iteration_def go e)
      show ?thesis
        unfolding eq by (rule descend_outcome [OF _ _ _ read, where L = "[]"]) (use False in simp_all)
    next
      case True
      obtain r s1 where r: "process_entry args i e s = (r, s1)" by fastforce
      note p = process_entry_same [OF r]
      show ?thesis
      proof (cases r)
        case (Inl err)
        from fail_outcome [OF p(1,3)] show ?thesis by (simp add: preorder_iteration_def go e True r Inl)
      next
        case (Inr st1)
        show ?thesis
        proof (cases "is_stop_requested (merge st st1)")
          case stop: True
          have eq: "preorder_iteration args i p ps st fs s =
              set_phase i (InTask (return_status (merge st st1) fs)) s1"
            using stop by (simp add: preorder_iteration_def go e True r Inr)
          have "is_stop_requested st1"
            using stop assms go by (auto simp: control_ok_def accepts_new_work_def stop_seen_def)
          from p(4) [OF Inr this] show ?thesis
            unfolding eq by (intro stop_move [OF assms(1) p(1,3) _ p(2)]) simp_all
        next
          case False
          have eq: "preorder_iteration args i p ps st fs s = preorder_descend args i p e verdict ps (merge st st1) fs s1"
            using False by (simp add: preorder_iteration_def go e True r Inr del: is_stop_merge)
          show ?thesis
            unfolding eq by (rule descend_outcome [OF p(1,3,2) read]) (use False True in simp_all)
        qed
      qed
    qed
  qed
qed

text \<open>Completing an entry in post-order: the log, then the notification.\<close>

lemma complete_outcome:
  assumes "control_ok (pr_control s)" "same_work s s0" "pr_control s0 = pr_control s" "pr_log s0 = pr_log s"
    and ok: "\<And>go st'. \<not> is_stop_requested st' \<Longrightarrow>
      task_move args go (f # fs) (pr_barriers s) (notify_frames n @ return_status st' gs) [] (pr_barriers s)
        (evaluated args e)"
    and stop: "\<And>st'. \<exists>st''. return_status st' gs = return_status st'' fs \<or> \<not> is_stop_requested st'"
    and idle: "return_status default_status gs = gs" and f: "\<forall>st. f \<noteq> TaskEnd st"
  shows "task_outcome args i (f # fs) s (complete_postorder_entry args i e n gs s0)"
proof (cases "entry_depth e \<ge> min_depth args")
  case False
  then have eq: "complete_postorder_entry args i e n gs s0 = set_phase i (InTask (notify_frames n @ gs)) s0"
    and L: "evaluated args e = []"
    by (simp_all add: complete_postorder_entry_def evaluated_def deep_def)
  from ok [of default_status] have "task_move args go (f # fs) (pr_barriers s) (notify_frames n @ gs) []
      (pr_barriers s) []" for go
    by (simp add: idle L)
  then show ?thesis
    unfolding eq using assms(2-4) by (intro moved_quietly [where L = "[]"]) simp_all
next
  case True
  then have L: "evaluated args e = [e]" by (simp add: evaluated_def deep_def)
  obtain r s1 where r: "process_entry args i e s0 = (r, s1)" by fastforce
  note p = process_entry_same [OF r]
  have s1: "same_work s s1" "pr_log s1 = pr_log s @ [e]" "quit_or_same (pr_control s) (pr_control s1)"
    using p(1-3) assms(2-4) by (simp_all add: same_work_def)
  show ?thesis
  proof (cases r)
    case (Inl err)
    from fail_outcome [OF s1(1,3)] show ?thesis by (simp add: complete_postorder_entry_def True r Inl)
  next
    case (Inr st1)
    show ?thesis
    proof (cases "is_stop_requested st1")
      case halt: True
      then obtain st'' where st'': "return_status st1 gs = return_status st'' fs" using stop by blast
      have eq: "complete_postorder_entry args i e n gs s0 = set_phase i (InTask (return_status st'' fs)) s1"
        by (simp add: complete_postorder_entry_def True r Inr halt st'')
      show ?thesis
        unfolding eq using p(4) [OF Inr halt] by (intro stop_move [OF assms(1) s1(1,3) _ s1(2) f]) simp
    next
      case False
      have eq: "complete_postorder_entry args i e n gs s0 =
          set_phase i (InTask (notify_frames n @ return_status st1 gs)) s1"
        by (simp add: complete_postorder_entry_def True r Inr False)
      show ?thesis
        unfolding eq by (rule moved_quietly [OF s1(1,3,2)]) (use ok [OF False] L in simp)
    qed
  qed
qed

lemma return_batch_stop:
  "is_stop_requested st' \<Longrightarrow> return_status st' (PostBatch b ps st # fs) = return_status (merge st st') fs"
  by simp

lemma batch_leaf_outcome:
  assumes "control_ok (pr_control s)" "\<not> is_stop_requested st" "q = with_completion b p" "readable args q e verdict"
    and "identity_of args e = Inr None
      \<or> (\<exists>x. identity_of args e = Inr (Some x)) \<and> descend_into args q e verdict = Inr None"
  shows "task_outcome args i (PostBatch b (p # ps) st # fs) s
    (complete_postorder_entry args i e (notify_parent q) (PostBatch b ps st # fs) s)"
  by (rule complete_outcome [OF assms(1)])
    (use batch_leaf [OF assms(3-5)] return_batch_stop assms(2) in \<open>auto simp del: return_status.simps(3)\<close>,
     auto simp: assms(2))

lemma postorder_outcome:
  assumes "control_ok (pr_control s)" "\<not> is_stop_requested st"
  shows "task_outcome args i (PostBatch b (p # ps) st # fs) s (postorder_iteration args i b p ps st fs s)"
proof (cases "stop_seen s")
  case True
  then show ?thesis
    unfolding postorder_iteration_def by (simp add: stop_move [OF assms(1), where L = "[]"])
next
  case go: False
  note calm = assms(2)
  let ?q = "with_completion b p" and ?fs = "PostBatch b ps st # fs"
  have eq: "postorder_iteration args i b p ps st fs s = run_postorder_pending_root args i ?q ?fs s"
    by (simp add: postorder_iteration_def go)
  have err: "task_outcome args i (PostBatch b (p # ps) st # fs) s (postorder_root_error args i error ?q ?fs s)"
    if "unreadable args ?q \<or> (\<exists>e verdict error. readable args ?q e verdict \<and>
       (identity_of args e = Inl error \<or> (\<exists>x. identity_of args e = Inr (Some x)) \<and> descend_into args ?q e verdict = Inl error))"
    for error
    unfolding postorder_root_error_def by (intro report_then_move batch_error [OF refl that])
  show ?thesis
  proof (cases "unreadable args ?q")
    case True
    with err show ?thesis
      by (auto simp: eq run_postorder_pending_root_def unreadable_def split: sum.splits)
  next
    case False
    then obtain e verdict where e: "wb_load_entry (re_backend (pa_env args)) ?q = Inr e"
      "entry_control args e = Inr verdict"
      by (auto simp: unreadable_def split: sum.splits)
    then have read: "readable args ?q e verdict" by (simp add: readable_def)
    note leaf = batch_leaf_outcome [OF assms(1) calm refl read]
    show ?thesis
    proof (cases "identity_of args e")
      case (Inl error)
      with err read show ?thesis
        by (auto simp: eq run_postorder_pending_root_def e identity_of_def)
    next
      case identity: (Inr identity)
      show ?thesis
      proof (cases identity)
        case None
        with leaf identity show ?thesis
          by (simp add: eq run_postorder_pending_root_def e identity_of_def)
      next
        case (Some x)
        show ?thesis
        proof (cases "descend_into args ?q e verdict")
          case (Inl error)
          with err [of error] read identity Some show ?thesis
            by (auto simp: eq run_postorder_pending_root_def e identity_of_def)
        next
          case (Inr d)
          show ?thesis
          proof (cases d)
            case None
            with leaf identity Some Inr show ?thesis
              by (simp add: eq run_postorder_pending_root_def e identity_of_def)
          next
            case dir: (Some y)
            obtain anc dev items r where y: "y = (anc, dev)" and items: "children_of args ?q = (items, r)"
              by (metis surj_pair)
            have open_eq: "run_postorder_pending_root args i ?q ?fs s =
                set_phase i (InTask (PostVisit ?q e anc dev items r fresh_chunks None # ?fs)) s"
              using items identity Some Inr dir y
              by (simp add: run_postorder_pending_root_def e identity_of_def children_of_def)
            have "task_move args go (PostBatch b (p # ps) st # fs) t
                (PostVisit ?q e anc dev items r fresh_chunks None # ?fs) [] t []" for go t
              by (rule batch_open [OF refl read _ _ items]) (use identity Some Inr dir y in simp_all)
            then show ?thesis
              unfolding eq open_eq by (intro moved_quietly [where L = "[]"]) simp_all
          qed
        qed
      qed
    qed
  qed
qed

lemma publish_outcome:
  assumes "control_ok (pr_control s)" "task_shape fs" "chunks_ok chunks"
  shows "task_outcome args i (PostVisit p e anc dev [] r chunks em # fs) s
    (postorder_publish args i p e r chunks em fs s)"
proof -
  have completes: "task_outcome args i (PostVisit p e anc dev [] r chunks em # fs) s
      (complete_postorder_entry args i e (notify_parent p) fs s0)"
    if "same_work s s0" "pr_control s0 = pr_control s" "pr_log s0 = pr_log s"
      "(\<exists>error. r = Inl error) \<or> chunk_children chunks = {#}" for s0
    by (rule complete_outcome [OF assms(1) that(1-3)])
      (use visit_complete [OF that(4)] assms(2) in auto)
  show ?thesis
  proof (cases r)
    case (Inl error)
    then show ?thesis
      unfolding postorder_publish_def Inl sum.case by (intro report_outcome) (use completes Inl in simp)
  next
    case (Inr u)
    show ?thesis
    proof (cases em)
      case (Some err)
      then show ?thesis using fail_outcome [of s s] by (simp add: postorder_publish_def Inr)
    next
      case None
      show ?thesis
      proof (cases "stop_seen s")
        case True
        then show ?thesis
          by (simp add: postorder_publish_def Inr None stop_move [OF assms(1), where L = "[]"])
      next
        case go: False
        let ?plan = "chunks_finish chunks"
        show ?thesis
        proof (cases "cp_local_stack ?plan = [] \<and> cp_spilled_chunks ?plan = []")
          case True
          then have "chunk_children chunks = {#}"
            using chunks_finish_ok(1) [OF assms(3)] by (simp add: plan_children_def)
          with completes [of s] True show ?thesis
            by (simp add: postorder_publish_def Inr None go Let_def)
        next
          case False
          obtain b t1 where b: "begin_directory e (length (cp_spilled_chunks ?plan)
              + (if cp_local_stack ?plan \<noteq> [] then 1 else 0)) (notify_parent p) (pr_barriers s) = (b, t1)" by fastforce
          let ?fs = "PostSpill b (cp_spilled_chunks ?plan) default_status # fs"
          have eq: "postorder_publish args i p e r chunks em fs s =
              (if cp_local_stack ?plan \<noteq> []
               then enter_postorder_batch i (map (under_barrier b) (cp_local_stack ?plan)) (Some b) ?fs (s\<lparr>pr_barriers := t1\<rparr>)
               else set_phase i (InTask ?fs) (s\<lparr>pr_barriers := t1\<rparr>))"
            using False b by (auto simp: postorder_publish_def Inr None go Let_def)
          have moved: "task_outcome args i (PostVisit p e anc dev [] r chunks em # fs) s
              (set_phase i (InTask fs') (s\<lparr>pr_barriers := t'\<rparr>))"
            if "\<And>go. task_move args go (PostVisit p e anc dev [] (Inr u) chunks None # fs) (pr_barriers s) fs' [] t' []"
            for fs' t'
            unfolding Inr None
            by (rule task_outcome.moved [of s "pr_control s" "[]" i _ fs' "[]"]) (use that in simp_all)
          consider (none) "cp_local_stack ?plan = []" | (one) c where "cp_local_stack ?plan = [c]"
            | (many) "length (cp_local_stack ?plan) > 1"
            by (cases "cp_local_stack ?plan"; cases "tl (cp_local_stack ?plan)") auto
          then show ?thesis
          proof cases
            case none
            then show ?thesis
              using False b by (simp add: eq) (intro moved visit_split [OF refl], simp_all)
          next
            case one
            have "task_move args go (PostVisit p e anc dev [] (Inr u) chunks None # fs) (pr_barriers s)
                (PostBatch (Some b) [under_barrier b c] default_status # ?fs) [] t1 []" for go
              by (rule visit_split_one [OF refl one]) (use b one in simp)
            from moved [OF this] show ?thesis by (simp add: eq one enter_postorder_batch_def)
          next
            case many
            then have local: "cp_local_stack ?plan \<noteq> []" by auto
            obtain b' t' where b': "begin_batch (length (cp_local_stack ?plan)) b t1 = (b', t')" by fastforce
            have "task_move args go (PostVisit p e anc dev [] (Inr u) chunks None # fs) (pr_barriers s)
                (PostBatch (Some b') (map (under_barrier b) (cp_local_stack ?plan)) default_status # ?fs) [] t' []" for go
              by (rule visit_split_many [OF refl many _ b']) (use b local in simp)
            from moved [OF this] show ?thesis
              using many local b' by (simp add: eq enter_postorder_batch_def)
          qed
        qed
      qed
    qed
  qed
qed

lemma preorder_child_outcome:
  "task_outcome args i (PreVisit p anc dev (item # items) r chunks em # fs) s
     (preorder_child args i p anc dev item items r chunks em fs s)"
proof (cases item)
  case (Inl error)
  obtain x s1 where x: "with_sink args i (emit_runtime_error error) s = (x, s1)" by fastforce
  note e = emit_same [OF x]
  have "same_work s (note_runtime_error i s1)" using e(1) by (simp add: same_work_def)
  then show ?thesis
    unfolding preorder_child_def Inl sum.case x prod.case Let_def
    by (rule moved_quietly [OF _ _ _ loop_item_error]) (use e in simp_all)
next
  case (Inr child)
  let ?c1 = "chunks_push (discovered_child_to_pending child p anc dev) (accepts_new_work (pr_control s)) chunks"
  obtain spilled c2 where take: "take_spilled_chunks ?c1 = (spilled, c2)" by fastforce
  show ?thesis
  proof (cases "accepts_new_work (pr_control s)")
    case True
    have "task_move args True (PreVisit p anc dev (Inr child # items) r chunks em # fs) (pr_barriers s)
        (PreVisit p anc dev items r c2 em # fs) (chunk_tasks None spilled) (pr_barriers s) []"
      by (rule loop_child [where may = True, OF refl]) (use take True in simp)
    from moved_pushing [OF same_work_refl refl refl, of args] this True take show ?thesis
      by (simp add: preorder_child_def Inr publish_preorder_sibling_chunks_def Let_def)
  next
    case False
    have "task_move args False (PreVisit p anc dev (Inr child # items) r chunks em # fs) (pr_barriers s)
        (PreVisit p anc dev items r ?c1 em # fs) (chunk_tasks None []) (pr_barriers s) []"
      by (rule loop_child [where may = "accepts_new_work (pr_control s)" and spilled = "[]"]) (rule refl, simp)
    with moved_quietly [OF same_work_refl quit_or_same_refl, of s "[]" args] False show ?thesis
      by (simp add: preorder_child_def Inr chunk_tasks_def Let_def)
  qed
qed

lemma preorder_publish_outcome:
  "task_outcome args i (PreVisit p anc dev [] r chunks em # PreLoop ps st # fs) s
     (preorder_publish i r chunks em ps st fs s)"
proof (cases r)
  case (Inl err)
  then show ?thesis using fail_outcome [OF same_work_refl quit_or_same_refl] by (simp add: preorder_publish_def)
next
  case (Inr u)
  show ?thesis
  proof (cases em)
    case (Some err)
    then show ?thesis
      using fail_outcome [OF same_work_refl quit_or_same_refl] by (simp add: preorder_publish_def Inr)
  next
    case None
    let ?plan = "chunks_finish (if quit_seen (pr_control s) then chunks_observe_quit chunks else chunks)"
    have m: "task_move args go (PreVisit p anc dev [] (Inr u) chunks None # PreLoop ps st # fs) (pr_barriers s)
        (PreLoop (cp_local_stack ?plan @ ps) st # fs) (chunk_tasks None (cp_spilled_chunks ?plan)) (pr_barriers s) []" for go
      by (rule loop_publish) simp
    show ?thesis
      unfolding Inr None preorder_publish_def sum.case option.case Let_def publish_preorder_sibling_chunks_def
      by (intro moved_pushing m) simp_all
  qed
qed

lemma postorder_child_outcome:
  "task_outcome args i (PostVisit p e anc dev (item # items) r chunks em # fs) s
     (postorder_child args i p e anc dev item items r chunks em fs s)"
proof (cases item)
  case (Inl error)
  obtain x s1 where x: "with_sink args i (emit_runtime_error error) s = (x, s1)" by fastforce
  note e = emit_same [OF x]
  have "same_work s (note_runtime_error i s1)" using e(1) by (simp add: same_work_def)
  then show ?thesis
    unfolding postorder_child_def Inl sum.case x prod.case Let_def
    by (rule moved_quietly [OF _ _ _ visit_item_error]) (use e in simp_all)
next
  case (Inr child)
  show ?thesis
    unfolding postorder_child_def Inr sum.case
    by (intro moved_quietly [where L = "[]"] visit_child refl) simp_all
qed

lemma spill_outcome:
  assumes "control_ok (pr_control s)" "accepts_new_work (pr_control s) \<longrightarrow> \<not> is_stop_requested st"
  shows "task_outcome args i (PostSpill b chunks st # fs) s (postorder_spill i b chunks st fs s)"
proof (cases "accepts_new_work (pr_control s)")
  case True
  with assms(2) show ?thesis
    by (simp add: postorder_spill_def) (intro moved_pushing spill, simp_all)
next
  case False
  then have "quit_seen (pr_control s) \<or> stop_seen s"
    using assms(1) by (auto simp: control_ok_def stop_seen_def accepts_new_work_def)
  with False show ?thesis
    by (simp add: postorder_spill_def) (intro stop_move [OF assms(1), where L = "[]"], simp_all)
qed

lemma notify_outcome: "task_outcome args i (NotifyBarrier b # fs) s (notify_round i b fs s)"
proof -
  obtain release t where f: "finish_spilled_chunk b (pr_barriers s) = (release, t)" by fastforce
  have moved: "task_outcome args i (NotifyBarrier b # fs) s (set_phase i (InTask fs') (s\<lparr>pr_barriers := t\<rparr>))"
    if "\<And>go. task_move args go (NotifyBarrier b # fs) (pr_barriers s) fs' [] t []" for fs'
    by (rule task_outcome.moved [of s "pr_control s" "[]" i _ fs' "[]"]) (use that in simp_all)
  show ?thesis
  proof (cases release)
    case None
    with moved [OF notify_wait] f show ?thesis by (simp add: notify_round_def)
  next
    case (Some r)
    show ?thesis
    proof (cases r)
      case (ReleaseNotifyParent parent)
      with moved [OF notify_up] f Some show ?thesis by (simp add: notify_round_def)
    next
      case (ReleaseResume task)
      obtain c q where p: "push_all_local i [PostOrderResume task] (pr_control s) (pr_queues s) = (c, q)" by fastforce
      have eq: "notify_round i b fs s =
          set_phase i (InTask fs) (s\<lparr>pr_barriers := t, pr_control := c, pr_queues := q\<rparr>)"
        using p by (simp add: notify_round_def f Some ReleaseResume Let_def push_tasks_def del: push_all_local.simps)
      show ?thesis
        unfolding eq
        by (rule task_outcome.moved [of s "pr_control s" "[PostOrderResume task]" i _ fs "[]"])
          (use p f Some ReleaseResume in \<open>auto intro: notify_resume\<close>)
    qed
  qed
qed

lemma batch_end_outcome:
  "task_outcome args i (PostBatch b [] st # fs) s (set_phase i (InTask (return_status st fs)) s)"
  by (rule moved_quietly [where L = "[]"]) (simp_all add: batch_end)

lemma end_outcome:
  "task_outcome args i (TaskEnd st # fs) s
     (set_phase i Popping (on_worker i (\<lambda>t. t\<lparr>wt_status := merge (wt_status t) st\<rparr>) (on_control task_finished s)))"
  by (rule ended [OF refl]) (simp_all add: phases_on_worker)

text \<open>What the accumulators of the open directories keep.\<close>

fun chunks_fine :: "task_frame \<Rightarrow> bool" where
  "chunks_fine (PreVisit p anc dev items r chunks em) \<longleftrightarrow> chunks_ok chunks"
| "chunks_fine (PostVisit p e anc dev items r chunks em) \<longleftrightarrow> chunks_ok chunks"
| "chunks_fine _ \<longleftrightarrow> True"

text \<open>
  A step of a worker inside a task does one of three things: it is a move of the task, with the
  tasks it spawns counted and queued; it ends the task; or it fails and stops the run.
\<close>

lemma worker_refines_moves:
  assumes "control_ok (pr_control s)" "task_shape fs" "\<forall>f\<in>set fs. chunks_fine f"
    and "accepts_new_work (pr_control s) \<longrightarrow> calm fs"
  shows "task_outcome args i fs s (run_frames args i fs s)"
  using assms
proof (cases "(args, i, fs, s)" rule: run_frames.cases)
  case (1 args i st fs s)
  then show ?thesis
    using assms by (auto intro!: moved_quietly [where L = "[]"] loop_end)
qed (use assms in \<open>auto intro!: preorder_outcome preorder_child_outcome preorder_publish_outcome postorder_outcome
  postorder_child_outcome publish_outcome batch_end_outcome end_outcome spill_outcome notify_outcome\<close>)

end
