(* ===== verification/Parallel_Run.thy ===== *)
theory Parallel_Run
  imports Parallel_Moves
begin

text \<open>
  What every run of the workers satisfies, under every interleaving: the count of tasks is the
  number of tasks queued or being run; nothing found in the file system is lost or evaluated
  twice; every barrier waits for exactly the units still to come; and every run ends.
\<close>

section \<open>The entries below a path\<close>

text \<open>What the walk needs of the back end to depend on the place in the tree only.\<close>

definition par_backend_ok :: "('rx, 'w) par_args \<Rightarrow> bool" where
  "par_backend_ok args \<longleftrightarrow>
     (let b = re_backend (pa_env args) in
        (\<forall>p e. wb_load_entry b p = Inr e \<longrightarrow> entry_depth e = pp_depth p)
      \<and> (\<forall>p bs c. wb_load_entry b (p\<lparr>pp_ancestor_barriers := bs, pp_parent_completion := c\<rparr>) = wb_load_entry b p)
      \<and> (\<forall>p items err. wb_visit_children b p = (items, Inl err) \<longrightarrow> items = []))"

text \<open>
  In pre-order the ordered walk drops an entry whose directory identity cannot be read and the
  workers evaluate it, so what the two have in common needs the identities.
\<close>

definition identities_found :: "('rx, 'w) par_args \<Rightarrow> bool" where
  "identities_found args \<longleftrightarrow>
     (to_order (plan_traversal (pa_plan args)) = PreOrder \<longrightarrow>
        (\<forall>p e err. wb_load_entry (re_backend (pa_env args)) p = Inr e \<longrightarrow>
           wb_active_directory_identity (re_backend (pa_env args)) e (plan_follow_mode (pa_plan args)) \<noteq> Inl err))"

definition plain :: "pending_path \<Rightarrow> pending_path" where
  "plain p = p\<lparr>pp_ancestor_barriers := [], pp_parent_completion := None\<rparr>"

definition tree_entries :: "('rx, 'w) par_args \<Rightarrow> pending_path \<Rightarrow> entry multiset" where
  "tree_entries args p = mset (deep_entries (pa_plan args) (walk_tree (pa_walk args) p))"

lemma deep_entries_append: "deep_entries plan (ms @ ms') = deep_entries plan ms @ deep_entries plan ms'"
  by (simp add: deep_entries_def)

lemma deep_entries_concat: "mset (deep_entries plan (concat mss)) = sum_list (map (\<lambda>ms. mset (deep_entries plan ms)) mss)"
  by (induction mss) (simp_all add: deep_entries_append, simp add: deep_entries_def)

lemma tree_entries_eq:
  "tree_entries args p =
     mset (deep_entries (pa_plan args) (fst (visit_node (pa_walk args) p)))
   + sum_list (map (tree_entries args) (node_kids (pa_walk args) p))
   + mset (deep_entries (pa_plan args) (snd (snd (visit_node (pa_walk args) p))))"
  unfolding tree_entries_def
  by (subst walk_tree_eq) (simp add: deep_entries_append deep_entries_concat comp_def)

lemma plain_fields:
  "plain p = plain q \<longleftrightarrow> pp_path p = pp_path q \<and> pp_root_path p = pp_root_path q \<and> pp_depth p = pp_depth q
     \<and> pp_is_root p = pp_is_root q \<and> pp_hint p = pp_hint q \<and> pp_ancestry p = pp_ancestry q
     \<and> pp_root_device p = pp_root_device q"
  by (cases p; cases q) (simp add: plain_def)

lemma plain_simps [simp]:
  "plain (with_completion b p) = plain p" "plain (under_barrier barrier p) = plain p"
  "pp_depth (with_completion b p) = pp_depth p"
  by (simp_all add: plain_fields with_completion_def under_barrier_def split: option.split)

lemma load_plain:
  assumes "par_backend_ok args" "plain p = plain q"
  shows "wb_load_entry (re_backend (pa_env args)) p = wb_load_entry (re_backend (pa_env args)) q"
proof -
  have "wb_load_entry (re_backend (pa_env args)) (plain r) = wb_load_entry (re_backend (pa_env args)) r" for r
    using assms(1) by (simp add: par_backend_ok_def plain_def Let_def)
  with assms(2) show ?thesis by metis
qed

lemma visit_node_plain:
  assumes "par_backend_ok args" "plain p = plain q"
  shows "fst (visit_node (pa_walk args) p) = fst (visit_node (pa_walk args) q)"
    "snd (snd (visit_node (pa_walk args) p)) = snd (snd (visit_node (pa_walk args) q))"
    "map plain (node_kids (pa_walk args) p) = map plain (node_kids (pa_walk args) q)"
proof -
  have f: "pp_path p = pp_path q" "pp_depth p = pp_depth q" "pp_ancestry p = pp_ancestry q"
    "pp_root_device p = pp_root_device q"
    using assms(2) by (simp_all add: plain_fields)
  have d: "should_descend_directory p e m opt v b = should_descend_directory q e m opt v b" for e m opt v b
    unfolding should_descend_directory_def f ..
  have c: "plain (child_pending p anc dev ch) = plain (child_pending q anc dev ch)" for anc dev ch
    using assms(2) by (simp add: plain_fields child_pending_def)
  note l = load_plain [OF assms]
  show "fst (visit_node (pa_walk args) p) = fst (visit_node (pa_walk args) q)"
    "snd (snd (visit_node (pa_walk args) p)) = snd (snd (visit_node (pa_walk args) q))"
    "map plain (node_kids (pa_walk args) p) = map plain (node_kids (pa_walk args) q)"
    unfolding node_kids_def visit_node_def d f
    by (simp_all add: plan_walk_args_def l c Let_def split: sum.split option.split)
qed

lemma tree_marks_plain:
  assumes "par_backend_ok args"
  shows "plain p = plain q \<Longrightarrow> tree_marks k (pa_walk args) p = tree_marks k (pa_walk args) q"
proof (induction k arbitrary: p q)
  case (Suc k)
  note v = visit_node_plain [OF assms Suc.prems]
  have "map (tree_marks k (pa_walk args)) ps = map (tree_marks k (pa_walk args)) qs"
    if "map plain ps = map plain qs" for ps qs
    using that
  proof (induction ps arbitrary: qs)
    case (Cons x ps)
    then obtain y ys where qs: "qs = y # ys" "plain x = plain y" "map plain ps = map plain ys" by (cases qs) auto
    from Cons.IH [OF qs(3)] Suc.IH [OF qs(2)] show ?case by (simp only: qs list.map)
  qed simp
  from this [OF v(3)] v show ?case by simp
qed simp

lemma tree_entries_plain: "par_backend_ok args \<Longrightarrow> plain p = plain q \<Longrightarrow> tree_entries args p = tree_entries args q"
  using tree_marks_plain [of args p q] plain_fields [of p q]
  by (simp add: tree_entries_def walk_tree_def room_def)

lemma tree_entries_simps [simp]:
  assumes "par_backend_ok args"
  shows "tree_entries args (with_completion b p) = tree_entries args p"
    "tree_entries args (under_barrier barrier p) = tree_entries args p"
  by (rule tree_entries_plain [OF assms]; simp)+

lemma child_to_pending [simp]: "discovered_child_to_pending child p anc dev = child_pending p anc dev child"
  by (simp add: discovered_child_to_pending_def child_pending_def)

definition item_entries ::
  "('rx, 'w) par_args \<Rightarrow> pending_path \<Rightarrow> file_identity list \<Rightarrow> u64 option \<Rightarrow> discovered_child result list \<Rightarrow> entry multiset" where
  "item_entries args p anc dev items =
     sum_list (map (\<lambda>item. case item of
        Inr child \<Rightarrow> tree_entries args (child_pending p anc dev child) | Inl error \<Rightarrow> {#}) items)"

lemma item_entries_split:
  "item_entries args p anc dev items =
     sum_list (map (tree_entries args) (map (child_pending p anc dev) (fst (split_children items))))"
  by (induction items) (auto simp: item_entries_def split: prod.splits sum.splits)

lemma deep_entries_simps [simp]:
  "deep_entries (pa_plan args) [] = []"
  "deep_entries (pa_plan args) (MarkError x # ms) = deep_entries (pa_plan args) ms"
  "deep_entries (pa_plan args) (MarkEntry e # ms) = evaluated args e @ deep_entries (pa_plan args) ms"
  "deep_entries (pa_plan args) (MarkDone e # ms) = evaluated args e @ deep_entries (pa_plan args) ms"
  "deep_entries (pa_plan args) (map MarkError errs) = []"
  by (simp_all add: deep_entries_def evaluated_def deep_def min_depth_def comp_def)

lemma tree_entries_unreadable: "unreadable args p \<Longrightarrow> tree_entries args p = {#}"
  by (subst tree_entries_eq)
    (auto simp: unreadable_def entry_control_def visit_node_def node_kids_def plan_walk_args_def split: sum.splits)

text \<open>The node of a readable path, spelled out.\<close>

lemma visit_readable:
  assumes "readable args p e verdict" "identity_of args e = Inr identity"
  defines "late \<equiv> to_order (plan_traversal (pa_plan args)) = DepthFirstPostOrder \<and> identity \<noteq> None"
  shows "tree_entries args p =
     (case descend_into args p e verdict of
        Inl error \<Rightarrow> if late then {#} else mset (evaluated args e)
      | Inr None \<Rightarrow> mset (evaluated args e)
      | Inr (Some (anc, dev)) \<Rightarrow>
          mset (evaluated args e)
          + (case children_of args p of (items, Inl err) \<Rightarrow> {#} | (items, Inr _) \<Rightarrow> item_entries args p anc dev items))"
proof -
  have c: "wk_control (pa_walk args) e = Inr verdict" "wb_load_entry (wk_backend (pa_walk args)) p = Inr e"
    "wb_active_directory_identity (wk_backend (pa_walk args)) e (wk_mode (pa_walk args)) = Inr identity"
    "should_descend_directory p e (wk_mode (pa_walk args)) (wk_options (pa_walk args)) verdict
       (wk_backend (pa_walk args)) = descend_into args p e verdict"
    "wb_visit_children (wk_backend (pa_walk args)) (pp_path p) = children_of args p"
    "to_order (wk_options (pa_walk args)) = to_order (plan_traversal (pa_plan args))"
    using assms(1,2) by (simp_all add: plan_walk_args_def readable_def entry_control_def identity_of_def
        descend_into_def children_of_def)
  show ?thesis
    by (subst tree_entries_eq)
      (auto simp: visit_node_def node_kids_def c late_def read_children_def item_entries_split comp_def
        Let_def split: sum.splits option.splits prod.splits)
qed

lemma descend_needs_directory:
  "descend_into args p e verdict = Inr (Some x) \<Longrightarrow> \<exists>i. identity_of args e = Inr (Some i)"
  by (auto simp: descend_into_def should_descend_directory_def identity_of_def Let_def try_bind_Inr_iff
      split: if_splits option.splits)

lemma backend_items: "par_backend_ok args \<Longrightarrow> children_of args p = (items, Inl err) \<Longrightarrow> items = []"
  unfolding par_backend_ok_def children_of_def Let_def by blast

lemma backend_depth: "par_backend_ok args \<Longrightarrow> readable args p e verdict \<Longrightarrow> entry_depth e = pp_depth p"
  unfolding par_backend_ok_def readable_def Let_def by blast

lemma open_entries:
  assumes "par_backend_ok args" "readable args p e verdict" "descend_into args p e verdict = Inr (Some (anc, dev))"
    "children_of args p = (items, r)"
  shows "tree_entries args p = mset (evaluated args e) + item_entries args p anc dev items"
proof -
  from descend_needs_directory [OF assms(3)] obtain i where i: "identity_of args e = Inr (Some i)" by blast
  have "r = Inl err \<Longrightarrow> item_entries args p anc dev items = {#}" for err
    using backend_items [OF assms(1), of p items err] assms(4) by (simp add: item_entries_def)
  then show ?thesis
    using visit_readable [OF assms(2) i] assms(3,4) by (cases r) auto
qed

lemma leaf_entries:
  assumes "identities_found args" "readable args p e verdict" "\<forall>x. descend_into args p e verdict \<noteq> Inr (Some x)"
    and "to_order (plan_traversal (pa_plan args)) = PreOrder"
  shows "tree_entries args p = mset (evaluated args e)"
proof -
  obtain identity where "identity_of args e = Inr identity"
    using assms(1,2,4)
    by (cases "identity_of args e") (auto simp: identities_found_def identity_of_def readable_def)
  from visit_readable [OF assms(2) this] assms(3,4) show ?thesis
    by (auto split: sum.splits option.splits)
qed

lemma post_leaf_entries:
  assumes "par_backend_ok args" "readable args p e verdict"
    and "identity_of args e = Inr None
      \<or> (\<exists>x. identity_of args e = Inr (Some x)) \<and> descend_into args p e verdict = Inr None"
  shows "tree_entries args p = mset (evaluated args e)"
proof -
  from assms(3) obtain identity where id: "identity_of args e = Inr identity" by auto
  show ?thesis
  proof (cases identity)
    case None
    then have "\<forall>x. descend_into args p e verdict \<noteq> Inr (Some x)"
      using descend_needs_directory [of args p e verdict] id by auto
    with visit_readable [OF assms(2) id] None show ?thesis by (auto split: sum.splits option.splits)
  next
    case (Some i)
    with visit_readable [OF assms(2) id] id assms(3) show ?thesis by auto
  qed
qed

lemma post_error_entries:
  assumes "readable args p e verdict" "to_order (plan_traversal (pa_plan args)) = DepthFirstPostOrder"
    and "identity_of args e = Inl error
      \<or> (\<exists>x. identity_of args e = Inr (Some x)) \<and> descend_into args p e verdict = Inl error"
  shows "tree_entries args p = {#}"
  using assms(3)
proof
  assume id: "identity_of args e = Inl error"
  have c: "wk_control (pa_walk args) e = Inr verdict" "wb_load_entry (wk_backend (pa_walk args)) p = Inr e"
    "wb_active_directory_identity (wk_backend (pa_walk args)) e (wk_mode (pa_walk args)) = Inl error"
    using assms(1) id by (simp_all add: plan_walk_args_def readable_def entry_control_def identity_of_def)
  show ?thesis by (subst tree_entries_eq) (simp add: visit_node_def node_kids_def c)
next
  assume "(\<exists>x. identity_of args e = Inr (Some x)) \<and> descend_into args p e verdict = Inl error"
  then obtain x where "identity_of args e = Inr (Some x)" "descend_into args p e verdict = Inl error" by blast
  with visit_readable [OF assms(1) this(1)] assms(2) show ?thesis by simp
qed

section \<open>Weighing a state\<close>

text \<open>
  A state weighed by values of its queued tasks, of the phases of its workers and of its barriers,
  in any commutative monoid: multisets of entries for what is still to be evaluated, numbers for
  the units a barrier still waits for and for the steps that remain.
\<close>

definition table_sum :: "(barrier_record \<Rightarrow> 'a :: comm_monoid_add) \<Rightarrow> barrier_table \<Rightarrow> 'a" where
  "table_sum fr t =
     (\<Sum>k<bt_next_id t. case bt_records t (SubtreeBarrierId k) of None \<Rightarrow> 0 | Some r \<Rightarrow> fr r)"

definition total ::
  "(parallel_task \<Rightarrow> 'a) \<Rightarrow> (worker_phase \<Rightarrow> 'a) \<Rightarrow> (barrier_record \<Rightarrow> 'a :: comm_monoid_add) \<Rightarrow> 'w par_state \<Rightarrow> 'a" where
  "total ft fp fr s =
     (\<Sum>task\<in>#queued (pr_queues s). ft task) + sum_list (map fp (phases s)) + table_sum fr (pr_barriers s)"

lemma sum_list_update_phase:
  fixes f :: "'b \<Rightarrow> 'a :: comm_monoid_add"
  shows "i < length xs \<Longrightarrow> sum_list (map f (xs[i := y])) + f (xs ! i) = sum_list (map f xs) + f y"
proof (induction xs arbitrary: i)
  case (Cons x xs)
  show ?case
  proof (cases i)
    case (Suc j)
    with Cons.IH [of j] Cons.prems show ?thesis by (simp add: add.assoc)
  qed (simp add: ac_simps)
qed simp

lemma table_sum_directory:
  "begin_directory e n notify t = (b, t') \<Longrightarrow> table_sum fr t' = table_sum fr t + fr (BarrierDirectory e n notify)"
  by (auto simp: begin_directory_def table_sum_def Let_def)

lemma table_sum_batch:
  "begin_batch n parent t = (b, t') \<Longrightarrow> table_sum fr t' = table_sum fr t + fr (BarrierBatch n parent)"
  by (auto simp: begin_batch_def table_sum_def Let_def)

lemma table_sum_split:
  assumes "k < bt_next_id t"
  shows "table_sum fr t = (case bt_records t (SubtreeBarrierId k) of None \<Rightarrow> 0 | Some r \<Rightarrow> fr r)
    + (\<Sum>j\<in>{..<bt_next_id t} - {k}. case bt_records t (SubtreeBarrierId j) of None \<Rightarrow> 0 | Some r \<Rightarrow> fr r)"
  unfolding table_sum_def by (rule sum.remove) (use assms in auto)

lemma table_sum_update:
  assumes "barriers_ok t" "bt_records t b = Some r"
  shows "table_sum fr (t\<lparr>bt_records := (bt_records t)(b := x)\<rparr>) + fr r
    = table_sum fr t + (case x of None \<Rightarrow> 0 | Some r' \<Rightarrow> fr r')"
proof -
  obtain k where b: "b = SubtreeBarrierId k" by (cases b)
  with assms have k: "k < bt_next_id t" by (simp add: barriers_ok_def)
  let ?t = "t\<lparr>bt_records := (bt_records t)(b := x)\<rparr>"
  have "(\<Sum>j\<in>{..<bt_next_id ?t} - {k}. case bt_records ?t (SubtreeBarrierId j) of None \<Rightarrow> 0 | Some r \<Rightarrow> fr r)
      = (\<Sum>j\<in>{..<bt_next_id t} - {k}. case bt_records t (SubtreeBarrierId j) of None \<Rightarrow> 0 | Some r \<Rightarrow> fr r)"
    by (rule sum.cong) (auto simp: b)
  moreover have "k < bt_next_id ?t" using k by simp
  ultimately show ?thesis
    using table_sum_split [OF k, of fr] table_sum_split [of k ?t fr] assms(2) by (simp add: b ac_simps)
qed

text \<open>Finishing a unit: the record goes down by one, or it goes away and is released.\<close>

fun record_units :: "barrier_record \<Rightarrow> nat" where
  "record_units (BarrierDirectory e n notify) = n"
| "record_units (BarrierBatch n parent) = n"

fun record_less :: "barrier_record \<Rightarrow> barrier_record" where
  "record_less (BarrierDirectory e n notify) = BarrierDirectory e (n - 1) notify"
| "record_less (BarrierBatch n parent) = BarrierBatch (n - 1) parent"

fun release_of :: "barrier_record \<Rightarrow> barrier_release" where
  "release_of (BarrierDirectory e n notify) = ReleaseResume \<lparr>rt_entry = e, rt_notify_parent = notify\<rparr>"
| "release_of (BarrierBatch n parent) = ReleaseNotifyParent parent"

lemma finish_cases:
  assumes "finish_spilled_chunk b t = (release, t')"
  obtains (gone) "bt_records t b = None" "release = None" "t' = t"
    | (less) r where "bt_records t b = Some r" "record_units r > 1" "release = None"
        "t' = t\<lparr>bt_records := (bt_records t)(b \<mapsto> record_less r)\<rparr>"
    | (last) r where "bt_records t b = Some r" "record_units r \<le> 1" "release = Some (release_of r)"
        "t' = t\<lparr>bt_records := (bt_records t)(b := None)\<rparr>"
  using assms
  by (cases "bt_records t b"; cases "the (bt_records t b)") (auto simp: finish_spilled_chunk_def split: if_splits)

section \<open>What is still to be evaluated\<close>

definition pend_entries :: "('rx, 'w) par_args \<Rightarrow> pending_path list \<Rightarrow> entry multiset" where
  "pend_entries args ps = sum_list (map (tree_entries args) ps)"

definition chunk_entries :: "('rx, 'w) par_args \<Rightarrow> chunk_accumulator \<Rightarrow> entry multiset" where
  "chunk_entries args chunks = (\<Sum>p\<in>#chunk_children chunks. tree_entries args p)"

fun frame_rest :: "('rx, 'w) par_args \<Rightarrow> task_frame \<Rightarrow> entry multiset" where
  "frame_rest args (PreLoop ps st) = pend_entries args ps"
| "frame_rest args (PreVisit p anc dev items r chunks em) = item_entries args p anc dev items + chunk_entries args chunks"
| "frame_rest args (PostBatch b ps st) = pend_entries args ps"
| "frame_rest args (PostVisit p e anc dev items r chunks em) =
     item_entries args p anc dev items + chunk_entries args chunks + mset (evaluated args e)"
| "frame_rest args (PostSpill b chunks st) = pend_entries args (concat chunks)"
| "frame_rest args (NotifyBarrier b) = {#}"
| "frame_rest args (TaskEnd st) = {#}"

definition frames_rest :: "('rx, 'w) par_args \<Rightarrow> task_frame list \<Rightarrow> entry multiset" where
  "frames_rest args fs = sum_list (map (frame_rest args) fs)"

fun task_rest :: "('rx, 'w) par_args \<Rightarrow> parallel_task \<Rightarrow> entry multiset" where
  "task_rest args (PreOrderRoot root) = tree_entries args (prt_pending root)"
| "task_rest args (SiblingChunk chunk) = pend_entries args (sct_pending chunk)"
| "task_rest args (PostOrderResume resume) = mset (evaluated args (rt_entry resume))"

fun record_rest :: "('rx, 'w) par_args \<Rightarrow> barrier_record \<Rightarrow> entry multiset" where
  "record_rest args (BarrierDirectory e n notify) = mset (evaluated args e)"
| "record_rest args (BarrierBatch n parent) = {#}"

fun phase_rest :: "('rx, 'w) par_args \<Rightarrow> worker_phase \<Rightarrow> entry multiset" where
  "phase_rest args (Popped task) = task_rest args task"
| "phase_rest args (InTask fs) = frames_rest args fs"
| "phase_rest args _ = {#}"

lemma pend_entries_simps [simp]:
  "pend_entries args [] = {#}" "pend_entries args (p # ps) = tree_entries args p + pend_entries args ps"
  "pend_entries args (ps @ qs) = pend_entries args ps + pend_entries args qs"
  by (simp_all add: pend_entries_def)

lemma pend_entries_mset: "pend_entries args ps = (\<Sum>p\<in>#mset ps. tree_entries args p)"
  by (induction ps) simp_all

lemma pend_entries_under [simp]:
  "par_backend_ok args \<Longrightarrow> pend_entries args (map (under_barrier b) ps) = pend_entries args ps"
  by (induction ps) simp_all

lemma frames_rest_simps [simp]:
  "frames_rest args [] = {#}" "frames_rest args (f # fs) = frame_rest args f + frames_rest args fs"
  "frames_rest args (fs @ gs) = frames_rest args fs + frames_rest args gs"
  "frames_rest args (notify_frames n) = {#}"
  by (simp_all add: frames_rest_def notify_frames_def split: option.split)

lemma item_entries_simps [simp]:
  "item_entries args p anc dev [] = {#}"
  "item_entries args p anc dev (Inl error # items) = item_entries args p anc dev items"
  "item_entries args p anc dev (Inr child # items) =
     tree_entries args (child_pending p anc dev child) + item_entries args p anc dev items"
  by (simp_all add: item_entries_def)

lemma chunk_entries_simps [simp]: "chunk_entries args fresh_chunks = {#}"
  by (simp add: chunk_entries_def fresh_chunks_def)

lemma chunk_entries_push:
  "chunks_ok chunks \<Longrightarrow> chunk_entries args (chunks_push child may chunks) = tree_entries args child + chunk_entries args chunks"
  by (simp add: chunk_entries_def chunks_push_ok(2))

lemma chunk_entries_take:
  "chunks_ok chunks \<Longrightarrow> take_spilled_chunks chunks = (spilled, chunks') \<Longrightarrow>
     chunk_entries args chunks = pend_entries args (concat spilled) + chunk_entries args chunks'"
  using chunks_take_ok(2) [of chunks spilled chunks'] by (simp add: chunk_entries_def pend_entries_mset)

lemma plan_entries:
  assumes "chunks_ok chunks" "plan = chunks_finish chunks \<or> plan = chunks_finish (chunks_observe_quit chunks)"
  shows "pend_entries args (cp_local_stack plan) + pend_entries args (concat (cp_spilled_chunks plan)) = chunk_entries args chunks"
proof -
  have "plan_children plan = chunk_children chunks"
    using assms chunks_finish_ok(1) chunks_quit_ok(1,2) by metis
  then show ?thesis by (simp add: chunk_entries_def plan_children_def pend_entries_mset flip: image_mset_union sum_mset.union)
qed

lemma tasks_rest_chunks [simp]:
  "sum_list (map (task_rest args) (chunk_tasks b chunks)) = pend_entries args (concat chunks)"
  by (induction chunks) (simp_all add: chunk_tasks_def)

lemma pend_entries_under_all [simp]:
  "par_backend_ok args \<Longrightarrow> pend_entries args (concat (map (map (under_barrier b)) chunks)) = pend_entries args (concat chunks)"
  by (induction chunks) simp_all

lemma return_rest:
  "calm fs \<Longrightarrow> \<not> is_stop_requested st \<Longrightarrow> frames_rest args (return_status st fs) = frames_rest args fs"
  by (induction st fs rule: return_status.induct) auto

section \<open>Well-formed tasks\<close>

abbreviation par_order :: "('rx, 'w) par_args \<Rightarrow> traversal_order" where
  "par_order args \<equiv> to_order (plan_traversal (pa_plan args))"

fun frame_fine :: "('rx, 'w) par_args \<Rightarrow> task_frame \<Rightarrow> bool" where
  "frame_fine args (PreLoop ps st) \<longleftrightarrow> par_order args = PreOrder"
| "frame_fine args (PreVisit p anc dev items r chunks em) \<longleftrightarrow> par_order args = PreOrder \<and> chunks_ok chunks"
| "frame_fine args (PostBatch b ps st) \<longleftrightarrow> par_order args = DepthFirstPostOrder
     \<and> (b = None \<longrightarrow> (\<forall>p\<in>set ps. pp_parent_completion p = None))"
| "frame_fine args (PostVisit p e anc dev items r chunks em) \<longleftrightarrow> par_order args = DepthFirstPostOrder
     \<and> chunks_ok chunks \<and> ((\<exists>err. r = Inl err) \<longrightarrow> items = [] \<and> chunk_children chunks = {#})"
| "frame_fine args (PostSpill b chunks st) \<longleftrightarrow> par_order args = DepthFirstPostOrder \<and> (\<forall>chunk\<in>set chunks. chunk \<noteq> [])"
| "frame_fine args (NotifyBarrier b) \<longleftrightarrow> par_order args = DepthFirstPostOrder"
| "frame_fine args (TaskEnd st) \<longleftrightarrow> True"

fun task_fine :: "('rx, 'w) par_args \<Rightarrow> parallel_task \<Rightarrow> bool" where
  "task_fine args (PreOrderRoot root) \<longleftrightarrow> pp_parent_completion (prt_pending root) = None"
| "task_fine args (SiblingChunk chunk) \<longleftrightarrow>
     (case sct_completion_barrier chunk of
        None \<Rightarrow> par_order args = PreOrder
      | Some b \<Rightarrow> par_order args = DepthFirstPostOrder \<and> sct_pending chunk \<noteq> [])"
| "task_fine args (PostOrderResume resume) \<longleftrightarrow> par_order args = DepthFirstPostOrder"

definition frames_fine :: "('rx, 'w) par_args \<Rightarrow> task_frame list \<Rightarrow> bool" where
  "frames_fine args fs \<longleftrightarrow> task_shape fs \<and> (\<forall>f\<in>set fs. frame_fine args f)"

lemma frame_fine_chunks: "frame_fine args f \<Longrightarrow> chunks_fine f"
  by (cases f) simp_all

lemma shape_top [simp]:
  "task_shape (f # fs) \<Longrightarrow> (\<forall>st. f \<noteq> TaskEnd st) \<Longrightarrow> task_shape fs"
  by (cases "f # fs" rule: task_shape.cases) auto

lemma fine_return:
  "frames_fine args fs \<Longrightarrow> frames_fine args (return_status st fs)"
  unfolding frames_fine_def
  by (induction st fs rule: return_status.induct) (simp_all split: if_splits)

lemma calm_return: "calm fs \<Longrightarrow> \<not> is_stop_requested st \<Longrightarrow> calm (return_status st fs)"
  by (induction st fs rule: return_status.induct) auto

lemma fine_simps [simp]:
  "frames_fine args (PreLoop ps st # fs) \<longleftrightarrow>
     par_order args = PreOrder \<and> \<not> is_stop_requested st \<and> frames_fine args fs"
  "frames_fine args (PreVisit p anc dev items r chunks em # PreLoop ps st # fs) \<longleftrightarrow>
     chunks_ok chunks \<and> frames_fine args (PreLoop ps st # fs)"
  "frames_fine args (PostBatch b ps st # fs) \<longleftrightarrow>
     frame_fine args (PostBatch b ps st) \<and> \<not> is_stop_requested st \<and> frames_fine args fs"
  "frames_fine args (PostVisit p e anc dev items r chunks em # fs) \<longleftrightarrow>
     frame_fine args (PostVisit p e anc dev items r chunks em) \<and> frames_fine args fs"
  "frames_fine args (PostSpill barrier spilled st # fs) \<longleftrightarrow> frame_fine args (PostSpill barrier spilled st) \<and> frames_fine args fs"
  "frames_fine args (NotifyBarrier barrier # fs) \<longleftrightarrow> par_order args = DepthFirstPostOrder \<and> frames_fine args fs"
  "frames_fine args [TaskEnd st]"
  by (auto simp: frames_fine_def)

lemma fine_notify [simp]:
  "frames_fine args (notify_frames n @ fs) \<longleftrightarrow> (n \<noteq> None \<longrightarrow> par_order args = DepthFirstPostOrder) \<and> frames_fine args fs"
  by (auto simp: notify_frames_def split: option.split)

lemma calm_notify [simp]: "calm (notify_frames n)"
  by (simp add: notify_frames_def split: option.split)

lemma fresh_chunks_ok [simp]: "chunks_ok fresh_chunks" "chunk_children fresh_chunks = {#}"
  by (simp_all add: fresh_chunks_def)

lemma visit_cases:
  assumes "frames_fine args (PreVisit p anc dev items r chunks em # fs)"
  obtains ps st fs' where "fs = PreLoop ps st # fs'"
  using assms by (cases "PreVisit p anc dev items r chunks em # fs" rule: task_shape.cases) (auto simp: frames_fine_def)

lemma default_goes_on [simp]: "\<not> is_stop_requested default_status"
  by (simp add: default_status_def is_stop_requested_def)

lemma tasks_fine_chunks:
  "(\<forall>chunk\<in>set chunks. chunk \<noteq> []) \<Longrightarrow> par_order args = DepthFirstPostOrder \<Longrightarrow>
     \<forall>task\<in>set (chunk_tasks (Some b) (map (map (under_barrier b)) chunks)). task_fine args task"
  "par_order args = PreOrder \<Longrightarrow> \<forall>task\<in>set (chunk_tasks None chunks'). task_fine args task"
  by (auto simp: chunk_tasks_def)

lemma move_fine:
  assumes "task_move args go fs t fs' tasks t' L" "par_backend_ok args" "frames_fine args fs"
  shows "frames_fine args fs' \<and> (\<forall>task\<in>set tasks. task_fine args task)"
  using assms(1)
proof cases
  case (loop_child child p anc dev may chunks c1 spilled c2 items r em fs0)
  with assms(3) obtain ps st fs1 where fs0: "fs0 = PreLoop ps st # fs1" by (auto elim: visit_cases)
  have "chunks_ok c2"
    using loop_child assms(3) chunks_push_ok(1) [of chunks] chunks_take_ok(1) [of c1 spilled c2] by (auto simp: fs0)
  then show ?thesis using loop_child assms(3) by (auto simp: fs0 tasks_fine_chunks)
next
  case (loop_item_error p anc dev error items r chunks em fs0 em')
  with assms(3) obtain ps st fs1 where "fs0 = PreLoop ps st # fs1" by (auto elim: visit_cases)
  then show ?thesis using loop_item_error assms(3) by auto
next
  case (batch_open q b p e verdict x anc dev items r ps st fs0)
  have "items = []" if "r = Inl err" for err
    using backend_items [OF assms(2)] batch_open that by blast
  then show ?thesis using batch_open assms(3) by auto
next
  case (visit_child child p anc dev may chunks c1 e items r em fs0)
  then show ?thesis using assms(3) chunks_push_ok(1) [of chunks] by auto
next
  case (visit_split plan chunks e p b u anc dev fs0)
  then show ?thesis using assms(3) chunks_finish_ok(2) [of chunks] by auto
next
  case (visit_split_one plan chunks c e p b u anc dev fs0)
  then show ?thesis using assms(3) chunks_finish_ok(2) [of chunks] by auto
next
  case (visit_split_many plan chunks e p b t1 b' u anc dev fs0)
  then show ?thesis using assms(3) chunks_finish_ok(2) [of chunks] by auto
next
  case (stopped f fs0 st)
  then have "frames_fine args fs0" using assms(3) shape_top by (auto simp: frames_fine_def)
  then show ?thesis using stopped fine_return by auto
qed (use assms(3) in \<open>auto intro: fine_return simp: tasks_fine_chunks\<close>)

lemma move_calm:
  assumes "task_move args True fs t fs' tasks t' L" "calm fs"
  shows "calm fs'"
  using assms(1) by cases (use assms(2) in \<open>auto intro: calm_return simp del: return_status.simps\<close>)

text \<open>
  A move keeps the balance: what it evaluates, what its loops, the tasks it spawns and the
  barriers still hold is what they held before.
\<close>

definition balance ::
  "('rx, 'w) par_args \<Rightarrow> task_frame list \<Rightarrow> barrier_table \<Rightarrow> task_frame list \<Rightarrow> parallel_task list \<Rightarrow>
   barrier_table \<Rightarrow> entry list \<Rightarrow> bool" where
  "balance args fs t fs' tasks t' L \<longleftrightarrow>
     mset L + frames_rest args fs' + sum_list (map (task_rest args) tasks) + table_sum (record_rest args) t'
     = frames_rest args fs + table_sum (record_rest args) t"

lemma finish_rest:
  assumes "barriers_ok t" "finish_spilled_chunk b t = (release, t')"
  shows "(case release of Some (ReleaseResume task) \<Rightarrow> task_rest args (PostOrderResume task) | _ \<Rightarrow> {#})
    + table_sum (record_rest args) t' = table_sum (record_rest args) t"
  using assms(2)
proof (cases rule: finish_cases)
  case (less r)
  have "record_rest args (record_less r) = record_rest args r" by (cases r) simp_all
  with table_sum_update [OF assms(1) less(1), of "record_rest args" "Some (record_less r)"] less show ?thesis by simp
next
  case (last r)
  have "(case release_of r of ReleaseResume task \<Rightarrow> task_rest args (PostOrderResume task) | ReleaseNotifyParent p \<Rightarrow> {#})
      = record_rest args r"
    by (cases r) simp_all
  with table_sum_update [OF assms(1) last(1), of "record_rest args" None] last show ?thesis
    by (simp add: ac_simps)
qed simp

lemma move_balance:
  assumes "task_move args True fs t fs' tasks t' L" "par_backend_ok args" "frames_fine args fs" "calm fs" "barriers_ok t"
    and "identities_found args"
  shows "balance args fs t fs' tasks t' L"
  using assms(1)
proof cases
  case (loop_skip p ps st fs0)
  then show ?thesis by (simp add: balance_def tree_entries_unreadable)
next
  case (loop_leaf p e verdict d st' st ps fs0)
  have "tree_entries args p = mset (evaluated args e)"
    by (rule leaf_entries [OF assms(6) loop_leaf(5)]) (use loop_leaf assms(3) in auto)
  moreover have "L = evaluated args e"
    using backend_depth [OF assms(2) loop_leaf(5)] loop_leaf(8) by (simp add: evaluated_def deep_def)
  ultimately show ?thesis using loop_leaf by (simp add: balance_def)
next
  case (loop_open p e verdict anc dev items r st' st ps fs0)
  have "L = evaluated args e"
    using backend_depth [OF assms(2) loop_open(5)] loop_open(8) by (simp add: evaluated_def deep_def)
  with open_entries [OF assms(2) loop_open(5-7)] loop_open show ?thesis by (simp add: balance_def)
next
  case (loop_child child p anc dev may chunks c1 spilled c2 items r em fs0)
  with assms(3) have ok: "chunks_ok chunks" by (auto simp: frames_fine_def)
  have "chunk_entries args c1 = pend_entries args (concat spilled) + chunk_entries args c2"
    using loop_child(7) chunk_entries_take [of c1 spilled c2] chunks_push_ok(1) [OF ok] loop_child(6) by auto
  moreover have "chunk_entries args c1 = tree_entries args (child_pending p anc dev child) + chunk_entries args chunks"
    using chunk_entries_push [OF ok] loop_child(6) by auto
  ultimately show ?thesis using loop_child(1-5) by (simp add: balance_def ac_simps)
next
  case (loop_publish plan chunks p anc dev u ps st fs0)
  with assms(3) have "chunks_ok chunks" by auto
  from plan_entries [OF this loop_publish(6)] loop_publish show ?thesis
    by (simp add: balance_def ac_simps)
next
  case (batch_error q b p ps st fs0)
  have "tree_entries args q = {#}"
    using batch_error(7) tree_entries_unreadable post_error_entries assms(3) batch_error(1) by (metis fine_simps(3) frame_fine.simps(3))
  with batch_error assms(2) show ?thesis by (simp add: balance_def)
next
  case (batch_leaf q b p e verdict st' ps st fs0)
  have "tree_entries args q = mset (evaluated args e)" by (rule post_leaf_entries [OF assms(2) batch_leaf(7,8)])
  moreover have "frames_rest args (return_status st' (PostBatch b ps st # fs0)) = frames_rest args (PostBatch b ps st # fs0)"
    by (rule return_rest) (use batch_leaf assms(4) in auto)
  ultimately show ?thesis using batch_leaf assms(2) by (simp add: balance_def del: return_status.simps)
next
  case (batch_open q b p e verdict x anc dev items r ps st fs0)
  from open_entries [OF assms(2) batch_open(7,9,10)] batch_open assms(2) show ?thesis by (simp add: balance_def ac_simps)
next
  case (visit_child child p anc dev may chunks c1 e items r em fs0)
  with assms(3) chunk_entries_push [of chunks] show ?thesis by (auto simp: balance_def ac_simps)
next
  case (visit_complete r chunks st p e anc dev em fs0)
  then have "chunk_children chunks = {#}" using assms(3) by auto
  moreover have "frames_rest args (return_status st fs0) = frames_rest args fs0"
    by (rule return_rest) (use visit_complete assms(4) in auto)
  ultimately show ?thesis using visit_complete by (simp add: balance_def chunk_entries_def)
next
  case (visit_split plan chunks e p b u anc dev fs0)
  then have "pend_entries args (concat (cp_spilled_chunks plan)) = chunk_entries args chunks"
    using plan_entries [of chunks plan args] assms(3) by auto
  with visit_split table_sum_directory [OF visit_split(8), of "record_rest args"] show ?thesis
    by (simp add: balance_def ac_simps)
next
  case (visit_split_one plan chunks c e p b u anc dev fs0)
  then have "tree_entries args c + pend_entries args (concat (cp_spilled_chunks plan)) = chunk_entries args chunks"
    using plan_entries [of chunks plan args] assms(3) by auto
  with visit_split_one table_sum_directory [OF visit_split_one(7), of "record_rest args"] assms(2) show ?thesis
    by (simp add: balance_def ac_simps)
next
  case (visit_split_many plan chunks e p b t1 b' u anc dev fs0)
  then have "pend_entries args (cp_local_stack plan) + pend_entries args (concat (cp_spilled_chunks plan)) = chunk_entries args chunks"
    using plan_entries [of chunks plan args] assms(3) by auto
  with visit_split_many table_sum_directory [OF visit_split_many(7), of "record_rest args"]
    table_sum_batch [OF visit_split_many(8), of "record_rest args"] assms(2) show ?thesis
    by (simp add: balance_def ac_simps)
next
  case (spill st b chunks fs0)
  moreover have "frames_rest args (return_status st fs0) = frames_rest args fs0"
    by (rule return_rest) (use spill assms(4) in auto)
  ultimately show ?thesis using assms(2) by (simp add: balance_def ac_simps)
next
  case (notify_wait b)
  with finish_rest [OF assms(5) notify_wait(4), of args] show ?thesis by (simp add: balance_def)
next
  case (notify_resume b task)
  with finish_rest [OF assms(5) notify_resume(4), of args] show ?thesis by (simp add: balance_def ac_simps)
next
  case (notify_up b parent fs0)
  with finish_rest [OF assms(5) notify_up(5), of args] show ?thesis by (simp add: balance_def)
qed (use assms(4) in \<open>auto simp: balance_def return_rest\<close>)

section \<open>What the barriers wait for\<close>

text \<open>The notifications of a barrier that are still to come.\<close>

definition one_if :: "bool \<Rightarrow> nat" where
  "one_if c = (if c then 1 else 0)"

lemma one_if_simps [simp]: "one_if True = 1" "one_if False = 0"
  by (simp_all add: one_if_def)

fun frame_units :: "subtree_barrier_id \<Rightarrow> task_frame \<Rightarrow> nat" where
  "frame_units b (PostBatch completion ps st) = (if completion = Some b then length ps else 0)"
| "frame_units b (PostVisit p e anc dev items r chunks em) = one_if (notify_parent p = Some b)"
| "frame_units b (PostSpill b' chunks st) = (if b' = b then length chunks else 0)"
| "frame_units b (NotifyBarrier b') = one_if (b' = b)"
| "frame_units b _ = 0"

definition frames_units :: "subtree_barrier_id \<Rightarrow> task_frame list \<Rightarrow> nat" where
  "frames_units b fs = sum_list (map (frame_units b) fs)"

fun task_units :: "subtree_barrier_id \<Rightarrow> parallel_task \<Rightarrow> nat" where
  "task_units b (PreOrderRoot root) = 0"
| "task_units b (SiblingChunk chunk) = one_if (sct_completion_barrier chunk = Some b)"
| "task_units b (PostOrderResume resume) = one_if (rt_notify_parent resume = Some b)"

fun record_claims :: "subtree_barrier_id \<Rightarrow> barrier_record \<Rightarrow> nat" where
  "record_claims b (BarrierDirectory e n notify) = one_if (notify = Some b)"
| "record_claims b (BarrierBatch n parent) = one_if (parent = b)"

fun phase_units :: "subtree_barrier_id \<Rightarrow> worker_phase \<Rightarrow> nat" where
  "phase_units b (Popped task) = task_units b task"
| "phase_units b (InTask fs) = frames_units b fs"
| "phase_units b _ = 0"

definition waiting :: "barrier_table \<Rightarrow> subtree_barrier_id \<Rightarrow> nat" where
  "waiting t b = (case bt_records t b of None \<Rightarrow> 0 | Some r \<Rightarrow> record_units r)"

text \<open>
  \<open>X\<close> counts the notifications to come from tasks; together with those that records will send
  when they are released, a barrier waits for exactly its notifications.  A record only claims
  barriers older than itself.
\<close>

definition units_ok :: "(subtree_barrier_id \<Rightarrow> nat) \<Rightarrow> barrier_table \<Rightarrow> bool" where
  "units_ok X t \<longleftrightarrow> barriers_ok t
   \<and> (\<forall>b. X b + table_sum (record_claims b) t = waiting t b)
   \<and> (\<forall>b r. bt_records t b = Some r \<longrightarrow> record_units r \<ge> 1)
   \<and> (\<forall>k j r. bt_records t (SubtreeBarrierId k) = Some r \<longrightarrow> record_claims (SubtreeBarrierId j) r > 0 \<longrightarrow> j < k)"

lemma frames_units_simps [simp]:
  "frames_units b [] = 0" "frames_units b (f # fs) = frame_units b f + frames_units b fs"
  "frames_units b (fs @ gs) = frames_units b fs + frames_units b gs"
  "frames_units b (notify_frames n) = one_if (n = Some b)"
  by (simp_all add: frames_units_def notify_frames_def split: option.split)

lemma tasks_units_chunks [simp]:
  "sum_list (map (task_units b) (chunk_tasks completion chunks)) = (if completion = Some b then length chunks else 0)"
  by (induction chunks) (simp_all add: chunk_tasks_def)

lemma return_units:
  "calm fs \<Longrightarrow> \<not> is_stop_requested st \<Longrightarrow> frames_units b (return_status st fs) = frames_units b fs"
  by (induction st fs rule: return_status.induct) auto

lemma notify_with_completion [simp]:
  "notify_parent (with_completion (Some b) p) = Some b"
  "notify_parent (with_completion None p) = notify_parent p"
  by (cases b) (simp_all add: with_completion_def notify_parent_def barrier_number_def)

lemma waiting_exists: "waiting t (SubtreeBarrierId k) > 0 \<Longrightarrow> barriers_ok t \<Longrightarrow> k < bt_next_id t"
  by (auto simp: waiting_def barriers_ok_def split: option.splits)

lemma units_waiting: "units_ok X t \<Longrightarrow> X b + table_sum (record_claims b) t = waiting t b"
  by (simp add: units_ok_def)

lemma units_begin:
  assumes "units_ok X t" "n \<ge> 1" "b = SubtreeBarrierId (bt_next_id t)" "\<And>b0. X b0 = Y b0 + record_claims b0 r"
    and "record_units r = n" "\<And>c. record_claims c r \<le> 1"
    and t': "t' = t\<lparr>bt_next_id := bt_next_id t + 1, bt_records := (bt_records t)(b \<mapsto> r)\<rparr>"
  shows "units_ok (\<lambda>b0. Y b0 + (if b0 = b then n else 0)) t'"
proof -
  have ok: "barriers_ok t" using assms(1) by (simp add: units_ok_def)
  have sum: "table_sum fr t' = table_sum fr t + fr r" for fr :: "barrier_record \<Rightarrow> nat"
    by (simp add: t' table_sum_def assms(3))
  have fresh: "bt_records t b = None" using barriers_ok_fresh [OF ok] assms(3) by simp
  have none: "X b = 0" "table_sum (record_claims b) t = 0" "record_claims b r = 0"
    using units_waiting [OF assms(1), of b] assms(4) [of b] fresh by (simp_all add: waiting_def)
  have older: "j < bt_next_id t" if "record_claims (SubtreeBarrierId j) r > 0" for j
    using waiting_exists [OF _ ok, of j] units_waiting [OF assms(1), of "SubtreeBarrierId j"]
      assms(4) [of "SubtreeBarrierId j"] that by simp
  show ?thesis
    unfolding units_ok_def
  proof (intro conjI allI impI)
    show "barriers_ok t'" using ok by (auto simp: barriers_ok_def t' assms(3) intro: less_SucI)
    show "Y b0 + (if b0 = b then n else 0) + table_sum (record_claims b0) t' = waiting t' b0" for b0
    proof (cases "b0 = b")
      case True
      have "waiting t' b = n" using assms(5) by (simp add: waiting_def t')
      with True none assms(4) [of b] show ?thesis by (simp add: sum)
    next
      case False
      then have "waiting t' b0 = waiting t b0" by (simp add: waiting_def t')
      with False units_waiting [OF assms(1), of b0] assms(4) [of b0] show ?thesis by (simp add: sum)
    qed
    show "record_units r' \<ge> 1" if "bt_records t' b0 = Some r'" for b0 r'
      using that assms(1,2,5) by (auto simp: t' units_ok_def split: if_splits)
    show "j < k" if "bt_records t' (SubtreeBarrierId k) = Some r'" "record_claims (SubtreeBarrierId j) r' > 0" for k j r'
      using that assms(1,3) older by (auto simp: t' units_ok_def split: if_splits)
  qed
qed

lemma units_directory:
  assumes "units_ok X t" "n \<ge> 1" "begin_directory e n notify t = (b, t')"
    and "\<And>b0. X b0 = Y b0 + one_if (notify = Some b0)"
  shows "units_ok (\<lambda>b0. Y b0 + (if b0 = b then n else 0)) t'"
  by (rule units_begin [OF assms(1,2), where r = "BarrierDirectory e n notify"])
    (use assms(3,4) in \<open>auto simp: begin_directory_def Let_def one_if_def\<close>)

lemma units_batch:
  assumes "units_ok X t" "n \<ge> 1" "begin_batch n parent t = (b, t')" "\<And>b0. X b0 = Y b0 + one_if (parent = b0)"
  shows "units_ok (\<lambda>b0. Y b0 + (if b0 = b then n else 0)) t'"
  by (rule units_begin [OF assms(1,2), where r = "BarrierBatch n parent"])
    (use assms(3,4) in \<open>auto simp: begin_batch_def Let_def one_if_def\<close>)

definition release_units :: "subtree_barrier_id \<Rightarrow> barrier_release option \<Rightarrow> nat" where
  "release_units b release =
     (case release of
        None \<Rightarrow> 0
      | Some (ReleaseResume task) \<Rightarrow> task_units b (PostOrderResume task)
      | Some (ReleaseNotifyParent parent) \<Rightarrow> one_if (parent = b))"

lemma units_finish:
  assumes "units_ok X t" "finish_spilled_chunk b t = (release, t')" "\<And>b0. X b0 = Y b0 + one_if (b = b0)"
  shows "units_ok (\<lambda>b0. Y b0 + release_units b0 release) t'"
  using assms(2)
proof (cases rule: finish_cases)
  case gone
  then show ?thesis using units_waiting [OF assms(1), of b] assms(3) [of b] by (simp add: waiting_def)
next
  case (less r)
  have ok: "barriers_ok t" using assms(1) by (simp add: units_ok_def)
  have claims: "record_claims c (record_less r) = record_claims c r" for c by (cases r) simp_all
  have units: "record_units (record_less r) = record_units r - 1" by (cases r) simp_all
  have sum: "table_sum (record_claims c) t' = table_sum (record_claims c) t" for c
    using table_sum_update [OF ok less(1), of "record_claims c" "Some (record_less r)"] by (simp add: claims less(4))
  have "Y b0 + table_sum (record_claims b0) t' = waiting t' b0" for b0
  proof (cases "b0 = b")
    case True
    have "waiting t' b = record_units r - 1" "waiting t b = record_units r"
      using less(1,2) by (simp_all add: waiting_def units less(4))
    with True units_waiting [OF assms(1), of b] assms(3) [of b] less(2) show ?thesis by (simp add: sum)
  next
    case False
    then have "waiting t' b0 = waiting t b0" by (simp add: waiting_def less(4))
    with False units_waiting [OF assms(1), of b0] assms(3) [of b0] show ?thesis by (simp add: sum)
  qed
  then show ?thesis
    using assms(1) less(1-3) claims units
    by (auto simp: units_ok_def release_units_def less(4) barriers_ok_def split: if_splits)
next
  case (last r)
  have ok: "barriers_ok t" using assms(1) by (simp add: units_ok_def)
  have one: "record_units r = 1" using last(1,2) assms(1) by (fastforce simp: units_ok_def)
  have release: "release_units c release = record_claims c r" for c
    by (cases r) (simp_all add: last(3) release_units_def)
  have sum: "table_sum (record_claims c) t' + record_claims c r = table_sum (record_claims c) t" for c
    using table_sum_update [OF ok last(1), of "record_claims c" None] by (simp add: last(4))
  have "Y b0 + release_units b0 release + table_sum (record_claims b0) t' = waiting t' b0" for b0
  proof (cases "b0 = b")
    case True
    have "waiting t' b = 0" "waiting t b = 1" using last(1) one by (simp_all add: waiting_def last(4))
    with True units_waiting [OF assms(1), of b] assms(3) [of b] sum [of b] show ?thesis by (simp add: release)
  next
    case False
    then have "waiting t' b0 = waiting t b0" by (simp add: waiting_def last(4))
    with False units_waiting [OF assms(1), of b0] assms(3) [of b0] sum [of b0] show ?thesis by (simp add: release)
  qed
  then show ?thesis
    using assms(1) by (auto simp: units_ok_def last(4) barriers_ok_def)
qed

lemma units_same: "units_ok X t \<Longrightarrow> (\<And>b. X b = Y b) \<Longrightarrow> units_ok Y t"
  by (simp add: units_ok_def)

lemma fine_batch_none:
  "frames_fine args (PostBatch None (p # ps) st # fs) \<Longrightarrow> notify_parent p = None"
  by (simp add: notify_parent_def)

lemma completion_units:
  assumes "frames_fine args (PostBatch b (p # ps) st # fs)"
  shows "one_if (notify_parent (with_completion b p) = Some c) + frame_units c (PostBatch b ps st)
    = frame_units c (PostBatch b (p # ps) st)"
  using assms fine_batch_none [of args p ps st fs] by (cases b) auto

lemma move_units:
  assumes "task_move args True fs t fs' tasks t' L" "frames_fine args fs" "calm fs"
    and "units_ok (\<lambda>b. X b + frames_units b fs) t"
  shows "units_ok (\<lambda>b. X b + frames_units b fs' + sum_list (map (task_units b) tasks)) t'"
  using assms(1)
proof cases
  case (batch_error q b p ps st fs0)
  then show ?thesis
    using completion_units [of args b p ps st fs0] assms(2)
    by (intro units_same [OF assms(4) [unfolded batch_error(4) [symmetric]]]) (simp add: add.assoc)
next
  case (batch_leaf q b p e verdict st' ps st fs0)
  have "frames_units c (return_status st' (PostBatch b ps st # fs0)) = frames_units c (PostBatch b ps st # fs0)" for c
    by (rule return_units) (use batch_leaf assms(3) in auto)
  then show ?thesis
    using completion_units [of args b p ps st fs0] assms(2) batch_leaf
    by (intro units_same [OF assms(4) [unfolded batch_leaf(4) [symmetric]]]) (simp add: add.assoc del: return_status.simps)
next
  case (batch_open q b p e verdict x anc dev items r ps st fs0)
  then show ?thesis
    using completion_units [of args b p ps st fs0] assms(2)
    by (intro units_same [OF assms(4) [unfolded batch_open(4) [symmetric]]]) (simp add: add.assoc)
next
  case (visit_split plan chunks e p b u anc dev fs0)
  have "units_ok (\<lambda>c. X c + frames_units c fs0 + (if c = b then length (cp_spilled_chunks plan) else 0)) t'"
    by (rule units_directory [OF assms(4) _ visit_split(8)]) (use visit_split in \<open>auto simp: Suc_le_eq\<close>)
  then show ?thesis by (rule units_same) (use visit_split in auto)
next
  case (visit_split_one plan chunks c e p b u anc dev fs0)
  have "units_ok (\<lambda>c. X c + frames_units c fs0 + (if c = b then length (cp_spilled_chunks plan) + 1 else 0)) t'"
    by (rule units_directory [OF assms(4) _ visit_split_one(7)]) (use visit_split_one in auto)
  then show ?thesis by (rule units_same) (use visit_split_one in auto)
next
  case (visit_split_many plan chunks e p b t1 b' u anc dev fs0)
  have "units_ok (\<lambda>c. X c + frames_units c fs0 + (if c = b then length (cp_spilled_chunks plan) + 1 else 0)) t1"
    by (rule units_directory [OF assms(4) _ visit_split_many(7)]) (use visit_split_many in auto)
  then have "units_ok (\<lambda>c. (X c + frames_units c fs0 + (if c = b then length (cp_spilled_chunks plan) else 0))
      + (if c = b' then length (cp_local_stack plan) else 0)) t'"
    by (rule units_batch [OF _ _ visit_split_many(8)]) (use visit_split_many in \<open>auto simp: one_if_def\<close>)
  then show ?thesis by (rule units_same) (use visit_split_many in auto)
next
  case (notify_wait b)
  from units_finish [OF assms(4) notify_wait(4), of "\<lambda>c. X c + frames_units c fs'"] notify_wait show ?thesis
    by (simp add: release_units_def)
next
  case (notify_resume b task)
  from units_finish [OF assms(4) notify_resume(4), of "\<lambda>c. X c + frames_units c fs'"] notify_resume show ?thesis
    by (simp add: release_units_def)
next
  case (notify_up b parent fs0)
  have "units_ok (\<lambda>c. X c + frames_units c fs0 + release_units c (Some (ReleaseNotifyParent parent))) t'"
    by (rule units_finish [OF assms(4) notify_up(5)]) (simp add: notify_up)
  then show ?thesis by (rule units_same) (simp add: notify_up release_units_def)
next
  case (visit_complete r chunks st p e anc dev em fs0)
  have "frames_units c (return_status st fs0) = frames_units c fs0" for c
    by (rule return_units) (use visit_complete assms(3) in auto)
  then show ?thesis using visit_complete assms(4) by simp
next
  case (batch_end b st fs0)
  then show ?thesis
    using assms(3) by (intro units_same [OF assms(4) [unfolded batch_end(4) [symmetric]]]) (simp add: return_units)
next
  case (spill st b chunks fs0)
  then show ?thesis
    using assms(3) by (intro units_same [OF assms(4) [unfolded spill(4) [symmetric]]]) (simp add: return_units)
qed (use assms(3,4) in \<open>auto simp: return_units\<close>)

section \<open>Starting and leaving a task\<close>

inductive start_move ::
  "('rx, 'w) par_args \<Rightarrow> bool \<Rightarrow> parallel_task \<Rightarrow> barrier_table \<Rightarrow> task_frame list \<Rightarrow> barrier_table \<Rightarrow>
   entry list \<Rightarrow> bool" for args go where
  start_root: "par_order args = PreOrder \<Longrightarrow>
     start_move args go (PreOrderRoot root) t [PreLoop [prt_pending root] default_status, TaskEnd default_status] t []"
| start_post_root: "par_order args = DepthFirstPostOrder \<Longrightarrow>
     start_move args go (PreOrderRoot root) t [PostBatch None [prt_pending root] default_status, TaskEnd default_status] t []"
| start_chunk: "sct_completion_barrier chunk = None \<Longrightarrow>
     start_move args go (SiblingChunk chunk) t [PreLoop (sct_pending chunk) default_status, TaskEnd default_status] t []"
| start_one: "sct_completion_barrier chunk = Some b \<Longrightarrow> length (sct_pending chunk) \<le> 1 \<Longrightarrow>
     start_move args go (SiblingChunk chunk) t
       [PostBatch (Some b) (sct_pending chunk) default_status, TaskEnd default_status] t []"
| start_many: "sct_completion_barrier chunk = Some b \<Longrightarrow> length (sct_pending chunk) > 1 \<Longrightarrow>
     begin_batch (length (sct_pending chunk)) b t = (b', t') \<Longrightarrow>
     start_move args go (SiblingChunk chunk) t
       [PostBatch (Some b') (sct_pending chunk) default_status, TaskEnd default_status] t' []"
| start_resume: "go \<longrightarrow> \<not> is_stop_requested st \<Longrightarrow>
     start_move args go (PostOrderResume resume) t
       (notify_frames (rt_notify_parent resume) @ [TaskEnd st]) t (evaluated args (rt_entry resume))"

inductive start_outcome ::
  "('rx, 'w) par_args \<Rightarrow> nat \<Rightarrow> parallel_task \<Rightarrow> 'w par_state \<Rightarrow> 'w par_state \<Rightarrow> bool" for args i task s s' where
  began: "accepts_new_work (pr_control s) \<Longrightarrow> quit_or_same (pr_control s) (pr_control s') \<Longrightarrow>
     pr_queues s' = pr_queues s \<Longrightarrow> phases s' = (phases s)[i := InTask fs'] \<Longrightarrow> pr_log s' = pr_log s @ L \<Longrightarrow>
     pr_results s' = pr_results s \<Longrightarrow> pr_broker_result s' = pr_broker_result s \<Longrightarrow>
     start_move args (accepts_new_work (pr_control s')) task (pr_barriers s) fs' (pr_barriers s') L \<Longrightarrow>
     start_outcome args i task s s'"
| refused: "\<not> accepts_new_work (pr_control s) \<Longrightarrow> pr_control s' = task_finished (pr_control s) \<Longrightarrow>
     pr_queues s' = pr_queues s \<Longrightarrow> pr_barriers s' = pr_barriers s \<Longrightarrow> pr_log s' = pr_log s \<Longrightarrow>
     pr_results s' = pr_results s \<Longrightarrow> pr_broker_result s' = pr_broker_result s \<Longrightarrow>
     phases s' = (phases s)[i := Popping] \<Longrightarrow> start_outcome args i task s s'"
| start_failed: "quit_or_same (pr_control s) c \<Longrightarrow> pr_control s' = request_fatal_stop (task_finished c) \<Longrightarrow>
     pr_queues s' = pr_queues s \<Longrightarrow> pr_barriers s' = pr_barriers s \<Longrightarrow>
     pr_results s' = pr_results s @ [Inl err] \<Longrightarrow> pr_broker_result s' = pr_broker_result s \<Longrightarrow>
     phases s' = (phases s)[i := Finished] \<Longrightarrow> start_outcome args i task s s'"

lemma began_quietly:
  assumes "accepts_new_work (pr_control s)"
    and "start_move args (accepts_new_work (pr_control s)) task (pr_barriers s) fs' t' []"
  shows "start_outcome args i task s (set_phase i (InTask fs') (s\<lparr>pr_barriers := t'\<rparr>))"
    "t' = pr_barriers s \<Longrightarrow> start_outcome args i task s (set_phase i (InTask fs') s)"
  by (rule began [where L = "[]"]; use assms in simp)+

lemma start_task_outcome:
  assumes "control_ok (pr_control s)"
  shows "start_outcome args i task s (start_task args i task s)"
proof (cases "accepts_new_work (pr_control s)")
  case False
  then show ?thesis by (simp add: start_task_def refused)
next
  case go: True
  note b = began_quietly [OF go]
  show ?thesis
  proof (cases task)
    case (PreOrderRoot root)
    show ?thesis
    proof (cases "par_order args")
      case PreOrder
      with b(2) [OF start_root [OF PreOrder]] show ?thesis by (simp add: start_task_def go PreOrderRoot)
    next
      case DepthFirstPostOrder
      with b(2) [OF start_post_root [OF DepthFirstPostOrder]] show ?thesis
        by (simp add: start_task_def go PreOrderRoot enter_postorder_batch_def)
    qed
  next
    case (SiblingChunk chunk)
    show ?thesis
    proof (cases "sct_completion_barrier chunk")
      case None
      with b(2) [OF start_chunk [OF None]] show ?thesis by (simp add: start_task_def go SiblingChunk)
    next
      case (Some barrier)
      show ?thesis
      proof (cases "length (sct_pending chunk) > 1")
        case True
        obtain b' t' where b': "begin_batch (length (sct_pending chunk)) barrier (pr_barriers s) = (b', t')" by fastforce
        have "start_task args i task s =
            set_phase i (InTask [PostBatch (Some b') (sct_pending chunk) default_status, TaskEnd default_status])
              (s\<lparr>pr_barriers := t'\<rparr>)"
          using True b' by (simp add: start_task_def go SiblingChunk Some enter_postorder_batch_def)
        with b(1) [OF start_many [OF Some True b']] show ?thesis by (simp add: SiblingChunk)
      next
        case False
        have "start_task args i task s =
            set_phase i (InTask [PostBatch (Some barrier) (sct_pending chunk) default_status, TaskEnd default_status]) s"
          using False by (simp add: start_task_def go SiblingChunk Some enter_postorder_batch_def)
        moreover have "length (sct_pending chunk) \<le> 1" using False by simp
        ultimately show ?thesis using b(2) [OF start_one [OF Some]] by (simp add: SiblingChunk)
      qed
    qed
  next
    case (PostOrderResume resume)
    show ?thesis
    proof (cases "deep args (rt_entry resume)")
      case False
      then have eq: "start_task args i task s =
          set_phase i (InTask (notify_frames (rt_notify_parent resume) @ [TaskEnd default_status])) s"
        and none: "evaluated args (rt_entry resume) = []"
        by (simp_all add: start_task_def go PostOrderResume run_postorder_resume_def deep_def evaluated_def)
      have "start_move args (accepts_new_work (pr_control s)) (PostOrderResume resume) (pr_barriers s)
          (notify_frames (rt_notify_parent resume) @ [TaskEnd default_status]) (pr_barriers s) []"
        using start_resume [of "accepts_new_work (pr_control s)" default_status args resume "pr_barriers s"]
        by (simp add: none)
      from b(2) [OF this refl] show ?thesis using eq by (simp only: PostOrderResume)
    next
      case True
      then have L: "evaluated args (rt_entry resume) = [rt_entry resume]" by (simp add: evaluated_def)
      obtain r s1 where r: "process_entry args i (rt_entry resume) s = (r, s1)" by fastforce
      note p = process_entry_same [OF r]
      show ?thesis
      proof (cases r)
        case (Inl err)
        have "start_task args i task s = fail_task i err s1"
          using True by (simp add: start_task_def go PostOrderResume run_postorder_resume_def deep_def r Inl)
        then show ?thesis
          using p by (auto simp: fail_task_def same_work_def intro!: start_failed [of s "pr_control s1"])
      next
        case (Inr st)
        have eq: "start_task args i task s =
            set_phase i (InTask (notify_frames (rt_notify_parent resume) @ [TaskEnd st])) s1"
          using True by (simp add: start_task_def go PostOrderResume run_postorder_resume_def deep_def r Inr)
        have "accepts_new_work (pr_control s1) \<longrightarrow> \<not> is_stop_requested st"
          using p(4) [OF Inr] quit_refuses [OF assms p(3)] by blast
        note m = start_resume [OF this, of args resume "pr_barriers s"]
        show ?thesis
          unfolding eq
          by (subst PostOrderResume, rule began [OF go, where L = "evaluated args (rt_entry resume)"])
            (use p m L in \<open>simp_all add: same_work_def\<close>)
      qed
    qed
  qed
qed

text \<open>The last step of a worker.\<close>

lemma finish_worker_outcome:
  "(pr_control (finish_worker args i s) = pr_control s
      \<or> pr_control (finish_worker args i s) = request_fatal_stop (pr_control s))
   \<and> pr_queues (finish_worker args i s) = pr_queues s \<and> pr_barriers (finish_worker args i s) = pr_barriers s
   \<and> pr_log (finish_worker args i s) = pr_log s
   \<and> phases (finish_worker args i s) = (phases s)[i := Finished]
   \<and> pr_broker_result (finish_worker args i s) = pr_broker_result s
   \<and> (\<exists>r. pr_results (finish_worker args i s) = pr_results s @ [r])"
proof -
  obtain r s1 where r: "with_sink args i (worker_flush (pa_piped args)) s = (r, s1)" by fastforce
  note w = with_sink_same [OF r]
  have "ws_control (snd (worker_flush (pa_piped args) k)) = ws_control k" for k
    by (simp add: worker_flush_def split: prod.split)
  with w have "pr_control s1 = pr_control s" by (simp add: sink_of_def)
  with w(1,2) show ?thesis by (cases r) (simp_all add: finish_worker_def r same_work_def)
qed

section \<open>The invariant of a run\<close>

fun busy :: "worker_phase \<Rightarrow> bool" where
  "busy (Popped task) \<longleftrightarrow> True"
| "busy (InTask fs) \<longleftrightarrow> True"
| "busy _ \<longleftrightarrow> False"

fun leaving :: "worker_phase \<Rightarrow> bool" where
  "leaving Flushing \<longleftrightarrow> True"
| "leaving Finished \<longleftrightarrow> True"
| "leaving _ \<longleftrightarrow> False"

fun phase_fine :: "('rx, 'w) par_args \<Rightarrow> bool \<Rightarrow> worker_phase \<Rightarrow> bool" where
  "phase_fine args go (Popped task) \<longleftrightarrow> task_fine args task"
| "phase_fine args go (InTask fs) \<longleftrightarrow> frames_fine args fs \<and> (go \<longrightarrow> calm fs)"
| "phase_fine args go _ \<longleftrightarrow> True"

definition busy_count :: "worker_phase list \<Rightarrow> nat" where
  "busy_count phs = sum_list (map (\<lambda>ph. one_if (busy ph)) phs)"

lemma busy_count_update:
  "i < length phs \<Longrightarrow> busy_count (phs[i := ph]) + one_if (busy (phs ! i)) = busy_count phs + one_if (busy ph)"
  unfolding busy_count_def by (rule sum_list_update_phase)

definition run_ok :: "('rx, 'w) par_args \<Rightarrow> 'w par_state \<Rightarrow> bool" where
  "run_ok args s \<longleftrightarrow>
     control_ok (pr_control s)
   \<and> length (tq_locals (pr_queues s)) = length (pr_workers s)
   \<and> outstanding_tasks (pr_control s) = size (queued (pr_queues s)) + busy_count (phases s)
   \<and> (\<forall>task\<in>#queued (pr_queues s). task_fine args task)
   \<and> (\<forall>ph\<in>set (phases s). phase_fine args (accepts_new_work (pr_control s)) ph)
   \<and> barriers_ok (pr_barriers s)
   \<and> (accepts_new_work (pr_control s) \<and> (\<exists>ph\<in>set (phases s). leaving ph) \<longrightarrow> outstanding_tasks (pr_control s) = 0)"

text \<open>What is still to be evaluated, and what the barriers wait for.\<close>

definition rest :: "('rx, 'w) par_args \<Rightarrow> 'w par_state \<Rightarrow> entry multiset" where
  "rest args s = total (task_rest args) (phase_rest args) (record_rest args) s"

definition task_claims :: "'w par_state \<Rightarrow> subtree_barrier_id \<Rightarrow> nat" where
  "task_claims s b = (\<Sum>task\<in>#queued (pr_queues s). task_units b task) + sum_list (map (phase_units b) (phases s))"

definition run_balanced :: "('rx, 'w) par_args \<Rightarrow> entry multiset \<Rightarrow> 'w par_state \<Rightarrow> bool" where
  "run_balanced args T s \<longleftrightarrow>
     (accepts_new_work (pr_control s) \<longrightarrow>
        mset (pr_log s) + rest args s = T \<and> units_ok (task_claims s) (pr_barriers s))"

lemma phase_fine_mono: "phase_fine args go ph \<Longrightarrow> (go' \<Longrightarrow> go) \<Longrightarrow> phase_fine args go' ph"
  by (cases ph) auto

lemma run_ok_change:
  assumes "run_ok args s" "i < length (pr_workers s)" "phases s' = (phases s)[i := ph]"
    and "length (tq_locals (pr_queues s')) = length (tq_locals (pr_queues s))"
    and "control_ok (pr_control s')" "accepts_new_work (pr_control s') \<Longrightarrow> accepts_new_work (pr_control s)"
    and "outstanding_tasks (pr_control s') + size (queued (pr_queues s)) + one_if (busy (phases s ! i))
       = outstanding_tasks (pr_control s) + size (queued (pr_queues s')) + one_if (busy ph)"
    and "\<forall>task\<in>#queued (pr_queues s'). task_fine args task"
    and "phase_fine args (accepts_new_work (pr_control s')) ph" "barriers_ok (pr_barriers s')"
    and "leaving ph \<Longrightarrow> accepts_new_work (pr_control s') \<Longrightarrow> outstanding_tasks (pr_control s') = 0"
    and "outstanding_tasks (pr_control s) = 0 \<Longrightarrow> accepts_new_work (pr_control s') \<Longrightarrow> outstanding_tasks (pr_control s') = 0"
  shows "run_ok args s'"
proof -
  have ok: "control_ok (pr_control s)" "length (tq_locals (pr_queues s)) = length (pr_workers s)"
    "outstanding_tasks (pr_control s) = size (queued (pr_queues s)) + busy_count (phases s)"
    "\<forall>ph\<in>set (phases s). phase_fine args (accepts_new_work (pr_control s)) ph"
    "accepts_new_work (pr_control s) \<Longrightarrow> \<exists>ph\<in>set (phases s). leaving ph \<Longrightarrow> outstanding_tasks (pr_control s) = 0"
    using assms(1) by (auto simp: run_ok_def)
  have len: "length (pr_workers s') = length (pr_workers s)"
    using arg_cong [OF assms(3), of length] by simp
  have set: "set (phases s') \<subseteq> insert ph (set (phases s))"
    unfolding assms(3) by (rule set_update_subset_insert)
  show ?thesis
    unfolding run_ok_def
  proof (intro conjI)
    show "outstanding_tasks (pr_control s') = size (queued (pr_queues s')) + busy_count (phases s')"
      using busy_count_update [of i "phases s" ph] assms(2,3,7) ok(3) by simp
    show "\<forall>ph\<in>set (phases s'). phase_fine args (accepts_new_work (pr_control s')) ph"
      using set ok(4) assms(6,9) phase_fine_mono by blast
    show "accepts_new_work (pr_control s') \<and> (\<exists>ph\<in>set (phases s'). leaving ph) \<longrightarrow> outstanding_tasks (pr_control s') = 0"
      using set ok(5) assms(6,11,12) by blast
  qed (use assms ok len in auto)
qed

lemma run_balanced_change:
  assumes "run_balanced args T s" "i < length (pr_workers s)" "phases s' = (phases s)[i := ph]"
    and "accepts_new_work (pr_control s') \<Longrightarrow> accepts_new_work (pr_control s)"
    and rest: "accepts_new_work (pr_control s') \<Longrightarrow>
      mset (pr_log s') + (\<Sum>task\<in>#queued (pr_queues s'). task_rest args task) + phase_rest args ph
        + table_sum (record_rest args) (pr_barriers s')
      = mset (pr_log s) + (\<Sum>task\<in>#queued (pr_queues s). task_rest args task) + phase_rest args (phases s ! i)
        + table_sum (record_rest args) (pr_barriers s)"
    and units: "\<And>X. accepts_new_work (pr_control s') \<Longrightarrow>
      units_ok (\<lambda>b. X b + (\<Sum>task\<in>#queued (pr_queues s). task_units b task) + phase_units b (phases s ! i)) (pr_barriers s) \<Longrightarrow>
      units_ok (\<lambda>b. X b + (\<Sum>task\<in>#queued (pr_queues s'). task_units b task) + phase_units b ph) (pr_barriers s')"
  shows "run_balanced args T s'"
  unfolding run_balanced_def
proof (intro impI conjI)
  assume go': "accepts_new_work (pr_control s')"
  with assms(1,4) have eq: "mset (pr_log s) + rest args s = T" and u: "units_ok (task_claims s) (pr_barriers s)"
    by (auto simp: run_balanced_def)
  have i: "i < length (phases s)" using assms(2) by simp
  show "mset (pr_log s') + rest args s' = T"
  proof -
    let ?fp = "phase_rest args" and ?R = "table_sum (record_rest args)"
    have p: "sum_list (map ?fp (phases s')) + ?fp (phases s ! i) = sum_list (map ?fp (phases s)) + ?fp ph"
      unfolding assms(3) by (rule sum_list_update_phase [OF i])
    have "mset (pr_log s') + rest args s' + ?fp (phases s ! i)
        = (mset (pr_log s') + (\<Sum>task\<in>#queued (pr_queues s'). task_rest args task) + ?R (pr_barriers s'))
          + (sum_list (map ?fp (phases s')) + ?fp (phases s ! i))"
      by (simp add: rest_def total_def ac_simps)
    also have "\<dots> = (mset (pr_log s') + (\<Sum>task\<in>#queued (pr_queues s'). task_rest args task) + ?fp ph + ?R (pr_barriers s'))
        + sum_list (map ?fp (phases s))"
      unfolding p by (simp add: ac_simps)
    also have "\<dots> = (mset (pr_log s) + rest args s) + ?fp (phases s ! i)"
      unfolding rest [OF go'] by (simp add: rest_def total_def ac_simps)
    finally show ?thesis using eq by simp
  qed
  define X where "X b = sum_list (map (phase_units b) (phases s)) - phase_units b (phases s ! i)" for b
  have le: "phase_units b (phases s ! i) \<le> sum_list (map (phase_units b) (phases s))" for b
    by (rule member_le_sum_list) (use nth_mem [OF i] in simp_all)
  have X: "sum_list (map (phase_units b) (phases s)) = X b + phase_units b (phases s ! i)"
    "sum_list (map (phase_units b) (phases s')) = X b + phase_units b ph" for b
    using sum_list_update_phase [OF i, of "phase_units b" ph] le [of b] by (simp_all add: X_def assms(3))
  show "units_ok (task_claims s') (pr_barriers s')"
    by (rule units_same [OF units [OF go', of X]], rule units_same [OF u]) (simp_all add: task_claims_def X)
qed

lemma queued_push_facts:
  assumes "i < length (tq_locals q)" "push_all_local i tasks c q = (c', q')"
  shows "accepts_new_work c' = accepts_new_work c" "control_ok c' = control_ok c"
    "length (tq_locals q') = length (tq_locals q)"
    "queued q' = queued q + (if accepts_new_work c then mset tasks else {#})"
    "outstanding_tasks c' = outstanding_tasks c + (if accepts_new_work c then length tasks else 0)"
proof -
  from queued_push_all [OF assms] have q: "queued q' = queued q + (if accepts_new_work c then mset tasks else {#})"
    "outstanding_tasks c' = outstanding_tasks c + (if accepts_new_work c then length tasks else 0)"
    "length (tq_locals q') = length (tq_locals q)" "c'\<lparr>outstanding_tasks := 0\<rparr> = c\<lparr>outstanding_tasks := 0\<rparr>" by auto
  from q(4) have "accept_new_work c' = accept_new_work c \<and> quit_seen c' = quit_seen c \<and> fatal_error_seen c' = fatal_error_seen c"
    by (cases c; cases c') simp
  with q show "accepts_new_work c' = accepts_new_work c" "control_ok c' = control_ok c"
    "length (tq_locals q') = length (tq_locals q)"
    "queued q' = queued q + (if accepts_new_work c then mset tasks else {#})"
    "outstanding_tasks c' = outstanding_tasks c + (if accepts_new_work c then length tasks else 0)"
    by (auto simp: accepts_new_work_def control_ok_def)
qed

lemma quit_or_same_facts:
  assumes "quit_or_same c c'"
  shows "control_ok c \<Longrightarrow> control_ok c'" "accepts_new_work c' \<Longrightarrow> accepts_new_work c \<and> c' = c"
    "outstanding_tasks c' = outstanding_tasks c"
  using assms by (auto simp: quit_or_same_def request_quit_def control_ok_def accepts_new_work_def)

lemma move_barriers_ok:
  assumes "task_move args go fs t fs' tasks t' L" "barriers_ok t"
  shows "barriers_ok t'"
  using assms(1)
proof cases
  case (visit_split plan chunks e p b u anc dev fs0)
  then show ?thesis using barriers_ok_directory [OF assms(2)] by (metis snd_conv)
next
  case (visit_split_one plan chunks c e p b u anc dev fs0)
  then show ?thesis using barriers_ok_directory [OF assms(2)] by (metis snd_conv)
next
  case (visit_split_many plan chunks e p b t1 b' u anc dev fs0)
  then have "barriers_ok t1" using barriers_ok_directory [OF assms(2)] by (metis snd_conv)
  then show ?thesis using visit_split_many barriers_ok_batch by (metis snd_conv)
next
  case (notify_wait b)
  then show ?thesis using barriers_ok_finish [OF assms(2)] by (metis snd_conv)
next
  case (notify_resume b task)
  then show ?thesis using barriers_ok_finish [OF assms(2)] by (metis snd_conv)
next
  case (notify_up b parent fs0)
  then show ?thesis using barriers_ok_finish [OF assms(2)] by (metis snd_conv)
qed (use assms(2) in simp_all)

lemma task_finished_facts [simp]:
  "control_ok (task_finished c) = control_ok c" "accepts_new_work (task_finished c) = accepts_new_work c"
  "outstanding_tasks c > 0 \<Longrightarrow> outstanding_tasks (task_finished c) = outstanding_tasks c - 1"
  by (simp_all add: task_finished_def control_ok_def accepts_new_work_def)

lemma fatal_facts [simp]:
  "control_ok (request_fatal_stop c)" "\<not> accepts_new_work (request_fatal_stop c)"
  "outstanding_tasks (request_fatal_stop c) = outstanding_tasks c"
  by (simp_all add: request_fatal_stop_def control_ok_def accepts_new_work_def)

lemma run_okD:
  assumes "run_ok args s"
  shows "control_ok (pr_control s)" "length (tq_locals (pr_queues s)) = length (pr_workers s)"
    "outstanding_tasks (pr_control s) = size (queued (pr_queues s)) + busy_count (phases s)"
    "\<forall>task\<in>#queued (pr_queues s). task_fine args task" "barriers_ok (pr_barriers s)"
    "i < length (pr_workers s) \<Longrightarrow> phase_fine args (accepts_new_work (pr_control s)) (phases s ! i)"
    "accepts_new_work (pr_control s) \<Longrightarrow> leaving ph \<Longrightarrow> ph \<in> set (phases s) \<Longrightarrow> outstanding_tasks (pr_control s) = 0"
  using assms nth_mem [of i "phases s"] by (auto simp: run_ok_def simp del: phases_nth)

lemma busy_positive:
  assumes "run_ok args s" "i < length (pr_workers s)" "busy (phases s ! i)"
  shows "outstanding_tasks (pr_control s) > 0"
proof -
  have "one_if (busy (phases s ! i)) \<le> busy_count (phases s)"
    unfolding busy_count_def
    by (rule member_le_sum_list) (use nth_mem [of i "phases s"] assms(2) in \<open>simp_all del: phases_nth\<close>)
  with assms(3) run_okD(3) [OF assms(1)] show ?thesis by simp
qed

lemma failed_step_ok:
  assumes "run_ok args s" "i < length (pr_workers s)" "busy (phases s ! i)" "quit_or_same (pr_control s) c"
    and "pr_control s' = request_fatal_stop (task_finished c)" "pr_queues s' = pr_queues s"
    and "pr_barriers s' = pr_barriers s" "phases s' = (phases s)[i := Finished]"
  shows "run_ok args s'" "run_balanced args T s'"
proof -
  note ok = run_okD [OF assms(1)]
  have "outstanding_tasks c > 0" using busy_positive [OF assms(1-3)] quit_or_same_facts(3) [OF assms(4)] by simp
  then have "outstanding_tasks (pr_control s') + 1 = outstanding_tasks (pr_control s)"
    using quit_or_same_facts(3) [OF assms(4)] by (simp add: assms(5))
  then show "run_ok args s'"
    using assms ok by (intro run_ok_change [OF assms(1,2,8)]) simp_all
  show "run_balanced args T s'" by (simp add: run_balanced_def assms(5))
qed

lemma run_step_ok:
  assumes "run_ok args s" "par_backend_ok args" "i < length (pr_workers s)" "phases s ! i = InTask fs"
    and "task_outcome args i fs s s'"
  shows "run_ok args s'" "identities_found args \<Longrightarrow> run_balanced args T s \<Longrightarrow> run_balanced args T s'"
proof -
  note ok = run_okD [OF assms(1)]
  have fine: "frames_fine args fs" "accepts_new_work (pr_control s) \<Longrightarrow> calm fs"
    using ok(6) [OF assms(3)] assms(4) by simp_all
  have busy: "busy (phases s ! i)" using assms(4) by simp
  have pos: "outstanding_tasks (pr_control s) > 0" by (rule busy_positive [OF assms(1,3) busy])
  from assms(5) have "run_ok args s' \<and> (identities_found args \<longrightarrow> run_balanced args T s \<longrightarrow> run_balanced args T s')"
  proof cases
    case (moved c tasks fs' L)
    have i: "i < length (tq_locals (pr_queues s))" using assms(3) ok(2) by simp
    note q = queued_push_facts [OF i moved(3)] and c = quit_or_same_facts [OF moved(1)]
    have go: "c = pr_control s" "accepts_new_work (pr_control s)" if "accepts_new_work (pr_control s')"
      using that q(1) c(2) by simp_all
    note m = move_fine [OF moved(8) assms(2) fine(1)]
    have calm: "calm fs'" if "accepts_new_work (pr_control s')"
      using that move_calm [of args fs "pr_barriers s" fs' tasks "pr_barriers s'" L] moved(8) fine(2) go(2) by simp
    have b: "barriers_ok (pr_barriers s')" by (rule move_barriers_ok [OF moved(8) ok(5)])
    have "run_ok args s'"
    proof (rule run_ok_change [OF assms(1,3) moved(4)])
      show "control_ok (pr_control s')" using q(2) c(1) ok(1) by simp
      show "outstanding_tasks (pr_control s') + size (queued (pr_queues s)) + one_if (busy (phases s ! i)) =
          outstanding_tasks (pr_control s) + size (queued (pr_queues s')) + one_if (busy (InTask fs'))"
        using q(4,5) c(3) busy by simp
      show "\<forall>task\<in>#queued (pr_queues s'). task_fine args task" using q(4) ok(4) m by auto
      show "phase_fine args (accepts_new_work (pr_control s')) (InTask fs')" using m calm by simp
    qed (use q go b pos in auto)
    moreover have "run_balanced args T s'" if ids: "identities_found args" and bal: "run_balanced args T s"
    proof (rule run_balanced_change [OF bal assms(3) moved(4)])
      assume acc: "accepts_new_work (pr_control s')"
      note move = moved(8) [unfolded acc [THEN eqTrueI]]
      have qs: "queued (pr_queues s') = queued (pr_queues s) + mset tasks"
        using q(1,4) acc by simp
      have sums: "(\<Sum>task\<in>#mset tasks. f task) = sum_list (map f tasks)" for f :: "parallel_task \<Rightarrow> 'z :: comm_monoid_add"
        by (metis mset_map sum_mset_sum_list)
      show "accepts_new_work (pr_control s)" using go(2) [OF acc] .
      from move_balance [OF move assms(2) fine(1) fine(2) [OF go(2) [OF acc]] ok(5) ids]
      show "mset (pr_log s') + (\<Sum>task\<in>#queued (pr_queues s'). task_rest args task) + phase_rest args (InTask fs')
          + table_sum (record_rest args) (pr_barriers s')
        = mset (pr_log s) + (\<Sum>task\<in>#queued (pr_queues s). task_rest args task) + phase_rest args (phases s ! i)
          + table_sum (record_rest args) (pr_barriers s)"
        by (simp add: balance_def qs sums moved(5) assms(4) ac_simps del: phases_nth)
      fix X
      assume "units_ok (\<lambda>b. X b + (\<Sum>task\<in>#queued (pr_queues s). task_units b task) + phase_units b (phases s ! i)) (pr_barriers s)"
      then have "units_ok (\<lambda>b. (X b + (\<Sum>task\<in>#queued (pr_queues s). task_units b task)) + frames_units b fs) (pr_barriers s)"
        by (rule units_same) (simp add: assms(4) del: phases_nth)
      from move_units [OF move fine(1) fine(2) [OF go(2) [OF acc]] this]
      show "units_ok (\<lambda>b. X b + (\<Sum>task\<in>#queued (pr_queues s'). task_units b task) + phase_units b (InTask fs')) (pr_barriers s')"
        by (rule units_same) (simp add: qs sums)
    qed
    ultimately show ?thesis by blast
  next
    case (ended st fs0)
    then have fs: "fs = [TaskEnd st]" "fs0 = []" using fine(1) by (simp_all add: frames_fine_def)
    have "run_ok args s'"
      using assms ok ended pos by (intro run_ok_change [OF assms(1,3) ended(8)]) (simp_all add: ended)
    moreover have "run_balanced args T s'" if bal: "run_balanced args T s"
      by (rule run_balanced_change [OF bal assms(3) ended(8)])
        (simp_all add: ended assms(4) fs del: phases_nth)
    ultimately show ?thesis by blast
  next
    case (failed c err)
    from failed_step_ok [OF assms(1,3) busy failed(1-4,7)] show ?thesis by blast
  qed
  then show "run_ok args s'" "identities_found args \<Longrightarrow> run_balanced args T s \<Longrightarrow> run_balanced args T s'" by blast+
qed

lemma start_move_facts:
  assumes "start_move args go task t fs' t' L" "task_fine args task" "barriers_ok t"
  shows "frames_fine args fs' \<and> (go \<longrightarrow> calm fs') \<and> barriers_ok t'
    \<and> mset L + frames_rest args fs' + table_sum (record_rest args) t' = task_rest args task + table_sum (record_rest args) t"
    "units_ok (\<lambda>b. X b + task_units b task) t \<Longrightarrow> units_ok (\<lambda>b. X b + frames_units b fs') t'"
proof -
  from assms(1) show "frames_fine args fs' \<and> (go \<longrightarrow> calm fs') \<and> barriers_ok t'
    \<and> mset L + frames_rest args fs' + table_sum (record_rest args) t' = task_rest args task + table_sum (record_rest args) t"
  proof cases
    case (start_many chunk b b')
    then show ?thesis
      using assms(2) barriers_ok_batch [OF assms(3), of "length (sct_pending chunk)" b]
        table_sum_batch [OF start_many(6), of "record_rest args"]
      by simp
  qed (use assms(2,3) in auto)
  assume u: "units_ok (\<lambda>b. X b + task_units b task) t"
  from assms(1) show "units_ok (\<lambda>b. X b + frames_units b fs') t'"
  proof cases
    case (start_one chunk b)
    then have "length (sct_pending chunk) = 1" using assms(2) by (cases "sct_pending chunk") auto
    then show ?thesis using u start_one by (auto intro!: units_same [OF u])
  next
    case (start_many chunk b b')
    have "units_ok (\<lambda>c. X c + (if c = b' then length (sct_pending chunk) else 0)) t'"
      by (rule units_batch [OF u _ start_many(6)]) (use start_many in \<open>auto simp: one_if_def\<close>)
    then show ?thesis by (rule units_same) (use start_many in auto)
  qed (use u in \<open>auto intro: units_same [OF u]\<close>)
qed

lemma start_step_ok:
  assumes "run_ok args s" "par_backend_ok args" "i < length (pr_workers s)" "phases s ! i = Popped task"
    and "start_outcome args i task s s'"
  shows "run_ok args s'" "run_balanced args T s \<Longrightarrow> run_balanced args T s'"
proof -
  note ok = run_okD [OF assms(1)]
  have fine: "task_fine args task" using ok(6) [OF assms(3)] assms(4) by simp
  have busy: "busy (phases s ! i)" using assms(4) by simp
  have pos: "outstanding_tasks (pr_control s) > 0" by (rule busy_positive [OF assms(1,3) busy])
  from assms(5) have "run_ok args s' \<and> (run_balanced args T s \<longrightarrow> run_balanced args T s')"
  proof cases
    case (began fs' L)
    note m = start_move_facts [OF began(8) fine ok(5)] and c = quit_or_same_facts [OF began(2)]
    have "run_ok args s'"
      by (rule run_ok_change [OF assms(1,3) began(4)]) (use began(1,3) ok(1-5) c(1,3) m(1) pos busy in simp_all)
    moreover have "run_balanced args T s'" if bal: "run_balanced args T s"
    proof (rule run_balanced_change [OF bal assms(3) began(4)])
      show "accepts_new_work (pr_control s)" by (rule began(1))
      let ?Q = "\<Sum>task\<in>#queued (pr_queues s). task_rest args task"
      from m(1) have bal: "mset L + frames_rest args fs' + table_sum (record_rest args) (pr_barriers s')
          = task_rest args task + table_sum (record_rest args) (pr_barriers s)" by blast
      have "mset (pr_log s @ L) + ?Q + frames_rest args fs' + table_sum (record_rest args) (pr_barriers s')
          = mset (pr_log s) + ?Q + (mset L + frames_rest args fs' + table_sum (record_rest args) (pr_barriers s'))"
        by (simp add: ac_simps)
      also have "\<dots> = mset (pr_log s) + ?Q + task_rest args task + table_sum (record_rest args) (pr_barriers s)"
        unfolding bal by (simp add: ac_simps)
      finally show "mset (pr_log s') + (\<Sum>task\<in>#queued (pr_queues s'). task_rest args task) + phase_rest args (InTask fs')
          + table_sum (record_rest args) (pr_barriers s')
        = mset (pr_log s) + (\<Sum>task\<in>#queued (pr_queues s). task_rest args task) + phase_rest args (phases s ! i)
          + table_sum (record_rest args) (pr_barriers s)"
        by (simp only: began(3,5) assms(4) phase_rest.simps)
      fix X
      assume "units_ok (\<lambda>b. X b + (\<Sum>task\<in>#queued (pr_queues s). task_units b task) + phase_units b (phases s ! i)) (pr_barriers s)"
      then have "units_ok (\<lambda>b. (X b + (\<Sum>task\<in>#queued (pr_queues s). task_units b task)) + task_units b task) (pr_barriers s)"
        by (rule units_same) (simp add: assms(4) del: phases_nth)
      from m(2) [OF this]
      show "units_ok (\<lambda>b. X b + (\<Sum>task\<in>#queued (pr_queues s'). task_units b task) + phase_units b (InTask fs')) (pr_barriers s')"
        by (rule units_same) (simp add: began(3))
    qed
    ultimately show ?thesis by blast
  next
    case refused
    have "run_ok args s'"
      by (rule run_ok_change [OF assms(1,3) refused(8)]) (use refused ok pos busy in simp_all)
    moreover have "run_balanced args T s'" using refused by (simp add: run_balanced_def)
    ultimately show ?thesis by blast
  next
    case (start_failed c err)
    from failed_step_ok [OF assms(1,3) busy start_failed(1-4,7)] show ?thesis by blast
  qed
  then show "run_ok args s'" "run_balanced args T s \<Longrightarrow> run_balanced args T s'" by blast+
qed

lemma pop_step_ok:
  assumes "run_ok args s" "i < length (pr_workers s)" "phases s ! i = Popping"
    and "pop_task i choice (pr_queues s) = Some (task, q)" "s' = set_phase i (Popped task) (s\<lparr>pr_queues := q\<rparr>)"
  shows "run_ok args s'" "run_balanced args T s \<Longrightarrow> run_balanced args T s'"
proof -
  note ok = run_okD [OF assms(1)]
  have i: "i < length (tq_locals (pr_queues s))" using assms(2) ok(2) by simp
  from pop_task_queued [OF i assms(4)] have q: "queued (pr_queues s) = add_mset task (queued q)"
    "length (tq_locals q) = length (tq_locals (pr_queues s))" by auto
  have ph: "phases s' = (phases s)[i := Popped task]" by (simp add: assms(5))
  show "run_ok args s'"
    by (rule run_ok_change [OF assms(1,2) ph]) (use q ok assms(3) in \<open>simp_all add: assms(5)\<close>)
  assume bal: "run_balanced args T s"
  show "run_balanced args T s'"
    by (rule run_balanced_change [OF bal assms(2) ph])
      (use q assms(3) in \<open>simp_all add: assms(5) ac_simps\<close>)
qed

lemma leave_step_ok:
  assumes "run_ok args s" "i < length (pr_workers s)" "\<not> busy (phases s ! i)" "leaving ph" "\<not> busy ph"
    and "phases s' = (phases s)[i := ph]" "pr_queues s' = pr_queues s" "pr_barriers s' = pr_barriers s"
    and "pr_log s' = pr_log s" "pr_control s' = pr_control s \<or> pr_control s' = request_fatal_stop (pr_control s)"
    and "accepts_new_work (pr_control s) \<longrightarrow> outstanding_tasks (pr_control s) = 0"
  shows "run_ok args s'" "run_balanced args T s \<Longrightarrow> run_balanced args T s'"
proof -
  note ok = run_okD [OF assms(1)]
  have fine: "phase_fine args go ph" "phase_rest args ph = {#}" "phase_units b ph = 0" for go b
    using assms(5) by (cases ph; simp)+
  have old: "phase_rest args (phases s ! i) = {#}" "phase_units b (phases s ! i) = 0" for b
    using assms(3) by (cases "phases s ! i"; simp)+
  show "run_ok args s'"
    by (rule run_ok_change [OF assms(1,2,6)]) (use assms ok fine in auto)
  assume bal: "run_balanced args T s"
  show "run_balanced args T s'"
    by (rule run_balanced_change [OF bal assms(2,6)])
      (use assms(7-10) in \<open>auto simp: fine old simp del: phases_nth\<close>)
qed

lemma broker_step_same:
  assumes "broker_step args s = Some s'"
  shows "pr_control s' = pr_control s" "pr_queues s' = pr_queues s" "pr_barriers s' = pr_barriers s"
    "pr_log s' = pr_log s" "phases s' = phases s" "pr_workers s' = pr_workers s"
  using assms by (auto simp: broker_step_def phases_def split: if_splits list.splits prod.splits sum.splits)

text \<open>The steps of a worker, by where it stands.\<close>

lemma worker_step_cases:
  assumes "worker_step args i mv s = Some s'"
  obtains (pop) choice task q where "i < length (pr_workers s)" "phases s ! i = Popping"
      "pop_task i choice (pr_queues s) = Some (task, q)" "s' = set_phase i (Popped task) (s\<lparr>pr_queues := q\<rparr>)"
    | (leave) "i < length (pr_workers s)" "phases s ! i = Popping" "outstanding_tasks (pr_control s) = 0"
      "s' = set_phase i Flushing s"
    | (start) task where "i < length (pr_workers s)" "phases s ! i = Popped task" "s' = start_task args i task s"
    | (run) fs where "i < length (pr_workers s)" "phases s ! i = InTask fs" "s' = run_frames args i fs s"
    | (flush) "i < length (pr_workers s)" "phases s ! i = Flushing" "s' = finish_worker args i s"
  using assms
  by (auto simp: worker_step_def workers_should_exit_def
      split: if_splits worker_phase.splits worker_move.splits option.splits)

lemma par_step_ok:
  assumes "par_step args s s'" "run_ok args s" "par_backend_ok args"
  shows "run_ok args s'" "identities_found args \<Longrightarrow> run_balanced args T s \<Longrightarrow> run_balanced args T s'"
proof -
  note ok = run_okD [OF assms(2)]
  from assms(1) have "run_ok args s' \<and> (identities_found args \<longrightarrow> run_balanced args T s \<longrightarrow> run_balanced args T s')"
  proof cases
    case (worker i mv)
    from this show ?thesis
    proof (cases rule: worker_step_cases)
      case (pop choice task q)
      with pop_step_ok [OF assms(2)] show ?thesis by blast
    next
      case leave
      have "phases s' = (phases s)[i := Flushing]" "pr_queues s' = pr_queues s" "pr_barriers s' = pr_barriers s"
        "pr_log s' = pr_log s" "pr_control s' = pr_control s"
        using leave(4) by simp_all
      with leave_step_ok [OF assms(2) leave(1), of Flushing s'] leave show ?thesis by simp
    next
      case (start task)
      with start_step_ok [OF assms(2,3)] start_task_outcome [OF ok(1)] show ?thesis by blast
    next
      case (run fs)
      have fine: "frames_fine args fs" "accepts_new_work (pr_control s) \<longrightarrow> calm fs"
        using ok(6) [OF run(1)] run(2) by simp_all
      then have "task_outcome args i fs s s'"
        unfolding run(3) by (intro worker_refines_moves) (auto simp: frames_fine_def frame_fine_chunks ok(1))
      with run_step_ok [OF assms(2,3) run(1,2)] show ?thesis by blast
    next
      case flush
      have "accepts_new_work (pr_control s) \<longrightarrow> outstanding_tasks (pr_control s) = 0"
        using ok(7) [of Flushing] nth_mem [of i "phases s"] flush(1,2) by simp
      with finish_worker_outcome [of args i s] leave_step_ok [OF assms(2) flush(1), of Finished s'] flush show ?thesis
        by simp
    qed
  next
    case broker
    note b = broker_step_same [OF broker]
    from assms(2) have "run_ok args s'" unfolding run_ok_def b .
    moreover have "rest args s' = rest args s" "task_claims s' = task_claims s"
      by (simp_all add: rest_def total_def task_claims_def b fun_eq_iff)
    ultimately show ?thesis by (simp add: run_balanced_def b)
  qed
  then show "run_ok args s'" "identities_found args \<Longrightarrow> run_balanced args T s \<Longrightarrow> run_balanced args T s'" by blast+
qed

section \<open>Reachable states\<close>

text \<open>What a run has to evaluate: the deep entries of the walk over its start paths.\<close>

definition whole_walk :: "('rx, 'w) par_args \<Rightarrow> entry list" where
  "whole_walk args = deep_entries (pa_plan args) (start_marks (pa_walk args) (plan_start_paths (pa_plan args)))"

lemma push_roots_facts:
  assumes "accepts_new_work c" "control_ok c" "push_roots ps c q = (c', q')"
  shows "accepts_new_work c' \<and> control_ok c' \<and> length (tq_locals q') = length (tq_locals q)
    \<and> queued q' = queued q + mset (map (\<lambda>p. PreOrderRoot (pre_order_root_for_path p 0)) ps)
    \<and> outstanding_tasks c' = outstanding_tasks c + length ps"
  using assms
proof (induction ps arbitrary: c q)
  case (Cons p ps)
  obtain c1 q1 where p: "push_inject (PreOrderRoot (pre_order_root_for_path p 0)) c q = (c1, q1)" by fastforce
  have "accepts_new_work c1" "control_ok c1"
    using p Cons.prems(1,2) by (auto simp: push_inject_def accepts_new_work_def task_spawned_def control_ok_def)
  from Cons.IH [OF this, of q1] p queued_push_inject [OF p Cons.prems(1)] Cons.prems(3) show ?case by auto
qed simp

lemma start_queue:
  obtains c q where "push_roots (plan_start_paths (pa_plan args)) control_new
      (queues_new (worker_count args)) = (c, q)"
    "accepts_new_work c" "control_ok c"
    "length (tq_locals q) = worker_count args"
    "queued q = mset (map (\<lambda>p. PreOrderRoot (pre_order_root_for_path p 0)) (plan_start_paths (pa_plan args)))"
    "outstanding_tasks c = length (plan_start_paths (pa_plan args))"
proof -
  obtain c q where p: "push_roots (plan_start_paths (pa_plan args)) control_new
      (queues_new (worker_count args)) = (c, q)" by fastforce
  have "accepts_new_work control_new" "control_ok control_new" "outstanding_tasks control_new = 0"
    by (simp_all add: control_new_def accepts_new_work_def control_ok_def)
  from push_roots_facts [OF this(1,2) p] this(3) show thesis by (intro that [OF p]) simp_all
qed

lemma phases_start: "phases (par_start args w) = replicate (worker_count args) Popping"
  by (simp add: par_start_def phases_def idle_worker_def Let_def split: prod.split)

lemma sum_list_zero:
  fixes f :: "'b \<Rightarrow> 'a :: comm_monoid_add"
  shows "\<forall>x\<in>set xs. f x = 0 \<Longrightarrow> sum_list (map f xs) = 0"
  by (induction xs) simp_all

lemma start_ok: "run_ok args (par_start args w)"
proof -
  obtain c q where q: "push_roots (plan_start_paths (pa_plan args)) control_new
      (queues_new (worker_count args)) = (c, q)"
    "accepts_new_work c" "control_ok c"
    "length (tq_locals q) = worker_count args"
    "queued q = mset (map (\<lambda>p. PreOrderRoot (pre_order_root_for_path p 0)) (plan_start_paths (pa_plan args)))"
    "outstanding_tasks c = length (plan_start_paths (pa_plan args))"
    by (rule start_queue)
  have "busy_count (replicate n Popping) = 0" for n by (simp add: busy_count_def sum_list_replicate)
  with q show ?thesis
    by (auto simp: run_ok_def par_start_def phases_def idle_worker_def Let_def root_pending_def)
qed

lemma mset_start_marks:
  "mset (deep_entries plan (start_marks wk ps)) = sum_list (map (\<lambda>p. mset (deep_entries plan (walk_tree wk (root_pending p)))) ps)"
  by (simp add: start_marks_def deep_entries_concat comp_def)

lemma start_balanced: "run_balanced args (mset (whole_walk args)) (par_start args w)"
proof -
  obtain c q where q: "push_roots (plan_start_paths (pa_plan args)) control_new
      (queues_new (worker_count args)) = (c, q)"
    "queued q = mset (map (\<lambda>p. PreOrderRoot (pre_order_root_for_path p 0)) (plan_start_paths (pa_plan args)))"
    by (rule start_queue)
  have s: "pr_log (par_start args w) = []" "pr_queues (par_start args w) = q" "pr_barriers (par_start args w) = barriers_new"
    by (simp_all add: par_start_def q(1) Let_def)
  note n = phases_start [of args w]
  have t: "table_sum f barriers_new = 0" for f :: "barrier_record \<Rightarrow> 'z :: comm_monoid_add"
    by (simp add: table_sum_def barriers_new_def)
  have r: "sum_list (replicate n {#}) = {#}" for n by (induction n) simp_all
  have "(\<Sum>task\<in>#mset (map (\<lambda>p. PreOrderRoot (pre_order_root_for_path p 0)) ps). task_rest args task)
      = sum_list (map (\<lambda>p. mset (deep_entries (pa_plan args) (walk_tree (pa_walk args) (root_pending p)))) ps)" for ps
    by (induction ps) (simp_all add: tree_entries_def)
  then have roots: "(\<Sum>task\<in>#queued q. task_rest args task) = mset (whole_walk args)"
    unfolding q(2) whole_walk_def mset_start_marks .
  have "(\<Sum>task\<in>#mset (map (\<lambda>p. PreOrderRoot (pre_order_root_for_path p 0)) ps). task_units b task) = 0" for b ps
    by (induction ps) simp_all
  then have units: "(\<Sum>task\<in>#queued q. task_units b task) = 0" for b unfolding q(2) .
  have "rest args (par_start args w) = mset (whole_walk args)"
    by (simp add: rest_def total_def s n r t roots)
  moreover have "task_claims (par_start args w) = (\<lambda>_. 0)"
    by (simp add: task_claims_def s n units fun_eq_iff sum_list_replicate)
  moreover have "units_ok (\<lambda>_. 0) barriers_new"
    by (simp add: units_ok_def t waiting_def) (simp add: barriers_new_def)
  ultimately show ?thesis by (simp add: run_balanced_def s)
qed

lemma reach_ok:
  assumes "par_reach args (par_start args w) s" "par_backend_ok args"
  shows "run_ok args s" "identities_found args \<Longrightarrow> run_balanced args (mset (whole_walk args)) s"
proof -
  from assms(1) have "run_ok args s \<and> (identities_found args \<longrightarrow> run_balanced args (mset (whole_walk args)) s)"
  proof induction
    case start
    show ?case by (intro conjI impI start_ok start_balanced)
  next
    case (step s s')
    with par_step_ok [OF step(2) _ assms(2)] show ?case by blast
  qed
  then show "run_ok args s" "identities_found args \<Longrightarrow> run_balanced args (mset (whole_walk args)) s" by blast+
qed

text \<open>
  C8.  The count of outstanding tasks, the only thing the workers look at to decide whether to
  exit, is in every state of every run the number of tasks that are queued somewhere plus the
  number of workers that hold one: no task is lost and none is counted twice.
\<close>

theorem outstanding_counts_tasks:
  assumes "par_backend_ok args" "par_reach args (par_start args w) s"
  shows "outstanding_tasks (pr_control s) = size (queued (pr_queues s)) + length (filter busy (phases s))"
proof -
  have "busy_count phs = length (filter busy phs)" for phs
    by (induction phs) (simp_all add: busy_count_def)
  then show ?thesis using run_okD(3) [OF reach_ok(1) [OF assms(2,1)]] by simp
qed

lemma no_records_left:
  assumes "units_ok (\<lambda>_. 0) t"
  shows "bt_records t b = None"
proof (rule ccontr)
  assume "bt_records t b \<noteq> None"
  then obtain k0 r0 where "bt_records t (SubtreeBarrierId k0) = Some r0" by (cases b) auto
  define K where "K = {k. bt_records t (SubtreeBarrierId k) \<noteq> None}"
  have ok: "barriers_ok t" using assms by (simp add: units_ok_def)
  then have "K \<subseteq> {..<bt_next_id t}" by (auto simp: K_def barriers_ok_def)
  then have fin: "finite K" by (rule finite_subset) simp
  have "k0 \<in> K" by (simp add: K_def \<open>bt_records t (SubtreeBarrierId k0) = Some r0\<close>)
  then have max: "Max K \<in> K" using fin by (intro Max_in) auto
  then obtain r where r: "bt_records t (SubtreeBarrierId (Max K)) = Some r" by (auto simp: K_def)
  then have "waiting t (SubtreeBarrierId (Max K)) \<ge> 1" using assms by (auto simp: units_ok_def waiting_def)
  then have "table_sum (record_claims (SubtreeBarrierId (Max K))) t \<noteq> 0"
    using units_waiting [OF assms, of "SubtreeBarrierId (Max K)"] by simp
  then obtain k where k: "(case bt_records t (SubtreeBarrierId k) of None \<Rightarrow> 0
      | Some r \<Rightarrow> record_claims (SubtreeBarrierId (Max K)) r) \<noteq> 0"
    unfolding table_sum_def by (meson sum.neutral)
  then obtain r' where r': "bt_records t (SubtreeBarrierId k) = Some r'" "record_claims (SubtreeBarrierId (Max K)) r' > 0"
    by (auto split: option.splits)
  then have "Max K < k" using assms by (auto simp: units_ok_def)
  moreover have "k \<in> K" using r' by (simp add: K_def)
  ultimately show False using Max_ge [OF fin] by fastforce
qed

lemma finished_rest:
  assumes "run_ok args s" "run_balanced args T s" "\<forall>ph\<in>set (phases s). ph = Finished" "pr_workers s \<noteq> []"
    "accepts_new_work (pr_control s)"
  shows "mset (pr_log s) = T" "queued (pr_queues s) = {#}" "bt_records (pr_barriers s) b = None"
proof -
  note ok = run_okD [OF assms(1)]
  have "phases s \<noteq> []" using assms(4) by (simp add: phases_def)
  then have "outstanding_tasks (pr_control s) = 0"
    using ok(7) [OF assms(5), of Finished] assms(3) by (cases "phases s") auto
  then show q: "queued (pr_queues s) = {#}" using ok(3) by simp
  have zero_rest: "sum_list (map (phase_rest args) (phases s)) = 0"
    by (rule sum_list_zero) (use assms(3) in fastforce)
  have zero: "sum_list (map (phase_units b) (phases s)) = 0" for b
    by (rule sum_list_zero) (use assms(3) in fastforce)
  from assms(2,5) have bal: "mset (pr_log s) + rest args s = T" and u: "units_ok (task_claims s) (pr_barriers s)"
    by (simp_all add: run_balanced_def)
  have "task_claims s = (\<lambda>_. 0)"
    by (simp add: task_claims_def [abs_def] q zero)
  with u have none: "bt_records (pr_barriers s) b = None" for b by (simp add: no_records_left)
  then show "bt_records (pr_barriers s) b = None" .
  have "table_sum (record_rest args) (pr_barriers s) = {#}" by (simp add: table_sum_def none)
  with zero_rest have "rest args s = {#}" by (simp add: rest_def total_def q)
  with bal show "mset (pr_log s) = T" by simp
qed

lemma par_step_workers:
  assumes "par_step args s s'" "run_ok args s" "par_backend_ok args"
  shows "length (pr_workers s') = length (pr_workers s)"
proof -
  note ok = run_okD [OF assms(2)]
  from assms(1) have "length (phases s') = length (phases s)"
  proof cases
    case (worker i mv)
    from this show ?thesis
    proof (cases rule: worker_step_cases)
      case (start task)
      from start_task_outcome [OF ok(1), of args i task] start(3) show ?thesis
        by (auto elim!: start_outcome.cases simp del: phases_length)
    next
      case (run fs)
      have fine: "frames_fine args fs" "accepts_new_work (pr_control s) \<longrightarrow> calm fs"
        using ok(6) [OF run(1)] run(2) by simp_all
      then have "task_outcome args i fs s s'"
        unfolding run(3) by (intro worker_refines_moves) (auto simp: frames_fine_def frame_fine_chunks ok(1))
      then show ?thesis by (auto elim!: task_outcome.cases simp del: phases_length)
    qed (use finish_worker_outcome [of args i s] in \<open>simp_all del: phases_length\<close>)
  next
    case broker
    from broker_step_same(5) [OF broker] show ?thesis by simp
  qed
  then show ?thesis by simp
qed

lemma reach_workers:
  assumes "par_reach args (par_start args w) s" "par_backend_ok args"
  shows "length (pr_workers s) = worker_count args"
  using assms(1)
proof induction
  case start
  then show ?case by (simp add: par_start_def Let_def split: prod.split)
next
  case (step s s')
  with par_step_workers [OF step(2) reach_ok(1) [OF step(1) assms(2)] assms(2)] show ?case by simp
qed

text \<open>
  A parallel run evaluates exactly the entries that the ordered walk reports, each as often,
  however many workers there are and however their steps interleave: when all workers have
  finished and nothing has asked for the end of the run, the entries evaluated are those of the
  walk from the start paths at least as deep as the minimum depth.
\<close>

theorem parallel_run_evaluates_walk:
  assumes "par_backend_ok args" "par_reach args (par_start args w) s"
    and "\<forall>ph\<in>set (phases s). ph = Finished" "accepts_new_work (pr_control s)" "identities_found args"
  shows "mset (pr_log s)
    = mset (deep_entries (pa_plan args) (start_marks (pa_walk args) (plan_start_paths (pa_plan args))))"
proof -
  have "length (pr_workers s) > 0"
    using reach_workers [OF assms(2,1)] by (simp add: worker_count_def)
  then have "pr_workers s \<noteq> []" by auto
  from finished_rest(1) [OF reach_ok(1) [OF assms(2,1)] reach_ok(2) [OF assms(2,1,5)] assms(3) this assms(4)] show ?thesis
    by (simp add: whole_walk_def)
qed

section \<open>A back end that satisfies the hypotheses\<close>

text \<open>
  The back end over the file system has what \<open>par_backend_ok\<close> asks for; the identities are found
  where every path has metadata with an identity.
\<close>

definition total_reader :: "platform_reader \<Rightarrow> bool" where
  "total_reader reader \<longleftrightarrow>
     (\<forall>p follow. \<exists>v i. read_metadata_view reader p follow = Inr v \<and> view_identity v = Some i)"

lemma total_reader_identity:
  assumes "total_reader (entry_reader e)"
  shows "active_directory_identity e m \<noteq> Inl err"
proof -
  obtain v i where "read_metadata_view (entry_reader e) (entry_path e) False = Inr v" "view_identity v = Some i"
    using assms by (metis total_reader_def)
  moreover obtain v' i' where "read_metadata_view (entry_reader e) (entry_path e) True = Inr v'" "view_identity v' = Some i'"
    using assms by (metis total_reader_def)
  ultimately show ?thesis
    by (auto simp: active_directory_identity_def physical_is_traversal_link_def active_kind_def active_identity_def follows_link_def
        physical_kind_def logical_kind_def physical_view_def logical_view_def physical_identity_def logical_identity_def
        map_err_def ok_or_def try_bind_def ok_value_def Let_def
        split: sum.splits option.splits if_splits)
qed

lemma fs_backend_load:
  "wb_load_entry (fs_walk_backend reader read_dir) p = Inr e \<Longrightarrow> entry_depth e = pp_depth p \<and> entry_reader e = reader"
  by (auto simp: fs_walk_backend_def load_entry_def with_file_type_hint_and_root_def with_reader_hint_and_root_def
      Let_def try_bind_def split: if_splits sum.splits)

lemma fs_backend_ok:
  assumes "re_backend (pa_env args) = fs_walk_backend reader read_dir"
  shows "par_backend_ok args"
proof -
  let ?b = "fs_walk_backend reader read_dir"
  have "wb_load_entry ?b (p\<lparr>pp_ancestor_barriers := bs, pp_parent_completion := c\<rparr>) = wb_load_entry ?b p" for p bs c
    by (simp add: fs_walk_backend_def load_entry_def)
  moreover have "wb_visit_children ?b p = (items, Inl err) \<Longrightarrow> items = []" for p items err
    by (auto simp: fs_walk_backend_def visit_children_def split: sum.splits)
  ultimately show ?thesis using fs_backend_load by (auto simp: par_backend_ok_def Let_def assms)
qed

lemma fs_identities_found:
  assumes "re_backend (pa_env args) = fs_walk_backend reader read_dir" "total_reader reader"
  shows "identities_found args"
proof -
  have "wb_active_directory_identity (fs_walk_backend reader read_dir) e m \<noteq> Inl err"
    if "wb_load_entry (fs_walk_backend reader read_dir) p = Inr e" for p e m err
    using fs_backend_load [OF that] total_reader_identity [of e m err] assms(2) by (simp add: fs_walk_backend_def)
  then show ?thesis by (simp add: identities_found_def assms(1))
qed

section \<open>A sample run\<close>

text \<open>One interleaving, given as the list of who moves and how.\<close>

datatype run_move = ByWorker nat worker_move | ByBroker

fun par_run :: "('rx, 'w) par_args \<Rightarrow> run_move list \<Rightarrow> 'w par_state \<Rightarrow> 'w par_state option" where
  "par_run args [] s = Some s"
| "par_run args (mv # mvs) s =
     (case (case mv of ByWorker i m \<Rightarrow> worker_step args i m s | ByBroker \<Rightarrow> broker_step args s) of
        None \<Rightarrow> None
      | Some s' \<Rightarrow> par_run args mvs s')"

lemma par_run_reach:
  assumes "par_run args mvs s = Some s'" "par_reach args s0 s"
  shows "par_reach args s0 s'"
  using assms
proof (induction mvs arbitrary: s)
  case (Cons mv mvs)
  show ?case
  proof (cases mv)
    case (ByWorker i m)
    with Cons.prems(1) obtain s1 where "worker_step args i m s = Some s1" "par_run args mvs s1 = Some s'"
      by (auto split: option.splits)
    with Cons.IH Cons.prems(2) show ?thesis by (meson par_reach.step par_step.worker)
  next
    case ByBroker
    with Cons.prems(1) obtain s1 where "broker_step args s = Some s1" "par_run args mvs s1 = Some s'"
      by (auto split: option.splits)
    with Cons.IH Cons.prems(2) show ?thesis by (meson par_reach.step par_step.broker)
  qed
qed simp

fun has_finished :: "worker_phase \<Rightarrow> bool" where
  "has_finished Finished \<longleftrightarrow> True"
| "has_finished _ \<longleftrightarrow> False"

lemma has_finished_iff: "has_finished ph \<longleftrightarrow> ph = Finished"
  by (cases ph) simp_all

lemma broker_step_code [code]:
  "broker_step args s =
     (case pr_broker_result s of
        Some r \<Rightarrow> None
      | None \<Rightarrow>
        (case bc_messages (bk_channel (pr_brokered s)) of
           msg # msgs \<Rightarrow>
             (case write_message (re_host (pa_env args)) msg (bk_world (pr_brokered s)) of
                (Inr _, w) \<Rightarrow>
                  Some (s\<lparr>pr_brokered := \<lparr>bk_channel = \<lparr>bc_messages = msgs, bc_open = True\<rparr>, bk_world = w\<rparr>\<rparr>)
              | (Inl err, w) \<Rightarrow>
                  Some (s\<lparr>pr_brokered := \<lparr>bk_channel = \<lparr>bc_messages = [], bc_open = False\<rparr>, bk_world = w\<rparr>,
                          pr_broker_result := Some (Inl err)\<rparr>))
         | [] \<Rightarrow>
             if list_all (\<lambda>t. has_finished (wt_phase t)) (pr_workers s)
             then Some (s\<lparr>pr_broker_result := Some (Inr ())\<rparr>) else None))"
  by (simp add: broker_step_def has_finished_iff list_all_iff split: option.split list.split)

text \<open>With nothing pending a flush does nothing; this spares the evaluation of the batch runner.\<close>

lemma worker_flush_code [code]:
  "worker_flush ph s =
     (case bt_entries (wb_pending (ws_batches s)) of
        [] \<Rightarrow> (worker_batch_status (Inr False), s\<lparr>ws_batches := (ws_batches s)\<lparr>wb_pending := bt_empty\<rparr>\<rparr>)
      | _ \<Rightarrow>
        (let (r, b) = worker_flush_all (run_parallel_ready_batch ph default_spill_threshold) (ws_batches s)
         in (worker_batch_status r, s\<lparr>ws_batches := b\<rparr>)))"
  by (simp add: worker_flush_def worker_flush_all_def split: list.split)

text \<open>Two workers on the sample directory, which the second takes over; then both leave.\<close>

definition pair_plan :: "unit execution_plan" where
  "pair_plan = print_plan\<lparr>plan_runtime_policy := derive_with_parallelism 2 PreOrder False 4, plan_mode := ParallelRelaxed\<rparr>"

definition pair_args :: "(unit, string list) par_args" where
  "pair_args =
     \<lparr>pa_env = print_env, pa_piped = quiet_commands, pa_ctx = with_now (Timestamp 0 0), pa_plan = pair_plan,
      pa_files = 0, pa_prompt = default_messages_locale\<rparr>"

definition pair_moves :: "run_move list" where
  "pair_moves =
     ByWorker 1 (MovePop (TakeInjected 0)) # replicate 9 (ByWorker 1 MoveRun)
     @ [ByBroker, ByWorker 0 MoveExit, ByWorker 0 MoveRun, ByWorker 1 MoveExit, ByWorker 1 MoveRun, ByBroker, ByBroker]"

definition pair_end :: "string list par_state" where
  "pair_end = the (par_run pair_args pair_moves (par_start pair_args []))"

lemma pair_run: "par_run pair_args pair_moves (par_start pair_args []) \<noteq> None"
  by code_simp

lemma pair_ends:
  "list_all has_finished (phases pair_end)" "accepts_new_work (pr_control pair_end)"
  "outstanding_tasks (pr_control pair_end) = 0" "pr_broker_result pair_end = Some (Inr ())"
  "map entry_path (pr_log pair_end) = [''d/f'', ''d/l'']"
  "bk_world (pr_brokered pair_end) = [''d/f'' @ [CHR 0x0A], ''d/l'' @ [CHR 0x0A]]"
  by code_simp+

lemma pair_ok: "par_backend_ok pair_args" "identities_found pair_args"
proof -
  have b: "re_backend (pa_env pair_args) = fs_walk_backend loop_reader loop_dir" by (simp add: pair_args_def print_env_def)
  then show "par_backend_ok pair_args" by (rule fs_backend_ok)
  have "total_reader loop_reader" by (simp add: total_reader_def loop_reader_def sample_reader_def sample_view_def)
  with b show "identities_found pair_args" by (rule fs_identities_found)
qed

lemma pair_reach:
  "par_run pair_args mvs (par_start pair_args []) = Some s \<Longrightarrow> par_reach pair_args (par_start pair_args []) s"
  by (rule par_run_reach [OF _ par_reach.start])

lemma pair_end_reached: "par_reach pair_args (par_start pair_args []) pair_end"
  using pair_run by (intro pair_reach) (auto simp: pair_end_def)

lemma outstanding_counts_tasks_witness:
  "case par_run pair_args (take 4 pair_moves) (par_start pair_args []) of
     None \<Rightarrow> False
   | Some s \<Rightarrow> outstanding_tasks (pr_control s) = 1
       \<and> size (queued (pr_queues s)) + length (filter busy (phases s)) = 1"
proof -
  have "case par_run pair_args (take 4 pair_moves) (par_start pair_args []) of
      None \<Rightarrow> False | Some s \<Rightarrow> outstanding_tasks (pr_control s) = 1"
    by code_simp
  then obtain s where s: "par_run pair_args (take 4 pair_moves) (par_start pair_args []) = Some s"
    "outstanding_tasks (pr_control s) = 1"
    by (auto split: option.splits)
  from outstanding_counts_tasks [OF pair_ok(1) pair_reach [OF s(1)]] s show ?thesis by simp
qed

lemma parallel_run_evaluates_walk_witness:
  "mset (pr_log pair_end)
     = mset (deep_entries pair_plan (start_marks (pa_walk pair_args) [''d'']))
   \<and> map entry_path (pr_log pair_end) = [''d/f'', ''d/l'']"
proof -
  have "\<forall>ph\<in>set (phases pair_end). ph = Finished" using pair_ends(1) by (simp add: list_all_iff has_finished_iff)
  from parallel_run_evaluates_walk [OF pair_ok(1) pair_end_reached this pair_ends(2) pair_ok(2)] pair_ends(5)
  show ?thesis by (simp add: pair_args_def pair_plan_def print_plan_def)
qed

end
