(* ===== verification/Parallel_Progress.thy ===== *)
theory Parallel_Progress
  imports Parallel_Run
begin

text \<open>
  Every run of the workers ends, and it ends with all of them finished: a number that every step
  of a worker lowers, and the absence of states in which no thread can go on.
\<close>

section \<open>The work below a path\<close>

text \<open>What visiting a path opens, if anything.\<close>

definition opened :: "('rx, 'w) par_args \<Rightarrow> pending_path \<Rightarrow> (file_identity list \<times> u64 option) option" where
  "opened args p =
     (case wb_load_entry (re_backend (pa_env args)) p of
        Inl error \<Rightarrow> None
      | Inr e \<Rightarrow>
     (case entry_control args e of
        Inl error \<Rightarrow> None
      | Inr verdict \<Rightarrow> (case descend_into args p e verdict of Inr (Some x) \<Rightarrow> Some x | _ \<Rightarrow> None)))"

lemma opened_room:
  assumes "opened args p = Some (anc, dev)"
  shows "room (pa_walk args) (child_pending p anc dev child) < room (pa_walk args) p"
proof -
  from assms obtain e verdict where
    d: "should_descend_directory p e (plan_follow_mode (pa_plan args)) (plan_traversal (pa_plan args)) verdict
       (re_backend (pa_env args)) = Inr (Some (anc, dev))"
    by (auto simp: opened_def descend_into_def split: sum.splits option.splits)
  from descend_fresh [OF d] obtain i where
    i: "wb_active_directory_identity (re_backend (pa_env args)) e (plan_follow_mode (pa_plan args)) = Inr (Some i)"
      "i \<notin> set (pp_ancestry p)" "anc = pp_ancestry p @ [i]" by blast
  then have "i \<in> all_directories (pa_walk args)" by (auto simp: all_directories_def plan_walk_args_def)
  then have "card (all_directories (pa_walk args) - set anc) < card (all_directories (pa_walk args) - set (pp_ancestry p))"
    using i finite_identities by (intro psubset_card_mono) auto
  then show ?thesis by (simp add: room_def child_pending_def)
qed

function tree_work :: "('rx, 'w) par_args \<Rightarrow> pending_path \<Rightarrow> nat" where
  "tree_work args p =
     10 + (case opened args p of
             None \<Rightarrow> 0
           | Some (anc, dev) \<Rightarrow>
               sum_list (map (\<lambda>item. case item of
                 Inr child \<Rightarrow> tree_work args (child_pending p anc dev child) + 6 | Inl error \<Rightarrow> 1)
                 (fst (children_of args p))))"
  by pat_completeness auto
termination
  by (relation "measure (\<lambda>(args, p). room (pa_walk args) p)") (simp_all add: opened_room)

declare tree_work.simps [simp del]

definition item_work ::
  "('rx, 'w) par_args \<Rightarrow> pending_path \<Rightarrow> file_identity list \<Rightarrow> u64 option \<Rightarrow> discovered_child result list \<Rightarrow> nat" where
  "item_work args p anc dev items =
     sum_list (map (\<lambda>item. case item of
        Inr child \<Rightarrow> tree_work args (child_pending p anc dev child) + 6 | Inl error \<Rightarrow> 1) items)"

lemma item_work_simps [simp]:
  "item_work args p anc dev [] = 0"
  "item_work args p anc dev (Inl error # items) = 1 + item_work args p anc dev items"
  "item_work args p anc dev (Inr child # items) =
     tree_work args (child_pending p anc dev child) + 6 + item_work args p anc dev items"
  by (simp_all add: item_work_def)

lemma tree_work_open:
  assumes "readable args p e verdict" "descend_into args p e verdict = Inr (Some (anc, dev))" "children_of args p = (items, r)"
  shows "tree_work args p = 10 + item_work args p anc dev items"
proof -
  have o: "opened args p = Some (anc, dev)" using assms by (simp add: opened_def readable_def)
  show ?thesis unfolding tree_work.simps [of args p] item_work_def o assms(3) option.case prod.case fst_conv ..
qed

lemma tree_work_least: "tree_work args p \<ge> 10"
  by (subst tree_work.simps) simp

lemma opened_plain:
  assumes "par_backend_ok args" "plain p = plain q"
  shows "opened args p = opened args q"
proof -
  have f: "pp_path p = pp_path q" "pp_depth p = pp_depth q" "pp_ancestry p = pp_ancestry q"
    "pp_root_device p = pp_root_device q"
    using assms(2) by (simp_all add: plain_fields)
  have d: "descend_into args p = descend_into args q"
    unfolding descend_into_def should_descend_directory_def f ..
  show ?thesis unfolding opened_def load_plain [OF assms] d ..
qed

lemma tree_work_plain:
  assumes "par_backend_ok args"
  shows "plain p = plain q \<Longrightarrow> tree_work args p = tree_work args q"
proof (induction "room (pa_walk args) p" arbitrary: p q rule: less_induct)
  case less
  note o = opened_plain [OF assms less.prems]
  have c: "children_of args p = children_of args q" using less.prems by (simp add: plain_fields children_of_def)
  show ?case
  proof (cases "opened args p")
    case None
    with o show ?thesis by (subst (1 2) tree_work.simps) simp
  next
    case (Some x)
    obtain anc dev where x: "x = (anc, dev)" by fastforce
    have k: "tree_work args (child_pending p anc dev ch) = tree_work args (child_pending q anc dev ch)" for ch
      by (rule less.hyps [OF opened_room]) (use Some x less.prems in \<open>simp_all add: plain_fields child_pending_def\<close>)
    show ?thesis
      unfolding tree_work.simps [of args p] tree_work.simps [of args q] o [symmetric] c [symmetric] Some x
        option.case prod.case k ..
  qed
qed

lemma tree_work_simps [simp]:
  assumes "par_backend_ok args"
  shows "tree_work args (with_completion b p) = tree_work args p"
    "tree_work args (under_barrier barrier p) = tree_work args p"
  by (rule tree_work_plain [OF assms]; simp)+

section \<open>The work of a state\<close>

definition pend_work :: "('rx, 'w) par_args \<Rightarrow> pending_path list \<Rightarrow> nat" where
  "pend_work args ps = sum_list (map (tree_work args) ps)"

text \<open>A child in an accumulator may still become part of a task, which costs five more steps.\<close>

definition chunk_work :: "('rx, 'w) par_args \<Rightarrow> chunk_accumulator \<Rightarrow> nat" where
  "chunk_work args chunks = (\<Sum>p\<in>#chunk_children chunks. tree_work args p + 5)"

definition spill_work :: "('rx, 'w) par_args \<Rightarrow> pending_path list list \<Rightarrow> nat" where
  "spill_work args chunks = sum_list (map (\<lambda>chunk. pend_work args chunk + 5) chunks)"

fun frame_work :: "('rx, 'w) par_args \<Rightarrow> task_frame \<Rightarrow> nat" where
  "frame_work args (PreLoop ps st) = 1 + pend_work args ps"
| "frame_work args (PreVisit p anc dev items r chunks em) = 1 + item_work args p anc dev items + chunk_work args chunks"
| "frame_work args (PostBatch b ps st) = 1 + pend_work args ps"
| "frame_work args (PostVisit p e anc dev items r chunks em) =
     8 + item_work args p anc dev items + chunk_work args chunks"
| "frame_work args (PostSpill b chunks st) = 1 + spill_work args chunks"
| "frame_work args (NotifyBarrier b) = 1"
| "frame_work args (TaskEnd st) = 1"

definition frames_work :: "('rx, 'w) par_args \<Rightarrow> task_frame list \<Rightarrow> nat" where
  "frames_work args fs = sum_list (map (frame_work args) fs)"

text \<open>A task in a queue, and one more each for taking it, starting it and going back to the queue.\<close>

fun task_work :: "('rx, 'w) par_args \<Rightarrow> parallel_task \<Rightarrow> nat" where
  "task_work args (PreOrderRoot root) = tree_work args (prt_pending root) + 4"
| "task_work args (SiblingChunk chunk) = pend_work args (sct_pending chunk) + 5"
| "task_work args (PostOrderResume resume) = 4"

fun record_work :: "barrier_record \<Rightarrow> nat" where
  "record_work (BarrierDirectory e n notify) = 4"
| "record_work (BarrierBatch n parent) = 1"

fun phase_work :: "('rx, 'w) par_args \<Rightarrow> worker_phase \<Rightarrow> nat" where
  "phase_work args Popping = 2"
| "phase_work args (Popped task) = task_work args task + 1"
| "phase_work args (InTask fs) = frames_work args fs + 2"
| "phase_work args Flushing = 1"
| "phase_work args Finished = 0"

lemma pend_work_simps [simp]:
  "pend_work args [] = 0" "pend_work args (p # ps) = tree_work args p + pend_work args ps"
  "pend_work args (ps @ qs) = pend_work args ps + pend_work args qs"
  by (simp_all add: pend_work_def)

lemma pend_work_under [simp]:
  "par_backend_ok args \<Longrightarrow> pend_work args (map (under_barrier b) ps) = pend_work args ps"
  by (induction ps) simp_all

lemma spill_work_simps [simp]:
  "spill_work args [] = 0" "spill_work args (chunk # chunks) = pend_work args chunk + 5 + spill_work args chunks"
  by (simp_all add: spill_work_def)

lemma spill_work_under [simp]:
  "par_backend_ok args \<Longrightarrow> spill_work args (map (map (under_barrier b)) chunks) = spill_work args chunks"
  by (induction chunks) simp_all

lemma tasks_work_chunks [simp]: "sum_list (map (task_work args) (chunk_tasks b chunks)) = spill_work args chunks"
  by (induction chunks) (simp_all add: chunk_tasks_def)

lemma frames_work_simps [simp]:
  "frames_work args [] = 0" "frames_work args (f # fs) = frame_work args f + frames_work args fs"
  "frames_work args (fs @ gs) = frames_work args fs + frames_work args gs"
  by (simp_all add: frames_work_def)

lemma notify_work: "frames_work args (notify_frames n) \<le> 1"
  by (simp add: notify_frames_def split: option.split)

lemma return_work: "frames_work args (return_status st fs) \<le> frames_work args fs"
  by (induction st fs rule: return_status.induct) auto

lemma frame_work_positive: "frame_work args f \<ge> 1"
  by (cases f) simp_all

lemma chunk_work_fresh [simp]: "chunk_work args fresh_chunks = 0"
  by (simp add: chunk_work_def)

lemma chunk_work_push:
  "chunks_ok chunks \<Longrightarrow> chunk_work args (chunks_push child may chunks) = tree_work args child + 5 + chunk_work args chunks"
  by (simp add: chunk_work_def chunks_push_ok(2))

lemma children_work: "(\<Sum>p\<in>#mset ps. tree_work args p + 5) = pend_work args ps + 5 * length ps"
  by (induction ps) simp_all

lemma spilled_work:
  assumes "\<forall>chunk\<in>set chunks. chunk \<noteq> []"
  shows "spill_work args chunks \<le> (\<Sum>p\<in>#mset (concat chunks). tree_work args p + 5)"
  using assms
proof (induction chunks)
  case (Cons chunk chunks)
  then have "length chunk \<ge> 1" by (cases chunk) auto
  with Cons show ?case using children_work [of args chunk] by simp
qed simp

lemma chunk_work_take:
  assumes "chunks_ok chunks" "take_spilled_chunks chunks = (spilled, chunks')"
  shows "spill_work args spilled + chunk_work args chunks' \<le> chunk_work args chunks"
proof -
  note t = chunks_take_ok [OF assms]
  have "ca_chunk_size chunks > 0" using assms(1) by (simp add: chunks_ok_def)
  then have "\<forall>chunk\<in>set spilled. chunk \<noteq> []" using t(3) by fastforce
  from spilled_work [OF this, of args] show ?thesis by (simp add: chunk_work_def t(2))
qed

lemma plan_work:
  assumes "chunks_ok chunks" "plan = chunks_finish chunks \<or> plan = chunks_finish (chunks_observe_quit chunks)"
  shows "pend_work args (cp_local_stack plan) + 5 * length (cp_local_stack plan)
    + spill_work args (cp_spilled_chunks plan) \<le> chunk_work args chunks"
proof -
  have "plan_children plan = chunk_children chunks"
    using assms chunks_finish_ok(1) chunks_quit_ok(1,2) by metis
  then have "chunk_work args chunks = (\<Sum>p\<in>#mset (cp_local_stack plan). tree_work args p + 5)
      + (\<Sum>p\<in>#mset (concat (cp_spilled_chunks plan)). tree_work args p + 5)"
    by (simp add: chunk_work_def plan_children_def flip: image_mset_union sum_mset.union)
  moreover have "\<forall>chunk\<in>set (cp_spilled_chunks plan). chunk \<noteq> []"
    using assms chunks_finish_ok(2) [of chunks] chunks_quit_ok(1,3) [OF assms(1)] by auto
  ultimately show ?thesis using spilled_work [of "cp_spilled_chunks plan" args] children_work [of args "cp_local_stack plan"] by simp
qed

section \<open>Every move lowers the work\<close>

lemma finish_work:
  assumes "barriers_ok t" "finish_spilled_chunk b t = (release, t')"
  shows "table_sum record_work t' + (case release of None \<Rightarrow> 0 | Some (ReleaseResume task) \<Rightarrow> 4 | Some (ReleaseNotifyParent p) \<Rightarrow> 1)
    \<le> table_sum record_work t"
  using assms(2)
proof (cases rule: finish_cases)
  case (less r)
  have "record_work (record_less r) = record_work r" by (cases r) simp_all
  with table_sum_update [OF assms(1) less(1), of record_work "Some (record_less r)"] less show ?thesis by simp
next
  case (last r)
  have "record_work r = (case release_of r of ReleaseResume task \<Rightarrow> 4 | ReleaseNotifyParent p \<Rightarrow> 1)" by (cases r) simp_all
  with table_sum_update [OF assms(1) last(1), of record_work None] last show ?thesis by simp
qed simp

lemma move_work:
  assumes "task_move args go fs t fs' tasks t' L" "par_backend_ok args" "frames_fine args fs" "barriers_ok t"
  shows "frames_work args fs' + sum_list (map (task_work args) tasks) + table_sum record_work t'
    < frames_work args fs + table_sum record_work t"
  using assms(1)
proof cases
  case (loop_end st fs0)
  then show ?thesis using return_work [of args st fs0] by simp
next
  case (loop_skip p ps st fs0)
  then show ?thesis using tree_work_least [of args p] by simp
next
  case (loop_leaf p e verdict d st' st ps fs0)
  then show ?thesis using tree_work_least [of args p] by simp
next
  case (loop_open p e verdict anc dev items r st' st ps fs0)
  then show ?thesis using tree_work_open [OF loop_open(5-7)] by simp
next
  case (loop_child child p anc dev may chunks c1 spilled c2 items r em fs0)
  with assms(3) have ok: "chunks_ok chunks" by (auto simp: frames_fine_def)
  have "spill_work args spilled + chunk_work args c2 \<le> chunk_work args c1"
    using loop_child(7) chunk_work_take [of c1 spilled c2] chunks_push_ok(1) [OF ok] loop_child(6) by auto
  moreover have "chunk_work args c1 = tree_work args (child_pending p anc dev child) + 5 + chunk_work args chunks"
    using chunk_work_push [OF ok] loop_child(6) by auto
  ultimately show ?thesis using loop_child(1-5) by simp
next
  case (loop_publish plan chunks p anc dev u ps st fs0)
  with assms(3) have "chunks_ok chunks" by auto
  from plan_work [OF this loop_publish(6), of args] loop_publish show ?thesis by simp
next
  case (batch_end b st fs0)
  then show ?thesis using return_work [of args st fs0] by simp
next
  case (batch_error q b p ps st fs0)
  then show ?thesis using tree_work_least [of args p] notify_work [of args "notify_parent q"] assms(2) by simp
next
  case (batch_leaf q b p e verdict st' ps st fs0)
  then show ?thesis
    using tree_work_least [of args p] notify_work [of args "notify_parent q"] assms(2)
      return_work [of args st' "PostBatch b ps st # fs0"] by simp
next
  case (batch_open q b p e verdict x anc dev items r ps st fs0)
  then show ?thesis using tree_work_open [OF batch_open(7,9,10)] assms(2) by simp
next
  case (visit_child child p anc dev may chunks c1 e items r em fs0)
  with assms(3) chunk_work_push [of chunks args "child_pending p anc dev child" may] show ?thesis by auto
next
  case (visit_complete r chunks st p e anc dev em fs0)
  then show ?thesis using notify_work [of args "notify_parent p"] return_work [of args st fs0] by simp
next
  case (visit_split plan chunks e p b u anc dev fs0)
  with plan_work [of chunks plan args] assms(3) table_sum_directory [OF visit_split(8), of record_work]
  show ?thesis by auto
next
  case (visit_split_one plan chunks c e p b u anc dev fs0)
  with plan_work [of chunks plan args] assms(2,3) table_sum_directory [OF visit_split_one(7), of record_work]
  show ?thesis by auto
next
  case (visit_split_many plan chunks e p b t1 b' u anc dev fs0)
  with plan_work [of chunks plan args] assms(2,3) table_sum_directory [OF visit_split_many(7), of record_work]
    table_sum_batch [OF visit_split_many(8), of record_work]
  show ?thesis by auto
next
  case (spill st b chunks fs0)
  then show ?thesis using return_work [of args st fs0] assms(2) by simp
next
  case (notify_wait b)
  then show ?thesis using finish_work [OF assms(4) notify_wait(4)] by simp
next
  case (notify_resume b task)
  then show ?thesis using finish_work [OF assms(4) notify_resume(4)] by simp
next
  case (notify_up b parent fs0)
  then show ?thesis using finish_work [OF assms(4) notify_up(5)] by simp
next
  case (stopped f fs0 st)
  then show ?thesis using return_work [of args st fs0] frame_work_positive [of args f] by simp
qed simp_all

lemma start_work:
  assumes "start_move args go task t fs t' L"
  shows "frames_work args fs + table_sum record_work t' + 2 \<le> task_work args task + table_sum record_work t"
  using assms
proof cases
  case (start_many chunk b b')
  then show ?thesis using table_sum_batch [OF start_many(6), of record_work] by simp
next
  case (start_resume st resume)
  then show ?thesis using notify_work [of args "rt_notify_parent resume"] by simp
qed simp_all

section \<open>Every step of a worker lowers the work of the run\<close>

definition state_work :: "('rx, 'w) par_args \<Rightarrow> 'w par_state \<Rightarrow> nat" where
  "state_work args s = total (task_work args) (phase_work args) record_work s"

lemma state_work_change:
  assumes "i < length (pr_workers s)" "phases s' = (phases s)[i := ph]"
    and "(\<Sum>task\<in>#queued (pr_queues s'). task_work args task) + phase_work args ph + table_sum record_work (pr_barriers s')
      < (\<Sum>task\<in>#queued (pr_queues s). task_work args task) + phase_work args (phases s ! i) + table_sum record_work (pr_barriers s)"
  shows "state_work args s' < state_work args s"
proof -
  have "i < length (phases s)" using assms(1) by simp
  from sum_list_update_phase [OF this, of "phase_work args" ph] assms(2,3)
  show ?thesis by (simp add: state_work_def total_def del: phases_nth)
qed

lemma run_work:
  assumes "run_ok args s" "par_backend_ok args" "i < length (pr_workers s)" "phases s ! i = InTask fs"
    and "task_outcome args i fs s s'"
  shows "state_work args s' < state_work args s"
proof -
  note ok = run_okD [OF assms(1)]
  have fine: "frames_fine args fs" using ok(6) [OF assms(3)] assms(4) by simp
  from assms(5) show ?thesis
  proof cases
    case (moved c tasks fs' L)
    have i: "i < length (tq_locals (pr_queues s))" using assms(3) ok(2) by simp
    have "(\<Sum>task\<in>#mset tasks. task_work args task) = sum_list (map (task_work args) tasks)"
      by (metis mset_map sum_mset_sum_list)
    then have "(\<Sum>task\<in>#queued (pr_queues s'). task_work args task)
        \<le> (\<Sum>task\<in>#queued (pr_queues s). task_work args task) + sum_list (map (task_work args) tasks)"
      using queued_push_facts(4) [OF i moved(3)] by simp
    with move_work [OF moved(8) assms(2) fine ok(5)] show ?thesis
      by (intro state_work_change [OF assms(3) moved(4)]) (simp add: assms(4) del: phases_nth)
  next
    case (ended st fs0)
    then have "fs = [TaskEnd st]" using fine by (simp add: frames_fine_def)
    then show ?thesis
      using ended by (intro state_work_change [OF assms(3) ended(8)]) (simp add: assms(4) del: phases_nth)
  next
    case (failed c err)
    then show ?thesis by (intro state_work_change [OF assms(3) failed(7)]) (simp add: assms(4) del: phases_nth)
  qed
qed

lemma begin_work:
  assumes "i < length (pr_workers s)" "phases s ! i = Popped task" "start_outcome args i task s s'"
  shows "state_work args s' < state_work args s"
  using assms(3)
proof cases
  case (began fs' L)
  from start_work [OF began(8)] show ?thesis
    by (intro state_work_change [OF assms(1) began(4)]) (simp add: assms(2) began(3) del: phases_nth)
next
  case refused
  have "task_work args task \<ge> 4" by (cases task) simp_all
  then show ?thesis
    by (intro state_work_change [OF assms(1) refused(8)]) (simp add: assms(2) refused(3,4) del: phases_nth)
next
  case (start_failed c err)
  then show ?thesis by (intro state_work_change [OF assms(1) start_failed(7)]) (simp add: assms(2) del: phases_nth)
qed

lemma worker_work:
  assumes "worker_step args i mv s = Some s'" "run_ok args s" "par_backend_ok args"
  shows "state_work args s' < state_work args s"
proof -
  note ok = run_okD [OF assms(2)]
  from assms(1) show ?thesis
  proof (cases rule: worker_step_cases)
    case (pop choice task q)
    have "i < length (tq_locals (pr_queues s))" using pop(1) ok(2) by simp
    from pop_task_queued [OF this pop(3)] have q: "queued (pr_queues s) = add_mset task (queued q)" by blast
    have "phases s' = (phases s)[i := Popped task]" by (simp add: pop(4))
    then show ?thesis by (rule state_work_change [OF pop(1)]) (simp add: q pop(2,4) del: phases_nth)
  next
    case leave
    have "phases s' = (phases s)[i := Flushing]" by (simp add: leave(4))
    then show ?thesis by (rule state_work_change [OF leave(1)]) (simp add: leave(2,4) del: phases_nth)
  next
    case (start task)
    with begin_work [OF start(1,2)] start_task_outcome [OF ok(1), of args i task] show ?thesis by simp
  next
    case (run fs)
    have fine: "frames_fine args fs" "accepts_new_work (pr_control s) \<longrightarrow> calm fs"
      using ok(6) [OF run(1)] run(2) by simp_all
    then have "task_outcome args i fs s s'"
      unfolding run(3) by (intro worker_refines_moves) (auto simp: frames_fine_def frame_fine_chunks ok(1))
    then show ?thesis by (rule run_work [OF assms(2,3) run(1,2)])
  next
    case flush
    have "phases s' = (phases s)[i := Finished]" "pr_queues s' = pr_queues s" "pr_barriers s' = pr_barriers s"
      using finish_worker_outcome [of args i s] by (simp_all add: flush(3))
    note f = this
    show ?thesis by (rule state_work_change [OF flush(1) f(1)]) (simp add: f(2,3) flush(2) del: phases_nth)
  qed
qed

text \<open>The broker takes a message or returns; messages only come from workers.\<close>

definition broker_work :: "'w par_state \<Rightarrow> nat" where
  "broker_work s = length (bc_messages (bk_channel (pr_brokered s))) + (if pr_broker_result s = None then 1 else 0)"

lemma broker_work_less: "broker_step args s = Some s' \<Longrightarrow> broker_work s' < broker_work s"
  by (auto simp: broker_step_def broker_work_def split: if_splits list.splits prod.splits sum.splits)

lemma broker_state_work: "broker_step args s = Some s' \<Longrightarrow> state_work args s' = state_work args s"
  using broker_step_same [of args s s'] by (simp add: state_work_def total_def)

lemma par_step_descends:
  assumes "par_step args s s'" "run_ok args s" "par_backend_ok args"
  shows "(s', s) \<in> measures [state_work args, broker_work]"
  using assms(1)
proof cases
  case (worker i mv)
  from worker_work [OF worker assms(2,3)] show ?thesis by simp
next
  case broker
  from broker_work_less [OF broker] broker_state_work [OF broker] show ?thesis by simp
qed

lemma run_states_ok:
  assumes "par_backend_ok args" "f 0 = par_start args w" "\<And>n. par_step args (f n) (f (Suc n))"
  shows "par_reach args (par_start args w) (f n)"
proof (induction n)
  case 0
  show ?case unfolding assms(2) by (rule par_reach.start)
next
  case (Suc n)
  then show ?case using assms(3) by (rule par_reach.step)
qed

text \<open>
  C6.  A parallel run ends under every interleaving: there is no infinite sequence of steps of its
  workers and its broker from the start of a run, whatever the workers find on the way, however
  often they spill tasks, and whatever errors or requests to quit come up.
\<close>

theorem parallel_run_ends:
  assumes "par_backend_ok args"
  shows "\<nexists>f. f 0 = par_start args w \<and> (\<forall>n. par_step args (f n) (f (Suc n)))"
proof
  assume "\<exists>f. f 0 = par_start args w \<and> (\<forall>n. par_step args (f n) (f (Suc n)))"
  then obtain f where f: "f 0 = par_start args w" "\<And>n. par_step args (f n) (f (Suc n))" by blast
  have "(f (Suc n), f n) \<in> measures [state_work args, broker_work]" for n
    using par_step_descends [OF f(2) reach_ok(1) [OF run_states_ok [OF assms f] assms] assms] .
  then show False
    using wf_measures [of "[state_work args, broker_work]"] unfolding wf_iff_no_infinite_down_chain by blast
qed

section \<open>No thread waits for ever\<close>

lemma worker_can_step:
  assumes "run_ok args s" "i < length (pr_workers s)" "phases s ! i \<noteq> Finished"
    and "phases s ! i = Popping \<Longrightarrow> \<forall>ph\<in>set (phases s). \<not> busy ph"
  shows "\<exists>mv s'. worker_step args i mv s = Some s'"
proof (cases "phases s ! i")
  case Popping
  note ok = run_okD [OF assms(1)]
  have idle: "busy_count (phases s) = 0"
    unfolding busy_count_def by (rule sum_list_zero) (use assms(4) [OF Popping] in auto)
  have i: "i < length (tq_locals (pr_queues s))" using assms(2) ok(2) by simp
  show ?thesis
  proof (cases "queued (pr_queues s) = {#}")
    case True
    then have "outstanding_tasks (pr_control s) = 0" using ok(3) idle by simp
    moreover have "tq_locals (pr_queues s) ! i = []"
      using True queued_update [OF i, of "[]"] by simp
    ultimately have "worker_step args i MoveExit s = Some (set_phase i Flushing s)"
      using assms(2) Popping by (simp add: worker_step_def workers_should_exit_def)
    then show ?thesis by blast
  next
    case False
    from pop_task_available [OF i False] obtain choice task q where
      "pop_task i choice (pr_queues s) = Some (task, q)" by fast
    then have "worker_step args i (MovePop choice) s = Some (set_phase i (Popped task) (s\<lparr>pr_queues := q\<rparr>))"
      using assms(2) Popping by (simp add: worker_step_def)
    then show ?thesis by blast
  qed
qed (use assms(2,3) in \<open>auto simp: worker_step_def intro!: exI [of _ MoveRun]\<close>)

lemma stuck_is_over:
  assumes "run_ok args s" "\<nexists>s'. par_step args s s'"
  shows "(\<forall>ph\<in>set (phases s). ph = Finished) \<and> pr_broker_result s \<noteq> None"
proof -
  have no: "\<nexists>mv s'. worker_step args i mv s = Some s'" for i
    using assms(2) par_step.worker by blast
  have idle: "\<forall>ph\<in>set (phases s). \<not> busy ph"
  proof
    fix ph assume "ph \<in> set (phases s)"
    then obtain i where "i < length (pr_workers s)" "phases s ! i = ph" by (metis in_set_conv_nth phases_length)
    with no [of i] worker_can_step [OF assms(1), of i] show "\<not> busy ph" by (cases ph) (auto simp del: phases_nth)
  qed
  have over: "\<forall>ph\<in>set (phases s). ph = Finished"
  proof
    fix ph assume "ph \<in> set (phases s)"
    then obtain i where "i < length (pr_workers s)" "phases s ! i = ph" by (metis in_set_conv_nth phases_length)
    with no [of i] worker_can_step [OF assms(1), of i] idle show "ph = Finished" by (auto simp del: phases_nth)
  qed
  then have "\<forall>t\<in>set (pr_workers s). wt_phase t = Finished" by (simp add: phases_def)
  moreover have "broker_step args s = None" using assms(2) par_step.broker by (metis option.exhaust)
  ultimately have "pr_broker_result s \<noteq> None"
    by (auto simp: broker_step_def split: list.splits prod.splits sum.splits if_splits)
  with over show ?thesis by blast
qed

text \<open>
  C7.  No run gets stuck: a state of a run in which neither a worker nor the broker can take a
  step is one in which every worker has finished and the broker has returned, so the threads can
  be joined; no worker waits for a task that never comes.
\<close>

theorem parallel_run_never_stuck:
  assumes "par_backend_ok args" "par_reach args (par_start args w) s" "\<nexists>s'. par_step args s s'"
  shows "(\<forall>ph\<in>set (phases s). ph = Finished) \<and> pr_broker_result s \<noteq> None"
  by (rule stuck_is_over [OF reach_ok(1) [OF assms(2,1)] assms(3)])

lemma parallel_run_ends_witness:
  "\<nexists>f. f 0 = par_start pair_args [] \<and> (\<forall>n. par_step pair_args (f n) (f (Suc n)))"
  by (rule parallel_run_ends [OF pair_ok(1)])

lemma parallel_run_never_stuck_witness:
  "par_reach pair_args (par_start pair_args []) pair_end \<and> (\<nexists>s'. par_step pair_args pair_end s')
   \<and> list_all has_finished (phases pair_end) \<and> pr_broker_result pair_end \<noteq> None"
proof -
  have "\<forall>t\<in>set (pr_workers pair_end). wt_phase t = Finished"
    using pair_ends(1) by (simp add: phases_def list_all_iff has_finished_iff)
  then have "worker_step pair_args i mv pair_end = None" for i mv
    by (cases "i < length (pr_workers pair_end)") (simp_all add: worker_step_def)
  moreover have "broker_step pair_args pair_end = None" using pair_ends(4) by (simp add: broker_step_def)
  ultimately have "\<nexists>s'. par_step pair_args pair_end s'" by (auto elim!: par_step.cases)
  with parallel_run_never_stuck [OF pair_ok(1) pair_end_reached this] pair_end_reached show ?thesis
    by (simp add: list_all_iff has_finished_iff)
qed

end
