(* ===== verification/Parallel_Summary.thy ===== *)
theory Parallel_Summary
  imports Parallel_Progress
begin

text \<open>
  What the summary of a parallel run says: the reports of the workers, one each, are joined
  regardless of their order, and a run that returns a summary has left nothing out.
\<close>

section \<open>Joining the reports\<close>

lemma collect_reports_flags:
  "snd (collect_reports reports first errors failures) =
     (errors \<or> (\<exists>report. Inr report \<in> set reports \<and> report_errors report),
      failures \<or> (\<exists>report. Inr report \<in> set reports \<and> had_action_failures (report_status report)))"
  by (induction reports first errors failures rule: collect_reports.induct) auto

lemma collect_reports_first:
  "fst (collect_reports reports first errors failures) =
     (case first of Some f \<Rightarrow> Some f
      | None \<Rightarrow> (case filter (\<lambda>r. case r of Inl err \<Rightarrow> True | Inr report \<Rightarrow> False) reports of
                   Inl err # rs' \<Rightarrow> Some err | _ \<Rightarrow> None))"
  by (induction reports first errors failures rule: collect_reports.induct) (auto split: option.splits)

lemma collect_reports_none:
  "fst (collect_reports reports None errors failures) = None \<longleftrightarrow> (\<forall>err. Inl err \<notin> set reports)"
proof -
  have "(case filter (\<lambda>r. case r of Inl err \<Rightarrow> True | Inr report \<Rightarrow> False) rs of Inl err # rs' \<Rightarrow> Some err | _ \<Rightarrow> None) = None
      \<longleftrightarrow> (\<forall>err. Inl err \<notin> set rs)" for rs :: "worker_report result list"
  proof (induction rs)
    case (Cons r rs)
    then show ?case by (cases r) auto
  qed simp
  then show ?thesis by (simp add: collect_reports_first)
qed

lemma summary_success:
  "parallel_summary reports broker = Inr summary \<longleftrightarrow>
     broker = Inr () \<and> (\<forall>err. Inl err \<notin> set reports)
     \<and> summary = \<lparr>had_runtime_errors = (\<exists>report. Inr report \<in> set reports \<and> report_errors report),
         summary_action_failures = (\<exists>report. Inr report \<in> set reports \<and> had_action_failures (report_status report))\<rparr>"
proof -
  obtain first errors failures where c: "collect_reports reports None False False = (first, errors, failures)"
    by (metis prod_cases3)
  from collect_reports_flags [of reports None False False] collect_reports_none [of reports False False] c
  show ?thesis by (auto simp: parallel_summary_def split: sum.splits option.splits)
qed

text \<open>
  C17.  The result of a parallel run does not depend on the order in which the workers report: any
  rearrangement of the reports gives the same summary, and gives an error exactly when it did.
\<close>

theorem summary_order_irrelevant:
  assumes "mset reports = mset reports'"
  shows "(case parallel_summary reports broker of Inl err \<Rightarrow> None | Inr summary \<Rightarrow> Some summary) =
     (case parallel_summary reports' broker of Inl err \<Rightarrow> None | Inr summary \<Rightarrow> Some summary)"
proof -
  have "set reports = set reports'" using assms by (metis set_mset_mset)
  then have same: "parallel_summary reports broker = Inr summary \<longleftrightarrow> parallel_summary reports' broker = Inr summary" for summary
    by (simp add: summary_success)
  show ?thesis
  proof (cases "parallel_summary reports' broker")
    case (Inr summary)
    with same [of summary] show ?thesis by simp
  next
    case (Inl err)
    then have "parallel_summary reports broker \<noteq> Inr summary" for summary unfolding same by simp
    then obtain err' where "parallel_summary reports broker = Inl err'" by (metis sum.exhaust)
    with Inl show ?thesis by simp
  qed
qed

section \<open>One report per worker\<close>

text \<open>Finished workers and reports are as many, and a fatal stop leaves an error among the reports.\<close>

definition reports_ok :: "'w par_state \<Rightarrow> bool" where
  "reports_ok s \<longleftrightarrow>
     length (pr_results s) = length (filter (\<lambda>ph. ph = Finished) (phases s))
   \<and> (fatal_error_seen (pr_control s) \<longrightarrow> (\<exists>err. Inl err \<in> set (pr_results s)))"

lemma finished_update:
  assumes "i < length phs" "phs ! i \<noteq> Finished"
  shows "length (filter (\<lambda>ph. ph = Finished) (phs[i := ph])) =
    length (filter (\<lambda>ph. ph = Finished) phs) + (if ph = Finished then 1 else 0)"
  using assms
proof (induction phs arbitrary: i)
  case (Cons x phs)
  then show ?case by (cases i) auto
qed simp

lemma reports_same:
  assumes "reports_ok s" "i < length (pr_workers s)" "phases s ! i \<noteq> Finished" "phases s' = (phases s)[i := ph]" "ph \<noteq> Finished"
    and "pr_results s' = pr_results s" "fatal_error_seen (pr_control s') = fatal_error_seen (pr_control s)"
  shows "reports_ok s'"
proof -
  have "i < length (phases s)" using assms(2) by simp
  from finished_update [OF this assms(3), of ph] assms show ?thesis by (simp add: reports_ok_def del: phases_nth)
qed

lemma reports_more:
  assumes "reports_ok s" "i < length (pr_workers s)" "phases s ! i \<noteq> Finished" "phases s' = (phases s)[i := Finished]"
    and "pr_results s' = pr_results s @ [r]"
    and "fatal_error_seen (pr_control s') \<longrightarrow> fatal_error_seen (pr_control s) \<or> (\<exists>err. r = Inl err)"
  shows "reports_ok s'"
proof -
  have "i < length (phases s)" using assms(2) by simp
  from finished_update [OF this assms(3), of Finished] assms show ?thesis by (auto simp: reports_ok_def simp del: phases_nth)
qed

lemma push_all_fatal:
  assumes "push_all_local i tasks c q = (c', q')"
  shows "fatal_error_seen c' = fatal_error_seen c \<and> quit_seen c' = quit_seen c"
  using assms
  by (induction tasks arbitrary: c q) (auto simp: push_local_def task_spawned_def Let_def split: if_splits)

lemma quit_or_same_fatal: "quit_or_same c c' \<Longrightarrow> fatal_error_seen c' = fatal_error_seen c"
  by (auto simp: quit_or_same_def request_quit_def)

lemma task_finished_fatal [simp]: "fatal_error_seen (task_finished c) = fatal_error_seen c"
  by (simp add: task_finished_def)

lemma finish_worker_reports:
  "(\<exists>err. pr_results (finish_worker args i s) = pr_results s @ [Inl err])
   \<or> (\<exists>report. pr_results (finish_worker args i s) = pr_results s @ [Inr report])
     \<and> pr_control (finish_worker args i s) = pr_control s"
proof -
  obtain r s1 where r: "with_sink args i (worker_flush (pa_piped args)) s = (r, s1)" by fastforce
  note w = with_sink_same [OF r]
  have "ws_control (snd (worker_flush (pa_piped args) k)) = ws_control k" for k
    by (simp add: worker_flush_def split: prod.split)
  with w have "pr_control s1 = pr_control s" by (simp add: sink_of_def)
  with w(1,2) show ?thesis by (cases r) (simp_all add: finish_worker_def r same_work_def)
qed

lemma worker_reports_ok:
  assumes "worker_step args i mv s = Some s'" "run_ok args s" "reports_ok s"
  shows "reports_ok s'"
proof -
  note ok = run_okD [OF assms(2)]
  from assms(1) show ?thesis
  proof (cases rule: worker_step_cases)
    case (pop choice task q)
    then show ?thesis by (intro reports_same [OF assms(3) pop(1), of s' "Popped task"]) (simp_all del: phases_nth)
  next
    case leave
    then show ?thesis by (intro reports_same [OF assms(3) leave(1), of s' Flushing]) (simp_all del: phases_nth)
  next
    case (start task)
    from start_task_outcome [OF ok(1), of args i task] show ?thesis unfolding start(3) [symmetric]
    proof cases
      case (began fs' L)
      with start(2) show ?thesis
        by (intro reports_same [OF assms(3) start(1) _ began(4)]) (simp_all add: quit_or_same_fatal del: phases_nth)
    next
      case refused
      with start(2) show ?thesis
        by (intro reports_same [OF assms(3) start(1) _ refused(8)]) (simp_all del: phases_nth)
    next
      case (start_failed c err)
      with start(2) show ?thesis
        by (intro reports_more [OF assms(3) start(1) _ start_failed(7,5)]) (simp_all del: phases_nth)
    qed
  next
    case (run fs)
    have fine: "frames_fine args fs" "accepts_new_work (pr_control s) \<longrightarrow> calm fs"
      using ok(6) [OF run(1)] run(2) by simp_all
    then have "task_outcome args i fs s s'"
      unfolding run(3) by (intro worker_refines_moves) (auto simp: frames_fine_def frame_fine_chunks ok(1))
    then show ?thesis
    proof cases
      case (moved c tasks fs' L)
      with run(2) push_all_fatal [OF moved(3)] quit_or_same_fatal [OF moved(1)] show ?thesis
        by (intro reports_same [OF assms(3) run(1) _ moved(4)]) (simp_all del: phases_nth)
    next
      case (ended st fs0)
      with run(2) show ?thesis
        by (intro reports_same [OF assms(3) run(1) _ ended(8)]) (simp_all del: phases_nth)
    next
      case (failed c err)
      with run(2) show ?thesis
        by (intro reports_more [OF assms(3) run(1) _ failed(7,5)]) (simp_all del: phases_nth)
    qed
  next
    case flush
    have ph: "phases s' = (phases s)[i := Finished]" using finish_worker_outcome [of args i s] by (simp add: flush(3))
    have not: "phases s ! i \<noteq> Finished" using flush(2) by simp
    show ?thesis
      using finish_worker_reports [of args i s]
    proof
      assume "\<exists>err. pr_results (finish_worker args i s) = pr_results s @ [Inl err]"
      then show ?thesis using reports_more [OF assms(3) flush(1) not ph] by (auto simp: flush(3))
    next
      assume "(\<exists>report. pr_results (finish_worker args i s) = pr_results s @ [Inr report])
          \<and> pr_control (finish_worker args i s) = pr_control s"
      then show ?thesis using reports_more [OF assms(3) flush(1) not ph] by (auto simp: flush(3))
    qed
  qed
qed

lemma start_reports: "reports_ok (par_start args w)"
proof -
  obtain c q where q: "push_roots (plan_start_paths (pa_plan args)) control_new
      (queues_new (worker_count args)) = (c, q)" "accepts_new_work c" "control_ok c"
    by (rule start_queue)
  then have "\<not> fatal_error_seen c" by (simp add: control_ok_def accepts_new_work_def)
  moreover have "filter (\<lambda>ph. ph = Finished) (replicate n Popping) = []" for n by (induction n) simp_all
  ultimately show ?thesis using q(1) phases_start [of args w] by (simp add: reports_ok_def) (simp add: par_start_def)
qed

lemma reach_reports:
  assumes "par_reach args (par_start args w) s" "par_backend_ok args"
  shows "reports_ok s"
  using assms(1)
proof induction
  case start
  show ?case by (rule start_reports)
next
  case (step s s')
  from step(2) show ?case
  proof cases
    case (worker i mv)
    from worker_reports_ok [OF this reach_ok(1) [OF step(1) assms(2)] step(3)] show ?thesis .
  next
    case broker
    have "pr_results s' = pr_results s"
      using broker by (auto simp: broker_step_def split: if_splits list.splits prod.splits sum.splits)
    with step(3) broker_step_same [OF broker] show ?thesis by (simp add: reports_ok_def)
  qed
qed

text \<open>
  C3.  A parallel run whose workers have all finished has one report of each of them, so the loop
  that receives the reports never finds the queue closed.  When the result is a summary and nobody
  asked to quit, every entry of the walk that is deep enough has been evaluated, each as often as
  the ordered walk reports it: a run that returns without an error has left nothing out.  In
  pre-order this is stated for file systems whose directory identities can be read, since the
  ordered walk drops an entry whose identity it cannot read and the workers evaluate it.
\<close>

theorem summary_means_complete:
  assumes "par_backend_ok args" "par_reach args (par_start args w) s"
    and "\<forall>ph\<in>set (phases s). ph = Finished" "identities_found args"
  shows "length (pr_results s) = worker_count args \<and>
    (parallel_summary (pr_results s) broker = Inr summary \<and> \<not> quit_seen (pr_control s) \<longrightarrow>
     mset (pr_log s) = mset (deep_entries (pa_plan args) (start_marks (pa_walk args) (plan_start_paths (pa_plan args)))))"
proof (intro conjI impI)
  note r = reach_reports [OF assms(2,1)] and n = reach_workers [OF assms(2,1)]
  have "filter (\<lambda>ph. ph = Finished) (phases s) = phases s" using assms(3) by (simp add: filter_id_conv)
  with r n show "length (pr_results s) = worker_count args" by (simp add: reports_ok_def)
  assume ok: "parallel_summary (pr_results s) broker = Inr summary \<and> \<not> quit_seen (pr_control s)"
  then have "\<not> fatal_error_seen (pr_control s)" using r by (auto simp: reports_ok_def summary_success)
  with ok have "accepts_new_work (pr_control s)"
    using run_okD(1) [OF reach_ok(1) [OF assms(2,1)]] by (simp add: control_ok_def accepts_new_work_def)
  moreover have "pr_workers s \<noteq> []" using n by (auto simp: worker_count_def)
  ultimately show "mset (pr_log s)
      = mset (deep_entries (pa_plan args) (start_marks (pa_walk args) (plan_start_paths (pa_plan args))))"
    using finished_rest(1) [OF reach_ok(1) [OF assms(2,1)] reach_ok(2) [OF assms(2,1,4)] assms(3)] by (simp add: whole_walk_def)
qed

section \<open>The sample run's summary\<close>

lemma summary_order_irrelevant_witness:
  "(case parallel_summary [Inr \<lparr>report_status = action_failure_status, report_errors = False\<rparr>,
       Inr \<lparr>report_status = default_status, report_errors = True\<rparr>] (Inr ()) of Inl err \<Rightarrow> None | Inr summary \<Rightarrow> Some summary)
   = (case parallel_summary [Inr \<lparr>report_status = default_status, report_errors = True\<rparr>,
       Inr \<lparr>report_status = action_failure_status, report_errors = False\<rparr>] (Inr ()) of Inl err \<Rightarrow> None | Inr summary \<Rightarrow> Some summary)"
  by (rule summary_order_irrelevant) simp

lemma pair_summary:
  "map_sum id (\<lambda>s. (had_runtime_errors s, summary_action_failures s)) (parallel_summary (pr_results pair_end) (Inr ()))
     = Inr (False, False)"
  "\<not> quit_seen (pr_control pair_end)"
  by code_simp+

lemma summary_means_complete_witness:
  "length (pr_results pair_end) = 2
   \<and> mset (pr_log pair_end) = mset (deep_entries pair_plan (start_marks (pa_walk pair_args) [''d'']))"
proof -
  have fin: "\<forall>ph\<in>set (phases pair_end). ph = Finished" using pair_ends(1) by (simp add: list_all_iff has_finished_iff)
  obtain summary where s: "parallel_summary (pr_results pair_end) (Inr ()) = Inr summary"
    using pair_summary(1) by (cases "parallel_summary (pr_results pair_end) (Inr ())") auto
  have "worker_count pair_args = 2"
    by (simp add: worker_count_def pair_args_def pair_plan_def derive_with_parallelism_def)
  with summary_means_complete [OF pair_ok(1) pair_end_reached fin pair_ok(2), of "Inr ()" summary] s pair_summary(2)
  show ?thesis by (simp add: pair_args_def pair_plan_def print_plan_def)
qed

end
