(* ===== verification/Parallel_Postorder.thy ===== *)
theory Parallel_Postorder
  imports Parallel_Progress
begin

text \<open>
  In a parallel post-order run a directory is evaluated after everything below it, although its
  children are spread over workers and its own evaluation may fall to any of them: the barriers
  hold it back.
\<close>

section \<open>What is held below a barrier\<close>

text \<open>
  A frame, a task or a record that will notify a barrier holds the entries it still has to
  evaluate back below it; a record also passes on what is held below itself.
\<close>

definition frame_held :: "('rx, 'w) par_args \<Rightarrow> subtree_barrier_id \<Rightarrow> task_frame \<Rightarrow> entry set" where
  "frame_held args b f = (if frame_units b f > 0 then set_mset (frame_rest args f) else {})"

definition frames_held :: "('rx, 'w) par_args \<Rightarrow> subtree_barrier_id \<Rightarrow> task_frame list \<Rightarrow> entry set" where
  "frames_held args b fs = (\<Union>f\<in>set fs. frame_held args b f)"

definition task_held :: "('rx, 'w) par_args \<Rightarrow> subtree_barrier_id \<Rightarrow> parallel_task \<Rightarrow> entry set" where
  "task_held args b task = (if task_units b task > 0 then set_mset (task_rest args task) else {})"

definition tasks_held :: "('rx, 'w) par_args \<Rightarrow> subtree_barrier_id \<Rightarrow> parallel_task list \<Rightarrow> entry set" where
  "tasks_held args b tasks = (\<Union>task\<in>set tasks. task_held args b task)"

inductive held ::
  "('rx, 'w) par_args \<Rightarrow> (subtree_barrier_id \<Rightarrow> entry set) \<Rightarrow> barrier_table \<Rightarrow> subtree_barrier_id \<Rightarrow> entry \<Rightarrow> bool"
  for args D t where
  direct: "x \<in> D b \<Longrightarrow> held args D t b x"
| of_record: "bt_records t k = Some r \<Longrightarrow> record_claims b r > 0 \<Longrightarrow> x \<in># record_rest args r \<Longrightarrow> held args D t b x"
| below_record: "bt_records t k = Some r \<Longrightarrow> record_claims b r > 0 \<Longrightarrow> held args D t k x \<Longrightarrow> held args D t b x"

lemma held_mono: "held args D t b x \<Longrightarrow> (\<And>b. D b \<subseteq> D' b) \<Longrightarrow> held args D' t b x"
  by (induction rule: held.induct) (blast intro: held.intros)+

text \<open>A step that accounts for every claim of the frames and of the records loses nothing.\<close>

lemma held_step:
  assumes "held args D t b x"
    and "\<And>b x. x \<in> D b \<Longrightarrow> x \<in> L \<or> held args D' t' b x"
    and "\<And>k r b. bt_records t k = Some r \<Longrightarrow> record_claims b r > 0 \<Longrightarrow>
      (\<exists>r'. bt_records t' k = Some r' \<and> record_claims b r' = record_claims b r \<and> record_rest args r' = record_rest args r)
      \<or> (\<forall>x. x \<in># record_rest args r \<longrightarrow> x \<in> L \<or> held args D' t' b x) \<and> (\<forall>x. \<not> held args D t k x)"
  shows "x \<in> L \<or> held args D' t' b x"
  using assms(1)
proof (induction rule: held.induct)
  case (direct x b)
  then show ?case by (rule assms(2))
next
  case (of_record k r b x)
  from assms(3) [OF of_record(1,2)] show ?case
  proof
    assume "\<exists>r'. bt_records t' k = Some r' \<and> record_claims b r' = record_claims b r \<and> record_rest args r' = record_rest args r"
    with of_record(2,3) show ?thesis by (metis held.of_record)
  qed (use of_record(3) in blast)
next
  case (below_record k r b x)
  from assms(3) [OF below_record(1,2)] show ?case
  proof
    assume "\<exists>r'. bt_records t' k = Some r' \<and> record_claims b r' = record_claims b r \<and> record_rest args r' = record_rest args r"
    with below_record(2,4) show ?thesis by (metis held.below_record)
  qed (use below_record(3) in blast)
qed

text \<open>Where nobody will notify a barrier any more, nothing is held below it.\<close>

lemma not_held:
  assumes "\<And>r k. bt_records t k = Some r \<Longrightarrow> record_claims b r = 0" "D b = {}"
  shows "\<not> held args D t b x"
proof
  assume "held args D t b x"
  then show False using assms by cases auto
qed

lemma frames_held_simps [simp]:
  "frames_held args b [] = {}" "frames_held args b (f # fs) = frame_held args b f \<union> frames_held args b fs"
  "frames_held args b (fs @ gs) = frames_held args b fs \<union> frames_held args b gs"
  "frames_held args b (notify_frames n) = {}"
  by (auto simp: frames_held_def notify_frames_def frame_held_def split: option.split)

lemma tasks_held_simps [simp]:
  "tasks_held args b [] = {}" "tasks_held args b (task # tasks) = task_held args b task \<union> tasks_held args b tasks"
  by (simp_all add: tasks_held_def)

lemma frame_held_simps [simp]:
  "frame_held args b (NotifyBarrier b') = {}" "frame_held args b (TaskEnd st) = {}"
  "frame_held args b (PreLoop ps st) = {}" "frame_held args b (PreVisit p anc dev items r chunks em) = {}"
  "frame_held args b (PostBatch c ps st) = (if c = Some b then set_mset (pend_entries args ps) else {})"
  "frame_held args b (PostSpill b' spilled st) = (if b' = b then set_mset (pend_entries args (concat spilled)) else {})"
  "frame_held args b (PostVisit p e anc dev items r chunks em) =
     (if notify_parent p = Some b
      then set_mset (item_entries args p anc dev items + chunk_entries args chunks + mset (evaluated args e)) else {})"
  by (auto simp: frame_held_def one_if_def)

lemma return_held:
  "calm fs \<Longrightarrow> \<not> is_stop_requested st \<Longrightarrow> frames_held args b (return_status st fs) = frames_held args b fs"
  by (induction st fs rule: return_status.induct) auto

lemma frames_held_none: "frames_units b fs = 0 \<Longrightarrow> frames_held args b fs = {}"
  by (auto simp: frames_held_def frames_units_def frame_held_def)

lemma tasks_held_chunks [simp]:
  "tasks_held args b (chunk_tasks completion chunks) =
     (if completion = Some b then set_mset (pend_entries args (concat chunks)) else {})"
  by (induction chunks) (auto simp: chunk_tasks_def task_held_def one_if_def)

section \<open>Places of the walk\<close>

definition on_walk :: "('rx, 'w) par_args \<Rightarrow> pending_path \<Rightarrow> bool" where
  "on_walk args p \<longleftrightarrow> (\<exists>q. reachable (pa_walk args) (plan_start_paths (pa_plan args)) q \<and> plain q = plain p)"

lemma on_walk_plain: "on_walk args p \<Longrightarrow> plain p = plain q \<Longrightarrow> on_walk args q"
  by (metis on_walk_def)

lemma on_walk_simps [simp]:
  "on_walk args (with_completion b p) = on_walk args p" "on_walk args (under_barrier barrier p) = on_walk args p"
  by (auto intro: on_walk_plain)

lemma on_walk_root: "x \<in> set (plan_start_paths (pa_plan args)) \<Longrightarrow> on_walk args (root_pending x)"
  unfolding on_walk_def by (blast intro: reachable.start)

lemma child_is_kid:
  assumes "par_backend_ok args" "readable args p e verdict"
    and "descend_into args p e verdict = Inr (Some (anc, dev))" "children_of args p = (items, r)" "Inr child \<in> set items"
  shows "child_pending p anc dev child \<in> set (node_kids (pa_walk args) p)"
proof -
  from descend_needs_directory [OF assms(3)] obtain i where i: "identity_of args e = Inr (Some i)" by blast
  have r: "r = Inr ()" using backend_items [OF assms(1), of p items] assms(4,5) by (cases r) auto
  have split: "child \<in> set (fst (split_children items))" using assms(5)
    by (induction items) (auto split: prod.splits sum.splits)
  have c: "wk_control (pa_walk args) e = Inr verdict" "wb_load_entry (wk_backend (pa_walk args)) p = Inr e"
    "wb_active_directory_identity (wk_backend (pa_walk args)) e (wk_mode (pa_walk args)) = Inr (Some i)"
    "should_descend_directory p e (wk_mode (pa_walk args)) (wk_options (pa_walk args)) verdict
       (wk_backend (pa_walk args)) = Inr (Some (anc, dev))"
    "wb_visit_children (wk_backend (pa_walk args)) (pp_path p) = (items, Inr ())"
    using assms(2-4) i r by (simp_all add: plan_walk_args_def readable_def entry_control_def identity_of_def
        descend_into_def children_of_def)
  show ?thesis
    using split
    by (cases "split_children items") (simp add: node_kids_def visit_node_def c read_children_def Let_def)
qed

lemma kid_on_walk:
  assumes "par_backend_ok args" "reachable (pa_walk args) (plan_start_paths (pa_plan args)) q" "plain q = plain p"
    and "c \<in> set (node_kids (pa_walk args) p)"
  obtains c' where "c' \<in> set (node_kids (pa_walk args) q)" "plain c' = plain c"
    "reachable (pa_walk args) (plan_start_paths (pa_plan args)) c'"
proof -
  from assms(4) have "plain c \<in> set (map plain (node_kids (pa_walk args) q))"
    unfolding visit_node_plain(3) [OF assms(1,3)] by simp
  then obtain c' where c: "c' \<in> set (node_kids (pa_walk args) q)" "plain c' = plain c" by auto
  show ?thesis by (rule that [OF c reachable.child [OF assms(2) c(1)]])
qed

lemma on_walk_child:
  assumes "par_backend_ok args" "on_walk args p" "readable args p e verdict"
    and "descend_into args p e verdict = Inr (Some (anc, dev))" "children_of args p = (items, r)" "Inr child \<in> set items"
  shows "on_walk args (child_pending p anc dev child)"
proof -
  obtain q where q: "reachable (pa_walk args) (plan_start_paths (pa_plan args)) q" "plain q = plain p"
    using assms(2) by (auto simp: on_walk_def)
  from kid_on_walk [OF assms(1) q child_is_kid [OF assms(1,3-6)]] show ?thesis
    unfolding on_walk_def by blast
qed

text \<open>An entry that comes after everything below it.\<close>

definition comes_after_below :: "('rx, 'w) par_args \<Rightarrow> entry list \<Rightarrow> entry \<Rightarrow> bool" where
  "comes_after_below args before e \<longleftrightarrow>
     (\<exists>p verdict. on_walk args p \<and> readable args p e verdict \<and> set_mset (tree_entries args p) \<subseteq> insert e (set before))"

text \<open>What holds of every entry of a log and the entries before it.\<close>

definition along :: "('a list \<Rightarrow> 'a \<Rightarrow> bool) \<Rightarrow> 'a list \<Rightarrow> bool" where
  "along P log \<longleftrightarrow> (\<forall>xs e ys. log = xs @ e # ys \<longrightarrow> P xs e)"

lemma along_append:
  assumes "along P log" "\<And>e. L = [e] \<Longrightarrow> P log e" "length L \<le> 1"
  shows "along P (log @ L)"
proof (cases L)
  case (Cons e L')
  with assms(3) have "L = [e]" by simp
  with assms(1,2) show ?thesis
    by (auto simp: along_def append_eq_append_conv2 append_eq_Cons_conv Cons_eq_append_conv)
qed (use assms(1) in simp)

abbreviation log_ordered :: "('rx, 'w) par_args \<Rightarrow> entry list \<Rightarrow> bool" where
  "log_ordered args \<equiv> along (comes_after_below args)"

section \<open>What a run keeps\<close>

fun frame_good :: "('rx, 'w) par_args \<Rightarrow> task_frame \<Rightarrow> bool" where
  "frame_good args (PostBatch c ps st) \<longleftrightarrow> (\<forall>p\<in>set ps. on_walk args p)"
| "frame_good args (PostVisit p e anc dev items r chunks em) \<longleftrightarrow>
     on_walk args p \<and> (\<exists>verdict. readable args p e verdict)
   \<and> tree_entries args p = mset (evaluated args e) + item_entries args p anc dev items + chunk_entries args chunks
   \<and> (\<forall>child. Inr child \<in> set items \<longrightarrow> on_walk args (child_pending p anc dev child))
   \<and> (\<forall>c\<in>#chunk_children chunks. on_walk args c)"
| "frame_good args (PostSpill b spilled st) \<longleftrightarrow> (\<forall>chunk\<in>set spilled. \<forall>p\<in>set chunk. on_walk args p)"
| "frame_good args _ \<longleftrightarrow> True"

fun task_good :: "('rx, 'w) par_args \<Rightarrow> entry list \<Rightarrow> parallel_task \<Rightarrow> bool" where
  "task_good args log (PreOrderRoot root) \<longleftrightarrow> on_walk args (prt_pending root)"
| "task_good args log (SiblingChunk chunk) \<longleftrightarrow> (\<forall>p\<in>set (sct_pending chunk). on_walk args p)"
| "task_good args log (PostOrderResume resume) \<longleftrightarrow> comes_after_below args log (rt_entry resume)"

definition records_good ::
  "('rx, 'w) par_args \<Rightarrow> entry list \<Rightarrow> (subtree_barrier_id \<Rightarrow> entry set) \<Rightarrow> barrier_table \<Rightarrow> bool" where
  "records_good args log D t \<longleftrightarrow>
     (\<forall>k e n notify. bt_records t k = Some (BarrierDirectory e n notify) \<longrightarrow>
        (\<exists>p verdict. on_walk args p \<and> readable args p e verdict
           \<and> (\<forall>x. x \<in># tree_entries args p \<longrightarrow> x = e \<or> x \<in> set log \<or> held args D t k x)))"

abbreviation frames_good :: "('rx, 'w) par_args \<Rightarrow> task_frame list \<Rightarrow> bool" where
  "frames_good args fs \<equiv> \<forall>f\<in>set fs. frame_good args f"

lemma comes_after_mono: "comes_after_below args before e \<Longrightarrow> set before \<subseteq> set before' \<Longrightarrow> comes_after_below args before' e"
  unfolding comes_after_below_def by blast

lemma task_good_mono: "task_good args log task \<Longrightarrow> task_good args (log @ L) task"
  by (cases task) (auto elim: comes_after_mono)

lemma return_good: "frames_good args fs \<Longrightarrow> frames_good args (return_status st fs)"
  by (induction st fs rule: return_status.induct) auto

lemma notify_good [simp]: "f \<in> set (notify_frames n) \<Longrightarrow> frame_good args f"
  by (auto simp: notify_frames_def split: option.splits)

lemma plan_places:
  assumes "chunks_ok chunks" "\<forall>c\<in>#chunk_children chunks. on_walk args c" "plan = chunks_finish chunks"
  shows "\<forall>p\<in>set (cp_local_stack plan). on_walk args p"
    "\<forall>chunk\<in>set (cp_spilled_chunks plan). \<forall>p\<in>set chunk. on_walk args p"
proof -
  have "set_mset (plan_children plan) = set_mset (chunk_children chunks)"
    using chunks_finish_ok(1) [OF assms(1)] by (simp add: assms(3))
  then have "set (cp_local_stack plan) \<union> set (concat (cp_spilled_chunks plan)) = set_mset (chunk_children chunks)"
    by (simp add: plan_children_def)
  with assms(2) show "\<forall>p\<in>set (cp_local_stack plan). on_walk args p"
    "\<forall>chunk\<in>set (cp_spilled_chunks plan). \<forall>p\<in>set chunk. on_walk args p"
    by auto
qed

lemma move_good:
  assumes "task_move args True fs t fs' tasks t' L" "par_backend_ok args" "frames_fine args fs"
    and "par_order args = DepthFirstPostOrder" "frames_good args fs"
  shows "frames_good args fs'"
  using assms(1)
proof cases
  case (batch_open q b p e verdict x anc dev items r ps st fs0)
  have q: "on_walk args q" using assms(5) batch_open(1,6) by simp
  have "on_walk args (child_pending q anc dev child)" if "Inr child \<in> set items" for child
    using on_walk_child [OF assms(2) q batch_open(7,9,10) that] .
  with q open_entries [OF assms(2) batch_open(7,9,10)] batch_open assms(5) show ?thesis by auto
next
  case (visit_child child p anc dev may chunks c1 e items r em fs0)
  then have "chunks_ok chunks" using assms(3) by auto
  from chunks_push_ok(2) [OF this, of "child_pending p anc dev child" may]
    chunk_entries_push [OF this, of args "child_pending p anc dev child" may]
  show ?thesis using visit_child assms(5) by (simp add: add.commute add.left_commute)
next
  case (visit_split plan chunks e p b u anc dev fs0)
  then have "chunks_ok chunks" "\<forall>c\<in>#chunk_children chunks. on_walk args c" using assms(3,5) by simp_all
  from plan_places [OF this visit_split(5)] show ?thesis using visit_split assms(5) by simp
next
  case (visit_split_one plan chunks c e p b u anc dev fs0)
  then have "chunks_ok chunks" "\<forall>c\<in>#chunk_children chunks. on_walk args c" using assms(3,5) by simp_all
  from plan_places [OF this visit_split_one(5)] show ?thesis using visit_split_one assms(5) by simp
next
  case (visit_split_many plan chunks e p b t1 b' u anc dev fs0)
  then have "chunks_ok chunks" "\<forall>c\<in>#chunk_children chunks. on_walk args c" using assms(3,5) by simp_all
  from plan_places [OF this visit_split_many(5)] show ?thesis using visit_split_many assms(5) by simp
next
  case (batch_end b st fs0)
  with assms(5) return_good [of fs0 args st] show ?thesis by simp
next
  case (batch_leaf q b p e verdict st' ps st fs0)
  then have "frames_good args (PostBatch b ps st # fs0)" using assms(5) by simp
  from return_good [OF this, of st'] show ?thesis
    by (simp only: batch_leaf set_append ball_Un) simp
next
  case (visit_complete r chunks st p e anc dev em fs0)
  then have "frames_good args fs0" using assms(5) by simp
  from return_good [OF this, of st] show ?thesis
    by (simp only: visit_complete set_append ball_Un) simp
next
  case (spill st b chunks fs0)
  with assms(5) return_good [of fs0 args st] show ?thesis by simp
next
  case (batch_error q b p ps st fs0)
  then show ?thesis using assms(5) by (simp only: batch_error set_append ball_Un) simp
qed (use assms(3-5) in simp_all)

text \<open>A step that leaves the barriers alone and keeps or evaluates what the frames hold.\<close>

lemma held_same:
  assumes "\<And>b. frames_held args b fs \<subseteq> set L \<union> frames_held args b fs' \<union> tasks_held args b tasks"
    and "held args (\<lambda>b. D b \<union> frames_held args b fs) t b x"
  shows "x \<in> set L \<or> held args (\<lambda>b. D b \<union> frames_held args b fs' \<union> tasks_held args b tasks) t b x"
  using assms(2)
proof (rule held_step)
  fix b x assume "x \<in> D b \<union> frames_held args b fs"
  with assms(1) [of b] show "x \<in> set L \<or> held args (\<lambda>b. D b \<union> frames_held args b fs' \<union> tasks_held args b tasks) t b x"
    by (auto intro: held.direct)
qed auto

text \<open>A new record takes over what a frame held.\<close>

lemma held_new:
  assumes "held args D t b x" "bt_records t k = None" "bt_records t' = (bt_records t)(k \<mapsto> r)"
    and "\<And>b x. x \<in> D b \<Longrightarrow> x \<in> D' b \<or> record_claims b r > 0 \<and> (x \<in># record_rest args r \<or> held args D' t' k x)"
  shows "held args D' t' b x"
proof -
  have "x \<in> {} \<or> held args D' t' b x"
    using assms(1)
  proof (rule held_step)
    fix b x assume "x \<in> D b"
    from assms(4) [OF this] show "x \<in> {} \<or> held args D' t' b x"
      using assms(3) by (auto intro: held.direct held.of_record held.below_record)
  next
    fix j r0 b assume "bt_records t j = Some r0"
    with assms(2,3) have "bt_records t' j = Some r0" by auto
    then show "(\<exists>r'. bt_records t' j = Some r' \<and> record_claims b r' = record_claims b r0 \<and> record_rest args r' = record_rest args r0)
      \<or> (\<forall>x. x \<in># record_rest args r0 \<longrightarrow> x \<in> {} \<or> held args D' t' b x) \<and> (\<forall>x. \<not> held args D t j x)"
      by blast
  qed
  then show ?thesis by simp
qed

lemma record_less_same [simp]:
  "record_claims b (record_less r) = record_claims b r" "record_rest args (record_less r) = record_rest args r"
  by (cases r; simp)+

text \<open>Finishing a unit: what a released record held goes to what it releases.\<close>

lemma held_finish:
  assumes "held args D t b x" "finish_spilled_chunk k t = (release, t')"
    and "release \<noteq> None \<Longrightarrow> \<forall>x. \<not> held args D t k x"
    and "\<And>b x. x \<in> D b \<Longrightarrow> x \<in> D' b"
    and "\<And>r b x. release = Some (release_of r) \<Longrightarrow> record_claims b r > 0 \<Longrightarrow> x \<in># record_rest args r \<Longrightarrow> x \<in> D' b"
  shows "held args D' t' b x"
proof -
  have "x \<in> {} \<or> held args D' t' b x"
    using assms(1)
  proof (rule held_step)
    show "x \<in> {} \<or> held args D' t' b x" if "x \<in> D b" for b x
      using assms(4) [OF that] by (simp add: held.direct)
    fix j r0 b assume j: "bt_records t j = Some r0" "record_claims b r0 > 0"
    from assms(2) show "(\<exists>r'. bt_records t' j = Some r' \<and> record_claims b r' = record_claims b r0 \<and> record_rest args r' = record_rest args r0)
      \<or> (\<forall>x. x \<in># record_rest args r0 \<longrightarrow> x \<in> {} \<or> held args D' t' b x) \<and> (\<forall>x. \<not> held args D t j x)"
    proof (cases rule: finish_cases)
      case (less r)
      with j show ?thesis by (cases "j = k") auto
    next
      case (last r)
      show ?thesis
      proof (cases "j = k")
        case True
        with last j(1) have "r0 = r" by simp
        then have "x \<in># record_rest args r0 \<Longrightarrow> held args D' t' b x" for x
          using assms(5) [OF last(3), of b x] j(2) by (simp add: held.direct)
        moreover have "\<forall>x. \<not> held args D t j x" using assms(3) last(3) True by simp
        ultimately show ?thesis by blast
      qed (use last j in auto)
    qed (use j in auto)
  qed
  then show ?thesis by simp
qed

text \<open>The last unit of a barrier is the only claim on it, so nothing is held below it.\<close>

lemma last_unit_holds_nothing:
  assumes "units_ok (\<lambda>b. X b + frames_units b (NotifyBarrier k # fs)) t"
    and "finish_spilled_chunk k t = (Some release, t')" "\<And>b. X b = 0 \<Longrightarrow> D b = {}"
  shows "\<not> held args (\<lambda>b. D b \<union> frames_held args b (NotifyBarrier k # fs)) t k x"
proof -
  from assms(2) obtain r where r: "bt_records t k = Some r" "record_units r \<le> 1"
    by (cases rule: finish_cases) auto
  then have "waiting t k \<le> 1" by (simp add: waiting_def)
  with units_waiting [OF assms(1), of k] have z: "X k = 0" "frames_units k fs = 0" "table_sum (record_claims k) t = 0" by auto
  have ok: "barriers_ok t" using assms(1) by (simp add: units_ok_def)
  have "record_claims k r' = 0" if r': "bt_records t j = Some r'" for j r'
  proof -
    obtain i where i: "j = SubtreeBarrierId i" by (cases j)
    then have "i < bt_next_id t" using ok r' by (auto simp: barriers_ok_def)
    with z(3) have "(case bt_records t (SubtreeBarrierId i) of None \<Rightarrow> 0 | Some r \<Rightarrow> record_claims k r) = 0"
      by (simp add: table_sum_def)
    then show ?thesis using r' i by simp
  qed
  then show ?thesis using assms(3) [OF z(1)] frames_held_none [OF z(2), of args] by (intro not_held) auto
qed

lemma directory_table:
  assumes "begin_directory e n notify t = (b, t')" "barriers_ok t"
  shows "bt_records t b = None" "bt_records t' = (bt_records t)(b \<mapsto> BarrierDirectory e n notify)" "barriers_ok t'"
  using assms barriers_ok_fresh [OF assms(2)] barriers_ok_directory [OF assms(2), of e n notify]
  by (auto simp: begin_directory_def Let_def)

lemma batch_table:
  assumes "begin_batch n parent t = (b, t')" "barriers_ok t"
  shows "bt_records t b = None" "bt_records t' = (bt_records t)(b \<mapsto> BarrierBatch n parent)" "barriers_ok t'"
  using assms barriers_ok_fresh [OF assms(2)] barriers_ok_batch [OF assms(2), of n parent]
  by (auto simp: begin_batch_def Let_def)

lemma plan_held:
  assumes "par_backend_ok args" "chunks_ok chunks" "plan = chunks_finish chunks"
  shows "set_mset (chunk_entries args chunks) =
    set_mset (pend_entries args (cp_local_stack plan)) \<union> set_mset (pend_entries args (concat (cp_spilled_chunks plan)))"
  using plan_entries [OF assms(2), of plan args] assms(3) by (metis set_mset_union)

lemma move_held:
  assumes "task_move args True fs t fs' tasks t' L" "par_backend_ok args" "frames_fine args fs"
    and "par_order args = DepthFirstPostOrder" "calm fs"
    and "units_ok (\<lambda>b. X b + frames_units b fs) t" "\<And>b. X b = 0 \<Longrightarrow> D b = {}"
    and "held args (\<lambda>b. D b \<union> frames_held args b fs) t b x"
  shows "x \<in> set L \<or> held args (\<lambda>b. D b \<union> frames_held args b fs' \<union> tasks_held args b tasks) t' b x"
proof -
  have ok: "barriers_ok t" using assms(6) by (simp add: units_ok_def)
  have same: "x \<in> set L \<or> held args (\<lambda>b. D b \<union> frames_held args b fs' \<union> tasks_held args b tasks) t' b x"
    if "t' = t" "\<And>b. frames_held args b fs \<subseteq> set L \<union> frames_held args b fs' \<union> tasks_held args b tasks"
    using held_same [OF that(2) assms(8)] that(1) by simp
  from assms(1) show ?thesis
  proof cases
    case (batch_end c st fs0)
    then show ?thesis using assms(5) by (intro same) (simp_all add: return_held)
  next
    case (batch_error q c p ps st fs0)
    have "tree_entries args q = {#}"
      using batch_error(7) tree_entries_unreadable post_error_entries assms(4) by metis
    then have "tree_entries args p = {#}" using batch_error(6) assms(2) by simp
    with batch_error show ?thesis by (intro same) auto
  next
    case (batch_leaf q c p e verdict st' ps st fs0)
    have "tree_entries args q = mset (evaluated args e)" by (rule post_leaf_entries [OF assms(2) batch_leaf(7,8)])
    then have "tree_entries args p = mset (evaluated args e)" using batch_leaf(6) assms(2) by simp
    moreover have "frames_held args b (return_status st' (PostBatch c ps st # fs0)) = frames_held args b (PostBatch c ps st # fs0)" for b
      by (rule return_held) (use batch_leaf assms(5) in auto)
    ultimately show ?thesis using batch_leaf by (intro same) (auto simp del: return_status.simps)
  next
    case (batch_open q c p e verdict i anc dev items r ps st fs0)
    have "tree_entries args p = mset (evaluated args e) + item_entries args q anc dev items"
      using open_entries [OF assms(2) batch_open(7,9,10)] batch_open(6) assms(2) by simp
    then show ?thesis using batch_open by (intro same) auto
  next
    case (visit_child child p anc dev may chunks c1 e items r em fs0)
    then have "chunks_ok chunks" using assms(3) by simp
    from chunk_entries_push [OF this, of args] visit_child show ?thesis by (intro same) auto
  next
    case (visit_item_error p e anc dev error items r chunks em fs0 em')
    then show ?thesis by (intro same) auto
  next
    case (visit_complete r chunks st p e anc dev em fs0)
    then have "chunk_children chunks = {#}" using assms(3) by auto
    then have "chunk_entries args chunks = {#}" by (simp add: chunk_entries_def)
    then show ?thesis using visit_complete assms(5) by (intro same) (auto simp: return_held)
  next
    case (visit_split plan chunks e p k u anc dev fs0)
    have "chunks_ok chunks" using visit_split assms(3) by simp
    note c = plan_held [OF assms(2) this visit_split(5)] and d = directory_table [OF visit_split(8) ok]
    have "held args (\<lambda>b. D b \<union> frames_held args b fs' \<union> tasks_held args b tasks) t' b x"
      by (rule held_new [OF assms(8) d(1,2)])
        (use visit_split c in \<open>auto simp: one_if_def intro: held.direct split: if_splits\<close>)
    then show ?thesis ..
  next
    case (visit_split_one plan chunks c e p k u anc dev fs0)
    have "chunks_ok chunks" using visit_split_one assms(3) by simp
    note c = plan_held [OF assms(2) this visit_split_one(5)] and d = directory_table [OF visit_split_one(7) ok]
    have "held args (\<lambda>b. D b \<union> frames_held args b fs' \<union> tasks_held args b tasks) t' b x"
      by (rule held_new [OF assms(8) d(1,2)])
        (use visit_split_one c assms(2) in \<open>auto simp: one_if_def intro: held.direct split: if_splits\<close>)
    then show ?thesis ..
  next
    case (visit_split_many plan chunks e p k t1 k' u anc dev fs0)
    have "chunks_ok chunks" using visit_split_many assms(3) by simp
    note c = plan_held [OF assms(2) this visit_split_many(5)] and d = directory_table [OF visit_split_many(7) ok]
    note d' = batch_table [OF visit_split_many(8) d(3)]
    let ?D1 = "\<lambda>b. D b \<union> (frames_held args b fs0 \<union> (if b = k then set_mset (chunk_entries args chunks) else {}))"
    have "held args ?D1 t1 b x"
      by (rule held_new [OF assms(8) d(1,2)])
        (use visit_split_many in \<open>auto simp: one_if_def intro: held.direct split: if_splits\<close>)
    then have "held args (\<lambda>b. D b \<union> frames_held args b fs' \<union> tasks_held args b tasks) t' b x"
      by (rule held_new [OF _ d'(1,2)])
        (use visit_split_many c assms(2) in \<open>auto simp: one_if_def intro: held.direct split: if_splits\<close>)
    then show ?thesis ..
  next
    case (spill st c chunks fs0)
    then show ?thesis using assms(2,5) by (intro same) (auto simp: return_held)
  next
    case (notify_wait k)
    have "held args (\<lambda>b. D b \<union> frames_held args b fs' \<union> tasks_held args b tasks) t' b x"
      by (rule held_finish [OF assms(8) notify_wait(4)]) (use notify_wait in auto)
    then show ?thesis ..
  next
    case (notify_resume k task)
    have "held args (\<lambda>b. D b \<union> frames_held args b fs' \<union> tasks_held args b tasks) t' b x"
    proof (rule held_finish [OF assms(8) notify_resume(4)])
      show "\<forall>x. \<not> held args (\<lambda>b. D b \<union> frames_held args b fs) t k x"
        unfolding notify_resume(1)
        by (intro allI, rule last_unit_holds_nothing [OF assms(6) [unfolded notify_resume(1)] notify_resume(4)])
          (rule assms(7))
      fix r b x assume "Some (ReleaseResume task) = Some (release_of r)" "record_claims b r > 0" "x \<in># record_rest args r"
      then show "x \<in> D b \<union> frames_held args b fs' \<union> tasks_held args b tasks"
        using notify_resume(2) by (cases r) (auto simp: task_held_def)
    qed (use notify_resume in auto)
    then show ?thesis ..
  next
    case (notify_up k parent fs0)
    have "held args (\<lambda>b. D b \<union> frames_held args b fs' \<union> tasks_held args b tasks) t' b x"
    proof (rule held_finish [OF assms(8) notify_up(5)])
      show "\<forall>x. \<not> held args (\<lambda>b. D b \<union> frames_held args b fs) t k x"
        unfolding notify_up(1)
        by (intro allI, rule last_unit_holds_nothing [OF assms(6) [unfolded notify_up(1)] notify_up(5)])
          (rule assms(7))
      fix r b x assume "Some (ReleaseNotifyParent parent) = Some (release_of r)" "record_claims b r > 0" "x \<in># record_rest args r"
      then show "x \<in> D b \<union> frames_held args b fs' \<union> tasks_held args b tasks" by (cases r) auto
    qed (use notify_up in auto)
    then show ?thesis ..
  qed (use assms(3,4) in \<open>simp_all add: frames_fine_def\<close>)
qed

text \<open>The directories that wait after a move: they waited before, or the move is the one that opens them.\<close>

lemma move_records:
  assumes "task_move args True fs t fs' tasks t' L" "par_backend_ok args" "frames_fine args fs" "barriers_ok t"
    and "bt_records t' k = Some (BarrierDirectory e n notify)"
  shows "(\<exists>n0. bt_records t k = Some (BarrierDirectory e n0 notify))
    \<or> (\<exists>p anc dev u chunks fs0. fs = PostVisit p e anc dev [] (Inr u) chunks None # fs0
        \<and> (\<forall>x. x \<in># chunk_entries args chunks \<longrightarrow> held args (\<lambda>b. frames_held args b fs') t' k x))"
  using assms(1)
proof cases
  case (visit_split plan chunks e' p b u anc dev fs0)
  have "chunks_ok chunks" using visit_split assms(3) by simp
  note c = plan_held [OF assms(2) this visit_split(5)] and d = directory_table [OF visit_split(8) assms(4)]
  show ?thesis
  proof (cases "k = b")
    case True
    then have "e' = e" using d(2) assms(5) by simp
    moreover have "x \<in># chunk_entries args chunks \<Longrightarrow> held args (\<lambda>b. frames_held args b fs') t' k x" for x
      using visit_split c True by (intro held.direct) auto
    ultimately show ?thesis using visit_split(1) by blast
  qed (use d(2) assms(5) in auto)
next
  case (visit_split_one plan chunks c e' p b u anc dev fs0)
  have "chunks_ok chunks" using visit_split_one assms(3) by simp
  note c = plan_held [OF assms(2) this visit_split_one(5)] and d = directory_table [OF visit_split_one(7) assms(4)]
  show ?thesis
  proof (cases "k = b")
    case True
    then have "e' = e" using d(2) assms(5) by simp
    moreover have "x \<in># chunk_entries args chunks \<Longrightarrow> held args (\<lambda>b. frames_held args b fs') t' k x" for x
      using visit_split_one c True assms(2) by (intro held.direct) auto
    ultimately show ?thesis using visit_split_one(1) by blast
  qed (use d(2) assms(5) in auto)
next
  case (visit_split_many plan chunks e' p b t1 b' u anc dev fs0)
  have "chunks_ok chunks" using visit_split_many assms(3) by simp
  note c = plan_held [OF assms(2) this visit_split_many(5)] and d = directory_table [OF visit_split_many(7) assms(4)]
  note d' = batch_table [OF visit_split_many(8) d(3)]
  have k: "bt_records t1 k = Some (BarrierDirectory e n notify)" using d'(2) assms(5) by (auto split: if_splits)
  show ?thesis
  proof (cases "k = b")
    case True
    then have "e' = e" using d(2) k by simp
    moreover have "held args (\<lambda>b. frames_held args b fs') t' k x" if "x \<in># chunk_entries args chunks" for x
    proof -
      have r: "bt_records t' b' = Some (BarrierBatch (length (cp_local_stack plan)) b)" using d'(2) by simp
      from that c consider "x \<in># pend_entries args (cp_local_stack plan)"
        | "x \<in># pend_entries args (concat (cp_spilled_chunks plan))" by auto
      then show ?thesis
      proof cases
        case 1
        then have h: "held args (\<lambda>b. frames_held args b fs') t' b' x"
          using visit_split_many assms(2) by (intro held.direct) simp
        show ?thesis by (rule held.below_record [OF r _ h]) (simp add: True)
      next
        case 2
        with visit_split_many True show ?thesis by (intro held.direct) simp
      qed
    qed
    ultimately show ?thesis using visit_split_many(1) by blast
  qed (use d(2) k in auto)
next
  case (notify_wait b)
  from notify_wait(4) show ?thesis
  proof (cases rule: finish_cases)
    case (less r)
    show ?thesis
    proof (cases "k = b")
      case True
      with less assms(5) have "record_less r = BarrierDirectory e n notify" by simp
      with less(1) True show ?thesis by (cases r) simp_all
    qed (use less assms(5) in simp)
  qed (use assms(5) in simp_all)
next
  case (notify_resume b task)
  from notify_resume(4) show ?thesis by (cases rule: finish_cases) (use assms(5) in \<open>auto split: if_splits\<close>)
next
  case (notify_up b parent fs0)
  from notify_up(5) show ?thesis by (cases rule: finish_cases) (use assms(5) in \<open>auto split: if_splits\<close>)
qed (use assms(5) in simp_all)

lemma move_keeps_records:
  assumes "task_move args True fs t fs' tasks t' L" "par_backend_ok args" "frames_fine args fs"
    and "par_order args = DepthFirstPostOrder" "calm fs" "frames_good args fs"
    and "units_ok (\<lambda>b. X b + frames_units b fs) t" "\<And>b. X b = 0 \<Longrightarrow> D b = {}"
    and "records_good args log (\<lambda>b. D b \<union> frames_held args b fs) t"
  shows "records_good args (log @ L) (\<lambda>b. D b \<union> frames_held args b fs' \<union> tasks_held args b tasks) t'"
  unfolding records_good_def
proof (intro allI impI)
  fix k e n notify assume k: "bt_records t' k = Some (BarrierDirectory e n notify)"
  let ?D' = "\<lambda>b. D b \<union> frames_held args b fs' \<union> tasks_held args b tasks"
  have ok: "barriers_ok t" using assms(7) by (simp add: units_ok_def)
  from move_records [OF assms(1-3) ok k]
  show "\<exists>p verdict. on_walk args p \<and> readable args p e verdict
      \<and> (\<forall>x. x \<in># tree_entries args p \<longrightarrow> x = e \<or> x \<in> set (log @ L) \<or> held args ?D' t' k x)"
  proof
    assume "\<exists>n0. bt_records t k = Some (BarrierDirectory e n0 notify)"
    with assms(9) obtain p verdict where p: "on_walk args p" "readable args p e verdict"
      "\<And>x. x \<in># tree_entries args p \<Longrightarrow> x = e \<or> x \<in> set log \<or> held args (\<lambda>b. D b \<union> frames_held args b fs) t k x"
      unfolding records_good_def by blast
    have step: "x \<in> set L \<or> held args ?D' t' k x" if "held args (\<lambda>b. D b \<union> frames_held args b fs) t k x" for x
      using move_held [where X = X and D = D, OF assms(1-5,7) _ that] assms(8) by blast
    have "x = e \<or> x \<in> set (log @ L) \<or> held args ?D' t' k x" if "x \<in># tree_entries args p" for x
      using p(3) [OF that] step [of x] by auto
    with p(1,2) show ?thesis by blast
  next
    assume "\<exists>p anc dev u chunks fs0. fs = PostVisit p e anc dev [] (Inr u) chunks None # fs0
        \<and> (\<forall>x. x \<in># chunk_entries args chunks \<longrightarrow> held args (\<lambda>b. frames_held args b fs') t' k x)"
    then obtain p anc dev u chunks fs0 where fs: "fs = PostVisit p e anc dev [] (Inr u) chunks None # fs0"
      and h: "\<And>x. x \<in># chunk_entries args chunks \<Longrightarrow> held args (\<lambda>b. frames_held args b fs') t' k x" by blast
    from assms(6) fs obtain verdict where p: "on_walk args p" "readable args p e verdict"
      "tree_entries args p = mset (evaluated args e) + chunk_entries args chunks" by auto
    have "x = e \<or> held args ?D' t' k x" if "x \<in># tree_entries args p" for x
    proof (cases "x \<in> set (evaluated args e)")
      case True
      then show ?thesis by (simp add: evaluated_def split: if_splits)
    next
      case False
      with that p(3) have "held args (\<lambda>b. frames_held args b fs') t' k x" by (intro h) simp
      then have "held args ?D' t' k x" by (rule held_mono) blast
      then show ?thesis ..
    qed
    with p(1,2) show ?thesis by blast
  qed
qed

lemma move_keeps_tasks:
  assumes "task_move args True fs t fs' tasks t' L" "par_backend_ok args" "frames_fine args fs"
    and "par_order args = DepthFirstPostOrder" "frames_good args fs"
    and "units_ok (\<lambda>b. X b + frames_units b fs) t" "\<And>b. X b = 0 \<Longrightarrow> D b = {}"
    and "records_good args log (\<lambda>b. D b \<union> frames_held args b fs) t"
  shows "\<forall>task\<in>set tasks. task_good args log task"
  using assms(1)
proof cases
  case (spill st b chunks fs0)
  then show ?thesis using assms(5) by (auto simp: chunk_tasks_def)
next
  case (notify_resume k task)
  have none: "\<not> held args (\<lambda>b. D b \<union> frames_held args b fs) t k x" for x
    unfolding notify_resume(1)
    by (rule last_unit_holds_nothing [OF assms(6) [unfolded notify_resume(1)] notify_resume(4)]) (rule assms(7))
  from notify_resume(4) obtain n where "bt_records t k = Some (BarrierDirectory (rt_entry task) n (rt_notify_parent task))"
  proof (cases rule: finish_cases)
    case (last r)
    then show ?thesis using that by (cases r) auto
  qed simp_all
  with assms(8) none have "comes_after_below args log (rt_entry task)"
    unfolding records_good_def comes_after_below_def by blast
  with notify_resume(2) show ?thesis by simp
qed (use assms(3,4) in \<open>simp_all add: frames_fine_def\<close>)

lemma move_keeps_log:
  assumes "task_move args True fs t fs' tasks t' L" "par_backend_ok args" "frames_fine args fs"
    and "par_order args = DepthFirstPostOrder" "frames_good args fs" "log_ordered args log"
  shows "log_ordered args (log @ L)"
  using assms(1)
proof cases
  case (batch_leaf q c p e verdict st' ps st fs0)
  have "tree_entries args q = mset (evaluated args e)" by (rule post_leaf_entries [OF assms(2) batch_leaf(7,8)])
  moreover have "on_walk args q" using assms(5) batch_leaf(1,6) by simp
  ultimately have "comes_after_below args log e"
    using batch_leaf(7) unfolding comes_after_below_def by (auto simp: evaluated_def split: if_splits)
  then show ?thesis using batch_leaf assms(6) by (auto intro!: along_append simp: evaluated_def)
next
  case (visit_complete r chunks st p e anc dev em fs0)
  then have "chunk_children chunks = {#}" using assms(3) by auto
  then have none: "chunk_entries args chunks = {#}" by (simp add: chunk_entries_def)
  from assms(5) visit_complete(1) obtain verdict where "on_walk args p" "readable args p e verdict"
    "tree_entries args p = mset (evaluated args e)" by (auto simp: none)
  then have "comes_after_below args log e"
    unfolding comes_after_below_def by (auto simp: evaluated_def split: if_splits)
  then show ?thesis using visit_complete assms(6) by (auto intro!: along_append simp: evaluated_def)
qed (use assms(3,4,6) in \<open>simp_all add: frames_fine_def\<close>)

section \<open>What a state keeps\<close>

fun phase_held :: "('rx, 'w) par_args \<Rightarrow> subtree_barrier_id \<Rightarrow> worker_phase \<Rightarrow> entry set" where
  "phase_held args b (Popped task) = task_held args b task"
| "phase_held args b (InTask fs) = frames_held args b fs"
| "phase_held args b _ = {}"

fun phase_good :: "('rx, 'w) par_args \<Rightarrow> entry list \<Rightarrow> worker_phase \<Rightarrow> bool" where
  "phase_good args log (Popped task) \<longleftrightarrow> task_good args log task"
| "phase_good args log (InTask fs) \<longleftrightarrow> frames_good args fs"
| "phase_good args log _ \<longleftrightarrow> True"

definition jobs_held ::
  "('rx, 'w) par_args \<Rightarrow> parallel_task multiset \<Rightarrow> worker_phase list \<Rightarrow> subtree_barrier_id \<Rightarrow> entry set" where
  "jobs_held args q phs b = (\<Union>task\<in>set_mset q. task_held args b task) \<union> (\<Union>ph\<in>set phs. phase_held args b ph)"

definition post_ok :: "('rx, 'w) par_args \<Rightarrow> 'w par_state \<Rightarrow> bool" where
  "post_ok args s \<longleftrightarrow>
     (accepts_new_work (pr_control s) \<longrightarrow>
        log_ordered args (pr_log s)
      \<and> (\<forall>task\<in>#queued (pr_queues s). task_good args (pr_log s) task)
      \<and> (\<forall>ph\<in>set (phases s). phase_good args (pr_log s) ph)
      \<and> records_good args (pr_log s) (jobs_held args (queued (pr_queues s)) (phases s)) (pr_barriers s))"

lemma post_okD:
  assumes "post_ok args s" "accepts_new_work (pr_control s)"
  shows "log_ordered args (pr_log s)" "\<forall>task\<in>#queued (pr_queues s). task_good args (pr_log s) task"
    "\<forall>ph\<in>set (phases s). phase_good args (pr_log s) ph"
    "records_good args (pr_log s) (jobs_held args (queued (pr_queues s)) (phases s)) (pr_barriers s)"
  using assms by (simp_all add: post_ok_def)

lemma phase_good_mono: "phase_good args log ph \<Longrightarrow> phase_good args (log @ L) ph"
  by (cases ph) (simp_all add: task_good_mono)

text \<open>The workers other than one of them.\<close>

definition others :: "nat \<Rightarrow> 'b list \<Rightarrow> 'b list" where
  "others i xs = take i xs @ drop (Suc i) xs"

lemma others_split:
  assumes "i < length xs"
  shows "set xs = insert (xs ! i) (set (others i xs))" "set (xs[i := y]) = insert y (set (others i xs))"
    and "sum_list (map f xs) = sum_list (map f (others i xs)) + (f (xs ! i) :: nat)"
proof -
  show "set (xs[i := y]) = insert y (set (others i xs))"
    using assms by (simp add: others_def upd_conv_take_nth_drop)
  have xs: "xs = take i xs @ xs ! i # drop (Suc i) xs" using assms by (rule id_take_nth_drop)
  have "set (take i xs @ xs ! i # drop (Suc i) xs) = insert (xs ! i) (set (others i xs))" by (simp add: others_def)
  then show "set xs = insert (xs ! i) (set (others i xs))" using xs by simp
  have "sum_list (map f (take i xs @ xs ! i # drop (Suc i) xs)) = sum_list (map f (others i xs)) + f (xs ! i)"
    unfolding others_def by simp
  then show "sum_list (map f xs) = sum_list (map f (others i xs)) + f (xs ! i)" using xs by simp
qed

lemma jobs_held_split:
  assumes "i < length phs"
  shows "jobs_held args q phs b = jobs_held args q (others i phs) b \<union> phase_held args b (phs ! i)"
    "jobs_held args (q + mset tasks) (phs[i := ph]) b
       = jobs_held args q (others i phs) b \<union> phase_held args b ph \<union> tasks_held args b tasks"
  unfolding jobs_held_def
  by (auto simp: others_split(1,2) [OF assms] tasks_held_def)

lemma jobs_held_none:
  assumes "(\<Sum>task\<in>#q. task_units b task) + sum_list (map (phase_units b) phs) = 0"
  shows "jobs_held args q phs b = {}"
proof -
  have "task_held args b task = {}" if "task \<in># q" for task
    using assms that by (simp add: task_held_def)
  moreover have "phase_held args b ph = {}" if "ph \<in> set phs" for ph
    using assms that by (cases ph) (auto simp: task_held_def frames_held_none)
  ultimately show ?thesis by (simp add: jobs_held_def)
qed

lemma post_change:
  assumes "post_ok args s" "i < length (pr_workers s)" "phases s' = (phases s)[i := ph]"
    and "accepts_new_work (pr_control s') \<Longrightarrow> accepts_new_work (pr_control s)"
    and "accepts_new_work (pr_control s') \<Longrightarrow> queued (pr_queues s') = queued (pr_queues s) + mset tasks"
    and "pr_log s' = pr_log s @ L"
    and step: "\<And>D. accepts_new_work (pr_control s') \<Longrightarrow> log_ordered args (pr_log s) \<Longrightarrow>
      phase_good args (pr_log s) (phases s ! i) \<Longrightarrow> D = jobs_held args (queued (pr_queues s)) (others i (phases s)) \<Longrightarrow>
      records_good args (pr_log s) (\<lambda>b. D b \<union> phase_held args b (phases s ! i)) (pr_barriers s) \<Longrightarrow>
      log_ordered args (pr_log s @ L) \<and> (\<forall>task\<in>set tasks. task_good args (pr_log s @ L) task)
      \<and> phase_good args (pr_log s @ L) ph
      \<and> records_good args (pr_log s @ L) (\<lambda>b. D b \<union> phase_held args b ph \<union> tasks_held args b tasks) (pr_barriers s')"
  shows "post_ok args s'"
  unfolding post_ok_def
proof
  assume go: "accepts_new_work (pr_control s')"
  have i: "i < length (phases s)" using assms(2) by simp
  note ok = post_okD [OF assms(1) assms(4) [OF go]] and split = jobs_held_split [OF i]
  have mem: "phases s ! i \<in> set (phases s)" using i by (rule nth_mem)
  have eq: "jobs_held args (queued (pr_queues s)) (phases s)
      = (\<lambda>b. jobs_held args (queued (pr_queues s)) (others i (phases s)) b \<union> phase_held args b (phases s ! i))"
    by (rule ext, rule split(1))
  have eq': "jobs_held args (queued (pr_queues s')) (phases s')
      = (\<lambda>b. jobs_held args (queued (pr_queues s)) (others i (phases s)) b \<union> phase_held args b ph \<union> tasks_held args b tasks)"
    unfolding assms(3) assms(5) [OF go] by (rule ext, rule split(2))
  note new = step [OF go ok(1) bspec [OF ok(3) mem] refl ok(4) [unfolded eq]]
  have "\<forall>task\<in>#queued (pr_queues s'). task_good args (pr_log s') task"
    using ok(2) new task_good_mono [of args "pr_log s" _ L] unfolding assms(5) [OF go] assms(6) by auto
  moreover have "set (phases s') \<subseteq> insert ph (set (phases s))"
    unfolding assms(3) by (rule set_update_subset_insert)
  then have "\<forall>ph\<in>set (phases s'). phase_good args (pr_log s') ph"
    using ok(3) new phase_good_mono [of args "pr_log s" _ L] unfolding assms(6) by blast
  ultimately show "log_ordered args (pr_log s') \<and> (\<forall>task\<in>#queued (pr_queues s'). task_good args (pr_log s') task)
      \<and> (\<forall>ph\<in>set (phases s'). phase_good args (pr_log s') ph)
      \<and> records_good args (pr_log s') (jobs_held args (queued (pr_queues s')) (phases s')) (pr_barriers s')"
    using new unfolding eq' assms(6) by blast
qed

lemma records_step:
  assumes "records_good args log D t"
    and "\<And>k e n notify. bt_records t' k = Some (BarrierDirectory e n notify) \<Longrightarrow> bt_records t k = Some (BarrierDirectory e n notify)"
    and "\<And>k x. held args D t k x \<Longrightarrow> x \<in> set L \<or> held args D' t' k x"
  shows "records_good args (log @ L) D' t'"
  unfolding records_good_def
proof (intro allI impI)
  fix k e n notify assume "bt_records t' k = Some (BarrierDirectory e n notify)"
  from assms(2) [OF this] assms(1) obtain p verdict where p: "on_walk args p" "readable args p e verdict"
    "\<And>x. x \<in># tree_entries args p \<Longrightarrow> x = e \<or> x \<in> set log \<or> held args D t k x"
    unfolding records_good_def by blast
  have "x = e \<or> x \<in> set (log @ L) \<or> held args D' t' k x" if "x \<in># tree_entries args p" for x
    using p(3) [OF that] assms(3) [of k x] by auto
  with p(1,2) show "\<exists>p verdict. on_walk args p \<and> readable args p e verdict
      \<and> (\<forall>x. x \<in># tree_entries args p \<longrightarrow> x = e \<or> x \<in> set (log @ L) \<or> held args D' t' k x)" by blast
qed

lemma start_keeps:
  assumes "start_move args True task t fs' t' L" "par_order args = DepthFirstPostOrder" "task_fine args task"
    and "barriers_ok t" "task_good args log task" "log_ordered args log"
    and "records_good args log (\<lambda>b. D b \<union> task_held args b task) t"
  shows "log_ordered args (log @ L) \<and> frames_good args fs' \<and> records_good args (log @ L) (\<lambda>b. D b \<union> frames_held args b fs') t'"
proof -
  have same: "records_good args (log @ L) (\<lambda>b. D b \<union> frames_held args b fs') t"
    if "\<And>b. task_held args b task \<subseteq> set L \<union> frames_held args b fs'"
  proof (rule records_step [OF assms(7)])
    fix k x assume "held args (\<lambda>b. D b \<union> task_held args b task) t k x"
    then show "x \<in> set L \<or> held args (\<lambda>b. D b \<union> frames_held args b fs') t k x"
    proof (rule held_step)
      fix b x assume "x \<in> D b \<union> task_held args b task"
      with that [of b] show "x \<in> set L \<or> held args (\<lambda>b. D b \<union> frames_held args b fs') t b x"
        by (auto intro: held.direct)
    qed auto
  qed
  from assms(1) show ?thesis
  proof cases
    case (start_post_root root)
    moreover have "records_good args (log @ L) (\<lambda>b. D b \<union> frames_held args b fs') t"
      by (rule same) (simp add: start_post_root task_held_def)
    ultimately show ?thesis using assms(5,6) by simp
  next
    case (start_one chunk b)
    moreover have "records_good args (log @ L) (\<lambda>b. D b \<union> frames_held args b fs') t"
      by (rule same) (simp add: start_one task_held_def one_if_def)
    ultimately show ?thesis using assms(5,6) by simp
  next
    case (start_many chunk b b')
    note t = batch_table [OF start_many(6) assms(4)]
    have "records_good args (log @ L) (\<lambda>b. D b \<union> frames_held args b fs') t'"
    proof (rule records_step [OF assms(7)])
      fix k x assume h: "held args (\<lambda>b. D b \<union> task_held args b task) t k x"
      have "held args (\<lambda>b. D b \<union> frames_held args b fs') t' k x"
        by (rule held_new [OF h t(1,2)])
          (use start_many in \<open>auto simp: one_if_def task_held_def intro: held.direct split: if_splits\<close>)
      then show "x \<in> set L \<or> held args (\<lambda>b. D b \<union> frames_held args b fs') t' k x" ..
    qed (use t(2) in \<open>auto split: if_splits\<close>)
    with start_many assms(5,6) show ?thesis by simp
  next
    case (start_resume st resume)
    have "records_good args (log @ L) (\<lambda>b. D b \<union> frames_held args b fs') t"
      by (rule same) (simp add: start_resume task_held_def)
    moreover have "log_ordered args (log @ L)"
      by (rule along_append [OF assms(6)])
        (use start_resume assms(5) in \<open>auto simp: evaluated_def split: if_splits\<close>)
    ultimately show ?thesis using start_resume by auto
  qed (use assms(2,3) in simp_all)
qed

lemma post_keeps_run:
  assumes "post_ok args s" "run_ok args s" "run_balanced args T s" "par_backend_ok args"
    and "par_order args = DepthFirstPostOrder" "i < length (pr_workers s)" "phases s ! i = InTask fs"
    and "task_outcome args i fs s s'"
  shows "post_ok args s'"
  using assms(8)
proof cases
  case (moved c tasks fs' L)
  note ok = run_okD [OF assms(2)]
  have fine: "frames_fine args fs" "accepts_new_work (pr_control s) \<Longrightarrow> calm fs"
    using ok(6) [OF assms(6)] assms(7) by simp_all
  have i: "i < length (tq_locals (pr_queues s))" using assms(6) ok(2) by simp
  note q = queued_push_facts [OF i moved(3)] and c = quit_or_same_facts [OF moved(1)]
  show ?thesis
  proof (rule post_change [OF assms(1,6) moved(4)])
    assume acc: "accepts_new_work (pr_control s')"
    then have go: "accepts_new_work (pr_control s)" using q(1) c(2) by simp
    then show "accepts_new_work (pr_control s)" .
    show "queued (pr_queues s') = queued (pr_queues s) + mset tasks" using q(1,4) acc by simp
    fix D
    assume log: "log_ordered args (pr_log s)" and good: "phase_good args (pr_log s) (phases s ! i)"
      and D: "D = jobs_held args (queued (pr_queues s)) (others i (phases s))"
      and rec: "records_good args (pr_log s) (\<lambda>b. D b \<union> phase_held args b (phases s ! i)) (pr_barriers s)"
    from good have good: "frames_good args fs" using assms(7) by simp
    from rec have rec: "records_good args (pr_log s) (\<lambda>b. D b \<union> frames_held args b fs) (pr_barriers s)"
      unfolding assms(7) phase_held.simps .
    define X where "X b = (\<Sum>task\<in>#queued (pr_queues s). task_units b task) + sum_list (map (phase_units b) (others i (phases s)))" for b
    have none: "X b = 0 \<Longrightarrow> D b = {}" for b unfolding D X_def by (rule jobs_held_none)
    have "units_ok (task_claims s) (pr_barriers s)" using assms(3) go by (simp add: run_balanced_def)
    then have u: "units_ok (\<lambda>b. X b + frames_units b fs) (pr_barriers s)"
      by (rule units_same)
        (use others_split(3) [of i "phases s"] assms(6,7) in \<open>simp add: task_claims_def X_def del: phases_nth\<close>)
    note move = moved(8) [unfolded acc [THEN eqTrueI]]
    note r = move_keeps_records [where X = X, OF move assms(4) fine(1) assms(5) fine(2) [OF go] good u none rec]
    note t = move_keeps_tasks [where X = X, OF move assms(4) fine(1) assms(5) good u none rec]
    note l = move_keeps_log [OF move assms(4) fine(1) assms(5) good log]
    note g = move_good [OF move assms(4) fine(1) assms(5) good]
    from r t l g show "log_ordered args (pr_log s @ L) \<and> (\<forall>task\<in>set tasks. task_good args (pr_log s @ L) task)
      \<and> phase_good args (pr_log s @ L) (InTask fs')
      \<and> records_good args (pr_log s @ L) (\<lambda>b. D b \<union> phase_held args b (InTask fs') \<union> tasks_held args b tasks) (pr_barriers s')"
      using task_good_mono [of args "pr_log s" _ L] by simp
  qed (rule moved(5))
next
  case (ended st fs0)
  then have fs: "fs = [TaskEnd st]" using run_okD(6) [OF assms(2,6)] assms(7) by (simp add: frames_fine_def)
  show ?thesis
    by (rule post_change [OF assms(1,6) ended(8), where tasks = "[]" and L = "[]"])
      (use fs ended in \<open>simp_all add: assms(7) del: phases_nth\<close>)
next
  case (failed c err)
  then show ?thesis by (simp add: post_ok_def)
qed

lemma post_keeps_start:
  assumes "post_ok args s" "run_ok args s" "par_backend_ok args"
    and "par_order args = DepthFirstPostOrder" "i < length (pr_workers s)" "phases s ! i = Popped task"
    and "start_outcome args i task s s'"
  shows "post_ok args s'"
  using assms(7)
proof cases
  case (began fs' L)
  note ok = run_okD [OF assms(2)]
  have fine: "task_fine args task" using ok(6) [OF assms(5)] assms(6) by simp
  show ?thesis
  proof (rule post_change [OF assms(1,5) began(4), where tasks = "[]" and L = L])
    fix D
    assume acc: "accepts_new_work (pr_control s')"
      and log: "log_ordered args (pr_log s)" and good: "phase_good args (pr_log s) (phases s ! i)"
      and rec: "records_good args (pr_log s) (\<lambda>b. D b \<union> phase_held args b (phases s ! i)) (pr_barriers s)"
    have good: "task_good args (pr_log s) task"
      and rec: "records_good args (pr_log s) (\<lambda>b. D b \<union> task_held args b task) (pr_barriers s)"
      using good rec unfolding assms(6) by simp_all
    from start_keeps [OF began(8) [unfolded acc [THEN eqTrueI]] assms(4) fine ok(5) good log rec]
    show "log_ordered args (pr_log s @ L) \<and> (\<forall>task\<in>set []. task_good args (pr_log s @ L) task)
      \<and> phase_good args (pr_log s @ L) (InTask fs')
      \<and> records_good args (pr_log s @ L) (\<lambda>b. D b \<union> phase_held args b (InTask fs') \<union> tasks_held args b []) (pr_barriers s')"
      by simp
  qed (use began in simp_all)
qed (simp_all add: post_ok_def)

lemma post_keeps_idle:
  assumes "post_ok args s" "i < length (pr_workers s)" "\<not> busy (phases s ! i)" "\<not> busy ph"
    and "phases s' = (phases s)[i := ph]" "pr_queues s' = pr_queues s" "pr_barriers s' = pr_barriers s"
    and "pr_log s' = pr_log s" "accepts_new_work (pr_control s') \<Longrightarrow> accepts_new_work (pr_control s)"
  shows "post_ok args s'"
proof (rule post_change [OF assms(1,2,5), where tasks = "[]" and L = "[]"])
  fix D assume rec: "records_good args (pr_log s) (\<lambda>b. D b \<union> phase_held args b (phases s ! i)) (pr_barriers s)"
    and log: "log_ordered args (pr_log s)"
  have "phase_held args b ph = {}" "phase_held args b (phases s ! i) = {}" "phase_good args (pr_log s @ []) ph" for b
    using assms(3,4) by (cases "phases s ! i"; cases ph; simp)+
  then show "log_ordered args (pr_log s @ []) \<and> (\<forall>task\<in>set []. task_good args (pr_log s @ []) task)
    \<and> phase_good args (pr_log s @ []) ph
    \<and> records_good args (pr_log s @ []) (\<lambda>b. D b \<union> phase_held args b ph \<union> tasks_held args b []) (pr_barriers s')"
    using rec log unfolding assms(7) by simp
qed (use assms in simp_all)

lemma post_keeps_pop:
  assumes "post_ok args s" "run_ok args s" "i < length (pr_workers s)" "phases s ! i = Popping"
    and "pop_task i choice (pr_queues s) = Some (task, q)" "s' = set_phase i (Popped task) (s\<lparr>pr_queues := q\<rparr>)"
  shows "post_ok args s'"
proof -
  have i: "i < length (phases s)" "i < length (tq_locals (pr_queues s))" using assms(3) run_okD(2) [OF assms(2)] by simp_all
  from pop_task_queued [OF i(2) assms(5)] have q: "queued (pr_queues s) = add_mset task (queued q)" by auto
  have ph: "phases s' = (phases s)[i := Popped task]" by (simp add: assms(6))
  have "jobs_held args (queued q) ((phases s)[i := Popped task]) = jobs_held args (queued (pr_queues s)) (phases s)"
    unfolding jobs_held_def others_split(1,2) [OF i(1)] assms(4) by (auto simp: q)
  moreover have "set (phases s') \<subseteq> insert (Popped task) (set (phases s))"
    unfolding ph by (rule set_update_subset_insert)
  ultimately show ?thesis
    using assms(1) q ph unfolding post_ok_def by (auto simp: assms(6))
qed

lemma post_keeps:
  assumes "par_step args s s'" "post_ok args s" "run_ok args s" "run_balanced args T s" "par_backend_ok args"
    and "par_order args = DepthFirstPostOrder"
  shows "post_ok args s'"
  using assms(1)
proof cases
  case (worker i mv)
  note ok = run_okD [OF assms(3)]
  from worker show ?thesis
  proof (cases rule: worker_step_cases)
    case (pop choice task q)
    with post_keeps_pop [OF assms(2,3)] show ?thesis by blast
  next
    case leave
    show ?thesis
      by (rule post_keeps_idle [OF assms(2) leave(1), where ph = Flushing]) (use leave in \<open>simp_all del: phases_nth\<close>)
  next
    case (start task)
    with post_keeps_start [OF assms(2,3,5,6) start(1,2)] start_task_outcome [OF ok(1)] show ?thesis by blast
  next
    case (run fs)
    have fine: "frames_fine args fs" "accepts_new_work (pr_control s) \<longrightarrow> calm fs"
      using ok(6) [OF run(1)] run(2) by simp_all
    then have "task_outcome args i fs s s'"
      unfolding run(3) by (intro worker_refines_moves) (auto simp: frames_fine_def frame_fine_chunks ok(1))
    with post_keeps_run [OF assms(2-6) run(1,2)] show ?thesis by blast
  next
    case flush
    show ?thesis
      by (rule post_keeps_idle [OF assms(2) flush(1), where ph = Finished])
        (use flush finish_worker_outcome [of args i s] in \<open>auto simp del: phases_nth\<close>)
  qed
next
  case broker
  note b = broker_step_same [OF broker]
  from assms(2) show ?thesis unfolding post_ok_def b .
qed

lemma start_post_ok: "post_ok args (par_start args w)"
proof -
  obtain c q where q: "push_roots (plan_start_paths (pa_plan args)) control_new
      (queues_new (worker_count args)) = (c, q)"
    "queued q = mset (map (\<lambda>p. PreOrderRoot (pre_order_root_for_path p 0)) (plan_start_paths (pa_plan args)))"
    by (rule start_queue)
  have s: "pr_log (par_start args w) = []" "pr_queues (par_start args w) = q" "pr_barriers (par_start args w) = barriers_new"
    by (simp_all add: par_start_def q(1) Let_def)
  have "task_good args [] (PreOrderRoot (pre_order_root_for_path p 0))" if "p \<in> set (plan_start_paths (pa_plan args))" for p
    using on_walk_root [OF that] by simp
  moreover have "records_good args [] D barriers_new" for D by (simp add: records_good_def barriers_new_def)
  ultimately show ?thesis
    by (auto simp: post_ok_def s q(2) phases_start along_def)
qed

lemma reach_post_ok:
  assumes "par_reach args (par_start args w) s" "par_backend_ok args" "par_order args = DepthFirstPostOrder"
  shows "post_ok args s"
  using assms(1)
proof induction
  case start
  show ?case by (rule start_post_ok)
next
  case (step s s')
  have "identities_found args" using assms(3) by (simp add: identities_found_def)
  with post_keeps [OF step(2) step.IH reach_ok(1) [OF step(1) assms(2)] reach_ok(2) [OF step(1) assms(2)] assms(2,3)]
  show ?case by blast
qed

text \<open>
  C4.  In a parallel depth-first post-order run a directory is evaluated after everything below
  it.  In every state of every run that has not been stopped, whatever the number of workers and
  however their steps interleave, each entry of the log was found at a path of the walk all of
  whose other entries, the deep entries of the whole subtree at that path, stand earlier in the
  log: the entries below a directory may have been evaluated by any workers in any order, and the
  barriers still held the directory back until the last of them was.
\<close>

theorem postorder_after_below:
  assumes "par_backend_ok args" "to_order (plan_traversal (pa_plan args)) = DepthFirstPostOrder"
    and "par_reach args (par_start args w) s" "accepts_new_work (pr_control s)"
    and "pr_log s = before @ e # later"
  shows "\<exists>p verdict. reachable (pa_walk args) (plan_start_paths (pa_plan args)) p \<and> readable args p e verdict
    \<and> set (deep_entries (pa_plan args) (walk_tree (pa_walk args) p)) \<subseteq> insert e (set before)"
proof -
  have "comes_after_below args before e"
    using post_okD(1) [OF reach_post_ok [OF assms(3,1,2)] assms(4)] assms(5) by (simp add: along_def)
  then obtain p q verdict where p: "readable args p e verdict" "set_mset (tree_entries args p) \<subseteq> insert e (set before)"
    and q: "reachable (pa_walk args) (plan_start_paths (pa_plan args)) q" "plain q = plain p"
    unfolding comes_after_below_def on_walk_def by blast
  have "readable args q e verdict" using p(1) load_plain [OF assms(1) q(2)] by (simp add: readable_def)
  moreover have "set (deep_entries (pa_plan args) (walk_tree (pa_walk args) q)) \<subseteq> insert e (set before)"
    using p(2) tree_entries_plain [OF assms(1) q(2)] unfolding tree_entries_def by (metis set_mset_mset)
  ultimately show ?thesis using q(1) by blast
qed

text \<open>Post-order on the sample directory: its own evaluation is stolen by the other worker.\<close>

definition post_pair_args :: "(unit, string list) par_args" where
  "post_pair_args =
     pair_args\<lparr>pa_plan := pair_plan
       \<lparr>plan_traversal := (plan_traversal pair_plan)\<lparr>to_min_depth := 0, to_order := DepthFirstPostOrder\<rparr>,
        plan_runtime_policy := derive_with_parallelism 2 DepthFirstPostOrder False 4\<rparr>\<rparr>"

definition post_pair_moves :: "run_move list" where
  "post_pair_moves =
     ByWorker 1 (MovePop (TakeInjected 0)) # replicate 12 (ByWorker 1 MoveRun)
     @ [ByWorker 0 (MovePop (TakeFrom 1)), ByWorker 0 MoveRun]"

lemma postorder_after_below_witness:
  "case par_run post_pair_args post_pair_moves (par_start post_pair_args []) of
     None \<Rightarrow> False
   | Some s \<Rightarrow> map entry_path (pr_log s) = [''d/f'', ''d/l'', ''d'']
       \<and> (\<exists>p verdict. reachable (pa_walk post_pair_args) [''d''] p \<and> readable post_pair_args p (pr_log s ! 2) verdict
           \<and> set (deep_entries (pa_plan post_pair_args) (walk_tree (pa_walk post_pair_args) p)) \<subseteq> set (pr_log s))"
proof -
  let ?args = post_pair_args
  have "case par_run ?args post_pair_moves (par_start ?args []) of None \<Rightarrow> False
      | Some s \<Rightarrow> map entry_path (pr_log s) = [''d/f'', ''d/l'', ''d''] \<and> accepts_new_work (pr_control s)"
    by code_simp
  then obtain s where s: "par_run ?args post_pair_moves (par_start ?args []) = Some s"
    "map entry_path (pr_log s) = [''d/f'', ''d/l'', ''d'']" "accepts_new_work (pr_control s)"
    by (auto split: option.splits)
  from s(2) obtain f l d where log: "pr_log s = [f, l] @ d # []" by auto
  have b: "par_backend_ok ?args"
    by (rule fs_backend_ok) (simp add: post_pair_args_def pair_args_def print_env_def)
  have o: "to_order (plan_traversal (pa_plan ?args)) = DepthFirstPostOrder" "plan_start_paths (pa_plan ?args) = [''d'']"
    by (simp_all add: post_pair_args_def pair_plan_def print_plan_def)
  have "par_reach ?args (par_start ?args []) s" by (rule par_run_reach [OF s(1) par_reach.start])
  from postorder_after_below [OF b o(1) this s(3) log]
  have "\<exists>p verdict. reachable (pa_walk ?args) [''d''] p \<and> readable ?args p (pr_log s ! 2) verdict
      \<and> set (deep_entries (pa_plan ?args) (walk_tree (pa_walk ?args) p)) \<subseteq> set (pr_log s)"
    unfolding o(2) by (simp add: log insert_commute)
  with s(1,2) show ?thesis by simp
qed

end
