(* ===== verification/Parallel_Preorder.thy ===== *)
theory Parallel_Preorder
  imports Parallel_Postorder
begin

text \<open>
  In a parallel pre-order run an entry is evaluated after the directory it was found in, although
  another worker may have taken it over: a path becomes a task, or enters a loop, only after the
  directory above it has been evaluated.
\<close>

section \<open>Paths whose turn has come\<close>

definition follows_parent :: "('rx, 'w) par_args \<Rightarrow> entry list \<Rightarrow> pending_path \<Rightarrow> bool" where
  "follows_parent args before p \<longleftrightarrow>
     reachable (pa_walk args) (plan_start_paths (pa_plan args)) p
   \<and> (p \<in> root_pending ` set (plan_start_paths (pa_plan args))
      \<or> (\<exists>q d verdict. reachable (pa_walk args) (plan_start_paths (pa_plan args)) q
           \<and> p \<in> set (node_kids (pa_walk args) q) \<and> readable args q d verdict
           \<and> set (evaluated args d) \<subseteq> set before))"

definition in_turn :: "('rx, 'w) par_args \<Rightarrow> entry list \<Rightarrow> pending_path \<Rightarrow> bool" where
  "in_turn args log p \<longleftrightarrow> (\<exists>p'. plain p' = plain p \<and> follows_parent args log p')"

definition comes_in_turn :: "('rx, 'w) par_args \<Rightarrow> entry list \<Rightarrow> entry \<Rightarrow> bool" where
  "comes_in_turn args before e \<longleftrightarrow> (\<exists>p verdict. follows_parent args before p \<and> readable args p e verdict)"

lemma in_turn_mono: "in_turn args log p \<Longrightarrow> in_turn args (log @ L) p"
  unfolding in_turn_def follows_parent_def by (auto 0 4)

lemma in_turn_root: "x \<in> set (plan_start_paths (pa_plan args)) \<Longrightarrow> in_turn args log (root_pending x)"
  unfolding in_turn_def follows_parent_def by (blast intro: reachable.start)

lemma in_turn_comes:
  assumes "par_backend_ok args" "in_turn args log p" "readable args p e verdict"
  shows "comes_in_turn args log e"
proof -
  from assms(2) obtain p' where p': "plain p' = plain p" "follows_parent args log p'" by (auto simp: in_turn_def)
  have "readable args p' e verdict" using assms(3) load_plain [OF assms(1) p'(1)] by (simp add: readable_def)
  with p'(2) show ?thesis unfolding comes_in_turn_def by blast
qed

lemma in_turn_child:
  assumes "par_backend_ok args" "in_turn args log p" "readable args p e verdict"
    and "descend_into args p e verdict = Inr (Some (anc, dev))" "children_of args p = (items, r)" "Inr child \<in> set items"
    and "set (evaluated args e) \<subseteq> set log'"
  shows "in_turn args log' (child_pending p anc dev child)"
proof -
  from assms(2) obtain p' where p': "reachable (pa_walk args) (plan_start_paths (pa_plan args)) p'" "plain p' = plain p"
    by (auto simp: in_turn_def follows_parent_def)
  have "readable args p' e verdict" using assms(3) load_plain [OF assms(1) p'(2)] by (simp add: readable_def)
  with kid_on_walk [OF assms(1) p' child_is_kid [OF assms(1,3-6)]] p'(1) assms(7) show ?thesis
    unfolding in_turn_def follows_parent_def by metis
qed

section \<open>What a run keeps\<close>

fun frame_turn :: "('rx, 'w) par_args \<Rightarrow> entry list \<Rightarrow> task_frame \<Rightarrow> bool" where
  "frame_turn args log (PreLoop ps st) \<longleftrightarrow> (\<forall>p\<in>set ps. in_turn args log p)"
| "frame_turn args log (PreVisit p anc dev items r chunks em) \<longleftrightarrow>
     (\<forall>child. Inr child \<in> set items \<longrightarrow> in_turn args log (child_pending p anc dev child))
   \<and> (\<forall>c\<in>#chunk_children chunks. in_turn args log c)"
| "frame_turn args log _ \<longleftrightarrow> True"

fun task_turn :: "('rx, 'w) par_args \<Rightarrow> entry list \<Rightarrow> parallel_task \<Rightarrow> bool" where
  "task_turn args log (PreOrderRoot root) \<longleftrightarrow> in_turn args log (prt_pending root)"
| "task_turn args log (SiblingChunk chunk) \<longleftrightarrow> (\<forall>p\<in>set (sct_pending chunk). in_turn args log p)"
| "task_turn args log (PostOrderResume resume) \<longleftrightarrow> True"

abbreviation frames_turn :: "('rx, 'w) par_args \<Rightarrow> entry list \<Rightarrow> task_frame list \<Rightarrow> bool" where
  "frames_turn args log fs \<equiv> \<forall>f\<in>set fs. frame_turn args log f"

fun phase_turn :: "('rx, 'w) par_args \<Rightarrow> entry list \<Rightarrow> worker_phase \<Rightarrow> bool" where
  "phase_turn args log (Popped task) \<longleftrightarrow> task_turn args log task"
| "phase_turn args log (InTask fs) \<longleftrightarrow> frames_turn args log fs"
| "phase_turn args log _ \<longleftrightarrow> True"

lemma frame_turn_mono: "frame_turn args log f \<Longrightarrow> frame_turn args (log @ L) f"
  by (cases f) (auto intro: in_turn_mono)

lemma task_turn_mono: "task_turn args log task \<Longrightarrow> task_turn args (log @ L) task"
  by (cases task) (auto intro: in_turn_mono)

lemma phase_turn_mono: "phase_turn args log ph \<Longrightarrow> phase_turn args (log @ L) ph"
  by (cases ph) (auto intro: frame_turn_mono task_turn_mono)

lemma return_turn: "frames_turn args log fs \<Longrightarrow> frames_turn args log (return_status st fs)"
  by (induction st fs rule: return_status.induct) auto

lemma plan_turn:
  assumes "chunks_ok chunks" "\<forall>c\<in>#chunk_children chunks. P c"
    and "plan = chunks_finish chunks \<or> plan = chunks_finish (chunks_observe_quit chunks)"
  shows "\<forall>p\<in>set (cp_local_stack plan). P p" "\<forall>chunk\<in>set (cp_spilled_chunks plan). \<forall>p\<in>set chunk. P p"
proof -
  have "set_mset (plan_children plan) = set_mset (chunk_children chunks)"
    using assms(3) chunks_finish_ok(1) [OF assms(1)] chunks_finish_ok(1) [OF chunks_quit_ok(1) [OF assms(1)]]
      chunks_quit_ok(2) [OF assms(1)] by metis
  then have "set (cp_local_stack plan) \<union> set (concat (cp_spilled_chunks plan)) = set_mset (chunk_children chunks)"
    by (simp add: plan_children_def)
  with assms(2) show "\<forall>p\<in>set (cp_local_stack plan). P p" "\<forall>chunk\<in>set (cp_spilled_chunks plan). \<forall>p\<in>set chunk. P p"
    by auto
qed

lemma move_turn:
  assumes "task_move args True fs t fs' tasks t' L" "par_backend_ok args" "frames_fine args fs"
    and "par_order args = PreOrder" "frames_turn args log fs" "along (comes_in_turn args) log"
  shows "frames_turn args (log @ L) fs' \<and> (\<forall>task\<in>set tasks. task_turn args (log @ L) task)
    \<and> along (comes_in_turn args) (log @ L)"
  using assms(1)
proof cases
  case (loop_end st fs0)
  with assms(5,6) return_turn [of fs0 args log st] show ?thesis by simp
next
  case (loop_leaf p e verdict d st' ps st fs0)
  have "comes_in_turn args log e" using in_turn_comes [OF assms(2) _ loop_leaf(5)] assms(5) loop_leaf(1) by simp
  then have "along (comes_in_turn args) (log @ L)"
    using loop_leaf by (intro along_append [OF assms(6)]) (auto split: if_splits)
  moreover have "frames_turn args (log @ L) fs" using assms(5) frame_turn_mono by blast
  ultimately show ?thesis using loop_leaf(1-3) by simp
next
  case (loop_open p e verdict anc dev items r st' ps st fs0)
  have p: "in_turn args log p" using assms(5) loop_open(1) by simp
  have "comes_in_turn args log e" by (rule in_turn_comes [OF assms(2) p loop_open(5)])
  then have "along (comes_in_turn args) (log @ L)"
    using loop_open by (intro along_append [OF assms(6)]) (auto split: if_splits)
  moreover have "frames_turn args (log @ L) fs" using assms(5) frame_turn_mono by blast
  moreover have "set (evaluated args e) \<subseteq> set (log @ L)"
    using loop_open(8) backend_depth [OF assms(2) loop_open(5)] by (auto simp: evaluated_def deep_def split: if_splits)
  then have "in_turn args (log @ L) (child_pending p anc dev child)" if "Inr child \<in> set items" for child
    using in_turn_child [OF assms(2) p loop_open(5-7) that] by blast
  ultimately show ?thesis using loop_open(1-3) by simp
next
  case (loop_child child p anc dev may chunks c1 spilled c2 items r em fs0)
  then have ok: "chunks_ok chunks" using assms(3) by (auto simp: frames_fine_def)
  have c1: "chunk_children c1 = add_mset (child_pending p anc dev child) (chunk_children chunks)" "chunks_ok c1"
    using chunks_push_ok(1,2) [OF ok] loop_child(6) by auto
  have "set_mset (chunk_children c1) = set (concat spilled) \<union> set_mset (chunk_children c2)"
    using loop_child(7) chunks_take_ok(2) [OF c1(2), of spilled c2] by auto
  moreover have "\<forall>c\<in>#chunk_children c1. in_turn args log c" using assms(5) loop_child(1) by (simp add: c1(1))
  ultimately have "\<forall>c\<in>#chunk_children c2. in_turn args log c" "\<forall>chunk\<in>set spilled. \<forall>p\<in>set chunk. in_turn args log p"
    by auto
  with assms(5,6) loop_child(1-5) show ?thesis by (auto simp: chunk_tasks_def)
next
  case (loop_publish plan chunks p anc dev u ps st fs0)
  have "chunks_ok chunks" "\<forall>c\<in>#chunk_children chunks. in_turn args log c"
    using assms(3,5) loop_publish(1) by auto
  from plan_turn [OF this loop_publish(6)] assms(5,6) loop_publish(1-5) show ?thesis by (auto simp: chunk_tasks_def)
qed (use assms(3-6) in \<open>auto simp: frames_fine_def\<close>)

lemma start_turn:
  assumes "start_move args True task t fs' t' L" "par_order args = PreOrder" "task_fine args task" "task_turn args log task"
  shows "L = [] \<and> frames_turn args log fs'"
  using assms(1)
proof cases
  case (start_one chunk b)
  with assms(2,3) show ?thesis by simp
next
  case (start_many chunk b b')
  with assms(2,3) show ?thesis by simp
qed (use assms(2-4) in auto)

section \<open>Reachable states\<close>

definition pre_ok :: "('rx, 'w) par_args \<Rightarrow> 'w par_state \<Rightarrow> bool" where
  "pre_ok args s \<longleftrightarrow>
     (accepts_new_work (pr_control s) \<longrightarrow>
        along (comes_in_turn args) (pr_log s)
      \<and> (\<forall>task\<in>#queued (pr_queues s). task_turn args (pr_log s) task)
      \<and> (\<forall>ph\<in>set (phases s). phase_turn args (pr_log s) ph))"

lemma pre_change:
  assumes "pre_ok args s" "phases s' = (phases s)[i := ph]" "pr_log s' = pr_log s @ L"
    and "accepts_new_work (pr_control s') \<Longrightarrow> accepts_new_work (pr_control s)"
    and "accepts_new_work (pr_control s') \<Longrightarrow> queued (pr_queues s') \<subseteq># queued (pr_queues s) + mset tasks"
    and "accepts_new_work (pr_control s') \<Longrightarrow> along (comes_in_turn args) (pr_log s @ L)
      \<and> (\<forall>task\<in>set tasks. task_turn args (pr_log s @ L) task) \<and> phase_turn args (pr_log s @ L) ph"
  shows "pre_ok args s'"
  unfolding pre_ok_def
proof (intro impI conjI)
  assume go: "accepts_new_work (pr_control s')"
  note old = assms(1) [unfolded pre_ok_def, rule_format, OF assms(4) [OF go]] and new = assms(6) [OF go]
  show "along (comes_in_turn args) (pr_log s')" using new assms(3) by simp
  have "set_mset (queued (pr_queues s')) \<subseteq> set_mset (queued (pr_queues s)) \<union> set tasks"
    using set_mset_mono [OF assms(5) [OF go]] by simp
  then show "\<forall>task\<in>#queued (pr_queues s'). task_turn args (pr_log s') task"
    using old new task_turn_mono [of args "pr_log s" _ L] unfolding assms(3) by blast
  have "set (phases s') \<subseteq> insert ph (set (phases s))" unfolding assms(2) by (rule set_update_subset_insert)
  then show "\<forall>ph\<in>set (phases s'). phase_turn args (pr_log s') ph"
    using old new phase_turn_mono [of args "pr_log s" _ L] unfolding assms(3) by blast
qed

lemma pre_okD:
  assumes "pre_ok args s" "accepts_new_work (pr_control s)"
  shows "along (comes_in_turn args) (pr_log s)"
    and "task \<in># queued (pr_queues s) \<Longrightarrow> task_turn args (pr_log s) task"
    and "i < length (pr_workers s) \<Longrightarrow> phase_turn args (pr_log s) (phases s ! i)"
  using assms nth_mem [of i "phases s"] by (auto simp: pre_ok_def simp del: phases_nth)

lemma pre_keeps_idle:
  assumes "pre_ok args s" "phases s' = (phases s)[i := ph]" "\<not> busy ph" "pr_queues s' = pr_queues s" "pr_log s' = pr_log s"
    and "accepts_new_work (pr_control s') \<Longrightarrow> accepts_new_work (pr_control s)"
  shows "pre_ok args s'"
proof (rule pre_change [OF assms(1,2), where tasks = "[]" and L = "[]"])
  have "phase_turn args (pr_log s @ []) ph" using assms(3) by (cases ph) simp_all
  moreover assume "accepts_new_work (pr_control s')"
  ultimately show "along (comes_in_turn args) (pr_log s @ [])
      \<and> (\<forall>task\<in>set []. task_turn args (pr_log s @ []) task) \<and> phase_turn args (pr_log s @ []) ph"
    using pre_okD(1) [OF assms(1)] assms(6) by simp
qed (use assms in simp_all)

lemma pre_keeps_run:
  assumes "pre_ok args s" "run_ok args s" "par_backend_ok args" "par_order args = PreOrder"
    and "i < length (pr_workers s)" "phases s ! i = InTask fs" "task_outcome args i fs s s'"
  shows "pre_ok args s'"
  using assms(7)
proof cases
  case (moved c tasks fs' L)
  note ok = run_okD [OF assms(2)]
  have fine: "frames_fine args fs" using ok(6) [OF assms(5)] assms(6) by simp
  have i: "i < length (tq_locals (pr_queues s))" using assms(5) ok(2) by simp
  note q = queued_push_facts [OF i moved(3)] and c = quit_or_same_facts [OF moved(1)]
  show ?thesis
  proof (rule pre_change [OF assms(1) moved(4,5)])
    assume acc: "accepts_new_work (pr_control s')"
    then have go: "accepts_new_work (pr_control s)" using q(1) c(2) by simp
    then show "accepts_new_work (pr_control s)" .
    show "queued (pr_queues s') \<subseteq># queued (pr_queues s) + mset tasks" using q(1,4) acc by simp
    have "frames_turn args (pr_log s) fs" using pre_okD(3) [OF assms(1) go assms(5)] assms(6) by simp
    from move_turn [OF moved(8) [unfolded acc [THEN eqTrueI]] assms(3) fine assms(4) this pre_okD(1) [OF assms(1) go]]
    show "along (comes_in_turn args) (pr_log s @ L)
      \<and> (\<forall>task\<in>set tasks. task_turn args (pr_log s @ L) task) \<and> phase_turn args (pr_log s @ L) (InTask fs')" by simp
  qed
next
  case (ended st fs0)
  then show ?thesis by (intro pre_keeps_idle [OF assms(1) ended(8)]) simp_all
qed (simp add: pre_ok_def)

lemma pre_keeps_start:
  assumes "pre_ok args s" "run_ok args s" "par_order args = PreOrder"
    and "i < length (pr_workers s)" "phases s ! i = Popped task" "start_outcome args i task s s'"
  shows "pre_ok args s'"
  using assms(6)
proof cases
  case (began fs' L)
  have fine: "task_fine args task" using run_okD(6) [OF assms(2,4)] assms(5) by simp
  show ?thesis
  proof (rule pre_change [OF assms(1) began(4,5), where tasks = "[]"])
    assume acc: "accepts_new_work (pr_control s')"
    have "task_turn args (pr_log s) task" using pre_okD(3) [OF assms(1) began(1) assms(4)] assms(5) by simp
    from start_turn [OF began(8) [unfolded acc [THEN eqTrueI]] assms(3) fine this] pre_okD(1) [OF assms(1) began(1)]
    show "along (comes_in_turn args) (pr_log s @ L)
      \<and> (\<forall>task\<in>set []. task_turn args (pr_log s @ L) task) \<and> phase_turn args (pr_log s @ L) (InTask fs')" by simp
  qed (use began in simp_all)
qed (simp_all add: pre_ok_def)

lemma pre_keeps_pop:
  assumes "pre_ok args s" "run_ok args s" "i < length (pr_workers s)"
    and "pop_task i choice (pr_queues s) = Some (task, q)" "s' = set_phase i (Popped task) (s\<lparr>pr_queues := q\<rparr>)"
  shows "pre_ok args s'"
proof -
  have "i < length (tq_locals (pr_queues s))" using assms(3) run_okD(2) [OF assms(2)] by simp
  from pop_task_queued [OF this assms(4)] have q: "queued (pr_queues s) = add_mset task (queued q)" by auto
  show ?thesis
  proof (rule pre_change [OF assms(1), where tasks = "[]" and L = "[]"])
    show "phases s' = (phases s)[i := Popped task]" by (simp add: assms(5))
    assume "accepts_new_work (pr_control s')"
    then have "accepts_new_work (pr_control s)" by (simp add: assms(5))
    with pre_okD(1,2) [OF assms(1) this] q show "along (comes_in_turn args) (pr_log s @ [])
      \<and> (\<forall>task\<in>set []. task_turn args (pr_log s @ []) task) \<and> phase_turn args (pr_log s @ []) (Popped task)" by simp
  qed (simp_all add: assms(5) q)
qed

lemma pre_keeps:
  assumes "par_step args s s'" "pre_ok args s" "run_ok args s" "par_backend_ok args" "par_order args = PreOrder"
  shows "pre_ok args s'"
  using assms(1)
proof cases
  case (worker i mv)
  note ok = run_okD [OF assms(3)]
  from worker show ?thesis
  proof (cases rule: worker_step_cases)
    case (pop choice task q)
    with pre_keeps_pop [OF assms(2,3)] show ?thesis by blast
  next
    case leave
    then show ?thesis by (intro pre_keeps_idle [OF assms(2), where i = i and ph = Flushing]) simp_all
  next
    case (start task)
    with pre_keeps_start [OF assms(2,3,5) start(1,2)] start_task_outcome [OF ok(1)] show ?thesis by blast
  next
    case (run fs)
    have fine: "frames_fine args fs" "accepts_new_work (pr_control s) \<longrightarrow> calm fs"
      using ok(6) [OF run(1)] run(2) by simp_all
    then have "task_outcome args i fs s s'"
      unfolding run(3) by (intro worker_refines_moves) (auto simp: frames_fine_def frame_fine_chunks ok(1))
    with pre_keeps_run [OF assms(2-5) run(1,2)] show ?thesis by blast
  next
    case flush
    with finish_worker_outcome [of args i s] show ?thesis
      by (intro pre_keeps_idle [OF assms(2), where i = i and ph = Finished]) auto
  qed
next
  case broker
  note b = broker_step_same [OF broker]
  from assms(2) show ?thesis unfolding pre_ok_def b .
qed

lemma start_pre_ok: "pre_ok args (par_start args w)"
proof -
  obtain c q where q: "push_roots (plan_start_paths (pa_plan args)) control_new
      (queues_new (worker_count args)) = (c, q)"
    "queued q = mset (map (\<lambda>p. PreOrderRoot (pre_order_root_for_path p 0)) (plan_start_paths (pa_plan args)))"
    by (rule start_queue)
  have s: "pr_log (par_start args w) = []" "pr_queues (par_start args w) = q"
    by (simp_all add: par_start_def q(1) Let_def)
  have "task_turn args [] (PreOrderRoot (pre_order_root_for_path p 0))" if "p \<in> set (plan_start_paths (pa_plan args))" for p
    using in_turn_root [OF that] by simp
  then show ?thesis by (auto simp: pre_ok_def s q(2) phases_start along_def)
qed

lemma reach_pre_ok:
  assumes "par_reach args (par_start args w) s" "par_backend_ok args" "par_order args = PreOrder"
  shows "pre_ok args s"
  using assms(1)
proof induction
  case start
  show ?case by (rule start_pre_ok)
next
  case (step s s')
  with pre_keeps [OF step(2) step.IH reach_ok(1) [OF step(1) assms(2)] assms(2,3)] show ?case by blast
qed

text \<open>
  C5.  In a parallel pre-order run no entry is evaluated before the directory it was found in.  In
  every state of every run that has not been stopped, whatever the number of workers and however
  their steps interleave, each entry of the log was found at a path of the walk that is a start
  path, or that was read from a directory of the walk which, where it is deep enough to be evaluated,
  stands earlier in the log.
\<close>

theorem preorder_after_parent:
  assumes "par_backend_ok args" "to_order (plan_traversal (pa_plan args)) = PreOrder"
    and "par_reach args (par_start args w) s" "accepts_new_work (pr_control s)"
    and "pr_log s = before @ e # later"
  shows "\<exists>p verdict. reachable (pa_walk args) (plan_start_paths (pa_plan args)) p \<and> readable args p e verdict
    \<and> (p \<in> root_pending ` set (plan_start_paths (pa_plan args))
       \<or> (\<exists>q d v. reachable (pa_walk args) (plan_start_paths (pa_plan args)) q
            \<and> p \<in> set (node_kids (pa_walk args) q) \<and> readable args q d v
            \<and> (entry_depth d \<ge> to_min_depth (plan_traversal (pa_plan args)) \<longrightarrow> d \<in> set before)))"
proof -
  have "comes_in_turn args before e"
    using pre_okD(1) [OF reach_pre_ok [OF assms(3,1,2)] assms(4)] assms(5) by (simp add: along_def)
  then show ?thesis
    unfolding comes_in_turn_def follows_parent_def by (fastforce simp: evaluated_def deep_def min_depth_def)
qed

text \<open>The sample directory once more, with the directory itself among the entries evaluated.\<close>

definition pre_pair_args :: "(unit, string list) par_args" where
  "pre_pair_args =
     pair_args\<lparr>pa_plan := pair_plan\<lparr>plan_traversal := (plan_traversal pair_plan)\<lparr>to_min_depth := 0\<rparr>\<rparr>\<rparr>"

lemma preorder_after_parent_witness:
  "case par_run pre_pair_args (take 10 pair_moves) (par_start pre_pair_args []) of
     None \<Rightarrow> False
   | Some s \<Rightarrow> map entry_path (pr_log s) = [''d'', ''d/f'', ''d/l'']
       \<and> (\<exists>p verdict. reachable (pa_walk pre_pair_args) [''d''] p \<and> readable pre_pair_args p (pr_log s ! 2) verdict
           \<and> (p = root_pending ''d''
              \<or> (\<exists>q d v. reachable (pa_walk pre_pair_args) [''d''] q
                   \<and> p \<in> set (node_kids (pa_walk pre_pair_args) q) \<and> readable pre_pair_args q d v
                   \<and> d \<in> set (take 2 (pr_log s)))))"
proof -
  let ?args = pre_pair_args
  have "case par_run ?args (take 10 pair_moves) (par_start ?args []) of None \<Rightarrow> False
      | Some s \<Rightarrow> map entry_path (pr_log s) = [''d'', ''d/f'', ''d/l''] \<and> accepts_new_work (pr_control s)"
    by code_simp
  then obtain s where s: "par_run ?args (take 10 pair_moves) (par_start ?args []) = Some s"
    "map entry_path (pr_log s) = [''d'', ''d/f'', ''d/l'']" "accepts_new_work (pr_control s)"
    by (auto split: option.splits)
  from s(2) obtain d f l where log: "pr_log s = [d, f] @ l # []" by auto
  have b: "par_backend_ok ?args"
    by (rule fs_backend_ok) (simp add: pre_pair_args_def pair_args_def print_env_def)
  have o: "to_order (plan_traversal (pa_plan ?args)) = PreOrder" "plan_start_paths (pa_plan ?args) = [''d'']"
    "to_min_depth (plan_traversal (pa_plan ?args)) = 0"
    by (simp_all add: pre_pair_args_def pair_plan_def print_plan_def)
  have "par_reach ?args (par_start ?args []) s" by (rule par_run_reach [OF s(1) par_reach.start])
  from preorder_after_parent [OF b o(1) this s(3) log] s(1,2) show ?thesis
    by (simp add: log o(2,3))
qed

end
