(* ===== verification/Command_Line.thy ===== *)
theory Command_Line
  imports Cmd_Parser Parallel_Summary
begin

text \<open>
  The program from its arguments to its exit status, from \<^verbatim>\<open>src/src/cli.rs\<close>,
  \<^verbatim>\<open>src/src/version.rs\<close> and \<^verbatim>\<open>src/src/runner.rs\<close>: parse, plan, run in one of the two modes,
  and report.  The arguments of the model are what the process finds around it.
\<close>

section \<open>The version line (version.rs)\<close>

record build_version =
  bv_name :: string
  bv_version :: string
  bv_commit :: string
  bv_target :: string

definition format_version_line :: "build_version \<Rightarrow> string" where
  "format_version_line build =
     (let commit_text = (if bv_commit build = [] then ''unknown'' else bv_commit build)
      in bv_name build @ '' '' @ bv_version build @ '' (commit '' @ commit_text @ '', target ''
         @ bv_target build @ '')'')"

definition write_version_line :: "'w host \<Rightarrow> build_version \<Rightarrow> 'w \<Rightarrow> unit result \<times> 'w" where
  "write_version_line host build w =
     io_err (\<lambda>e. failed_to_write ''stdout'' (io_text e))
       (h_write_stdout host (format_version_line build @ [CHR 0x0A]) w)"

section \<open>Running a plan (runner.rs)\<close>

text \<open>The results \<^verbatim>\<open>run_plan\<close> can have, with the world it leaves.\<close>

inductive run_plan ::
  "('rx, 'w) run_env \<Rightarrow> 'w piped_host \<Rightarrow> 'rx execution_plan \<Rightarrow> 'w \<Rightarrow> run_summary result \<times> 'w \<Rightarrow> bool"
  for env piped plan w where
  bad_startup: "validate_startup_requirements env plan = Inl err \<Longrightarrow> run_plan env piped plan w (Inl err, w)"
| bad_messages: "validate_startup_requirements env plan = Inr () \<Longrightarrow> build_messages_locale env plan = Inl err \<Longrightarrow>
     run_plan env piped plan w (Inl err, w)"
| bad_warnings: "validate_startup_requirements env plan = Inr () \<Longrightarrow> build_messages_locale env plan = Inr loc \<Longrightarrow>
     write_startup_warnings (re_host env) (plan_startup_warnings plan) w = (Inl err, w') \<Longrightarrow>
     run_plan env piped plan w (Inl err, w')"
| ordered: "validate_startup_requirements env plan = Inr () \<Longrightarrow> build_messages_locale env plan = Inr loc \<Longrightarrow>
     write_startup_warnings (re_host env) (plan_startup_warnings plan) w = (Inr u, w1) \<Longrightarrow>
     plan_mode plan = OrderedSingle \<Longrightarrow> (\<And>xs. mset (arrive xs) = mset xs) \<Longrightarrow>
     run_ordered_plan n arrive env plan loc w1 = Some out \<Longrightarrow> run_plan env piped plan w out"
| in_parallel: "validate_startup_requirements env plan = Inr () \<Longrightarrow> build_messages_locale env plan = Inr loc \<Longrightarrow>
     write_startup_warnings (re_host env) (plan_startup_warnings plan) w = (Inr u, w1) \<Longrightarrow>
     plan_mode plan = ParallelRelaxed \<Longrightarrow> run_parallel_v2 env piped plan loc w1 out \<Longrightarrow> run_plan env piped plan w out"

section \<open>The program (cli.rs)\<close>

text \<open>
  The worker count: the variable if it is set, Unicode and a positive number, or the parallelism
  of the machine if that can be found out.
\<close>

definition resolve_worker_count :: "string option \<Rightarrow> nat io_result \<Rightarrow> nat" where
  "resolve_worker_count variable parallelism =
     (case Option.bind variable parse_usize of
        Some n \<Rightarrow> if n > 0 then n else (case parallelism of Inr m \<Rightarrow> m | Inl e \<Rightarrow> 1)
      | None \<Rightarrow> (case parallelism of Inr m \<Rightarrow> m | Inl e \<Rightarrow> 1))"

definition exit_status :: "run_summary \<Rightarrow> int" where
  "exit_status summary = (if had_runtime_errors summary \<or> summary_action_failures summary then 1 else 0)"

text \<open>\<^verbatim>\<open>eprintln!\<close> panics when the error output cannot be written, which exits with 101.\<close>

definition report_and_exit :: "'w host \<Rightarrow> diagnostic \<Rightarrow> 'w \<Rightarrow> int \<times> 'w" where
  "report_and_exit host err w =
     (case h_write_stderr host (''rfd: '' @ message err @ [CHR 0x0A]) w of
        (Inr _, w) \<Rightarrow> (exit_code err, w)
      | (Inl _, w) \<Rightarrow> (101, w))"

record ('r, 'p, 'w) process =
  pc_plan :: "('r, 'p) plan_env"
  pc_run :: "(('r, 'p) regex_matcher, 'w) run_env"
  pc_piped :: "'w piped_host"
  pc_build :: build_version
  pc_workers :: "string option"
  pc_parallelism :: "nat io_result"
  pc_now :: timestamp

inductive cli_run :: "('r, 'p, 'w) process \<Rightarrow> os_string list \<Rightarrow> 'w \<Rightarrow> int \<times> 'w \<Rightarrow> bool" for pc args w where
  syntax_error: "parse_command args = Some (Inl err) \<Longrightarrow> cli_run pc args w (report_and_exit (re_host (pc_run pc)) err w)"
| version: "parse_command args = Some (Inr ast) \<Longrightarrow> OptVersion \<in> set (global_options ast) \<Longrightarrow>
     write_version_line (re_host (pc_run pc)) (pc_build pc) w = (Inr u, w') \<Longrightarrow> cli_run pc args w (0, w')"
| version_error: "parse_command args = Some (Inr ast) \<Longrightarrow> OptVersion \<in> set (global_options ast) \<Longrightarrow>
     write_version_line (re_host (pc_run pc)) (pc_build pc) w = (Inl err, w') \<Longrightarrow>
     cli_run pc args w (report_and_exit (re_host (pc_run pc)) err w')"
| plan_error: "parse_command args = Some (Inr ast) \<Longrightarrow> OptVersion \<notin> set (global_options ast) \<Longrightarrow>
     plan_command (pc_plan pc) ast (resolve_worker_count (pc_workers pc) (pc_parallelism pc)) (pc_now pc) = Inl err \<Longrightarrow>
     cli_run pc args w (report_and_exit (re_host (pc_run pc)) err w)"
| ran: "parse_command args = Some (Inr ast) \<Longrightarrow> OptVersion \<notin> set (global_options ast) \<Longrightarrow>
     plan_command (pc_plan pc) ast (resolve_worker_count (pc_workers pc) (pc_parallelism pc)) (pc_now pc) = Inr plan \<Longrightarrow>
     run_plan (pc_run pc) (pc_piped pc) plan w (Inr summary, w') \<Longrightarrow>
     cli_run pc args w (exit_status summary, w')"
| run_error: "parse_command args = Some (Inr ast) \<Longrightarrow> OptVersion \<notin> set (global_options ast) \<Longrightarrow>
     plan_command (pc_plan pc) ast (resolve_worker_count (pc_workers pc) (pc_parallelism pc)) (pc_now pc) = Inr plan \<Longrightarrow>
     run_plan (pc_run pc) (pc_piped pc) plan w (Inl err, w') \<Longrightarrow>
     cli_run pc args w (report_and_exit (re_host (pc_run pc)) err w')"

section \<open>The program returns\<close>

lemma reach_joins:
  assumes "par_backend_ok args" "par_reach args (par_start args w) s"
  shows "\<exists>s' broker. par_reach args (par_start args w) s' \<and> (\<forall>t\<in>set (pr_workers s'). wt_phase t = Finished)
    \<and> pr_broker_result s' = Some broker"
  using assms(2)
proof (induction s rule: wf_induct [OF wf_measures [of "[state_work args, broker_work]"]])
  case (1 s)
  note ok = reach_ok(1) [OF 1(2) assms(1)]
  show ?case
  proof (cases "\<exists>s'. par_step args s s'")
    case True
    then obtain s' where s': "par_step args s s'" by blast
    with 1(1) par_step_descends [OF s' ok assms(1)] par_reach.step [OF 1(2) s'] show ?thesis by blast
  next
    case False
    with stuck_is_over [OF ok] 1(2) show ?thesis by (auto simp: phases_def)
  qed
qed

lemma run_parallel_returns:
  assumes "re_backend env = fs_walk_backend reader read_dir"
  shows "\<exists>out. run_parallel_v2 env piped plan loc w out"
proof (cases "build_eval_context env plan")
  case (Inl err)
  then show ?thesis by (meson run_parallel_v2.no_context)
next
  case (Inr ctx)
  obtain r w' where o: "open_all (re_host env) (plan_file_outputs plan) 0 w = (r, w')" by fastforce
  show ?thesis
  proof (cases r)
    case err: (Inl err)
    with Inr o show ?thesis by (meson run_parallel_v2.no_files)
  next
    case files: (Inr files)
    have "par_backend_ok (par_args_for env piped plan ctx files loc)"
      by (rule fs_backend_ok) (simp add: par_args_for_def assms)
    from reach_joins [OF this par_reach.start] obtain s' broker where
      "par_reach (par_args_for env piped plan ctx files loc) (par_start (par_args_for env piped plan ctx files loc) w') s'"
      "\<forall>t\<in>set (pr_workers s'). wt_phase t = Finished" "pr_broker_result s' = Some broker"
      by blast
    from run_parallel_v2.joined [OF Inr o [unfolded files] refl this(1,3,2)] show ?thesis by blast
  qed
qed

lemma walk_some: "\<exists>n out. walk_ordered n wk emit starts s = Some out"
proof -
  have "walk_ordered (walk_fuel wk starts + 0) wk emit starts s \<noteq> None"
    by (simp only: walk_ordered_marks and_then_feed_def) (simp split: prod.split sum.split walk_directive.split)
  then show ?thesis by blast
qed

lemma run_ordered_returns: "\<exists>n out. run_ordered_plan n arrive env plan loc w = Some out"
proof -
  show ?thesis
  proof (cases "start_sink env plan (case loc of Some l \<Rightarrow> l | None \<Rightarrow> default_messages_locale) w")
    case (Pair r w')
    show ?thesis
    proof (cases r)
      case (Inl err)
      with Pair show ?thesis
        by (auto simp: run_ordered_plan_def run_ordered_inline_def run_ordered_pipeline_def Let_def)
    next
      case (Inr x)
      obtain ctx sink where x: "x = (ctx, sink)" by fastforce
      obtain n out where n: "walk_ordered n (plan_walk_args env ctx plan) (inline_event env ctx plan)
          (plan_start_paths plan) (sink, False) = Some out"
        using walk_some [of "plan_walk_args env ctx plan" "inline_event env ctx plan" _ "(sink, False)"] by blast
      obtain m out' where m: "walk_ordered m (plan_walk_args env ctx plan) (pipeline_event env plan) (plan_start_paths plan)
          \<lparr>pw_sink = sink, pw_errors = False, pw_next_sequence = 0, pw_sent = []\<rparr> = Some out'"
        using walk_some [of "plan_walk_args env ctx plan" "pipeline_event env plan"] by blast
      show ?thesis
      proof (cases "contains_commit_sensitive_action (plan_expr plan)")
        case True
        then have "\<exists>out. run_ordered_plan n arrive env plan loc w = Some out"
          using Pair Inr x n
          by (auto simp: run_ordered_plan_def run_ordered_inline_def Let_def split: prod.split sum.split)
        then show ?thesis by blast
      next
        case False
        then have "\<exists>out. run_ordered_plan m arrive env plan loc w = Some out"
          using Pair Inr x m
          by (auto simp: run_ordered_plan_def run_ordered_pipeline_def Let_def split: prod.split sum.split)
        then show ?thesis by blast
      qed
    qed
  qed
qed

lemma run_plan_returns:
  assumes "re_backend env = fs_walk_backend reader read_dir"
  shows "\<exists>out. run_plan env piped plan w out"
proof (cases "validate_startup_requirements env plan")
  case (Inl err)
  then show ?thesis by (meson run_plan.bad_startup)
next
  case start: (Inr u)
  then have start: "validate_startup_requirements env plan = Inr ()" by simp
  show ?thesis
  proof (cases "build_messages_locale env plan")
    case (Inl err)
    with start show ?thesis by (meson run_plan.bad_messages)
  next
    case loc: (Inr loc)
    obtain r w1 where w: "write_startup_warnings (re_host env) (plan_startup_warnings plan) w = (r, w1)" by fastforce
    show ?thesis
    proof (cases r)
      case (Inl err)
      with start loc w show ?thesis by (meson run_plan.bad_warnings)
    next
      case warned: (Inr u)
      show ?thesis
      proof (cases "plan_mode plan")
        case OrderedSingle
        obtain n out where "run_ordered_plan n rev env plan loc w1 = Some out"
          using run_ordered_returns [of rev env plan loc w1] by blast
        from run_plan.ordered [OF start loc w [unfolded warned] OrderedSingle mset_rev this] show ?thesis by blast
      next
        case ParallelRelaxed
        from run_parallel_returns [OF assms] obtain out where "run_parallel_v2 env piped plan loc w1 out" by blast
        from run_plan.in_parallel [OF start loc w [unfolded warned] ParallelRelaxed this] show ?thesis by blast
      qed
    qed
  qed
qed

lemma cli_returns:
  assumes "re_backend (pc_run pc) = fs_walk_backend reader read_dir"
  shows "\<exists>out. cli_run pc args w out"
  using parse_command_outcome [of args]
proof
  assume "\<exists>err. parse_command args = Some (Inl err)"
  then show ?thesis by (meson cli_run.syntax_error)
next
  assume "\<exists>ast. parse_command args = Some (Inr ast) \<and> start_paths ast \<noteq> []"
  then obtain ast where ast: "parse_command args = Some (Inr ast)" by blast
  show ?thesis
  proof (cases "OptVersion \<in> set (global_options ast)")
    case True
    obtain r w' where v: "write_version_line (re_host (pc_run pc)) (pc_build pc) w = (r, w')" by fastforce
    show ?thesis
    proof (cases r)
      case (Inl err)
      from cli_run.version_error [OF ast True v [unfolded Inl]] show ?thesis by blast
    next
      case (Inr u)
      from cli_run.version [OF ast True v [unfolded Inr]] show ?thesis by blast
    qed
  next
    case False
    show ?thesis
    proof (cases "plan_command (pc_plan pc) ast (resolve_worker_count (pc_workers pc) (pc_parallelism pc)) (pc_now pc)")
      case (Inl err)
      from cli_run.plan_error [OF ast False this] show ?thesis by blast
    next
      case (Inr plan)
      obtain r w' where r: "run_plan (pc_run pc) (pc_piped pc) plan w (r, w')"
        using run_plan_returns [OF assms, of "pc_piped pc" plan w] by fast
      show ?thesis
      proof (cases r)
        case err: (Inl err)
        from cli_run.run_error [OF ast False Inr r [unfolded err]] show ?thesis by blast
      next
        case summary: (Inr summary)
        from cli_run.ran [OF ast False Inr r [unfolded summary]] show ?thesis by blast
      qed
    qed
  qed
qed

text \<open>
  C18.  The program always has a result: on every argument vector, every file system, in every
  world and in both modes it comes to an exit status, by an error, by the version line or by the
  end of the walk.  With the absence of infinite runs this is its termination.
\<close>

theorem program_returns:
  assumes "re_backend (pc_run pc) = fs_walk_backend reader read_dir"
  shows "\<exists>status w'. cli_run pc args w (status, w')"
  using cli_returns [OF assms, of args w] by (metis prod.exhaust)

definition sample_process :: "(unit, unit, string list) process" where
  "sample_process =
     \<lparr>pc_plan = sample_env,
      pc_run =
        \<lparr>re_services = sample_services, re_host = quiet_host, re_backend = fs_walk_backend loop_reader loop_dir,
         re_path_variable = None, re_mounts = Inr default_snapshot, re_messages = Inr default_messages_locale,
         re_batch_limit = 100\<rparr>,
      pc_piped = quiet_commands,
      pc_build = \<lparr>bv_name = ''rushfind'', bv_version = ''0.1.0'', bv_commit = [], bv_target = ''x''\<rparr>,
      pc_workers = Some ''2'', pc_parallelism = Inr 4, pc_now = sample_now\<rparr>"

lemma program_returns_witness:
  "\<exists>status w'. cli_run sample_process [''d'', ''-print''] [] (status, w')"
  by (rule program_returns) (simp add: sample_process_def)

end
