(* ===== verification/Unix_Platform.thy ===== *)
theory Unix_Platform
  imports Parallel_Run
begin

unbundle bit_operations_syntax

text \<open>
  The Linux back end: \<^verbatim>\<open>src/src/platform/unix/linux.rs\<close>, the Unix half of the readers of
  \<^verbatim>\<open>src/src/platform/filesystem.rs\<close>, the POSIX half of \<^verbatim>\<open>src/src/platform/locale.rs\<close> and
  \<^verbatim>\<open>BatchLimit::detect\<close> of \<^verbatim>\<open>src/src/exec/batch.rs\<close>, over a record of system calls.
\<close>

section \<open>Static tables (platform/unix/linux.rs)\<close>

definition linux_capabilities :: platform_capabilities where
  "linux_capabilities =
     \<lparr>cap_fstype = SupportExact, cap_same_file_system = SupportExact, cap_birth_time = SupportExact,
      cap_file_flags = SupportExact,
      cap_reparse_type = SupportUnsupported ''reparse type is only supported on Windows'',
      cap_named_ownership = SupportExact, cap_numeric_ownership = SupportExact,
      cap_windows_ownership = SupportUnsupported ''Windows ownership predicates are only supported on Windows'',
      cap_access_predicates = SupportExact, cap_messages_locale = SupportExact,
      cap_case_insensitive_glob = SupportExact, cap_mode_bits = SupportExact,
      cap_output_contract = ContractPosix\<rparr>"

definition linux_flag_specs :: "flag_spec list" where
  "linux_flag_specs =
     [\<lparr>spec_name = ''append'', spec_bit = 0x20\<rparr>, \<lparr>spec_name = ''immutable'', spec_bit = 0x10\<rparr>,
      \<lparr>spec_name = ''nodump'', spec_bit = 0x40\<rparr>]"

section \<open>System calls\<close>

record statx_result =
  sx_mask :: u32
  sx_mnt_id :: u64
  sx_btime_sec :: int
  sx_btime_nsec :: u32

text \<open>
  A call that fails yields the error of \<^verbatim>\<open>errno\<close>.  \<open>uc_statx\<close> takes the flag that follows a
  final link and the mask of the wanted fields, \<open>uc_open\<close> the flag \<^verbatim>\<open>O_NOFOLLOW\<close>.
\<close>

record unix_calls =
  uc_stat :: "path \<Rightarrow> stat_metadata io_result"
  uc_lstat :: "path \<Rightarrow> stat_metadata io_result"
  uc_statx :: "path \<Rightarrow> bool \<Rightarrow> u32 \<Rightarrow> statx_result io_result"
  uc_open :: "path \<Rightarrow> bool \<Rightarrow> nat io_result"
  uc_get_flags :: "nat \<Rightarrow> u64 io_result"
  uc_faccessat :: "path \<Rightarrow> int \<Rightarrow> unit io_result"
  uc_access :: "path \<Rightarrow> int \<Rightarrow> unit io_result"
  uc_read_link :: "path \<Rightarrow> path io_result"
  uc_read_dir :: "path \<Rightarrow> dir_item io_result list io_result"
  uc_read_to_string :: "path \<Rightarrow> string io_result"

definition STATX_MNT_ID :: u32 where
  "STATX_MNT_ID = 0x1000"

definition STATX_BTIME :: u32 where
  "STATX_BTIME = 0x800"

definition EOPNOTSUPP :: int where
  "EOPNOTSUPP = 95"

definition has_nul :: "string \<Rightarrow> bool" where
  "has_nul s \<longleftrightarrow> CHR 0x00 \<in> set s"

definition linux_snapshot :: "unix_calls \<Rightarrow> filesystem_snapshot result" where
  "linux_snapshot calls =
     (case uc_read_to_string calls ''/proc/self/mountinfo'' of
        Inl err \<Rightarrow> Inl (diagnostic_new (''/proc/self/mountinfo: '' @ io_text err) 1)
      | Inr mountinfo \<Rightarrow> from_mountinfo mountinfo)"

definition linux_filesystem_key :: "unix_calls \<Rightarrow> path \<Rightarrow> bool \<Rightarrow> filesystem_key io_result" where
  "linux_filesystem_key calls p follow =
     (if has_nul p then Inl \<lparr>io_text = ''invalid path'', raw_os_error = None\<rparr>
      else
        (case uc_statx calls p follow STATX_MNT_ID of
           Inl err \<Rightarrow> Inl err
         | Inr sx \<Rightarrow>
             if sx_mask sx AND STATX_MNT_ID = 0
             then Inl \<lparr>io_text = ''Operation not supported (os error 95)'', raw_os_error = Some EOPNOTSUPP\<rparr>
             else Inr (KeyNumeric (sx_mnt_id sx))))"

definition linux_birth_time :: "unix_calls \<Rightarrow> path \<Rightarrow> bool \<Rightarrow> timestamp option result" where
  "linux_birth_time calls p follow =
     (if has_nul p then Inl (diagnostic_new (utf8_lossy p @ '': invalid path'') 1)
      else
        (case uc_statx calls p follow STATX_BTIME of
           Inl err \<Rightarrow>
             if raw_os_error err \<in> {Some ENOSYS, Some EOPNOTSUPP} then Inr None else Inl (path_error p err)
         | Inr sx \<Rightarrow>
             if sx_mask sx AND STATX_BTIME = 0 then Inr None
             else if sx_btime_sec sx = 0 \<and> sx_btime_nsec sx = 0 then Inr None
             else Inr (Some (Timestamp (sx_btime_sec sx) (sint (sx_btime_nsec sx))))))"

text \<open>
  Without following, a link cannot be opened (\<^verbatim>\<open>ELOOP\<close>, \<^verbatim>\<open>EMLINK\<close>) and has no flags; flags that
  the file system does not have (\<^verbatim>\<open>ENOTTY\<close>, \<^verbatim>\<open>EOPNOTSUPP\<close>, \<^verbatim>\<open>ENOSYS\<close>) are absent as well.
\<close>

definition linux_file_flags :: "unix_calls \<Rightarrow> path \<Rightarrow> bool \<Rightarrow> u64 option io_result" where
  "linux_file_flags calls p follow =
     (case uc_open calls p (\<not> follow) of
        Inl err \<Rightarrow>
          if \<not> follow \<and> raw_os_error err \<in> {Some 40, Some 31, Some 2} then Inr None else Inl err
      | Inr fd \<Rightarrow>
          (case uc_get_flags calls fd of
             Inl err \<Rightarrow>
               if raw_os_error err \<in> {Some 25, Some EOPNOTSUPP, Some ENOSYS} then Inr None else Inl err
           | Inr bits \<Rightarrow> Inr (Some bits)))"

section \<open>The reader (platform/filesystem.rs)\<close>

definition faccessat_access :: "unix_calls \<Rightarrow> path \<Rightarrow> access_mode \<Rightarrow> bool io_result" where
  "faccessat_access calls p mode = map_sum id (\<lambda>_. True) (uc_faccessat calls p (as_flag mode))"

definition access_access :: "unix_calls \<Rightarrow> path \<Rightarrow> access_mode \<Rightarrow> bool io_result" where
  "access_access calls p mode = (case uc_access calls p (as_flag mode) of Inr _ \<Rightarrow> Inr True | Inl err \<Rightarrow> Inr False)"

definition unix_read_access :: "unix_calls \<Rightarrow> path \<Rightarrow> access_mode \<Rightarrow> bool io_result" where
  "unix_read_access calls p mode =
     (if has_nul p then Inl \<lparr>io_text = ''invalid path'', raw_os_error = None\<rparr>
      else read_access_with p mode (faccessat_access calls) (access_access calls))"

definition unix_directory_is_empty :: "unix_calls \<Rightarrow> path \<Rightarrow> bool io_result" where
  "unix_directory_is_empty calls p =
     try_bind (uc_read_dir calls p) (\<lambda>items.
       case items of
         [] \<Rightarrow> Inr True
       | Inr item # _ \<Rightarrow> Inr False
       | Inl err # _ \<Rightarrow> Inl err)"

definition unix_reader :: "unix_calls \<Rightarrow> platform_reader" where
  "unix_reader calls =
     \<lparr>read_metadata_view =
        load_metadata_view (linux_file_flags calls) (linux_birth_time calls) (linux_filesystem_key calls)
          (uc_stat calls) (uc_lstat calls),
      read_link = uc_read_link calls,
      read_directory_is_empty = unix_directory_is_empty calls,
      read_access = unix_read_access calls\<rparr>"

abbreviation unix_backend :: "unix_calls \<Rightarrow> walk_backend" where
  "unix_backend calls \<equiv> fs_walk_backend (unix_reader calls) (uc_read_dir calls)"

text \<open>
  The probes beside \<^verbatim>\<open>stat\<close> never make an entry unreadable: whether there is a view, and every
  field of it but three, is decided by \<^verbatim>\<open>stat\<close> or \<^verbatim>\<open>lstat\<close> alone.
\<close>

lemma unix_view:
  "read_metadata_view (unix_reader calls) p follow =
     map_sum id
       (\<lambda>m. metadata_view_from_metadata (linux_file_flags calls) (linux_birth_time calls) (linux_filesystem_key calls) p m follow)
       (if follow then uc_stat calls p else uc_lstat calls p)"
  by (auto simp: unix_reader_def load_metadata_view_def try_bind_def split: sum.split)

lemma unix_probes_optional:
  assumes "uc_stat calls' = uc_stat calls" "uc_lstat calls' = uc_lstat calls"
  shows "map_sum id (\<lambda>v. v\<lparr>view_flag_bits := None, view_birth_time := None, view_filesystem_key := None\<rparr>)
      (read_metadata_view (unix_reader calls') p follow)
    = map_sum id (\<lambda>v. v\<lparr>view_flag_bits := None, view_birth_time := None, view_filesystem_key := None\<rparr>)
      (read_metadata_view (unix_reader calls) p follow)"
  unfolding unix_view assms
  by (cases "if follow then uc_stat calls p else uc_lstat calls p") (simp_all add: metadata_view_from_metadata_def Let_def)

lemma unix_birth_time_nonzero:
  assumes "linux_birth_time calls p follow = Inr (Some t)"
  shows "t \<noteq> Timestamp 0 0"
proof -
  have "sint x = 0 \<longleftrightarrow> x = 0" for x :: u32 by (rule signed_eq_0_iff)
  then show ?thesis using assms by (auto simp: linux_birth_time_def split: if_splits sum.splits)
qed

text \<open>
  What the comparison of the two modes asks for holds on Linux where \<^verbatim>\<open>stat\<close> and \<^verbatim>\<open>lstat\<close> answer:
  a view always has an identity.
\<close>

lemma unix_backend_ok:
  assumes "re_backend (pa_env args) = unix_backend calls"
  shows "par_backend_ok args"
  using assms by (rule fs_backend_ok)

lemma unix_identities_found:
  assumes "re_backend (pa_env args) = unix_backend calls"
    and "\<And>p. \<exists>m. uc_stat calls p = Inr m" "\<And>p. \<exists>m. uc_lstat calls p = Inr m"
  shows "identities_found args"
proof (rule fs_identities_found [OF assms(1)])
  have "\<exists>v i. read_metadata_view (unix_reader calls) p follow = Inr v \<and> view_identity v = Some i" for p follow
    using assms(2) [of p] assms(3) [of p]
    by (auto simp: unix_view metadata_view_from_metadata_def Let_def)
  then show "total_reader (unix_reader calls)" by (simp add: total_reader_def)
qed

section \<open>The messages locale and affirmative replies (platform/locale.rs)\<close>

text \<open>\<open>setlocale\<close> yields the name of the locale that is then active, or nothing.\<close>

definition resolve_locale_category :: "(int \<Rightarrow> string \<Rightarrow> string option) \<Rightarrow> int \<Rightarrow> string \<Rightarrow> string result" where
  "resolve_locale_category setlocale category label =
     (case (case setlocale category '''' of None \<Rightarrow> setlocale category ''C'' | Some name \<Rightarrow> Some name) of
        None \<Rightarrow> Inl (diagnostic_new (''failed to initialize '' @ label) 1)
      | Some active \<Rightarrow> Inr (utf8_lossy active))"

definition resolve_messages_locale :: "(int \<Rightarrow> string \<Rightarrow> string option) \<Rightarrow> messages_locale result" where
  "resolve_messages_locale setlocale =
     try_bind (resolve_locale_category setlocale 5 ''LC_MESSAGES'') (\<lambda>name.
       Inr \<lparr>resolved_name = name, prompt_locale = prompt_locale_for name\<rparr>)"

definition reply_cstring :: "string \<Rightarrow> string option" where
  "reply_cstring bytes = (if bytes = [] \<or> has_nul bytes then None else Some bytes)"

text \<open>With the C library's \<^verbatim>\<open>rpmatch\<close> (Linux, FreeBSD, AIX).\<close>

definition libc_affirmative :: "(string \<Rightarrow> int) \<Rightarrow> string \<Rightarrow> bool" where
  "libc_affirmative rpmatch bytes =
     (case reply_cstring bytes of None \<Rightarrow> False | Some reply \<Rightarrow> rpmatch reply = 1)"

text \<open>Elsewhere, with the locale's expression or word for yes.\<close>

definition eq_ignore_ascii_case :: "string \<Rightarrow> string \<Rightarrow> bool" where
  "eq_ignore_ascii_case s t \<longleftrightarrow> map to_ascii_lowercase s = map to_ascii_lowercase t"

definition is_ascii :: "string \<Rightarrow> bool" where
  "is_ascii s \<longleftrightarrow> list_all (\<lambda>c. byte_val c < 128) s"

definition default_ascii_yes :: "string \<Rightarrow> bool" where
  "default_ascii_yes bytes \<longleftrightarrow> eq_ignore_ascii_case bytes ''y'' \<or> eq_ignore_ascii_case bytes ''yes''"

definition yesstr_fallback :: "string \<Rightarrow> string \<Rightarrow> bool" where
  "yesstr_fallback bytes yesstr =
     (if yesstr = [] then default_ascii_yes bytes
      else if bytes = yesstr then True
      else if is_ascii bytes \<and> is_ascii yesstr then
        eq_ignore_ascii_case bytes yesstr
        \<or> length bytes = 1 \<and> to_ascii_lowercase (hd bytes) = to_ascii_lowercase (hd yesstr)
      else False)"

text \<open>\<open>langinfo\<close> yields a non-empty text or nothing; \<open>regexec\<close> is nothing for a pattern that does not compile.\<close>

definition langinfo_string :: "string option \<Rightarrow> string option" where
  "langinfo_string text = (case text of None \<Rightarrow> None | Some bytes \<Rightarrow> if bytes = [] then None else Some bytes)"

definition langinfo_affirmative ::
  "string option \<Rightarrow> string option \<Rightarrow> (string \<Rightarrow> string \<Rightarrow> bool option) \<Rightarrow> string \<Rightarrow> bool" where
  "langinfo_affirmative yesexpr yesstr regexec_matches bytes =
     (case reply_cstring bytes of
        None \<Rightarrow> False
      | Some reply \<Rightarrow>
          (case (case langinfo_string yesexpr of None \<Rightarrow> None | Some pattern \<Rightarrow> regexec_matches pattern reply) of
             Some matches \<Rightarrow> matches
           | None \<Rightarrow>
               (case langinfo_string yesstr of
                  Some word \<Rightarrow> yesstr_fallback bytes word
                | None \<Rightarrow> default_ascii_yes bytes)))"

text \<open>Whatever the locale says, an empty reply is a refusal; the word for yes is an agreement.\<close>

lemma empty_reply_refuses:
  "\<not> libc_affirmative rpmatch []" "\<not> langinfo_affirmative yesexpr yesstr regexec_matches []"
  by (simp_all add: libc_affirmative_def langinfo_affirmative_def reply_cstring_def)

lemma yesstr_agrees:
  assumes "langinfo_string yesstr = Some word" "reply_cstring word = Some word"
    and "\<And>pattern. langinfo_string yesexpr = Some pattern \<Longrightarrow> regexec_matches pattern word \<noteq> Some False"
  shows "langinfo_affirmative yesexpr yesstr regexec_matches word"
proof -
  have "yesstr_fallback word word"
    using assms(1) by (simp add: yesstr_fallback_def langinfo_string_def split: option.splits if_splits)
  with assms show ?thesis
    by (cases "langinfo_string yesexpr")
      (auto simp: langinfo_affirmative_def split: option.splits)
qed

lemma english_replies:
  "filter (\<lambda>reply. yesstr_fallback reply ''yes'') [''yes'', ''YES'', ''y'', ''Y'', ''yeah'', ''n'', '''']
     = [''yes'', ''YES'', ''y'', ''Y'']"
  by code_simp

section \<open>The size of a batch (exec/batch.rs)\<close>

text \<open>The arguments are what \<^verbatim>\<open>sysconf(_SC_ARG_MAX)\<close> answers and the environment.\<close>

definition detect_arg_max :: "int \<Rightarrow> nat" where
  "detect_arg_max sys_max = nat (max sys_max 4096)"

definition detect_batch_limit :: "int \<Rightarrow> (os_string \<times> os_string) list \<Rightarrow> nat" where
  "detect_batch_limit sys_max env =
     (let env_bytes = sum_list (map (\<lambda>(key, value). length key + length value + 2) env);
          safety_margin = 4096
      in detect_arg_max sys_max - env_bytes - safety_margin)"

text \<open>The limit leaves the safety margin and the environment free, unless it is zero.\<close>

lemma batch_limit_leaves_room:
  "detect_batch_limit sys_max env > 0 \<Longrightarrow>
   int (detect_batch_limit sys_max env + sum_list (map (\<lambda>(key, value). length key + length value + 2) env) + 4096) = sys_max"
  by (simp add: detect_batch_limit_def detect_arg_max_def Let_def)

end
