(* ===== verification/Spec2Isabelle.thy ===== *)
theory Spec2Isabelle
  imports Numeric Size_Arg Perm_Mode File_Flags Glob Time_Match Cmd_Ast Cmd_Parser Cmd_Language Std_Path Ordered_Map Exec_Template Exec_Batch Entry Printf Printf_Time Runtime_Plan Pipeline Eval Traversal_Control Render Ordered_Sink Literal_Time Regex_Gnu Accounts Planner Walker Ordered_Engine Broker Parallel_Core Worker_Sink Parallel_Worker Parallel_Moves Parallel_Run Parallel_Progress Parallel_Summary Parallel_Postorder Parallel_Preorder Command_Line Unix_Platform
begin

text \<open>
  \<^bold>\<open>A model of rushfind.\<close>  The program (\<^verbatim>\<open>rfd\<close>) is an implementation of GNU find in Rust with two
  engines.  \<^verbatim>\<open>src/src/cli.rs\<close> parses the arguments into a syntax tree (\<^verbatim>\<open>parser.rs\<close>),
  \<^verbatim>\<open>planner.rs\<close> lowers the tree to an execution plan, and \<^verbatim>\<open>runner.rs\<close> hands the plan to the
  ordered engine (\<^verbatim>\<open>ordered/engine.rs\<close> over the walker of \<^verbatim>\<open>walker.rs\<close>), which works like GNU
  find, or to the parallel engine (\<^verbatim>\<open>parallel/\<close>), in which workers steal subtrees from each
  other.  Both evaluate entries (\<^verbatim>\<open>entry.rs\<close>) with the same machine (\<^verbatim>\<open>runtime_pipeline.rs\<close>,
  \<^verbatim>\<open>eval.rs\<close>), which stops at every action and hands it to a sink: the ordered sink of
  \<^verbatim>\<open>exec/ordered.rs\<close>, or the sink of a worker, which writes through a broker thread.

  \<^bold>\<open>Conventions.\<close>  A byte is a \<^typ>\<open>char\<close>, every Rust string is the list of its bytes.  A
  fallible function yields a sum, \<open>Inl\<close> the diagnostic and \<open>Inr\<close> the value, so that every early
  return, every question mark and every raised error is a branch.  Machine integers that can wrap
  are words or have the wrap-around written out; \<^verbatim>\<open>usize\<close> lengths and depths are natural numbers,
  as they count objects in memory.  A structure is a record, an enumeration a datatype with the
  source's constructors.  Effects on the outside are a state \<open>'w\<close> that the calls of the
  operating system, collected in a record of functions, pass on.

  \<^bold>\<open>Parts.\<close>
  \<^item> \<open>Rfd_Prelude\<close>: results, diagnostics, UTF-8, number parsing and printing, the lemma collections.
    \<open>Ordered_Map\<close>: \<^verbatim>\<open>BTreeMap\<close> behind the locale \<open>ordered_map\<close>, interpreted on sorted association
    lists; the batches and the mount table use it.  \<open>Std_Path\<close>: the operations of
    \<^verbatim>\<open>std::path\<close> on Unix paths and \<^verbatim>\<open>platform/path.rs\<close>.
  \<^item> Operands of the command line: \<open>Numeric\<close> (\<^verbatim>\<open>numeric.rs\<close>), \<open>Size_Arg\<close> (\<^verbatim>\<open>size.rs\<close>), \<open>Perm_Mode\<close>
    (\<^verbatim>\<open>perm.rs\<close>), \<open>File_Flags\<close> (\<^verbatim>\<open>file_flags.rs\<close>), \<open>Glob\<close> (\<^verbatim>\<open>pattern/\<close>), \<open>Time_Match\<close>
    (\<^verbatim>\<open>time.rs\<close>), \<open>Literal_Time\<close> (\<^verbatim>\<open>literal_time.rs\<close>), \<open>Regex_Gnu\<close> (\<^verbatim>\<open>regex_match/\<close>),
    \<open>Exec_Template\<close> (\<^verbatim>\<open>exec/template.rs\<close>), \<open>Printf\<close> (the compiler of \<^verbatim>\<open>printf.rs\<close>).
  \<^item> Command line and plan: \<open>Cmd_Ast\<close> (\<^verbatim>\<open>ast.rs\<close>, \<^verbatim>\<open>args.rs\<close>, \<^verbatim>\<open>follow.rs\<close>), \<open>Cmd_Parser\<close>
    (\<^verbatim>\<open>parser.rs\<close>) and \<open>Cmd_Language\<close> (its grammar), \<open>Accounts\<close> (\<^verbatim>\<open>platform/accounts.rs\<close>), \<open>Runtime_Plan\<close> (\<^verbatim>\<open>optimizer.rs\<close>,
    \<^verbatim>\<open>runtime_policy.rs\<close>, the plan's data), \<open>Planner\<close> (\<^verbatim>\<open>planner.rs\<close>), \<open>Command_Line\<close> (\<^verbatim>\<open>cli.rs\<close>,
    \<^verbatim>\<open>version.rs\<close>, \<^verbatim>\<open>run_plan\<close> of \<^verbatim>\<open>runner.rs\<close>).
  \<^item> Entries and their evaluation: \<open>Entry\<close> (\<^verbatim>\<open>entry.rs\<close>, \<^verbatim>\<open>identity.rs\<close>), \<open>Unix_Platform\<close>
    (\<^verbatim>\<open>platform/unix/linux.rs\<close>, the readers of \<^verbatim>\<open>platform/filesystem.rs\<close>, \<^verbatim>\<open>platform/locale.rs\<close>),
    \<open>Eval\<close> (\<^verbatim>\<open>eval.rs\<close> and the mount table), \<open>Pipeline\<close> (the suspending evaluator of
    \<^verbatim>\<open>runtime_pipeline.rs\<close>), \<open>Traversal_Control\<close> (\<^verbatim>\<open>traversal_control.rs\<close>).
  \<^item> Actions: \<open>Printf_Time\<close> (\<^verbatim>\<open>printf_time.rs\<close>), \<open>Render\<close> (\<^verbatim>\<open>-print\<close>, \<^verbatim>\<open>-printf\<close>, \<^verbatim>\<open>-ls\<close>),
    \<open>Exec_Batch\<close> (\<^verbatim>\<open>exec/batch.rs\<close>), \<open>Ordered_Sink\<close> (\<^verbatim>\<open>exec/ordered.rs\<close>, \<^verbatim>\<open>exec/confirm.rs\<close>,
    \<^verbatim>\<open>exec/delete.rs\<close>, \<^verbatim>\<open>file_output.rs\<close>), \<open>Broker\<close> (\<^verbatim>\<open>output.rs\<close>, \<^verbatim>\<open>exec/child.rs\<close>).
  \<^item> The ordered engine: \<open>Walker\<close> (\<^verbatim>\<open>walker.rs\<close>: a stack of frames), \<open>Ordered_Engine\<close> (both ways of
    \<^verbatim>\<open>ordered/engine.rs\<close>, the queue that puts the evaluator threads' results in order).
  \<^item> The parallel engine: \<open>Parallel_Core\<close> (flags and task count, tasks, chunks, barriers, queues:
    \<^verbatim>\<open>parallel/control.rs\<close>, \<^verbatim>\<open>task.rs\<close>, \<^verbatim>\<open>chunking.rs\<close>, \<^verbatim>\<open>postorder.rs\<close>, \<^verbatim>\<open>scheduler.rs\<close>),
    \<open>Worker_Sink\<close> (the sinks of \<^verbatim>\<open>parallel/worker.rs\<close> and \<^verbatim>\<open>exec/parallel.rs\<close>), \<open>Parallel_Worker\<close>
    (the workers and the broker as a step relation \<open>par_step\<close>, \<^verbatim>\<open>parallel/engine.rs\<close>), and what
    its runs satisfy: \<open>Parallel_Moves\<close>, \<open>Parallel_Run\<close>, \<open>Parallel_Progress\<close>, \<open>Parallel_Summary\<close>,
    \<open>Parallel_Postorder\<close>, \<open>Parallel_Preorder\<close>.

  \<^bold>\<open>Interfaces.\<close>  \<open>action_sink\<close> (theory \<open>Pipeline\<close>) is what the evaluator asks of a sink: an
  invariant every dispatched action keeps.  \<open>failure_sink\<close> extends it by the accounting of failed
  actions and is interpreted on the ordered sink and on the library's shared parallel sink;
  \<open>stopping_sink\<close> extends it by the rule that a stop is announced in the shared flags before it is
  returned and is interpreted, twice, on the sink of a worker.  The lemmas about the loop of the
  evaluator are proved once in the locales.

  \<^bold>\<open>What is shown.\<close>
  \<^item> Operands: the matchers against reference semantics (globs against a language of words, symbolic
    modes against sets of bits, time windows against exact rational arithmetic, sizes against
    ceilings), compiled forms against the source text they came from, and that malformed operands
    are reported.
  \<^item> Parser and planner: the parser decides the command language, given by a grammar and a table of
    the words of each predicate and action, and returns the grammar's tree; every plan refers
    only to output files and requirements it has registered, its batch numbers are distinct and its
    global options do not depend on their place.
  \<^item> Evaluation: suspending at actions computes the big-step value of the expression; reordering
    read-only predicates agrees with it, and so does the verdict for pruning when the actions that
    ran were carried out.
  \<^item> Sinks: every path accepted for a batched command is run once, every failure is counted, every
    stop is announced.
  \<^item> Ordered engine: the loop over frames refines a recursive walk, ends on every file system, stays
    within the depth bounds and reports what is reachable; evaluation on threads commits in order
    and equals the inline run.
  \<^item> Parallel engine, for every number of workers and every interleaving: the task count is exact;
    every run is finite and never stuck; when it ends without an error it has evaluated exactly the
    entries of the ordered walk; in post-order each directory is evaluated after all that is below
    it, in pre-order before; the summary does not depend on the order of the reports; and the whole program returns.

  \<^bold>\<open>Bounds and fuel.\<close>
  \<^item> The recursive-descent parser has fuel \<open>parse_fuel n = 5 * n + 5\<close> for \<open>n\<close> tokens; it never runs
    out, since every token is read through at most five nested calls (\<open>fuel_claim\<close>).  The regular
    expression parser has \<open>gnu_fuel\<close> in the same way.
  \<^item> The walk has fuel; \<open>walk_returns\<close> gives enough, \<open>walk_fuel\<close>, for every file system: a directory
    is never entered below one with its identity, so the depth is bounded by the number of
    identities, a finite type, and no result depends on a limit of the tree.
  \<^item> The look-up of an account doubles its buffer as long as the C library asks for more room, in the
    source without a limit; it is a partial function whose \<open>None\<close> stands for a look-up that does
    not return, and it returns for a library that is content with some size.
  \<^item> Entries of an ordered run are numbered by 64-bit words; the statements about the queue ask for
    fewer than \<open>2 ^ 64\<close> of them.  Batches are numbered by 32-bit words; their distinctness asks for
    fewer than \<open>2 ^ 32\<close> leaves of the expression.
  \<^item> The steps of a parallel run are counted down by \<open>state_work\<close>; there is no fuel.

  \<^bold>\<open>Granularity of the parallel model.\<close>  One step of a worker is one iteration of its innermost
  loop, with the accesses to the shared flags, queues and barriers it makes; a task in progress is
  the list of its loops.  A check of the flags, the count and the push of one new task are one
  step, and so is the evaluation of one entry with its messages to the broker.  The file
  system answers the same question in the same way during a run.  Waiting in \<^verbatim>\<open>pop_blocking\<close> takes
  no step: a worker that finds no task stays where it is.  The queues of the crossbeam crate are
  lists and the outcome of a steal, the victim and the size of the batch included, is a choice of
  the schedule.  The theorems on the entries evaluated ask for \<open>par_backend_ok\<close>, which the back end
  over a file system always has (\<open>fs_backend_ok\<close>), and in pre-order for \<open>identities_found\<close>, which
  holds on Linux where \<^verbatim>\<open>stat\<close> answers (\<open>unix_identities_found\<close>).

  \<^bold>\<open>Parameters.\<close>  Not under \<^verbatim>\<open>src/\<close>, and therefore arguments: the system calls (\<^verbatim>\<open>stat\<close>,
  \<^verbatim>\<open>statx\<close>, \<^verbatim>\<open>readdir\<close>, \<^verbatim>\<open>readlink\<close>, \<^verbatim>\<open>faccessat\<close>, \<^verbatim>\<open>ioctl\<close>), the C library's \<^verbatim>\<open>mktime\<close>,
  \<^verbatim>\<open>localtime_r\<close>, \<^verbatim>\<open>getpwnam_r\<close> and its relatives, \<^verbatim>\<open>setlocale\<close> and \<^verbatim>\<open>rpmatch\<close>; the \<^verbatim>\<open>regex\<close> and
  \<^verbatim>\<open>pcre2\<close> engines; child processes, temporary files, the terminal; the environment, the clock, the
  number of processors and the version strings of the build; the order in which the evaluator
  threads deliver.  Caches (\<^verbatim>\<open>OnceLock\<close>, the account tables) are invisible or proved to be, since a
  parameter is a function.

  \<^bold>\<open>Not modelled.\<close>  \<^verbatim>\<open>platform/windows/\<close> and the Windows branches elsewhere, and
  \<^verbatim>\<open>platform/unix/bsd.rs\<close>: foreign calls behind the interface that the Linux back end implements
  here.  Module declarations, forwarding functions and tests.  The floating-point sparseness ratio
  of \<^verbatim>\<open>%S\<close> is an argument of the rendering.  The size of memory and of thread stacks.  Unwinding:
  where the source panics (\<^verbatim>\<open>parse_offset\<close> slicing text inside a character, an
  \<^verbatim>\<open>unreachable!\<close>), the model returns a diagnostic with the exit code of a panic (\<open>panic\<close>).
\<close>

end
